(* ===== verification/Prelude.thy ===== *)
theory Prelude
  imports Main "HOL-Library.Word"
begin

text \<open>
  Shared vocabulary of the development: machine-integer types, the result type of
  kernel operations that can stop the machine, the walk along a chain of pointers, and
  the list and word lemmas that several components use.
\<close>

unbundle bit_operations_syntax

section \<open>Machine integers\<close>

type_synonym u8 = "8 word"
type_synonym u16 = "16 word"
type_synonym u32 = "32 word"

text \<open>Lemma collections: word arithmetic read as natural numbers, and facts about
  loops over an array prefix.\<close>

named_theorems word_nat
named_theorems loop_simps

section \<open>Operations that can stop the machine\<close>

text \<open>
  The kernel's \<open>panic\<close> prints its message and halts: it is the error value
  \<open>Panic msg\<close>. \<open>NullDeref\<close> is an access through a null pointer, \<open>BadAccess\<close> an access
  outside an array, \<open>Runaway\<close> a walk or loop that does not finish within its bound.
\<close>

datatype fault = Panic string | NullDeref | BadAccess | Runaway

definition bindE :: "'e + 'a \<Rightarrow> ('a \<Rightarrow> 'e + 'b) \<Rightarrow> 'e + 'b" where
  "bindE m f = (case m of Inl e \<Rightarrow> Inl e | Inr x \<Rightarrow> f x)"

lemma bindE_simps [simp]:
  "bindE (Inl e) f = Inl e"
  "bindE (Inr x) f = f x"
  by (simp_all add: bindE_def)

lemma bindE_Inr_iff: "bindE m f = Inr y \<longleftrightarrow> (\<exists>x. m = Inr x \<and> f x = Inr y)"
  by (cases m) auto

lemma bindE_InrE:
  assumes "bindE m f = Inr y"
  obtains x where "m = Inr x" and "f x = Inr y"
  using assms by (cases m) auto

lemma bindE_assoc: "bindE (bindE m f) g = bindE m (\<lambda>x. bindE (f x) g)"
  by (cases m) auto

text \<open>A loop over a list whose body can stop the machine.\<close>

fun foldE :: "('x \<Rightarrow> 'a \<Rightarrow> 'e + 'a) \<Rightarrow> 'x list \<Rightarrow> 'a \<Rightarrow> 'e + 'a" where
  "foldE f [] s = Inr s"
| "foldE f (x # xs) s = bindE (f x s) (foldE f xs)"

lemma foldE_append: "foldE f (xs @ ys) s = bindE (foldE f xs s) (foldE f ys)"
  by (induction xs arbitrary: s) (simp_all add: bindE_def split: sum.split)

lemma foldE_invariant:
  assumes "foldE f xs s = Inr s'" and "P s"
    and "\<And>x s s'. x \<in> set xs \<Longrightarrow> P s \<Longrightarrow> f x s = Inr s' \<Longrightarrow> P s'"
  shows "P s'"
  using assms
proof (induction xs arbitrary: s)
  case (Cons x xs)
  from Cons.prems(1) obtain s1 where "f x s = Inr s1" "foldE f xs s1 = Inr s'"
    by (auto elim: bindE_InrE)
  with Cons show ?case by (metis list.set_intros)
qed simp

text \<open>The operation succeeds and its result satisfies \<open>P\<close>.\<close>

definition inr_sat :: "('e + 'a) \<Rightarrow> ('a \<Rightarrow> bool) \<Rightarrow> bool" where
  "inr_sat r P = (case r of Inl e \<Rightarrow> False | Inr x \<Rightarrow> P x)"

lemma inr_sat_simps [simp]: "\<not> inr_sat (Inl e) P" "inr_sat (Inr x) P = P x"
  by (simp_all add: inr_sat_def)

section \<open>Chains of pointers\<close>

text \<open>
  \<open>walk n nx p\<close> is the list of nodes a loop \<open>while (p) p = p->next\<close> visits, or \<open>None\<close>
  when it has not reached the null pointer after \<open>n\<close> nodes.
\<close>

fun walk :: "nat \<Rightarrow> ('p \<Rightarrow> 'p option) \<Rightarrow> 'p option \<Rightarrow> 'p list option" where
  "walk n nx None = Some []"
| "walk 0 nx (Some p) = None"
| "walk (Suc n) nx (Some p) = map_option ((#) p) (walk n nx (nx p))"

text \<open>
  \<open>lseg nx p xs q\<close>: following the links from \<open>p\<close> visits the nodes \<open>xs\<close> and then is at
  \<open>q\<close>; \<open>linked\<close> is the segment that ends at the null pointer.
\<close>

fun lseg :: "('p \<Rightarrow> 'p option) \<Rightarrow> 'p option \<Rightarrow> 'p list \<Rightarrow> 'p option \<Rightarrow> bool" where
  "lseg nx p [] q \<longleftrightarrow> p = q"
| "lseg nx p (x # xs) q \<longleftrightarrow> p = Some x \<and> lseg nx (nx x) xs q"

abbreviation linked :: "('p \<Rightarrow> 'p option) \<Rightarrow> 'p option \<Rightarrow> 'p list \<Rightarrow> bool" where
  "linked nx p xs \<equiv> lseg nx p xs None"

lemma lseg_append [simp]:
  "lseg nx p (xs @ ys) q \<longleftrightarrow> (\<exists>r. lseg nx p xs r \<and> lseg nx r ys q)"
  by (induction xs arbitrary: p) auto

lemma walk_linked: "walk n nx p = Some xs \<Longrightarrow> linked nx p xs"
  by (induction n nx p arbitrary: xs rule: walk.induct) auto

lemma linked_walk: "linked nx p xs \<Longrightarrow> length xs \<le> n \<Longrightarrow> walk n nx p = Some xs"
proof (induction xs arbitrary: n p)
  case (Cons x xs)
  then show ?case by (cases n) auto
qed auto

lemma walk_length: "walk n nx p = Some xs \<Longrightarrow> length xs \<le> n"
  by (induction n nx p arbitrary: xs rule: walk.induct) auto

lemma linked_unique: "linked nx p xs \<Longrightarrow> linked nx p ys \<Longrightarrow> xs = ys"
proof (induction xs arbitrary: p ys)
  case Nil
  then show ?case by (cases ys) auto
next
  case (Cons x xs)
  then show ?case by (cases ys) auto
qed

lemma lseg_cong: "(\<And>x. x \<in> set xs \<Longrightarrow> nx x = ny x) \<Longrightarrow> lseg nx p xs q = lseg ny p xs q"
  by (induction xs arbitrary: p) auto

lemma linked_distinct: "linked nx p xs \<Longrightarrow> distinct xs"
proof (induction xs arbitrary: p)
  case (Cons x xs)
  have "x \<notin> set xs"
  proof
    assume "x \<in> set xs"
    then obtain as bs where sp: "xs = as @ x # bs" by (meson split_list)
    with Cons.prems have "linked nx (Some x) (x # bs)" and "linked nx (Some x) (x # xs)"
      by auto
    then have "bs = xs" using linked_unique by fastforce
    with sp show False by simp
  qed
  then show ?case using Cons.prems by (auto intro: Cons.IH)
qed simp

section \<open>Lists used as arrays\<close>

lemma take_Suc_update:
  "i < length xs \<Longrightarrow> take (Suc i) (xs[i := v]) = take i xs @ [v]"
  by (simp add: take_Suc_conv_app_nth)

lemma sum_list_update_nat:
  "i < length xs \<Longrightarrow> sum_list (xs[i := v]) + xs ! i = sum_list xs + (v::nat)"
  by (induction xs arbitrary: i) (auto split: nat.splits)

lemma count_list_filter: "count_list xs x = length (filter ((=) x) xs)"
  by (induction xs) auto

lemma find_append:
  "find P (xs @ ys) = (case find P xs of None \<Rightarrow> find P ys | Some x \<Rightarrow> Some x)"
  by (induction xs) auto

section \<open>Words read as natural numbers\<close>

lemma unat_mask_mod [word_nat]: "unat (w AND mask n :: 'a::len word) = unat w mod 2 ^ n"
  by (metis take_bit_eq_mask take_bit_eq_mod unsigned_take_bit_eq)

lemma unat_plus_no_wrap [word_nat]:
  "unat a + unat b < 2 ^ LENGTH('a) \<Longrightarrow> unat (a + b :: 'a::len word) = unat a + unat b"
  by (simp add: unat_word_ariths)

lemma unat_minus_le [word_nat]: "b \<le> a \<Longrightarrow> unat (a - b :: 'a::len word) = unat a - unat b"
  by (simp add: unat_sub)

lemma unat_of_nat_small [word_nat]:
  "x < 2 ^ LENGTH('a) \<Longrightarrow> unat (of_nat x :: 'a::len word) = x"
  by (simp add: unsigned_of_nat take_bit_nat_eq_self)

lemma bit_push_one: "k < LENGTH('a) \<Longrightarrow> bit (push_bit k 1 :: 'a::len word) n \<longleftrightarrow> n = k"
  by (auto simp: bit_exp_iff possible_bit_word)

lemma and_not_mask_nat: "unat (w AND NOT (mask n) :: 'a::len word) = unat w - unat w mod 2 ^ n"
proof -
  have "(w AND NOT (mask n)) + (w AND mask n) = (w AND NOT (mask n)) OR (w AND mask n)"
    by (rule disjunctive_add_eq_or) (simp add: bit_eq_iff bit_simps)
  also have "\<dots> = w" by (rule bit_eqI) (auto simp: bit_simps)
  finally have *: "w AND NOT (mask n) = w - (w AND mask n)" by (simp add: algebra_simps)
  have "w AND mask n \<le> w" by (rule word_and_le2)
  then show ?thesis by (simp add: * unat_sub unat_mask_mod)
qed

lemma nat_round_up: "(n + (m - 1)) - (n + (m - 1)) mod m \<ge> n" if "0 < m" for m n :: nat
proof -
  have "(n + (m - 1)) mod m \<le> m - 1" using that by (simp add: less_Suc_eq_le [symmetric])
  then show ?thesis by linarith
qed

lemma unat_u32_lt: "unat (x :: u32) < 2 ^ 32"
  using unsigned_less [of x] by simp

lemma div_mod_offset:
  assumes "p mod n + i < (n :: nat)"
  shows "(p + i) div n = p div n" and "(p + i) mod n = p mod n + i"
proof -
  have e: "p + i = (p mod n + i) + (p div n) * n" using div_mult_mod_eq [of p n] by linarith
  have "(p + i) div n = (p mod n + i) div n + p div n"
    unfolding e using assms by (subst div_mult_self1) auto
  then show *: "(p + i) div n = p div n" using assms by simp
  show "(p + i) mod n = p mod n + i"
    using div_mult_mod_eq [of p n] div_mult_mod_eq [of "p + i" n] unfolding * by linarith
qed

lemma upt_split: "i \<le> j \<Longrightarrow> j \<le> k \<Longrightarrow> [i..<k] = [i..<j] @ [j..<k]"
  by (metis le_Suc_ex upt_add_eq_append)

end
