(* ===== verification/Interfaces.thy ===== *)
theory Interfaces
  imports Prelude
begin

text \<open>
  Contracts between components, as locales: what a client may rely on, with the
  client-side facts proved once. Each is interpreted on the model of the component that
  provides it, in that component's theory.
\<close>

section \<open>A bounded first-in first-out buffer\<close>

locale bounded_fifo =
  fixes enq :: "'a \<Rightarrow> 'q \<Rightarrow> 'q"
    and deq :: "'q \<Rightarrow> 'a \<times> 'q"
    and items :: "'q \<Rightarrow> 'a list"
    and cap :: nat
    and ok :: "'q \<Rightarrow> bool"
  assumes items_bound: "ok q \<Longrightarrow> length (items q) \<le> cap"
    and items_enq: "ok q \<Longrightarrow> length (items q) < cap \<Longrightarrow> items (enq x q) = items q @ [x]"
    and ok_enq: "ok q \<Longrightarrow> length (items q) < cap \<Longrightarrow> ok (enq x q)"
    and deq_hd: "ok q \<Longrightarrow> items q \<noteq> [] \<Longrightarrow> fst (deq q) = hd (items q)"
    and items_deq: "ok q \<Longrightarrow> items q \<noteq> [] \<Longrightarrow> items (snd (deq q)) = tl (items q)"
    and ok_deq: "ok q \<Longrightarrow> items q \<noteq> [] \<Longrightarrow> ok (snd (deq q))"
begin

fun enq_all :: "'a list \<Rightarrow> 'q \<Rightarrow> 'q" where
  "enq_all [] q = q"
| "enq_all (x # xs) q = enq_all xs (enq x q)"

fun deq_n :: "nat \<Rightarrow> 'q \<Rightarrow> 'a list \<times> 'q" where
  "deq_n 0 q = ([], q)"
| "deq_n (Suc n) q = (let (x, q') = deq q; (xs, q'') = deq_n n q' in (x # xs, q''))"

lemma enq_all_items:
  "ok q \<Longrightarrow> length (items q) + length xs \<le> cap \<Longrightarrow>
     ok (enq_all xs q) \<and> items (enq_all xs q) = items q @ xs"
  by (induction xs arbitrary: q) (simp_all add: items_enq ok_enq)

lemma deq_n_items:
  "ok q \<Longrightarrow> n \<le> length (items q) \<Longrightarrow>
     fst (deq_n n q) = take n (items q) \<and> items (snd (deq_n n q)) = drop n (items q) \<and>
     ok (snd (deq_n n q))"
proof (induction n arbitrary: q)
  case (Suc n)
  then have ne: "items q \<noteq> []" by auto
  obtain x q' where d: "deq q = (x, q')" by (cases "deq q")
  with Suc.prems ne have q': "ok q'" "items q' = tl (items q)" "x = hd (items q)"
    using ok_deq [of q] items_deq [of q] deq_hd [of q] by auto
  with Suc.prems ne have "n \<le> length (items q')" by auto
  from Suc.IH [OF q'(1) this] show ?case
    using d q' ne by (cases "items q") (auto simp: split_beta)
qed simp

text \<open>What goes in comes out, in order: filling and then draining is the identity.\<close>

lemma fill_drain:
  assumes "ok q" and "items q = []" and "length xs \<le> cap"
  shows "fst (deq_n (length xs) (enq_all xs q)) = xs"
  using enq_all_items [of q xs] deq_n_items [of "enq_all xs q" "length xs"] assms by simp

end

section \<open>An allocator of numbered frames\<close>

text \<open>
  \<open>alloc\<close> hands out the address of a frame that nobody owns and takes it; every other
  frame keeps its state. \<open>release\<close> gives a frame back.
\<close>

locale frame_allocator =
  fixes alloc :: "'s \<Rightarrow> 'e + (u32 \<times> 's)"
    and release :: "u32 \<Rightarrow> 's \<Rightarrow> 's"
    and used :: "'s \<Rightarrow> nat \<Rightarrow> bool"
    and frame :: "u32 \<Rightarrow> nat"
    and ok :: "'s \<Rightarrow> bool"
  assumes alloc_fresh: "ok s \<Longrightarrow> alloc s = Inr (a, s') \<Longrightarrow> \<not> used s (frame a)"
    and alloc_used: "ok s \<Longrightarrow> alloc s = Inr (a, s') \<Longrightarrow> used s' i \<longleftrightarrow> used s i \<or> i = frame a"
    and alloc_ok: "ok s \<Longrightarrow> alloc s = Inr (a, s') \<Longrightarrow> ok s'"
    and release_used: "ok s \<Longrightarrow> used s (frame a) \<Longrightarrow> used (release a s) i \<longleftrightarrow> used s i \<and> i \<noteq> frame a"
    and release_ok: "ok s \<Longrightarrow> ok (release a s)"
begin

text \<open>A sequence of \<open>n\<close> allocations, stopping at the first failure.\<close>

fun alloc_n :: "nat \<Rightarrow> 's \<Rightarrow> 'e + (u32 list \<times> 's)" where
  "alloc_n 0 s = Inr ([], s)"
| "alloc_n (Suc n) s =
     bindE (alloc s) (\<lambda>(a, s). bindE (alloc_n n s) (\<lambda>(as, s). Inr (a # as, s)))"

text \<open>All the frames of a sequence are different, and none was owned before.\<close>

lemma alloc_n_distinct:
  "ok s \<Longrightarrow> alloc_n n s = Inr (as, s') \<Longrightarrow>
     distinct (map frame as) \<and> (\<forall>a \<in> set as. \<not> used s (frame a)) \<and> ok s' \<and>
     (\<forall>i. used s' i \<longleftrightarrow> used s i \<or> i \<in> frame ` set as)"
proof (induction n arbitrary: s as s')
  case (Suc n)
  from Suc.prems(2) obtain a s1 bs where a: "alloc s = Inr (a, s1)"
    and bs: "alloc_n n s1 = Inr (bs, s')" and as: "as = a # bs"
    by (auto elim!: bindE_InrE)
  note s1 = alloc_ok [OF Suc.prems(1) a] alloc_used [OF Suc.prems(1) a]
    alloc_fresh [OF Suc.prems(1) a]
  with Suc.IH [OF s1(1) bs] as show ?case by auto
qed auto

lemma release_alloc:
  assumes "ok s" and "alloc s = Inr (a, s')"
  shows "used (release a s') i \<longleftrightarrow> used s i"
  using assms alloc_ok [OF assms] alloc_used [OF assms] alloc_fresh [OF assms]
    release_used [of s' a i] by auto

end

end
