(* ===== verification/Task_Types.thy ===== *)
theory Task_Types
  imports Prelude
begin

text \<open>
  The data of \<open>kernel/task.h\<close> and the open-file record of \<open>kernel/vfs.h\<close>. A pointer to a
  \<open>struct task\<close> or to a \<open>struct vfs_node\<close> is a number; the memory it points into is a
  function of the component that owns the structs.
\<close>

type_synonym tptr = nat
type_synonym vptr = nat

definition VFS_FD_MAX :: nat where "VFS_FD_MAX = 32"

record vfs_fd =
  fd_open :: bool
  fd_append :: bool
  fd_nonblock :: bool
  fd_node :: "vptr option"
  fd_offset :: u32
  fd_dir_idx :: u32

definition closed_fd :: vfs_fd where
  "closed_fd = \<lparr>fd_open = False, fd_append = False, fd_nonblock = False, fd_node = None,
     fd_offset = 0, fd_dir_idx = 0\<rparr>"

definition TASK_MAGIC :: u32 where "TASK_MAGIC = 0xCA11AB1E"
definition TASK_MAGIC_DEAD :: u32 where "TASK_MAGIC_DEAD = 0xDEADDEAD"
definition TASK_ENVIRON_MAX :: nat where "TASK_ENVIRON_MAX = 32"
definition TASK_ENVIRON_LEN :: nat where "TASK_ENVIRON_LEN = 128"
definition PID_IDLE :: u32 where "PID_IDLE = 0"
definition PID_INIT :: u32 where "PID_INIT = 1"
definition TASK_STACK_SIZE :: u32 where "TASK_STACK_SIZE = 16384"

definition SCHED_LEVEL_SUSP :: int where "SCHED_LEVEL_SUSP = 0"
definition SCHED_LEVEL_IDLE :: int where "SCHED_LEVEL_IDLE = -1"
definition SCHED_LEVEL_MIN :: int where "SCHED_LEVEL_MIN = 1"
definition SCHED_LEVEL_MAX :: int where "SCHED_LEVEL_MAX = 10"

lemmas sched_level_defs = SCHED_LEVEL_SUSP_def SCHED_LEVEL_IDLE_def SCHED_LEVEL_MIN_def
  SCHED_LEVEL_MAX_def

text \<open>
  \<open>struct task\<close>. Strings are the characters before the terminating NUL; \<open>environ\<close> is
  the table of \<open>NAME=VAL\<close> strings, of which the first \<open>environ_count\<close> are in use.
\<close>

record task =
  magic :: u32
  tname :: string
  pid :: u32
  created :: u32
  prio_s :: int
  prio_d :: int
  switched_in_ms :: u32
  esp :: u32
  page_dir_phys :: u32
  stack_base :: u32
  stack_hwm :: u32
  t_entry :: "nat option"
  fds :: "vfs_fd list"
  ppid :: u32
  wait_pid :: int
  wait_done :: bool
  exit_status :: int
  ticks :: u32
  ticks_window :: u32
  cpu_pct :: u32
  fault_count :: u32
  read_nonblock :: bool
  blocking :: bool
  cwd :: string
  cmdline :: string
  brk :: u32
  environ :: "string list"
  environ_count :: nat
  t_prev :: "tptr option"
  t_next :: "tptr option"

text \<open>A task struct after \<open>memset(t, 0, sizeof(*t))\<close>.\<close>

definition zero_task :: task where
  "zero_task = \<lparr>magic = 0, tname = [], pid = 0, created = 0, prio_s = 0, prio_d = 0,
     switched_in_ms = 0, esp = 0,
     page_dir_phys = 0, stack_base = 0, stack_hwm = 0,
     t_entry = None, fds = replicate VFS_FD_MAX closed_fd,
     ppid = 0, wait_pid = 0, wait_done = False, exit_status = 0, ticks = 0, ticks_window = 0,
     cpu_pct = 0, fault_count = 0, read_nonblock = False, blocking = False, cwd = [],
     cmdline = [], brk = 0, environ = replicate TASK_ENVIRON_MAX [], environ_count = 0,
     t_prev = None, t_next = None\<rparr>"

text \<open>The scheduler's globals, with the memory that holds the task structs.\<close>

record sched_state =
  task_at :: "tptr \<Rightarrow> task"
  sched_queue :: "tptr option"
  running_task :: "tptr option"
  prev_task :: "tptr option"
  total_ticks :: u32
  last_pid :: u32

definition upd_task :: "tptr \<Rightarrow> (task \<Rightarrow> task) \<Rightarrow> sched_state \<Rightarrow> sched_state" where
  "upd_task t f s = s\<lparr>task_at := (task_at s)(t := f (task_at s t))\<rparr>"

lemma upd_task_simps [simp]:
  "task_at (upd_task t f s) = (task_at s)(t := f (task_at s t))"
  "sched_queue (upd_task t f s) = sched_queue s"
  "running_task (upd_task t f s) = running_task s"
  "prev_task (upd_task t f s) = prev_task s"
  "total_ticks (upd_task t f s) = total_ticks s"
  "last_pid (upd_task t f s) = last_pid s"
  by (simp_all add: upd_task_def)

text \<open>
  The scheduler queue is a doubly linked list. Every walk along it in the kernel is
  bounded by 1024 nodes: \<open>sched_queue_verify\<close>, called at every mutation, panics on a
  longer one.
\<close>

definition QUEUE_BOUND :: nat where "QUEUE_BOUND = 1024"

abbreviation next_of :: "(tptr \<Rightarrow> task) \<Rightarrow> tptr \<Rightarrow> tptr option" where
  "next_of h \<equiv> \<lambda>p. t_next (h p)"

definition queue_nodes :: "sched_state \<Rightarrow> tptr list option" where
  "queue_nodes s = walk QUEUE_BOUND (next_of (task_at s)) (sched_queue s)"

lemma queue_nodes_linked:
  "linked (next_of (task_at s)) (sched_queue s) xs \<Longrightarrow> length xs \<le> QUEUE_BOUND \<Longrightarrow>
     queue_nodes s = Some xs"
  by (simp add: queue_nodes_def linked_walk)

text \<open>
  The user half of the address space (\<open>kernel/vmm.h\<close>), and the check of a user pointer, a
  copy of which stands in \<open>kernel/syscall.c\<close> and in \<open>kernel/env_dev.c\<close>.
\<close>

definition USER_SPACE_START :: u32 where "USER_SPACE_START = 0x01000000"
definition USER_SPACE_END :: u32 where "USER_SPACE_END = 0xC0000000"

definition user_access_ok :: "u32 \<Rightarrow> u32 \<Rightarrow> bool" where
  "user_access_ok addr len =
     (if addr < USER_SPACE_START then False
      else if addr \<ge> USER_SPACE_END then False
      else if len > 1 \<and> len > USER_SPACE_END - addr then False
      else True)"

text \<open>An accepted range of two bytes or more lies inside user space.\<close>

lemma user_access_ok_range:
  "user_access_ok addr len \<Longrightarrow> 1 < len \<Longrightarrow>
     unat USER_SPACE_START \<le> unat addr \<and> unat addr + unat len \<le> unat USER_SPACE_END"
  by (auto simp: user_access_ok_def USER_SPACE_END_def USER_SPACE_START_def word_le_nat_alt
      word_less_nat_alt unat_sub split: if_splits)

end
