(* ===== verification/Sched.thy ===== *)
theory Sched
  imports Task_Types
begin

text \<open>
  The priority scheduler, \<open>kernel/sched.c\<close>: \<open>sched\<close> is run by the timer interrupt and
  chooses the next \<open>running_task\<close>. The proofs show that it always finds a task, that one
  reset of the priorities is enough, and that in a full cycle every task runs exactly
  as often as its static priority.
\<close>

section \<open>Model\<close>

definition clear_queues :: "sched_state \<Rightarrow> sched_state" where
  "clear_queues s = s\<lparr>sched_queue := None, running_task := None, prev_task := None\<rparr>"

definition init_sched :: "sched_state \<Rightarrow> sched_state" where
  "init_sched s = clear_queues s"

text \<open>\<open>reset_all_priorities\<close>: walks until the idle task, counting the tasks it resets.\<close>

fun reset_all_priorities :: "(tptr \<Rightarrow> task) \<Rightarrow> tptr list \<Rightarrow> (tptr \<Rightarrow> task) \<times> nat" where
  "reset_all_priorities h [] = (h, 0)"
| "reset_all_priorities h (t # ts) =
     (if pid (h t) = PID_IDLE then (h, 0)
      else let (h', r) = reset_all_priorities (h(t := (h t)\<lparr>prio_d := prio_s (h t)\<rparr>)) ts
           in (h', Suc r))"

text \<open>The tick accounting at the top of \<open>sched\<close>.\<close>

definition account_tick :: "sched_state \<Rightarrow> sched_state" where
  "account_tick s =
     (let s = s\<lparr>total_ticks := total_ticks s + 1\<rparr> in
      case running_task s of
        None \<Rightarrow> s
      | Some r \<Rightarrow>
          if blocking (task_at s r) then s
          else upd_task r (\<lambda>t. t\<lparr>ticks := ticks t + 1, ticks_window := ticks_window t + 1\<rparr>) s)"

fun close_window :: "tptr list \<Rightarrow> sched_state \<Rightarrow> sched_state" where
  "close_window [] s = s"
| "close_window (w # ws) s =
     close_window ws
       (upd_task w (\<lambda>t. t\<lparr>cpu_pct := ticks_window t div 10, ticks_window := 0\<rparr>) s)"

text \<open>The inner walk over a group of tied tasks: prefer the one that is running.\<close>

fun tie_break :: "(tptr \<Rightarrow> task) \<Rightarrow> tptr option \<Rightarrow> int \<Rightarrow> tptr list \<Rightarrow> tptr \<Rightarrow> tptr" where
  "tie_break h run prio [] picked = picked"
| "tie_break h run prio (g # gs) picked =
     (if prio_d (h g) = prio
      then (if Some g = run then g else tie_break h run prio gs picked)
      else picked)"

text \<open>
  The scan after the label \<open>pick\<close>. The result is the picked task and the task \<open>t\<close> at
  which the scan stopped, or \<open>None\<close> when it ran off the end of the queue.
\<close>

fun pick_scan :: "(tptr \<Rightarrow> task) \<Rightarrow> tptr option \<Rightarrow> tptr list \<Rightarrow> (tptr \<times> tptr) option" where
  "pick_scan h run [] = None"
| "pick_scan h run (t # ts) =
     (if prio_d (h t) = SCHED_LEVEL_SUSP then pick_scan h run ts
      else if ts = [] \<or> prio_d (h t) > prio_d (h (hd ts)) then Some (t, t)
      else if prio_d (h t) = prio_d (h (hd ts))
      then Some (tie_break h run (prio_d (h t)) (t # ts) t, t)
      else pick_scan h run ts)"

text \<open>
  The part from \<open>pick\<close> to the aging of the picked task; \<open>n\<close> bounds the jumps back to
  \<open>pick\<close>.
\<close>

fun sched_pick :: "nat \<Rightarrow> sched_state \<Rightarrow> fault + (tptr \<times> sched_state)" where
  "sched_pick 0 s = Inl Runaway"
| "sched_pick (Suc n) s =
     (case queue_nodes s of
        None \<Rightarrow> Inl Runaway
      | Some xs \<Rightarrow>
          (case pick_scan (task_at s) (running_task s) xs of
             None \<Rightarrow> Inl (Panic ''BUG: no tasks to schedule'')
           | Some (picked, t) \<Rightarrow>
               if pid (task_at s t) = PID_IDLE
               then (let (h, r) = reset_all_priorities (task_at s) xs;
                         s = s\<lparr>task_at := h\<rparr>
                     in if r > 0 then sched_pick n s else Inr (picked, s))
               else if prio_d (task_at s picked) > 0
               then Inr (picked, upd_task picked (\<lambda>t. t\<lparr>prio_d := prio_d t - 1\<rparr>) s)
               else Inr (picked, s)))"

definition sched :: "nat \<Rightarrow> sched_state \<Rightarrow> fault + sched_state" where
  "sched n s =
     (let s = account_tick s in
      case queue_nodes s of
        None \<Rightarrow> Inl Runaway
      | Some xs \<Rightarrow>
          (let s = (if total_ticks s mod 1000 = 0 then close_window xs s else s);
               s = s\<lparr>prev_task := None\<rparr>
           in if sched_queue s = None
              then Inl (Panic ''BUG: no tasks to run as head of sched_queue is missing'')
              else bindE (sched_pick n s) (\<lambda>(picked, s).
                if Some picked \<noteq> running_task s
                then Inr (s\<lparr>prev_task := running_task s, running_task := Some picked\<rparr>)
                else Inr s)))"

text \<open>A sequence of timer ticks, with the task chosen at each.\<close>

fun sched_run :: "nat \<Rightarrow> nat \<Rightarrow> sched_state \<Rightarrow> fault + (tptr list \<times> sched_state)" where
  "sched_run n 0 s = Inr ([], s)"
| "sched_run n (Suc k) s =
     bindE (sched n s) (\<lambda>s.
       bindE (sched_run n k s) (\<lambda>(ps, s'). Inr (the (running_task s) # ps, s')))"

declare sched_pick.simps [simp del]

section \<open>The queue the kernel keeps\<close>

text \<open>
  The queue holds the tasks \<open>us\<close> and then the idle task \<open>i\<close>; every task but idle has a
  positive static priority and a dynamic priority that is not negative.
\<close>

definition task_ok :: "task \<Rightarrow> bool" where
  "task_ok t \<longleftrightarrow> pid t \<noteq> PID_IDLE \<and> 1 \<le> prio_s t \<and> 0 \<le> prio_d t"

definition idle_ok :: "task \<Rightarrow> bool" where
  "idle_ok t \<longleftrightarrow> pid t = PID_IDLE \<and> prio_s t = SCHED_LEVEL_IDLE \<and> prio_d t = SCHED_LEVEL_IDLE"

definition sched_wf :: "sched_state \<Rightarrow> tptr list \<Rightarrow> tptr \<Rightarrow> bool" where
  "sched_wf s us i \<longleftrightarrow>
     linked (next_of (task_at s)) (sched_queue s) (us @ [i]) \<and>
     length us < QUEUE_BOUND \<and> idle_ok (task_at s i) \<and> (\<forall>u \<in> set us. task_ok (task_at s u))"

lemma sched_wf_nodes: "sched_wf s us i \<Longrightarrow> queue_nodes s = Some (us @ [i])"
  unfolding sched_wf_def by (intro queue_nodes_linked) auto

lemma sched_wf_distinct: "sched_wf s us i \<Longrightarrow> distinct (us @ [i])"
  unfolding sched_wf_def by (blast dest: linked_distinct)

section \<open>The scan\<close>

lemma tie_break_mem: "tie_break h run pr xs d \<in> insert d (set xs)"
  by (induction xs) auto

lemma tie_break_prio:
  "prio_d (h d) = pr \<Longrightarrow> prio_d (h (tie_break h run pr xs d)) = pr"
  by (induction xs) auto

text \<open>While some task has dynamic priority left, the scan picks a task of \<open>us\<close> that has.\<close>

lemma pick_scan_pending:
  assumes "\<forall>u \<in> set us. 0 \<le> prio_d (h u)" and "prio_d (h i) < 0"
    and "\<exists>u \<in> set us. 0 < prio_d (h u)"
  shows "\<exists>p t. pick_scan h run (us @ [i]) = Some (p, t) \<and> p \<in> set us \<and> t \<in> set us \<and>
    0 < prio_d (h p) \<and> prio_d (h p) = prio_d (h t)"
  using assms
proof (induction us)
  case (Cons u us)
  show ?case
  proof (cases "prio_d (h u) = 0")
    case True
    with Cons have "\<exists>u \<in> set us. 0 < prio_d (h u)" by auto
    with Cons True show ?thesis by (fastforce simp: sched_level_defs)
  next
    case False
    with Cons.prems have pos: "0 < prio_d (h u)" by (auto simp: less_le)
    let ?n = "hd (us @ [i])"
    show ?thesis
    proof (cases "prio_d (h u) > prio_d (h ?n)")
      case True
      with pos show ?thesis by (auto simp: sched_level_defs)
    next
      case le: False
      with pos Cons.prems(2) have us: "us \<noteq> []" by auto
      then have n: "?n \<in> set us" by simp
      show ?thesis
      proof (cases "prio_d (h u) = prio_d (h ?n)")
        case True
        let ?p = "tie_break h run (prio_d (h u)) ((u # us) @ [i]) u"
        have pr: "prio_d (h ?p) = prio_d (h u)" by (rule tie_break_prio) simp
        moreover have "?p \<in> insert u (set ((u # us) @ [i]))" by (rule tie_break_mem)
        ultimately have "?p \<in> set (u # us)" using pos Cons.prems(2) by auto
        with pr pos True le us show ?thesis by (auto simp: sched_level_defs)
      next
        case ne: False
        with le pos have "0 < prio_d (h ?n)" by linarith
        with n have "\<exists>u \<in> set us. 0 < prio_d (h u)" by (rule bexI [rotated])
        then obtain p t where "pick_scan h run (us @ [i]) = Some (p, t) \<and> p \<in> set us \<and>
            t \<in> set us \<and> 0 < prio_d (h p) \<and> prio_d (h p) = prio_d (h t)"
          using Cons by auto
        with le ne pos show ?thesis by (auto simp: sched_level_defs)
      qed
    qed
  qed
qed simp

lemma pick_scan_idle:
  "\<forall>u \<in> set us. prio_d (h u) = 0 \<Longrightarrow> prio_d (h i) \<noteq> 0 \<Longrightarrow>
     pick_scan h run (us @ [i]) = Some (i, i)"
  by (induction us) (auto simp: sched_level_defs)

lemma reset_all_priorities_spec:
  assumes "distinct us" and "i \<notin> set us" and "\<forall>u \<in> set us. pid (h u) \<noteq> PID_IDLE"
    and "pid (h i) = PID_IDLE"
  shows "reset_all_priorities h (us @ [i]) =
    (\<lambda>p. if p \<in> set us then (h p)\<lparr>prio_d := prio_s (h p)\<rparr> else h p, length us)"
  using assms
proof (induction us arbitrary: h)
  case (Cons u us)
  let ?h = "h(u := (h u)\<lparr>prio_d := prio_s (h u)\<rparr>)"
  have "reset_all_priorities ?h (us @ [i]) =
      (\<lambda>p. if p \<in> set us then (?h p)\<lparr>prio_d := prio_s (?h p)\<rparr> else ?h p, length us)"
    by (rule Cons.IH) (use Cons.prems in auto)
  with Cons.prems show ?case by (auto simp: fun_eq_iff)
qed simp

section \<open>One tick\<close>

text \<open>
  The accounting changes neither the links nor the priorities, so it keeps every fact the
  scan depends on.
\<close>

definition same_sched :: "(tptr \<Rightarrow> task) \<Rightarrow> (tptr \<Rightarrow> task) \<Rightarrow> bool" where
  "same_sched h k \<longleftrightarrow> (\<forall>p. t_next (k p) = t_next (h p) \<and> t_prev (k p) = t_prev (h p) \<and>
     pid (k p) = pid (h p) \<and> prio_s (k p) = prio_s (h p) \<and> prio_d (k p) = prio_d (h p))"

lemma account_tick_frame:
  "same_sched (task_at s) (task_at (account_tick s))"
  "sched_queue (account_tick s) = sched_queue s"
  "running_task (account_tick s) = running_task s"
  "total_ticks (account_tick s) = total_ticks s + 1"
  by (auto simp: account_tick_def same_sched_def Let_def split: option.splits)

lemma close_window_frame:
  "same_sched (task_at s) (task_at (close_window ws s)) \<and>
   sched_queue (close_window ws s) = sched_queue s \<and>
   running_task (close_window ws s) = running_task s \<and>
   total_ticks (close_window ws s) = total_ticks s"
proof (induction ws arbitrary: s)
  case (Cons w ws)
  let ?s = "upd_task w (\<lambda>t. t\<lparr>cpu_pct := ticks_window t div 10, ticks_window := 0\<rparr>) s"
  have "same_sched (task_at s) (task_at ?s)" by (simp add: same_sched_def)
  with Cons.IH [of ?s] show ?case by (simp add: same_sched_def)
qed (simp add: same_sched_def)

lemma sched_wf_same:
  assumes "sched_wf s us i" and "same_sched (task_at s) (task_at s')"
    and "sched_queue s' = sched_queue s"
  shows "sched_wf s' us i"
proof -
  have "next_of (task_at s') = next_of (task_at s)"
    using assms(2) by (auto simp: same_sched_def)
  with assms show ?thesis
    by (auto simp: sched_wf_def same_sched_def idle_ok_def task_ok_def)
qed

text \<open>The state with which \<open>sched\<close> enters the scan.\<close>

definition sched_entry :: "sched_state \<Rightarrow> sched_state" where
  "sched_entry s =
     (let s = account_tick s;
          s = (case queue_nodes s of None \<Rightarrow> s
               | Some xs \<Rightarrow> if total_ticks s mod 1000 = 0 then close_window xs s else s)
      in s\<lparr>prev_task := None\<rparr>)"

lemma sched_entry_frame:
  "same_sched (task_at s) (task_at (sched_entry s))"
  "sched_queue (sched_entry s) = sched_queue s"
  "running_task (sched_entry s) = running_task s"
proof -
  have a: "same_sched (task_at (account_tick s)) (task_at (sched_entry s)) \<and>
      sched_queue (sched_entry s) = sched_queue (account_tick s) \<and>
      running_task (sched_entry s) = running_task (account_tick s)"
    using close_window_frame [where s = "account_tick s"]
    by (auto simp: sched_entry_def Let_def same_sched_def split: option.splits)
  then show "same_sched (task_at s) (task_at (sched_entry s))"
    "sched_queue (sched_entry s) = sched_queue s"
    "running_task (sched_entry s) = running_task s"
    using account_tick_frame [of s] by (auto simp: same_sched_def)
qed

lemma sched_unfold:
  assumes wf: "sched_wf s us i"
  shows "sched n s = bindE (sched_pick n (sched_entry s)) (\<lambda>(picked, s).
      if Some picked \<noteq> running_task s
      then Inr (s\<lparr>prev_task := running_task s, running_task := Some picked\<rparr>) else Inr s)"
proof -
  have wf': "sched_wf (account_tick s) us i"
    by (rule sched_wf_same [OF wf]) (simp_all add: account_tick_frame)
  have "sched_queue s \<noteq> None"
    using wf by (cases us) (auto simp: sched_wf_def)
  then have q: "sched_queue (account_tick s) \<noteq> None" by (simp add: account_tick_frame)
  have cw: "sched_queue (close_window xs (account_tick s)) = sched_queue (account_tick s)" for xs
    using close_window_frame by blast
  from q sched_wf_nodes [OF wf'] show ?thesis
    by (auto simp: sched_def sched_entry_def Let_def cw)
qed

lemma sched_entry_wf: "sched_wf s us i \<Longrightarrow> sched_wf (sched_entry s) us i"
  by (rule sched_wf_same) (simp_all add: sched_entry_frame)

text \<open>With a task that has dynamic priority left, one scan decides.\<close>

lemma sched_pick_pending:
  assumes wf: "sched_wf s us i" and pend: "\<exists>u \<in> set us. 0 < prio_d (task_at s u)"
  shows "\<exists>p. p \<in> set us \<and> 0 < prio_d (task_at s p) \<and>
    sched_pick (Suc n) s = Inr (p, upd_task p (\<lambda>t. t\<lparr>prio_d := prio_d t - 1\<rparr>) s)"
proof -
  have "\<forall>u \<in> set us. 0 \<le> prio_d (task_at s u)" and "prio_d (task_at s i) < 0"
    using wf by (auto simp: sched_wf_def task_ok_def idle_ok_def sched_level_defs)
  from pick_scan_pending [OF this pend, of "running_task s"] obtain p t where
    scan: "pick_scan (task_at s) (running_task s) (us @ [i]) = Some (p, t)"
    and p: "p \<in> set us" "0 < prio_d (task_at s p)" and t: "t \<in> set us" by blast
  from t wf have "pid (task_at s t) \<noteq> PID_IDLE" by (auto simp: sched_wf_def task_ok_def)
  with scan p sched_wf_nodes [OF wf] show ?thesis by (auto simp: sched_pick.simps)
qed

lemma upd_prio_wf:
  assumes "sched_wf s us i" and "p \<in> set us" and "0 < prio_d (task_at s p)"
  shows "sched_wf (upd_task p (\<lambda>t. t\<lparr>prio_d := prio_d t - 1\<rparr>) s) us i"
proof -
  have "p \<noteq> i" using assms sched_wf_distinct by fastforce
  moreover have "next_of ((task_at s)(p := (task_at s p)\<lparr>prio_d := prio_d (task_at s p) - 1\<rparr>))
      = next_of (task_at s)" by auto
  ultimately show ?thesis using assms by (auto simp: sched_wf_def task_ok_def)
qed

text \<open>The tick after all priorities are used up resets them; one jump back is enough.\<close>

definition reset_state :: "tptr list \<Rightarrow> sched_state \<Rightarrow> sched_state" where
  "reset_state us s = s\<lparr>task_at := (\<lambda>p. if p \<in> set us
     then (task_at s p)\<lparr>prio_d := prio_s (task_at s p)\<rparr> else task_at s p)\<rparr>"

lemma reset_state_wf:
  assumes wf: "sched_wf s us i" shows "sched_wf (reset_state us s) us i"
proof -
  have "i \<notin> set us" using sched_wf_distinct [OF wf] by simp
  moreover have "next_of (task_at (reset_state us s)) = next_of (task_at s)"
    by (auto simp: reset_state_def)
  ultimately show ?thesis using wf
    by (auto simp: sched_wf_def reset_state_def task_ok_def)
qed

lemma sched_pick_exhausted:
  assumes wf: "sched_wf s us i" and zero: "\<forall>u \<in> set us. prio_d (task_at s u) = 0"
  shows "sched_pick (Suc n) s =
    (if us = [] then Inr (i, s) else sched_pick n (reset_state us s))"
proof -
  have i: "prio_d (task_at s i) \<noteq> 0" "pid (task_at s i) = PID_IDLE"
    using wf by (auto simp: sched_wf_def idle_ok_def sched_level_defs)
  have "pick_scan (task_at s) (running_task s) (us @ [i]) = Some (i, i)"
    by (rule pick_scan_idle) (use zero i in auto)
  moreover have "reset_all_priorities (task_at s) (us @ [i]) =
      (task_at (reset_state us s), length us)"
    using reset_all_priorities_spec [of us i "task_at s"] wf sched_wf_distinct [OF wf] i
    by (auto simp: sched_wf_def task_ok_def reset_state_def)
  ultimately show ?thesis
    using i sched_wf_nodes [OF wf] by (auto simp: reset_state_def sched_pick.simps)
qed

text \<open>A tick never fails on a well-formed queue, and keeps it well formed.\<close>

lemma sched_pick_total:
  assumes wf: "sched_wf s us i"
  shows "\<exists>p s'. sched_pick (Suc (Suc n)) s = Inr (p, s') \<and> p \<in> set (us @ [i]) \<and>
    sched_wf s' us i \<and> running_task s' = running_task s"
proof (cases "\<exists>u \<in> set us. 0 < prio_d (task_at s u)")
  case True
  from sched_pick_pending [OF wf True] upd_prio_wf [OF wf] show ?thesis by fastforce
next
  case False
  with wf have zero: "\<forall>u \<in> set us. prio_d (task_at s u) = 0"
    by (auto simp: sched_wf_def task_ok_def less_le)
  show ?thesis
  proof (cases "us = []")
    case True
    with wf sched_pick_exhausted [OF wf zero] show ?thesis by auto
  next
    case False
    let ?r = "reset_state us s"
    have wf': "sched_wf ?r us i" by (rule reset_state_wf [OF wf])
    have "\<exists>u \<in> set us. 0 < prio_d (task_at ?r u)"
      using False wf by (cases us) (auto simp: reset_state_def sched_wf_def task_ok_def)
    from sched_pick_pending [OF wf' this] obtain p where
      p: "p \<in> set us" "0 < prio_d (task_at ?r p)" and
      pick: "sched_pick (Suc n) ?r = Inr (p, upd_task p (\<lambda>t. t\<lparr>prio_d := prio_d t - 1\<rparr>) ?r)"
      by blast
    have "sched_wf (upd_task p (\<lambda>t. t\<lparr>prio_d := prio_d t - 1\<rparr>) ?r) us i"
      by (rule upd_prio_wf [OF wf' p])
    with False pick p(1) sched_pick_exhausted [OF wf zero] show ?thesis
      by (auto simp: reset_state_def)
  qed
qed

section \<open>A full scheduling cycle\<close>

text \<open>The dynamic priority the tasks \<open>us\<close> have left.\<close>

definition prio_left :: "sched_state \<Rightarrow> tptr \<Rightarrow> nat" where
  "prio_left s u = nat (prio_d (task_at s u))"

lemma sched_pending:
  assumes wf: "sched_wf s us i" and pend: "\<exists>u \<in> set us. 0 < prio_d (task_at s u)"
  obtains p s' where "sched (Suc n) s = Inr s'" and "running_task s' = Some p" and "p \<in> set us"
    and "sched_wf s' us i" and "0 < prio_left s p"
    and "\<And>u. prio_left s' u = (if u = p then prio_left s u - 1 else prio_left s u)"
    and "\<And>u. prio_s (task_at s' u) = prio_s (task_at s u)"
proof -
  let ?e = "sched_entry s"
  have same: "same_sched (task_at s) (task_at ?e)" by (rule sched_entry_frame)
  then have pend': "\<exists>u \<in> set us. 0 < prio_d (task_at ?e u)" using pend by (simp add: same_sched_def)
  from sched_pick_pending [OF sched_entry_wf [OF wf] pend'] obtain p where
    p: "p \<in> set us" "0 < prio_d (task_at ?e p)" and
    pick: "sched_pick (Suc n) ?e = Inr (p, upd_task p (\<lambda>t. t\<lparr>prio_d := prio_d t - 1\<rparr>) ?e)"
    by blast
  let ?u = "upd_task p (\<lambda>t. t\<lparr>prio_d := prio_d t - 1\<rparr>) ?e"
  let ?s = "if Some p \<noteq> running_task ?u
    then ?u\<lparr>prev_task := running_task ?u, running_task := Some p\<rparr> else ?u"
  have wfu: "sched_wf ?u us i" by (rule upd_prio_wf [OF sched_entry_wf [OF wf] p])
  have at: "task_at ?s = task_at ?u" by simp
  have eq: "prio_d (task_at ?e u) = prio_d (task_at s u)" "prio_s (task_at ?e u) = prio_s (task_at s u)"
    for u using same by (simp_all add: same_sched_def)
  show thesis
  proof (rule that)
    show "sched (Suc n) s = Inr ?s" by (simp add: sched_unfold [OF wf] pick)
    show "running_task ?s = Some p" by auto
    show "p \<in> set us" by (rule p)
    show "sched_wf ?s us i" by (rule sched_wf_same [OF wfu]) (auto simp: same_sched_def)
    show "0 < prio_left s p" using p eq by (simp add: prio_left_def)
    show "prio_left ?s u = (if u = p then prio_left s u - 1 else prio_left s u)" for u
      unfolding prio_left_def at by (simp add: eq) arith
    show "prio_s (task_at ?s u) = prio_s (task_at s u)" for u
      unfolding at by (simp add: eq)
  qed
qed

lemma sched_run_counts:
  assumes "sched_wf s us i" and "k \<le> (\<Sum>u \<in> set us. prio_left s u)"
  shows "\<exists>ps s'. sched_run (Suc n) k s = Inr (ps, s') \<and> sched_wf s' us i \<and> set ps \<subseteq> set us \<and>
    length ps = k \<and>
    (\<forall>u \<in> set us. count_list ps u + prio_left s' u = prio_left s u \<and>
       prio_s (task_at s' u) = prio_s (task_at s u))"
  using assms
proof (induction k arbitrary: s)
  case (Suc k)
  have "\<exists>u \<in> set us. 0 < prio_left s u"
  proof (rule ccontr)
    assume "\<not> ?thesis"
    then have "(\<Sum>u \<in> set us. prio_left s u) = 0" by simp
    with Suc.prems(2) show False by simp
  qed
  then have "\<exists>u \<in> set us. 0 < prio_d (task_at s u)" by (auto simp: prio_left_def)
  from sched_pending [OF Suc.prems(1) this, of n] obtain p s1 where
    s1: "sched (Suc n) s = Inr s1" "running_task s1 = Some p" "p \<in> set us" "sched_wf s1 us i"
    and pos: "0 < prio_left s p"
    and left: "\<And>u. prio_left s1 u = (if u = p then prio_left s u - 1 else prio_left s u)"
    and ps: "\<And>u. prio_s (task_at s1 u) = prio_s (task_at s u)" by metis
  have "(\<Sum>u \<in> set us. prio_left s u) = prio_left s p + (\<Sum>u \<in> set us - {p}. prio_left s u)"
    using s1(3) by (simp add: sum.remove)
  moreover have "(\<Sum>u \<in> set us. prio_left s1 u) =
      prio_left s1 p + (\<Sum>u \<in> set us - {p}. prio_left s1 u)"
    using s1(3) by (simp add: sum.remove)
  moreover have "(\<Sum>u \<in> set us - {p}. prio_left s1 u) = (\<Sum>u \<in> set us - {p}. prio_left s u)"
    by (rule sum.cong) (auto simp: left)
  ultimately have "k \<le> (\<Sum>u \<in> set us. prio_left s1 u)" using Suc.prems(2) pos left by simp
  from Suc.IH [OF s1(4) this] obtain qs s2 where
    "sched_run (Suc n) k s1 = Inr (qs, s2)" "sched_wf s2 us i" "set qs \<subseteq> set us" "length qs = k"
    "\<forall>u \<in> set us. count_list qs u + prio_left s2 u = prio_left s1 u \<and>
       prio_s (task_at s2 u) = prio_s (task_at s1 u)" by blast
  with s1 pos left ps show ?case by auto
qed auto

section \<open>Properties\<close>

text \<open>
  C4. On a well-formed queue a timer tick always succeeds: it finds a task to run,
  needs at most one reset of the priorities (so two scans), and keeps the queue well
  formed. Allowing more scans does not change the outcome.
\<close>

theorem sched_total:
  assumes "sched_wf s us i"
  shows "\<exists>s' p. sched (2 + n) s = Inr s' \<and> running_task s' = Some p \<and> p \<in> set (us @ [i]) \<and>
    sched_wf s' us i"
proof -
  from sched_pick_total [OF sched_entry_wf [OF assms], of n] obtain p s1 where
    pick: "sched_pick (2 + n) (sched_entry s) = Inr (p, s1)" and p: "p \<in> set (us @ [i])"
    and wf: "sched_wf s1 us i" by auto
  let ?s = "if Some p \<noteq> running_task s1
    then s1\<lparr>prev_task := running_task s1, running_task := Some p\<rparr> else s1"
  have "sched_wf ?s us i" by (rule sched_wf_same [OF wf]) (auto simp: same_sched_def)
  moreover have "sched (2 + n) s = Inr ?s"
    using sched_unfold [OF assms] pick by (simp)
  moreover have "running_task ?s = Some p" by auto
  ultimately show ?thesis using p by blast
qed

text \<open>
  C16. A full scheduling cycle: starting with all dynamic priorities equal to the
  static ones, over as many ticks as the static priorities add up to every task is
  chosen exactly as often as its static priority, the idle task is never chosen, and at
  the end all dynamic priorities are used up.
\<close>

theorem sched_cycle:
  assumes wf: "sched_wf s us i"
    and full: "\<forall>u \<in> set us. prio_d (task_at s u) = prio_s (task_at s u)"
    and k: "k = (\<Sum>u \<in> set us. nat (prio_s (task_at s u)))"
  shows "\<exists>ps s'. sched_run 1 k s = Inr (ps, s') \<and> sched_wf s' us i \<and> i \<notin> set ps \<and>
    (\<forall>u \<in> set us. int (count_list ps u) = prio_s (task_at s u) \<and> prio_d (task_at s' u) = 0)"
proof -
  have sum: "(\<Sum>u \<in> set us. prio_left s u) = k"
    unfolding k by (rule sum.cong) (auto simp: prio_left_def full)
  from sched_run_counts [OF wf, of k 0] sum obtain ps s' where
    run: "sched_run 1 k s = Inr (ps, s')" and wf': "sched_wf s' us i" and ps: "set ps \<subseteq> set us"
    and len: "length ps = k" and
    cnt: "\<forall>u \<in> set us. count_list ps u + prio_left s' u = prio_left s u" by auto
  have "(\<Sum>u \<in> set us. count_list ps u) = k"
    using ps len by (subst sum_count_set) auto
  moreover have "(\<Sum>u \<in> set us. count_list ps u + prio_left s' u) = (\<Sum>u \<in> set us. prio_left s u)"
    by (rule sum.cong) (use cnt in auto)
  ultimately have "(\<Sum>u \<in> set us. prio_left s' u) = 0"
    using sum by (simp add: sum.distrib)
  then have zero: "\<forall>u \<in> set us. prio_left s' u = 0" by simp
  have "int (count_list ps u) = prio_s (task_at s u) \<and> prio_d (task_at s' u) = 0"
    if u: "u \<in> set us" for u
  proof -
    have "0 \<le> prio_d (task_at s' u)" "1 \<le> prio_s (task_at s u)"
      using wf wf' u by (auto simp: sched_wf_def task_ok_def)
    with zero cnt full u show ?thesis by (force simp: prio_left_def)
  qed
  moreover have "i \<notin> set ps" using ps sched_wf_distinct [OF wf] by auto
  ultimately show ?thesis using run wf' by blast
qed

text \<open>
  The scheduler does not always run the task with the highest dynamic priority,
  which the comment in \<open>sched.c\<close> says it chooses: it takes the first task of the queue
  whose successor is not above it. With three tasks of priority 10, the fourth tick runs
  the first task, at dynamic priority 9, while the third one still has 10.
\<close>

definition demo_queue :: "int list \<Rightarrow> sched_state" where
  "demo_queue prios =
     \<lparr>task_at = (\<lambda>p. if p < length prios
        then zero_task\<lparr>magic := TASK_MAGIC, pid := of_nat (p + 1), prio_s := prios ! p,
               prio_d := prios ! p, t_prev := (if p = 0 then None else Some (p - 1)),
               t_next := Some (p + 1)\<rparr>
        else zero_task\<lparr>magic := TASK_MAGIC, pid := PID_IDLE, prio_s := SCHED_LEVEL_IDLE,
               prio_d := SCHED_LEVEL_IDLE, t_prev := Some (length prios - 1), t_next := None\<rparr>),
      sched_queue = Some 0, running_task = None, prev_task = None, total_ticks = 0, last_pid = 9\<rparr>"

lemma demo_queue_wf: "sched_wf (demo_queue [2, 1]) [0, 1] 2"
  by (simp add: sched_wf_def demo_queue_def task_ok_def idle_ok_def PID_IDLE_def QUEUE_BOUND_def
      sched_level_defs)

theorem sched_not_highest:
  "inr_sat (sched_run 2 3 (demo_queue [10, 10, 10])) (\<lambda>(ps, s3).
     prio_d (task_at s3 0) = 9 \<and> prio_d (task_at s3 2) = 10 \<and>
     inr_sat (sched 2 s3) (\<lambda>s4. running_task s4 = Some 0))"
  by code_simp

text \<open>Concrete runs of the properties above.\<close>

theorem sched_total_witness:
  "\<exists>s' p. sched (2 + 0) (demo_queue [2, 1]) = Inr s' \<and> running_task s' = Some p \<and>
     p \<in> set ([0, 1] @ [2]) \<and> sched_wf s' [0, 1] 2"
  by (rule sched_total [OF demo_queue_wf])

theorem sched_cycle_witness:
  "\<exists>ps s'. sched_run 1 3 (demo_queue [2, 1]) = Inr (ps, s') \<and> sched_wf s' [0, 1] 2 \<and>
     2 \<notin> set ps \<and>
     (\<forall>u \<in> set [0, 1]. int (count_list ps u) = prio_s (task_at (demo_queue [2, 1]) u) \<and>
        prio_d (task_at s' u) = 0)"
  by (rule sched_cycle [OF demo_queue_wf]) (simp_all add: demo_queue_def)

end
