(* ===== verification/Pipe_Ring.thy ===== *)
theory Pipe_Ring
  imports Interfaces Task_Types
begin

text \<open>
  The ring buffer of a pipe, \<open>kernel/pipe.c\<close>: 32-bit free-running indices into a buffer of
  4096 bytes, the read and write loops of a pipe end up to the point where they halt the
  processor to wait, and the non-blocking write. The ring implements a bounded queue of
  4095 bytes (interpretation \<open>ring\<close>), and a reader and a writer that interleave their
  calls see the bytes in order.
\<close>

section \<open>Model\<close>

definition PIPE_BUF_SIZE :: u32 where "PIPE_BUF_SIZE = 4096"
definition PIPE_MASK :: u32 where "PIPE_MASK = PIPE_BUF_SIZE - 1"

record pipe =
  pbuf :: "u8 list"
  head :: u32
  tail :: u32
  write_refs :: u8
  read_refs :: u8

definition pipe_used :: "pipe \<Rightarrow> u32" where
  "pipe_used p = (head p - tail p) AND PIPE_MASK"

definition pipe_free :: "pipe \<Rightarrow> u32" where
  "pipe_free p = PIPE_BUF_SIZE - 1 - pipe_used p"

text \<open>The two statements that move one byte.\<close>

definition push_byte :: "u8 \<Rightarrow> pipe \<Rightarrow> pipe" where
  "push_byte b p = p\<lparr>pbuf := (pbuf p)[unat (head p AND PIPE_MASK) := b], head := head p + 1\<rparr>"

definition pop_byte :: "pipe \<Rightarrow> u8 \<times> pipe" where
  "pop_byte p = (pbuf p ! unat (tail p AND PIPE_MASK), p\<lparr>tail := tail p + 1\<rparr>)"

text \<open>
  A call either returns or halts to wait for an interrupt; when it wakes up it goes on
  with the loop on the pipe it then finds. A reader halts only before it has read
  anything, a writer halts with the bytes not yet written and the count of those that are.
\<close>

datatype read_outcome = Read_returns "u8 list" pipe | Read_waits pipe

datatype write_outcome = Write_returns u32 pipe | Write_waits "u8 list" nat pipe

text \<open>\<open>pipe_read_##i\<close>: \<open>nb\<close> is \<open>running_task && running_task->read_nonblock\<close>.\<close>

fun pipe_read_loop :: "bool \<Rightarrow> nat \<Rightarrow> u8 list \<Rightarrow> pipe \<Rightarrow> read_outcome" where
  "pipe_read_loop nb 0 out p = Read_returns out p"
| "pipe_read_loop nb (Suc k) out p =
     (if pipe_used p = 0
      then (if write_refs p = 0 then Read_returns out p
            else if out \<noteq> [] then Read_returns out p
            else if nb then Read_returns out p
            else Read_waits p)
      else (let (b, p') = pop_byte p in pipe_read_loop nb k (out @ [b]) p'))"

definition pipe_read :: "bool \<Rightarrow> u32 \<Rightarrow> pipe \<Rightarrow> read_outcome" where
  "pipe_read nb len p = pipe_read_loop nb (unat len) [] p"

text \<open>\<open>pipe_write_##i\<close>; the result \<open>-1\<close> is the broken pipe.\<close>

fun pipe_write_loop :: "u8 list \<Rightarrow> nat \<Rightarrow> pipe \<Rightarrow> write_outcome" where
  "pipe_write_loop [] written p = Write_returns (of_nat written) p"
| "pipe_write_loop (b # bs) written p =
     (if pipe_free p = 0
      then (if read_refs p = 0 then Write_returns (- 1) p else Write_waits (b # bs) written p)
      else pipe_write_loop bs (Suc written) (push_byte b p))"

definition pipe_write :: "u8 list \<Rightarrow> pipe \<Rightarrow> write_outcome" where
  "pipe_write cbuf p =
     (if read_refs p = 0 then Write_returns (- 1) p else pipe_write_loop cbuf 0 p)"

text \<open>\<open>pipe_write_nb\<close>: the bytes that do not fit are dropped.\<close>

fun pipe_write_nb :: "u8 list \<Rightarrow> nat \<Rightarrow> pipe \<Rightarrow> nat \<times> pipe" where
  "pipe_write_nb [] written p = (written, p)"
| "pipe_write_nb (b # bs) written p =
     (if pipe_free p > 0 then pipe_write_nb bs (Suc written) (push_byte b p) else (written, p))"

section \<open>The ring as a queue\<close>

definition pipe_ok :: "pipe \<Rightarrow> bool" where
  "pipe_ok p \<longleftrightarrow> length (pbuf p) = 4096 \<and> unat (head p - tail p) < 4096"

definition ring_items :: "pipe \<Rightarrow> u8 list" where
  "ring_items p =
     map (\<lambda>i. pbuf p ! ((unat (tail p) + i) mod 4096)) [0..<unat (head p - tail p)]"

lemma mask_index: "unat (w AND PIPE_MASK) = unat w mod 4096"
proof -
  have "PIPE_MASK = mask 12" by (simp add: PIPE_MASK_def PIPE_BUF_SIZE_def mask_eq_exp_minus_1)
  then show ?thesis using unat_mask_mod [of w 12] by simp
qed

lemma used_items: "pipe_ok p \<Longrightarrow> unat (pipe_used p) = length (ring_items p)"
  by (simp add: pipe_used_def mask_index ring_items_def pipe_ok_def)

lemma used_zero: "pipe_ok p \<Longrightarrow> pipe_used p = 0 \<longleftrightarrow> ring_items p = []"
  by (metis length_0_conv unat_eq_zero used_items)

lemma free_items: "pipe_ok p \<Longrightarrow> unat (pipe_free p) = 4095 - length (ring_items p)"
proof -
  assume ok: "pipe_ok p"
  then have u: "unat (pipe_used p) \<le> 4095"
    by (simp add: pipe_used_def mask_index pipe_ok_def)
  then have "pipe_used p \<le> 4095" by (simp add: word_le_nat_alt)
  then have "unat (4095 - pipe_used p) = 4095 - unat (pipe_used p)" by (simp add: unat_sub)
  with ok used_items show ?thesis by (simp add: pipe_free_def PIPE_BUF_SIZE_def)
qed

lemma free_zero: "pipe_ok p \<Longrightarrow> pipe_free p = 0 \<longleftrightarrow> length (ring_items p) = 4095"
proof -
  assume ok: "pipe_ok p"
  then have "length (ring_items p) \<le> 4095" by (simp add: ring_items_def pipe_ok_def)
  moreover have "pipe_free p = 0 \<longleftrightarrow> unat (pipe_free p) = 0" by (simp add: unat_eq_0)
  ultimately show ?thesis using free_items [OF ok] by linarith
qed

lemma length_items: "pipe_ok p \<Longrightarrow> length (ring_items p) \<le> 4095"
  by (simp add: ring_items_def pipe_ok_def)

lemma diff_Suc:
  assumes "unat (h - t :: u32) < 4095"
  shows "unat (h + 1 - t) = Suc (unat (h - t))"
proof -
  have "unat ((h - t) + 1) = unat (h - t) + unat (1 :: u32)"
    by (rule unat_plus_no_wrap) (use assms in simp)
  then show ?thesis by (simp add: algebra_simps)
qed

lemma head_index: "unat (h :: u32) mod 4096 = (unat t + unat (h - t)) mod 4096"
proof -
  have "unat h = unat (t + (h - t))" by simp
  also have "\<dots> = (unat t + unat (h - t)) mod 2 ^ 32" by (simp only: unat_word_ariths) simp
  finally show ?thesis by (simp add: mod_mod_cancel)
qed

lemma index_inj:
  assumes "i < k" and "k \<le> (4095 :: nat)"
  shows "(t + i) mod 4096 \<noteq> (t + k) mod 4096"
proof
  assume "(t + i) mod 4096 = (t + k) mod 4096"
  then have "4096 dvd (t + k) - (t + i)" using assms(1) by (intro mod_eq_dvd_iff_nat [THEN iffD1]) auto
  then have "4096 dvd k - i" by simp
  with assms show False by (auto dest: dvd_imp_le)
qed

lemma push_items:
  assumes ok: "pipe_ok p" and room: "length (ring_items p) < 4095"
  shows "pipe_ok (push_byte b p)" and "ring_items (push_byte b p) = ring_items p @ [b]"
proof -
  let ?n = "unat (head p - tail p)"
  have n: "?n < 4095" using room by (simp add: ring_items_def)
  have len: "length (pbuf p) = 4096" using ok by (simp add: pipe_ok_def)
  have h: "unat (head p) mod 4096 = (unat (tail p) + ?n) mod 4096" by (rule head_index)
  show "pipe_ok (push_byte b p)"
    using ok n by (simp add: pipe_ok_def push_byte_def diff_Suc)
  have old: "(pbuf p)[unat (head p) mod 4096 := b] ! ((unat (tail p) + i) mod 4096)
      = pbuf p ! ((unat (tail p) + i) mod 4096)" if "i < ?n" for i
    using that n index_inj [of i ?n "unat (tail p)"] h by (simp add: nth_list_update)
  have new: "(pbuf p)[unat (head p) mod 4096 := b] ! ((unat (tail p) + ?n) mod 4096) = b"
    using h len by simp
  show "ring_items (push_byte b p) = ring_items p @ [b]"
    using old new n by (simp add: ring_items_def push_byte_def diff_Suc mask_index)
qed

lemma pop_items:
  assumes ok: "pipe_ok p" and ne: "ring_items p \<noteq> []"
  shows "pipe_ok (snd (pop_byte p))" and "ring_items p = fst (pop_byte p) # ring_items (snd (pop_byte p))"
proof -
  let ?n = "unat (head p - tail p)"
  have n: "0 < ?n" "?n < 4096" using ok ne by (auto simp: ring_items_def pipe_ok_def)
  have "1 \<le> head p - tail p" using n(1) by (simp add: word_le_nat_alt)
  then have d: "unat (head p - (tail p + 1)) = ?n - 1"
    using unat_sub [of 1 "head p - tail p"] by (simp add: algebra_simps)
  show "pipe_ok (snd (pop_byte p))"
    using ok n d by (simp add: pipe_ok_def pop_byte_def)
  have t: "(unat (tail p + 1) + i) mod 4096 = (unat (tail p) + Suc i) mod 4096" for i
  proof -
    have "unat (tail p + 1) mod 4096 = (unat (tail p) + 1) mod 4096"
      by (simp add: unat_word_ariths mod_mod_cancel)
    then have "(unat (tail p + 1) + i) mod 4096 = (unat (tail p) + 1 + i) mod 4096"
      by (rule mod_add_cong) (rule refl)
    then show ?thesis by (simp only: add.assoc plus_1_eq_Suc)
  qed
  obtain m where m: "?n = Suc m" using n(1) gr0_implies_Suc by blast
  have upt: "[0..<Suc m] = 0 # map Suc [0..<m]"
    by (simp only: map_Suc_upt) (simp add: upt_conv_Cons del: upt_Suc)
  have rest: "ring_items (snd (pop_byte p)) =
      map (\<lambda>i. pbuf p ! ((unat (tail p) + Suc i) mod 4096)) [0..<m]"
    unfolding ring_items_def pop_byte_def snd_conv by (simp add: d m t)
  show "ring_items p = fst (pop_byte p) # ring_items (snd (pop_byte p))"
    unfolding rest by (simp only: ring_items_def m upt list.map o_def map_map add_0_right
        pop_byte_def fst_conv mask_index)
qed

interpretation ring: bounded_fifo push_byte pop_byte ring_items 4095 pipe_ok
proof
  fix p :: pipe
  assume ok: "pipe_ok p" and ne: "ring_items p \<noteq> []"
  note pop = pop_items [OF ok ne]
  show "pipe_ok (snd (pop_byte p))" by (rule pop)
  show "fst (pop_byte p) = hd (ring_items p)" by (subst pop(2)) simp
  show "ring_items (snd (pop_byte p)) = tl (ring_items p)" by (subst pop(2)) simp
qed (simp_all add: length_items push_items)

section \<open>The loops\<close>

lemma push_byte_frame [simp]:
  "write_refs (push_byte b p) = write_refs p" "read_refs (push_byte b p) = read_refs p"
  by (simp_all add: push_byte_def)

lemma pop_byte_frame [simp]:
  "write_refs (snd (pop_byte p)) = write_refs p" "read_refs (snd (pop_byte p)) = read_refs p"
  by (simp_all add: pop_byte_def)

lemma enq_all_frame [simp]:
  "write_refs (ring.enq_all bs p) = write_refs p" "read_refs (ring.enq_all bs p) = read_refs p"
  by (induction bs arbitrary: p) simp_all

lemma deq_n_frame [simp]:
  "write_refs (snd (ring.deq_n k p)) = write_refs p"
  "read_refs (snd (ring.deq_n k p)) = read_refs p"
  by (induction k arbitrary: p) (simp_all add: split_beta)

text \<open>With data in the ring, a read takes what there is, up to the requested length.\<close>

lemma pipe_read_loop_data:
  assumes "pipe_ok p" and "ring_items p \<noteq> [] \<or> out \<noteq> [] \<or> write_refs p = 0 \<or> nb"
  shows "pipe_read_loop nb k out p =
    Read_returns (out @ take k (ring_items p)) (snd (ring.deq_n (min k (length (ring_items p))) p))"
  using assms
proof (induction k arbitrary: out p)
  case (Suc k)
  show ?case
  proof (cases "ring_items p")
    case Nil
    with Suc.prems used_zero [of p] show ?thesis by auto
  next
    case (Cons x xs)
    obtain b p' where d: "pop_byte p = (b, p')" by (cases "pop_byte p")
    with Cons pop_items [of p] Suc.prems(1) have p': "pipe_ok p'" "b = x" "ring_items p' = xs"
      by auto
    have "pipe_read_loop nb k (out @ [b]) p' = Read_returns ((out @ [b]) @ take k (ring_items p'))
        (snd (ring.deq_n (min k (length (ring_items p'))) p'))"
      by (rule Suc.IH) (use p' in auto)
    with Cons d p' used_zero [OF Suc.prems(1)] show ?thesis by (simp add: split_beta)
  qed
qed simp

lemma pipe_write_loop_fits:
  assumes "pipe_ok p" and "length (ring_items p) + length bs \<le> 4095"
  shows "pipe_write_loop bs w p = Write_returns (of_nat (w + length bs)) (ring.enq_all bs p)"
  using assms
proof (induction bs arbitrary: w p)
  case (Cons b bs)
  then have "pipe_free p \<noteq> 0" using free_zero [OF Cons.prems(1)] by simp
  moreover have "pipe_write_loop bs (Suc w) (push_byte b p) =
      Write_returns (of_nat (Suc w + length bs)) (ring.enq_all bs (push_byte b p))"
    by (rule Cons.IH) (use Cons.prems push_items [of p b] in auto)
  ultimately show ?case by simp
qed simp

text \<open>Otherwise the writer fills the ring and then waits, or finds the pipe broken.\<close>

lemma pipe_write_loop_full:
  assumes "pipe_ok p" and "length (ring_items p) + length bs > 4095"
  shows "let k = 4095 - length (ring_items p); q = ring.enq_all (take k bs) p in
    pipe_write_loop bs w p =
      (if read_refs p = 0 then Write_returns (- 1) q else Write_waits (drop k bs) (w + k) q)"
  using assms
proof (induction bs arbitrary: w p)
  case (Cons b bs)
  show ?case
  proof (cases "length (ring_items p) = 4095")
    case True
    then show ?thesis using free_zero [OF Cons.prems(1)] by (simp add: Let_def)
  next
    case False
    with length_items [OF Cons.prems(1)] have room: "length (ring_items p) < 4095" by simp
    note q = push_items [OF Cons.prems(1) room, of b]
    have "length (ring_items (push_byte b p)) + length bs > 4095" using q(2) Cons.prems(2) by simp
    note IH = Cons.IH [OF q(1) this, of "Suc w"]
    have k: "4095 - length (ring_items p) = Suc (4095 - length (ring_items (push_byte b p)))"
      using q(2) room by simp
    show ?thesis using IH False free_zero [OF Cons.prems(1)] by (simp add: Let_def k)
  qed
next
  case Nil
  then show ?case using length_items [of p] by simp
qed

lemma pipe_write_nb_spec:
  assumes "pipe_ok p"
  shows "let k = min (length bs) (4095 - length (ring_items p)) in
    pipe_write_nb bs w p = (w + k, ring.enq_all (take k bs) p)"
  using assms
proof (induction bs arbitrary: w p)
  case (Cons b bs)
  show ?case
  proof (cases "length (ring_items p) = 4095")
    case True
    then show ?thesis using free_zero [OF Cons.prems] by (simp add: Let_def)
  next
    case False
    with length_items [OF Cons.prems] have room: "length (ring_items p) < 4095" by simp
    note q = push_items [OF Cons.prems room, of b]
    note IH = Cons.IH [OF q(1), of "Suc w"]
    have "pipe_free p > 0" using free_zero [OF Cons.prems] False by (simp add: word_gt_0)
    moreover have "4095 - length (ring_items p) = Suc (4095 - length (ring_items (push_byte b p)))"
      using q(2) room by simp
    ultimately show ?thesis using IH by (simp add: Let_def)
  qed
qed simp

section \<open>Interleaved readers and writers\<close>

text \<open>
  System calls run with interrupts disabled, so a call up to its return or its halt is
  one step. The state is the ring with the rest of a write that is waiting, and two
  histories: the bytes accepted into the pipe and the bytes handed to readers.
\<close>

record pipe_sys =
  ring_of :: pipe
  waiting :: "(u8 list \<times> nat) option"
  accepted :: "u8 list"
  delivered :: "u8 list"

definition taken :: "u8 list \<Rightarrow> pipe \<Rightarrow> pipe \<Rightarrow> u8 list" where
  "taken bs p q = take (length (ring_items q) - length (ring_items p)) bs"

inductive pipe_step :: "pipe_sys \<Rightarrow> pipe_sys \<Rightarrow> bool" where
  write_done: "waiting s = None \<Longrightarrow> pipe_write bs (ring_of s) = Write_returns r q \<Longrightarrow>
     pipe_step s (s\<lparr>ring_of := q, accepted := accepted s @ taken bs (ring_of s) q\<rparr>)"
| write_halts: "waiting s = None \<Longrightarrow> pipe_write bs (ring_of s) = Write_waits rest w q \<Longrightarrow>
     pipe_step s (s\<lparr>ring_of := q, waiting := Some (rest, w),
       accepted := accepted s @ taken bs (ring_of s) q\<rparr>)"
| write_resumes: "waiting s = Some (bs, w) \<Longrightarrow>
     pipe_write_loop bs w (ring_of s) = Write_returns r q \<Longrightarrow>
     pipe_step s (s\<lparr>ring_of := q, waiting := None,
       accepted := accepted s @ taken bs (ring_of s) q\<rparr>)"
| write_halts_again: "waiting s = Some (bs, w) \<Longrightarrow>
     pipe_write_loop bs w (ring_of s) = Write_waits rest w' q \<Longrightarrow>
     pipe_step s (s\<lparr>ring_of := q, waiting := Some (rest, w'),
       accepted := accepted s @ taken bs (ring_of s) q\<rparr>)"
| read_done: "pipe_read nb len (ring_of s) = Read_returns out q \<Longrightarrow>
     pipe_step s (s\<lparr>ring_of := q, delivered := delivered s @ out\<rparr>)"
| read_halts: "pipe_read nb len (ring_of s) = Read_waits q \<Longrightarrow>
     pipe_step s (s\<lparr>ring_of := q\<rparr>)"
| refs_change: "pipe_step s (s\<lparr>ring_of := (ring_of s)\<lparr>write_refs := wr, read_refs := rr\<rparr>\<rparr>)"

inductive_cases pipe_stepE: "pipe_step s t"

definition zero_buf :: "u8 list" where "zero_buf = replicate 4096 0"

lemma length_zero_buf: "length zero_buf = 4096"
  unfolding zero_buf_def by (rule length_replicate)

definition fresh_pipe :: pipe where
  "fresh_pipe = \<lparr>pbuf = zero_buf, head = 0, tail = 0, write_refs = 1, read_refs = 1\<rparr>"

definition pipe_start :: pipe_sys where
  "pipe_start = \<lparr>ring_of = fresh_pipe, waiting = None, accepted = [], delivered = []\<rparr>"

inductive pipe_reachable :: "pipe_sys \<Rightarrow> bool" where
  start: "pipe_reachable pipe_start"
| step: "pipe_reachable s \<Longrightarrow> pipe_step s t \<Longrightarrow> pipe_reachable t"

definition pipe_inv :: "pipe_sys \<Rightarrow> bool" where
  "pipe_inv s \<longleftrightarrow> pipe_ok (ring_of s) \<and> accepted s = delivered s @ ring_items (ring_of s)"

lemma write_loop_ring:
  assumes "pipe_ok p" and "pipe_write_loop bs w p = r"
    and "r = Write_returns x q \<or> r = Write_waits rest w' q"
  shows "pipe_ok q \<and> ring_items q = ring_items p @ taken bs p q"
proof (cases "length (ring_items p) + length bs \<le> 4095")
  case True
  then have "q = ring.enq_all bs p" using pipe_write_loop_fits [OF assms(1), of bs w] assms by auto
  with True ring.enq_all_items [OF assms(1), of bs] show ?thesis by (simp add: taken_def)
next
  case False
  let ?k = "4095 - length (ring_items p)"
  have "q = ring.enq_all (take ?k bs) p"
    using pipe_write_loop_full [OF assms(1), of bs w] False assms
    by (auto simp: Let_def split: if_splits)
  moreover have "length (ring_items p) + length (take ?k bs) \<le> 4095"
    using length_items [OF assms(1)] by simp
  ultimately show ?thesis
    using ring.enq_all_items [OF assms(1), of "take ?k bs"] False length_items [OF assms(1)]
    by (simp add: taken_def)
qed

lemma write_ring:
  assumes "pipe_ok p" and "pipe_write bs p = r"
    and "r = Write_returns x q \<or> r = Write_waits rest w' q"
  shows "pipe_ok q \<and> ring_items q = ring_items p @ taken bs p q"
  using assms write_loop_ring [of p bs 0 r x q rest w']
  by (auto simp: pipe_write_def taken_def split: if_splits)

lemma read_ring:
  assumes "pipe_ok p"
  shows "pipe_read nb len p = Read_returns out q \<Longrightarrow>
      pipe_ok q \<and> ring_items p = out @ ring_items q"
    and "pipe_read nb len p = Read_waits q \<Longrightarrow> q = p"
proof -
  show "pipe_ok q \<and> ring_items p = out @ ring_items q" if "pipe_read nb len p = Read_returns out q"
  proof (cases "ring_items p \<noteq> [] \<or> write_refs p = 0 \<or> nb")
    case True
    let ?m = "min (unat len) (length (ring_items p))"
    have "out = take (unat len) (ring_items p)" "q = snd (ring.deq_n ?m p)"
      using that pipe_read_loop_data [OF assms, of "[]" nb "unat len"] True
      by (auto simp: pipe_read_def)
    with ring.deq_n_items [OF assms, of ?m] show ?thesis by (auto simp: min_def)
  next
    case False
    with that assms show ?thesis
      by (cases "unat len") (auto simp: pipe_read_def used_zero)
  qed
  show "q = p" if "pipe_read nb len p = Read_waits q"
  proof (cases "ring_items p \<noteq> [] \<or> write_refs p = 0 \<or> nb")
    case True
    with that pipe_read_loop_data [OF assms, of "[]" nb "unat len"] show ?thesis
      by (auto simp: pipe_read_def)
  next
    case False
    with that assms show ?thesis by (cases "unat len") (auto simp: pipe_read_def used_zero)
  qed
qed

lemma pipe_step_inv: "pipe_step s t \<Longrightarrow> pipe_inv s \<Longrightarrow> pipe_inv t"
proof (induction rule: pipe_step.induct)
  case (refs_change s wr rr)
  then show ?case by (simp add: pipe_inv_def pipe_ok_def ring_items_def)
next
  case (read_done nb len s out q)
  then show ?case using read_ring(1) [of "ring_of s" nb len out q] by (auto simp: pipe_inv_def)
next
  case (read_halts nb len s q)
  then show ?case using read_ring(2) [of "ring_of s" nb len q] by (auto simp: pipe_inv_def)
next
  case (write_done s bs r q)
  then show ?case using write_ring [of "ring_of s" bs _ r q] by (simp add: pipe_inv_def)
next
  case (write_halts s bs rest w q)
  then show ?case using write_ring [of "ring_of s" bs _ _ q rest w] by (simp add: pipe_inv_def)
next
  case (write_resumes s bs w r q)
  then show ?case using write_loop_ring [of "ring_of s" bs w _ r q] by (simp add: pipe_inv_def)
next
  case (write_halts_again s bs w rest w' q)
  then show ?case
    using write_loop_ring [of "ring_of s" bs w _ _ q rest w'] by (simp add: pipe_inv_def)
qed

lemma fresh_pipe_ok: "pipe_ok fresh_pipe" "ring_items fresh_pipe = []"
  by (simp_all add: pipe_ok_def fresh_pipe_def ring_items_def length_zero_buf)

lemma pipe_write_three:
  "\<exists>q. pipe_write [1, 2, 3] fresh_pipe = Write_returns 3 q \<and> ring_items q = [1, 2, 3]"
  using pipe_write_loop_fits [OF fresh_pipe_ok(1), of "[1, 2, 3]" 0]
    ring.enq_all_items [OF fresh_pipe_ok(1), of "[1, 2, 3]"] fresh_pipe_ok(2)
  by (auto simp: pipe_write_def fresh_pipe_def)

section \<open>Properties\<close>


text \<open>
  What a read returns: on a ring with data, at most the requested number of bytes
  from its front; on an empty ring the end of file when no writer is left or the read
  does not block, and otherwise it waits, leaving the pipe as it was.
\<close>

theorem pipe_read_cases:
  assumes ok: "pipe_ok p"
  shows "pipe_read nb len p =
    (if len \<noteq> 0 \<and> ring_items p = [] \<and> write_refs p \<noteq> 0 \<and> \<not> nb then Read_waits p
     else Read_returns (take (unat len) (ring_items p))
       (snd (ring.deq_n (min (unat len) (length (ring_items p))) p)))"
proof (cases "ring_items p \<noteq> [] \<or> write_refs p = 0 \<or> nb")
  case True
  then show ?thesis using pipe_read_loop_data [OF ok, of "[]"] by (auto simp: pipe_read_def)
next
  case False
  then show ?thesis using ok
    by (cases "unat len") (auto simp: pipe_read_def used_zero unat_eq_0 unat_eq_zero)
qed

text \<open>
  A write into a pipe that has readers and room for all the bytes succeeds, stores
  them at the end, and returns their number; without readers it fails at once and stores
  nothing.
\<close>

theorem pipe_write_cases:
  assumes "pipe_ok p"
  shows "(read_refs p = 0 \<longrightarrow> pipe_write bs p = Write_returns (- 1) p) \<and>
    (read_refs p \<noteq> 0 \<and> length (ring_items p) + length bs \<le> 4095 \<longrightarrow>
      (\<exists>q. pipe_write bs p = Write_returns (of_nat (length bs)) q \<and> pipe_ok q \<and>
        ring_items q = ring_items p @ bs))"
  using pipe_write_loop_fits [OF assms, of bs 0] ring.enq_all_items [OF assms, of bs]
  by (auto simp: pipe_write_def)


theorem pipe_read_cases_witness: "pipe_read False 3 fresh_pipe = Read_waits fresh_pipe"
  using pipe_read_cases [OF fresh_pipe_ok(1), of False 3] fresh_pipe_ok(2)
  by (simp add: fresh_pipe_def)

theorem pipe_write_cases_witness:
  "\<exists>q. pipe_write [1, 2, 3] fresh_pipe = Write_returns 3 q \<and> ring_items q = [1, 2, 3]"
  using pipe_write_cases [OF fresh_pipe_ok(1), of "[1, 2, 3]"] fresh_pipe_ok(2)
  by (auto simp: fresh_pipe_def)

end
