(* ===== verification/Pmm.thy ===== *)
theory Pmm
  imports Interfaces
begin

text \<open>
  The physical memory manager, \<open>kernel/pmm.c\<close>: one bit per 4 KB frame, copy-on-write
  reference counts, two allocation zones, allocation of contiguous runs and the
  initialisation from the Multiboot memory map. The proofs read the bitmap as a set of
  used frames and show that the word-skipping scans find the first free frame or run.
\<close>

section \<open>Model\<close>

definition PAGE_SIZE :: nat where "PAGE_SIZE = 4096"
definition MAX_FRAMES :: nat where "MAX_FRAMES = 1024 * 1024"
definition ZONE_LOW_START :: nat where "ZONE_LOW_START = 0x00100000 div PAGE_SIZE"
definition ZONE_LOW_END :: nat where "ZONE_LOW_END = 0x01000000 div PAGE_SIZE"
definition ZONE_ANY_START :: nat where "ZONE_ANY_START = 0x01000000 div PAGE_SIZE"

lemma zone_simps [simp]:
  "PAGE_SIZE = 4096" "ZONE_LOW_START = 256" "ZONE_LOW_END = 4096" "ZONE_ANY_START = 4096"
  "MAX_FRAMES = 1048576"
  by (simp_all add: PAGE_SIZE_def ZONE_LOW_START_def ZONE_LOW_END_def ZONE_ANY_START_def
      MAX_FRAMES_def)

text \<open>The static arrays are functions of their index; a frame index is below \<open>2 ^ 20\<close>.\<close>

record pmm =
  bitmap :: "nat \<Rightarrow> u32"
  nframes :: nat
  refcounts :: "nat \<Rightarrow> u16"

datatype pmm_zone = PMM_ZONE_LOW | PMM_ZONE_ANY

definition frame_set :: "nat \<Rightarrow> 'a pmm_scheme \<Rightarrow> 'a pmm_scheme" where
  "frame_set index p = p\<lparr>bitmap := (bitmap p)(index div 32 :=
     bitmap p (index div 32) OR push_bit (index mod 32) 1)\<rparr>"

definition frame_clear :: "nat \<Rightarrow> 'a pmm_scheme \<Rightarrow> 'a pmm_scheme" where
  "frame_clear index p = p\<lparr>bitmap := (bitmap p)(index div 32 :=
     bitmap p (index div 32) AND NOT (push_bit (index mod 32) 1))\<rparr>"

definition frame_test :: "'a pmm_scheme \<Rightarrow> nat \<Rightarrow> bool" where
  "frame_test p index \<longleftrightarrow> drop_bit (index mod 32) (bitmap p (index div 32)) AND 1 \<noteq> 0"

definition pmm_total_frames :: "'a pmm_scheme \<Rightarrow> nat" where
  "pmm_total_frames p = nframes p"

definition frame_of :: "u32 \<Rightarrow> nat" where
  "frame_of addr = unat addr div PAGE_SIZE"

definition addr_of :: "nat \<Rightarrow> u32" where
  "addr_of i = of_nat (i * PAGE_SIZE)"

definition pmm_mark_used :: "u32 \<Rightarrow> 'a pmm_scheme \<Rightarrow> 'a pmm_scheme" where
  "pmm_mark_used addr p = (let index = frame_of addr in
     if index < nframes p then frame_set index p else p)"

definition pmm_free_frame :: "u32 \<Rightarrow> 'a pmm_scheme \<Rightarrow> 'a pmm_scheme" where
  "pmm_free_frame addr p = (let index = frame_of addr in
     if index < nframes p
     then (frame_clear index p)\<lparr>refcounts := (refcounts p)(index := 0)\<rparr> else p)"

text \<open>Taking a frame: \<open>frame_set\<close> and a reference count of one.\<close>

definition take_frame :: "nat \<Rightarrow> 'a pmm_scheme \<Rightarrow> 'a pmm_scheme" where
  "take_frame i p = (frame_set i p)\<lparr>refcounts := (refcounts p)(i := 1)\<rparr>"

text \<open>The first-fit scan of \<open>ZONE_ANY\<close>, which steps over full words of the bitmap.\<close>

function scan_skip :: "'a pmm_scheme \<Rightarrow> nat \<Rightarrow> nat \<Rightarrow> nat option" where
  "scan_skip p i e =
     (if i < e
      then (if bitmap p (i div 32) = 0xFFFFFFFF then scan_skip p ((i div 32 + 1) * 32) e
            else if \<not> frame_test p i then Some i
            else scan_skip p (i + 1) e)
      else None)"
  by pat_completeness auto
termination by (relation "measure (\<lambda>(p, i, e). e - i)") auto

declare scan_skip.simps [simp del]

text \<open>
  \<open>pmm_alloc_frame_zone\<close>. The low zone is scanned downwards from \<open>end - 1\<close>; with no
  frames at all that index wraps around and the bitmap is read out of range.
\<close>

definition pmm_alloc_frame_zone ::
    "pmm_zone \<Rightarrow> 'a pmm_scheme \<Rightarrow> fault + (u32 \<times> 'a pmm_scheme)" where
  "pmm_alloc_frame_zone zone p =
     (let low_end = min ZONE_LOW_END (nframes p) in
      case zone of
        PMM_ZONE_LOW \<Rightarrow>
          if nframes p = 0 then Inl BadAccess
          else (case find (\<lambda>i. \<not> frame_test p i) (rev [ZONE_LOW_START..<low_end]) of
                  Some i \<Rightarrow> Inr (addr_of i, take_frame i p)
                | None \<Rightarrow> Inl (Panic ''pmm: out of ZONE_LOW frames''))
      | PMM_ZONE_ANY \<Rightarrow>
          (case scan_skip p ZONE_ANY_START (nframes p) of
             Some i \<Rightarrow> Inr (addr_of i, take_frame i p)
           | None \<Rightarrow>
               (case find (\<lambda>i. \<not> frame_test p i) [ZONE_LOW_START..<low_end] of
                  Some i \<Rightarrow> Inr (addr_of i, take_frame i p)
                | None \<Rightarrow> Inl (Panic ''pmm: out of physical frames''))))"

definition pmm_alloc_frame :: "'a pmm_scheme \<Rightarrow> fault + (u32 \<times> 'a pmm_scheme)" where
  "pmm_alloc_frame p = pmm_alloc_frame_zone PMM_ZONE_ANY p"

text \<open>The scan for a run of \<open>n\<close> free frames: the start of the current run and its length.\<close>

function run_scan :: "'a pmm_scheme \<Rightarrow> nat \<Rightarrow> nat \<Rightarrow> nat \<Rightarrow> nat \<Rightarrow> nat \<Rightarrow> nat option" where
  "run_scan p n i e run_start run_len =
     (if i < e
      then (if \<not> frame_test p i
            then (let rs = (if run_len = 0 then i else run_start); rl = run_len + 1 in
                  if rl = n then Some rs else run_scan p n (i + 1) e rs rl)
            else run_scan p n (i + 1) e run_start 0)
      else None)"
  by pat_completeness auto
termination by (relation "measure (\<lambda>(p, n, i, e, rs, rl). e - i)") auto

declare run_scan.simps [simp del]

definition pmm_alloc_contiguous :: "nat \<Rightarrow> 'a pmm_scheme \<Rightarrow> u32 \<times> 'a pmm_scheme" where
  "pmm_alloc_contiguous n p =
     (if n = 0 then (0, p)
      else (case run_scan p n ZONE_LOW_START (min ZONE_LOW_END (nframes p)) 0 0 of
              Some rs \<Rightarrow> (addr_of rs, fold take_frame [rs..<rs + n] p)
            | None \<Rightarrow> (0, p)))"

definition pmm_refcount_inc :: "u32 \<Rightarrow> 'a pmm_scheme \<Rightarrow> 'a pmm_scheme" where
  "pmm_refcount_inc addr p = (let i = frame_of addr in
     if i < nframes p \<and> refcounts p i < 0xFFFF
     then p\<lparr>refcounts := (refcounts p)(i := refcounts p i + 1)\<rparr> else p)"

definition pmm_refcount_get :: "u32 \<Rightarrow> 'a pmm_scheme \<Rightarrow> u16" where
  "pmm_refcount_get addr p = (let i = frame_of addr in
     if i < nframes p then refcounts p i else 0)"

definition pmm_refcount_dec :: "u32 \<Rightarrow> 'a pmm_scheme \<Rightarrow> u16 \<times> 'a pmm_scheme" where
  "pmm_refcount_dec addr p = (let i = frame_of addr;
      q = (if i < nframes p \<and> refcounts p i > 0
           then p\<lparr>refcounts := (refcounts p)(i := refcounts p i - 1)\<rparr> else p)
    in (if i < nframes q then refcounts q i else 0, q))"

text \<open>
  \<open>init_pmm\<close>. The Multiboot structures are read from memory the boot loader filled: the
  memory map is the list of its entries in order (present when flag 6 is set), the boot
  modules the list of their start and end (flag 3).
\<close>

record mmap_entry =
  base_addr_low :: u32
  base_addr_high :: u32
  length_low :: u32
  mem_type :: u32

record multiboot_info =
  mmap_entries :: "mmap_entry list option"
  mem_upper :: u32
  mods :: "(u32 \<times> u32) list option"

definition usable_ram :: "mmap_entry \<Rightarrow> bool" where
  "usable_ram m \<longleftrightarrow> mem_type m = 1 \<and> base_addr_high m = 0"

fun highest_ram :: "mmap_entry list \<Rightarrow> u32 \<Rightarrow> u32" where
  "highest_ram [] highest = highest"
| "highest_ram (m # ms) highest =
     highest_ram ms
       (if usable_ram m
        then (let top = base_addr_low m + length_low m in if top > highest then top else highest)
        else highest)"

definition frames_in :: "nat \<Rightarrow> nat \<Rightarrow> 'a pmm_scheme \<Rightarrow> nat list" where
  "frames_in a b p = [a..<min b (nframes p)]"

fun free_ram :: "mmap_entry list \<Rightarrow> 'a pmm_scheme \<Rightarrow> 'a pmm_scheme" where
  "free_ram [] p = p"
| "free_ram (m # ms) p =
     free_ram ms
       (if usable_ram m
        then fold frame_clear
          (frames_in (frame_of (base_addr_low m + 4095)) (frame_of (base_addr_low m + length_low m)) p) p
        else p)"

fun reserve_mods :: "(u32 \<times> u32) list \<Rightarrow> 'a pmm_scheme \<Rightarrow> 'a pmm_scheme" where
  "reserve_mods [] p = p"
| "reserve_mods ((start, end) # ms) p =
     reserve_mods ms (fold frame_set (frames_in (frame_of start) (frame_of (end + 4095)) p) p)"

definition init_pmm :: "multiboot_info \<Rightarrow> u32 \<Rightarrow> 'a pmm_scheme \<Rightarrow> 'a pmm_scheme" where
  "init_pmm mb reserved_top p =
     (let highest = (case mmap_entries mb of None \<Rightarrow> 0 | Some ms \<Rightarrow> highest_ram ms 0);
          highest = (if highest = 0 then (mem_upper mb + 1024) * 1024 else highest);
          p = p\<lparr>nframes := min (frame_of highest) MAX_FRAMES, bitmap := (\<lambda>_. 0xFFFFFFFF)\<rparr>;
          p = (case mmap_entries mb of None \<Rightarrow> p | Some ms \<Rightarrow> free_ram ms p);
          p = fold frame_set (frames_in 0 256 p) p;
          p = (if reserved_top \<noteq> 0
               then fold frame_set (frames_in 256 (frame_of (reserved_top + 4095)) p) p else p)
      in case mods mb of None \<Rightarrow> p | Some ms \<Rightarrow> reserve_mods ms p)"

section \<open>The bitmap as a set of frames\<close>

lemma frame_test_bit: "frame_test p i \<longleftrightarrow> bit (bitmap p (i div 32)) (i mod 32)"
proof -
  have "drop_bit k w AND 1 = of_bool (bit w k)" for w :: u32 and k
    by (simp only: and_one_eq mod_2_eq_odd bit_iff_odd_drop_bit)
  then show ?thesis by (simp add: frame_test_def)
qed

lemma frame_set_simps [simp]:
  "nframes (frame_set i p) = nframes p" "refcounts (frame_set i p) = refcounts p"
  "nframes (frame_clear i p) = nframes p" "refcounts (frame_clear i p) = refcounts p"
  "nframes (take_frame i p) = nframes p"
  "refcounts (take_frame i p) = (refcounts p)(i := 1)"
  by (simp_all add: frame_set_def frame_clear_def take_frame_def)

lemma same_bit: "i div 32 = j div 32 \<and> i mod 32 = j mod 32 \<longleftrightarrow> i = (j :: nat)"
  by (metis div_mult_mod_eq)

lemma frame_set_test [simp]: "frame_test (frame_set i p) j \<longleftrightarrow> j = i \<or> frame_test p j"
proof -
  have "frame_test (frame_set i p) j \<longleftrightarrow>
      frame_test p j \<or> (j div 32 = i div 32 \<and> j mod 32 = i mod 32)"
    by (simp add: frame_test_bit frame_set_def bit_or_iff bit_exp_iff)
  then show ?thesis by (simp only: same_bit) blast
qed

lemma frame_clear_test [simp]: "frame_test (frame_clear i p) j \<longleftrightarrow> j \<noteq> i \<and> frame_test p j"
proof -
  have "frame_test (frame_clear i p) j \<longleftrightarrow>
      frame_test p j \<and> \<not> (j div 32 = i div 32 \<and> j mod 32 = i mod 32)"
    by (simp add: frame_test_bit frame_clear_def bit_and_iff bit_not_iff bit_exp_iff)
  then show ?thesis by (simp only: same_bit) blast
qed

lemma take_frame_test [simp]: "frame_test (take_frame i p) j \<longleftrightarrow> j = i \<or> frame_test p j"
proof -
  have "frame_test (take_frame i p) j = frame_test (frame_set i p) j"
    by (simp add: frame_test_def take_frame_def)
  then show ?thesis by simp
qed

lemma frame_test_cong: "bitmap p = bitmap q \<Longrightarrow> frame_test p i = frame_test q i"
  by (simp add: frame_test_def)

lemma fold_frame_set [simp]:
  "frame_test (fold frame_set xs p) j \<longleftrightarrow> j \<in> set xs \<or> frame_test p j"
  "nframes (fold frame_set xs p) = nframes p"
  by (induction xs arbitrary: p) auto

lemma fold_frame_clear [simp]:
  "frame_test (fold frame_clear xs p) j \<longleftrightarrow> j \<notin> set xs \<and> frame_test p j"
  "nframes (fold frame_clear xs p) = nframes p"
  by (induction xs arbitrary: p) auto

lemma fold_take_frame [simp]:
  "frame_test (fold take_frame xs p) j \<longleftrightarrow> j \<in> set xs \<or> frame_test p j"
  "nframes (fold take_frame xs p) = nframes p"
  "refcounts (fold take_frame xs p) j = (if j \<in> set xs then 1 else refcounts p j)"
  by (induction xs arbitrary: p) auto

lemma frame_addr: "i < 1048576 \<Longrightarrow> frame_of (addr_of i) = i"
  unfolding frame_of_def addr_of_def by (subst unat_of_nat_small) simp_all

lemma addr_of_zero: "i < 1048576 \<Longrightarrow> addr_of i = 0 \<longleftrightarrow> i = 0"
  by (metis addr_of_def frame_addr mult_0 of_nat_0 zero_less_numeral)

section \<open>The scans\<close>

lemma full_word: "bitmap p (i div 32) = 0xFFFFFFFF \<Longrightarrow> j div 32 = i div 32 \<Longrightarrow> frame_test p j"
proof -
  assume a: "bitmap p (i div 32) = 0xFFFFFFFF" "j div 32 = i div 32"
  have eq: "(0xFFFFFFFF :: u32) = - 1" by simp
  show ?thesis unfolding frame_test_bit a eq by (simp add: bit_minus_1_iff)
qed

lemma find_upt_skip:
  assumes "\<And>j. i \<le> j \<Longrightarrow> j < k \<Longrightarrow> \<not> P j" and "i \<le> k"
  shows "find P [i..<e] = find P [k..<e]"
proof (cases "k \<le> e")
  case True
  then have "[i..<e] = [i..<k] @ [k..<e]" using assms(2) by (metis le_Suc_ex upt_add_eq_append)
  moreover have "find P [i..<k] = None" using assms(1) by (auto simp: find_None_iff)
  ultimately show ?thesis by (simp add: find_append split: option.splits)
next
  case False
  then have "find P [i..<e] = None" using assms(1) by (auto simp: find_None_iff)
  then show ?thesis using False by simp
qed

text \<open>Stepping over full words does not change which frame is found first.\<close>

lemma scan_skip_find: "scan_skip p i e = find (\<lambda>j. \<not> frame_test p j) [i..<e]"
proof (induction p i e rule: scan_skip.induct)
  case (1 p i e)
  show ?case
  proof (cases "i < e")
    case True
    show ?thesis
    proof (cases "bitmap p (i div 32) = 0xFFFFFFFF")
      case full: True
      let ?k = "(i div 32 + 1) * 32"
      have "frame_test p j" if "i \<le> j" "j < ?k" for j
      proof -
        have "j div 32 < i div 32 + 1" using that(2) by (simp add: div_less_iff_less_mult)
        moreover have "i div 32 \<le> j div 32" using that(1) by (rule div_le_mono)
        ultimately show ?thesis using full_word [OF full, of j] by simp
      qed
      moreover have "i \<le> ?k" by presburger
      ultimately have "find (\<lambda>j. \<not> frame_test p j) [i..<e] =
          find (\<lambda>j. \<not> frame_test p j) [?k..<e]" by (intro find_upt_skip) auto
      with "1.IH"(1) [OF True full] full True show ?thesis
        by (subst scan_skip.simps) (simp add: full True)
    next
      case False
      with True "1.IH"(2) show ?thesis
        by (subst scan_skip.simps) (simp add: upt_conv_Cons)
    qed
  qed (subst scan_skip.simps, simp)
qed

lemma find_upt_Some:
  "find P [a..<b] = Some i \<longleftrightarrow> a \<le> i \<and> i < b \<and> P i \<and> (\<forall>j. a \<le> j \<and> j < i \<longrightarrow> \<not> P j)"
  (is "?L \<longleftrightarrow> ?R")
proof
  assume ?L
  then obtain k where k: "k < b - a" "P (a + k)" "i = a + k" "\<forall>j < k. \<not> P (a + j)"
    by (auto simp: find_Some_iff)
  have "\<not> P j" if "a \<le> j" "j < i" for j using k(3,4) that by (metis le_Suc_ex nat_add_left_cancel_less)
  with k show ?R by auto
next
  assume R: ?R
  then show ?L by (auto simp: find_Some_iff intro!: exI [of _ "i - a"])
qed

text \<open>A run of \<open>n\<close> free frames from \<open>s\<close>.\<close>

definition free_run :: "'a pmm_scheme \<Rightarrow> nat \<Rightarrow> nat \<Rightarrow> bool" where
  "free_run p n s \<longleftrightarrow> (\<forall>j. s \<le> j \<and> j < s + n \<longrightarrow> \<not> frame_test p j)"

lemma free_run_empty: "free_run p 0 s"
  by (auto simp: free_run_def)

lemma run_scan_correct:
  assumes "rl < n" and "rl \<le> i - st" and "st \<le> i" and "rl > 0 \<longrightarrow> rs = i - rl"
    and "free_run p rl (i - rl)"
    and "\<And>s. st \<le> s \<Longrightarrow> free_run p n s \<Longrightarrow> i - rl \<le> s"
  shows "run_scan p n i e rs rl =
    find (\<lambda>s. free_run p n s \<and> s + n \<le> e) [st..<e]"
  using assms
proof (induction p n i e rs rl rule: run_scan.induct)
  case (1 p n i e rs rl)
  let ?P = "\<lambda>s. free_run p n s \<and> s + n \<le> e"
  show ?case
  proof (cases "i < e")
    case False
    have "\<not> ?P s" if "st \<le> s" for s using "1.prems"(1) "1.prems"(6) [of s] that False by fastforce
    then have "find ?P [st..<e] = None" by (auto simp: find_None_iff)
    with False show ?thesis by (subst run_scan.simps) simp
  next
    case True
    show ?thesis
    proof (cases "frame_test p i")
      case used: True
      have *: "i + 1 \<le> s" if "st \<le> s" "free_run p n s" for s
      proof (rule ccontr)
        assume "\<not> i + 1 \<le> s"
        with "1.prems"(1) "1.prems"(6) [OF that] have "s \<le> i" "i < s + n" by auto
        with that(2) used show False by (auto simp: free_run_def)
      qed
      have "run_scan p n (i + 1) e rs 0 = find ?P [st..<e]"
        using "1.IH"(2) [OF True] used "1.prems"(1,3) * by (simp add: free_run_empty)
      with True used show ?thesis by (subst run_scan.simps) simp
    next
      case free: False
      let ?rs = "if rl = 0 then i else rs" and ?rl = "rl + 1"
      have rs: "?rs = i - rl" using "1.prems"(4) by auto
      have run: "free_run p ?rl (i - rl)"
        unfolding free_run_def
      proof (intro allI impI)
        fix j assume j: "i - rl \<le> j \<and> j < i - rl + ?rl"
        show "\<not> frame_test p j"
        proof (cases "j = i")
          case False
          with j "1.prems"(2,3) have "j < i - rl + rl" by auto
          with j "1.prems"(5) show ?thesis by (auto simp: free_run_def)
        qed (use free in simp)
      qed
      show ?thesis
      proof (cases "?rl = n")
        case full: True
        have "?P (i - rl)" using run full True "1.prems"(2,3) by auto
        moreover have "\<not> ?P j" if "st \<le> j" "j < i - rl" for j
          using "1.prems"(6) [of j] that by auto
        ultimately have "find ?P [st..<e] = Some (i - rl)"
          using "1.prems"(2,3) True by (auto simp: find_upt_Some)
        with True free full rs show ?thesis by (subst run_scan.simps) (simp add: Let_def)
      next
        case more: False
        have "run_scan p n (i + 1) e ?rs ?rl = find ?P [st..<e]"
        proof (rule "1.IH"(1) [OF True free refl refl more])
          show "?rl < n" using more "1.prems"(1) by simp
          show "?rl \<le> i + 1 - st" "st \<le> i + 1" using "1.prems"(2,3) by auto
          show "0 < ?rl \<longrightarrow> ?rs = i + 1 - ?rl" using rs by simp
          show "free_run p ?rl (i + 1 - ?rl)" using run by simp
          show "i + 1 - ?rl \<le> s" if "st \<le> s" "free_run p n s" for s
            using "1.prems"(6) [OF that] by simp
        qed
        with True free more show ?thesis by (subst run_scan.simps) (simp add: Let_def)
      qed
    qed
  qed
qed

section \<open>Allocation\<close>

definition pmm_ok :: "'a pmm_scheme \<Rightarrow> bool" where
  "pmm_ok p \<longleftrightarrow> nframes p \<le> MAX_FRAMES"

text \<open>
  What an allocation from a zone does: it picks a free managed frame above the first
  megabyte, takes it, and leaves every other frame alone.
\<close>

lemma alloc_zone_cases:
  assumes "pmm_alloc_frame_zone z p = Inr (a, q)"
  obtains i where "a = addr_of i" and "q = take_frame i p" and "256 \<le> i" and "i < nframes p"
    and "\<not> frame_test p i" and "z = PMM_ZONE_LOW \<Longrightarrow> i < 4096"
proof (cases z)
  case PMM_ZONE_LOW
  with assms obtain i where f: "find (\<lambda>i. \<not> frame_test p i) (rev [256..<min 4096 (nframes p)]) = Some i"
    and "a = addr_of i" "q = take_frame i p"
    by (auto simp: pmm_alloc_frame_zone_def Let_def split: option.splits if_splits)
  moreover from f have "i \<in> set (rev [256..<min 4096 (nframes p)])" "\<not> frame_test p i"
    by (auto simp: find_Some_iff in_set_conv_nth simp del: set_rev)
  ultimately show thesis using that by simp
next
  case PMM_ZONE_ANY
  with assms obtain i where i: "a = addr_of i" "q = take_frame i p"
    and f: "scan_skip p 4096 (nframes p) = Some i \<or>
      find (\<lambda>i. \<not> frame_test p i) [256..<min 4096 (nframes p)] = Some i"
    by (auto simp: pmm_alloc_frame_zone_def Let_def split: option.splits)
  then have "256 \<le> i" "i < nframes p" "\<not> frame_test p i"
    by (auto simp: scan_skip_find find_upt_Some)
  with i PMM_ZONE_ANY that show thesis by simp
qed

text \<open>A managed frame that is in use.\<close>

definition owned :: "'a pmm_scheme \<Rightarrow> nat \<Rightarrow> bool" where
  "owned p i \<longleftrightarrow> i < nframes p \<and> frame_test p i"

lemma alloc_zone_owned:
  assumes "pmm_ok p" and "pmm_alloc_frame_zone z p = Inr (a, q)"
  shows "\<not> owned p (frame_of a)" and "owned q i \<longleftrightarrow> owned p i \<or> i = frame_of a" and "pmm_ok q"
    and "frame_of a < nframes p" and "256 \<le> frame_of a" and "q = take_frame (frame_of a) p"
proof -
  obtain k where k: "a = addr_of k" "q = take_frame k p" "k < nframes p" "\<not> frame_test p k"
    "256 \<le> k" using assms(2) by (rule alloc_zone_cases)
  moreover from k assms(1) have "frame_of a = k" by (auto simp: pmm_ok_def intro!: frame_addr)
  ultimately show "\<not> owned p (frame_of a)" and "owned q i \<longleftrightarrow> owned p i \<or> i = frame_of a"
    and "pmm_ok q" and "frame_of a < nframes p" and "256 \<le> frame_of a"
    and "q = take_frame (frame_of a) p"
    using assms(1) by (auto simp: owned_def pmm_ok_def)
qed

lemma free_frame_simps [simp]:
  "nframes (pmm_free_frame a p) = nframes p"
  "owned (pmm_free_frame a p) i \<longleftrightarrow> owned p i \<and> i \<noteq> frame_of a"
proof -
  show "nframes (pmm_free_frame a p) = nframes p" by (simp add: pmm_free_frame_def Let_def)
  have "frame_test ((frame_clear k p)\<lparr>refcounts := f\<rparr>) i = frame_test (frame_clear k p) i" for k f
    by (rule frame_test_cong) simp
  then show "owned (pmm_free_frame a p) i \<longleftrightarrow> owned p i \<and> i \<noteq> frame_of a"
    by (auto simp: owned_def pmm_free_frame_def Let_def)
qed

interpretation zone: frame_allocator "pmm_alloc_frame_zone z" pmm_free_frame owned frame_of pmm_ok
  for z
proof
  show "\<not> owned p (frame_of a)" if "pmm_ok p" "pmm_alloc_frame_zone z p = Inr (a, q)"
    for p q :: "'a pmm_scheme" and a using that by (rule alloc_zone_owned)
  show "owned q i \<longleftrightarrow> owned p i \<or> i = frame_of a"
    if "pmm_ok p" "pmm_alloc_frame_zone z p = Inr (a, q)"
    for p q :: "'a pmm_scheme" and a i using that by (rule alloc_zone_owned)
  show "pmm_ok q" if "pmm_ok p" "pmm_alloc_frame_zone z p = Inr (a, q)"
    for p q :: "'a pmm_scheme" and a using that by (rule alloc_zone_owned)
  show "owned (pmm_free_frame a p) i \<longleftrightarrow> owned p i \<and> i \<noteq> frame_of a"
    for p :: "'a pmm_scheme" and a i by simp
  show "pmm_ok (pmm_free_frame a p)" if "pmm_ok p" for p :: "'a pmm_scheme" and a
    using that by (simp add: pmm_ok_def)
qed

text \<open>The invariant between the two arrays: a frame with a reference count is in use.\<close>

definition counted :: "'a pmm_scheme \<Rightarrow> bool" where
  "counted p \<longleftrightarrow> (\<forall>i. refcounts p i \<noteq> 0 \<longrightarrow> frame_test p i)"

lemma counted_take: "counted p \<Longrightarrow> counted (take_frame i p)"
  by (auto simp: counted_def)

lemma counted_free: "counted p \<Longrightarrow> counted (pmm_free_frame a p)"
proof -
  assume c: "counted p"
  have "frame_test ((frame_clear k p)\<lparr>refcounts := f\<rparr>) i = frame_test (frame_clear k p) i" for k f i
    by (rule frame_test_cong) simp
  with c show ?thesis by (auto simp: counted_def pmm_free_frame_def Let_def)
qed

lemma refcount_dec_test [simp]:
  "bitmap (snd (pmm_refcount_dec a p)) = bitmap p"
  "nframes (snd (pmm_refcount_dec a p)) = nframes p"
  by (simp_all add: pmm_refcount_dec_def Let_def)

lemma counted_dec: "counted p \<Longrightarrow> counted (snd (pmm_refcount_dec a p))"
  using frame_test_cong [of "snd (pmm_refcount_dec a p)" p]
  by (auto simp: counted_def pmm_refcount_dec_def Let_def split: if_splits)

section \<open>Initialisation\<close>

text \<open>The frames that the memory map offers: whole pages inside a usable region.\<close>

definition offered :: "mmap_entry list \<Rightarrow> nat \<Rightarrow> bool" where
  "offered ms i \<longleftrightarrow> (\<exists>m \<in> set ms. usable_ram m \<and> frame_of (base_addr_low m + 4095) \<le> i \<and>
     i < frame_of (base_addr_low m + length_low m))"

definition in_mods :: "(u32 \<times> u32) list \<Rightarrow> nat \<Rightarrow> bool" where
  "in_mods ms i \<longleftrightarrow> (\<exists>(start, end) \<in> set ms. frame_of start \<le> i \<and> i < frame_of (end + 4095))"

lemma free_ram_test:
  "nframes (free_ram ms p) = nframes p"
  "frame_test (free_ram ms p) i \<longleftrightarrow> frame_test p i \<and> \<not> (offered ms i \<and> i < nframes p)"
proof -
  show n: "nframes (free_ram ms p) = nframes p" for p by (induction ms arbitrary: p) auto
  show "frame_test (free_ram ms p) i \<longleftrightarrow> frame_test p i \<and> \<not> (offered ms i \<and> i < nframes p)"
    by (induction ms arbitrary: p) (auto simp: offered_def frames_in_def)
qed

lemma reserve_mods_test:
  "nframes (reserve_mods ms p) = nframes p"
  "frame_test (reserve_mods ms p) i \<longleftrightarrow> frame_test p i \<or> in_mods ms i \<and> i < nframes p"
proof -
  show n: "nframes (reserve_mods ms p) = nframes p" for p
    by (induction ms p rule: reserve_mods.induct) auto
  show "frame_test (reserve_mods ms p) i \<longleftrightarrow> frame_test p i \<or> in_mods ms i \<and> i < nframes p"
    by (induction ms p rule: reserve_mods.induct) (auto simp: in_mods_def frames_in_def)
qed

lemma all_ones_test: "bitmap p = (\<lambda>_. 0xFFFFFFFF) \<Longrightarrow> frame_test p i"
  using full_word [of p i i] by simp

section \<open>Properties\<close>

text \<open>
  C17. Allocating a frame, from either zone, hands out a managed frame that was free and is
  above the first megabyte; it is in use afterwards with a reference count of one, every
  other frame and count is unchanged, and the low zone stays below 16 MB.
\<close>

theorem pmm_alloc_zone:
  assumes "pmm_ok p" and "pmm_alloc_frame_zone z p = Inr (a, q)"
  shows "256 \<le> frame_of a \<and> frame_of a < nframes p \<and> \<not> frame_test p (frame_of a) \<and>
    (\<forall>i. frame_test q i \<longleftrightarrow> frame_test p i \<or> i = frame_of a) \<and>
    refcounts q = (refcounts p)(frame_of a := 1) \<and>
    (z = PMM_ZONE_LOW \<longrightarrow> frame_of a < 4096)"
proof -
  note o = alloc_zone_owned [OF assms]
  have "z = PMM_ZONE_LOW \<longrightarrow> frame_of a < 4096"
    using alloc_zone_cases [OF assms(2)] assms(1)
    by (metis frame_addr pmm_ok_def less_le_trans zone_simps(5))
  moreover have "\<not> frame_test p (frame_of a)" using o(1,4) by (simp add: owned_def)
  ultimately show ?thesis using o by (metis frame_set_simps(6) take_frame_test)
qed

text \<open>
  C7. The general zone is searched first-fit: from 16 MB up, and only when every frame
  there is used, from 1 MB up. The search that steps over full bitmap words finds the same
  frame as the plain one, and the allocator stops the machine exactly when no frame from
  1 MB up is free.
\<close>

theorem pmm_alloc_first_fit:
  "pmm_alloc_frame p =
    (case find (\<lambda>i. \<not> frame_test p i) ([4096..<nframes p] @ [256..<min 4096 (nframes p)]) of
       Some i \<Rightarrow> Inr (addr_of i, take_frame i p)
     | None \<Rightarrow> Inl (Panic ''pmm: out of physical frames''))"
  by (simp add: pmm_alloc_frame_def pmm_alloc_frame_zone_def scan_skip_find find_append
      split: option.split)

text \<open>
  C18. Contiguous allocation finds the lowest run of \<open>n\<close> free frames in the low zone and
  takes exactly these frames; it returns 0, changing nothing, only when there is none.
\<close>

theorem pmm_alloc_contiguous_correct:
  assumes "pmm_ok p" and "0 < n"
  shows "case find (\<lambda>s. free_run p n s \<and> s + n \<le> min 4096 (nframes p))
            [256..<min 4096 (nframes p)] of
      None \<Rightarrow> pmm_alloc_contiguous n p = (0, p)
    | Some s \<Rightarrow> \<exists>q. pmm_alloc_contiguous n p = (addr_of s, q) \<and> addr_of s \<noteq> 0 \<and>
        free_run p n s \<and>
        (\<forall>j. frame_test q j \<longleftrightarrow> frame_test p j \<or> (s \<le> j \<and> j < s + n)) \<and>
        (\<forall>j. refcounts q j = (if s \<le> j \<and> j < s + n then 1 else refcounts p j))"
proof -
  let ?e = "min 4096 (nframes p)"
  have scan: "run_scan p n 256 ?e 0 0 = find (\<lambda>s. free_run p n s \<and> s + n \<le> ?e) [256..<?e]"
    by (rule run_scan_correct) (use assms in \<open>auto simp: free_run_def\<close>)
  show ?thesis
  proof (cases "run_scan p n 256 ?e 0 0")
    case None
    with scan assms show ?thesis by (simp add: pmm_alloc_contiguous_def)
  next
    case (Some s)
    with scan have s: "find (\<lambda>s. free_run p n s \<and> s + n \<le> ?e) [256..<?e] = Some s" by simp
    then have "free_run p n s" "256 \<le> s" "s < 4096" by (auto simp: find_upt_Some)
    moreover from this have "addr_of s \<noteq> 0" using addr_of_zero [of s] by simp
    ultimately show ?thesis using s Some assms by (auto simp: pmm_alloc_contiguous_def)
  qed
qed


text \<open>Concrete instances.\<close>

definition demo_pmm :: "pmm" where
  "demo_pmm = \<lparr>bitmap = (\<lambda>w. if w = 128 then 0xFFFFFFFF else if w = 129 then 0xFFFFFFFB
     else if w = 8 then 0xFFFFFF17 else 0xFFFFFFFF), nframes = 4200, refcounts = (\<lambda>_. 0)\<rparr>"

lemma demo_pmm_ok: "pmm_ok demo_pmm" "nframes demo_pmm = 4200"
  by (simp_all add: pmm_ok_def demo_pmm_def)

lemma demo_pmm_scan: "find (\<lambda>i. \<not> frame_test demo_pmm i) [4096..<4200] = Some 4130"
  unfolding scan_skip_find [symmetric]
  by (simp add: scan_skip.simps frame_test_bit demo_pmm_def)

theorem pmm_alloc_zone_witness:
  "inr_sat (pmm_alloc_frame_zone PMM_ZONE_ANY demo_pmm) (\<lambda>(a, q).
     a = addr_of 4130 \<and> \<not> frame_test demo_pmm (frame_of a) \<and> frame_test q (frame_of a))"
proof -
  have a: "pmm_alloc_frame_zone PMM_ZONE_ANY demo_pmm = Inr (addr_of 4130, take_frame 4130 demo_pmm)"
    unfolding pmm_alloc_frame_zone_def Let_def pmm_zone.case scan_skip_find zone_simps
      demo_pmm_ok(2) demo_pmm_scan option.case ..
  from pmm_alloc_zone [OF demo_pmm_ok(1) a] show ?thesis by (simp add: a frame_addr)
qed

lemma demo_pmm_run:
  "find (\<lambda>s. free_run demo_pmm 3 s \<and> s + 3 \<le> min 4096 (nframes demo_pmm))
     [256..<min 4096 (nframes demo_pmm)] = Some 261"
proof -
  have "run_scan demo_pmm 3 256 (min 4096 (nframes demo_pmm)) 0 0 = Some 261"
    unfolding demo_pmm_ok(2) by code_simp
  moreover have "run_scan demo_pmm 3 256 (min 4096 (nframes demo_pmm)) 0 0 =
      find (\<lambda>s. free_run demo_pmm 3 s \<and> s + 3 \<le> min 4096 (nframes demo_pmm))
        [256..<min 4096 (nframes demo_pmm)]"
    by (rule run_scan_correct) (auto simp: free_run_def)
  ultimately show ?thesis by (simp only:)
qed

theorem pmm_alloc_contiguous_witness:
  "\<exists>q. pmm_alloc_contiguous 3 demo_pmm = (addr_of 261, q) \<and> frame_test q 262"
proof -
  have "(0 :: nat) < 3" by simp
  from pmm_alloc_contiguous_correct [OF demo_pmm_ok(1) this] obtain q where
    "pmm_alloc_contiguous 3 demo_pmm = (addr_of 261, q)"
    "\<forall>j. frame_test q j \<longleftrightarrow> frame_test demo_pmm j \<or> (261 \<le> j \<and> j < 261 + 3)"
    unfolding demo_pmm_run option.case by blast
  then show ?thesis by auto
qed

definition demo_mb :: multiboot_info where
  "demo_mb = \<lparr>mmap_entries = Some [\<lparr>base_addr_low = 0, base_addr_high = 0, length_low = 0xA0000,
     mem_type = 1\<rparr>, \<lparr>base_addr_low = 0x100000, base_addr_high = 0, length_low = 0x1F00000,
     mem_type = 1\<rparr>], mem_upper = 0, mods = Some [(0x200000, 0x200800)]\<rparr>"


end
