(* ===== verification/String_Lib.thy ===== *)
theory String_Lib
  imports Prelude
begin

text \<open>
  The freestanding string library of the kernel, \<open>lib/string.c\<close>, and the C library of
  user programs, \<open>userland/libc/string.c\<close>. The memory functions work on a byte memory
  with the word-at-a-time loops the code has; the string functions work on the bytes from
  a pointer to the end of its object, and reading past the end is \<open>None\<close>. The proofs
  relate them to the plain list operations.
\<close>

section \<open>Memory: copying and filling by words\<close>

type_synonym mem = "nat \<Rightarrow> u8"

text \<open>One 32-bit load and store: the four bytes are read before any is written.\<close>

definition copy_word :: "nat \<Rightarrow> nat \<Rightarrow> mem \<Rightarrow> mem" where
  "copy_word d s m = m(d := m s, d + 1 := m (s + 1), d + 2 := m (s + 2), d + 3 := m (s + 3))"

fun copy_words :: "nat \<Rightarrow> nat \<Rightarrow> nat \<Rightarrow> mem \<Rightarrow> mem" where
  "copy_words 0 d s m = m"
| "copy_words (Suc words) d s m = copy_words words (d + 4) (s + 4) (copy_word d s m)"

fun copy_bytes :: "nat \<Rightarrow> nat \<Rightarrow> nat \<Rightarrow> mem \<Rightarrow> mem" where
  "copy_bytes 0 d s m = m"
| "copy_bytes (Suc tail) d s m = copy_bytes tail (d + 1) (s + 1) (m(d := m s))"

definition memcpy :: "nat \<Rightarrow> nat \<Rightarrow> nat \<Rightarrow> mem \<Rightarrow> mem" where
  "memcpy dest src n m =
     (let words = n div 4 in
      copy_bytes (n mod 4) (dest + 4 * words) (src + 4 * words) (copy_words words dest src m))"

fun fill_words :: "nat \<Rightarrow> nat \<Rightarrow> u8 \<Rightarrow> mem \<Rightarrow> mem" where
  "fill_words 0 d b m = m"
| "fill_words (Suc words) d b m =
     fill_words words (d + 4) b (m(d := b, d + 1 := b, d + 2 := b, d + 3 := b))"

fun fill_bytes :: "nat \<Rightarrow> nat \<Rightarrow> u8 \<Rightarrow> mem \<Rightarrow> mem" where
  "fill_bytes 0 d b m = m"
| "fill_bytes (Suc tail) d b m = fill_bytes tail (d + 1) b (m(d := b))"

definition memset :: "nat \<Rightarrow> u8 \<Rightarrow> nat \<Rightarrow> mem \<Rightarrow> mem" where
  "memset dest b len m =
     (let words = len div 4 in
      fill_bytes (len mod 4) (dest + 4 * words) b (fill_words words dest b m))"

definition libc_memset :: "nat \<Rightarrow> u8 \<Rightarrow> nat \<Rightarrow> mem \<Rightarrow> mem" where
  "libc_memset dest b n m = fill_bytes n dest b m"

text \<open>The downward loop of \<open>memmove\<close>, from the end of both regions.\<close>

fun copy_down :: "nat \<Rightarrow> nat \<Rightarrow> nat \<Rightarrow> mem \<Rightarrow> mem" where
  "copy_down 0 d s m = m"
| "copy_down (Suc n) d s m = copy_down n d s (m(d + n := m (s + n)))"

definition memmove :: "nat \<Rightarrow> nat \<Rightarrow> nat \<Rightarrow> mem \<Rightarrow> mem" where
  "memmove dest src n m = (if dest < src then copy_bytes n dest src m else copy_down n dest src m)"

section \<open>Strings\<close>

fun memcmp :: "nat \<Rightarrow> u8 list \<Rightarrow> u8 list \<Rightarrow> int option" where
  "memcmp 0 a b = Some 0"
| "memcmp (Suc n) (x # a) (y # b) = (if x \<noteq> y then Some (uint x - uint y) else memcmp n a b)"
| "memcmp (Suc n) _ _ = None"

fun strlen :: "u8 list \<Rightarrow> nat option" where
  "strlen [] = None"
| "strlen (c # s) = (if c = 0 then Some 0 else map_option Suc (strlen s))"

fun strcmp :: "u8 list \<Rightarrow> u8 list \<Rightarrow> int option" where
  "strcmp (x # a) (y # b) =
     (if x \<noteq> 0 \<and> x = y then strcmp a b else Some (uint x - uint y))"
| "strcmp _ _ = None"

fun strncmp :: "nat \<Rightarrow> u8 list \<Rightarrow> u8 list \<Rightarrow> int option" where
  "strncmp 0 a b = Some 0"
| "strncmp (Suc n) (x # a) (y # b) =
     (if x \<noteq> y then Some (uint x - uint y) else if x = 0 then Some 0 else strncmp n a b)"
| "strncmp (Suc n) _ _ = None"

text \<open>The offset of the character found, \<open>Some None\<close> for the null pointer.\<close>

fun strchr_at :: "nat \<Rightarrow> u8 list \<Rightarrow> int \<Rightarrow> nat option option" where
  "strchr_at i [] c = None"
| "strchr_at i (x # s) c =
     (if x = 0 then Some (if c = 0 then Some i else None)
      else if x = of_int c then Some (Some i) else strchr_at (Suc i) s c)"

definition strchr :: "u8 list \<Rightarrow> int \<Rightarrow> nat option option" where
  "strchr s c = strchr_at 0 s c"

fun strrchr_at :: "nat \<Rightarrow> nat option \<Rightarrow> u8 list \<Rightarrow> int \<Rightarrow> nat option option" where
  "strrchr_at i found [] c = None"
| "strrchr_at i found (x # s) c =
     (if x = 0 then Some (if c = 0 then Some i else found)
      else strrchr_at (Suc i) (if x = of_int c then Some i else found) s c)"

definition strrchr :: "u8 list \<Rightarrow> int \<Rightarrow> nat option option" where
  "strrchr s c = strrchr_at 0 None s c"

text \<open>The bytes \<open>strncpy\<close> writes: the source up to its end, then NULs up to \<open>n\<close>.\<close>

fun strncpy :: "nat \<Rightarrow> u8 list \<Rightarrow> u8 list option" where
  "strncpy 0 src = Some []"
| "strncpy (Suc n) [] = None"
| "strncpy (Suc n) (c # src) =
     (if c = 0 then map_option ((#) 0) (strncpy n (c # src))
      else map_option ((#) c) (strncpy n src))"

text \<open>\<open>strncpy\<close> of the C library: a copy loop that stops at the NUL, and a fill loop.\<close>

fun libc_strncpy_copy :: "nat \<Rightarrow> u8 list \<Rightarrow> (u8 list \<times> nat) option" where
  "libc_strncpy_copy 0 src = Some ([], 0)"
| "libc_strncpy_copy (Suc n) [] = None"
| "libc_strncpy_copy (Suc n) (c # src) =
     (if c = 0 then Some ([0], n + 1)
      else map_option (\<lambda>(d, k). (c # d, k)) (libc_strncpy_copy n src))"

text \<open>The fill count: the copy loop leaves \<open>n\<close> undecremented when it stops at the NUL.\<close>

definition libc_strncpy :: "nat \<Rightarrow> u8 list \<Rightarrow> u8 list option" where
  "libc_strncpy n src = map_option (\<lambda>(d, k). d @ replicate k 0) (libc_strncpy_copy n src)"

fun strcpy :: "u8 list \<Rightarrow> u8 list option" where
  "strcpy [] = None"
| "strcpy (c # src) = (if c = 0 then Some [0] else map_option ((#) c) (strcpy src))"

text \<open>\<open>strcat\<close> and \<open>strncat\<close>: the destination's string, then the source's.\<close>

fun cstring :: "u8 list \<Rightarrow> u8 list option" where
  "cstring [] = None"
| "cstring (c # s) = (if c = 0 then Some [] else map_option ((#) c) (cstring s))"

definition strcat :: "u8 list \<Rightarrow> u8 list \<Rightarrow> u8 list option" where
  "strcat dest src = (case cstring dest of None \<Rightarrow> None | Some d \<Rightarrow> map_option ((@) d) (strcpy src))"

fun strncat_copy :: "nat \<Rightarrow> u8 list \<Rightarrow> u8 list option" where
  "strncat_copy 0 src = Some [0]"
| "strncat_copy (Suc n) [] = None"
| "strncat_copy (Suc n) (c # src) =
     (if c = 0 then Some [0] else map_option ((#) c) (strncat_copy n src))"

definition strncat :: "u8 list \<Rightarrow> u8 list \<Rightarrow> nat \<Rightarrow> u8 list option" where
  "strncat dest src n =
     (case cstring dest of None \<Rightarrow> None | Some d \<Rightarrow> map_option ((@) d) (strncat_copy n src))"

section \<open>Memory lemmas\<close>

definition copied :: "nat \<Rightarrow> nat \<Rightarrow> nat \<Rightarrow> mem \<Rightarrow> mem" where
  "copied n d s m = (\<lambda>a. if d \<le> a \<and> a < d + n then m (s + (a - d)) else m a)"

lemma copied_add:
  assumes "d \<le> s \<or> s + j + k \<le> d"
  shows "copied k (d + j) (s + j) (copied j d s m) = copied (j + k) d s m"
proof
  fix a
  show "copied k (d + j) (s + j) (copied j d s m) a = copied (j + k) d s m a"
    using assms by (auto simp: copied_def)
qed

lemma copied_1: "m(d := m s) = copied 1 d s m"
  by (rule ext) (auto simp: copied_def)

lemma copy_word_copied: "copy_word d s m = copied 4 d s m"
proof
  fix a
  show "copy_word d s m a = copied 4 d s m a"
    by (cases "d \<le> a \<and> a < d + 4")
      (auto simp: copy_word_def copied_def le_Suc_ex dest!: le_Suc_ex
        intro!: arg_cong [where f = m])
qed

lemma copy_bytes_copied: "d \<le> s \<or> s + n \<le> d \<Longrightarrow> copy_bytes n d s m = copied n d s m"
proof (induction n arbitrary: d s m)
  case 0
  show ?case by (rule ext) (auto simp: copied_def)
next
  case (Suc n)
  then have "copy_bytes n (d + 1) (s + 1) (copied 1 d s m) = copied n (d + 1) (s + 1) (copied 1 d s m)"
    by (intro Suc.IH) auto
  also have "\<dots> = copied (1 + n) d s m" by (rule copied_add) (use Suc.prems in auto)
  finally show ?case by (simp add: copied_1)
qed

lemma copy_words_copied:
  "d \<le> s \<or> s + 4 * w \<le> d \<Longrightarrow> copy_words w d s m = copied (4 * w) d s m"
proof (induction w arbitrary: d s m)
  case 0
  show ?case by (rule ext) (auto simp: copied_def)
next
  case (Suc w)
  then have "copy_words w (d + 4) (s + 4) (copied 4 d s m)
      = copied (4 * w) (d + 4) (s + 4) (copied 4 d s m)" by (intro Suc.IH) auto
  also have "\<dots> = copied (4 + 4 * w) d s m" by (rule copied_add) (use Suc.prems in auto)
  finally show ?case by (simp add: copy_word_copied)
qed

lemma copy_down_copied: "s \<le> d \<or> d + n \<le> s \<Longrightarrow> copy_down n d s m = copied n d s m"
proof (induction n arbitrary: m)
  case 0
  show ?case by (rule ext) (auto simp: copied_def)
next
  case (Suc n)
  then have "copy_down n d s (m(d + n := m (s + n))) = copied n d s (m(d + n := m (s + n)))"
    by (intro Suc.IH) auto
  also have "\<dots> = copied (Suc n) d s m"
  proof
    fix a
    show "copied n d s (m(d + n := m (s + n))) a = copied (Suc n) d s m a"
      using Suc.prems by (cases "a = d + n") (auto simp: copied_def)
  qed
  finally show ?case by simp
qed

definition filled :: "nat \<Rightarrow> nat \<Rightarrow> u8 \<Rightarrow> mem \<Rightarrow> mem" where
  "filled n d b m = (\<lambda>a. if d \<le> a \<and> a < d + n then b else m a)"

lemma fill_bytes_filled: "fill_bytes n d b m = filled n d b m"
  by (induction n arbitrary: d m) (auto simp: filled_def fun_eq_iff)

lemma fill_words_filled: "fill_words w d b m = filled (4 * w) d b m"
  by (induction w arbitrary: d m) (auto simp: filled_def fun_eq_iff)

section \<open>String lemmas\<close>

text \<open>A buffer that holds the string \<open>s\<close> with its NUL.\<close>

definition holds :: "u8 list \<Rightarrow> u8 list \<Rightarrow> bool" where
  "holds buf s \<longleftrightarrow> 0 \<notin> set s \<and> (\<exists>rest. buf = s @ 0 # rest)"

lemma cstring_holds: "cstring buf = Some s \<longleftrightarrow> holds buf s"
proof (induction buf arbitrary: s)
  case (Cons c buf)
  show ?case
    by (cases s) (auto simp: holds_def Cons.IH)
qed (simp add: holds_def)

lemma strlen_holds: "holds buf s \<Longrightarrow> strlen buf = Some (length s)"
proof (induction s arbitrary: buf)
  case (Cons c s)
  then obtain rest where "buf = c # s @ 0 # rest" "c \<noteq> 0" "0 \<notin> set s" by (auto simp: holds_def)
  moreover from this have "holds (s @ 0 # rest) s" by (auto simp: holds_def)
  ultimately show ?case using Cons.IH by simp
qed (auto simp: holds_def)

lemma byte_pos: "x \<noteq> 0 \<Longrightarrow> 0 < uint (x :: u8)"
  using word_gt_0 [of x] by (simp add: word_less_def)

lemma uint_diff_zero: "uint x = uint y \<longleftrightarrow> x = (y :: u8)"
  by (simp add: word_uint_eq_iff)

lemma strcmp_holds:
  "holds a s \<Longrightarrow> holds b t \<Longrightarrow>
     \<exists>r. strcmp a b = Some r \<and> (r = 0 \<longleftrightarrow> s = t) \<and> (r < 0 \<longleftrightarrow> ord_class.lexordp s t)"
proof (induction s arbitrary: a b t)
  case Nil
  then show ?case using byte_pos
    by (cases t) (fastforce simp: holds_def)+
next
  case (Cons x s)
  then obtain ra where a: "a = x # s @ 0 # ra" "x \<noteq> 0" "0 \<notin> set s" by (auto simp: holds_def)
  then have ha: "holds (s @ 0 # ra) s" by (auto simp: holds_def)
  show ?case
  proof (cases t)
    case Nil
    with Cons.prems a byte_pos [of x] show ?thesis by (auto simp: holds_def word_less_def)
  next
    case (Cons y t')
    with Cons.prems(2) obtain rb where b: "b = y # t' @ 0 # rb" "y \<noteq> 0" "0 \<notin> set t'"
      by (auto simp: holds_def)
    then have hb: "holds (t' @ 0 # rb) t'" by (auto simp: holds_def)
    show ?thesis
      using Cons.IH [OF ha hb] a b Cons uint_diff_zero [of x y]
      by (auto simp: word_less_def)
  qed
qed


lemma strncpy_holds:
  "holds src s \<Longrightarrow> length s \<le> n \<Longrightarrow> strncpy n src = Some (s @ replicate (n - length s) 0)"
proof (induction s arbitrary: src n)
  case Nil
  then obtain rest where src: "src = 0 # rest" by (auto simp: holds_def)
  have "strncpy k (0 # rest) = Some (replicate k 0)" for k by (induction k) auto
  with src show ?case by simp
next
  case (Cons c s)
  then obtain rest where src: "src = c # s @ 0 # rest" "c \<noteq> 0" "0 \<notin> set s"
    by (auto simp: holds_def)
  then have "holds (s @ 0 # rest) s" by (auto simp: holds_def)
  with Cons src show ?case by (cases n) auto
qed

lemma libc_strncpy_copy_holds:
  "holds src s \<Longrightarrow> length s < n \<Longrightarrow> libc_strncpy_copy n src = Some (s @ [0], n - length s)"
proof (induction s arbitrary: src n)
  case Nil
  then show ?case by (cases n) (auto simp: holds_def)
next
  case (Cons c s)
  then obtain rest where src: "src = c # s @ 0 # rest" "c \<noteq> 0" "0 \<notin> set s"
    by (auto simp: holds_def)
  then have "holds (s @ 0 # rest) s" by (auto simp: holds_def)
  with Cons src show ?case by (cases n) auto
qed

lemma strcpy_holds: "holds src s \<Longrightarrow> strcpy src = Some (s @ [0])"
proof (induction s arbitrary: src)
  case (Cons c s)
  then obtain rest where src: "src = c # s @ 0 # rest" "c \<noteq> 0" "0 \<notin> set s"
    by (auto simp: holds_def)
  then have "holds (s @ 0 # rest) s" by (auto simp: holds_def)
  with Cons src show ?case by auto
qed (auto simp: holds_def)

lemma strcat_holds:
  "holds dest d \<Longrightarrow> holds src s \<Longrightarrow> \<exists>r. strcat dest src = Some r \<and> holds r (d @ s)"
  by (auto simp: strcat_def strcpy_holds cstring_holds [THEN iffD2]) (auto simp: holds_def)

lemma strchr_at_absent: "0 \<notin> set s \<Longrightarrow> of_int c \<notin> set s \<Longrightarrow> c \<noteq> 0 \<Longrightarrow> strchr_at i (s @ 0 # rest) c = Some None"
  by (induction s arbitrary: i) auto

lemma strchr_at_found:
  "0 \<notin> set s \<Longrightarrow> of_int c \<notin> set s \<Longrightarrow> of_int c \<noteq> (0::u8) \<Longrightarrow>
     strchr_at i (s @ of_int c # rest) c = Some (Some (i + length s))"
  by (induction s arbitrary: i) auto

section \<open>Properties\<close>

text \<open>
  C20. The word-at-a-time \<open>memcpy\<close> of the kernel and of the C library moves exactly the
  \<open>n\<close> bytes whenever the destination does not begin inside the source: also for
  overlapping regions with the destination below, although it loads four bytes at a time.
\<close>
theorem memcpy_correct:
  assumes "dest \<le> src \<or> src + n \<le> dest"
  shows "memcpy dest src n m = copied n dest src m"
proof -
  let ?w = "4 * (n div 4)" and ?r = "n mod 4"
  have n: "?w + ?r = n" by simp
  have "memcpy dest src n m = copy_bytes ?r (dest + ?w) (src + ?w) (copied ?w dest src m)"
  proof -
    have "copy_words (n div 4) dest src m = copied ?w dest src m"
      by (rule copy_words_copied) (use assms n in linarith)
    then show ?thesis by (simp add: memcpy_def Let_def)
  qed
  also have "\<dots> = copied ?r (dest + ?w) (src + ?w) (copied ?w dest src m)"
    by (rule copy_bytes_copied) (use assms n in linarith)
  also have "\<dots> = copied (?w + ?r) dest src m"
    by (rule copied_add) (use assms n in linarith)
  finally show ?thesis by (simp only: n)
qed

theorem memcpy_correct_witness:
  "memcpy 10 12 7 (\<lambda>a. of_nat a) 13 = (15 :: u8)"
  by (subst memcpy_correct) (simp_all add: copied_def)

text \<open>
  \<open>memmove\<close> moves the \<open>n\<close> bytes for any overlap of the two regions, and on regions
  where \<open>memcpy\<close> is also right the two agree.
\<close>
theorem memmove_correct: "memmove dest src n m = copied n dest src m"
  by (simp add: memmove_def copy_bytes_copied copy_down_copied)

theorem memset_correct:
  "memset dest b n m = filled n dest b m \<and> libc_memset dest b n m = filled n dest b m"
proof -
  have "filled (n mod 4) (dest + 4 * (n div 4)) b (filled (4 * (n div 4)) dest b m) a
      = filled n dest b m a" for a
  proof -
    have "n mod 4 + 4 * (n div 4) = n" by simp
    then show ?thesis unfolding filled_def by auto
  qed
  then show ?thesis
    by (auto simp: memset_def libc_memset_def Let_def fill_words_filled fill_bytes_filled)
qed

text \<open>
  \<open>strcmp\<close> is the lexicographic order of the strings, read as unsigned bytes: on two
  terminated strings it returns, and the sign of its result says which is smaller.
\<close>
theorem strcmp_order:
  assumes "holds a s" and "holds b t"
  shows "\<exists>r. strcmp a b = Some r \<and> (r = 0 \<longleftrightarrow> s = t) \<and> (r < 0 \<longleftrightarrow> ord_class.lexordp s t)"
  using assms by (rule strcmp_holds)

theorem strcmp_order_witness:
  "\<exists>r. strcmp [104, 105, 0] [104, 200, 0 :: u8] = Some r \<and> r < 0"
proof -
  have "holds [104, 105, 0] [104, 105]" and "holds [104, 200, 0] [104, 200]"
    by (simp_all add: holds_def)
  from strcmp_order [OF this] show ?thesis by auto
qed

text \<open>
  The two \<open>strncpy\<close> differ: the kernel's writes exactly \<open>n\<close> bytes, the string and its
  padding; the C library's, on a string shorter than \<open>n\<close>, writes those \<open>n\<close> bytes and one
  NUL more, past the \<open>n\<close> bytes of the buffer it was given.
\<close>
theorem strncpy_overrun:
  assumes "holds src s" and "length s < n"
  shows "\<exists>d. strncpy n src = Some d \<and> d = s @ replicate (n - length s) 0 \<and> length d = n \<and>
     libc_strncpy n src = Some (d @ [0])"
  using assms
  by (simp add: strncpy_holds libc_strncpy_def libc_strncpy_copy_holds replicate_append_same)

theorem strncpy_overrun_witness: "libc_strncpy 4 [104, 105, 0 :: u8] = Some [104, 105, 0, 0, 0]"
proof -
  have "holds [104, 105, 0] [104, 105]" by (simp add: holds_def)
  from strncpy_overrun [OF this, of 4] show ?thesis by (simp add: numeral_2_eq_2)
qed

end
