(* ===== verification/Printf.thy ===== *)
theory Printf
  imports Prelude
begin

text \<open>
  Formatted output: \<open>print\<close>, \<open>printi\<close>, \<open>prints\<close> and the serial log of the kernel
  (\<open>kernel/printk.c\<close>), and the C library's \<open>vsnprintf\<close> family
  (\<open>userland/libc/stdio.c\<close>). A string is the list of its characters before the NUL;
  stepping over the NUL of the format is \<open>BadAccess\<close>. The variable arguments are a list;
  asking for one that was not passed, or for a pointer where an integer was passed, is
  \<open>BadAccess\<close> too. The proofs relate both printers to one function \<open>render\<close>.
\<close>

section \<open>Arguments and conversion specifications\<close>

datatype arg = AInt u32 | AStr "string option"

type_synonym pad = "bool \<times> bool"  \<comment> \<open>\<open>PAD_RIGHT\<close>, \<open>PAD_ZERO\<close>\<close>

definition is_digit :: "char \<Rightarrow> bool" where
  "is_digit c = (48 \<le> (of_char c :: nat) \<and> (of_char c :: nat) \<le> 57)"

definition digit_val :: "char \<Rightarrow> nat" where
  "digit_val c = of_char c - 48"

fun skip_minus :: "string \<Rightarrow> bool \<times> string" where
  "skip_minus [] = (False, [])"
| "skip_minus (c # f) = (if c = CHR ''-'' then (True, f) else (False, c # f))"

fun skip_zeros :: "bool \<Rightarrow> string \<Rightarrow> bool \<times> string" where
  "skip_zeros z [] = (z, [])"
| "skip_zeros z (c # f) = (if c = CHR ''0'' then skip_zeros True f else (z, c # f))"

fun scan_width :: "nat \<Rightarrow> string \<Rightarrow> nat \<times> string" where
  "scan_width w [] = (w, [])"
| "scan_width w (c # f) =
     (if is_digit c
      then scan_width (if w * 10 + digit_val c > 256 then 256 else w * 10 + digit_val c) f
      else (w, c # f))"

fun skip_l :: "string \<Rightarrow> string" where
  "skip_l [] = []"
| "skip_l (c # f) = (if c = CHR ''l'' then f else c # f)"

text \<open>The text between the percent sign and the conversion character.\<close>

definition parse_spec :: "string \<Rightarrow> pad \<times> nat \<times> string" where
  "parse_spec f =
     (let (right, f) = skip_minus f; (zero, f) = skip_zeros False f; (w, f) = scan_width 0 f
      in ((right, zero), w, skip_l f))"

lemma skip_minus_le: "length (snd (skip_minus f)) \<le> length f"
  by (cases f) auto

lemma skip_zeros_le: "length (snd (skip_zeros z f)) \<le> length f"
  by (induction z f rule: skip_zeros.induct) auto

lemma scan_width_le: "length (snd (scan_width w f)) \<le> length f"
  by (induction w f rule: scan_width.induct) auto

lemma skip_l_le: "length (skip_l f) \<le> length f"
  by (cases f) auto

lemma parse_spec_le: "parse_spec f = (p, w, g) \<Longrightarrow> length g \<le> length f"
  using skip_minus_le [of f] skip_zeros_le [of False "snd (skip_minus f)"]
    scan_width_le [of 0 "snd (skip_zeros False (snd (skip_minus f)))"]
    skip_l_le [of "snd (scan_width 0 (snd (skip_zeros False (snd (skip_minus f)))))"]
  by (auto simp: parse_spec_def split_beta)

lemma scan_width_256: "w \<le> 256 \<Longrightarrow> fst (scan_width w f) \<le> 256"
  by (induction w f rule: scan_width.induct) auto

section \<open>Digits\<close>

definition PRINT_BUF_LEN :: nat where "PRINT_BUF_LEN = 12"

definition digit_char :: "nat \<Rightarrow> nat \<Rightarrow> char" where
  "digit_char letbase t = char_of (if t \<ge> 10 then letbase + t - 10 else 48 + t)"

text \<open>
  \<open>while (u) { *--s = digit; u /= b; }\<close> on the buffer of \<open>PRINT_BUF_LEN\<close> bytes whose last
  byte is the NUL; \<open>s\<close> is the text built so far.
\<close>

function digits :: "nat \<Rightarrow> nat \<Rightarrow> nat \<Rightarrow> string \<Rightarrow> fault + string" where
  "digits letbase b u s =
     (if u = 0 then Inr s
      else if length s < PRINT_BUF_LEN - 1
        then digits letbase b (u div b) (digit_char letbase (u mod b) # s)
        else Inl BadAccess)"
  by pat_completeness auto
termination by (relation "measure (\<lambda>(l, b, u, s). PRINT_BUF_LEN - length s)")
    (auto simp: PRINT_BUF_LEN_def)

declare digits.simps [simp del]

text \<open>The sign: stored in front of the digits, if the buffer has room.\<close>

definition push_sign :: "string \<Rightarrow> fault + string" where
  "push_sign s = (if length s < PRINT_BUF_LEN - 1 then Inr (CHR ''-'' # s) else Inl BadAccess)"

section \<open>The kernel's printer\<close>

text \<open>
  The target of \<open>printchar\<close>: a string under construction, or the console (the
  framebuffer, or the VGA text screen before it is ready) together with the serial port.
\<close>

record kout =
  k_str :: "string option"
  k_console :: string
  k_serial :: string

definition printchar :: "char \<Rightarrow> kout \<Rightarrow> kout" where
  "printchar c o1 =
     (case k_str o1 of
        Some s \<Rightarrow> o1\<lparr>k_str := Some (s @ [c])\<rparr>
      | None \<Rightarrow> o1\<lparr>k_console := k_console o1 @ [c], k_serial := k_serial o1 @ [c]\<rparr>)"

fun printchars :: "string \<Rightarrow> kout \<Rightarrow> kout \<times> nat" where
  "printchars [] o1 = (o1, 0)"
| "printchars (c # s) o1 = (case printchars s (printchar c o1) of (o2, n) \<Rightarrow> (o2, Suc n))"

definition prints :: "string \<Rightarrow> nat \<Rightarrow> pad \<Rightarrow> kout \<Rightarrow> kout \<times> nat" where
  "prints s width p o1 =
     (let w = (if width > 0 then if length s \<ge> width then 0 else width - length s else width);
          padchar = (if width > 0 \<and> snd p then CHR ''0'' else CHR '' '');
          (o1, n1) = (if \<not> fst p then printchars (replicate w padchar) o1 else (o1, 0));
          w = (if \<not> fst p then 0 else w);
          (o1, n2) = printchars s o1;
          (o1, n3) = printchars (replicate w padchar) o1
      in (o1, n1 + n2 + n3))"

definition printi :: "u32 \<Rightarrow> nat \<Rightarrow> bool \<Rightarrow> nat \<Rightarrow> pad \<Rightarrow> nat \<Rightarrow> kout \<Rightarrow> fault + kout \<times> nat" where
  "printi i b sg width p letbase o1 =
     (if i = 0 then Inr (prints ''0'' width p o1)
      else
        let neg = (sg \<and> b = 10 \<and> sint i < 0);
            u = (if neg then - i else i)
        in bindE (digits letbase b (unat u) []) (\<lambda>s.
           if neg then
             if width \<noteq> 0 \<and> snd p then
               (let (o1, n) = prints s (width - 1) p (printchar (CHR ''-'') o1) in Inr (o1, 1 + n))
             else bindE (push_sign s) (\<lambda>s. Inr (prints s width p o1))
           else Inr (prints s width p o1)))"

fun str_arg :: "arg list \<Rightarrow> fault + string \<times> arg list" where
  "str_arg (AStr s # args) = Inr (case s of None \<Rightarrow> ''(null)'' | Some s \<Rightarrow> s, args)"
| "str_arg _ = Inl BadAccess"

fun int_arg :: "arg list \<Rightarrow> fault + u32 \<times> arg list" where
  "int_arg (AInt i # args) = Inr (i, args)"
| "int_arg _ = Inl BadAccess"

text \<open>\<open>scr\<close>: the string of one character, empty for the NUL.\<close>

definition scr :: "u32 \<Rightarrow> string" where
  "scr i = (let c = unat i mod 256 in if c = 0 then '''' else [char_of c])"

text \<open>One conversion: the target, the arguments left and the characters counted.\<close>

definition kconv :: "char \<Rightarrow> nat \<Rightarrow> pad \<Rightarrow> arg list \<Rightarrow> kout \<Rightarrow> fault + (kout \<times> nat) \<times> arg list" where
  "kconv c width p args o1 =
     (let num = (\<lambda>b sg lb. bindE (int_arg args) (\<lambda>(i, args).
                   bindE (printi i b sg width p lb o1) (\<lambda>r. Inr (r, args))))
      in if c = CHR ''s'' then bindE (str_arg args) (\<lambda>(s, args). Inr (prints s width p o1, args))
      else if c = CHR ''d'' then num 10 True 97
      else if c = CHR ''x'' then num 16 False 97
      else if c = CHR ''X'' then num 16 False 65
      else if c = CHR ''u'' then num 10 False 97
      else if c = CHR ''c'' then
        bindE (int_arg args) (\<lambda>(i, args). Inr (prints (scr i) width p o1, args))
      else Inr ((o1, 0), args))"

function kprint_loop :: "string \<Rightarrow> arg list \<Rightarrow> kout \<Rightarrow> nat \<Rightarrow> fault + kout \<times> nat" where
  "kprint_loop [] args o1 pc = Inr (o1, pc)"
| "kprint_loop (c # f) args o1 pc =
     (if c \<noteq> CHR ''%'' then kprint_loop f args (printchar c o1) (pc + 1)
      else case f of
        [] \<Rightarrow> Inr (o1, pc)
      | d # f' \<Rightarrow>
          if d = CHR ''%'' then kprint_loop f' args (printchar d o1) (pc + 1)
          else case parse_spec f of (p, width, g) \<Rightarrow>
            (case g of
               [] \<Rightarrow> Inl BadAccess
             | v # g' \<Rightarrow> (case kconv v width p args o1 of
                 Inl e \<Rightarrow> Inl e
               | Inr ((o1, n), args) \<Rightarrow> kprint_loop g' args o1 (pc + n))))"
  by pat_completeness auto
termination
  by (relation "measure (\<lambda>(f, args, o1, pc). length f)")
    (auto dest!: parse_spec_le [OF sym])


text \<open>\<open>**out = '\0'\<close> at the end leaves the string as it is.\<close>

definition sprintf_k :: "string \<Rightarrow> arg list \<Rightarrow> fault + string \<times> nat" where
  "sprintf_k format args =
     bindE (kprint_loop format args \<lparr>k_str = Some [], k_console = [], k_serial = []\<rparr> 0)
       (\<lambda>(o1, pc). Inr (the (k_str o1), pc))"

definition printk :: "string \<Rightarrow> arg list \<Rightarrow> kout \<Rightarrow> fault + kout \<times> nat" where
  "printk format args o1 = kprint_loop format args (o1\<lparr>k_str := None\<rparr>) 0"

section \<open>The kernel's serial log\<close>

record serial_log =
  at_line_start :: bool
  in_use :: bool
  serial :: string

fun sec_digits :: "nat \<Rightarrow> string" where
  "sec_digits v = (if v = 0 then [] else char_of (48 + v mod 10) # sec_digits (v div 10))"

declare sec_digits.simps [simp del]

definition stamp :: "nat \<Rightarrow> string" where
  "stamp ms =
     (let secs = ms div 1000; frac = ms mod 1000 in
      CHR ''['' # (if secs = 0 then ''0'' else rev (sec_digits secs)) @ CHR ''.'' #
      [char_of (48 + frac div 100), char_of (48 + frac div 10 mod 10), char_of (48 + frac mod 10)]
      @ ''] '')"

fun emit :: "nat \<Rightarrow> string \<Rightarrow> serial_log \<Rightarrow> serial_log" where
  "emit ms [] l = l"
| "emit ms (c # s) l =
     (let l = (if at_line_start l then l\<lparr>serial := serial l @ stamp ms, at_line_start := False\<rparr>
               else l);
          l = l\<lparr>serial := serial l @ [c]\<rparr>
      in emit ms s (if of_char c = (10 :: nat) then l\<lparr>at_line_start := True\<rparr> else l))"

text \<open>The static buffer has 512 bytes, the one of a re-entrant call 128.\<close>

definition printk_serial :: "nat \<Rightarrow> string \<Rightarrow> arg list \<Rightarrow> serial_log \<Rightarrow> fault + serial_log \<times> nat" where
  "printk_serial ms format args l =
     bindE (sprintf_k format args) (\<lambda>(s, n).
       if in_use l then
         if length s \<ge> 128 then Inl BadAccess else Inr (l\<lparr>serial := serial l @ s\<rparr>, 0)
       else
         if length s \<ge> 512 then Inl BadAccess
         else Inr ((emit ms s (l\<lparr>in_use := True\<rparr>))\<lparr>in_use := False\<rparr>, n))"

section \<open>The C library's printer\<close>

text \<open>\<open>_out_t\<close>, with the memory behind \<open>buf\<close> and what was written to standard output.\<close>

record out_t =
  o_buf :: "(nat \<Rightarrow> char) option"
  o_pos :: u32
  o_size :: u32
  o_stdout :: string

definition outc :: "char \<Rightarrow> out_t \<Rightarrow> out_t" where
  "outc c o1 =
     (case o_buf o1 of
        Some m \<Rightarrow>
          (let o1 = (if o_size o1 = 0 \<or> o_pos o1 < o_size o1 - 1
                     then o1\<lparr>o_buf := Some (m(unat (o_pos o1) := c))\<rparr> else o1)
           in o1\<lparr>o_pos := o_pos o1 + 1\<rparr>)
      | None \<Rightarrow> o1\<lparr>o_stdout := o_stdout o1 @ [c]\<rparr>)"

fun outcs :: "string \<Rightarrow> out_t \<Rightarrow> out_t \<times> nat" where
  "outcs [] o1 = (o1, 0)"
| "outcs (c # s) o1 = (case outcs s (outc c o1) of (o2, n) \<Rightarrow> (o2, Suc n))"

definition puts_padded :: "string \<Rightarrow> nat \<Rightarrow> pad \<Rightarrow> out_t \<Rightarrow> out_t \<times> nat" where
  "puts_padded s width p o1 =
     (let len = length s; padchar = (if snd p then CHR ''0'' else CHR '' '') in
      if width > len then
        let npad = width - len;
            (o1, n1) = (if \<not> fst p then outcs (replicate npad padchar) o1 else (o1, 0));
            (o1, n2) = outcs s o1;
            (o1, n3) = (if fst p then outcs (replicate npad (CHR '' '')) o1 else (o1, 0))
        in (o1, n1 + n2 + n3)
      else outcs s o1)"

definition printi_u :: "u32 \<Rightarrow> nat \<Rightarrow> bool \<Rightarrow> nat \<Rightarrow> pad \<Rightarrow> nat \<Rightarrow> out_t \<Rightarrow> fault + out_t \<times> nat" where
  "printi_u i base sign width p letbase o1 =
     (if i = 0 then Inr (puts_padded ''0'' width p o1)
      else
        let neg = (sign \<and> base = 10 \<and> sint i < 0);
            u = (if neg then - i else i)
        in bindE (digits letbase base (unat u) []) (\<lambda>s.
           if neg then
             if width \<noteq> 0 \<and> snd p then Inr (puts_padded s (width - 1) p (outc (CHR ''-'') o1))
             else bindE (push_sign s) (\<lambda>s. Inr (puts_padded s width p o1))
           else Inr (puts_padded s width p o1)))"

definition uconv :: "char \<Rightarrow> nat \<Rightarrow> pad \<Rightarrow> arg list \<Rightarrow> out_t \<Rightarrow> fault + (out_t \<times> nat) \<times> arg list" where
  "uconv c width p args o1 =
     (let num = (\<lambda>b sg lb. bindE (int_arg args) (\<lambda>(i, args).
                   bindE (printi_u i b sg width p lb o1) (\<lambda>r. Inr (r, args))))
      in if c = CHR ''s'' then
        bindE (str_arg args) (\<lambda>(s, args). Inr (puts_padded s width p o1, args))
      else if c = CHR ''d'' then num 10 True 97
      else if c = CHR ''u'' then num 10 False 97
      else if c = CHR ''x'' then num 16 False 97
      else if c = CHR ''X'' then num 16 False 65
      else if c = CHR ''o'' then num 8 False 97
      else if c = CHR ''c'' then
        bindE (int_arg args) (\<lambda>(i, args). Inr (puts_padded (scr i) width p o1, args))
      else Inr ((outc c (outc (CHR ''%'') o1), 2), args))"

function core_loop :: "string \<Rightarrow> arg list \<Rightarrow> out_t \<Rightarrow> nat \<Rightarrow> fault + out_t \<times> nat" where
  "core_loop [] args o1 pc = Inr (o1, pc)"
| "core_loop (c # f) args o1 pc =
     (if c \<noteq> CHR ''%'' then core_loop f args (outc c o1) (pc + 1)
      else case f of
        [] \<Rightarrow> Inr (o1, pc)
      | d # f' \<Rightarrow>
          if d = CHR ''%'' then core_loop f' args (outc (CHR ''%'') o1) (pc + 1)
          else case parse_spec f of (p, width, g) \<Rightarrow>
            (case g of
               [] \<Rightarrow> Inl BadAccess
             | v # g' \<Rightarrow> (case uconv v width p args o1 of
                 Inl e \<Rightarrow> Inl e
               | Inr ((o1, n), args) \<Rightarrow> core_loop g' args o1 (pc + n))))"
  by pat_completeness auto
termination
  by (relation "measure (\<lambda>(f, args, o1, pc). length f)")
    (auto dest!: parse_spec_le [OF sym])

definition terminate_out :: "out_t \<Rightarrow> out_t" where
  "terminate_out o1 =
     (case o_buf o1 of
        Some m \<Rightarrow>
          (if o_size o1 > 0
           then o1\<lparr>o_buf := Some (m(unat (if o_pos o1 < o_size o1 then o_pos o1 else o_size o1 - 1) := CHR 0x00))\<rparr>
           else o1)
      | None \<Rightarrow> o1)"

definition vsnprintf_core :: "string \<Rightarrow> arg list \<Rightarrow> out_t \<Rightarrow> fault + out_t \<times> nat" where
  "vsnprintf_core fmt args o1 = bindE (core_loop fmt args o1 0) (\<lambda>(o1, pc). Inr (terminate_out o1, pc))"

definition vsnprintf :: "(nat \<Rightarrow> char) \<Rightarrow> u32 \<Rightarrow> string \<Rightarrow> arg list \<Rightarrow> fault + (nat \<Rightarrow> char) \<times> nat" where
  "vsnprintf buf size1 fmt args =
     bindE (vsnprintf_core fmt args \<lparr>o_buf = Some buf, o_pos = 0, o_size = size1, o_stdout = []\<rparr>)
       (\<lambda>(o1, r). Inr (the (o_buf o1), r))"

definition sprintf_u :: "(nat \<Rightarrow> char) \<Rightarrow> string \<Rightarrow> arg list \<Rightarrow> fault + (nat \<Rightarrow> char) \<times> nat" where
  "sprintf_u buf fmt args =
     bindE (vsnprintf_core fmt args \<lparr>o_buf = Some buf, o_pos = 0, o_size = 0, o_stdout = []\<rparr>)
       (\<lambda>(o1, r). Inr ((the (o_buf o1))(unat (o_pos o1) := CHR 0x00), r))"

text \<open>
  \<open>printf\<close>: the result of \<open>vsnprintf\<close> is the number of bytes passed to \<open>SYS_WRITE\<close>;
  \<open>stack\<close> is what the buffer of 1024 bytes held before.
\<close>

definition printf_bytes :: "(nat \<Rightarrow> char) \<Rightarrow> string \<Rightarrow> arg list \<Rightarrow> fault + string \<times> nat" where
  "printf_bytes stack fmt args =
     bindE (vsnprintf stack 1024 fmt args) (\<lambda>(buf, r).
       if r > 1024 then Inl BadAccess else Inr (map buf [0..<r], r))"

section \<open>The text a format stands for\<close>

text \<open>The digits of a number, as a mathematician writes them.\<close>

function numeral_str :: "nat \<Rightarrow> nat \<Rightarrow> nat \<Rightarrow> string" where
  "numeral_str lb b u =
     (if u < b \<or> b < 2 then [digit_char lb u]
      else numeral_str lb b (u div b) @ [digit_char lb (u mod b)])"
  by pat_completeness auto
termination by (relation "measure (\<lambda>(lb, b, u). u)") auto

declare numeral_str.simps [simp del]

text \<open>
  Padding to a field width; \<open>lib\<close> tells the C library, which pads on the right with
  blanks only, from the kernel, whose zero flag holds on that side too.
\<close>

definition pad_text :: "bool \<Rightarrow> string \<Rightarrow> nat \<Rightarrow> pad \<Rightarrow> string" where
  "pad_text lib s w p =
     (let blank = replicate (w - length s) (CHR '' ''); zeros = replicate (w - length s) (CHR ''0'')
      in if fst p then s @ (if snd p \<and> \<not> lib then zeros else blank)
         else (if snd p then zeros else blank) @ s)"

text \<open>A number with its sign, and the characters the C library does not count.\<close>

definition num_text :: "bool \<Rightarrow> u32 \<Rightarrow> nat \<Rightarrow> bool \<Rightarrow> nat \<Rightarrow> pad \<Rightarrow> nat \<Rightarrow> string \<times> nat" where
  "num_text lib i b sg w p lb =
     (let neg = (sg \<and> b = 10 \<and> sint i < 0);
          s = numeral_str lb b (unat (if neg then - i else i))
      in if neg \<and> w \<noteq> 0 \<and> snd p
         then (CHR ''-'' # pad_text lib s (w - 1) p, if lib then 1 else 0)
         else (pad_text lib ((if neg then ''-'' else []) @ s) w p, 0))"

definition conv_text :: "bool \<Rightarrow> char \<Rightarrow> nat \<Rightarrow> pad \<Rightarrow> arg list \<Rightarrow> fault + (string \<times> nat) \<times> arg list" where
  "conv_text lib c w p args =
     (let num = (\<lambda>b sg lb. bindE (int_arg args) (\<lambda>(i, args). Inr (num_text lib i b sg w p lb, args)))
      in if c = CHR ''s'' then
        bindE (str_arg args) (\<lambda>(s, args). Inr ((pad_text lib s w p, 0), args))
      else if c = CHR ''d'' then num 10 True 97
      else if c = CHR ''x'' then num 16 False 97
      else if c = CHR ''X'' then num 16 False 65
      else if c = CHR ''u'' then num 10 False 97
      else if lib \<and> c = CHR ''o'' then num 8 False 97
      else if c = CHR ''c'' then
        bindE (int_arg args) (\<lambda>(i, args). Inr ((pad_text lib (scr i) w p, 0), args))
      else Inr ((if lib then [CHR ''%'', c] else [], 0), args))"

function render :: "bool \<Rightarrow> string \<Rightarrow> arg list \<Rightarrow> fault + string \<times> nat" where
  "render lib [] args = Inr ([], 0)"
| "render lib (c # f) args =
     (if c \<noteq> CHR ''%'' then bindE (render lib f args) (\<lambda>(t, k). Inr (c # t, k))
      else case f of
        [] \<Rightarrow> Inr ([], 0)
      | d # f' \<Rightarrow>
          if d = CHR ''%'' then bindE (render lib f' args) (\<lambda>(t, k). Inr (d # t, k))
          else case parse_spec f of (p, width, g) \<Rightarrow>
            (case g of
               [] \<Rightarrow> Inl BadAccess
             | v # g' \<Rightarrow> (case conv_text lib v width p args of
                 Inl e \<Rightarrow> Inl e
               | Inr ((s, j), args) \<Rightarrow> bindE (render lib g' args) (\<lambda>(t, k). Inr (s @ t, j + k)))))"
  by pat_completeness auto
termination
  by (relation "measure (\<lambda>(lib, f, args). length f)")
    (auto dest!: parse_spec_le [OF sym])

section \<open>Lemmas: digits\<close>

lemma numeral_str_nonempty: "numeral_str lb b u \<noteq> []"
  by (subst numeral_str.simps) simp

lemma numeral_str_length: "2 \<le> b \<Longrightarrow> u < b ^ Suc k \<Longrightarrow> length (numeral_str lb b u) \<le> Suc k"
proof (induction k arbitrary: u)
  case 0
  then show ?case by (subst numeral_str.simps) simp
next
  case (Suc k)
  from Suc.prems have "u div b < b ^ Suc k"
    by (simp add: less_mult_imp_div_less mult.commute)
  from Suc.IH [OF Suc.prems(1) this] show ?case by (subst numeral_str.simps) simp
qed

lemma digits_numeral:
  "0 < u \<Longrightarrow> 2 \<le> b \<Longrightarrow> length (numeral_str lb b u) + length s < PRINT_BUF_LEN \<Longrightarrow>
     digits lb b u s = Inr (numeral_str lb b u @ s)"
proof (induction u arbitrary: s rule: less_induct)
  case (less u)
  show ?case
  proof (cases "u < b")
    case True
    with less.prems show ?thesis
      by (simp add: digits.simps [of lb b u] digits.simps [of lb b 0] numeral_str.simps [of lb b u])
  next
    case False
    with less.prems have n: "numeral_str lb b u = numeral_str lb b (u div b) @ [digit_char lb (u mod b)]"
      by (simp add: numeral_str.simps [of lb b u])
    have "0 < u div b" using False less.prems by (simp add: div_greater_zero_iff)
    moreover have "u div b < u" using less.prems by simp
    ultimately have "digits lb b (u div b) (digit_char lb (u mod b) # s)
        = Inr (numeral_str lb b (u div b) @ digit_char lb (u mod b) # s)"
      using less.prems n by (intro less.IH) auto
    moreover have "length s < PRINT_BUF_LEN - 1" using less.prems(3) n by simp
    ultimately show ?thesis using less.prems(1) n by (simp add: digits.simps [of lb b u])
  qed
qed

text \<open>The buffer is long enough for every conversion, sign and NUL included.\<close>

lemma digits_word:
  "i \<noteq> (0 :: u32) \<Longrightarrow> b \<in> {8, 10, 16} \<Longrightarrow>
     digits lb b (unat i) [] = Inr (numeral_str lb b (unat i)) \<and>
     length (numeral_str lb b (unat i)) \<le> 11 \<and>
     (b = 10 \<longrightarrow> length (numeral_str lb b (unat i)) \<le> 10)"
proof -
  assume i: "i \<noteq> 0" and b: "b \<in> {8, 10, 16}"
  have u: "unat i < 2 ^ 32" using unsigned_less [of i] by simp
  from b have "b = 8 \<or> b = 10 \<or> b = 16" by simp
  then have l: "length (numeral_str lb b (unat i)) \<le> 11 \<and>
      (b = 10 \<longrightarrow> length (numeral_str lb b (unat i)) \<le> 10)"
  proof (elim disjE)
    assume "b = 8" then show ?thesis using numeral_str_length [of 8 "unat i" 10 lb] u by simp
  next
    assume "b = 10" then show ?thesis using numeral_str_length [of 10 "unat i" 9 lb] u by simp
  next
    assume "b = 16" then show ?thesis using numeral_str_length [of 16 "unat i" 7 lb] u by simp
  qed
  moreover have "digits lb b (unat i) [] = Inr (numeral_str lb b (unat i) @ [])"
    by (rule digits_numeral) (use i b l in \<open>auto simp: PRINT_BUF_LEN_def unat_gt_0\<close>)
  ultimately show ?thesis by simp
qed

lemma char_48: "char_of (48 :: nat) = CHR ''0''"
  by code_simp

lemma digit_char_simps [simp]:
  "digit_char lb 0 = CHR ''0''" "digit_char lb (Suc 0) = CHR ''1''" "digit_char lb 2 = CHR ''2''"
  "digit_char lb 3 = CHR ''3''" "digit_char lb 4 = CHR ''4''" "digit_char lb 5 = CHR ''5''"
  "digit_char lb 6 = CHR ''6''" "digit_char lb 7 = CHR ''7''" "digit_char lb 8 = CHR ''8''"
  "digit_char lb 9 = CHR ''9''"
  by (simp_all add: digit_char_def, code_simp+)

lemma numeral_str_0: "b \<in> {8, 10, 16} \<Longrightarrow> numeral_str lb b 0 = ''0''"
  by (auto simp: numeral_str.simps [of lb b 0] digit_char_def char_48)

section \<open>Lemmas: the kernel's printer\<close>

lemma printchars_append:
  "printchars (s @ t) o1 =
     (case printchars s o1 of (o1, n) \<Rightarrow> case printchars t o1 of (o1, m) \<Rightarrow> (o1, n + m))"
  by (induction s arbitrary: o1) (auto simp: split_beta)

lemma printchars_length: "snd (printchars s o1) = length s"
  by (induction s arbitrary: o1) (auto simp: split_beta)

lemma printchars_str:
  "k_str o1 = Some s0 \<Longrightarrow> fst (printchars s o1) = o1\<lparr>k_str := Some (s0 @ s)\<rparr>"
  by (induction s arbitrary: o1 s0) (auto simp: split_beta printchar_def)

definition kput :: "string \<Rightarrow> kout \<Rightarrow> kout" where "kput s o1 = fst (printchars s o1)"

lemma printchars_kput: "printchars s o1 = (kput s o1, length s)"
  by (simp add: kput_def printchars_length prod_eq_iff)

lemma kput_append [simp]: "kput (s @ t) o1 = kput t (kput s o1)"
  by (simp add: kput_def printchars_append split_beta)

lemma kput_Cons [simp]: "kput (c # s) o1 = kput s (printchar c o1)"
  by (simp add: kput_def split_beta)

lemma kput_Nil [simp]: "kput [] o1 = o1"
  by (simp add: kput_def)

lemma prints_text: "prints s w p o1 = (kput (pad_text False s w p) o1, length (pad_text False s w p))"
  by (simp add: prints_def pad_text_def Let_def printchars_kput split_beta)

lemma printi_text:
  assumes "b \<in> {8, 10, 16}"
  shows "printi i b sg w p lb o1 =
    (case num_text False i b sg w p lb of (t, k) \<Rightarrow> Inr (kput t o1, length t))"
proof (cases "i = 0")
  case True
  then show ?thesis using assms
    by (auto simp: printi_def num_text_def Let_def prints_text numeral_str_0)
next
  case False
  then have "- i \<noteq> 0" by simp
  with False show ?thesis using digits_word [OF False assms, of lb] digits_word [OF \<open>- i \<noteq> 0\<close> assms, of lb]
    by (auto simp: printi_def num_text_def Let_def prints_text push_sign_def PRINT_BUF_LEN_def)
qed

lemma kconv_text:
  "kconv c w p args o1 =
     bindE (conv_text False c w p args) (\<lambda>((t, k), args). Inr ((kput t o1, length t), args))"
  by (auto simp: kconv_def conv_text_def Let_def prints_text printi_text bindE_assoc case_prod_unfold
      intro!: arg_cong2 [where f = bindE])

lemma kprint_loop_render:
  "kprint_loop f args o1 pc =
     bindE (render False f args) (\<lambda>(t, k). Inr (kput t o1, pc + length t))"
proof (induction f arbitrary: args o1 pc rule: length_induct)
  case (1 f)
  show ?case
  proof (cases f)
    case (Cons c f')
    note IH = 1 [rule_format]
    show ?thesis
    proof (cases "c = CHR ''%''")
      case False
      with IH [of f'] Cons show ?thesis by (simp add: bindE_assoc case_prod_unfold)
    next
      case c: True
      show ?thesis
      proof (cases f')
        case Nil
        with Cons c show ?thesis by simp
      next
        case f': (Cons d f'')
        show ?thesis
        proof (cases "d = CHR ''%''")
          case True
          with IH [of f''] Cons c f' show ?thesis by (simp add: bindE_assoc case_prod_unfold)
        next
          case d: False
          obtain p w g where ps: "parse_spec f' = (p, w, g)" by (metis prod_cases3)
          with parse_spec_le have "length g \<le> length f'" by blast
          with IH Cons have *: "\<And>v g' args o1 pc. g = v # g' \<Longrightarrow> kprint_loop g' args o1 pc =
              bindE (render False g' args) (\<lambda>(t, k). Inr (kput t o1, pc + length t))" by simp
          show ?thesis using Cons c f' d ps
            by (auto simp: kconv_text * bindE_assoc case_prod_unfold algebra_simps split: list.splits sum.splits)
        qed
      qed
    qed
  qed simp
qed

section \<open>Lemmas: the C library's printer\<close>

lemma outcs_length: "snd (outcs s o1) = length s"
  by (induction s arbitrary: o1) (auto simp: split_beta)

definition uput :: "string \<Rightarrow> out_t \<Rightarrow> out_t" where "uput s o1 = fst (outcs s o1)"

lemma outcs_uput: "outcs s o1 = (uput s o1, length s)"
  by (simp add: uput_def outcs_length prod_eq_iff)

lemma uput_Cons [simp]: "uput (c # s) o1 = uput s (outc c o1)"
  by (simp add: uput_def split_beta)

lemma uput_Nil [simp]: "uput [] o1 = o1"
  by (simp add: uput_def)

lemma uput_append [simp]: "uput (s @ t) o1 = uput t (uput s o1)"
  by (induction s arbitrary: o1) auto

lemma puts_padded_text:
  "puts_padded s w p o1 = (uput (pad_text True s w p) o1, length (pad_text True s w p))"
  by (simp add: puts_padded_def pad_text_def Let_def outcs_uput split_beta)

lemma printi_u_text:
  assumes "b \<in> {8, 10, 16}"
  shows "printi_u i b sg w p lb o1 =
    (case num_text True i b sg w p lb of (t, k) \<Rightarrow> Inr (uput t o1, length t - k))"
proof (cases "i = 0")
  case True
  then show ?thesis using assms
    by (auto simp: printi_u_def num_text_def Let_def puts_padded_text numeral_str_0)
next
  case False
  then have "- i \<noteq> 0" by simp
  with False show ?thesis using digits_word [OF False assms, of lb] digits_word [OF \<open>- i \<noteq> 0\<close> assms, of lb]
    by (auto simp: printi_u_def num_text_def Let_def puts_padded_text push_sign_def PRINT_BUF_LEN_def)
qed

lemma uconv_text:
  "uconv c w p args o1 =
     bindE (conv_text True c w p args) (\<lambda>((t, k), args). Inr ((uput t o1, length t - k), args))"
  by (auto simp: uconv_def conv_text_def Let_def puts_padded_text printi_u_text bindE_assoc
      case_prod_unfold intro!: arg_cong2 [where f = bindE])

lemma conv_text_count:
  "conv_text lib c w p args = Inr ((t, k), args') \<Longrightarrow> k \<le> length t"
  by (auto simp: conv_text_def num_text_def Let_def split: if_splits elim!: bindE_InrE)

lemma render_count: "render lib f args = Inr (t, k) \<Longrightarrow> k \<le> length t"
proof (induction lib f args arbitrary: t k rule: render.induct)
  case (2 lib c f args)
  show ?case
  proof (cases f)
    case (Cons d f')
    with 2 show ?thesis
      by (fastforce split: if_splits list.splits sum.splits prod.splits elim!: bindE_InrE
          dest: conv_text_count intro: add_mono le_SucI)
  qed (use 2 in \<open>auto split: if_splits elim!: bindE_InrE\<close>)
qed simp

lemma core_loop_render:
  "core_loop f args o1 pc =
     bindE (render True f args) (\<lambda>(t, k). Inr (uput t o1, pc + (length t - k)))"
proof (induction f arbitrary: args o1 pc rule: length_induct)
  case (1 f)
  show ?case
  proof (cases f)
    case (Cons c f')
    note IH = 1 [rule_format]
    show ?thesis
    proof (cases "c = CHR ''%''")
      case False
      with IH [of f'] Cons show ?thesis
        by (cases "render True f' args")
          (auto simp: bindE_assoc case_prod_unfold Suc_diff_le dest!: render_count)
    next
      case c: True
      show ?thesis
      proof (cases f')
        case Nil
        with Cons c show ?thesis by simp
      next
        case f': (Cons d f'')
        show ?thesis
        proof (cases "d = CHR ''%''")
          case True
          with IH [of f''] Cons c f' show ?thesis
            by (cases "render True f'' args")
              (auto simp: bindE_assoc case_prod_unfold Suc_diff_le dest!: render_count)
        next
          case d: False
          obtain p w g where ps: "parse_spec f' = (p, w, g)" by (metis prod_cases3)
          with parse_spec_le have "length g \<le> length f'" by blast
          with IH Cons have *: "\<And>v g' args o1 pc. g = v # g' \<Longrightarrow> core_loop g' args o1 pc =
              bindE (render True g' args) (\<lambda>(t, k). Inr (uput t o1, pc + (length t - k)))" by simp
          show ?thesis
          proof (cases g)
            case Nil
            with Cons c f' d ps show ?thesis by simp
          next
            case g: (Cons v g')
            show ?thesis
            proof (cases "conv_text True v w p args")
              case (Inl e)
              with Cons c f' d ps g show ?thesis by (simp add: uconv_text)
            next
              case (Inr r)
              then obtain s k args' where r: "conv_text True v w p args = Inr ((s, k), args')"
                by (metis prod.exhaust)
              from conv_text_count [OF r] Cons c f' d ps g r * [OF g] show ?thesis
                by (cases "render True g' args'")
                  (auto simp: uconv_text bindE_assoc case_prod_unfold dest!: render_count)
            qed
          qed
        qed
      qed
    qed
  qed simp
qed

text \<open>What \<open>_outc\<close> leaves in a buffer of \<open>n\<close> bytes, starting at position 0.\<close>

definition buffered :: "nat \<Rightarrow> string \<Rightarrow> (nat \<Rightarrow> char) \<Rightarrow> nat \<Rightarrow> char" where
  "buffered n t m a = (if a < min (length t) (n - 1) then t ! a else m a)"

lemma uput_snoc: "uput (t @ [c]) o1 = outc c (uput t o1)"
  by simp

lemma outc_pos: "o_pos (outc c o1) = (case o_buf o1 of None \<Rightarrow> o_pos o1 | Some m \<Rightarrow> o_pos o1 + 1)"
  by (simp add: outc_def Let_def split: option.splits)

lemma uput_buffered:
  assumes "0 < sz" and "length t < 2 ^ 32"
  shows "uput t \<lparr>o_buf = Some m, o_pos = 0, o_size = sz, o_stdout = []\<rparr> =
    \<lparr>o_buf = Some (buffered (unat sz) t m), o_pos = of_nat (length t), o_size = sz, o_stdout = []\<rparr>"
  using assms(2)
proof (induction t rule: rev_induct)
  case Nil
  show ?case by (simp add: buffered_def [abs_def])
next
  case (snoc c t)
  then have l: "length t < 2 ^ 32" "unat (of_nat (length t) :: u32) = length t"
    by (simp_all add: unat_of_nat_small)
  have s1: "unat (sz - 1) = unat sz - 1"
    using assms(1) by (subst unat_minus_one) (auto simp: word_gt_0)
  have lt: "(of_nat (length t) < sz - 1) = (length t < unat sz - 1)"
    by (simp only: word_less_nat_alt l(2) s1)
  have "(if length t < unat sz - 1 then (buffered (unat sz) t m)(length t := c)
      else buffered (unat sz) t m) = buffered (unat sz) (t @ [c]) m"
    by (auto simp: buffered_def fun_eq_iff nth_append)
  then show ?case using snoc l lt assms(1)
    by (auto simp: outc_def Let_def word_gt_0)
qed

section \<open>Properties\<close>

text \<open>
  C21. \<open>vsnprintf\<close> with a non-zero size leaves in the buffer the rendered text cut to
  \<open>size - 1\<close> characters and its NUL, and touches no byte at or past \<open>size\<close>. Its result is
  the length of the whole text, less the minus signs of zero-padded negative numbers.
\<close>
theorem vsnprintf_correct:
  assumes "render True fmt args = Inr (t, k)" and "0 < sz" and "length t < 2 ^ 32"
  shows "vsnprintf buf sz fmt args =
    Inr (\<lambda>a. if a < min (length t) (unat sz - 1) then t ! a
             else if a = min (length t) (unat sz - 1) then CHR 0x00 else buf a, length t - k)"
proof -
  have l: "unat (of_nat (length t) :: u32) = length t" using assms(3) by (simp add: unat_of_nat_small)
  have s1: "unat (sz - 1) = unat sz - 1"
    using assms(2) by (subst unat_minus_one) (auto simp: word_gt_0)
  have "unat (if of_nat (length t) < sz then of_nat (length t) else sz - 1)
      = min (length t) (unat sz - 1)"
    using assms(2) by (auto simp: word_less_nat_alt l s1 min_def)
  then show ?thesis using assms(2)
    by (auto simp: vsnprintf_def vsnprintf_core_def core_loop_render assms(1)
        uput_buffered [OF assms(2,3)] terminate_out_def buffered_def fun_eq_iff)
qed

theorem vsnprintf_correct_witness:
  "inr_sat (vsnprintf (\<lambda>a. CHR ''.'') 4 ''%d'' [AInt 12345])
     (\<lambda>(b, r). map b [0..<5] = ''123'' @ [CHR 0x00, CHR ''.''] \<and> r = 5)"
proof -
  have "is_digit (CHR ''d'') = False" by code_simp
  then have "parse_spec ''d'' = ((False, False), 0, ''d'')" by (simp add: parse_spec_def)
  moreover have "numeral_str 97 10 12345 = ''12345''" by (simp add: numeral_str.simps)
  ultimately have r: "render True ''%d'' [AInt 12345] = Inr (''12345'', 0)"
    by (simp add: conv_text_def num_text_def pad_text_def)
  show ?thesis by (subst vsnprintf_correct [OF r]) (simp_all add: upt_rec)
qed

text \<open>
  The kernel's \<open>sprintf\<close> builds exactly the rendered text and returns its length: no
  conversion overruns the digit buffer, and it fails only where the format runs past its
  end or the arguments do not match.
\<close>
theorem sprintf_k_correct:
  "sprintf_k fmt args = bindE (render False fmt args) (\<lambda>(t, k). Inr (t, length t))"
  by (simp add: sprintf_k_def kprint_loop_render bindE_assoc case_prod_unfold kput_def printchars_str)

text \<open>
  The C library's \<open>printf\<close> formats into 1024 bytes but writes as many bytes as the
  whole text has: a text that counts more than 1024 characters makes it read past the
  buffer, and a shorter one is written as it is.
\<close>
theorem printf_overread:
  assumes "render True fmt args = Inr (t, k)" and "length t < 2 ^ 32"
  shows "(length t - k > 1024 \<longrightarrow> printf_bytes stack fmt args = Inl BadAccess) \<and>
    (length t < 1024 \<longrightarrow>
      printf_bytes stack fmt args = Inr (take (length t - k) t, length t - k))"
proof -
  let ?b = "\<lambda>a. if a < min (length t) (unat (1024 :: u32) - 1) then t ! a
             else if a = min (length t) (unat (1024 :: u32) - 1) then CHR 0x00 else stack a"
  have v: "vsnprintf stack 1024 fmt args = Inr (?b, length t - k)"
    by (rule vsnprintf_correct [OF assms(1) _ assms(2)]) simp
  have "map ?b [0..<length t - k] = take (length t - k) t" if "length t < 1024"
    by (rule nth_equalityI) (use that in auto)
  then show ?thesis
    unfolding printf_bytes_def v bindE_simps prod.case by (simp only: if_True if_False split: if_split) auto
qed

theorem printf_overread_witness:
  "printf_bytes (\<lambda>a. CHR ''.'') ''%256s%256s%256s%256s!'' (replicate 4 (AStr None)) = Inl BadAccess"
proof -
  have "inr_sat (render True ''%256s%256s%256s%256s!'' (replicate 4 (AStr None)))
     (\<lambda>(t, k). length t = 1025 \<and> k = 0)" by code_simp
  then obtain t k where r: "render True ''%256s%256s%256s%256s!'' (replicate 4 (AStr None)) = Inr (t, k)"
    and t: "length t = 1025" "k = 0"
    by (auto simp: inr_sat_def split: sum.splits)
  show ?thesis using printf_overread [OF r] t by simp
qed

end
