(* ===== verification/Stdlib.thy ===== *)
theory Stdlib
  imports Printf
begin

text \<open>
  The C library's number parsing and heap (\<open>userland/libc/stdlib.c\<close>), with the \<open>sbrk\<close>
  stub of \<open>userland/syscall.h\<close> and the break part of \<open>SYS_BRK\<close>
  (\<open>kernel/syscall.c\<close>). Block headers are kept in a map from addresses, apart from the
  payload bytes; the invariant shows that no two blocks overlap.
\<close>

section \<open>Parsing numbers\<close>

fun atou_loop :: "u32 \<Rightarrow> string \<Rightarrow> u32" where
  "atou_loop v [] = v"
| "atou_loop v (c # s) = (if is_digit c then atou_loop (v * 10 + of_nat (digit_val c)) s else v)"

definition atou :: "string \<Rightarrow> u32" where
  "atou s = atou_loop 0 s"

text \<open>The additions and multiplications of \<open>atoi\<close> are taken to wrap at 32 bits.\<close>

definition atoi :: "string \<Rightarrow> u32" where
  "atoi s =
     (let neg = (case s of [] \<Rightarrow> False | c # _ \<Rightarrow> c = CHR ''-'');
          s = (case s of [] \<Rightarrow> [] | c # s' \<Rightarrow> if c = CHR ''-'' \<or> c = CHR ''+'' then s' else s);
          v = atou_loop 0 s
      in if neg then - v else v)"

definition abs_c :: "u32 \<Rightarrow> u32" where
  "abs_c n = (if sint n < 0 then - n else n)"

section \<open>The heap's state\<close>

text \<open>
  \<open>u_brk\<close> is the task's program break, \<open>u_frames\<close> the frames the kernel can still hand
  out. The null pointer is 0.
\<close>

record block_hdr =
  b_size :: u32
  b_next :: u32
  b_free :: bool

record uheap =
  hdr :: "u32 \<Rightarrow> block_hdr"
  heap_head :: u32
  u_mem :: "u32 \<Rightarrow> u8"
  u_brk :: u32
  u_frames :: nat

definition HDR_SIZE :: u32 where "HDR_SIZE = 12"
definition HEAP_GROW :: u32 where "HEAP_GROW = 4096"
definition BRK_MAX :: u32 where "BRK_MAX = 0xBFFFE000"  \<comment> \<open>\<open>USER_STACK_TOP - PAGE_SIZE\<close>\<close>

definition set_hdr :: "u32 \<Rightarrow> (block_hdr \<Rightarrow> block_hdr) \<Rightarrow> uheap \<Rightarrow> uheap" where
  "set_hdr b f h = h\<lparr>hdr := (hdr h)(b := f (hdr h b))\<rparr>"

text \<open>The page loop of \<open>SYS_BRK\<close>: the break reached and the frames left.\<close>

function brk_grow :: "u32 \<Rightarrow> u32 \<Rightarrow> nat \<Rightarrow> u32 \<times> nat" where
  "brk_grow v new frames =
     (if v < new then
        (case frames of
           0 \<Rightarrow> (v, 0)
         | Suc k \<Rightarrow> brk_grow (v + 4096) new k)
      else (new, frames))"
  by pat_completeness auto
termination by (relation "measure (\<lambda>(v, new, frames). frames)") auto

declare brk_grow.simps [simp del]

definition brk_request :: "u32 \<Rightarrow> uheap \<Rightarrow> u32 \<times> uheap" where
  "brk_request new h =
     (if new = 0 \<or> new \<le> u_brk h then (u_brk h, h)
      else if new \<ge> BRK_MAX then (u_brk h, h)
      else case brk_grow (u_brk h) new (u_frames h) of (b, k) \<Rightarrow> (b, h\<lparr>u_brk := b, u_frames := k\<rparr>))"

text \<open>\<open>sbrk\<close>: the old break, or \<open>None\<close> for the \<open>(void *)-1\<close> of a failure.\<close>

definition sbrk :: "u32 \<Rightarrow> uheap \<Rightarrow> u32 option \<times> uheap" where
  "sbrk increment h =
     (let (cur, h) = brk_request 0 h in
      if increment = 0 then (Some cur, h)
      else
        let newbrk = cur + increment; (got, h) = brk_request newbrk h
        in (if got = newbrk then Some cur else None, h))"

section \<open>malloc, free and realloc\<close>

definition align4 :: "u32 \<Rightarrow> u32" where
  "align4 sz = (sz + 3) AND NOT 3"

definition heap_grow :: "u32 \<Rightarrow> uheap \<Rightarrow> u32 \<times> uheap" where
  "heap_grow need h =
     (let grow = (need + HDR_SIZE + HEAP_GROW - 1) AND NOT (HEAP_GROW - 1) in
      case sbrk grow h of
        (None, h) \<Rightarrow> (0, h)
      | (Some b, h) \<Rightarrow> (b, set_hdr b (\<lambda>_. \<lparr>b_size = grow - HDR_SIZE, b_next = 0, b_free = True\<rparr>) h))"

text \<open>The first-fit search: the block found (0 for none) and the last block passed.\<close>

fun fit_scan :: "nat \<Rightarrow> uheap \<Rightarrow> u32 \<Rightarrow> u32 \<Rightarrow> u32 \<Rightarrow> fault + u32 \<times> u32" where
  "fit_scan n h sz b prev =
     (if b = 0 then Inr (0, prev)
      else if b_free (hdr h b) \<and> b_size (hdr h b) \<ge> sz then Inr (b, prev)
      else case n of 0 \<Rightarrow> Inl Runaway | Suc n \<Rightarrow> fit_scan n h sz (b_next (hdr h b)) b)"

declare fit_scan.simps [simp del]

text \<open>Split the block when the leftover is worth it, and mark it taken.\<close>

definition take_block :: "u32 \<Rightarrow> u32 \<Rightarrow> uheap \<Rightarrow> uheap" where
  "take_block sz b h =
     (let h = (if b_size (hdr h b) \<ge> sz + HDR_SIZE + 4 then
                 let split = b + HDR_SIZE + sz;
                     h = set_hdr split (\<lambda>_. \<lparr>b_size = b_size (hdr h b) - HDR_SIZE - sz,
                                             b_next = b_next (hdr h b), b_free = True\<rparr>) h
                 in set_hdr b (\<lambda>x. x\<lparr>b_size := sz, b_next := split\<rparr>) h
               else h)
      in set_hdr b (\<lambda>x. x\<lparr>b_free := False\<rparr>) h)"

definition U_BOUND :: nat where "U_BOUND = 2 ^ 32"

definition malloc :: "u32 \<Rightarrow> uheap \<Rightarrow> fault + u32 \<times> uheap" where
  "malloc sz h =
     (if sz = 0 then Inr (0, h)
      else
        let sz = align4 sz;
            (ok, h) = (if heap_head h = 0 then
                         (case heap_grow sz h of (b, h) \<Rightarrow> (b \<noteq> 0, h\<lparr>heap_head := b\<rparr>))
                       else (True, h))
        in if \<not> ok then Inr (0, h)
           else bindE (fit_scan U_BOUND h sz (heap_head h) 0) (\<lambda>(b, prev).
             if b \<noteq> 0 then Inr (b + HDR_SIZE, take_block sz b h)
             else case heap_grow sz h of (nb, h) \<Rightarrow>
               if nb = 0 then Inr (0, h)
               else Inr (nb + HDR_SIZE,
                         take_block sz nb (set_hdr prev (\<lambda>x. x\<lparr>b_next := nb\<rparr>) h))))"

fun coalesce :: "nat \<Rightarrow> u32 \<Rightarrow> uheap \<Rightarrow> fault + uheap" where
  "coalesce n b h =
     (let nx = b_next (hdr h b) in
      if nx \<noteq> 0 \<and> b_free (hdr h nx) then
        case n of 0 \<Rightarrow> Inl Runaway
        | Suc n \<Rightarrow> coalesce n b
            (set_hdr b (\<lambda>x. x\<lparr>b_size := b_size x + (HDR_SIZE + b_size (hdr h nx)),
                             b_next := b_next (hdr h nx)\<rparr>) h)
      else Inr h)"

declare coalesce.simps [simp del]

definition free_c :: "u32 \<Rightarrow> uheap \<Rightarrow> fault + uheap" where
  "free_c p h =
     (if p = 0 then Inr h
      else coalesce U_BOUND (p - HDR_SIZE) (set_hdr (p - HDR_SIZE) (\<lambda>x. x\<lparr>b_free := True\<rparr>) h))"

definition copy_payload :: "u32 \<Rightarrow> u32 \<Rightarrow> nat \<Rightarrow> uheap \<Rightarrow> uheap" where
  "copy_payload d s n h = h\<lparr>u_mem := fold (\<lambda>i m. m(d + of_nat i := m (s + of_nat i))) [0..<n] (u_mem h)\<rparr>"

definition realloc :: "u32 \<Rightarrow> u32 \<Rightarrow> uheap \<Rightarrow> fault + u32 \<times> uheap" where
  "realloc p sz h =
     (if p = 0 then malloc sz h
      else if sz = 0 then bindE (free_c p h) (\<lambda>h. Inr (0, h))
      else
        let b = p - HDR_SIZE; sz = align4 sz in
        if b_size (hdr h b) \<ge> sz then Inr (p, h)
        else bindE (malloc sz h) (\<lambda>(np, h).
          if np = 0 then Inr (0, h)
          else bindE (free_c p (copy_payload np p (unat (b_size (hdr h b))) h)) (\<lambda>h. Inr (np, h))))"

section \<open>Lemmas: numbers\<close>

lemma digit_char_digit: "d < 10 \<Longrightarrow> is_digit (digit_char lb d) \<and> digit_val (digit_char lb d) = d"
  by (simp add: digit_char_def is_digit_def digit_val_def)

lemma atou_numeral: "atou_loop v (numeral_str lb 10 n @ s)
    = atou_loop (v * 10 ^ length (numeral_str lb 10 n) + of_nat n) s"
proof (induction n arbitrary: s rule: less_induct)
  case (less n)
  show ?case
  proof (cases "n < 10")
    case True
    then show ?thesis by (simp add: numeral_str.simps [of lb 10 n] digit_char_digit)
  next
    case False
    then have n: "numeral_str lb 10 n = numeral_str lb 10 (n div 10) @ [digit_char lb (n mod 10)]"
      by (simp add: numeral_str.simps [of lb 10 n])
    have "atou_loop v (numeral_str lb 10 n @ s)
        = atou_loop ((v * 10 ^ length (numeral_str lb 10 (n div 10)) + of_nat (n div 10)) * 10
            + of_nat (n mod 10)) s"
      using less [of "n div 10"] False by (simp add: n digit_char_digit)
    also have "(v * 10 ^ length (numeral_str lb 10 (n div 10)) + of_nat (n div 10)) * 10
            + of_nat (n mod 10) = v * 10 ^ length (numeral_str lb 10 n) + (of_nat (n div 10 * 10 + n mod 10) :: u32)"
      unfolding of_nat_add of_nat_mult by (simp add: n algebra_simps)
    also have "n div 10 * 10 + n mod 10 = n" by simp
    finally show ?thesis .
  qed
qed

lemma atoi_numeral: "atoi (numeral_str lb 10 n) = of_nat n"
  "atoi (CHR ''-'' # numeral_str lb 10 n) = - of_nat n"
proof -
  have a: "atou_loop 0 (numeral_str lb 10 n) = of_nat n"
    using atou_numeral [of 0 lb n "[]"] by simp
  obtain c s where cs: "numeral_str lb 10 n = c # s" using numeral_str_nonempty by (cases "numeral_str lb 10 n") auto
  have "is_digit c"
  proof -
    have "is_digit (hd (numeral_str lb 10 n))"
    proof (induction n rule: less_induct)
      case (less n)
      then show ?case
        using digit_char_digit [of "n" lb] numeral_str_nonempty [of lb 10 "n div 10"]
        by (cases "n < 10") (auto simp: numeral_str.simps [of lb 10 n])
    qed
    then show ?thesis by (simp add: cs)
  qed
  then have "c \<noteq> CHR ''-''" "c \<noteq> CHR ''+''" by (auto simp: is_digit_def)
  with a cs show "atoi (numeral_str lb 10 n) = of_nat n" by (simp add: atoi_def)
  from a show "atoi (CHR ''-'' # numeral_str lb 10 n) = - of_nat n" by (simp add: atoi_def)
qed

text \<open>
  C22. \<open>atoi\<close> reads back what \<open>%d\<close> prints, for every 32-bit integer, the smallest
  negative one included; the text has at most eleven characters.
\<close>
theorem atoi_printed:
  "\<exists>t. sprintf_k ''%d'' [AInt i] = Inr (t, length t) \<and> atoi t = i \<and> length t \<le> 11"
proof -
  have "is_digit (CHR ''d'') = False" by code_simp
  then have ps: "parse_spec ''d'' = ((False, False), 0, ''d'')" by (simp add: parse_spec_def)
  let ?neg = "sint i < 0"
  let ?s = "numeral_str 97 10 (unat (if ?neg then - i else i))"
  have l: "length ?s \<le> 10"
    using digits_word [of "if ?neg then - i else i" 10 97]
    by (cases "i = 0") (auto simp: numeral_str_0)
  have "render False ''%d'' [AInt i] = Inr ((if ?neg then ''-'' else []) @ ?s, 0)"
    using ps by (simp add: conv_text_def num_text_def pad_text_def)
  then have "sprintf_k ''%d'' [AInt i] = Inr ((if ?neg then ''-'' else []) @ ?s,
      length ((if ?neg then ''-'' else []) @ ?s))"
    by (simp add: sprintf_k_def kprint_loop_render kput_def printchars_str del: append.simps length_append)
  moreover have "atoi ((if ?neg then ''-'' else []) @ ?s) = i"
    by (simp add: atoi_numeral)
  moreover have "length ((if ?neg then ''-'' else []) @ ?s) \<le> 11"
    using l by (simp split: if_splits)
  ultimately show ?thesis by blast
qed

section \<open>The heap's invariant\<close>

definition ptr :: "u32 \<Rightarrow> u32 option" where
  "ptr p = (if p = 0 then None else Some p)"

text \<open>Blocks in address order, each with its header and payload before the next one.\<close>

fun laid :: "(u32 \<Rightarrow> nat) \<Rightarrow> nat \<Rightarrow> u32 list \<Rightarrow> nat \<Rightarrow> bool" where
  "laid s lo [] hi \<longleftrightarrow> lo \<le> hi"
| "laid s lo (b # bs) hi \<longleftrightarrow> b \<noteq> 0 \<and> lo \<le> unat b \<and> laid s (unat b + 12 + s b) bs hi"

definition psize :: "uheap \<Rightarrow> u32 \<Rightarrow> nat" where "psize h b = unat (b_size (hdr h b))"
definition nexts :: "uheap \<Rightarrow> u32 \<Rightarrow> u32 option" where "nexts h b = ptr (b_next (hdr h b))"

definition uheap_ok :: "uheap \<Rightarrow> u32 list \<Rightarrow> bool" where
  "uheap_ok h bs \<longleftrightarrow> linked (nexts h) (ptr (heap_head h)) bs \<and>
     laid (psize h) 0 bs (unat (u_brk h)) \<and> 0 < u_brk h \<and> u_brk h \<le> BRK_MAX"

definition live :: "uheap \<Rightarrow> u32 list \<Rightarrow> u32 set" where
  "live h bs = {b \<in> set bs. \<not> b_free (hdr h b)}"

lemma ptr_simps [simp]: "ptr 0 = None" "ptr p = None \<longleftrightarrow> p = 0" "ptr p = Some q \<longleftrightarrow> q = p \<and> p \<noteq> 0"
  by (auto simp: ptr_def)

lemma laid_lower: "laid s lo bs hi \<Longrightarrow> lo' \<le> lo \<Longrightarrow> laid s lo' bs hi"
  by (cases bs) auto

lemma laid_cong: "(\<And>b. b \<in> set bs \<Longrightarrow> s b = s' b) \<Longrightarrow> laid s lo bs hi = laid s' lo bs hi"
  by (induction bs arbitrary: lo) auto

lemma laid_append: "laid s lo (as @ bs) hi \<longleftrightarrow> (\<exists>mid. laid s lo as mid \<and> laid s mid bs hi)"
proof (induction as arbitrary: lo)
  case Nil
  then show ?case by (auto intro: laid_lower)
qed auto

lemma laid_upper: "laid s lo bs hi \<Longrightarrow> hi \<le> hi' \<Longrightarrow> laid s lo bs hi'"
  by (induction bs arbitrary: lo) auto

lemma laid_bounds:
  "laid s lo bs hi \<Longrightarrow> lo \<le> hi \<and> (\<forall>b \<in> set bs. lo \<le> unat b \<and> unat b + 12 + s b \<le> hi \<and> b \<noteq> 0)"
  by (induction bs arbitrary: lo) fastforce+

lemma laid_length: "laid s lo bs hi \<Longrightarrow> lo + 12 * length bs \<le> hi"
  by (induction bs arbitrary: lo) fastforce+

lemma laid_disjoint:
  "laid s lo bs hi \<Longrightarrow> a \<in> set bs \<Longrightarrow> b \<in> set bs \<Longrightarrow> a \<noteq> b \<Longrightarrow>
     unat a + 12 + s a \<le> unat b \<or> unat b + 12 + s b \<le> unat a"
proof (induction bs arbitrary: lo)
  case (Cons c bs)
  then have "\<forall>x \<in> set bs. unat c + 12 + s c \<le> unat x" using laid_bounds by fastforce
  with Cons show ?case by auto
qed simp

lemma uheap_ok_bound: "uheap_ok h bs \<Longrightarrow> length bs \<le> U_BOUND"
proof -
  assume "uheap_ok h bs"
  then have "12 * length bs \<le> unat (u_brk h)" using laid_length by (fastforce simp: uheap_ok_def)
  moreover have "unat (u_brk h) < 2 ^ 32" using unsigned_less [of "u_brk h"] by simp
  ultimately show ?thesis unfolding U_BOUND_def by linarith
qed

lemma uheap_ok_distinct: "uheap_ok h bs \<Longrightarrow> distinct bs"
  unfolding uheap_ok_def by (blast intro: linked_distinct)

lemma set_hdr_simps [simp]:
  "hdr (set_hdr b f h) = (hdr h)(b := f (hdr h b))" "heap_head (set_hdr b f h) = heap_head h"
  "u_mem (set_hdr b f h) = u_mem h" "u_brk (set_hdr b f h) = u_brk h"
  "u_frames (set_hdr b f h) = u_frames h"
  by (simp_all add: set_hdr_def)

lemma nexts_ptr: "nexts h b = Some c \<longleftrightarrow> c = b_next (hdr h b) \<and> c \<noteq> 0"
  by (auto simp: nexts_def)

section \<open>Growing the heap\<close>

lemma brk_grow_bounds:
  "v \<le> new \<Longrightarrow> new \<le> BRK_MAX \<Longrightarrow> v \<le> fst (brk_grow v new k) \<and> fst (brk_grow v new k) \<le> new"
proof (induction v new k rule: brk_grow.induct)
  case (1 v new k)
  show ?case
  proof (cases "v < new")
    case True
    then have u: "unat (v + 4096) = unat v + 4096"
      using 1 by (subst unat_plus_no_wrap) (auto simp: BRK_MAX_def word_less_nat_alt word_le_nat_alt)
    show ?thesis
    proof (cases k)
      case (Suc k')
      show ?thesis
      proof (cases "v + 4096 \<le> new")
        case True
        with 1 Suc \<open>v < new\<close> have "v + 4096 \<le> fst (brk_grow (v + 4096) new k')
            \<and> fst (brk_grow (v + 4096) new k') \<le> new" by blast
        moreover have "v \<le> v + 4096" by (simp add: word_le_nat_alt u)
        moreover have "brk_grow v new k = brk_grow (v + 4096) new k'"
          using \<open>v < new\<close> Suc by (simp add: brk_grow.simps [of v new])
        ultimately show ?thesis by (auto intro: order_trans)
      next
        case False
        then have "\<not> v + 4096 < new" by auto
        moreover have "brk_grow v new k = brk_grow (v + 4096) new k'"
          using \<open>v < new\<close> Suc by (simp add: brk_grow.simps [of v new])
        ultimately show ?thesis
          using 1 by (simp add: brk_grow.simps [of "v + 4096" new])
      qed
    qed (use True in \<open>auto simp: brk_grow.simps [of v new]\<close>)
  qed (use 1 in \<open>auto simp: brk_grow.simps [of v new] brk_grow.simps [of new new]\<close>)
qed

lemma brk_request_keep: "brk_request new h = (b, h') \<Longrightarrow>
   hdr h' = hdr h \<and> heap_head h' = heap_head h \<and> u_mem h' = u_mem h \<and> b = u_brk h'"
  by (auto simp: brk_request_def split: if_splits prod.splits)

lemma brk_request_bounds:
  assumes "u_brk h \<le> BRK_MAX" and "brk_request new h = (b, h')"
  shows "u_brk h \<le> b \<and> b \<le> BRK_MAX"
  using assms brk_grow_bounds [of "u_brk h" new "u_frames h"]
  by (force simp: brk_request_def not_le split: if_splits prod.splits)

lemma brk_request_got: "brk_request new h = (b, h') \<Longrightarrow> b = new \<Longrightarrow> new = u_brk h \<or> u_brk h \<le> new"
  by (auto simp: brk_request_def split: if_splits)

lemma heap_grow_round:
  assumes "unat need < 2 ^ 32 - 4108"
  shows "unat ((need + HDR_SIZE + HEAP_GROW - 1) AND NOT (HEAP_GROW - 1)) \<ge> unat need + 12"
proof -
  have m: "HEAP_GROW - 1 = mask 12" by (simp add: HEAP_GROW_def mask_eq_exp_minus_1)
  have s: "need + HDR_SIZE + HEAP_GROW - 1 = need + 4107" by (simp add: HDR_SIZE_def HEAP_GROW_def)
  have u: "unat (need + 4107) = unat need + 12 + (4096 - 1)"
    using assms by (subst unat_plus_no_wrap) auto
  show ?thesis unfolding s m and_not_mask_nat u
    using nat_round_up [of 4096 "unat need + 12"] by simp
qed

lemma heap_grow_cases:
  assumes "unat need < 2 ^ 32 - 4108" and "u_brk h \<le> BRK_MAX" and "0 < u_brk h"
    and "heap_grow need h = (b, h')"
  shows "heap_head h' = heap_head h \<and> u_mem h' = u_mem h \<and> u_brk h \<le> u_brk h' \<and> u_brk h' \<le> BRK_MAX \<and>
    (if b = 0 then hdr h' = hdr h
     else b = u_brk h \<and> b_next (hdr h' b) = 0 \<and> b_free (hdr h' b) \<and>
       unat need \<le> psize h' b \<and> unat (u_brk h') = unat b + 12 + psize h' b \<and>
       (\<forall>c. c \<noteq> b \<longrightarrow> hdr h' c = hdr h c))"
proof -
  let ?g = "(need + HDR_SIZE + HEAP_GROW - 1) AND NOT (HEAP_GROW - 1)"
  have g: "unat ?g \<ge> unat need + 12" using assms(1) by (rule heap_grow_round)
  then have "?g \<noteq> 0" by (metis add_is_0 le_zero_eq unsigned_0 zero_neq_numeral)
  obtain got h1 where s: "brk_request (u_brk h + ?g) h = (got, h1)" by (cases "brk_request (u_brk h + ?g) h")
  note k = brk_request_keep [OF s] and bd = brk_request_bounds [OF assms(2) s]
  have sb: "sbrk ?g h = (if got = u_brk h + ?g then Some (u_brk h) else None, h1)"
    using \<open>?g \<noteq> 0\<close> s by (simp add: sbrk_def brk_request_def [of 0])
  show ?thesis
  proof (cases "got = u_brk h + ?g")
    case False
    then show ?thesis using assms(4) k bd sb by (auto simp: heap_grow_def Let_def)
  next
    case True
    have "u_brk h \<le> u_brk h + ?g" using bd True by simp
    then have un: "unat (u_brk h + ?g) = unat (u_brk h) + unat ?g"
      by (simp add: unat_plus_simple)
    have "HDR_SIZE \<le> ?g" using g by (simp add: word_le_nat_alt HDR_SIZE_def)
    then have "unat (?g - HDR_SIZE) = unat ?g - 12" by (simp add: unat_sub HDR_SIZE_def)
    then show ?thesis using True assms(3,4) k bd sb un g
      by (auto simp: heap_grow_def Let_def psize_def)
  qed
qed

section \<open>malloc and free keep the invariant\<close>

lemma take_block_split:
  assumes "HDR_SIZE + 4 + sz \<le> b_size (hdr h b)" and "unat sz < 2 ^ 32 - 16"
    and "uheap_ok h (as @ b # cs)"
  shows "\<exists>split. uheap_ok (take_block sz b h) (as @ b # split # cs) \<and>
    psize (take_block sz b h) b = unat sz \<and> \<not> b_free (hdr (take_block sz b h) b) \<and>
    b_free (hdr (take_block sz b h) split) \<and> split \<notin> set (as @ b # cs) \<and>
    (\<forall>c. c \<noteq> b \<longrightarrow> c \<noteq> split \<longrightarrow> hdr (take_block sz b h) c = hdr h c)"
proof -
  let ?sp = "b + HDR_SIZE + sz" and ?hi = "unat (u_brk h)"
  let ?h = "take_block sz b h"
  from assms(3) obtain mid where as: "laid (psize h) 0 as mid" and
    b: "b \<noteq> 0" "mid \<le> unat b" and cs: "laid (psize h) (unat b + 12 + psize h b) cs ?hi"
    and lk: "linked (nexts h) (ptr (heap_head h)) (as @ b # cs)"
    by (auto simp: uheap_ok_def laid_append)
  have hi: "unat b + 12 + psize h b \<le> ?hi" using laid_bounds [OF cs] by simp
  have lim: "?hi < 2 ^ 32" using unsigned_less [of "u_brk h"] by simp
  have s16: "unat (HDR_SIZE + 4 + sz) = 16 + unat sz"
    using assms(2) by (subst unat_plus_no_wrap) (auto simp: HDR_SIZE_def)
  have sz: "16 + unat sz \<le> psize h b" using assms(1) s16 by (simp add: word_le_nat_alt psize_def)
  have u1: "unat (b + HDR_SIZE) = unat b + 12"
    using hi lim by (subst unat_plus_no_wrap) (auto simp: HDR_SIZE_def)
  have sp: "unat ?sp = unat b + 12 + unat sz"
    using hi lim sz by (subst unat_plus_no_wrap) (auto simp: u1)
  have dist: "distinct (as @ b # cs)" using lk by (rule linked_distinct)
  have "?sp \<notin> set as" "?sp \<notin> set cs" "?sp \<noteq> b"
    using laid_bounds [OF as] laid_bounds [OF cs] sp sz b(2) by fastforce+
  note new = this
  have u2: "unat (b_size (hdr h b) - HDR_SIZE - sz) = psize h b - 12 - unat sz"
  proof -
    have "HDR_SIZE \<le> b_size (hdr h b)" using sz by (simp add: word_le_nat_alt HDR_SIZE_def psize_def)
    then have "unat (b_size (hdr h b) - HDR_SIZE) = psize h b - 12"
      by (simp add: unat_sub HDR_SIZE_def psize_def)
    moreover from this have "sz \<le> b_size (hdr h b) - HDR_SIZE" using sz by (simp add: word_le_nat_alt)
    ultimately show ?thesis by (simp add: unat_sub)
  qed
  have cond: "sz + HDR_SIZE + 4 \<le> b_size (hdr h b)" using assms(1) by (simp add: ac_simps)
  have hdrs: "hdr ?h = (hdr h)(?sp := \<lparr>b_size = b_size (hdr h b) - HDR_SIZE - sz,
        b_next = b_next (hdr h b), b_free = True\<rparr>,
      b := (hdr h b)\<lparr>b_size := sz, b_next := ?sp, b_free := False\<rparr>)"
    using cond new(3) by (auto simp: take_block_def Let_def fun_eq_iff)
  have oth: "heap_head ?h = heap_head h" "u_brk ?h = u_brk h"
    using cond by (simp_all add: take_block_def Let_def)
  have ps: "psize ?h b = unat sz" "psize ?h ?sp = psize h b - 12 - unat sz"
    "\<And>c. c \<noteq> b \<Longrightarrow> c \<noteq> ?sp \<Longrightarrow> psize ?h c = psize h c"
    using new(3) u2 by (simp_all add: psize_def hdrs)
  have ns: "nexts ?h b = Some ?sp" "nexts ?h ?sp = nexts h b"
    "\<And>c. c \<noteq> b \<Longrightarrow> c \<noteq> ?sp \<Longrightarrow> nexts ?h c = nexts h c"
    using new(3) sp b(1) by (auto simp: nexts_def hdrs unat_eq_zero [symmetric])
  have "uheap_ok ?h (as @ b # ?sp # cs)"
    unfolding uheap_ok_def
  proof (intro conjI)
    have "lseg (nexts ?h) p as q = lseg (nexts h) p as q" for p q
      using dist new by (intro lseg_cong) (auto intro!: ns)
    moreover have "lseg (nexts ?h) p cs q = lseg (nexts h) p cs q" for p q
      using dist new by (intro lseg_cong) (auto intro!: ns)
    ultimately show "linked (nexts ?h) (ptr (heap_head ?h)) (as @ b # ?sp # cs)"
      using lk ns by (auto simp: oth)
    have "laid (psize ?h) lo as m = laid (psize h) lo as m" for lo m
      using dist new by (intro laid_cong) (auto intro!: ps)
    moreover have "laid (psize ?h) lo cs m = laid (psize h) lo cs m" for lo m
      using dist new by (intro laid_cong) (auto intro!: ps)
    moreover have "?sp \<noteq> 0" using sp b(1) by (auto simp: unat_eq_zero [symmetric])
    ultimately show "laid (psize ?h) 0 (as @ b # ?sp # cs) (unat (u_brk ?h))"
      using as b cs sz sp by (auto simp: laid_append oth ps intro!: exI [of _ mid] laid_lower [OF cs])
  qed (use assms(3) in \<open>auto simp: oth uheap_ok_def\<close>)
  then show ?thesis using new ps(1) hdrs by (intro exI [of _ ?sp]) auto
qed

lemma uheap_ok_same:
  assumes "uheap_ok h bs" and "\<And>c. c \<in> set bs \<Longrightarrow> b_size (hdr h' c) = b_size (hdr h c)"
    and "\<And>c. c \<in> set bs \<Longrightarrow> b_next (hdr h' c) = b_next (hdr h c)"
    and "heap_head h' = heap_head h" and "u_brk h \<le> u_brk h'" and "u_brk h' \<le> BRK_MAX"
  shows "uheap_ok h' bs"
proof -
  have "laid (psize h') 0 bs (unat (u_brk h)) = laid (psize h) 0 bs (unat (u_brk h))"
    by (rule laid_cong) (simp add: psize_def assms)
  moreover have "linked (nexts h') p bs = linked (nexts h) p bs" for p
    by (rule lseg_cong) (simp add: nexts_def assms)
  moreover have "unat (u_brk h) \<le> unat (u_brk h')" using assms(5) by (simp add: word_le_nat_alt)
  moreover have "0 < u_brk h'" using assms(1,5) by (auto simp: uheap_ok_def)
  ultimately show ?thesis using assms(1,4,6) by (simp add: uheap_ok_def laid_upper)
qed

lemma take_block_live:
  assumes ok: "uheap_ok h (as @ b # cs)" and fr: "b_free (hdr h b)"
    and big: "sz \<le> b_size (hdr h b)" and sz: "unat sz < 2 ^ 32 - 16"
  shows "\<exists>bs'. uheap_ok (take_block sz b h) bs' \<and> u_mem (take_block sz b h) = u_mem h \<and>
    live (take_block sz b h) bs' = insert b (live h (as @ b # cs)) \<and> b \<notin> live h (as @ b # cs) \<and>
    unat sz \<le> psize (take_block sz b h) b \<and>
    (\<forall>c \<in> live h (as @ b # cs). hdr (take_block sz b h) c = hdr h c)"
proof (cases "HDR_SIZE + 4 + sz \<le> b_size (hdr h b)")
  case True
  from take_block_split [OF True sz ok] obtain sp where
    *: "uheap_ok (take_block sz b h) (as @ b # sp # cs)" "psize (take_block sz b h) b = unat sz"
      "\<not> b_free (hdr (take_block sz b h) b)" "b_free (hdr (take_block sz b h) sp)"
      "sp \<notin> set (as @ b # cs)"
    and o: "\<And>c. c \<noteq> b \<Longrightarrow> c \<noteq> sp \<Longrightarrow> hdr (take_block sz b h) c = hdr h c" by blast
  have "live (take_block sz b h) (as @ b # sp # cs) = insert b (live h (as @ b # cs))"
  proof (rule set_eqI)
    fix x
    show "x \<in> live (take_block sz b h) (as @ b # sp # cs) \<longleftrightarrow> x \<in> insert b (live h (as @ b # cs))"
      using * fr o [of x] by (cases "x = b \<or> x = sp") (auto simp: live_def)
  qed
  moreover have "hdr (take_block sz b h) c = hdr h c" if "c \<in> live h (as @ b # cs)" for c
    using that * fr by (intro o) (auto simp: live_def)
  moreover have "u_mem (take_block sz b h) = u_mem h" by (simp add: take_block_def Let_def)
  ultimately show ?thesis using * fr by (intro exI [of _ "as @ b # sp # cs"]) (auto simp: live_def)
next
  case False
  then have t: "take_block sz b h = set_hdr b (\<lambda>x. x\<lparr>b_free := False\<rparr>) h"
    by (simp add: take_block_def Let_def ac_simps)
  have "uheap_ok (take_block sz b h) (as @ b # cs)"
    by (rule uheap_ok_same [OF ok]) (use ok in \<open>auto simp: t uheap_ok_def\<close>)
  then show ?thesis using fr big
    by (intro exI [of _ "as @ b # cs"]) (auto simp: t live_def psize_def word_le_nat_alt)
qed

lemma fit_scan_cases:
  "linked (nexts h) (ptr b) bs \<Longrightarrow> length bs \<le> n \<Longrightarrow>
     (\<exists>c p. c \<in> set bs \<and> fit_scan n h sz b prev = Inr (c, p) \<and> b_free (hdr h c) \<and> sz \<le> b_size (hdr h c)) \<or>
     fit_scan n h sz b prev = Inr (0, if bs = [] then prev else last bs) \<and>
     (\<forall>c \<in> set bs. \<not> (b_free (hdr h c) \<and> sz \<le> b_size (hdr h c)))"
proof (induction bs arbitrary: b prev n)
  case Nil
  then show ?case by (simp add: fit_scan.simps [of n])
next
  case (Cons x bs)
  then obtain m where n: "n = Suc m" by (cases n) auto
  from Cons.prems have b: "b = x" "b \<noteq> 0" and l: "linked (nexts h) (ptr (b_next (hdr h x))) bs"
    by (auto simp: nexts_def [of h x])
  show ?case
  proof (cases "b_free (hdr h x) \<and> sz \<le> b_size (hdr h x)")
    case True
    then show ?thesis using b by (auto simp: fit_scan.simps [of n])
  next
    case False
    then have f: "fit_scan n h sz b prev = fit_scan m h sz (b_next (hdr h x)) x"
      using b n by (subst fit_scan.simps) auto
    from Cons.IH [OF l, of m x] Cons.prems n show ?thesis
      unfolding f using False by (fastforce split: if_splits)
  qed
qed

lemma append_block:
  assumes ok: "uheap_ok h bs" and ne: "bs \<noteq> []" and g: "heap_grow sz h = (nb, h1)" and nb: "nb \<noteq> 0"
    and sz: "unat sz < 2 ^ 32 - 4108"
  shows "uheap_ok (set_hdr (last bs) (\<lambda>x. x\<lparr>b_next := nb\<rparr>) h1) (bs @ [nb]) \<and> nb \<notin> set bs \<and>
    (\<forall>c \<in> set bs. hdr h1 c = hdr h c) \<and>
    b_free (hdr h1 nb) \<and> unat sz \<le> psize h1 nb \<and> u_mem h1 = u_mem h"
proof -
  have mx: "u_brk h \<le> BRK_MAX" "0 < u_brk h" using ok by (auto simp: uheap_ok_def)
  note g = heap_grow_cases [OF sz mx g]
  from g nb have h1: "nb = u_brk h" "b_next (hdr h1 nb) = 0" "b_free (hdr h1 nb)" "unat sz \<le> psize h1 nb"
    "unat (u_brk h1) = unat nb + 12 + psize h1 nb" "heap_head h1 = heap_head h" "u_mem h1 = u_mem h"
    "u_brk h1 \<le> BRK_MAX" "u_brk h \<le> u_brk h1"
    and o: "\<And>c. c \<noteq> nb \<Longrightarrow> hdr h1 c = hdr h c" by auto
  have laid: "laid (psize h) 0 bs (unat nb)" using ok h1 by (simp add: uheap_ok_def)
  have notin: "nb \<notin> set bs" using laid_bounds [OF laid] by fastforce
  obtain as l where bs: "bs = as @ [l]" using ne by (metis rev_exhaust)
  let ?h = "set_hdr (last bs) (\<lambda>x. x\<lparr>b_next := nb\<rparr>) h1"
  have dist: "distinct bs" using ok by (rule uheap_ok_distinct)
  have "uheap_ok ?h (bs @ [nb])" unfolding uheap_ok_def
  proof (intro conjI)
    have "lseg (nexts ?h) p as q = lseg (nexts h) p as q" for p q
      using dist notin bs o by (intro lseg_cong) (fastforce simp: nexts_def)
    moreover have "nexts ?h l = Some nb" "nexts ?h nb = None"
      using bs nb h1(2) notin by (auto simp: nexts_def)
    moreover have "linked (nexts h) (ptr (heap_head h)) (as @ [l])" using ok bs by (simp add: uheap_ok_def)
    ultimately show "linked (nexts ?h) (ptr (heap_head ?h)) (bs @ [nb])"
      using bs by (auto simp: h1(6))
    have "laid (psize ?h) 0 bs (unat nb) = laid (psize h) 0 bs (unat nb)"
      using notin bs dist o by (intro laid_cong) (fastforce simp: psize_def)
    moreover have "psize ?h nb = psize h1 nb" using notin bs by (auto simp: psize_def)
    ultimately show "laid (psize ?h) 0 (bs @ [nb]) (unat (u_brk ?h))"
      using laid nb h1(5) by (auto simp: laid_append)
  qed (use mx h1 in auto)
  moreover have "\<forall>c \<in> set bs. hdr h1 c = hdr h c" using notin o by metis
  ultimately show ?thesis using notin h1(3,4,7) by blast
qed

lemma align4_bounds:
  "unat sz < 2 ^ 32 - 4 \<Longrightarrow> unat sz \<le> unat (align4 sz) \<and> unat (align4 sz) \<le> unat sz + 3"
proof -
  assume sz: "unat sz < 2 ^ 32 - 4"
  have m: "(3 :: u32) = mask 2" by (simp add: mask_eq_exp_minus_1)
  have u: "unat (sz + 3) = unat sz + (4 - 1)" using sz by (subst unat_plus_no_wrap) auto
  have "unat (align4 sz) = unat sz + (4 - 1) - (unat sz + (4 - 1)) mod 4"
    unfolding align4_def u [symmetric] using and_not_mask_nat [of "sz + 3" 2] by (simp add: m)
  then show ?thesis using nat_round_up [of 4 "unat sz"] by simp
qed


definition demo_uheap :: uheap where
  "demo_uheap = \<lparr>hdr = \<lambda>_. \<lparr>b_size = 0, b_next = 0, b_free = False\<rparr>, heap_head = 0, u_mem = \<lambda>_. 0,
     u_brk = 0x8050000, u_frames = 10\<rparr>"

lemma demo_uheap_ok: "uheap_ok demo_uheap []"
  by (simp add: uheap_ok_def demo_uheap_def BRK_MAX_def)


section \<open>free\<close>

lemma coalesce_ok:
  "uheap_ok h (as @ b # cs) \<Longrightarrow> length cs \<le> n \<Longrightarrow>
     \<exists>h' k. coalesce n b h = Inr h' \<and> uheap_ok h' (as @ b # drop k cs) \<and> u_mem h' = u_mem h \<and>
       (\<forall>c \<in> set (take k cs). b_free (hdr h c)) \<and> b_free (hdr h' b) = b_free (hdr h b) \<and>
       (\<forall>c. c \<noteq> b \<longrightarrow> hdr h' c = hdr h c) \<and>
       (drop k cs \<noteq> [] \<longrightarrow> \<not> b_free (hdr h (hd (drop k cs))))"
proof (induction cs arbitrary: h n)
  case Nil
  then have "b_next (hdr h b) = 0" by (auto simp: uheap_ok_def nexts_def [of h b])
  with Nil show ?case by (intro exI [of _ h] exI [of _ 0]) (auto simp: coalesce.simps [of n])
next
  case (Cons c cs)
  then obtain m where n: "n = Suc m" by (cases n) auto
  from Cons.prems(1) have nx: "b_next (hdr h b) = c" "c \<noteq> 0"
    by (auto simp: uheap_ok_def nexts_def [of h b])
  show ?case
  proof (cases "b_free (hdr h c)")
    case False
    with Cons.prems nx show ?thesis
      by (intro exI [of _ h] exI [of _ 0]) (auto simp: coalesce.simps [of n])
  next
    case True
    let ?h = "set_hdr b (\<lambda>x. x\<lparr>b_size := b_size x + (HDR_SIZE + b_size (hdr h c)),
                             b_next := b_next (hdr h c)\<rparr>) h"
    have lk: "linked (nexts h) (ptr (heap_head h)) (as @ b # c # cs)"
      and ld: "laid (psize h) 0 (as @ b # c # cs) (unat (u_brk h))"
      using Cons.prems(1) by (auto simp: uheap_ok_def)
    have dist: "distinct (as @ b # c # cs)" using lk by (rule linked_distinct)
    from ld obtain mid where as: "laid (psize h) 0 as mid" and
      lb: "b \<noteq> 0" "mid \<le> unat b" "unat b + 12 + psize h b \<le> unat c" and
      cs: "laid (psize h) (unat c + 12 + psize h c) cs (unat (u_brk h))" by (auto simp: laid_append)
    have lim: "unat c + 12 + psize h c < 2 ^ 32"
      using laid_bounds [OF cs] unat_u32_lt [of "u_brk h"] by linarith
    have u: "unat (HDR_SIZE + b_size (hdr h c)) = 12 + psize h c"
      using lim by (subst unat_plus_no_wrap) (auto simp: HDR_SIZE_def psize_def)
    have pb: "psize ?h b = psize h b + (12 + psize h c)"
      using lim lb(3) u by (simp add: psize_def unat_plus_no_wrap)
    have "uheap_ok ?h (as @ b # cs)" unfolding uheap_ok_def
    proof (intro conjI)
      have "lseg (nexts ?h) p as q = lseg (nexts h) p as q" for p q
        using dist by (intro lseg_cong) (auto simp: nexts_def)
      moreover have "lseg (nexts ?h) p cs q = lseg (nexts h) p cs q" for p q
        using dist by (intro lseg_cong) (auto simp: nexts_def)
      moreover have "nexts ?h b = nexts h c" by (simp add: nexts_def)
      ultimately show "linked (nexts ?h) (ptr (heap_head ?h)) (as @ b # cs)" using lk by auto
      have "laid (psize ?h) lo as q = laid (psize h) lo as q" for lo q
        using dist by (intro laid_cong) (auto simp: psize_def)
      moreover have "laid (psize ?h) lo cs q = laid (psize h) lo cs q" for lo q
        using dist by (intro laid_cong) (auto simp: psize_def)
      moreover have "laid (psize h) (unat b + 12 + (psize h b + (12 + psize h c))) cs (unat (u_brk h))"
        by (rule laid_lower [OF cs]) (use lb(3) in simp)
      ultimately show "laid (psize ?h) 0 (as @ b # cs) (unat (u_brk ?h))"
        using as lb pb by (auto simp: laid_append)
    qed (use Cons.prems(1) in \<open>auto simp: uheap_ok_def\<close>)
    from Cons.IH [OF this, of m] Cons.prems(2) n obtain h' k where
      h': "coalesce m b ?h = Inr h'" "uheap_ok h' (as @ b # drop k cs)" "u_mem h' = u_mem ?h"
        "\<forall>c \<in> set (take k cs). b_free (hdr ?h c)" "b_free (hdr h' b) = b_free (hdr ?h b)"
        "\<forall>c. c \<noteq> b \<longrightarrow> hdr h' c = hdr ?h c"
        "drop k cs \<noteq> [] \<longrightarrow> \<not> b_free (hdr ?h (hd (drop k cs)))" by auto
    have "coalesce n b h = Inr h'" using h'(1) nx True n by (subst coalesce.simps) (simp add: Let_def)
    moreover have "hd (drop k cs) \<noteq> b" if "drop k cs \<noteq> []"
      using that dist by (metis distinct.simps(2) distinct_append in_set_dropD list.set_intros(2) list.set_sel(1))
    moreover have "b_free (hdr h x)" if "x \<in> set (take k cs)" for x
    proof -
      have "x \<noteq> b" using in_set_takeD [OF that] dist by auto
      then show ?thesis using bspec [OF h'(4) that] by simp
    qed
    ultimately show ?thesis using h' True dist
      by (intro exI [of _ h'] exI [of _ "Suc k"]) simp
  qed
qed

text \<open>
  Freeing a block in use always returns, takes exactly that block out of use, and
  keeps every other block in use as it was; its free neighbours above are merged into it.
\<close>
theorem free_releases:
  assumes ok: "uheap_ok h bs" and b: "b \<in> live h bs"
  shows "\<exists>h' bs'. free_c (b + HDR_SIZE) h = Inr h' \<and> uheap_ok h' bs' \<and> u_mem h' = u_mem h \<and>
    live h' bs' = live h bs - {b} \<and> (\<forall>c \<in> live h bs - {b}. hdr h' c = hdr h c) \<and>
    set bs' \<subseteq> set bs \<and> b_free (hdr h' b) \<and> (nexts h' b = None \<or> \<not> b_free (hdr h' (b_next (hdr h' b))))"
proof -
  from b obtain as cs where bs: "bs = as @ b # cs" by (auto simp: live_def dest: split_list)
  have "unat b + 12 \<le> unat (u_brk h)" and "u_brk h \<le> BRK_MAX"
    using laid_bounds ok bs by (fastforce simp: uheap_ok_def)+
  then have "unat (b + HDR_SIZE) = unat b + 12"
    by (subst unat_plus_no_wrap) (auto simp: HDR_SIZE_def BRK_MAX_def word_le_nat_alt)
  then have p0: "b + HDR_SIZE \<noteq> 0" by (metis add_is_0 unsigned_0 zero_neq_numeral)
  let ?h = "set_hdr b (\<lambda>x. x\<lparr>b_free := True\<rparr>) h"
  have ok1: "uheap_ok ?h (as @ b # cs)"
    by (rule uheap_ok_same [OF ok [unfolded bs]]) (use ok in \<open>auto simp: uheap_ok_def\<close>)
  have "length cs \<le> U_BOUND" using uheap_ok_bound [OF ok] bs by simp
  from coalesce_ok [OF ok1 this] obtain h' k where
    h': "coalesce U_BOUND b ?h = Inr h'" "uheap_ok h' (as @ b # drop k cs)" "u_mem h' = u_mem ?h"
      "\<forall>c \<in> set (take k cs). b_free (hdr ?h c)" "b_free (hdr h' b)"
      "\<And>c. c \<noteq> b \<Longrightarrow> hdr h' c = hdr ?h c" "drop k cs \<noteq> [] \<longrightarrow> \<not> b_free (hdr ?h (hd (drop k cs)))"
    by auto
  have dist: "distinct (as @ b # cs)" using uheap_ok_distinct [OF ok] bs by simp
  have o: "hdr h' c = hdr h c" if "c \<noteq> b" for c using that h'(6) by simp
  have sp: "set cs = set (take k cs) \<union> set (drop k cs)" by (metis append_take_drop_id set_append)
  have tk: "b_free (hdr h c)" if "c \<in> set (take k cs)" for c
    using that h'(4) dist by (auto dest: in_set_takeD split: if_splits)
  have "live h' (as @ b # drop k cs) = live h bs - {b}"
  proof (rule set_eqI)
    fix x
    show "x \<in> live h' (as @ b # drop k cs) \<longleftrightarrow> x \<in> live h bs - {b}"
      using h'(5) o [of x] sp tk [of x] bs by (cases "x = b") (auto simp: live_def)
  qed
  moreover have "nexts h' b = None \<or> \<not> b_free (hdr h' (b_next (hdr h' b)))"
  proof (cases "drop k cs")
    case Nil
    with h'(2) show ?thesis by (auto simp: uheap_ok_def)
  next
    case (Cons c ds)
    with h'(2) have "b_next (hdr h' b) = c" by (auto simp: uheap_ok_def nexts_ptr)
    moreover have "c \<in> set cs" using Cons by (metis in_set_dropD list.set_intros(1))
    then have "c \<noteq> b" using dist by auto
    ultimately show ?thesis using h'(7) Cons o [of c] by simp
  qed
  moreover have "free_c (b + HDR_SIZE) h = Inr h'" using p0 h'(1) by (simp add: free_c_def)
  ultimately show ?thesis using h' bs sp o
    by (intro exI [of _ h'] exI [of _ "as @ b # drop k cs"]) auto
qed

theorem free_releases_witness:
  "\<exists>h'. free_c (0x8050000 + HDR_SIZE)
     (set_hdr 0x8050000 (\<lambda>_. \<lparr>b_size = 4084, b_next = 0, b_free = False\<rparr>)
       (demo_uheap\<lparr>heap_head := 0x8050000, u_brk := 0x8051000\<rparr>)) = Inr h' \<and> b_free (hdr h' 0x8050000)"
proof -
  let ?h = "set_hdr 0x8050000 (\<lambda>_. \<lparr>b_size = 4084, b_next = 0, b_free = False\<rparr>)
       (demo_uheap\<lparr>heap_head := 0x8050000, u_brk := 0x8051000\<rparr>)"
  have "uheap_ok ?h [0x8050000]" and "0x8050000 \<in> live ?h [0x8050000]"
    by (simp_all add: uheap_ok_def demo_uheap_def BRK_MAX_def nexts_def psize_def live_def)
  from free_releases [OF this] show ?thesis by blast
qed

text \<open>
  The rounding of a request wraps: for the four largest sizes the library hands out a block
  of no payload at all.
\<close>

lemma align4_wraps: "align4 0xFFFFFFFD = 0"
  by (simp add: align4_def)

end
