(* ===== verification/Blkdev.thy ===== *)
theory Blkdev
  imports Prelude
begin

text \<open>
  Block devices: the registry and the byte-to-sector translation of
  \<open>drivers/blkdev.c\<close>, the partitions of \<open>drivers/part.c\<close>, and the sector addressing of
  \<open>drivers/ata.c\<close>. The medium of a drive is a map from addresses to sectors, with the
  sectors whose transfer fails given by the state; the proofs relate the byte interface to a
  flat array of bytes.
\<close>

section \<open>Drives\<close>

type_synonym sector = "u8 list"

definition SECTOR :: nat where "SECTOR = 512"
definition BLKDEV_MAX :: nat where "BLKDEV_MAX = 8"
definition PART_MAX :: nat where "PART_MAX = 16"
definition BLKDEV_INODE_BASE :: nat where "BLKDEV_INODE_BASE = 300"

text \<open>An ATA drive by its number, or a partition: its parent and the offset it adds.\<close>

datatype drive = Ata nat | Part drive u32

record disks =
  media :: "nat \<Rightarrow> u32 \<Rightarrow> sector"
  bad :: "nat \<Rightarrow> u32 \<Rightarrow> bool"

text \<open>The sector address that the four address registers hold for an LBA.\<close>

definition ata_regs :: "u32 \<Rightarrow> u8 \<times> u8 \<times> u8 \<times> u8" where
  "ata_regs lba = (ucast (drop_bit 24 lba AND 0x0F), ucast lba, ucast (drop_bit 8 lba), ucast (drop_bit 16 lba))"

definition ata_addr :: "u32 \<Rightarrow> u32" where
  "ata_addr lba =
     (case ata_regs lba of (sel, lba0, lba1, lba2) \<Rightarrow>
        ucast lba0 OR push_bit 8 (ucast lba1) OR push_bit 16 (ucast lba2) OR push_bit 24 (ucast sel))"

text \<open>One sector through \<open>read_sectors\<close> and \<open>write_sectors\<close>; \<open>None\<close> is a result other than 1.\<close>

fun read_sector :: "disks \<Rightarrow> drive \<Rightarrow> u32 \<Rightarrow> sector option" where
  "read_sector s (Ata d) lba = (if bad s d (ata_addr lba) then None else Some (media s d (ata_addr lba)))"
| "read_sector s (Part p off) lba = read_sector s p (off + lba)"

fun write_sector :: "disks \<Rightarrow> drive \<Rightarrow> u32 \<Rightarrow> sector \<Rightarrow> disks option" where
  "write_sector s (Ata d) lba sec =
     (if bad s d (ata_addr lba) then None
      else Some (s\<lparr>media := (media s)(d := (media s d)(ata_addr lba := sec))\<rparr>))"
| "write_sector s (Part p off) lba sec = write_sector s p (off + lba) sec"

section \<open>The byte interface\<close>

record blkdev =
  bd_name :: string
  sector_count :: u32
  bd_drive :: drive

definition chunk_of :: "u32 \<Rightarrow> u32 \<Rightarrow> u32 \<Rightarrow> u32" where
  "chunk_of offset len copied =
     (let sec_off = (offset + copied) mod 512; avail = 512 - sec_off; chunk = len - copied
      in if chunk > avail then avail else chunk)"

lemma chunk_of_pos: "copied < len \<Longrightarrow> 0 < unat (chunk_of offset len copied)"
  and chunk_of_le: "chunk_of offset len copied \<le> len - copied"
proof -
  have "unat ((offset + copied) mod 512) < 512" by (simp add: unat_mod)
  then have lt: "(offset + copied) mod 512 < 512" by (simp add: word_less_nat_alt)
  then have "512 - (offset + copied) mod 512 \<noteq> 0" by auto
  moreover assume "copied < len"
  then have "len - copied \<noteq> 0" by auto
  ultimately show "0 < unat (chunk_of offset len copied)"
    by (auto simp: chunk_of_def Let_def unat_gt_0)
next
  show "chunk_of offset len copied \<le> len - copied" by (auto simp: chunk_of_def Let_def)
qed

lemma chunk_of_less:
  "copied < len \<Longrightarrow> unat (len - (copied + chunk_of offset len copied)) < unat (len - copied)"
proof -
  assume l: "copied < len"
  have "unat (len - (copied + chunk_of offset len copied))
      = unat (len - copied) - unat (chunk_of offset len copied)"
    unfolding diff_diff_add [symmetric] by (rule unat_sub) (rule chunk_of_le)
  then show ?thesis using chunk_of_pos [OF l, of offset] chunk_of_le [of offset len copied]
    by (simp add: word_le_nat_alt)
qed

text \<open>The loop of \<open>blkdev_do_read\<close>; \<open>dst\<close> is what has been copied.\<close>

function blk_read_loop :: "disks \<Rightarrow> blkdev \<Rightarrow> u32 \<Rightarrow> u32 \<Rightarrow> u32 \<Rightarrow> u8 list \<Rightarrow> u8 list" where
  "blk_read_loop s dev offset len copied dst =
     (if \<not> copied < len then dst
      else
        let lba = (offset + copied) div 512; sec_off = (offset + copied) mod 512;
            chunk = chunk_of offset len copied
        in if lba \<ge> sector_count dev then dst
           else case read_sector s (bd_drive dev) lba of
             None \<Rightarrow> dst
           | Some tmp \<Rightarrow>
               blk_read_loop s dev offset len (copied + chunk)
                 (dst @ (if sec_off = 0 \<and> chunk = 512 then tmp
                         else take (unat chunk) (drop (unat sec_off) tmp))))"
  by pat_completeness auto
termination
  by (relation "measure (\<lambda>(s, dev, offset, len, copied, dst). unat (len - copied))")
    (auto intro: chunk_of_less)

declare blk_read_loop.simps [simp del]

definition blkdev_do_read :: "disks \<Rightarrow> blkdev \<Rightarrow> u32 \<Rightarrow> u32 \<Rightarrow> u8 list" where
  "blkdev_do_read s dev offset len = (if len = 0 then [] else blk_read_loop s dev offset len 0 [])"

text \<open>\<open>memcpy(tmp + sec_off, src, chunk)\<close>.\<close>

definition patch :: "nat \<Rightarrow> u8 list \<Rightarrow> u8 list \<Rightarrow> u8 list" where
  "patch i xs t = take i t @ xs @ drop (i + length xs) t"

function blk_write_loop :: "disks \<Rightarrow> blkdev \<Rightarrow> u32 \<Rightarrow> u32 \<Rightarrow> u8 list \<Rightarrow> u32 \<Rightarrow> u32 \<times> disks" where
  "blk_write_loop s dev offset len src written =
     (if \<not> written < len then (written, s)
      else
        let lba = (offset + written) div 512; sec_off = (offset + written) mod 512;
            chunk = chunk_of offset len written;
            bytes = take (unat chunk) (drop (unat written) src)
        in if lba \<ge> sector_count dev then (written, s)
           else if sec_off = 0 \<and> chunk = 512 then
             (case write_sector s (bd_drive dev) lba bytes of
                None \<Rightarrow> (written, s)
              | Some s \<Rightarrow> blk_write_loop s dev offset len src (written + chunk))
           else
             (case read_sector s (bd_drive dev) lba of
                None \<Rightarrow> (written, s)
              | Some tmp \<Rightarrow>
                  (case write_sector s (bd_drive dev) lba (patch (unat sec_off) bytes tmp) of
                     None \<Rightarrow> (written, s)
                   | Some s \<Rightarrow> blk_write_loop s dev offset len src (written + chunk))))"
  by pat_completeness auto
termination
  by (relation "measure (\<lambda>(s, dev, offset, len, src, written). unat (len - written))")
    (auto intro: chunk_of_less, metis chunk_of_less)

declare blk_write_loop.simps [simp del]

definition blkdev_do_write :: "disks \<Rightarrow> blkdev \<Rightarrow> u32 \<Rightarrow> u32 \<Rightarrow> u8 list \<Rightarrow> u32 \<times> disks" where
  "blkdev_do_write s dev offset len src = (if len = 0 then (0, s) else blk_write_loop s dev offset len src 0)"

text \<open>The two ioctls: the 64-bit size, and the sector size.\<close>

definition blkdev_do_control :: "blkdev \<Rightarrow> nat \<Rightarrow> 64 word option" where
  "blkdev_do_control dev request =
     (if request = 1 then Some (ucast (sector_count dev) * 512)
      else if request = 2 then Some 512 else None)"

section \<open>The registry\<close>

text \<open>\<open>devnodes\<close> lists the device nodes made: name, inode number and size.\<close>

record registry =
  blkdevs :: "blkdev list"
  part_count :: nat
  devnodes :: "(string \<times> nat \<times> u32) list"

definition blkdev_register :: "blkdev \<Rightarrow> registry \<Rightarrow> registry option" where
  "blkdev_register dev r =
     (if length (blkdevs r) \<ge> BLKDEV_MAX then None else Some (r\<lparr>blkdevs := blkdevs r @ [dev]\<rparr>))"

definition blkdev_find :: "string \<Rightarrow> registry \<Rightarrow> blkdev option" where
  "blkdev_find name r = find (\<lambda>d. bd_name d = name) (blkdevs r)"

definition blkdev_get :: "nat \<Rightarrow> registry \<Rightarrow> blkdev option" where
  "blkdev_get index r = (if index \<ge> length (blkdevs r) then None else Some (blkdevs r ! index))"

definition register_devnode_slot :: "nat \<Rightarrow> registry \<Rightarrow> registry" where
  "register_devnode_slot slot r =
     (let dev = blkdevs r ! slot in
      r\<lparr>devnodes := devnodes r @ [(bd_name dev, BLKDEV_INODE_BASE + slot, sector_count dev * 512)]\<rparr>)"

definition blkdev_register_devnode :: "registry \<Rightarrow> registry" where
  "blkdev_register_devnode r = register_devnode_slot (length (blkdevs r) - 1) r"

section \<open>Partitions\<close>

record mbr_entry =
  e_type :: u8
  lba_start :: u32
  lba_count :: u32

definition le32 :: "u8 list \<Rightarrow> nat \<Rightarrow> u32" where
  "le32 b i = ucast (b ! i) OR push_bit 8 (ucast (b ! (i + 1))) OR push_bit 16 (ucast (b ! (i + 2)))
     OR push_bit 24 (ucast (b ! (i + 3)))"

definition mbr_table :: "sector \<Rightarrow> nat \<Rightarrow> mbr_entry" where
  "mbr_table sec i =
     (let o1 = 446 + 16 * i in
      \<lparr>e_type = sec ! (o1 + 4), lba_start = le32 sec (o1 + 8), lba_count = le32 sec (o1 + 12)\<rparr>)"

text \<open>The parent's name, cut to leave room, and the partition's number.\<close>

definition part_name :: "string \<Rightarrow> nat \<Rightarrow> string" where
  "part_name disk i = take (if length disk \<ge> 14 then 14 else length disk) disk @ [char_of (48 + (i + 1))]"

fun part_loop :: "blkdev \<Rightarrow> sector \<Rightarrow> nat list \<Rightarrow> registry \<Rightarrow> registry" where
  "part_loop disk sec [] r = r"
| "part_loop disk sec (i # is) r =
     (let e = mbr_table sec i in
      if e_type e = 0 \<or> lba_count e = 0 then part_loop disk sec is r
      else if part_count r \<ge> PART_MAX then r
      else
        let r = r\<lparr>part_count := part_count r + 1\<rparr>;
            bd = \<lparr>bd_name = part_name (bd_name disk) i, sector_count = lba_count e,
                  bd_drive = Part (bd_drive disk) (lba_start e)\<rparr>
        in case blkdev_register bd r of
             None \<Rightarrow> r
           | Some r \<Rightarrow> part_loop disk sec is (blkdev_register_devnode r))"

definition part_probe :: "disks \<Rightarrow> blkdev \<Rightarrow> registry \<Rightarrow> registry" where
  "part_probe s disk r =
     (case read_sector s (bd_drive disk) 0 of
        None \<Rightarrow> r
      | Some sec \<Rightarrow>
          if sec ! 510 \<noteq> 0x55 \<or> sec ! 511 \<noteq> 0xAA then r else part_loop disk sec [0, 1, 2, 3] r)"

section \<open>Where a sector lies\<close>

fun phys :: "drive \<Rightarrow> u32 \<Rightarrow> nat \<times> u32" where
  "phys (Ata d) lba = (d, ata_addr lba)"
| "phys (Part p off) lba = phys p (off + lba)"

definition sec_at :: "disks \<Rightarrow> drive \<Rightarrow> u32 \<Rightarrow> sector" where
  "sec_at s dr lba = media s (fst (phys dr lba)) (snd (phys dr lba))"

lemma ata_addr_mask: "ata_addr lba = lba AND mask 28"
proof (rule bit_word_eqI)
  have m: "(0x0F :: u32) = mask 4" by (simp add: mask_eq_exp_minus_1)
  fix n assume "n < LENGTH(32)"
  then show "bit (ata_addr lba) n \<longleftrightarrow> bit (lba AND mask 28) n"
    unfolding ata_addr_def ata_regs_def m by (auto simp: bit_simps)
qed

lemma read_sector_phys:
  "read_sector s dr lba = (if bad s (fst (phys dr lba)) (snd (phys dr lba)) then None else Some (sec_at s dr lba))"
  by (induction dr arbitrary: lba) (auto simp: sec_at_def)

lemma write_sector_phys:
  "write_sector s dr lba sec = (if bad s (fst (phys dr lba)) (snd (phys dr lba)) then None
     else Some (s\<lparr>media := (media s)(fst (phys dr lba) :=
       (media s (fst (phys dr lba)))(snd (phys dr lba) := sec))\<rparr>))"
  by (induction dr arbitrary: lba) auto

text \<open>A device whose sectors can all be transferred, have 512 bytes, and do not alias.\<close>

definition dev_ok :: "disks \<Rightarrow> blkdev \<Rightarrow> bool" where
  "dev_ok s dev \<longleftrightarrow>
     (\<forall>lba < sector_count dev. \<not> bad s (fst (phys (bd_drive dev) lba)) (snd (phys (bd_drive dev) lba)) \<and>
        length (sec_at s (bd_drive dev) lba) = SECTOR) \<and>
     inj_on (phys (bd_drive dev)) {lba. lba < sector_count dev}"

text \<open>The device as a flat array of bytes, and its size.\<close>

definition flat :: "disks \<Rightarrow> blkdev \<Rightarrow> nat \<Rightarrow> u8" where
  "flat s dev a = sec_at s (bd_drive dev) (of_nat (a div SECTOR)) ! (a mod SECTOR)"

definition dev_bytes :: "blkdev \<Rightarrow> nat" where
  "dev_bytes dev = SECTOR * unat (sector_count dev)"

text \<open>The words of one step of either loop, read as natural numbers.\<close>

lemma step_nat:
  assumes "copied < len" and "unat offset + unat len \<le> 2 ^ 32"
  defines "p \<equiv> unat offset + unat copied"
  shows "unat (offset + copied) = p" and "unat ((offset + copied) div 512) = p div SECTOR"
    and "unat ((offset + copied) mod 512) = p mod SECTOR"
    and "unat (chunk_of offset len copied) = min (SECTOR - p mod SECTOR) (unat len - unat copied)"
    and "(offset + copied) div 512 = of_nat (p div SECTOR)"
proof -
  have lt: "unat copied < unat len" using assms(1) by (simp add: word_less_nat_alt)
  show p: "unat (offset + copied) = p"
    using lt assms(2) unfolding p_def by (subst unat_plus_no_wrap) auto
  show d: "unat ((offset + copied) div 512) = p div SECTOR" by (simp add: unat_div p SECTOR_def)
  show m: "unat ((offset + copied) mod 512) = p mod SECTOR" by (simp add: unat_mod p SECTOR_def)
  have "(offset + copied) mod 512 < 512" using m by (simp add: word_less_nat_alt SECTOR_def)
  then have a: "unat (512 - (offset + copied) mod 512) = SECTOR - p mod SECTOR"
    using m by (simp add: unat_sub SECTOR_def)
  have l: "unat (len - copied) = unat len - unat copied"
    using assms(1) by (simp add: unat_sub)
  show "unat (chunk_of offset len copied) = min (SECTOR - p mod SECTOR) (unat len - unat copied)"
    by (auto simp: chunk_of_def Let_def a l word_less_nat_alt min_def)
  show "(offset + copied) div 512 = of_nat (p div SECTOR)" by (simp flip: d)
qed

lemma flat_piece:
  assumes "length (sec_at s (bd_drive dev) (of_nat (p div SECTOR))) = SECTOR"
    and "p mod SECTOR + c \<le> SECTOR"
  shows "take c (drop (p mod SECTOR) (sec_at s (bd_drive dev) (of_nat (p div SECTOR))))
    = map (flat s dev) [p..<p + c]"
proof (rule nth_equalityI)
  show "length (take c (drop (p mod SECTOR) (sec_at s (bd_drive dev) (of_nat (p div SECTOR)))))
    = length (map (flat s dev) [p..<p + c])" using assms by simp
next
  fix i assume "i < length (take c (drop (p mod SECTOR) (sec_at s (bd_drive dev) (of_nat (p div SECTOR)))))"
  then have i: "i < c" by simp
  have "(p + i) div SECTOR = p div SECTOR" and "(p + i) mod SECTOR = p mod SECTOR + i"
    using i assms(2) by (auto intro!: div_mod_offset)
  then show "take c (drop (p mod SECTOR) (sec_at s (bd_drive dev) (of_nat (p div SECTOR)))) ! i
    = map (flat s dev) [p..<p + c] ! i"
    using i assms by (simp add: flat_def)
qed

lemma blk_read_loop_flat:
  assumes "dev_ok s dev" and "unat offset + unat len \<le> 2 ^ 32"
  shows "copied \<le> len \<Longrightarrow> blk_read_loop s dev offset len copied dst =
    dst @ map (flat s dev) [unat offset + unat copied..<min (unat offset + unat len) (dev_bytes dev)]"
  using assms
proof (induction s dev offset len copied dst rule: blk_read_loop.induct)
  case (1 s dev offset len copied dst)
  show ?case
  proof (cases "copied < len")
    case False
    with 1 show ?thesis by (simp add: blk_read_loop.simps [of s dev])
  next
    case True
    define p where "p = unat offset + unat copied"
    note st = step_nat [OF True 1(4), folded p_def]
    let ?c = "unat (chunk_of offset len copied)"
    show ?thesis
    proof (cases "sector_count dev \<le> (offset + copied) div 512")
      case beyond: True
      then have "unat (sector_count dev) \<le> p div SECTOR" using st(2) by (simp only: word_le_nat_alt)
      then have "dev_bytes dev \<le> p"
        by (metis dev_bytes_def mult.commute div_le_mono mult_le_mono2 order_trans div_times_less_eq_dividend)
      then show ?thesis using True beyond by (simp add: blk_read_loop.simps [of s dev] p_def [symmetric])
    next
      case False
      then have lt: "(offset + copied) div 512 < sector_count dev" by simp
      let ?tmp = "sec_at s (bd_drive dev) (of_nat (p div SECTOR))"
      have tmp: "read_sector s (bd_drive dev) ((offset + copied) div 512) = Some ?tmp" "length ?tmp = SECTOR"
        using 1(3) lt unfolding st(5) by (auto simp: dev_ok_def read_sector_phys)
      have le: "p mod SECTOR + ?c \<le> SECTOR" "?c \<le> unat len - unat copied"
        unfolding st(4) by (auto simp: SECTOR_def min_def)
      have piece: "(if (offset + copied) mod 512 = 0 \<and> chunk_of offset len copied = 512 then ?tmp
            else take ?c (drop (unat ((offset + copied) mod 512)) ?tmp)) = map (flat s dev) [p..<p + ?c]"
      proof (cases "(offset + copied) mod 512 = 0 \<and> chunk_of offset len copied = 512")
        case True
        then have c: "?c = SECTOR" and z: "p mod SECTOR = 0" using st(3) by (auto simp: SECTOR_def)
        have "take ?c (drop (p mod SECTOR) ?tmp) = ?tmp" unfolding c z using tmp(2) by simp
        then show ?thesis unfolding if_P [OF True] by (metis flat_piece [OF tmp(2) le(1)])
      next
        case False
        show ?thesis unfolding if_not_P [OF False] st(3) by (rule flat_piece [OF tmp(2) le(1)])
      qed
      have uc: "unat (copied + chunk_of offset len copied) = unat copied + ?c"
        using le(2) True unat_u32_lt [of len] by (subst unat_plus_no_wrap) (auto simp: word_less_nat_alt)
      have "copied + chunk_of offset len copied \<le> len"
        using le(2) uc True by (simp add: word_le_nat_alt word_less_nat_alt)
      have "blk_read_loop s dev offset len copied dst =
          blk_read_loop s dev offset len (copied + chunk_of offset len copied) (dst @ map (flat s dev) [p..<p + ?c])"
        unfolding piece [symmetric]
        by (subst blk_read_loop.simps) (simp only: True False tmp(1) Let_def option.case if_True if_False simp_thms)
      also have "\<dots> = (dst @ map (flat s dev) [p..<p + ?c])
          @ map (flat s dev) [p + ?c..<min (unat offset + unat len) (dev_bytes dev)]"
        using 1(1) [OF _ refl refl refl False tmp(1) \<open>copied + chunk_of offset len copied \<le> len\<close> 1(3,4)] True
        unfolding piece uc by (simp only: simp_thms add.assoc p_def)
      finally have "blk_read_loop s dev offset len copied dst = (dst @ map (flat s dev) [p..<p + ?c])
          @ map (flat s dev) [p + ?c..<min (unat offset + unat len) (dev_bytes dev)]" .
      moreover have "p + ?c \<le> dev_bytes dev"
      proof -
        have "p div SECTOR < unat (sector_count dev)" using lt st(2) by (simp only: word_less_nat_alt)
        then have "SECTOR * (p div SECTOR + 1) \<le> dev_bytes dev" unfolding dev_bytes_def by (intro mult_le_mono2) simp
        moreover have "p + ?c \<le> SECTOR * (p div SECTOR) + SECTOR"
          using le(1) mult_div_mod_eq [of SECTOR p] by linarith
        ultimately show ?thesis by simp
      qed
      moreover have "p + ?c \<le> unat offset + unat len"
        using le(2) True unfolding p_def by (simp add: word_less_nat_alt)
      ultimately show ?thesis
        by (simp add: p_def [symmetric] upt_split [of p "p + ?c" "min (unat offset + unat len) (dev_bytes dev)"])
    qed
  qed
qed

section \<open>Writing\<close>

text \<open>The state after one sector has been replaced.\<close>

definition put_sec :: "disks \<Rightarrow> drive \<Rightarrow> u32 \<Rightarrow> sector \<Rightarrow> disks" where
  "put_sec s dr lba sec = s\<lparr>media := (media s)(fst (phys dr lba) :=
       (media s (fst (phys dr lba)))(snd (phys dr lba) := sec))\<rparr>"

lemma put_sec_at:
  assumes "inj_on (phys dr) {lba. lba < n}" and "lba < n" and "l < n"
  shows "sec_at (put_sec s dr lba sec) dr l = (if l = lba then sec else sec_at s dr l)"
proof -
  have "phys dr l = phys dr lba \<longleftrightarrow> l = lba" using assms by (auto simp: inj_on_def)
  then show ?thesis by (auto simp: put_sec_def sec_at_def prod_eq_iff)
qed

lemma put_sec_ok:
  assumes "dev_ok s dev" and "lba < sector_count dev" and "length sec = SECTOR"
  shows "dev_ok (put_sec s (bd_drive dev) lba sec) dev"
  using assms put_sec_at [of "bd_drive dev" "sector_count dev" lba _ s sec]
  by (auto simp: dev_ok_def) (auto simp: put_sec_def)

lemma patch_length [simp]: "i + length xs \<le> length t \<Longrightarrow> length (patch i xs t) = length t"
  by (simp add: patch_def)

lemma patch_nth:
  "i + length xs \<le> length t \<Longrightarrow> j < length t \<Longrightarrow>
     patch i xs t ! j = (if i \<le> j \<and> j < i + length xs then xs ! (j - i) else t ! j)"
  by (auto simp: patch_def nth_append)

text \<open>Replacing the bytes of one sector changes exactly those bytes of the flat array.\<close>

lemma flat_put_sec:
  assumes ok: "dev_ok s dev" and q: "q < unat (sector_count dev)" and p: "p div SECTOR = q"
    and b: "p mod SECTOR + length bytes \<le> SECTOR" and a: "a < dev_bytes dev"
  shows "flat (put_sec s (bd_drive dev) (of_nat q)
      (patch (p mod SECTOR) bytes (sec_at s (bd_drive dev) (of_nat q)))) dev a =
    (if p \<le> a \<and> a < p + length bytes then bytes ! (a - p) else flat s dev a)"
proof -
  have word: "(of_nat x :: u32) < sector_count dev \<longleftrightarrow> x < unat (sector_count dev)"
      "unat (of_nat x :: u32) = x" if "x \<le> unat (sector_count dev)" for x
  proof -
    have "x < 2 ^ 32" using that unat_u32_lt [of "sector_count dev"] by linarith
    then show u: "unat (of_nat x :: u32) = x" by (simp add: unat_of_nat_small)
    show "(of_nat x :: u32) < sector_count dev \<longleftrightarrow> x < unat (sector_count dev)"
      by (simp add: word_less_nat_alt u)
  qed
  have aq: "a div SECTOR < unat (sector_count dev)"
    using a by (simp add: dev_bytes_def less_mult_imp_div_less mult.commute)
  have eq: "(of_nat (a div SECTOR) :: u32) = of_nat q \<longleftrightarrow> a div SECTOR = q"
    using word(2) aq q by (metis less_imp_le)
  have len: "length (sec_at s (bd_drive dev) (of_nat q)) = SECTOR"
    using ok q word by (auto simp: dev_ok_def)
  have inj: "inj_on (phys (bd_drive dev)) {lba. lba < sector_count dev}" using ok by (simp add: dev_ok_def)
  have sq: "(of_nat q :: u32) < sector_count dev" and sa: "(of_nat (a div SECTOR) :: u32) < sector_count dev"
    using word aq q by auto
  note at = put_sec_at [OF inj sq sa, of s]
  show ?thesis
  proof (cases "a div SECTOR = q")
    case True
    have "a mod SECTOR < SECTOR" by (simp add: SECTOR_def)
    moreover have "a = q * SECTOR + a mod SECTOR" using True by (metis div_mult_mod_eq)
    moreover have "p = q * SECTOR + p mod SECTOR" using p by (metis div_mult_mod_eq)
    ultimately have "(p mod SECTOR \<le> a mod SECTOR \<and> a mod SECTOR < p mod SECTOR + length bytes)
        = (p \<le> a \<and> a < p + length bytes)" "p \<le> a \<Longrightarrow> a mod SECTOR - p mod SECTOR = a - p"
      by linarith+
    then show ?thesis using at eq True b len
      by (auto simp: flat_def patch_nth SECTOR_def)
  next
    case False
    have "\<not> (p \<le> a \<and> a < p + length bytes)"
    proof
      assume c: "p \<le> a \<and> a < p + length bytes"
      then obtain i where i: "a = p + i" "i < length bytes" by (metis le_Suc_ex nat_add_left_cancel_less)
      with b have "p mod SECTOR + i < SECTOR" by simp
      from div_mod_offset(1) [OF this] i p False show False by simp
    qed
    then show ?thesis using at eq False by (auto simp: flat_def)
  qed
qed

text \<open>The write loop, from a position to the end of the request or of the device.\<close>

lemma blk_write_loop_flat:
  assumes "dev_ok s dev" and "unat offset + unat len \<le> 2 ^ 32" and "length src = unat len"
  shows "written \<le> len \<Longrightarrow>
    (case blk_write_loop s dev offset len src written of (n, s') \<Rightarrow>
       dev_ok s' dev \<and> bad s' = bad s \<and>
       unat n = max (unat written) (min (unat len) (dev_bytes dev - unat offset)) \<and>
       (\<forall>a < dev_bytes dev. flat s' dev a =
          (if unat offset + unat written \<le> a \<and> a < unat offset + unat len then src ! (a - unat offset)
           else flat s dev a)) \<and>
       (\<forall>d x. (d, x) \<notin> phys (bd_drive dev) ` {lba. lba < sector_count dev} \<longrightarrow> media s' d x = media s d x))"
  using assms
proof (induction s dev offset len src written rule: blk_write_loop.induct)
  case (1 s dev offset len src written)
  show ?case
  proof (cases "written < len")
    case False
    with 1 have "written = len" by simp
    with 1 show ?thesis by (auto simp: blk_write_loop.simps [of s dev])
  next
    case True
    define p where "p = unat offset + unat written"
    note st = step_nat [OF True 1(5), folded p_def]
    let ?c = "unat (chunk_of offset len written)" and ?q = "p div SECTOR"
    let ?bytes = "take ?c (drop (unat written) src)"
    show ?thesis
    proof (cases "sector_count dev \<le> (offset + written) div 512")
      case beyond: True
      then have "unat (sector_count dev) \<le> p div SECTOR" using st(2) by (simp only: word_le_nat_alt)
      then have "dev_bytes dev \<le> p"
        by (metis dev_bytes_def mult.commute div_le_mono mult_le_mono2 order_trans div_times_less_eq_dividend)
      then show ?thesis using True beyond 1(4) by (auto simp: blk_write_loop.simps [of s dev] p_def)
    next
      case False
      then have lt: "(offset + written) div 512 < sector_count dev" by simp
      have q: "?q < unat (sector_count dev)" using lt st(2) by (simp only: word_less_nat_alt)
      let ?tmp = "sec_at s (bd_drive dev) (of_nat ?q)"
      have lba: "(of_nat ?q :: u32) < sector_count dev" using lt st(5) by simp
      have tmp: "length ?tmp = SECTOR" "\<not> bad s (fst (phys (bd_drive dev) (of_nat ?q))) (snd (phys (bd_drive dev) (of_nat ?q)))"
        using 1(4) lba by (auto simp: dev_ok_def)
      have le: "p mod SECTOR + ?c \<le> SECTOR" "?c \<le> unat len - unat written"
        unfolding st(4) by (auto simp: SECTOR_def min_def)
      have bl: "length ?bytes = ?c" using le(2) 1(6) by simp
      let ?new = "patch (p mod SECTOR) ?bytes ?tmp" and ?w' = "written + chunk_of offset len written"
      let ?s' = "put_sec s (bd_drive dev) (of_nat ?q) ?new"
      have full: "?new = ?bytes" if "(offset + written) mod 512 = 0 \<and> chunk_of offset len written = 512"
      proof -
        have "?c = SECTOR" "p mod SECTOR = 0" using that st(3) by (auto simp: SECTOR_def)
        then show ?thesis using tmp(1) bl unfolding patch_def by simp
      qed
      have uc: "unat ?w' = unat written + ?c"
        using le(2) True unat_u32_lt [of len] by (subst unat_plus_no_wrap) (auto simp: word_less_nat_alt)
      have w'le: "?w' \<le> len" using le(2) uc True by (simp add: word_le_nat_alt word_less_nat_alt)
      have ok': "dev_ok ?s' dev" by (rule put_sec_ok [OF 1(4) lba]) (use le(1) bl tmp(1) in simp)
      have wr: "write_sector s (bd_drive dev) ((offset + written) div 512) ?new = Some ?s'"
        using tmp(2) unfolding st(5) by (simp add: write_sector_phys put_sec_def)
      have rd: "read_sector s (bd_drive dev) ((offset + written) div 512) = Some ?tmp"
        using tmp(2) unfolding st(5) by (simp add: read_sector_phys)
      have step: "blk_write_loop s dev offset len src written = blk_write_loop ?s' dev offset len src ?w'"
      proof (cases "(offset + written) mod 512 = 0 \<and> chunk_of offset len written = 512")
        case c: True
        have "write_sector s (bd_drive dev) ((offset + written) div 512) ?bytes = Some ?s'"
          using wr unfolding full [OF c] .
        then show ?thesis
          by (subst blk_write_loop.simps) (simp only: True False c Let_def option.case if_True if_False simp_thms)
      next
        case c: False
        show ?thesis
          by (subst blk_write_loop.simps)
            (simp only: True False c Let_def option.case if_True if_False simp_thms rd st(3) wr)
      qed
      have "(case blk_write_loop ?s' dev offset len src ?w' of (n, s'') \<Rightarrow>
         dev_ok s'' dev \<and> bad s'' = bad ?s' \<and>
         unat n = max (unat ?w') (min (unat len) (dev_bytes dev - unat offset)) \<and>
         (\<forall>a < dev_bytes dev. flat s'' dev a =
            (if unat offset + unat ?w' \<le> a \<and> a < unat offset + unat len then src ! (a - unat offset)
             else flat ?s' dev a)) \<and>
         (\<forall>d x. (d, x) \<notin> phys (bd_drive dev) ` {lba. lba < sector_count dev} \<longrightarrow> media s'' d x = media ?s' d x))"
      proof (cases "(offset + written) mod 512 = 0 \<and> chunk_of offset len written = 512")
        case c: True
        have "write_sector s (bd_drive dev) ((offset + written) div 512) ?bytes = Some ?s'"
          using wr unfolding full [OF c] .
        then show ?thesis
          using 1(1) [OF _ refl refl refl refl False c, of ?s'] True w'le ok' 1(5,6) by simp
      next
        case c: False
        then show ?thesis
          using 1(2) [OF _ refl refl refl refl False c rd, of ?s'] wr True w'le ok' 1(5,6) st(3) by simp
      qed
      note IH = this
      have fl: "flat ?s' dev a = (if p \<le> a \<and> a < p + ?c then ?bytes ! (a - p) else flat s dev a)"
        if "a < dev_bytes dev" for a
        using flat_put_sec [OF 1(4) q refl _ that, of ?bytes] le(1) bl by simp
      have bytes: "?bytes ! (a - p) = src ! (a - unat offset)" if "p \<le> a" "a < p + ?c" for a
        using that 1(6) le(2) by (simp add: p_def)
      have pos: "p + ?c \<le> dev_bytes dev"
      proof -
        have "SECTOR * (?q + 1) \<le> dev_bytes dev" unfolding dev_bytes_def using q by (intro mult_le_mono2) simp
        moreover have "p + ?c \<le> SECTOR * ?q + SECTOR"
          using le(1) mult_div_mod_eq [of SECTOR p] by linarith
        ultimately show ?thesis by simp
      qed
      have md: "media ?s' d x = media s d x" if "(d, x) \<notin> phys (bd_drive dev) ` {lba. lba < sector_count dev}" for d x
        using that lba by (auto simp: put_sec_def image_iff)
      obtain n s'' where r: "blk_write_loop ?s' dev offset len src ?w' = (n, s'')"
        by (cases "blk_write_loop ?s' dev offset len src ?w'")
      have "bad ?s' = bad s" by (simp add: put_sec_def)
      moreover have "max (unat ?w') (min (unat len) (dev_bytes dev - unat offset))
          = max (unat written) (min (unat len) (dev_bytes dev - unat offset))"
        using pos uc le(2) True by (auto simp: p_def max_def min_def word_less_nat_alt)
      moreover have "(if unat offset + unat ?w' \<le> a \<and> a < unat offset + unat len then src ! (a - unat offset)
             else flat ?s' dev a) = (if p \<le> a \<and> a < unat offset + unat len then src ! (a - unat offset)
             else flat s dev a)" if "a < dev_bytes dev" for a
      proof -
        have "unat offset + unat ?w' = p + ?c" "p + ?c \<le> unat offset + unat len"
          using uc le(2) True by (auto simp: p_def word_less_nat_alt)
        then show ?thesis using fl [OF that] bytes [of a] by auto
      qed
      ultimately show ?thesis using IH md unfolding step r p_def by simp
    qed
  qed
qed

section \<open>Properties of block devices\<close>

definition new_parts :: "blkdev \<Rightarrow> sector \<Rightarrow> nat list \<Rightarrow> blkdev list" where
  "new_parts disk sec is =
     map (\<lambda>i. \<lparr>bd_name = part_name (bd_name disk) i, sector_count = lba_count (mbr_table sec i),
               bd_drive = Part (bd_drive disk) (lba_start (mbr_table sec i))\<rparr>)
       (filter (\<lambda>i. e_type (mbr_table sec i) \<noteq> 0 \<and> lba_count (mbr_table sec i) \<noteq> 0) is)"

definition node_of :: "blkdev list \<Rightarrow> nat \<Rightarrow> string \<times> nat \<times> u32" where
  "node_of devs k = (bd_name (devs ! k), BLKDEV_INODE_BASE + k, sector_count (devs ! k) * 512)"

lemma part_loop_devs:
  "length (blkdevs r) \<le> BLKDEV_MAX \<Longrightarrow> part_count r \<le> PART_MAX \<Longrightarrow>
   (let r' = part_loop disk sec is r;
        room = min (BLKDEV_MAX - length (blkdevs r)) (PART_MAX - part_count r)
    in blkdevs r' = blkdevs r @ take room (new_parts disk sec is) \<and>
       devnodes r' = devnodes r @ map (node_of (blkdevs r')) [length (blkdevs r)..<length (blkdevs r')])"
proof (induction "is" arbitrary: r)
  case Nil
  then show ?case by (simp add: new_parts_def)
next
  case (Cons i "is")
  let ?e = "mbr_table sec i"
  show ?case
  proof (cases "e_type ?e = 0 \<or> lba_count ?e = 0")
    case True
    then have "part_loop disk sec (i # is) r = part_loop disk sec is r"
      and "new_parts disk sec (i # is) = new_parts disk sec is"
      by (auto simp: Let_def new_parts_def)
    then show ?thesis using Cons.IH [OF Cons.prems] by simp
  next
    case e: False
    let ?bd = "\<lparr>bd_name = part_name (bd_name disk) i, sector_count = lba_count ?e,
                  bd_drive = Part (bd_drive disk) (lba_start ?e)\<rparr>"
    have new: "new_parts disk sec (i # is) = ?bd # new_parts disk sec is"
      using e by (simp add: new_parts_def)
    show ?thesis
    proof (cases "part_count r \<ge> PART_MAX \<or> length (blkdevs r) \<ge> BLKDEV_MAX")
      case True
      then show ?thesis using e by (auto simp: Let_def blkdev_register_def)
    next
      case False
      define r2 where "r2 = blkdev_register_devnode (r\<lparr>part_count := part_count r + 1, blkdevs := blkdevs r @ [?bd]\<rparr>)"
      have s: "part_loop disk sec (i # is) r = part_loop disk sec is r2"
        using e False by (simp add: Let_def blkdev_register_def not_le r2_def)
      have r: "blkdevs r2 = blkdevs r @ [?bd]" "part_count r2 = part_count r + 1"
        "devnodes r2 = devnodes r @ [node_of (blkdevs r @ [?bd]) (length (blkdevs r))]"
        by (simp_all add: r2_def blkdev_register_devnode_def register_devnode_slot_def node_of_def Let_def)
      have rm: "min (BLKDEV_MAX - length (blkdevs r)) (PART_MAX - part_count r)
          = Suc (min (BLKDEV_MAX - length (blkdevs r2)) (PART_MAX - part_count r2))"
        unfolding r using False by (simp add: min_def) linarith
      have pre: "length (blkdevs r2) \<le> BLKDEV_MAX" "part_count r2 \<le> PART_MAX" using False r by auto
      let ?r' = "part_loop disk sec is r2"
      from Cons.IH [OF pre] have IH: "blkdevs ?r' = blkdevs r2 @ take (min (BLKDEV_MAX - length (blkdevs r2))
            (PART_MAX - part_count r2)) (new_parts disk sec is)"
        "devnodes ?r' = devnodes r2 @ map (node_of (blkdevs ?r')) [length (blkdevs r2)..<length (blkdevs ?r')]"
        by (simp_all only: Let_def)
      have d: "blkdevs ?r' = blkdevs r @ take (min (BLKDEV_MAX - length (blkdevs r)) (PART_MAX - part_count r))
          (new_parts disk sec (i # is))"
        unfolding IH(1) rm new by (simp add: r(1))
      have n: "node_of (blkdevs r @ [?bd]) (length (blkdevs r)) = node_of (blkdevs ?r') (length (blkdevs r))"
        unfolding IH(1) r(1) by (simp add: node_of_def nth_append)
      have "[length (blkdevs r)..<length (blkdevs ?r')]
          = length (blkdevs r) # [length (blkdevs r2)..<length (blkdevs ?r')]"
      proof -
        have "length (blkdevs r) < length (blkdevs ?r')" unfolding IH(1) r(1) by simp
        moreover have "length (blkdevs r2) = Suc (length (blkdevs r))" unfolding r(1) by simp
        ultimately show ?thesis by (simp add: upt_conv_Cons)
      qed
      then have "devnodes ?r' = devnodes r @ map (node_of (blkdevs ?r')) [length (blkdevs r)..<length (blkdevs ?r')]"
        using IH(2) r(3) n by simp
      with d s show ?thesis by (simp only: Let_def)
    qed
  qed
qed

text \<open>
  C24. Reading through a block device's byte interface yields the bytes of the medium as
  one flat array, cut at the end of the device, for any alignment, as long as the request
  stays below 4 GiB.
\<close>
theorem blkdev_read_flat:
  assumes "dev_ok s dev" and "unat offset + unat len \<le> 2 ^ 32"
  shows "blkdev_do_read s dev offset len =
    map (flat s dev) [unat offset..<min (unat offset + unat len) (dev_bytes dev)]"
  using blk_read_loop_flat [OF assms, of 0 "[]"] by (auto simp: blkdev_do_read_def)

definition demo_disks :: disks where
  "demo_disks = \<lparr>media = \<lambda>d lba. replicate SECTOR (ucast lba), bad = \<lambda>d lba. False\<rparr>"

definition demo_disk :: blkdev where
  "demo_disk = \<lparr>bd_name = ''hda1'', sector_count = 4, bd_drive = Part (Ata 0) 2\<rparr>"

lemma demo_dev_ok: "dev_ok demo_disks demo_disk"
proof -
  have "(2 + x) AND mask 28 = 2 + x" if "x < 4" for x :: u32
  proof -
    have u: "unat (2 + x) = 2 + unat x"
      using that by (subst unat_plus_no_wrap) (auto simp: word_less_nat_alt)
    have "unat ((2 + x) AND mask 28) = unat (2 + x)"
      unfolding unat_mask_mod using u that by (simp add: word_less_nat_alt)
    then show ?thesis by (simp add: word_unat_eq_iff)
  qed
  then have "inj_on (\<lambda>lba :: u32. (0 :: nat, (2 + lba) AND mask 28)) {lba. lba < 4}"
    by (intro inj_onI) simp
  moreover have "phys (Part (Ata 0) 2) = (\<lambda>lba. (0, (2 + lba) AND mask 28))"
    by (rule ext) (simp add: ata_addr_mask)
  ultimately show ?thesis by (simp add: dev_ok_def demo_disks_def demo_disk_def sec_at_def ata_addr_mask)
qed

theorem blkdev_read_flat_witness:
  "blkdev_do_read demo_disks demo_disk 510 4 = [2, 2, 3, 3]"
proof -
  have "unat (510 :: u32) + unat (4 :: u32) \<le> 2 ^ 32" by simp
  from blkdev_read_flat [OF demo_dev_ok this] show ?thesis
    by (simp add: dev_bytes_def demo_disk_def SECTOR_def flat_def sec_at_def demo_disks_def
        ata_addr_mask upt_rec mask_eq_exp_minus_1)
qed

text \<open>
  C25. Writing through the byte interface changes exactly the bytes asked for, up to the
  end of the device, and returns their number; no sector outside the device changes, so a
  write to a partition stays inside it.
\<close>
theorem blkdev_write_flat:
  assumes "dev_ok s dev" and "unat offset + unat len \<le> 2 ^ 32" and "length src = unat len"
  shows "(case blkdev_do_write s dev offset len src of (n, s') \<Rightarrow>
     dev_ok s' dev \<and> unat n = min (unat len) (dev_bytes dev - unat offset) \<and>
     (\<forall>a < dev_bytes dev. flat s' dev a =
        (if unat offset \<le> a \<and> a < unat offset + unat len then src ! (a - unat offset) else flat s dev a)) \<and>
     (\<forall>d x. (d, x) \<notin> phys (bd_drive dev) ` {lba. lba < sector_count dev} \<longrightarrow> media s' d x = media s d x))"
proof (cases "len = 0")
  case True
  then show ?thesis using assms by (auto simp: blkdev_do_write_def)
next
  case False
  then show ?thesis using blk_write_loop_flat [OF assms, of 0]
    by (simp add: blkdev_do_write_def split_beta)
qed

theorem blkdev_write_flat_witness:
  "(case blkdev_do_write demo_disks demo_disk 510 4 [7, 7, 7, 7] of (n, s') \<Rightarrow>
     unat n = 4 \<and> flat s' demo_disk 513 = 7)"
proof -
  have "unat (510 :: u32) + unat (4 :: u32) \<le> 2 ^ 32" "length [7, 7, 7, 7 :: u8] = unat (4 :: u32)" by simp_all
  from blkdev_write_flat [OF demo_dev_ok this] show ?thesis
    by (simp add: split_beta dev_bytes_def demo_disk_def SECTOR_def)
qed

text \<open>
  Probing a disk with a readable, signed boot sector registers, in order, the
  partitions of the non-empty entries, as far as the two tables have room, each with its
  device node; nothing registered before is lost.
\<close>
theorem part_probe_registers:
  assumes "length (blkdevs r) \<le> BLKDEV_MAX" and "part_count r \<le> PART_MAX"
    and "read_sector s (bd_drive disk) 0 = Some sec" and "sec ! 510 = 0x55" and "sec ! 511 = 0xAA"
  shows "let r' = part_probe s disk r;
       room = min (BLKDEV_MAX - length (blkdevs r)) (PART_MAX - part_count r)
    in blkdevs r' = blkdevs r @ take room (new_parts disk sec [0, 1, 2, 3]) \<and>
       devnodes r' = devnodes r @ map (node_of (blkdevs r')) [length (blkdevs r)..<length (blkdevs r')]"
proof -
  have "part_probe s disk r = part_loop disk sec [0, 1, 2, 3] r"
    using assms(3-5) by (simp add: part_probe_def del: part_loop.simps)
  then show ?thesis using part_loop_devs [OF assms(1,2)] by (simp only:)
qed

theorem part_probe_registers_witness:
  "map bd_name (blkdevs (part_probe
     (demo_disks\<lparr>media := \<lambda>d lba. replicate 446 0 @ replicate 32 1 @ replicate 32 0 @ [0x55, 0xAA]\<rparr>)
     \<lparr>bd_name = ''hdb'', sector_count = 100, bd_drive = Ata 1\<rparr>
     \<lparr>blkdevs = [], part_count = 15, devnodes = []\<rparr>)) = [''hdb1'']"
proof -
  let ?sec = "replicate 446 0 @ replicate 32 1 @ replicate 32 0 @ [0x55, 0xAA :: u8]"
  let ?s = "demo_disks\<lparr>media := \<lambda>d lba. ?sec\<rparr>"
  let ?d = "\<lparr>bd_name = ''hdb'', sector_count = 100, bd_drive = Ata 1\<rparr>"
  let ?r = "\<lparr>blkdevs = [], part_count = 15, devnodes = []\<rparr>"
  have "length (blkdevs ?r) \<le> BLKDEV_MAX" "part_count ?r \<le> PART_MAX"
    "read_sector ?s (bd_drive ?d) 0 = Some ?sec" "?sec ! 510 = 0x55" "?sec ! 511 = 0xAA"
    by (simp_all add: PART_MAX_def demo_disks_def nth_append)
  note * = part_probe_registers [OF this]
  have "e_type (mbr_table ?sec 0) = 1" "lba_count (mbr_table ?sec 0) \<noteq> 0"
    by (simp_all add: mbr_table_def nth_append Let_def le32_def)
  then have "\<exists>xs. new_parts ?d ?sec [0, 1, 2, 3] = \<lparr>bd_name = part_name ''hdb'' 0,
      sector_count = lba_count (mbr_table ?sec 0), bd_drive = Part (Ata 1) (lba_start (mbr_table ?sec 0))\<rparr> # xs"
    by (simp add: new_parts_def)
  moreover have "part_name ''hdb'' 0 = ''hdb1''" by code_simp
  ultimately show ?thesis using * by (auto simp: Let_def BLKDEV_MAX_def PART_MAX_def)
qed

end
