(* ===== verification/Symtab.thy ===== *)
theory Symtab
  imports Prelude
begin

text \<open>
  The kernel's symbol lookup (\<open>kernel/symtab.c\<close>): a binary search in the table the build
  generates, which is an argument here. Indices are natural numbers: the table is shorter
  than \<open>2 ^ 32\<close> entries, so \<open>hi - lo + 1\<close> does not wrap.
\<close>

type_synonym ksym = "u32 \<times> string"

function ksym_loop :: "ksym list \<Rightarrow> u32 \<Rightarrow> nat \<Rightarrow> nat \<Rightarrow> nat" where
  "ksym_loop tab addr lo hi =
     (if lo < hi then
        let mid = lo + (hi - lo + 1) div 2 in
        if fst (tab ! mid) \<le> addr then ksym_loop tab addr mid hi
        else ksym_loop tab addr lo (mid - 1)
      else lo)"
  by pat_completeness auto
termination by (relation "measure (\<lambda>(tab, addr, lo, hi). hi - lo)") auto

declare ksym_loop.simps [simp del]

definition ksym_lookup :: "ksym list \<Rightarrow> u32 \<Rightarrow> ksym option" where
  "ksym_lookup tab addr =
     (if length tab = 0 then None
      else let lo = ksym_loop tab addr 0 (length tab - 1) in
        if fst (tab ! lo) \<le> addr then Some (tab ! lo) else None)"

text \<open>The loop invariant: everything past \<open>hi\<close> is above, everything up to \<open>lo\<close> is not.\<close>

lemma ksym_loop_inv:
  assumes "sorted (map fst tab)" and "lo \<le> hi" and "hi < length tab"
    and "\<And>i. hi < i \<Longrightarrow> i < length tab \<Longrightarrow> addr < fst (tab ! i)"
    and "lo = 0 \<or> fst (tab ! lo) \<le> addr"
  shows "ksym_loop tab addr lo hi < length tab \<and>
    (\<forall>i. ksym_loop tab addr lo hi < i \<longrightarrow> i < length tab \<longrightarrow> addr < fst (tab ! i)) \<and>
    (ksym_loop tab addr lo hi = 0 \<or> fst (tab ! ksym_loop tab addr lo hi) \<le> addr)"
  using assms
proof (induction tab addr lo hi rule: ksym_loop.induct)
  case (1 tab addr lo hi)
  let ?mid = "lo + (hi - lo + 1) div 2"
  show ?case
  proof (cases "lo < hi")
    case True
    have m: "lo < ?mid" "?mid \<le> hi" "lo \<le> ?mid - 1" "?mid - 1 < length tab" using True 1(5) by auto
    show ?thesis
    proof (cases "fst (tab ! ?mid) \<le> addr")
      case le: True
      have "ksym_loop tab addr lo hi = ksym_loop tab addr ?mid hi"
        using True le by (subst ksym_loop.simps) (simp add: Let_def)
      then show ?thesis using 1(1) [OF True refl le] 1(3-) m le by simp
    next
      case False
      have "addr < fst (tab ! i)" if "?mid - 1 < i" "i < length tab" for i
      proof -
        have "?mid \<le> i" using that(1) m(1) by linarith
        then have "map fst tab ! ?mid \<le> map fst tab ! i"
          using 1(3) that(2) by (intro sorted_nth_mono) auto
        with False that m 1(5) show ?thesis by auto
      qed
      moreover have "ksym_loop tab addr lo hi = ksym_loop tab addr lo (?mid - 1)"
        using True False by (subst ksym_loop.simps) (simp add: Let_def)
      ultimately show ?thesis using 1(2) [OF True refl False 1(3) m(3,4) _ 1(7)] by simp
    qed
  next
    case False
    then have "ksym_loop tab addr lo hi = lo" "lo = hi"
      using 1(4) by (subst ksym_loop.simps, simp_all)
    then show ?thesis using 1(3-7) by simp
  qed
qed

text \<open>
  On a table sorted by address the lookup returns the last symbol at or before the
  address, and nothing exactly when every symbol lies above it.
\<close>
theorem ksym_lookup_last:
  assumes "sorted (map fst tab)"
  shows "ksym_lookup tab addr =
    (case filter (\<lambda>e. fst e \<le> addr) tab of [] \<Rightarrow> None | e # es \<Rightarrow> Some (last (e # es)))"
proof (cases "tab = []")
  case True
  then show ?thesis by (simp add: ksym_lookup_def)
next
  case False
  define k where "k = ksym_loop tab addr 0 (length tab - 1)"
  have k: "k < length tab" "\<And>i. k < i \<Longrightarrow> i < length tab \<Longrightarrow> addr < fst (tab ! i)"
    "k = 0 \<or> fst (tab ! k) \<le> addr"
    using ksym_loop_inv [OF assms, of 0 "length tab - 1" addr] False unfolding k_def by auto
  have tab: "tab = take k tab @ tab ! k # drop (Suc k) tab" using k(1) by (rule id_take_nth_drop)
  have "addr < fst e" if e: "e \<in> set (drop (Suc k) tab)" for e
  proof -
    from e obtain i where "e = tab ! (Suc k + i)" "Suc k + i < length tab"
      by (auto simp: in_set_conv_nth)
    then show ?thesis using k(2) [of "Suc k + i"] by simp
  qed
  then have "filter (\<lambda>e. fst e \<le> addr) (drop (Suc k) tab) = []"
    by (auto simp: filter_empty_conv not_le)
  then have f: "filter (\<lambda>e. fst e \<le> addr) tab
      = filter (\<lambda>e. fst e \<le> addr) (take k tab) @ (if fst (tab ! k) \<le> addr then [tab ! k] else [])"
    by (subst tab) simp
  have l: "ksym_lookup tab addr = (if fst (tab ! k) \<le> addr then Some (tab ! k) else None)"
    using False by (simp add: ksym_lookup_def k_def Let_def)
  show ?thesis
  proof (cases "fst (tab ! k) \<le> addr")
    case True
    then show ?thesis unfolding l using f
      by (cases "filter (\<lambda>e. fst e \<le> addr) (take k tab)") auto
  next
    case gt: False
    then have "k = 0" using k(3) by simp
    then show ?thesis unfolding l using f gt by simp
  qed
qed

theorem ksym_lookup_last_witness:
  "ksym_lookup [(16, ''a''), (32, ''b''), (48, ''c'')] 40 = Some (32, ''b'')"
  by (subst ksym_lookup_last) simp_all

end
