(* ===== verification/Env_Dev.thy ===== *)
theory Env_Dev
  imports Task_Types
begin

text \<open>
  The environment device \<open>/dev/env\<close> (\<open>kernel/env_dev.c\<close>): a table of \<open>NAME=VAL\<close>
  strings in the task struct, read and changed through ioctl requests. The result of a
  request is the return value, the value string delivered, and the task.
\<close>

section \<open>The table\<close>

text \<open>\<open>while (e[j] && e[j] != '=' && j < nlen) j++\<close>: the index and the text from it on.\<close>

fun scan_name :: "nat \<Rightarrow> nat \<Rightarrow> string \<Rightarrow> nat \<times> string" where
  "scan_name nlen j [] = (j, [])"
| "scan_name nlen j (c # e) = (if c \<noteq> CHR ''='' \<and> j < nlen then scan_name nlen (j + 1) e else (j, c # e))"

definition entry_matches :: "string \<Rightarrow> string \<Rightarrow> bool" where
  "entry_matches name e =
     (case scan_name (length name) 0 e of (j, r) \<Rightarrow> j = length name \<and> r \<noteq> [] \<and> hd r = CHR ''='')"

fun find_from :: "string \<Rightarrow> string list \<Rightarrow> nat \<Rightarrow> nat \<Rightarrow> nat option" where
  "find_from name env i 0 = None"
| "find_from name env i (Suc n) =
     (if entry_matches name (env ! i) then Some i else find_from name env (i + 1) n)"

definition environ_find :: "task \<Rightarrow> string \<Rightarrow> nat option" where
  "environ_find t name = find_from name (environ t) 0 (environ_count t)"

section \<open>The requests\<close>

definition TASK_ENV_MAX :: nat where "TASK_ENV_MAX = 32"
definition TASK_ENV_LEN :: nat where "TASK_ENV_LEN = 128"

text \<open>\<open>struct env_op\<close>, its strings up to their NUL.\<close>

record env_op =
  op_index :: int
  op_overwrite :: int
  op_name :: string
  op_val :: string

definition env_value :: "string \<Rightarrow> string" where
  "env_value e = (case dropWhile (\<lambda>c. c \<noteq> CHR ''='') e of [] \<Rightarrow> [] | c # v \<Rightarrow> v)"

definition env_get :: "task \<Rightarrow> string \<Rightarrow> string option" where
  "env_get t name =
     (case environ_find t name of None \<Rightarrow> None
      | Some idx \<Rightarrow> Some (take 127 (env_value (environ t ! idx))))"

text \<open>The string stored: name and value cut to the 127 characters of an entry.\<close>

definition env_entry :: "string \<Rightarrow> string \<Rightarrow> string" where
  "env_entry name v =
     (let dst = take (TASK_ENV_LEN - 2) name @ ''='' in dst @ take (TASK_ENV_LEN - 1 - length dst) v)"

definition env_set :: "task \<Rightarrow> env_op \<Rightarrow> int \<times> task" where
  "env_set t op =
     (if CHR ''='' \<in> set (op_name op) then (-1, t)
      else case environ_find t (op_name op) of
        Some idx \<Rightarrow>
          if op_overwrite op = 0 then (0, t)
          else (0, t\<lparr>environ := (environ t)[idx := env_entry (op_name op) (op_val op)]\<rparr>)
      | None \<Rightarrow>
          if environ_count t \<ge> TASK_ENV_MAX then (-1, t)
          else (0, t\<lparr>environ := (environ t)[environ_count t := env_entry (op_name op) (op_val op)],
                     environ_count := environ_count t + 1\<rparr>))"

text \<open>The shift loop: entry \<open>i\<close> takes the value of entry \<open>i + 1\<close>, from \<open>idx\<close> up.\<close>

fun shift_down :: "nat \<Rightarrow> nat \<Rightarrow> string list \<Rightarrow> string list" where
  "shift_down i 0 env = env"
| "shift_down i (Suc n) env = shift_down (i + 1) n (env[i := env ! (i + 1)])"

definition env_unset :: "task \<Rightarrow> string \<Rightarrow> int \<times> task" where
  "env_unset t name =
     (case environ_find t name of
        None \<Rightarrow> (0, t)
      | Some idx \<Rightarrow>
          (0, t\<lparr>environ := shift_down idx (environ_count t - 1 - idx) (environ t),
                environ_count := environ_count t - 1\<rparr>))"

definition env_control_op :: "u32 \<Rightarrow> nat \<Rightarrow> env_op \<Rightarrow> task \<Rightarrow> int \<times> string option \<times> task" where
  "env_control_op arg request op t =
     (if \<not> user_access_ok arg 200 then (-1, None, t)
      else if request = 1 then
        (case env_get t (op_name op) of None \<Rightarrow> (-1, None, t) | Some v \<Rightarrow> (0, Some v, t))
      else if request = 2 then (case env_set t op of (r, t) \<Rightarrow> (r, None, t))
      else if request = 3 then (case env_unset t (op_name op) of (r, t) \<Rightarrow> (r, None, t))
      else if request = 4 then
        (if op_index op < 0 \<or> op_index op \<ge> int (environ_count t) then (-1, None, t)
         else (0, Some (take 127 (environ t ! nat (op_index op))), t))
      else (-1, None, t))"

section \<open>Lemmas\<close>

text \<open>The name of an entry; the comparison looks at its length only.\<close>

definition name_of :: "string \<Rightarrow> string" where
  "name_of e = takeWhile (\<lambda>c. c \<noteq> CHR ''='') e"

lemma scan_name_result:
  "j \<le> nlen \<Longrightarrow> scan_name nlen j e =
     (j + min (nlen - j) (length (name_of e)), drop (min (nlen - j) (length (name_of e))) e)"
proof (induction nlen j e rule: scan_name.induct)
  case (2 nlen j c e)
  show ?case
  proof (cases "c \<noteq> CHR ''='' \<and> j < nlen")
    case True
    then have "nlen - j = Suc (nlen - (j + 1))" by (simp add: Suc_diff_Suc)
    with True 2 show ?thesis by (simp add: name_of_def)
  next
    case False
    with 2 show ?thesis by (auto simp: name_of_def)
  qed
qed (simp add: name_of_def)

lemma drop_name_of: "drop (length (name_of e)) e = dropWhile (\<lambda>c. c \<noteq> CHR ''='') e"
  by (simp add: name_of_def dropWhile_eq_drop)

lemma drop_within_name:
  assumes "n < length (name_of e)"
  shows "hd (drop n e) \<noteq> CHR ''=''"
proof -
  have "n < length e" using assms length_takeWhile_le [of "\<lambda>c. c \<noteq> CHR ''=''" e] by (simp add: name_of_def)
  then have "hd (drop n e) = name_of e ! n"
    using assms by (simp add: hd_drop_conv_nth name_of_def takeWhile_nth)
  moreover have "name_of e ! n \<in> set (name_of e)" using assms by simp
  ultimately show ?thesis by (auto simp: name_of_def dest: set_takeWhileD)
qed

lemma entry_matches_iff:
  "entry_matches name e \<longleftrightarrow> length (name_of e) = length name \<and> CHR ''='' \<in> set e"
proof -
  have hd: "hd (dropWhile (\<lambda>c. c \<noteq> CHR ''='') e) = CHR ''=''" if "dropWhile (\<lambda>c. c \<noteq> CHR ''='') e \<noteq> []"
    using hd_dropWhile [OF that] by simp
  show ?thesis
  proof (cases "length name < length (name_of e)")
    case True
    then show ?thesis using drop_within_name [OF True]
      by (auto simp: entry_matches_def scan_name_result)
  next
    case False
    then show ?thesis using hd
      by (auto simp: entry_matches_def scan_name_result drop_name_of dropWhile_eq_Nil_conv)
  qed
qed

lemma find_from_find: "find_from name env i n = find (\<lambda>k. entry_matches name (env ! k)) [i..<i + n]"
proof (induction name env i n rule: find_from.induct)
  case (2 name env i n)
  have "[i..<i + Suc n] = i # [i + 1..<i + 1 + n]" by (simp add: upt_conv_Cons del: upt_Suc)
  with 2 show ?case by (simp del: upt_Suc)
qed simp

lemma environ_find_find:
  "environ_find t name = find (\<lambda>k. entry_matches name (environ t ! k)) [0..<environ_count t]"
  by (simp add: environ_find_def find_from_find)

lemma env_entry_name:
  assumes "CHR ''='' \<notin> set name" and "length name \<le> 126"
  shows "env_entry name v = name @ CHR ''='' # take (126 - length name) v"
    and "name_of (env_entry name v) = name"
    and "env_value (env_entry name v) = take (126 - length name) v"
    and "entry_matches n (env_entry name v) \<longleftrightarrow> length n = length name"
proof -
  show e: "env_entry name v = name @ CHR ''='' # take (126 - length name) v"
    using assms(2) by (simp add: env_entry_def TASK_ENV_LEN_def Let_def)
  have all: "\<forall>c \<in> set name. c \<noteq> CHR ''=''" using assms(1) by auto
  then show n: "name_of (env_entry name v) = name"
    unfolding e name_of_def by (simp add: takeWhile_append2)
  show "env_value (env_entry name v) = take (126 - length name) v"
    unfolding e env_value_def using all by (simp add: dropWhile_append2)
  show "entry_matches n (env_entry name v) \<longleftrightarrow> length n = length name"
    unfolding entry_matches_iff n by (auto simp: e)
qed

lemma find_upt: "find P [0..<n] = Some k \<longleftrightarrow> k < n \<and> P k \<and> (\<forall>j<k. \<not> P j)"
  by (auto simp: find_Some_iff)

lemma environ_find_Some:
  "environ_find t name = Some k \<longleftrightarrow> k < environ_count t \<and> entry_matches name (environ t ! k) \<and>
     (\<forall>j<k. \<not> entry_matches name (environ t ! j))"
  by (simp add: environ_find_find find_upt)

lemma environ_find_None:
  "environ_find t name = None \<longleftrightarrow> (\<forall>j<environ_count t. \<not> entry_matches name (environ t ! j))"
  by (auto simp: environ_find_find find_None_iff)

section \<open>Properties\<close>

text \<open>
  A variable that was set is read back with its value, cut only where name and value
  exceed an entry, for every name that fits and holds no equals sign.
\<close>
theorem env_set_get:
  assumes "CHR ''='' \<notin> set (op_name op)" and "length (op_name op) \<le> 126" and "op_overwrite op \<noteq> 0"
    and "length (environ t) = TASK_ENV_MAX" and "environ_count t \<le> TASK_ENV_MAX"
    and "env_set t op = (0, t')"
  shows "env_get t' (op_name op) = Some (take (126 - length (op_name op)) (op_val op))"
proof -
  let ?n = "op_name op" and ?v = "op_val op"
  note ent = env_entry_name [OF assms(1,2)]
  have "\<exists>idx. environ_find t' ?n = Some idx \<and> environ t' ! idx = env_entry ?n ?v"
  proof (cases "environ_find t ?n")
    case None
    with assms(6) have room: "environ_count t < TASK_ENV_MAX" and
      t': "t' = t\<lparr>environ := (environ t)[environ_count t := env_entry ?n ?v], environ_count := environ_count t + 1\<rparr>"
      using assms(1) by (auto simp: env_set_def split: if_splits)
    have "environ_find t' ?n = Some (environ_count t)"
      using None room assms(4) ent(4) [of ?n ?v]
      by (auto simp: environ_find_Some environ_find_None t')
    then show ?thesis using room assms(4) by (auto simp: t')
  next
    case (Some idx)
    with assms(1,3,6) have t': "t' = t\<lparr>environ := (environ t)[idx := env_entry ?n ?v]\<rparr>"
      by (auto simp: env_set_def split: if_splits)
    have "idx < environ_count t" using Some by (simp add: environ_find_Some)
    then have lt: "idx < length (environ t)" using assms(4,5) by simp
    then have "environ_find t' ?n = Some idx"
      using Some ent(4) [of ?n ?v] by (simp add: environ_find_Some t')
    then show ?thesis using lt by (auto simp: t')
  qed
  then show ?thesis using ent(3) [of ?v] by (auto simp: env_get_def)
qed

definition demo_env_task :: task where
  "demo_env_task = zero_task\<lparr>environ := replicate TASK_ENV_MAX []\<rparr>"

theorem env_set_get_witness:
  "env_get (snd (env_set demo_env_task \<lparr>op_index = 0, op_overwrite = 1, op_name = ''HOME'', op_val = ''/r''\<rparr>)) ''HOME''
     = Some ''/r''"
proof -
  let ?op = "\<lparr>op_index = 0, op_overwrite = 1, op_name = ''HOME'', op_val = ''/r''\<rparr>"
  have "fst (env_set demo_env_task ?op) = 0"
    by (simp add: env_set_def environ_find_find demo_env_task_def zero_task_def TASK_ENV_MAX_def)
  then have s: "env_set demo_env_task ?op = (0, snd (env_set demo_env_task ?op))" by (simp add: prod_eq_iff)
  have "env_get (snd (env_set demo_env_task ?op)) (op_name ?op)
      = Some (take (126 - length (op_name ?op)) (op_val ?op))"
    by (rule env_set_get [OF _ _ _ _ _ s]) (simp_all add: demo_env_task_def zero_task_def)
  then show ?thesis by simp
qed

text \<open>
  The search compares the length of the name only: names of the same length are the
  same variable to every request, so setting one overwrites the other and unsetting one
  removes the other.
\<close>
theorem env_name_clash:
  assumes "length name = length name'"
  shows "env_get t name = env_get t name' \<and> env_unset t name = env_unset t name' \<and>
    (CHR ''='' \<notin> set name' \<longrightarrow> length name' \<le> 126 \<longrightarrow> environ_count t \<le> TASK_ENV_MAX \<longrightarrow>
     length (environ t) = TASK_ENV_MAX \<longrightarrow> environ_find t name \<noteq> None \<longrightarrow>
     env_get (snd (env_set t \<lparr>op_index = 0, op_overwrite = 1, op_name = name', op_val = v\<rparr>)) name
       = Some (take (126 - length name) v))"
proof -
  have f: "environ_find u name = environ_find u name'" for u
    using assms by (simp add: environ_find_find entry_matches_iff)
  have "env_get (snd (env_set t \<lparr>op_index = 0, op_overwrite = 1, op_name = name', op_val = v\<rparr>)) name
       = Some (take (126 - length name) v)"
    if "CHR ''='' \<notin> set name'" "length name' \<le> 126" "environ_count t \<le> TASK_ENV_MAX"
      "length (environ t) = TASK_ENV_MAX" "environ_find t name \<noteq> None"
  proof -
    let ?op = "\<lparr>op_index = 0, op_overwrite = 1, op_name = name', op_val = v\<rparr>"
    obtain idx where idx: "environ_find t name' = Some idx"
      using \<open>environ_find t name \<noteq> None\<close> f [of t] by auto
    then have lt: "idx < length (environ t)" using that by (simp add: environ_find_Some)
    define t' where "t' = t\<lparr>environ := (environ t)[idx := env_entry name' v]\<rparr>"
    have s: "env_set t ?op = (0, t')" using idx that by (simp add: env_set_def t'_def)
    note ent = env_entry_name [OF that(1,2)]
    have "environ_find t' name' = Some idx"
      using idx lt ent(4) [of name' v] by (simp add: environ_find_Some t'_def)
    then have "environ_find t' name = Some idx" using f by simp
    then show ?thesis using lt ent(3) [of v] assms by (simp add: s env_get_def) (simp add: t'_def)
  qed
  then show ?thesis using f by (simp add: env_get_def env_unset_def)
qed

theorem env_name_clash_witness:
  "env_get (snd (env_set (snd (env_set demo_env_task \<lparr>op_index = 0, op_overwrite = 1, op_name = ''HOME'', op_val = ''/r''\<rparr>))
     \<lparr>op_index = 0, op_overwrite = 1, op_name = ''PATH'', op_val = ''/b''\<rparr>)) ''HOME'' = Some ''/b''"
proof -
  let ?t = "snd (env_set demo_env_task \<lparr>op_index = 0, op_overwrite = 1, op_name = ''HOME'', op_val = ''/r''\<rparr>)"
  have t: "?t = demo_env_task\<lparr>environ := (environ demo_env_task)[0 := env_entry ''HOME'' ''/r''], environ_count := 1\<rparr>"
    by (simp add: env_set_def environ_find_find demo_env_task_def zero_task_def TASK_ENV_MAX_def)
  have "environ_find ?t ''HOME'' = Some 0"
    unfolding t using env_entry_name(4) [of "''HOME''" "''HOME''" "''/r''"]
    by (simp add: environ_find_Some demo_env_task_def TASK_ENV_MAX_def)
  moreover have "environ_count ?t \<le> TASK_ENV_MAX" "length (environ ?t) = TASK_ENV_MAX"
    unfolding t by (simp_all add: demo_env_task_def TASK_ENV_MAX_def)
  moreover have "length ''HOME'' = length ''PATH''" by simp
  ultimately show ?thesis using env_name_clash [of "''HOME''" "''PATH''" ?t "''/b''"] by simp
qed

end
