(* ===== verification/Cmdline.thy ===== *)
theory Cmdline
  imports Prelude
begin

text \<open>
  The kernel command line (\<open>kernel/cmdline.c\<close>): the raw text, and the key-value pairs of
  its space-separated tokens. The parser cuts its working copy in place; here the pieces
  are the strings it leaves.
\<close>

definition CMDLINE_MAX :: nat where "CMDLINE_MAX = 256"
definition PARAM_MAX :: nat where "PARAM_MAX = 16"

record cmdline_state =
  raw_buf :: string
  params :: "(string \<times> string) list"

fun skip_spaces :: "string \<Rightarrow> string" where
  "skip_spaces [] = []"
| "skip_spaces (c # p) = (if c = CHR '' '' then skip_spaces p else c # p)"

text \<open>The token up to the next space, and the text after that space.\<close>

fun take_token :: "string \<Rightarrow> string \<times> string" where
  "take_token [] = ([], [])"
| "take_token (c # p) =
     (if c = CHR '' '' then ([], p) else case take_token p of (tok, r) \<Rightarrow> (c # tok, r))"

text \<open>The key and the value; a token without an equals sign has the empty value.\<close>

fun split_eq :: "string \<Rightarrow> string \<times> string" where
  "split_eq [] = ([], [])"
| "split_eq (c # tok) =
     (if c = CHR ''='' then ([], tok) else case split_eq tok of (k, v) \<Rightarrow> (c # k, v))"

lemma skip_spaces_le: "length (skip_spaces p) \<le> length p"
  by (induction p) auto

lemma take_token_le: "length (snd (take_token p)) \<le> length p"
  by (induction p) (auto simp: split_beta)

function parse_loop :: "string \<Rightarrow> (string \<times> string) list \<Rightarrow> (string \<times> string) list" where
  "parse_loop p ps =
     (if p = [] \<or> length ps \<ge> PARAM_MAX then ps
      else case skip_spaces p of
        [] \<Rightarrow> ps
      | c # q \<Rightarrow> (case take_token (c # q) of (tok, r) \<Rightarrow> parse_loop r (ps @ [split_eq tok])))"
  by pat_completeness auto
termination
proof (relation "measure (\<lambda>(p, ps). length p)")
  fix p :: string and ps c q tok r
  assume a: "\<not> (p = [] \<or> PARAM_MAX \<le> length (ps :: (string \<times> string) list))"
    and s: "skip_spaces p = c # q" and t: "(tok, r) = take_token (c # q)"
  have "c \<noteq> CHR '' ''" using s by (induction p) (auto split: if_splits)
  then have "length r \<le> length q" using t take_token_le [of q] by (auto simp: split_beta)
  then show "((r, ps @ [split_eq tok]), (p, ps)) \<in> measure (\<lambda>(p, ps). length p)"
    using skip_spaces_le [of p] s by simp
qed simp

declare parse_loop.simps [simp del]

definition cmdline_init :: "string option \<Rightarrow> cmdline_state \<Rightarrow> cmdline_state" where
  "cmdline_init s st =
     (case s of
        None \<Rightarrow> st\<lparr>raw_buf := []\<rparr>
      | Some s \<Rightarrow>
          if s = [] then st\<lparr>raw_buf := []\<rparr>
          else let raw = take (CMDLINE_MAX - 1) s
               in st\<lparr>raw_buf := raw, params := parse_loop raw (params st)\<rparr>)"

definition cmdline_get :: "string \<Rightarrow> cmdline_state \<Rightarrow> string option" where
  "cmdline_get key st = map_option snd (find (\<lambda>p. fst p = key) (params st))"

definition cmdline_raw :: "cmdline_state \<Rightarrow> string" where
  "cmdline_raw st = raw_buf st"

section \<open>What the parser understands\<close>

text \<open>The text of a list of parameters, and the parameters it can carry.\<close>

definition param_text :: "string \<times> string \<Rightarrow> string" where
  "param_text p = fst p @ ''='' @ snd p @ '' ''"

definition plain_param :: "string \<times> string \<Rightarrow> bool" where
  "plain_param p \<longleftrightarrow> CHR '' '' \<notin> set (fst p) \<and> CHR ''='' \<notin> set (fst p) \<and> CHR '' '' \<notin> set (snd p)"

lemma take_token_space: "CHR '' '' \<notin> set tok \<Longrightarrow> take_token (tok @ CHR '' '' # r) = (tok, r)"
  by (induction tok) auto

lemma split_eq_plain: "CHR ''='' \<notin> set k \<Longrightarrow> split_eq (k @ CHR ''='' # v) = (k, v)"
  by (induction k) auto

lemma parse_loop_param:
  assumes "plain_param p" and "length ps < PARAM_MAX"
  shows "parse_loop (param_text p @ r) ps = parse_loop r (ps @ [p])"
proof -
  obtain k v where p: "p = (k, v)" by (cases p)
  have t: "param_text p @ r = (k @ CHR ''='' # v) @ CHR '' '' # r" by (simp add: p param_text_def)
  have "skip_spaces (param_text p @ r) = param_text p @ r"
    using assms(1) by (cases k) (auto simp: p param_text_def plain_param_def)
  moreover have "take_token (param_text p @ r) = (k @ CHR ''='' # v, r)"
    unfolding t using assms(1) by (intro take_token_space) (auto simp: p plain_param_def)
  moreover have "split_eq (k @ CHR ''='' # v) = p"
    using assms(1) by (simp add: p plain_param_def split_eq_plain)
  moreover have "param_text p @ r \<noteq> []" by (simp add: param_text_def)
  ultimately show ?thesis using assms(2)
    by (subst parse_loop.simps) (auto split: list.split)
qed

lemma parse_loop_params:
  "list_all plain_param xs \<Longrightarrow> parse_loop (concat (map param_text xs)) ps = ps @ take (PARAM_MAX - length ps) xs"
proof (induction xs arbitrary: ps)
  case Nil
  then show ?case by (simp add: parse_loop.simps)
next
  case (Cons x xs)
  show ?case
  proof (cases "length ps < PARAM_MAX")
    case True
    then have "PARAM_MAX - length ps = Suc (PARAM_MAX - length (ps @ [x]))" by simp
    with True Cons show ?thesis by (simp add: parse_loop_param)
  next
    case False
    then show ?thesis by (subst parse_loop.simps) simp
  qed
qed

text \<open>
  A command line of \<open>key=value\<close> parameters that fits the buffer is understood as
  written: the first sixteen are kept, and asking for a key yields the value of its first
  occurrence among them.
\<close>
theorem cmdline_roundtrip:
  assumes "list_all plain_param xs" and "length (concat (map param_text xs)) < CMDLINE_MAX"
    and "xs \<noteq> []" and "params st = []"
  shows "cmdline_get key (cmdline_init (Some (concat (map param_text xs))) st)
      = map_of (take PARAM_MAX xs) key \<and>
    cmdline_raw (cmdline_init (Some (concat (map param_text xs))) st) = concat (map param_text xs)"
proof -
  define c where "c = concat (map param_text xs)"
  have ne: "c \<noteq> []" using assms(3) by (cases xs) (auto simp: c_def param_text_def)
  have tk: "take (CMDLINE_MAX - 1) c = c" using assms(2) by (simp add: c_def)
  have pl: "parse_loop c [] = take PARAM_MAX xs"
    using parse_loop_params [OF assms(1), of "[]"] by (simp add: c_def)
  have "map_option snd (find (\<lambda>p. fst p = key) ys) = map_of ys key" for ys :: "(string \<times> string) list"
    by (induction ys) auto
  then show ?thesis
    unfolding c_def [symmetric] using ne tk pl assms(4)
    by (simp add: cmdline_get_def cmdline_init_def cmdline_raw_def Let_def)
qed

theorem cmdline_roundtrip_witness:
  "cmdline_get ''gui'' (cmdline_init (Some ''root=hda1 gui=off '') \<lparr>raw_buf = [], params = []\<rparr>) = Some ''off''"
proof -
  let ?xs = "[(''root'', ''hda1''), (''gui'', ''off'')]"
  have "list_all plain_param ?xs" "length (concat (map param_text ?xs)) < CMDLINE_MAX" "?xs \<noteq> []"
    "params \<lparr>raw_buf = [], params = []\<rparr> = []"
    by (simp_all add: plain_param_def param_text_def CMDLINE_MAX_def)
  from cmdline_roundtrip [OF this, of "''gui''"] show ?thesis by (simp add: param_text_def PARAM_MAX_def)
qed

end
