(* ===== verification/Task_Queue.thy ===== *)
theory Task_Queue
  imports Task_Types
begin

text \<open>
  The scheduler queue and the life of a task (\<open>kernel/task.c\<close>): the integrity check, the
  insertion by priority, the creation of tasks and of a forked child's struct, and
  \<open>task_kill\<close>. What the memory manager and the ELF loader hand to these functions is an
  argument; what they ask of the pipe table, the GUI hook and the memory manager is a list
  of effects.
\<close>

section \<open>The integrity check\<close>

definition task_check :: "tptr \<Rightarrow> 'a sched_state_scheme \<Rightarrow> fault + unit" where
  "task_check t s =
     (if magic (task_at s t) = TASK_MAGIC_DEAD
        then Inl (Panic ''use-after-free: task struct accessed after kill'')
      else if magic (task_at s t) \<noteq> TASK_MAGIC then Inl (Panic ''task struct magic corrupted'')
      else Inr ())"

fun verify_loop :: "nat \<Rightarrow> 'a sched_state_scheme \<Rightarrow> tptr option \<Rightarrow> tptr option \<Rightarrow> bool \<Rightarrow> fault + unit" where
  "verify_loop n s None prev found_idle =
     (if found_idle then Inr () else Inl (Panic ''sched_queue_verify: idle_task not in queue''))"
| "verify_loop 0 s (Some t) prev found_idle =
     Inl (Panic ''sched_queue_verify: queue loop or runaway length'')"
| "verify_loop (Suc n) s (Some t) prev found_idle =
     bindE (task_check t s) (\<lambda>_.
       if t_prev (task_at s t) \<noteq> prev
         then Inl (Panic ''sched_queue_verify: prev/next cross-link broken'')
       else verify_loop n s (t_next (task_at s t)) (Some t)
              (found_idle \<or> pid (task_at s t) = PID_IDLE))"

definition sched_queue_verify :: "'a sched_state_scheme \<Rightarrow> fault + unit" where
  "sched_queue_verify s = verify_loop QUEUE_BOUND s (sched_queue s) None False"

section \<open>Insertion\<close>

definition set_task :: "tptr \<Rightarrow> (task \<Rightarrow> task) \<Rightarrow> 'a sched_state_scheme \<Rightarrow> 'a sched_state_scheme" where
  "set_task t f s = s\<lparr>task_at := (task_at s)(t := f (task_at s t))\<rparr>"

definition insert_task_before :: "tptr \<Rightarrow> tptr \<Rightarrow> 'a sched_state_scheme \<Rightarrow> fault + 'a sched_state_scheme" where
  "insert_task_before new_task new_next s =
     bindE (task_check new_task s) (\<lambda>_. bindE (task_check new_next s) (\<lambda>_.
       let new_prev = t_prev (task_at s new_next);
           s = set_task new_task (\<lambda>t. t\<lparr>t_next := Some new_next\<rparr>) s;
           s = set_task new_next (\<lambda>t. t\<lparr>t_prev := Some new_task\<rparr>) s;
           s = (case new_prev of
                  None \<Rightarrow> (set_task new_task (\<lambda>t. t\<lparr>t_prev := None\<rparr>) s)\<lparr>sched_queue := Some new_task\<rparr>
                | Some p \<Rightarrow> set_task new_task (\<lambda>t. t\<lparr>t_prev := Some p\<rparr>)
                              (set_task p (\<lambda>t. t\<lparr>t_next := Some new_task\<rparr>) s))
       in bindE (sched_queue_verify s) (\<lambda>_. Inr s)))"

text \<open>Where a task of priority \<open>prio\<close> goes: before a node, or after the last one.\<close>

datatype place = Before tptr | After tptr

fun insert_place :: "nat \<Rightarrow> 'a sched_state_scheme \<Rightarrow> int \<Rightarrow> tptr \<Rightarrow> fault + place" where
  "insert_place n s prio before =
     (if prio \<ge> prio_s (task_at s before) then Inr (Before before)
      else case t_next (task_at s before) of
        None \<Rightarrow> Inr (After before)
      | Some b \<Rightarrow> (case n of 0 \<Rightarrow> Inl Runaway | Suc n \<Rightarrow> insert_place n s prio b))"

declare insert_place.simps [simp del]

text \<open>The body shared by the three creation functions and the fork.\<close>

definition insert_task_sorted :: "tptr \<Rightarrow> int \<Rightarrow> 'a sched_state_scheme \<Rightarrow> fault + 'a sched_state_scheme" where
  "insert_task_sorted t prio s =
     bindE (task_check t s) (\<lambda>_.
       case sched_queue s of
         None \<Rightarrow> Inl NullDeref
       | Some first \<Rightarrow>
           bindE (insert_place QUEUE_BOUND s prio first) (\<lambda>pl.
             case pl of
               Before b \<Rightarrow> insert_task_before t b s
             | After l \<Rightarrow>
                 (let s = set_task l (\<lambda>x. x\<lparr>t_next := Some t\<rparr>) s;
                      s = set_task t (\<lambda>x. x\<lparr>t_prev := Some l, t_next := None\<rparr>) s
                  in bindE (sched_queue_verify s) (\<lambda>_. Inr s))))"

section \<open>Creating tasks\<close>

text \<open>
  What the creation functions get from elsewhere: the clock, the new page directory, the
  kernel stack (\<open>None\<close> when it could not be allocated), the three device nodes (if they
  exist yet), and the ELF loader's entry point (0 for a failure), stack and break.
\<close>

record create_env =
  ce_now :: u32
  ce_page_dir :: u32
  ce_stack :: "u32 option"
  ce_std :: "(vptr \<times> vptr \<times> vptr) option"
  ce_elf_entry :: u32
  ce_user_sp :: u32
  ce_brk :: u32

definition open_std :: "vptr \<Rightarrow> vfs_fd \<Rightarrow> vfs_fd" where
  "open_std n f = f\<lparr>fd_open := True, fd_node := Some n, fd_offset := 0, fd_dir_idx := 0\<rparr>"

definition task_open_std_fds :: "(vptr \<times> vptr \<times> vptr) option \<Rightarrow> task \<Rightarrow> task" where
  "task_open_std_fds std t =
     (case std of None \<Rightarrow> t
      | Some (i, o1, e) \<Rightarrow>
          t\<lparr>fds := (fds t)[0 := open_std i (fds t ! 0), 1 := open_std o1 (fds t ! 1),
                            2 := open_std e (fds t ! 2)]\<rparr>)"

definition new_task_fields :: "create_env \<Rightarrow> string \<Rightarrow> int \<Rightarrow> u32 \<Rightarrow> nat option \<Rightarrow> task \<Rightarrow> task" where
  "new_task_fields env name prio p entry t =
     (let t = t\<lparr>magic := TASK_MAGIC, tname := take 31 name, pid := p, created := ce_now env,
                prio_s := prio, prio_d := prio, t_entry := entry, page_dir_phys := ce_page_dir env,
                t_prev := None, t_next := None, fds := replicate VFS_FD_MAX closed_fd\<rparr>;
          t = task_open_std_fds (ce_std env) t
      in t\<lparr>ppid := 0, wait_pid := -1, wait_done := False, cwd := ''/'', environ_count := 0\<rparr>)"

text \<open>
  The frame built on a new kernel stack, from the top of the stack down: what \<open>iret\<close>,
  \<open>addl $12\<close>, \<open>popal\<close> and \<open>pop ds\<close> of \<open>trapret\<close> will take.
\<close>

definition kernel_frame :: "u32 \<Rightarrow> u32 list" where
  "kernel_frame wrapper = [0x202, 0x08, wrapper, 0, 0, 0xC0FFEE] @ replicate 8 0 @ [0x10]"

definition user_frame :: "u32 \<Rightarrow> u32 \<Rightarrow> u32 list" where
  "user_frame entry_point user_sp =
     [0x23, user_sp, 0x202, 0x1B, entry_point, 0, 0, 0xC0FFEE] @ replicate 8 0 @ [0x23]"

definition frame_esp :: "u32 \<Rightarrow> u32 list \<Rightarrow> u32" where
  "frame_esp stack frame = stack + TASK_STACK_SIZE - 4 * of_nat (length frame)"

definition setup_task_stack :: "create_env \<Rightarrow> u32 \<Rightarrow> task \<Rightarrow> fault + task" where
  "setup_task_stack env wrapper t =
     (case ce_stack env of
        None \<Rightarrow> Inl (Panic ''setup_task_stack: kstack_alloc failed'')
      | Some stack \<Rightarrow> Inr (t\<lparr>stack_base := stack, stack_hwm := stack + TASK_STACK_SIZE,
                               esp := frame_esp stack (kernel_frame wrapper)\<rparr>))"

definition setup_user_task_stack :: "create_env \<Rightarrow> u32 \<Rightarrow> u32 \<Rightarrow> task \<Rightarrow> fault + task" where
  "setup_user_task_stack env entry_point user_sp t =
     (case ce_stack env of
        None \<Rightarrow> Inl (Panic ''setup_user_task_stack: kstack_alloc failed'')
      | Some stack \<Rightarrow> Inr (t\<lparr>stack_base := stack, esp := frame_esp stack (user_frame entry_point user_sp)\<rparr>))"

definition prio_range :: "int \<Rightarrow> bool" where
  "prio_range prio = (SCHED_LEVEL_MIN \<le> prio \<and> prio \<le> SCHED_LEVEL_MAX)"

definition create_task :: "create_env \<Rightarrow> u32 \<Rightarrow> tptr \<Rightarrow> string \<Rightarrow> int \<Rightarrow> nat \<Rightarrow>
    'a sched_state_scheme \<Rightarrow> fault + 'a sched_state_scheme" where
  "create_task env wrapper t name prio entry s =
     (if \<not> prio_range prio then Inl (Panic ''requested priority out of range'')
      else
        let s = s\<lparr>last_pid := last_pid s + 1\<rparr>;
            x = new_task_fields env name prio (last_pid s) (Some entry) (task_at s t)
        in bindE (setup_task_stack env wrapper x) (\<lambda>x.
             insert_task_sorted t prio (set_task t (\<lambda>_. x) s)))"

definition create_elf_task :: "create_env \<Rightarrow> tptr \<Rightarrow> string \<Rightarrow> int \<Rightarrow>
    'a sched_state_scheme \<Rightarrow> fault + 'a sched_state_scheme" where
  "create_elf_task env t name prio s =
     (if \<not> prio_range prio then Inl (Panic ''requested priority out of range'')
      else
        let s = s\<lparr>last_pid := last_pid s + 1\<rparr>;
            x = new_task_fields env name prio (last_pid s) None (task_at s t)
        in if ce_elf_entry env = 0 then Inl (Panic ''create_elf_task: ELF load failed'')
           else bindE (setup_user_task_stack env (ce_elf_entry env) (ce_user_sp env)
                        (x\<lparr>brk := ce_brk env\<rparr>)) (\<lambda>x.
             insert_task_sorted t prio (set_task t (\<lambda>_. x) s)))"

definition USER_STACK_TOP :: u32 where "USER_STACK_TOP = 0xBFFFF000"

text \<open>The code is copied to one page at the start of the user space.\<close>

definition create_user_task :: "create_env \<Rightarrow> tptr \<Rightarrow> string \<Rightarrow> int \<Rightarrow> nat \<Rightarrow>
    'a sched_state_scheme \<Rightarrow> fault + 'a sched_state_scheme" where
  "create_user_task env t name prio code_size s =
     (if \<not> prio_range prio then Inl (Panic ''requested priority out of range'')
      else if code_size > 4096 then Inl (Panic ''create_user_task: code exceeds one page'')
      else
        let s = s\<lparr>last_pid := last_pid s + 1\<rparr>;
            x = new_task_fields env name prio (last_pid s) None (task_at s t)
        in bindE (setup_user_task_stack env USER_SPACE_START USER_STACK_TOP x) (\<lambda>x.
             insert_task_sorted t prio (set_task t (\<lambda>_. x) s)))"

definition spawn_init :: "create_env \<Rightarrow> tptr \<Rightarrow> 'a sched_state_scheme \<Rightarrow> fault + 'a sched_state_scheme" where
  "spawn_init env t s =
     bindE (create_elf_task env t ''init'' 5 s) (\<lambda>s. Inr (set_task t (\<lambda>x. x\<lparr>pid := PID_INIT\<rparr>) s))"

definition respawn_init :: "create_env \<Rightarrow> tptr \<Rightarrow> 'a sched_state_scheme \<Rightarrow> fault + 'a sched_state_scheme" where
  "respawn_init env t s = spawn_init env t (set_task t (\<lambda>_. zero_task) s)"

definition init_task :: "tptr \<Rightarrow> u32 \<Rightarrow> 'a sched_state_scheme \<Rightarrow> 'a sched_state_scheme" where
  "init_task t kernel_dir s =
     (set_task t (\<lambda>_. zero_task\<lparr>magic := TASK_MAGIC, tname := ''idle'', pid := PID_IDLE,
        prio_s := SCHED_LEVEL_IDLE, prio_d := SCHED_LEVEL_IDLE, page_dir_phys := kernel_dir,
        wait_pid := -1\<rparr>) s)\<lparr>sched_queue := Some t, running_task := Some t\<rparr>"

section \<open>Fork and exec\<close>

text \<open>
  \<open>task_fork\<close>: the child's struct and its place in the queue. \<open>frame\<close> is the address of the
  parent's trap frame, \<open>clone\<close> the cloned page directory, and \<open>child\<close> the struct \<open>kmalloc\<close>
  returned (\<open>None\<close> when it failed). The copy of the kernel stack is not part of the state.
\<close>

definition fork_struct :: "create_env \<Rightarrow> u32 \<Rightarrow> u32 \<Rightarrow> u32 \<Rightarrow> task \<Rightarrow> task" where
  "fork_struct env p frame stack parent =
     parent\<lparr>pid := p, ppid := pid parent, created := ce_now env, wait_pid := -1, wait_done := False,
       t_prev := None, t_next := None, page_dir_phys := ce_page_dir env, stack_base := stack,
       stack_hwm := stack + TASK_STACK_SIZE, esp := stack + (frame - stack_base parent)\<rparr>"

definition task_fork :: "create_env \<Rightarrow> u32 \<Rightarrow> tptr option \<Rightarrow> 'a sched_state_scheme \<Rightarrow>
    fault + tptr option \<times> 'a sched_state_scheme" where
  "task_fork env frame child s =
     (case child of
        None \<Rightarrow> Inr (None, s)
      | Some c \<Rightarrow>
         (case running_task s of
            None \<Rightarrow> Inl NullDeref
          | Some r \<Rightarrow>
              bindE (task_check r s) (\<lambda>_.
                let s = s\<lparr>last_pid := last_pid s + 1\<rparr> in
                case ce_stack env of
                  None \<Rightarrow> Inr (None, s)
                | Some stack \<Rightarrow>
                    let x = fork_struct env (last_pid s) frame stack (task_at s r)
                    in bindE (insert_task_sorted c (prio_s x) (set_task c (\<lambda>_. x) s)) (\<lambda>s.
                         Inr (Some c, s)))))"

text \<open>The program name and the command line that \<open>task_exec\<close> stores.\<close>

fun after_slash :: "string \<Rightarrow> string \<Rightarrow> string" where
  "after_slash base [] = base"
| "after_slash base (c # p) = after_slash (if c = CHR ''/'' then p else base) p"

fun join_args :: "nat \<Rightarrow> string \<Rightarrow> string list \<Rightarrow> string" where
  "join_args i buf [] = buf"
| "join_args i buf (a # args) =
     (let buf = (if i > 0 \<and> length buf < 127 then buf @ '' '' else buf)
      in join_args (i + 1) (buf @ take (127 - length buf) a) args)"

definition exec_names :: "string list \<Rightarrow> task \<Rightarrow> task" where
  "exec_names argv t =
     (case argv of
        [] \<Rightarrow> t
      | a # args \<Rightarrow>
          (let base = after_slash a a
           in t\<lparr>tname := take 31 base, cmdline := join_args 0 [] (base # args)\<rparr>))"

section \<open>Killing a task\<close>

text \<open>What \<open>task_kill\<close> asks of other components, in order.\<close>

datatype effect = PipeClose vptr | DeathHook u32 | DestroyDir u32 | FreeStack u32

record kill_state = sched_state +
  effects :: "effect list"
  stale_stack :: "u32 option"

definition emit_effect :: "effect \<Rightarrow> kill_state \<Rightarrow> kill_state" where
  "emit_effect e s = s\<lparr>effects := effects s @ [e]\<rparr>"

fun close_fds :: "tptr \<Rightarrow> nat list \<Rightarrow> kill_state \<Rightarrow> kill_state" where
  "close_fds t [] s = s"
| "close_fds t (i # is) s =
     (let f = fds (task_at s t) ! i in
      if fd_open f then
        let s = set_task t (\<lambda>x. x\<lparr>fds := (fds x)[i := f\<lparr>fd_open := False, fd_node := None\<rparr>]\<rparr>) s
        in close_fds t is (case fd_node f of None \<Rightarrow> s | Some n \<Rightarrow> emit_effect (PipeClose n) s)
      else close_fds t is s)"

definition unlink_task :: "tptr \<Rightarrow> 'a sched_state_scheme \<Rightarrow> 'a sched_state_scheme" where
  "unlink_task t s =
     (let s = (case t_prev (task_at s t) of
                 Some p \<Rightarrow> set_task p (\<lambda>x. x\<lparr>t_next := t_next (task_at s t)\<rparr>) s
               | None \<Rightarrow> s\<lparr>sched_queue := t_next (task_at s t)\<rparr>)
      in case t_next (task_at s t) of
           Some n \<Rightarrow> set_task n (\<lambda>x. x\<lparr>t_prev := t_prev (task_at s t)\<rparr>) s
         | None \<Rightarrow> s)"

fun wake_waiters :: "u32 \<Rightarrow> int \<Rightarrow> tptr list \<Rightarrow> 'a sched_state_scheme \<Rightarrow> 'a sched_state_scheme" where
  "wake_waiters dead_pid status [] s = s"
| "wake_waiters dead_pid status (w # ws) s =
     wake_waiters dead_pid status ws
       (if wait_pid (task_at s w) = sint dead_pid
        then set_task w (\<lambda>x. x\<lparr>wait_pid := -1, wait_done := True, exit_status := status, prio_d := prio_s x\<rparr>) s
        else s)"

text \<open>
  The task to run after the running one was killed: the first that is not suspended, or,
  after a priority reset, the head of the queue.
\<close>

definition pick_next :: "tptr list \<Rightarrow> 'a sched_state_scheme \<Rightarrow> fault + tptr \<times> 'a sched_state_scheme" where
  "pick_next qs s =
     (case find (\<lambda>q. prio_d (task_at s q) \<noteq> SCHED_LEVEL_SUSP) qs of
        Some q \<Rightarrow> Inr (q, s)
      | None \<Rightarrow>
          let s = fold (\<lambda>q s. if pid (task_at s q) \<noteq> PID_IDLE
                              then set_task q (\<lambda>x. x\<lparr>prio_d := prio_s x\<rparr>) s else s) qs s
          in case qs of [] \<Rightarrow> Inl (Panic ''task_kill: no tasks left'') | q # _ \<Rightarrow> Inr (q, s))"

text \<open>
  \<open>kc_init\<close> is the struct of the init task, \<open>kc_env\<close> what its next incarnation is made of,
  and \<open>kc_kernel_dir\<close> the kernel's page directory. The result tells whether the killer is
  gone (control is in another task, and no caller of \<open>task_kill\<close> runs any more) or
  \<open>task_kill\<close> returned. The fuel is the depth of the recursion through children.
\<close>

record kill_ctx =
  kc_init :: tptr
  kc_env :: create_env
  kc_kernel_dir :: u32

definition MAX_CHILDREN :: nat where "MAX_CHILDREN = 64"

text \<open>
  \<open>struct trap_frame\<close>, without the entry of the ESP that \<open>pusha\<close> stores and the trap's
  number and error code. \<open>elf\<close> is the entry point (0 for a failure), the stack pointer and
  the break that \<open>elf_load\<close> returned for the new directory.
\<close>

record trap_frame =
  tf_ds :: u32
  tf_edi :: u32
  tf_esi :: u32
  tf_ebp :: u32
  tf_ebx :: u32
  tf_edx :: u32
  tf_ecx :: u32
  tf_eax :: u32
  tf_eip :: u32
  tf_cs :: u32
  tf_eflags :: u32
  tf_uesp :: u32
  tf_uss :: u32

definition exec_frame :: "u32 \<Rightarrow> u32 \<Rightarrow> trap_frame" where
  "exec_frame entry new_sp = \<lparr>tf_ds = 0x23, tf_edi = 0, tf_esi = 0, tf_ebp = 0, tf_ebx = 0, tf_edx = 0,
     tf_ecx = 0, tf_eax = 0, tf_eip = entry, tf_cs = 0x1B, tf_eflags = 0x202, tf_uesp = new_sp, tf_uss = 0x23\<rparr>"

definition task_exec :: "u32 \<Rightarrow> u32 \<times> u32 \<times> u32 \<Rightarrow> string list \<Rightarrow> trap_frame \<Rightarrow> kill_state \<Rightarrow>
    fault + int \<times> trap_frame \<times> kill_state" where
  "task_exec new_dir elf argv frame s =
     (case running_task s of
        None \<Rightarrow> Inl NullDeref
      | Some r \<Rightarrow>
          (let s = set_task r (exec_names argv) s;
               (entry, new_sp, new_brk) = elf
           in if entry = 0 then Inr (-1, frame, emit_effect (DestroyDir new_dir) s)
              else let old_dir = page_dir_phys (task_at s r);
                       s = set_task r (\<lambda>x. x\<lparr>page_dir_phys := new_dir, brk := new_brk\<rparr>) s
                   in Inr (0, exec_frame entry new_sp, emit_effect (DestroyDir old_dir) s)))"

text \<open>Everything up to the wake-up of the waiters: the pid and the stack of the dead task.\<close>

definition kill_self_part :: "kill_ctx \<Rightarrow> tptr \<Rightarrow> kill_state \<Rightarrow> fault + (u32 \<times> u32) \<times> kill_state" where
  "kill_self_part k t s =
     (if pid (task_at s t) = PID_IDLE then Inl (Panic ''task_kill: cannot kill idle task'')
      else
        let s = close_fds t [0..<VFS_FD_MAX] s in
        bindE (task_check t s) (\<lambda>_.
          let s = unlink_task t s;
              s = set_task t (\<lambda>x. x\<lparr>magic := TASK_MAGIC_DEAD\<rparr>) s
          in bindE (sched_queue_verify s) (\<lambda>_.
               let s = emit_effect (DeathHook (pid (task_at s t))) s;
                   dead_pid = pid (task_at s t);
                   dead_stack = stack_base (task_at s t);
                   s = (if page_dir_phys (task_at s t) \<noteq> kc_kernel_dir k
                        then emit_effect (DestroyDir (page_dir_phys (task_at s t))) s else s)
               in bindE (if t = kc_init k then respawn_init (kc_env k) t s else Inr s) (\<lambda>s.
                  case queue_nodes (sched_state.truncate s) of
                    None \<Rightarrow> Inl Runaway
                  | Some qs \<Rightarrow>
                      Inr ((dead_pid, dead_stack),
                           wake_waiters dead_pid (exit_status (task_at s t)) qs s)))))"

definition children_of :: "u32 \<Rightarrow> 'a sched_state_scheme \<Rightarrow> tptr list \<Rightarrow> tptr list" where
  "children_of dead_pid s qs = take MAX_CHILDREN (filter (\<lambda>c. ppid (task_at s c) = dead_pid) qs)"

fun task_kill :: "kill_ctx \<Rightarrow> nat \<Rightarrow> tptr \<Rightarrow> kill_state \<Rightarrow> fault + bool \<times> kill_state"
  and kill_others :: "kill_ctx \<Rightarrow> nat \<Rightarrow> tptr list \<Rightarrow> kill_state \<Rightarrow> fault + bool \<times> kill_state" where
  "task_kill k 0 t s = Inl Runaway"
| "task_kill k (Suc fuel) t s =
     bindE (kill_self_part k t s) (\<lambda>((dead_pid, dead_stack), s).
       case queue_nodes (sched_state.truncate s) of
         None \<Rightarrow> Inl Runaway
       | Some qs \<Rightarrow>
         let kids = children_of dead_pid s qs in
         bindE (kill_others k fuel kids s) (\<lambda>(gone, s).
           if gone then Inr (True, s)
           else if running_task s \<noteq> None \<and> the (running_task s) \<in> set kids
             then task_kill k fuel (the (running_task s)) s
           else if running_task s = Some t then
             (case queue_nodes (sched_state.truncate s) of
                None \<Rightarrow> Inl Runaway
              | Some qs \<Rightarrow>
                  bindE (pick_next qs s) (\<lambda>(q, s).
                    Inr (True, s\<lparr>prev_task := None, running_task := Some q, stale_stack := Some dead_stack\<rparr>)))
           else Inr (False, if dead_stack \<noteq> 0 then emit_effect (FreeStack dead_stack) s else s)))"
| "kill_others k fuel [] s = Inr (False, s)"
| "kill_others k fuel (c # cs) s =
     (if running_task s = Some c then kill_others k fuel cs s
      else bindE (task_kill k fuel c s) (\<lambda>(gone, s).
        if gone then Inr (True, s) else kill_others k fuel cs s))"

definition sched_free_stale_stack :: "kill_state \<Rightarrow> kill_state" where
  "sched_free_stale_stack s =
     (case stale_stack s of
        None \<Rightarrow> s
      | Some p \<Rightarrow> (let s = s\<lparr>stale_stack := None\<rparr> in if p = 0 then s else emit_effect (FreeStack p) s))"

section \<open>The queue as a doubly linked list\<close>

text \<open>
  \<open>dseg h prev p xs q\<close>: from \<open>p\<close>, whose predecessor is \<open>prev\<close>, the next pointers visit
  \<open>xs\<close> and end at \<open>q\<close>, and every node points back to the one before it.
\<close>

fun dseg :: "(tptr \<Rightarrow> task) \<Rightarrow> tptr option \<Rightarrow> tptr option \<Rightarrow> tptr list \<Rightarrow> tptr option \<Rightarrow> bool" where
  "dseg h prev p [] q \<longleftrightarrow> p = q"
| "dseg h prev p (x # xs) q \<longleftrightarrow> p = Some x \<and> t_prev (h x) = prev \<and> dseg h (Some x) (t_next (h x)) xs q"

definition last_ptr :: "tptr option \<Rightarrow> tptr list \<Rightarrow> tptr option" where
  "last_ptr prev xs = (if xs = [] then prev else Some (last xs))"

lemma last_ptr_simps [simp]:
  "last_ptr p [] = p" "last_ptr p (x # xs) = last_ptr (Some x) xs" "last_ptr p (xs @ [x]) = Some x"
  by (auto simp: last_ptr_def)

lemma dseg_append [simp]:
  "dseg h prev p (xs @ ys) q \<longleftrightarrow> (\<exists>r. dseg h prev p xs r \<and> dseg h (last_ptr prev xs) r ys q)"
  by (induction xs arbitrary: prev p) auto

lemma dseg_cong:
  "(\<And>x. x \<in> set xs \<Longrightarrow> t_next (h x) = t_next (h' x) \<and> t_prev (h x) = t_prev (h' x)) \<Longrightarrow>
     dseg h prev p xs q = dseg h' prev p xs q"
  by (induction xs arbitrary: prev p) auto

lemma dseg_linked: "dseg h prev p xs q \<Longrightarrow> lseg (next_of h) p xs q"
  by (induction xs arbitrary: prev p) auto

lemma dseg_distinct: "dseg h prev p xs None \<Longrightarrow> distinct xs"
  using dseg_linked linked_distinct by blast

definition queue_wf :: "'a sched_state_scheme \<Rightarrow> tptr list \<Rightarrow> bool" where
  "queue_wf s qs \<longleftrightarrow> dseg (task_at s) None (sched_queue s) qs None \<and> length qs \<le> QUEUE_BOUND \<and>
     (\<forall>q \<in> set qs. magic (task_at s q) = TASK_MAGIC) \<and> (\<exists>q \<in> set qs. pid (task_at s q) = PID_IDLE)"

lemma TASK_MAGIC_alive: "TASK_MAGIC \<noteq> TASK_MAGIC_DEAD"
  by (simp add: TASK_MAGIC_def TASK_MAGIC_DEAD_def)

lemma task_check_iff: "task_check t s = Inr () \<longleftrightarrow> magic (task_at s t) = TASK_MAGIC"
  using TASK_MAGIC_alive by (auto simp: task_check_def)

lemma conj_iff_trans:
  "(E \<longleftrightarrow> A \<and> B \<and> D) \<Longrightarrow> (V \<longleftrightarrow> A \<and> B \<and> C) \<Longrightarrow> (B \<Longrightarrow> C \<longleftrightarrow> D) \<Longrightarrow> V \<longleftrightarrow> E"
  by blast

lemma verify_loop_iff:
  "verify_loop n s p prev fi = Inr () \<longleftrightarrow>
     (\<exists>qs. dseg (task_at s) prev p qs None \<and> length qs \<le> n \<and>
        (\<forall>q \<in> set qs. magic (task_at s q) = TASK_MAGIC) \<and>
        (fi \<or> (\<exists>q \<in> set qs. pid (task_at s q) = PID_IDLE)))"
proof (induction n s p prev fi rule: verify_loop.induct)
  case (1 n s prev fi)
  have "dseg (task_at s) prev None qs None \<longleftrightarrow> qs = []" for qs by (cases qs) auto
  then show ?case by auto
next
  case (2 s t prev fi)
  have "\<not> (dseg (task_at s) prev (Some t) qs None \<and> length qs \<le> 0)" for qs by (cases qs) auto
  then show ?case by auto
next
  case (3 n s t prev fi)
  let ?P = "\<lambda>qs prev p n fi. dseg (task_at s) prev p qs None \<and> length qs \<le> n \<and>
        (\<forall>q \<in> set qs. magic (task_at s q) = TASK_MAGIC) \<and>
        (fi \<or> (\<exists>q \<in> set qs. pid (task_at s q) = PID_IDLE))"
  have "(\<exists>qs. ?P qs prev (Some t) (Suc n) fi) \<longleftrightarrow>
      magic (task_at s t) = TASK_MAGIC \<and> t_prev (task_at s t) = prev \<and>
      (\<exists>qs. ?P qs (Some t) (t_next (task_at s t)) n (fi \<or> pid (task_at s t) = PID_IDLE))"
    (is "?L \<longleftrightarrow> ?R")
  proof
    assume ?L
    then obtain qs where P: "?P qs prev (Some t) (Suc n) fi" by blast
    then obtain rs where "qs = t # rs" by (cases qs) auto
    with P show ?R by auto
  next
    assume ?R
    then obtain rs where "?P rs (Some t) (t_next (task_at s t)) n (fi \<or> pid (task_at s t) = PID_IDLE)"
      by blast
    with \<open>?R\<close> have "?P (t # rs) prev (Some t) (Suc n) fi" by auto
    then show ?L by blast
  qed
  moreover have "verify_loop (Suc n) s (Some t) prev fi = Inr () \<longleftrightarrow>
      task_check t s = Inr () \<and> t_prev (task_at s t) = prev \<and>
      verify_loop n s (t_next (task_at s t)) (Some t) (fi \<or> pid (task_at s t) = PID_IDLE) = Inr ()"
    by (cases "task_check t s") (auto simp: bindE_Inr_iff)
  moreover have "t_prev (task_at s t) = prev \<Longrightarrow>
      (verify_loop n s (t_next (task_at s t)) (Some t) (fi \<or> pid (task_at s t) = PID_IDLE) = Inr ()) \<longleftrightarrow>
      (\<exists>qs. ?P qs (Some t) (t_next (task_at s t)) n (fi \<or> pid (task_at s t) = PID_IDLE))"
    by (rule 3) simp
  ultimately show ?case unfolding task_check_iff by (rule conj_iff_trans)
qed

lemma verify_wf: "sched_queue_verify s = Inr () \<longleftrightarrow> (\<exists>qs. queue_wf s qs)"
  by (simp add: sched_queue_verify_def verify_loop_iff queue_wf_def)

lemma queue_wf_distinct: "queue_wf s qs \<Longrightarrow> distinct qs"
  unfolding queue_wf_def by (blast dest: dseg_distinct)

lemma queue_wf_unique: "queue_wf s qs \<Longrightarrow> queue_wf s rs \<Longrightarrow> qs = rs"
  unfolding queue_wf_def by (blast dest: dseg_linked intro: linked_unique)

lemma set_task_simps [simp]:
  "task_at (set_task t f s) = (task_at s)(t := f (task_at s t))"
  "sched_queue (set_task t f s) = sched_queue s" "running_task (set_task t f s) = running_task s"
  "prev_task (set_task t f s) = prev_task s" "last_pid (set_task t f s) = last_pid s"
  "total_ticks (set_task t f s) = total_ticks s"
  by (simp_all add: set_task_def)

text \<open>Two states agree on a task up to its links.\<close>

definition same_but_links :: "task \<Rightarrow> task \<Rightarrow> bool" where
  "same_but_links x y \<longleftrightarrow> x\<lparr>t_prev := None, t_next := None\<rparr> = y\<lparr>t_prev := None, t_next := None\<rparr>"

lemma same_but_links_refl [simp]: "same_but_links x x"
  and same_but_links_next [simp]: "same_but_links (y\<lparr>t_next := n\<rparr>) x = same_but_links y x"
  and same_but_links_prev [simp]: "same_but_links (y\<lparr>t_prev := n\<rparr>) x = same_but_links y x"
  by (simp_all add: same_but_links_def)

lemma same_but_links_fields:
  "same_but_links x y \<Longrightarrow> pid x = pid y \<and> magic x = magic y \<and> prio_s x = prio_s y \<and> ppid x = ppid y"
proof -
  assume "same_but_links x y"
  then have e: "x\<lparr>t_prev := None, t_next := None\<rparr> = y\<lparr>t_prev := None, t_next := None\<rparr>"
    by (simp add: same_but_links_def)
  show ?thesis
    using arg_cong [OF e, of pid] arg_cong [OF e, of magic] arg_cong [OF e, of prio_s] arg_cong [OF e, of ppid]
    by simp
qed

section \<open>Insertion keeps the queue\<close>

lemma splice_before:
  assumes "dseg h None p (as @ b # bs) None" and "t \<notin> set (as @ b # bs)"
    and "t_next (h' t) = Some b" and "t_prev (h' t) = last_ptr None as"
    and "t_prev (h' b) = Some t" and "t_next (h' b) = t_next (h b)"
    and "\<And>x. x \<noteq> t \<Longrightarrow> x \<noteq> b \<Longrightarrow> t_prev (h' x) = t_prev (h x)"
    and "\<And>x. x \<noteq> t \<Longrightarrow> x \<noteq> b \<Longrightarrow> Some x \<noteq> last_ptr None as \<Longrightarrow> t_next (h' x) = t_next (h x)"
    and "as \<noteq> [] \<Longrightarrow> t_next (h' (last as)) = Some t"
  shows "dseg h' None (if as = [] then Some t else p) (as @ t # b # bs) None"
proof -
  have dist: "distinct (as @ b # bs)" using assms(1) by (rule dseg_distinct)
  have bs: "dseg h' (Some b) (t_next (h b)) bs None"
  proof -
    have "dseg h' (Some b) (t_next (h b)) bs None = dseg h (Some b) (t_next (h b)) bs None"
    proof (rule dseg_cong)
      fix x assume "x \<in> set bs"
      then have "x \<noteq> t" "x \<noteq> b" "x \<notin> set as" using dist assms(2) by auto
      moreover from this have "Some x \<noteq> last_ptr None as"
        unfolding last_ptr_def by (metis last_in_set option.discI option.inject)
      ultimately show "t_next (h' x) = t_next (h x) \<and> t_prev (h' x) = t_prev (h x)"
        using assms(7,8) by blast
    qed
    then show ?thesis using assms(1) by auto
  qed
  show ?thesis
  proof (cases as rule: rev_cases)
    case Nil
    with bs assms(3-6) show ?thesis by simp
  next
    case (snoc as' l)
    have "dseg h' None p as' (Some l) = dseg h None p as' (Some l)"
    proof (rule dseg_cong)
      fix x assume "x \<in> set as'"
      then have "x \<noteq> t" "x \<noteq> b" "Some x \<noteq> last_ptr None as" using dist assms(2) snoc by auto
      then show "t_next (h' x) = t_next (h x) \<and> t_prev (h' x) = t_prev (h x)"
        using assms(7,8) by blast
    qed
    moreover have "t_prev (h' l) = t_prev (h l)" using dist assms(2,7) snoc by auto
    ultimately show ?thesis using assms(1,3-6,9) bs snoc by auto
  qed
qed

lemma insert_task_before_wf:
  assumes wf: "queue_wf s (as @ b # bs)" and t: "t \<notin> set (as @ b # bs)" "magic (task_at s t) = TASK_MAGIC"
    and len: "length (as @ b # bs) < QUEUE_BOUND"
  shows "\<exists>s'. insert_task_before t b s = Inr s' \<and> queue_wf s' (as @ t # b # bs) \<and>
    (\<forall>x. same_but_links (task_at s' x) (task_at s x)) \<and>
    running_task s' = running_task s \<and> last_pid s' = last_pid s"
proof -
  let ?h = "task_at s"
  have seg: "dseg ?h None (sched_queue s) (as @ b # bs) None" using wf by (simp add: queue_wf_def)
  have dist: "distinct (as @ b # bs)" using wf by (rule queue_wf_distinct)
  have pb: "t_prev (?h b) = last_ptr None as" using seg by auto
  define s1 where "s1 = set_task b (\<lambda>t'. t'\<lparr>t_prev := Some t\<rparr>) (set_task t (\<lambda>t. t\<lparr>t_next := Some b\<rparr>) s)"
  define s2 where "s2 = (case last_ptr None as of
                  None \<Rightarrow> (set_task t (\<lambda>t. t\<lparr>t_prev := None\<rparr>) s1)\<lparr>sched_queue := Some t\<rparr>
                | Some p \<Rightarrow> set_task t (\<lambda>t. t\<lparr>t_prev := Some p\<rparr>)
                              (set_task p (\<lambda>x. x\<lparr>t_next := Some t\<rparr>) s1))"
  have sbl: "same_but_links (task_at s2 x) (?h x)" for x
    by (auto simp: s2_def s1_def split: option.split)
  have bt: "b \<noteq> t" using t by auto
  have lt: "last_ptr None as \<noteq> Some t" "last_ptr None as \<noteq> Some b"
    using t dist by (auto simp: last_ptr_def split: if_splits)
  have "dseg (task_at s2) None (if as = [] then Some t else sched_queue s) (as @ t # b # bs) None"
  proof (rule splice_before [OF seg t(1)])
    show "t_next (task_at s2 t) = Some b" "t_prev (task_at s2 t) = last_ptr None as"
      "t_prev (task_at s2 b) = Some t" "t_next (task_at s2 b) = t_next (?h b)"
      using bt lt by (auto simp: s2_def s1_def split: option.splits)
    show "t_prev (task_at s2 x) = t_prev (?h x)" if "x \<noteq> t" "x \<noteq> b" for x
      using that by (auto simp: s2_def s1_def split: option.splits)
    show "t_next (task_at s2 x) = t_next (?h x)" if "x \<noteq> t" "x \<noteq> b" "Some x \<noteq> last_ptr None as" for x
      using that by (auto simp: s2_def s1_def split: option.splits)
    show "t_next (task_at s2 (last as)) = Some t" if "as \<noteq> []"
      using that lt by (auto simp: s2_def s1_def last_ptr_def)
  qed
  moreover have "sched_queue s2 = (if as = [] then Some t else sched_queue s)"
    by (auto simp: s2_def s1_def last_ptr_def)
  moreover have "magic (task_at s2 x) = magic (?h x)" "pid (task_at s2 x) = pid (?h x)" for x
    using same_but_links_fields [OF sbl [of x]] by auto
  ultimately have q: "queue_wf s2 (as @ t # b # bs)" using wf t len by (auto simp: queue_wf_def)
  then have "sched_queue_verify s2 = Inr ()" by (auto simp: verify_wf)
  moreover have "task_check t s = Inr ()" "task_check b s = Inr ()"
    using t wf by (auto simp: task_check_iff queue_wf_def)
  moreover have "insert_task_before t b s = bindE (task_check t s) (\<lambda>_. bindE (task_check b s) (\<lambda>_.
      bindE (sched_queue_verify s2) (\<lambda>_. Inr s2)))"
    unfolding insert_task_before_def Let_def s2_def s1_def pb ..
  ultimately have "insert_task_before t b s = Inr s2" by simp
  moreover have "running_task s2 = running_task s \<and> last_pid s2 = last_pid s"
    by (auto simp: s2_def s1_def split: option.splits)
  ultimately show ?thesis using q sbl by blast
qed

lemma insert_place_spec:
  "linked (next_of (task_at s)) (Some b) qs \<Longrightarrow> length qs \<le> Suc n \<Longrightarrow>
     insert_place n s prio b = Inr (case dropWhile (\<lambda>q. prio < prio_s (task_at s q)) qs of
       [] \<Rightarrow> After (last qs) | x # _ \<Rightarrow> Before x)"
proof (induction qs arbitrary: b n)
  case (Cons q qs)
  then have b: "b = q" and l: "linked (next_of (task_at s)) (t_next (task_at s q)) qs" by auto
  show ?case
  proof (cases "prio < prio_s (task_at s q)")
    case True
    show ?thesis
    proof (cases qs)
      case Nil
      with l b True show ?thesis by (simp add: insert_place.simps [of n])
    next
      case (Cons r rs)
      then obtain m where n: "n = Suc m" using Cons.prems(2) by (cases n) auto
      from l Cons have nx: "t_next (task_at s q) = Some r" by simp
      with l have "linked (next_of (task_at s)) (Some r) qs" by simp
      note IH = Cons.IH [OF this, of m]
      have ins: "insert_place n s prio b = insert_place m s prio r"
        using n True b nx by (subst insert_place.simps) simp
      have "length qs \<le> Suc m" using Cons.prems(2) n by simp
      have qs: "dropWhile (\<lambda>q. prio < prio_s (task_at s q)) qs
          = dropWhile (\<lambda>q. prio < prio_s (task_at s q)) (q # qs)" using True by simp
      have last: "last qs = last (q # qs)" by (simp add: Cons)
      then show ?thesis unfolding ins IH [OF \<open>length qs \<le> Suc m\<close>] last qs using True by simp
    qed
  next
    case False
    with b show ?thesis by (simp add: insert_place.simps [of n])
  qed
qed simp

lemma append_task_wf:
  assumes wf: "queue_wf s qs" and ne: "qs \<noteq> []" and t: "t \<notin> set qs" "magic (task_at s t) = TASK_MAGIC"
    and len: "length qs < QUEUE_BOUND"
  defines "s' \<equiv> set_task t (\<lambda>x. x\<lparr>t_prev := Some (last qs), t_next := None\<rparr>)
                  (set_task (last qs) (\<lambda>x. x\<lparr>t_next := Some t\<rparr>) s)"
  shows "queue_wf s' (qs @ [t])" and "same_but_links (task_at s' x) (task_at s x)"
proof -
  obtain as l where qs: "qs = as @ [l]" using ne by (metis rev_exhaust)
  have tl: "t \<noteq> l" using t qs by auto
  show sbl: "same_but_links (task_at s' x) (task_at s x)" for x by (simp add: s'_def)
  have seg: "dseg (task_at s) None (sched_queue s) (as @ [l]) None" using wf qs by (simp add: queue_wf_def)
  have dist: "distinct qs" using wf by (rule queue_wf_distinct)
  have "dseg (task_at s') None (sched_queue s) as (Some l) = dseg (task_at s) None (sched_queue s) as (Some l)"
  proof (rule dseg_cong)
    fix x assume "x \<in> set as"
    then have "x \<noteq> t" "x \<noteq> l" using dist t qs by auto
    then show "t_next (task_at s' x) = t_next (task_at s x) \<and> t_prev (task_at s' x) = t_prev (task_at s x)"
      by (simp add: s'_def qs)
  qed
  then have "dseg (task_at s') None (sched_queue s) (as @ [l, t]) None"
    using seg tl by (auto simp: s'_def qs)
  moreover have "magic (task_at s' y) = magic (task_at s y)" "pid (task_at s' y) = pid (task_at s y)" for y
    using same_but_links_fields [OF sbl [of y]] by auto
  ultimately show "queue_wf s' (qs @ [t])"
    using wf t len by (auto simp: queue_wf_def qs s'_def)
qed

text \<open>The position of a new task of priority \<open>prio\<close>.\<close>

definition sorted_insert :: "'a sched_state_scheme \<Rightarrow> tptr \<Rightarrow> int \<Rightarrow> tptr list \<Rightarrow> tptr list" where
  "sorted_insert s t prio qs =
     takeWhile (\<lambda>q. prio < prio_s (task_at s q)) qs @ t # dropWhile (\<lambda>q. prio < prio_s (task_at s q)) qs"

lemma insert_task_sorted_wf:
  assumes wf: "queue_wf s qs" and t: "t \<notin> set qs" "magic (task_at s t) = TASK_MAGIC"
    and len: "length qs < QUEUE_BOUND"
  shows "\<exists>s'. insert_task_sorted t prio s = Inr s' \<and> queue_wf s' (sorted_insert s t prio qs) \<and>
    (\<forall>x. same_but_links (task_at s' x) (task_at s x)) \<and>
    running_task s' = running_task s \<and> last_pid s' = last_pid s"
proof -
  have ne: "qs \<noteq> []" using wf by (auto simp: queue_wf_def)
  have seg: "dseg (task_at s) None (sched_queue s) qs None" using wf by (simp add: queue_wf_def)
  then have first: "sched_queue s = Some (hd qs)" using ne by (cases qs) auto
  have lk: "linked (next_of (task_at s)) (Some (hd qs)) qs"
    using dseg_linked [OF seg] first by simp
  have pl: "insert_place QUEUE_BOUND s prio (hd qs) = Inr (case dropWhile (\<lambda>q. prio < prio_s (task_at s q)) qs of
       [] \<Rightarrow> After (last qs) | x # _ \<Rightarrow> Before x)"
    by (rule insert_place_spec [OF lk]) (use len in simp)
  have chk: "task_check t s = Inr ()" using t by (simp add: task_check_iff)
  show ?thesis
  proof (cases "dropWhile (\<lambda>q. prio < prio_s (task_at s q)) qs")
    case Nil
    then have si: "sorted_insert s t prio qs = qs @ [t]"
      by (simp add: sorted_insert_def dropWhile_eq_Nil_conv takeWhile_eq_all_conv)
    let ?s = "set_task t (\<lambda>x. x\<lparr>t_prev := Some (last qs), t_next := None\<rparr>)
                  (set_task (last qs) (\<lambda>x. x\<lparr>t_next := Some t\<rparr>) s)"
    note ap = append_task_wf [OF wf ne t len]
    have "sched_queue_verify ?s = Inr ()" using ap(1) by (auto simp: verify_wf)
    then have "insert_task_sorted t prio s = Inr ?s"
      using chk first pl Nil by (simp add: insert_task_sorted_def Let_def)
    then show ?thesis using ap si by auto
  next
    case (Cons b bs)
    define as where "as = takeWhile (\<lambda>q. prio < prio_s (task_at s q)) qs"
    have qs: "qs = as @ b # bs" by (metis as_def Cons takeWhile_dropWhile_id)
    have si: "sorted_insert s t prio qs = as @ t # b # bs" by (simp add: sorted_insert_def as_def Cons)
    have "insert_task_sorted t prio s = insert_task_before t b s"
      using chk first pl Cons by (simp add: insert_task_sorted_def)
    with insert_task_before_wf [of s as b bs t] wf [unfolded qs] t [unfolded qs] len [unfolded qs]
    show ?thesis unfolding si by simp
  qed
qed

section \<open>Killing keeps the queue\<close>

lemma unlink_task_wf:
  assumes wf: "queue_wf s (as @ t # bs)" and idle: "pid (task_at s t) \<noteq> PID_IDLE"
  shows "queue_wf (unlink_task t s) (as @ bs)"
    and "same_but_links (task_at (unlink_task t s) x) (task_at s x)"
    and "running_task (unlink_task t s) = running_task s"
proof -
  let ?h = "task_at s" and ?s = "unlink_task t s"
  have seg: "dseg ?h None (sched_queue s) (as @ t # bs) None" using wf by (simp add: queue_wf_def)
  have dist: "distinct (as @ t # bs)" using wf by (rule queue_wf_distinct)
  have pv: "t_prev (?h t) = last_ptr None as" using seg by auto
  have nx: "t_next (?h t) = (if bs = [] then None else Some (hd bs))" using seg by (cases bs) auto
  show sbl: "same_but_links (task_at ?s x) (?h x)" for x
    by (auto simp: unlink_task_def Let_def split: option.split)
  show "running_task ?s = running_task s"
    by (simp add: unlink_task_def Let_def split: option.split)
  have h: "task_at ?s x = (if bs \<noteq> [] \<and> x = hd bs then (if as \<noteq> [] \<and> x = last as then (?h x)\<lparr>t_next := t_next (?h t), t_prev := t_prev (?h t)\<rparr> else (?h x)\<lparr>t_prev := t_prev (?h t)\<rparr>)
      else if as \<noteq> [] \<and> x = last as then (?h x)\<lparr>t_next := t_next (?h t)\<rparr> else ?h x)" for x
  proof -
    have "t \<notin> set as" using dist by simp
    then have "as \<noteq> [] \<Longrightarrow> last as \<noteq> t" by (metis last_in_set)
    then show ?thesis using pv nx
      by (cases "as = []"; cases "bs = []") (simp_all add: unlink_task_def Let_def last_ptr_def)
  qed
  have sq: "sched_queue ?s = (if as = [] then t_next (?h t) else sched_queue s)"
    using pv nx by (auto simp: unlink_task_def Let_def last_ptr_def split: option.split)
  have disj: "set as \<inter> set bs = {}" "t \<notin> set as" "t \<notin> set bs" "distinct as" "distinct bs" using dist by auto
  have segb: "dseg (task_at ?s) (last_ptr None as) (t_next (?h t)) bs None"
  proof (cases bs)
    case Nil
    then show ?thesis using seg by simp
  next
    case (Cons b cs)
    have "dseg (task_at ?s) (Some b) (t_next (?h b)) cs None = dseg ?h (Some b) (t_next (?h b)) cs None"
    proof (rule dseg_cong)
      fix x assume x: "x \<in> set cs"
      then have "x \<noteq> hd bs" "x \<notin> set as" using disj Cons by auto
      then show "t_next (task_at ?s x) = t_next (?h x) \<and> t_prev (task_at ?s x) = t_prev (?h x)"
        by (auto simp: h)
    qed
    moreover have "b \<notin> set as" using disj Cons by auto
    then have "t_next (task_at ?s b) = t_next (?h b)" "t_prev (task_at ?s b) = t_prev (?h t)"
      using Cons by (auto simp: h)
    ultimately show ?thesis using seg Cons pv by auto
  qed
  have "dseg (task_at ?s) None (sched_queue ?s) (as @ bs) None"
  proof (cases as rule: rev_cases)
    case Nil
    with segb sq show ?thesis by simp
  next
    case (snoc cs l)
    have "dseg (task_at ?s) None (sched_queue s) cs (Some l) = dseg ?h None (sched_queue s) cs (Some l)"
    proof (rule dseg_cong)
      fix x assume x: "x \<in> set cs"
      then have "x \<noteq> last as" "x \<notin> set bs" using disj snoc by auto
      then show "t_next (task_at ?s x) = t_next (?h x) \<and> t_prev (task_at ?s x) = t_prev (?h x)"
        by (auto simp: h)
    qed
    moreover have "l \<notin> set bs" using disj snoc by auto
    then have "t_next (task_at ?s l) = t_next (?h t)" "t_prev (task_at ?s l) = t_prev (?h l)"
      using snoc by (auto simp: h)
    ultimately show ?thesis using seg segb sq snoc by auto
  qed
  moreover have "magic (task_at ?s y) = magic (?h y)" "pid (task_at ?s y) = pid (?h y)" for y
    using same_but_links_fields [OF sbl [of y]] by auto
  ultimately show "queue_wf ?s (as @ bs)" using wf idle by (auto simp: queue_wf_def)
qed

text \<open>Closing the files of a task touches nothing of the queue.\<close>

lemma close_fds_frame:
  "(\<forall>x. task_at (close_fds t is s) x = (task_at s x)\<lparr>fds := fds (task_at (close_fds t is s) x)\<rparr>) \<and>
   (\<forall>x. x \<noteq> t \<longrightarrow> task_at (close_fds t is s) x = task_at s x) \<and>
   sched_queue (close_fds t is s) = sched_queue s \<and> running_task (close_fds t is s) = running_task s"
proof (induction t "is" s rule: close_fds.induct)
  case (1 t s)
  then show ?case by simp
next
  case (2 t i "is" s)
  show ?case
  proof (cases "fd_open (fds (task_at s t) ! i)")
    case False
    with 2(2) show ?thesis by (simp add: Let_def)
  next
    case True
    let ?f = "fds (task_at s t) ! i"
    let ?s = "set_task t (\<lambda>x. x\<lparr>fds := (fds x)[i := ?f\<lparr>fd_open := False, fd_node := None\<rparr>]\<rparr>) s"
    let ?s' = "case fd_node ?f of None \<Rightarrow> ?s | Some n \<Rightarrow> emit_effect (PipeClose n) ?s"
    have c: "close_fds t (i # is) s = close_fds t is ?s'" using True by (simp add: Let_def)
    have f: "task_at ?s' x = (task_at s x)\<lparr>fds := fds (task_at ?s' x)\<rparr>" "x \<noteq> t \<Longrightarrow> task_at ?s' x = task_at s x"
      "sched_queue ?s' = sched_queue s" "running_task ?s' = running_task s" for x
      by (auto simp: emit_effect_def set_task_def split: option.split)
    from 2(1) [OF refl True refl] have IH: "\<forall>x. task_at (close_fds t is ?s') x
          = (task_at ?s' x)\<lparr>fds := fds (task_at (close_fds t is ?s') x)\<rparr>"
      "\<forall>x. x \<noteq> t \<longrightarrow> task_at (close_fds t is ?s') x = task_at ?s' x"
      "sched_queue (close_fds t is ?s') = sched_queue ?s'" "running_task (close_fds t is ?s') = running_task ?s'"
      by blast+
    have "task_at (close_fds t is ?s') x = (task_at s x)\<lparr>fds := fds (task_at (close_fds t is ?s') x)\<rparr>" for x
    proof -
      have "task_at (close_fds t is ?s') x = (task_at ?s' x)\<lparr>fds := fds (task_at (close_fds t is ?s') x)\<rparr>"
        using IH(1) by blast
      also have "\<dots> = ((task_at s x)\<lparr>fds := fds (task_at ?s' x)\<rparr>)\<lparr>fds := fds (task_at (close_fds t is ?s') x)\<rparr>"
        using f(1) [of x] by metis
      also have "\<dots> = (task_at s x)\<lparr>fds := fds (task_at (close_fds t is ?s') x)\<rparr>" by simp
      finally show ?thesis .
    qed
    moreover have "task_at (close_fds t is ?s') x = task_at s x" if "x \<noteq> t" for x
      using IH(2) f(2) [OF that] that by (simp only: simp_thms)
    moreover have "sched_queue (close_fds t is ?s') = sched_queue s"
      "running_task (close_fds t is ?s') = running_task s"
      by (simp_all only: IH(3,4) f(3,4))
    ultimately show ?thesis unfolding c by blast
  qed
qed

text \<open>The identity of a task and its place in the family tree.\<close>

definition same_ids :: "(tptr \<Rightarrow> task) \<Rightarrow> (tptr \<Rightarrow> task) \<Rightarrow> bool" where
  "same_ids h h' \<longleftrightarrow> (\<forall>x. pid (h' x) = pid (h x) \<and> ppid (h' x) = ppid (h x))"

lemma same_ids_refl [simp]: "same_ids h h"
  by (simp add: same_ids_def)

lemma same_ids_trans: "same_ids h h' \<Longrightarrow> same_ids h' h'' \<Longrightarrow> same_ids h h''"
  by (simp add: same_ids_def)

lemma queue_wf_cong:
  assumes "queue_wf s qs" and "sched_queue s' = sched_queue s"
    and "\<And>x. x \<in> set qs \<Longrightarrow> t_next (task_at s' x) = t_next (task_at s x) \<and>
      t_prev (task_at s' x) = t_prev (task_at s x) \<and> magic (task_at s' x) = magic (task_at s x) \<and>
      pid (task_at s' x) = pid (task_at s x)"
  shows "queue_wf s' qs"
proof -
  have "dseg (task_at s') None (sched_queue s) qs None = dseg (task_at s) None (sched_queue s) qs None"
    by (rule dseg_cong) (use assms(3) in blast)
  then show ?thesis using assms by (auto simp: queue_wf_def)
qed

lemma wake_waiters_frame:
  "same_ids (task_at s) (task_at (wake_waiters d st ws s)) \<and>
   (\<forall>x. t_next (task_at (wake_waiters d st ws s) x) = t_next (task_at s x) \<and>
      t_prev (task_at (wake_waiters d st ws s) x) = t_prev (task_at s x) \<and>
      magic (task_at (wake_waiters d st ws s) x) = magic (task_at s x)) \<and>
   sched_queue (wake_waiters d st ws s) = sched_queue s \<and> running_task (wake_waiters d st ws s) = running_task s"
proof (induction d st ws s rule: wake_waiters.induct)
  case (2 d st w ws s)
  then show ?case by (auto simp: same_ids_def)
qed (simp add: same_ids_def)

lemma queue_nodes_truncate: "queue_wf s qs \<Longrightarrow> queue_nodes (sched_state.truncate s) = Some qs"
  unfolding queue_wf_def
  by (intro queue_nodes_linked) (auto simp: sched_state.defs dest: dseg_linked)

lemma kill_self_part_wf:
  assumes wf: "queue_wf s (as @ t # bs)" and idle: "pid (task_at s t) \<noteq> PID_IDLE" and init: "t \<noteq> kc_init k"
  shows "\<exists>s'. kill_self_part k t s = Inr ((pid (task_at s t), stack_base (task_at s t)), s') \<and>
    queue_wf s' (as @ bs) \<and> same_ids (task_at s) (task_at s') \<and> running_task s' = running_task s"
proof -
  define s1 where "s1 = close_fds t [0..<VFS_FD_MAX] s"
  have f1: "\<And>x. task_at s1 x = (task_at s x)\<lparr>fds := fds (task_at s1 x)\<rparr>"
    "sched_queue s1 = sched_queue s" "running_task s1 = running_task s"
    using close_fds_frame [of t "[0..<VFS_FD_MAX]" s] unfolding s1_def by blast+
  have fields: "t_next (task_at s1 x) = t_next (task_at s x)" "t_prev (task_at s1 x) = t_prev (task_at s x)"
    "magic (task_at s1 x) = magic (task_at s x)" "pid (task_at s1 x) = pid (task_at s x)"
    "ppid (task_at s1 x) = ppid (task_at s x)" "stack_base (task_at s1 x) = stack_base (task_at s x)" for x
    by (subst f1(1), simp)+
  have wf1: "queue_wf s1 (as @ t # bs)"
    by (rule queue_wf_cong [OF wf f1(2)]) (simp add: fields)
  have id1: "pid (task_at s1 t) \<noteq> PID_IDLE" using idle by (simp add: fields)
  have chk: "task_check t s1 = Inr ()" using wf1 by (simp add: task_check_iff queue_wf_def)
  define s2 where "s2 = unlink_task t s1"
  note u = unlink_task_wf [OF wf1 id1, folded s2_def]
  define s3 where "s3 = set_task t (\<lambda>x. x\<lparr>magic := TASK_MAGIC_DEAD\<rparr>) s2"
  have "t \<notin> set (as @ bs)" using queue_wf_distinct [OF wf] by auto
  then have wf3: "queue_wf s3 (as @ bs)"
    by (intro queue_wf_cong [OF u(1)]) (auto simp: s3_def)
  then have ver: "sched_queue_verify s3 = Inr ()" by (auto simp: verify_wf)
  have ids3: "same_ids (task_at s) (task_at s3)"
    using same_but_links_fields [OF u(2)] by (auto simp: same_ids_def s3_def fields)
  have sb: "stack_base (task_at s3 t) = stack_base (task_at s t)"
  proof -
    have "stack_base (task_at s2 t) = stack_base (task_at s1 t)"
      using arg_cong [OF u(2) [unfolded same_but_links_def], of stack_base] by simp
    then show ?thesis by (simp add: s3_def fields)
  qed
  define s4 where "s4 = emit_effect (DeathHook (pid (task_at s3 t))) s3"
  define s5 where "s5 = (if page_dir_phys (task_at s4 t) \<noteq> kc_kernel_dir k
       then emit_effect (DestroyDir (page_dir_phys (task_at s4 t))) s4 else s4)"
  have e: "task_at s5 = task_at s3" "sched_queue s5 = sched_queue s3" "running_task s5 = running_task s3"
    "task_at s4 = task_at s3"
    by (auto simp: s5_def s4_def emit_effect_def)
  have wf5: "queue_wf s5 (as @ bs)" by (rule queue_wf_cong [OF wf3 e(2)]) (simp add: e)
  define s6 where "s6 = wake_waiters (pid (task_at s4 t)) (exit_status (task_at s5 t)) (as @ bs) s5"
  have w: "same_ids (task_at s5) (task_at s6)" "sched_queue s6 = sched_queue s5" "running_task s6 = running_task s5"
    "\<And>x. t_next (task_at s6 x) = t_next (task_at s5 x) \<and> t_prev (task_at s6 x) = t_prev (task_at s5 x) \<and>
       magic (task_at s6 x) = magic (task_at s5 x)"
    using wake_waiters_frame [of s5 "pid (task_at s4 t)" "exit_status (task_at s5 t)" "as @ bs"]
    unfolding s6_def by blast+
  have wf6: "queue_wf s6 (as @ bs)"
    by (rule queue_wf_cong [OF wf5 w(2)]) (use w(1,4) in \<open>auto simp: same_ids_def\<close>)
  have "kill_self_part k t s = Inr ((pid (task_at s4 t), stack_base (task_at s4 t)), s6)"
    unfolding kill_self_part_def Let_def s1_def [symmetric] s2_def [symmetric] s3_def [symmetric]
      chk ver bindE_simps s4_def [symmetric] s5_def [symmetric]
    using idle init queue_nodes_truncate [OF wf5] by (simp add: s6_def)
  moreover have "pid (task_at s4 t) = pid (task_at s t)" "stack_base (task_at s4 t) = stack_base (task_at s t)"
    using ids3 sb by (auto simp: e same_ids_def)
  moreover have "same_ids (task_at s) (task_at s6)" using same_ids_trans [OF ids3] w(1) by (simp add: e)
  moreover have "running_task s6 = running_task s" by (simp add: w e s3_def u f1)
  ultimately show ?thesis using wf6 by auto
qed

text \<open>
  A queue with different pids in which neither the idle task nor the init task has a
  parent.
\<close>

definition family :: "kill_ctx \<Rightarrow> kill_state \<Rightarrow> tptr list \<Rightarrow> bool" where
  "family k s qs \<longleftrightarrow> queue_wf s qs \<and> inj_on (\<lambda>q. pid (task_at s q)) (set qs) \<and>
     (\<forall>q \<in> set qs. pid (task_at s q) = PID_IDLE \<or> q = kc_init k \<longrightarrow> ppid (task_at s q) = 0)"

lemma family_same:
  "family k s qs \<Longrightarrow> queue_wf s' qs' \<Longrightarrow> set qs' \<subseteq> set qs \<Longrightarrow> same_ids (task_at s) (task_at s') \<Longrightarrow> family k s' qs'"
  unfolding family_def same_ids_def by (auto intro: inj_on_subset)

text \<open>
  What killing the tasks \<open>kids\<close> leaves: \<open>qs'\<close> is left of \<open>qs\<close>, every other task that went
  away is the child of one that went away.
\<close>

definition killed :: "tptr set \<Rightarrow> kill_state \<Rightarrow> tptr list \<Rightarrow> kill_state \<Rightarrow> tptr list \<Rightarrow> bool" where
  "killed kids s qs s' qs' \<longleftrightarrow> queue_wf s' qs' \<and> set qs' \<subseteq> set qs \<and> same_ids (task_at s) (task_at s') \<and>
     (\<forall>r \<in> set qs - set qs'. r \<in> kids \<or>
        (\<exists>r' \<in> set qs - set qs'. ppid (task_at s r) = pid (task_at s r')))"

lemma killed_refl: "queue_wf s qs \<Longrightarrow> killed K s qs s qs"
  by (simp add: killed_def)

lemma killed_trans:
  "killed K s qs s1 qs1 \<Longrightarrow> killed L s1 qs1 s2 qs2 \<Longrightarrow> killed (K \<union> L) s qs s2 qs2"
  unfolding killed_def same_ids_def by (intro conjI; simp) (blast+)

lemma killed_mono: "killed K s qs s' qs' \<Longrightarrow> K \<subseteq> L \<Longrightarrow> killed L s qs s' qs'"
  unfolding killed_def by blast

text \<open>A task whose parent was not in the queue survives the killing of its siblings.\<close>

lemma killed_survivor:
  assumes "killed K s qs s' qs'" and "c \<in> set qs" and "c \<notin> K"
    and "\<forall>q \<in> set qs. pid (task_at s q) \<noteq> ppid (task_at s c)"
  shows "c \<in> set qs'"
proof (rule ccontr)
  assume "c \<notin> set qs'"
  with assms obtain r' where "r' \<in> set qs" "ppid (task_at s c) = pid (task_at s r')"
    unfolding killed_def by blast
  with assms(4) show False by metis
qed

definition kill_ok :: "kill_ctx \<Rightarrow> nat \<Rightarrow> bool" where
  "kill_ok k n \<longleftrightarrow> (\<forall>t s qs. family k s qs \<longrightarrow> t \<in> set qs \<longrightarrow> pid (task_at s t) \<noteq> PID_IDLE \<longrightarrow>
     t \<noteq> kc_init k \<longrightarrow> length qs \<le> n \<longrightarrow>
     (\<exists>gone s' qs'. task_kill k n t s = Inr (gone, s') \<and> killed {t} s qs s' qs' \<and> t \<notin> set qs' \<and>
        (\<not> gone \<longrightarrow> running_task s' = running_task s \<and>
           (length (filter (\<lambda>q. ppid (task_at s q) = pid (task_at s t)) qs) \<le> MAX_CHILDREN \<longrightarrow>
            (\<forall>q \<in> set qs'. ppid (task_at s q) \<noteq> pid (task_at s t))))))"

lemma kill_others_ok:
  assumes "kill_ok k n"
  shows "family k s qs \<Longrightarrow> length qs \<le> n \<Longrightarrow> set cs \<subseteq> set qs \<Longrightarrow> distinct cs \<Longrightarrow> d \<noteq> 0 \<Longrightarrow>
    \<forall>c \<in> set cs. ppid (task_at s c) = d \<Longrightarrow> \<forall>q \<in> set qs. pid (task_at s q) \<noteq> d \<Longrightarrow>
    \<exists>gone s' qs'. kill_others k n cs s = Inr (gone, s') \<and> killed (set cs) s qs s' qs' \<and>
      (\<not> gone \<longrightarrow> running_task s' = running_task s \<and>
         (\<forall>c \<in> set cs. c \<in> set qs' \<longleftrightarrow> running_task s = Some c))"
proof (induction cs arbitrary: s qs)
  case Nil
  then show ?case by (auto simp: family_def intro!: exI [of _ qs] killed_refl)
next
  case (Cons c cs)
  have wf: "queue_wf s qs" using Cons.prems(1) by (simp add: family_def)
  show ?case
  proof (cases "running_task s = Some c")
    case True
    from Cons.IH [OF Cons.prems(1,2) _ _ Cons.prems(5) _ Cons.prems(7)] Cons.prems
    obtain gone s' qs' where r: "kill_others k n cs s = Inr (gone, s')" "killed (set cs) s qs s' qs'"
      "\<not> gone \<longrightarrow> running_task s' = running_task s \<and> (\<forall>c \<in> set cs. c \<in> set qs' \<longleftrightarrow> running_task s = Some c)"
      by auto
    have "c \<in> set qs'" by (rule killed_survivor [OF r(2)]) (use Cons.prems in auto)
    with r True killed_mono [OF r(2), of "set (c # cs)"] show ?thesis
      by (intro exI [of _ gone] exI [of _ s'] exI [of _ qs']) auto
  next
    case False
    have c: "c \<in> set qs" "ppid (task_at s c) = d" using Cons.prems by auto
    have "pid (task_at s c) \<noteq> PID_IDLE" "c \<noteq> kc_init k"
      using Cons.prems(1,5) c by (auto simp: family_def)
    with assms Cons.prems(1,2) c(1) obtain g1 s1 qs1 where
      k: "task_kill k n c s = Inr (g1, s1)" "killed {c} s qs s1 qs1" "c \<notin> set qs1"
        "\<not> g1 \<longrightarrow> running_task s1 = running_task s"
      unfolding kill_ok_def by blast
    show ?thesis
    proof (cases g1)
      case True
      with k False killed_mono [OF k(2), of "set (c # cs)"] show ?thesis
        by (intro exI [of _ True] exI [of _ s1] exI [of _ qs1]) auto
    next
      case g: False
      have ids: "same_ids (task_at s) (task_at s1)" and sub: "set qs1 \<subseteq> set qs" and wf1: "queue_wf s1 qs1"
        using k(2) by (auto simp: killed_def)
      have fam: "family k s1 qs1" by (rule family_same [OF Cons.prems(1) wf1 sub ids])
      have "length qs1 = card (set qs1)" "length qs = card (set qs)"
        using queue_wf_distinct [OF wf1] queue_wf_distinct [OF wf] by (simp_all add: distinct_card)
      then have len: "length qs1 \<le> n" using Cons.prems(2) card_mono [OF _ sub] by simp
      have cs: "set cs \<subseteq> set qs1"
      proof
        fix x assume x: "x \<in> set cs"
        show "x \<in> set qs1"
          by (rule killed_survivor [OF k(2)]) (use x Cons.prems in auto)
      qed
      have "distinct cs" "\<forall>c \<in> set cs. ppid (task_at s1 c) = d" "\<forall>q \<in> set qs1. pid (task_at s1 q) \<noteq> d"
        using Cons.prems ids sub by (auto simp: same_ids_def)
      from Cons.IH [OF fam len cs this(1) Cons.prems(5) this(2,3)]
      obtain gone s' qs' where r: "kill_others k n cs s1 = Inr (gone, s')" "killed (set cs) s1 qs1 s' qs'"
        "\<not> gone \<longrightarrow> running_task s' = running_task s1 \<and> (\<forall>c \<in> set cs. c \<in> set qs' \<longleftrightarrow> running_task s1 = Some c)"
        by blast
      have "killed (set (c # cs)) s qs s' qs'"
        using killed_trans [OF k(2) r(2)] by simp
      moreover have "c \<notin> set qs'" using r(2) k(3) by (auto simp: killed_def)
      ultimately show ?thesis using k r g False
        by (intro exI [of _ gone] exI [of _ s'] exI [of _ qs']) auto
    qed
  qed
qed

lemma pick_next_ok:
  fixes s :: kill_state
  assumes "queue_wf s qs"
  shows "\<exists>q s'. pick_next qs s = Inr (q, s') \<and> q \<in> set qs \<and> queue_wf s' qs \<and> same_ids (task_at s) (task_at s')"
proof (cases "find (\<lambda>q. prio_d (task_at s q) \<noteq> SCHED_LEVEL_SUSP) qs")
  case (Some q)
  then have "q \<in> set qs" by (auto simp: find_Some_iff)
  with Some show ?thesis using assms by (simp add: pick_next_def)
next
  case None
  obtain q rest where qs: "qs = q # rest" using assms by (cases qs) (auto simp: queue_wf_def)
  define f where "f = (\<lambda>q s :: kill_state. if pid (task_at s q) \<noteq> PID_IDLE
      then set_task q (\<lambda>x. x\<lparr>prio_d := prio_s x\<rparr>) s else s)"
  have "queue_wf (fold f xs s) qs \<and> same_ids (task_at s) (task_at (fold f xs s))" for xs
  proof (induction xs rule: rev_induct)
    case Nil
    then show ?case using assms by simp
  next
    case (snoc x xs)
    let ?s = "fold f xs s"
    have "sched_queue (f x ?s) = sched_queue ?s" by (simp add: f_def)
    then have "queue_wf (f x ?s) qs" by (rule queue_wf_cong [OF conjunct1 [OF snoc]]) (simp add: f_def)
    moreover have "same_ids (task_at ?s) (task_at (f x ?s))" by (auto simp: f_def same_ids_def)
    ultimately show ?case using snoc by (auto intro: same_ids_trans)
  qed
  note ok = this [of qs]
  have "pick_next qs s = Inr (q, fold f qs s)"
    unfolding pick_next_def f_def [symmetric] None option.case Let_def by (simp add: qs)
  with ok show ?thesis by (auto simp: qs)
qed

lemma length_le_of_subset: "distinct xs \<Longrightarrow> set xs \<subseteq> set ys \<Longrightarrow> length xs \<le> length ys"
  by (metis List.finite_set card_length card_mono distinct_card le_trans)

lemma kill_ok_all: "kill_ok k n"
proof (induction n)
  case 0
  then show ?case by (auto simp: kill_ok_def)
next
  case (Suc n)
  show ?case unfolding kill_ok_def
  proof (intro allI impI)
    fix t s qs
    assume fam: "family k s qs" and t: "t \<in> set qs" "pid (task_at s t) \<noteq> PID_IDLE" "t \<noteq> kc_init k"
      and len: "length qs \<le> Suc n"
    let ?d = "pid (task_at s t)"
    have wf: "queue_wf s qs" using fam by (simp add: family_def)
    from t(1) obtain as bs where qs: "qs = as @ t # bs" by (meson split_list)
    have dist: "distinct qs" using wf by (rule queue_wf_distinct)
    from kill_self_part_wf [OF wf [unfolded qs] t(2,3)] obtain s1 where
      s1: "kill_self_part k t s = Inr ((?d, stack_base (task_at s t)), s1)" "queue_wf s1 (as @ bs)"
        "same_ids (task_at s) (task_at s1)" "running_task s1 = running_task s" by blast
    have fam1: "family k s1 (as @ bs)" by (rule family_same [OF fam s1(2) _ s1(3)]) (auto simp: qs)
    have d: "\<forall>q \<in> set (as @ bs). pid (task_at s1 q) \<noteq> ?d"
    proof
      fix q assume q: "q \<in> set (as @ bs)"
      then have "q \<in> set qs" "q \<noteq> t" using dist qs by auto
      then show "pid (task_at s1 q) \<noteq> ?d"
        using fam t(1) s1(3) by (auto simp: family_def inj_on_def same_ids_def)
    qed
    let ?kids = "children_of ?d s1 (as @ bs)"
    have kids: "set ?kids \<subseteq> set (as @ bs)" "distinct ?kids" "\<forall>c \<in> set ?kids. ppid (task_at s1 c) = ?d"
      using dist qs by (auto simp: children_of_def dest!: in_set_takeD)
    have d0: "?d \<noteq> 0" using t(2) by (simp add: PID_IDLE_def)
    have len1: "length (as @ bs) \<le> n" using len qs by simp
    from kill_others_ok [OF Suc fam1 len1 kids(1,2) d0 kids(3) d] obtain g s2 qs2 where
      s2: "kill_others k n ?kids s1 = Inr (g, s2)" "killed (set ?kids) s1 (as @ bs) s2 qs2"
        "\<not> g \<longrightarrow> running_task s2 = running_task s1 \<and> (\<forall>c \<in> set ?kids. c \<in> set qs2 \<longleftrightarrow> running_task s1 = Some c)"
      by blast
    have kl: "killed {t} s qs s' qs'" if k: "killed (set ?kids) s1 (as @ bs) s' qs'" for s' qs'
      unfolding killed_def
    proof (intro conjI ballI)
      show "queue_wf s' qs'" "set qs' \<subseteq> set qs" "same_ids (task_at s) (task_at s')"
        using k s1(3) by (auto simp: killed_def qs same_ids_def)
      fix r assume r: "r \<in> set qs - set qs'"
      have tq: "t \<in> set qs - set qs'" using k dist by (auto simp: killed_def qs)
      show "r \<in> {t} \<or> (\<exists>r' \<in> set qs - set qs'. ppid (task_at s r) = pid (task_at s r'))"
      proof (cases "r = t \<or> ppid (task_at s r) = ?d")
        case True
        then show ?thesis using tq by auto
      next
        case False
        then have "r \<in> set (as @ bs) - set qs'" "r \<notin> set ?kids" using r qs kids(3) s1(3) by (auto simp: same_ids_def)
        with k obtain r' where "r' \<in> set (as @ bs) - set qs'" "ppid (task_at s1 r) = pid (task_at s1 r')"
          unfolding killed_def by blast
        then show ?thesis using s1(3) by (auto simp: qs same_ids_def)
      qed
    qed
    have tn: "t \<notin> set qs'" if "killed (set ?kids) s1 (as @ bs) s' qs'" for s' qs'
      using that dist by (auto simp: killed_def qs)
    have step: "task_kill k (Suc n) t s = (if g then Inr (True, s2)
        else if running_task s2 \<noteq> None \<and> the (running_task s2) \<in> set ?kids
          then task_kill k n (the (running_task s2)) s2
        else if running_task s2 = Some t then
          bindE (pick_next qs2 s2) (\<lambda>(q, sa). Inr (True, sa\<lparr>prev_task := None, running_task := Some q,
             stale_stack := Some (stack_base (task_at s t))\<rparr>))
        else Inr (False, if stack_base (task_at s t) \<noteq> 0 then emit_effect (FreeStack (stack_base (task_at s t))) s2 else s2))"
    proof -
      have wf2: "queue_wf s2 qs2" using s2(2) by (simp add: killed_def)
      show ?thesis
        using queue_nodes_truncate [OF s1(2)] queue_nodes_truncate [OF wf2]
        by (simp add: s1(1) s2(1) Let_def)
    qed
    have ids2: "same_ids (task_at s) (task_at s2)"
      using s2(2) s1(3) by (auto simp: killed_def intro: same_ids_trans)
    have fam2: "family k s2 qs2"
      by (rule family_same [OF fam1]) (use s2(2) in \<open>auto simp: killed_def\<close>)
    have len2: "length qs2 \<le> n"
      using length_le_of_subset [of qs2 "as @ bs"] queue_wf_distinct [of s2 qs2] s2(2) len1
      by (auto simp: killed_def)
    show "\<exists>gone s' qs'. task_kill k (Suc n) t s = Inr (gone, s') \<and> killed {t} s qs s' qs' \<and> t \<notin> set qs' \<and>
        (\<not> gone \<longrightarrow> running_task s' = running_task s \<and>
           (length (filter (\<lambda>q. ppid (task_at s q) = ?d) qs) \<le> MAX_CHILDREN \<longrightarrow>
            (\<forall>q \<in> set qs'. ppid (task_at s q) \<noteq> ?d)))"
    proof (cases g)
      case True
      then show ?thesis using step kl [OF s2(2)] tn [OF s2(2)] by auto
    next
      case g: False
      with s2(3) s1(4) have run: "running_task s2 = running_task s" by simp
      show ?thesis
      proof (cases "running_task s2 \<noteq> None \<and> the (running_task s2) \<in> set ?kids")
        case True
        then obtain r where r: "running_task s2 = Some r" "r \<in> set ?kids" by auto
        have rq: "r \<in> set qs2" using s2(3) g r s1(4) run by auto
        have pr: "ppid (task_at s2 r) = ?d" using kids(3) r(2) s2(2) by (auto simp: killed_def same_ids_def)
        have "pid (task_at s2 r) \<noteq> PID_IDLE" "r \<noteq> kc_init k"
          using fam2 rq pr d0 by (auto simp: family_def)
        with Suc fam2 rq len2 obtain gone s3 qs3 where
          s3: "task_kill k n r s2 = Inr (gone, s3)" "killed {r} s2 qs2 s3 qs3" "r \<notin> set qs3"
            "\<not> gone \<longrightarrow> running_task s3 = running_task s2"
          unfolding kill_ok_def by blast
        have k3: "killed (set ?kids) s1 (as @ bs) s3 qs3"
          by (rule killed_mono [OF killed_trans [OF s2(2) s3(2)]]) (use r(2) in auto)
        have none: "\<forall>q \<in> set qs3. ppid (task_at s q) \<noteq> ?d"
          if l: "length (filter (\<lambda>q. ppid (task_at s q) = ?d) qs) \<le> MAX_CHILDREN"
        proof
          fix q assume q: "q \<in> set qs3"
          then have q2: "q \<in> set qs2" "q \<noteq> r" using s3(2,3) by (auto simp: killed_def)
          then have "q \<notin> set ?kids" using s2(3) g r(1) s1(4) run by auto
          moreover have "q \<in> set (as @ bs)" using q2 s2(2) by (auto simp: killed_def)
          moreover have "length (filter (\<lambda>q. ppid (task_at s1 q) = ?d) (as @ bs)) \<le> MAX_CHILDREN"
            using l s1(3) by (auto simp: qs same_ids_def split: if_splits)
          ultimately show "ppid (task_at s q) \<noteq> ?d"
            using s1(3) by (auto simp: children_of_def same_ids_def)
        qed
        have "task_kill k (Suc n) t s = Inr (gone, s3)" using step g r s3(1) by simp
        moreover have "\<not> gone \<longrightarrow> running_task s3 = running_task s" using s3(4) run by simp
        ultimately show ?thesis using kl [OF k3] tn [OF k3] none by blast
      next
        case nokid: False
        show ?thesis
        proof (cases "running_task s2 = Some t")
          case True
          from pick_next_ok [of s2 qs2] s2(2) obtain q s3 where
            p: "pick_next qs2 s2 = Inr (q, s3)" "queue_wf s3 qs2" "same_ids (task_at s2) (task_at s3)"
            by (auto simp: killed_def)
          let ?s = "s3\<lparr>prev_task := None, running_task := Some q, stale_stack := Some (stack_base (task_at s t))\<rparr>"
          have "queue_wf ?s qs2" by (rule queue_wf_cong [OF p(2)]) simp_all
          then have k3: "killed (set ?kids) s1 (as @ bs) ?s qs2"
            using s2(2) p(3) by (auto simp: killed_def same_ids_def)
          have "task_kill k (Suc n) t s = Inr (True, ?s)" using step g nokid True p(1) by simp
          then show ?thesis using kl [OF k3] tn [OF k3] by auto
        next
          case nrun: False
          let ?s = "if stack_base (task_at s t) \<noteq> 0 then emit_effect (FreeStack (stack_base (task_at s t))) s2 else s2"
          have e: "task_at ?s = task_at s2" "sched_queue ?s = sched_queue s2" "running_task ?s = running_task s2"
            by (simp_all add: emit_effect_def)
          have wf2: "queue_wf s2 qs2" using s2(2) by (simp add: killed_def)
          have "queue_wf ?s qs2" by (rule queue_wf_cong [OF wf2 e(2)]) (simp only: e simp_thms)
          then have k3: "killed (set ?kids) s1 (as @ bs) ?s qs2"
            using s2(2) unfolding killed_def e by blast
          have none: "\<forall>q \<in> set qs2. ppid (task_at s q) \<noteq> ?d"
            if l: "length (filter (\<lambda>q. ppid (task_at s q) = ?d) qs) \<le> MAX_CHILDREN"
          proof
            fix q assume q: "q \<in> set qs2"
            then have "q \<notin> set ?kids" using s2(3) g nokid run s1(4) by (auto split: option.splits)
            moreover have "q \<in> set (as @ bs)" using q s2(2) by (auto simp: killed_def)
            moreover have "length (filter (\<lambda>q. ppid (task_at s1 q) = ?d) (as @ bs)) \<le> MAX_CHILDREN"
              using l s1(3) by (auto simp: qs same_ids_def split: if_splits)
            ultimately show "ppid (task_at s q) \<noteq> ?d"
              using s1(3) by (auto simp: children_of_def same_ids_def)
          qed
          have "task_kill k (Suc n) t s = Inr (False, ?s)"
            unfolding step if_not_P [OF g] if_not_P [OF nokid] if_not_P [OF nrun] ..
          moreover have "running_task ?s = running_task s" using e(3) run by simp
          ultimately show ?thesis using kl [OF k3] tn [OF k3] none by blast
        qed
      qed
    qed
  qed
qed

end
