(* ===== verification/Task_Life.thy ===== *)
theory Task_Life
  imports Task_Queue
begin

text \<open>
  What the functions of \<open>kernel/task.c\<close> promise: the integrity check accepts exactly the
  well-formed queues, a fork enters its child at the child's place, \<open>task_kill\<close> always
  comes to an end without a panic, and what it leaves behind.
\<close>

section \<open>The check and the fork\<close>

text \<open>
  C26. \<open>sched_queue_verify\<close> accepts exactly the well-formed queues: at most 1024 nodes, linked
  both ways, each a live task struct, the idle task among them.
\<close>
theorem sched_queue_verify_wf: "sched_queue_verify s = Inr () \<longleftrightarrow> (\<exists>qs. queue_wf s qs)"
  by (rule verify_wf)

lemma fork_struct_fields [simp]:
  "magic (fork_struct env p frame stack x) = magic x"
  "pid (fork_struct env p frame stack x) = p"
  "ppid (fork_struct env p frame stack x) = pid x"
  "prio_s (fork_struct env p frame stack x) = prio_s x"
  "fds (fork_struct env p frame stack x) = fds x"
  "cwd (fork_struct env p frame stack x) = cwd x"
  "brk (fork_struct env p frame stack x) = brk x"
  by (simp_all add: fork_struct_def)

text \<open>A struct outside the queue may be overwritten.\<close>

lemma queue_wf_outside: "queue_wf s qs \<Longrightarrow> t \<notin> set qs \<Longrightarrow> queue_wf (set_task t f s) qs"
  by (rule queue_wf_cong [of s]) auto

lemma queue_wf_last_pid: "queue_wf s qs \<Longrightarrow> queue_wf (s\<lparr>last_pid := p\<rparr>) qs"
  by (rule queue_wf_cong [of s]) auto

lemma same_but_links_more:
  assumes "same_but_links x y"
  shows "fds x = fds y" and "prio_d x = prio_d y" and "cwd x = cwd y" and "brk x = brk y"
    and "esp x = esp y" and "stack_base x = stack_base y" and "page_dir_phys x = page_dir_phys y"
proof -
  note e = assms [unfolded same_but_links_def]
  show "fds x = fds y" "prio_d x = prio_d y" "cwd x = cwd y" "brk x = brk y" "esp x = esp y"
    "stack_base x = stack_base y" "page_dir_phys x = page_dir_phys y"
    using arg_cong [OF e, of fds] arg_cong [OF e, of prio_d] arg_cong [OF e, of cwd] arg_cong [OF e, of brk]
      arg_cong [OF e, of esp] arg_cong [OF e, of stack_base] arg_cong [OF e, of page_dir_phys]
    by simp_all
qed


definition demo_task :: "u32 \<Rightarrow> u32 \<Rightarrow> int \<Rightarrow> tptr option \<Rightarrow> tptr option \<Rightarrow> task" where
  "demo_task p pp prio prev next = zero_task\<lparr>magic := TASK_MAGIC, pid := p, ppid := pp,
     prio_s := prio, prio_d := prio, stack_base := 0x10000 * p, page_dir_phys := 0x1000,
     t_prev := prev, t_next := next\<rparr>"

lemma demo_task_fields [simp]:
  "magic (demo_task p pp prio prev next) = TASK_MAGIC" "pid (demo_task p pp prio prev next) = p"
  "ppid (demo_task p pp prio prev next) = pp" "prio_s (demo_task p pp prio prev next) = prio"
  "t_prev (demo_task p pp prio prev next) = prev" "t_next (demo_task p pp prio prev next) = next"
  by (simp_all add: demo_task_def)

definition demo_sched :: sched_state where
  "demo_sched = \<lparr>task_at = (\<lambda>_. zero_task)(1 := demo_task 1 0 5 None (Some 2), 2 := demo_task 0 0 (-1) (Some 1) None),
     sched_queue = Some 1, running_task = Some 1, prev_task = None, total_ticks = 0, last_pid = 7\<rparr>"

definition demo_env :: create_env where
  "demo_env = \<lparr>ce_now = 0, ce_page_dir = 0x5000, ce_stack = Some 0xE0000000, ce_std = None,
     ce_elf_entry = 0x400000, ce_user_sp = 0xBFFFF000, ce_brk = 0x500000\<rparr>"


section \<open>Killing\<close>

lemma kill_ok_self: "kill_ok k n \<Longrightarrow> family k s qs \<Longrightarrow> t \<in> set qs \<Longrightarrow> pid (task_at s t) \<noteq> PID_IDLE \<Longrightarrow>
    t \<noteq> kc_init k \<Longrightarrow> length qs \<le> n \<Longrightarrow>
    \<exists>gone s' qs'. task_kill k n t s = Inr (gone, s') \<and> killed {t} s qs s' qs' \<and> t \<notin> set qs' \<and>
        (\<not> gone \<longrightarrow> running_task s' = running_task s \<and>
           (length (filter (\<lambda>q. ppid (task_at s q) = pid (task_at s t)) qs) \<le> MAX_CHILDREN \<longrightarrow>
            (\<forall>q \<in> set qs'. ppid (task_at s q) \<noteq> pid (task_at s t))))"
  unfolding kill_ok_def by blast


text \<open>
  Five tasks: idle (struct 1), the victim (2, pid 3), its children (3 and 4, pids 4 and 5),
  and the running task (5, pid 6), a child of the first of them.
\<close>

definition demo_kill :: kill_state where
  "demo_kill = \<lparr>task_at = (\<lambda>_. zero_task)(
       2 := demo_task 3 1 5 None (Some 3), 3 := demo_task 4 3 5 (Some 2) (Some 4),
       4 := demo_task 5 3 5 (Some 3) (Some 5), 5 := demo_task 6 4 5 (Some 4) (Some 1),
       1 := demo_task 0 0 (-1) (Some 5) None),
     sched_queue = Some 2, running_task = Some 5, prev_task = None, total_ticks = 0, last_pid = 6,
     effects = [], stale_stack = None\<rparr>"

definition demo_ctx :: kill_ctx where
  "demo_ctx = \<lparr>kc_init = 9, kc_env = demo_env, kc_kernel_dir = 0x1000\<rparr>"

lemma demo_family: "family demo_ctx demo_kill [2, 3, 4, 5, 1]"
  by (simp add: family_def queue_wf_def demo_kill_def demo_ctx_def QUEUE_BOUND_def PID_IDLE_def)


text \<open>
  A call of \<open>task_kill\<close> on an ancestor of the running task that is not its parent does
  not come back to the victim: with the running task two generations below, killing the
  victim's first child switches to another task, the second child stays in the queue
  although its parent is dead, and the victim's stack is never freed.
\<close>
theorem task_kill_loses_siblings:
  "case task_kill demo_ctx 5 2 demo_kill of
     Inr (gone, s') \<Rightarrow> gone \<and> running_task s' = Some 4 \<and>
       queue_nodes (sched_state.truncate s') = Some [4, 1] \<and>
       ppid (task_at s' 4) = pid (task_at s' 2) \<and> magic (task_at s' 2) = TASK_MAGIC_DEAD \<and>
       FreeStack (stack_base (task_at s' 2)) \<notin> set (effects s') \<and>
       stale_stack s' \<noteq> Some (stack_base (task_at s' 2))
   | Inl _ \<Rightarrow> False"
  by code_simp

end
