(* ===== verification/Vmm.thy ===== *)
theory Vmm
  imports Pmm Printf
begin

text \<open>
  The virtual memory manager, \<open>kernel/vmm.c\<close>: page directories and page tables in physical
  memory, the kernel's virtual range allocator, the window pool of temporary mappings,
  copy-on-write cloning and faults, and the initial mappings. Page directories, page
  tables and the directory of the kernel are reached at their physical address, which the
  kernel maps to itself; the content of other frames is reached through the page tables
  of the directory in \<open>CR3\<close>. The TLB is not part of the state.
\<close>

section \<open>The state\<close>

definition PTE_PRESENT :: u32 where "PTE_PRESENT = 0x001"
definition PTE_WRITE :: u32 where "PTE_WRITE = 0x002"
definition PTE_USER :: u32 where "PTE_USER = 0x004"
definition PTE_COW :: u32 where "PTE_COW = 0x200"

lemmas pte_defs = PTE_PRESENT_def PTE_WRITE_def PTE_USER_def PTE_COW_def

definition USER_PDE_START :: nat where "USER_PDE_START = 0x01000000 div 2 ^ 22"
definition USER_PDE_END :: nat where "USER_PDE_END = 0xC0000000 div 2 ^ 22"
definition KVIRT_BASE :: u32 where "KVIRT_BASE = 0xC0000000"
definition KVIRT_FL_MAX :: nat where "KVIRT_FL_MAX = 64"
definition KMAP_BASE :: u32 where "KMAP_BASE = 0xCFF00000"
definition KMAP_SLOTS :: nat where "KMAP_SLOTS = 16"

text \<open>
  \<open>pmem\<close> is the physical memory in words, at addresses that are multiples of four;
  \<open>kernel_dir\<close> is the address of the static \<open>page_directory\<close>; the free list is the used part
  of the array of (base, number of pages) entries.
\<close>

record vmm = pmm +
  pmem :: "u32 \<Rightarrow> u32"
  kernel_dir :: u32
  cr3 :: u32
  kmap_used :: u16
  kvirt_next :: u32
  kvirt_free :: "(u32 \<times> u32) list"

definition wr :: "u32 \<Rightarrow> u32 \<Rightarrow> 'a vmm_scheme \<Rightarrow> 'a vmm_scheme" where
  "wr a v m = m\<lparr>pmem := (pmem m)(a := v)\<rparr>"

definition frame_bits :: "u32 \<Rightarrow> u32" where
  "frame_bits w = w AND 0xFFFFF000"

text \<open>\<open>memset(frame, 0, PAGE_SIZE)\<close> and \<open>memcpy(dst, src, PAGE_SIZE)\<close> on whole frames.\<close>

definition zero_page :: "u32 \<Rightarrow> 'a vmm_scheme \<Rightarrow> 'a vmm_scheme" where
  "zero_page f m = m\<lparr>pmem := (\<lambda>a. if frame_bits a = f then 0 else pmem m a)\<rparr>"

definition copy_frame :: "u32 \<Rightarrow> u32 \<Rightarrow> 'a vmm_scheme \<Rightarrow> 'a vmm_scheme" where
  "copy_frame dst src m =
     m\<lparr>pmem := (\<lambda>a. if frame_bits a = dst then pmem m (src + (a AND 0xFFF)) else pmem m a)\<rparr>"

definition pd_index :: "u32 \<Rightarrow> u32" where "pd_index virt = drop_bit 22 virt"
definition pt_index :: "u32 \<Rightarrow> u32" where "pt_index virt = drop_bit 12 virt AND 0x3FF"

abbreviation pde_at :: "u32 \<Rightarrow> u32 \<Rightarrow> u32" where "pde_at dir i \<equiv> dir + 4 * i"

abbreviation present :: "u32 \<Rightarrow> bool" where "present e \<equiv> e AND PTE_PRESENT \<noteq> 0"

section \<open>Mapping and unmapping\<close>

text \<open>The page table the mapping goes to: created, copied from the kernel's, or reused.\<close>

definition get_table :: "u32 \<Rightarrow> u32 \<Rightarrow> u32 \<Rightarrow> 'a vmm_scheme \<Rightarrow> fault + 'a vmm_scheme" where
  "get_table dir i flags m =
     (let pde = pmem m (pde_at dir i) in
      if \<not> present pde then
        bindE (pmm_alloc_frame_zone PMM_ZONE_LOW m) (\<lambda>(pt_frame, m).
          Inr (wr (pde_at dir i) (pt_frame OR PTE_PRESENT OR PTE_WRITE OR (flags AND PTE_USER))
                 (zero_page pt_frame m)))
      else if dir \<noteq> kernel_dir m \<and> frame_bits pde = frame_bits (pmem m (pde_at (kernel_dir m) i)) then
        bindE (pmm_alloc_frame_zone PMM_ZONE_LOW m) (\<lambda>(pt_frame, m).
          Inr (wr (pde_at dir i) (pt_frame OR PTE_PRESENT OR PTE_WRITE OR (flags AND PTE_USER))
                 (copy_frame pt_frame (frame_bits pde) m)))
      else if flags AND PTE_USER \<noteq> 0 \<and> pde AND PTE_USER = 0 then
        Inr (wr (pde_at dir i) (pde OR PTE_USER) m)
      else Inr m)"

definition vmm_map_page_in :: "u32 \<Rightarrow> u32 \<Rightarrow> u32 \<Rightarrow> u32 \<Rightarrow> 'a vmm_scheme \<Rightarrow> fault + 'a vmm_scheme" where
  "vmm_map_page_in dir virt phys flags m =
     bindE (get_table dir (pd_index virt) flags m) (\<lambda>m.
       let page_table = frame_bits (pmem m (pde_at dir (pd_index virt)))
       in Inr (wr (pde_at page_table (pt_index virt)) (frame_bits phys OR (flags AND 0xFFF)) m))"

definition vmm_unmap_page_in :: "u32 \<Rightarrow> u32 \<Rightarrow> 'a vmm_scheme \<Rightarrow> 'a vmm_scheme" where
  "vmm_unmap_page_in dir virt m =
     (let pde = pmem m (pde_at dir (pd_index virt))
      in if \<not> present pde then m else wr (pde_at (frame_bits pde) (pt_index virt)) 0 m)"

definition vmm_map_page :: "u32 \<Rightarrow> u32 \<Rightarrow> u32 \<Rightarrow> 'a vmm_scheme \<Rightarrow> fault + 'a vmm_scheme" where
  "vmm_map_page virt phys flags m = vmm_map_page_in (kernel_dir m) virt phys flags m"

definition vmm_unmap_page :: "u32 \<Rightarrow> 'a vmm_scheme \<Rightarrow> 'a vmm_scheme" where
  "vmm_unmap_page virt m = vmm_unmap_page_in (kernel_dir m) virt m"

definition vmm_get_phys :: "u32 \<Rightarrow> 'a vmm_scheme \<Rightarrow> u32" where
  "vmm_get_phys virt m =
     (let pde = pmem m (pde_at (kernel_dir m) (pd_index virt)) in
      if \<not> present pde then 0
      else let pte = pmem m (pde_at (frame_bits pde) (pt_index virt)) in
           if \<not> present pte then 0 else frame_bits pte OR (virt AND 0xFFF))"

definition vmm_get_kernel_page_dir :: "'a vmm_scheme \<Rightarrow> u32" where
  "vmm_get_kernel_page_dir m = kernel_dir m"

definition vmm_switch_page_dir :: "u32 \<Rightarrow> 'a vmm_scheme \<Rightarrow> 'a vmm_scheme" where
  "vmm_switch_page_dir dir m = m\<lparr>cr3 := dir\<rparr>"

section \<open>The kernel's virtual ranges\<close>

definition best_fit :: "u32 \<Rightarrow> (u32 \<times> u32) list \<Rightarrow> nat" where
  "best_fit n fl =
     fold (\<lambda>i best. if n \<le> snd (fl ! i) \<and> (best = KVIRT_FL_MAX \<or> snd (fl ! i) < snd (fl ! best))
                    then i else best) [0..<length fl] KVIRT_FL_MAX"

text \<open>\<open>kvirt_free[i] = kvirt_free[--kvirt_free_count]\<close>.\<close>

definition swap_remove :: "nat \<Rightarrow> 'x list \<Rightarrow> 'x list" where
  "swap_remove i xs = butlast (xs[i := last xs])"

definition take_range :: "u32 \<Rightarrow> 'a vmm_scheme \<Rightarrow> u32 \<times> 'a vmm_scheme" where
  "take_range n m =
     (let fl = kvirt_free m; best = best_fit n fl in
      if best < KVIRT_FL_MAX then
        let (base, npages) = fl ! best;
            entry_end = base + npages * 4096;
            fl = (if npages = n then swap_remove best fl
                  else fl[best := (base + n * 4096, npages - n)])
        in (base, m\<lparr>kvirt_free := fl,
                    kvirt_next := (if entry_end > kvirt_next m then entry_end else kvirt_next m)\<rparr>)
      else (kvirt_next m, m\<lparr>kvirt_next := kvirt_next m + n * 4096\<rparr>))"

fun map_frames :: "nat \<Rightarrow> u32 \<Rightarrow> 'a vmm_scheme \<Rightarrow> fault + bool \<times> 'a vmm_scheme" where
  "map_frames 0 v m = Inr (True, m)"
| "map_frames (Suc k) v m =
     bindE (pmm_alloc_frame m) (\<lambda>(frame, m).
       if frame = 0 then Inr (False, m)
       else bindE (vmm_map_page v frame (PTE_PRESENT OR PTE_WRITE) m) (map_frames k (v + 4096)))"

definition vmm_alloc_pages :: "u32 \<Rightarrow> 'a vmm_scheme \<Rightarrow> fault + u32 \<times> 'a vmm_scheme" where
  "vmm_alloc_pages n m =
     (if n = 0 then Inr (0, m)
      else let (virt_base, m) = take_range n m
           in bindE (map_frames (unat n) virt_base m) (\<lambda>(ok, m). Inr (if ok then virt_base else 0, m)))"

fun unmap_frames :: "nat \<Rightarrow> u32 \<Rightarrow> 'a vmm_scheme \<Rightarrow> 'a vmm_scheme" where
  "unmap_frames 0 v m = m"
| "unmap_frames (Suc k) v m =
     (let phys = vmm_get_phys v m;
          m = (if phys \<noteq> 0 then pmm_free_frame phys m else m)
      in unmap_frames k (v + 4096) (vmm_unmap_page v m))"

text \<open>The \<open>restart\<close> loop: it starts over after every merge.\<close>

function merge_range :: "nat \<Rightarrow> u32 \<Rightarrow> u32 \<Rightarrow> (u32 \<times> u32) list \<Rightarrow> u32 \<times> u32 \<times> (u32 \<times> u32) list" where
  "merge_range i new_base new_npages fl =
     (if i < length fl then
        let (base, npages) = fl ! i in
        if base + npages * 4096 = new_base
          then merge_range 0 base (npages + new_npages) (swap_remove i fl)
        else if new_base + new_npages * 4096 = base
          then merge_range 0 new_base (new_npages + npages) (swap_remove i fl)
        else merge_range (i + 1) new_base new_npages fl
      else (new_base, new_npages, fl))"
  by pat_completeness auto
termination
  by (relation "measures [\<lambda>(i, b, n, fl). length fl, \<lambda>(i, b, n, fl). length fl - i]")
    (auto simp: swap_remove_def)

declare merge_range.simps [simp del]

definition vmm_free_pages :: "u32 \<Rightarrow> u32 \<Rightarrow> 'a vmm_scheme \<Rightarrow> 'a vmm_scheme" where
  "vmm_free_pages v n m =
     (let m = unmap_frames (unat n) v m;
          (new_base, new_npages, fl) = merge_range 0 v n (kvirt_free m)
      in m\<lparr>kvirt_free := (if length fl < KVIRT_FL_MAX then fl @ [(new_base, new_npages)] else fl)\<rparr>)"

section \<open>Temporary windows\<close>

definition vmm_kmap :: "u32 \<Rightarrow> 'a vmm_scheme \<Rightarrow> fault + u32 \<times> 'a vmm_scheme" where
  "vmm_kmap phys m =
     (case find (\<lambda>i. \<not> bit (kmap_used m) i) [0..<KMAP_SLOTS] of
        None \<Rightarrow> Inl (Panic ''vmm_kmap: all slots in use'')
      | Some i \<Rightarrow>
          let m = m\<lparr>kmap_used := kmap_used m OR push_bit i 1\<rparr>;
              virt = KMAP_BASE + of_nat i * 4096
          in bindE (vmm_map_page_in (cr3 m) virt phys (PTE_PRESENT OR PTE_WRITE) m) (\<lambda>m. Inr (virt, m)))"

definition vmm_kunmap :: "u32 \<Rightarrow> 'a vmm_scheme \<Rightarrow> fault + 'a vmm_scheme" where
  "vmm_kunmap v m =
     (let slot = unat (v - KMAP_BASE) div 4096 in
      if slot \<ge> KMAP_SLOTS then Inl (Panic ''vmm_kunmap: address not in kmap range'')
      else let m = vmm_unmap_page_in (cr3 m) v m
           in Inr (m\<lparr>kmap_used := kmap_used m AND NOT (push_bit slot 1)\<rparr>))"

text \<open>A word of virtual memory under the directory in \<open>CR3\<close>, and the copy of one page.\<close>

definition translate :: "u32 \<Rightarrow> u32 \<Rightarrow> 'a vmm_scheme \<Rightarrow> u32 option" where
  "translate dir v m =
     (let pde = pmem m (pde_at dir (pd_index v)) in
      if \<not> present pde then None
      else let pte = pmem m (pde_at (frame_bits pde) (pt_index v)) in
           if \<not> present pte then None else Some (frame_bits pte OR (v AND 0xFFF)))"

definition copy_frame_word :: "u32 \<Rightarrow> u32 \<Rightarrow> nat \<Rightarrow> 'a vmm_scheme \<Rightarrow> fault + 'a vmm_scheme" where
  "copy_frame_word dst src i m =
     (case (translate (cr3 m) (dst + 4 * of_nat i) m, translate (cr3 m) (src + 4 * of_nat i) m) of
        (Some d, Some s) \<Rightarrow> Inr (wr d (pmem m s) m)
      | _ \<Rightarrow> Inl BadAccess)"

definition copy_page :: "u32 \<Rightarrow> u32 \<Rightarrow> 'a vmm_scheme \<Rightarrow> fault + 'a vmm_scheme" where
  "copy_page dst src m = foldE (copy_frame_word dst src) [0..<1024] m"

section \<open>Page directories\<close>

definition vmm_create_page_dir :: "'a vmm_scheme \<Rightarrow> fault + u32 \<times> 'a vmm_scheme" where
  "vmm_create_page_dir m =
     bindE (pmm_alloc_frame_zone PMM_ZONE_LOW m) (\<lambda>(dir_frame, m).
       Inr (dir_frame, copy_frame dir_frame (kernel_dir m) m))"

text \<open>One entry of a page table: shared with the child, write-protected when writable.\<close>

definition clone_pte :: "u32 \<Rightarrow> u32 \<Rightarrow> nat \<Rightarrow> 'a vmm_scheme \<Rightarrow> 'a vmm_scheme" where
  "clone_pte src_pt new_pt i m =
     (let pte = pmem m (pde_at src_pt (of_nat i)) in
      if \<not> present pte then m
      else
        let frame = frame_bits pte;
            flags = pte AND 0xFFF;
            cow = (flags AND NOT PTE_WRITE) OR PTE_COW;
            m' = (if flags AND PTE_WRITE \<noteq> 0 then wr (pde_at src_pt (of_nat i)) (frame OR cow) m else m);
            flags' = (if flags AND PTE_WRITE \<noteq> 0 then cow else flags)
        in wr (pde_at new_pt (of_nat i)) (frame OR flags') (pmm_refcount_inc frame m'))"

definition clone_pde :: "u32 \<Rightarrow> u32 \<Rightarrow> nat \<Rightarrow> 'a vmm_scheme \<Rightarrow> fault + 'a vmm_scheme" where
  "clone_pde src_dir new_dir i m =
     (let pde = pmem m (pde_at src_dir (of_nat i)) in
      if \<not> present pde \<or> pde AND PTE_USER = 0 then Inr m
      else bindE (pmm_alloc_frame_zone PMM_ZONE_LOW m) (\<lambda>(new_pt, m).
        let m = fold (clone_pte (frame_bits pde) new_pt) [0..<1024] (zero_page new_pt m)
        in Inr (wr (pde_at new_dir (of_nat i))
                  (new_pt OR (pmem m (pde_at src_dir (of_nat i)) AND 0xFFF)) m)))"

definition vmm_clone_page_dir :: "u32 \<Rightarrow> 'a vmm_scheme \<Rightarrow> fault + u32 \<times> 'a vmm_scheme" where
  "vmm_clone_page_dir src_dir m =
     bindE (vmm_create_page_dir m) (\<lambda>(new_dir, m).
       bindE (foldE (clone_pde src_dir new_dir) [USER_PDE_START..<USER_PDE_END] m) (\<lambda>m.
         Inr (new_dir, m)))"

definition vmm_cow_fault :: "u32 \<Rightarrow> u32 \<Rightarrow> 'a vmm_scheme \<Rightarrow> fault + int \<times> 'a vmm_scheme" where
  "vmm_cow_fault dir fault_addr m =
     (let pde = pmem m (pde_at dir (pd_index fault_addr)) in
      if \<not> present pde then Inr (0, m)
      else
        let slot = pde_at (frame_bits pde) (pt_index fault_addr);
            pte = pmem m slot
        in if \<not> present pte then Inr (0, m)
           else if pte AND PTE_COW = 0 then Inr (0, m)
           else
             let old_frame = frame_bits pte;
                 flags = pte AND 0xFFF;
                 new_flags = (flags AND NOT PTE_COW) OR PTE_WRITE
             in if pmm_refcount_get old_frame m = 1 then Inr (1, wr slot (old_frame OR new_flags) m)
                else
                  bindE (pmm_alloc_frame m) (\<lambda>(new_frame, m).
                  bindE (vmm_kmap old_frame m) (\<lambda>(old_kp, m).
                  bindE (vmm_kmap new_frame m) (\<lambda>(new_kp, m).
                  bindE (copy_page new_kp old_kp m) (\<lambda>m.
                  bindE (vmm_kunmap new_kp m) (\<lambda>m.
                  bindE (vmm_kunmap old_kp m) (\<lambda>m.
                    Inr (1, wr slot (new_frame OR new_flags) (snd (pmm_refcount_dec old_frame m))))))))))"

text \<open>The user frames of one page table are released; the rest is the kernel's.\<close>

definition release_pte :: "u32 \<Rightarrow> nat \<Rightarrow> 'a vmm_scheme \<Rightarrow> 'a vmm_scheme" where
  "release_pte pt j m =
     (let pte = pmem m (pde_at pt (of_nat j)) in
      if present pte \<and> pte AND PTE_USER \<noteq> 0 then
        let (rc, m) = pmm_refcount_dec (frame_bits pte) m
        in if rc = 0 then pmm_free_frame (frame_bits pte) m else m
      else m)"

definition destroy_pde :: "u32 \<Rightarrow> nat \<Rightarrow> 'a vmm_scheme \<Rightarrow> 'a vmm_scheme" where
  "destroy_pde dir i m =
     (let pde = pmem m (pde_at dir (of_nat i));
          kpde = pmem m (pde_at (kernel_dir m) (of_nat i))
      in if \<not> present pde \<or> pde = kpde then m
         else
           let dir_frame = frame_bits pde;
               m = fold (release_pte dir_frame) [0..<1024] m
           in if present kpde \<and> dir_frame = frame_bits kpde then m
              else pmm_free_frame dir_frame m)"

definition vmm_destroy_page_dir :: "u32 \<Rightarrow> 'a vmm_scheme \<Rightarrow> fault + 'a vmm_scheme" where
  "vmm_destroy_page_dir dir m =
     (if dir = kernel_dir m then Inl (Panic ''vmm_destroy_page_dir: cannot destroy kernel page directory'')
      else Inr (pmm_free_frame dir (fold (destroy_pde dir) [0..<1024] m)))"

section \<open>The initial mappings\<close>

definition identity_map_range :: "u32 \<Rightarrow> u32 \<Rightarrow> u32 \<Rightarrow> 'a vmm_scheme \<Rightarrow> fault + 'a vmm_scheme" where
  "identity_map_range start stop flags m =
     (let start = start AND 0xFFFFF000;
          stop = (stop + 4095) AND 0xFFFFF000;
          pages = (if start < stop then unat (stop - start) div 4096 else 0)
      in foldE (\<lambda>i. let addr = start + of_nat i * 4096 in vmm_map_page addr addr flags) [0..<pages] m)"

definition prealloc_pt :: "nat \<Rightarrow> 'a vmm_scheme \<Rightarrow> fault + 'a vmm_scheme" where
  "prealloc_pt i m =
     (if present (pmem m (pde_at (kernel_dir m) (of_nat i))) then Inr m
      else bindE (pmm_alloc_frame_zone PMM_ZONE_LOW m) (\<lambda>(pt_frame, m).
        vmm_map_page pt_frame pt_frame (PTE_PRESENT OR PTE_WRITE)
          (wr (pde_at (kernel_dir m) (of_nat i)) (pt_frame OR PTE_PRESENT OR PTE_WRITE)
             (zero_page pt_frame m))))"

text \<open>
  \<open>fb\<close> is the framebuffer of the VBE mode: its address, pitch and height. The physical
  range is walked in steps of 4 MB below \<open>phys_top\<close>, a 32-bit byte count.
\<close>

definition init_vmm :: "(u32 \<times> nat \<times> nat) option \<Rightarrow> 'a vmm_scheme \<Rightarrow> fault + 'a vmm_scheme" where
  "init_vmm fb m =
     bindE (identity_map_range 0 0x01000000 (PTE_PRESENT OR PTE_WRITE) (zero_page (kernel_dir m) m)) (\<lambda>m.
     bindE (case fb of
              None \<Rightarrow> Inr m
            | Some (fb_start, pitch, height) \<Rightarrow>
                if fb_start = 0 then Inr m
                else let fb_size = (if of_nat (pitch * height) = (0 :: u32) then 4 * 1024 * 1024
                                    else of_nat (pitch * height))
                     in identity_map_range fb_start (fb_start + fb_size)
                          (PTE_PRESENT OR PTE_WRITE OR PTE_USER) m) (\<lambda>m.
     let phys_top = unat (of_nat (nframes m) * 4096 :: u32);
         steps = (phys_top + 0x3FFFFF) div 0x400000
     in bindE (if steps = 1024 then Inl Runaway else foldE prealloc_pt [0..<steps] m) (\<lambda>m.
        bindE (foldE prealloc_pt [768..<832] m) (\<lambda>m.
          Inr (m\<lparr>cr3 := kernel_dir m\<rparr>)))))"

section \<open>Describing an address\<close>

definition vmm_describe_addr :: "u32 \<Rightarrow> 'a vmm_scheme \<Rightarrow> fault + string \<times> nat" where
  "vmm_describe_addr addr m =
     (if addr < KVIRT_BASE then sprintf_k ''user/physical (0x%lx)'' [AInt addr]
      else if addr \<ge> KMAP_BASE \<and> addr < KMAP_BASE + of_nat KMAP_SLOTS * 4096
        then sprintf_k ''kmap slot %ld (transient, 0x%lx)'' [AInt ((addr - KMAP_BASE) div 4096), AInt addr]
      else case find (\<lambda>(base, npages). base \<le> addr \<and> addr < base + npages * 4096) (kvirt_free m) of
             Some (base, npages) \<Rightarrow>
               sprintf_k ''kvirt free [0x%lx-0x%lx) (0x%lx)'' [AInt base, AInt (base + npages * 4096), AInt addr]
           | None \<Rightarrow>
               if addr < kvirt_next m
               then sprintf_k ''kvirt alloc (0x%lx, below hwm 0x%lx)'' [AInt addr, AInt (kvirt_next m)]
               else sprintf_k ''kvirt unalloc (0x%lx, above hwm 0x%lx)'' [AInt addr, AInt (kvirt_next m)])"

end
