(* ===== verification/Vmm_Map.thy ===== *)
theory Vmm_Map
  imports Vmm
begin

text \<open>
  What mapping and unmapping do to the translations of every directory, when page tables
  are shared only with the kernel's own; the temporary windows; and the copy-on-write fault.
\<close>

section \<open>Addresses and entries\<close>

lemma high_mask: "(0xFFFFF000 :: u32) = NOT (mask 12)"
  by (simp add: mask_eq_exp_minus_1)

lemma low_mask: "(0xFFF :: u32) = mask 12"
  by (simp add: mask_eq_exp_minus_1)

definition aligned :: "u32 \<Rightarrow> bool" where
  "aligned a \<longleftrightarrow> frame_bits a = a"

lemma bit_frame_bits: "bit (frame_bits w) n \<longleftrightarrow> 12 \<le> n \<and> bit w n"
  unfolding frame_bits_def high_mask by (auto simp: bit_simps dest: bit_imp_le_length)

lemma bit_low: "bit (w AND 0xFFF :: u32) n \<longleftrightarrow> n < 12 \<and> bit w n"
  unfolding low_mask by (auto simp: bit_simps)

lemma unat_frame_bits: "unat (frame_bits w) = unat w - unat w mod 4096"
  by (simp add: frame_bits_def high_mask and_not_mask_nat)

lemma frame_bits_idem [simp]: "frame_bits (frame_bits w) = frame_bits w"
  by (rule bit_word_eqI) (simp add: bit_frame_bits)

lemma frame_bits_or: "frame_bits (v OR w) = frame_bits v OR frame_bits w"
  by (rule bit_word_eqI) (auto simp: bit_frame_bits bit_or_iff)

lemma frame_bits_and: "frame_bits (v AND w) = frame_bits v AND frame_bits w"
  by (rule bit_word_eqI) (auto simp: bit_frame_bits bit_and_iff)

lemma present_bit: "present e \<longleftrightarrow> bit e 0"
  by (simp add: PTE_PRESENT_def and_one_eq bit_0 odd_iff_mod_2_eq_one)

lemma present_or: "present (a OR b) \<longleftrightarrow> present a \<or> present b"
  by (simp add: present_bit bit_or_iff)

lemma frame_bits_and_low [simp]: "frame_bits (w AND 0xFFF) = 0"
  by (rule bit_word_eqI) (simp add: bit_frame_bits bit_low)

lemma frame_plus_low: "frame_bits w OR (w AND 0xFFF) = w"
  by (rule bit_word_eqI) (auto simp: bit_frame_bits bit_or_iff bit_low)

lemma frame_or_low:
  assumes "aligned f"
  shows "frame_bits (f OR (w AND 0xFFF)) = f" and "(f OR (w AND 0xFFF)) AND 0xFFF = w AND 0xFFF"
proof -
  have f: "frame_bits f = f" using assms by (simp add: aligned_def)
  then show "frame_bits (f OR (w AND 0xFFF)) = f" by (simp add: frame_bits_or)
  have "\<not> bit f n" if "n < 12" for n using arg_cong [OF f, of "\<lambda>x. bit x n"] that by (simp add: bit_frame_bits)
  then show "(f OR (w AND 0xFFF)) AND 0xFFF = w AND 0xFFF"
    by (intro bit_word_eqI) (auto simp: bit_low bit_or_iff)
qed

lemma aligned_frame_bits [simp]: "aligned (frame_bits w)"
  by (simp add: aligned_def)

lemma aligned_nat: "aligned a \<longleftrightarrow> unat a mod 4096 = 0"
proof -
  have "aligned a \<longleftrightarrow> unat (frame_bits a) = unat a" by (simp add: aligned_def word_unat_eq_iff)
  also have "\<dots> \<longleftrightarrow> unat a mod 4096 = 0"
    unfolding unat_frame_bits using mod_less_eq_dividend [of "unat a" 4096] by linarith
  finally show ?thesis .
qed

lemma aligned_pages:
  assumes "aligned a"
  obtains k where "unat a = 4096 * k" and "k < 1048576"
proof
  show *: "unat a = 4096 * (unat a div 4096)"
    using assms div_mult_mod_eq [of "unat a" 4096] unfolding aligned_nat by simp
  then show "unat a div 4096 < 1048576" using unat_u32_lt [of a] by simp
qed

lemma aligned_addr_of: "i < 1048576 \<Longrightarrow> aligned (addr_of i)"
  unfolding aligned_nat addr_of_def by (subst unat_of_nat_small) simp_all

lemma slot_offset: "i < 1024 \<Longrightarrow> unat (4 * i :: u32) = 4 * unat i \<and> unat i < 1024"
proof -
  assume "i < (1024 :: u32)"
  then have "unat i < 1024" by (simp add: word_less_nat_alt)
  then show ?thesis by (simp add: unat_word_ariths)
qed

lemma unat_slot:
  assumes "aligned d" and "i < 1024"
  shows "unat (pde_at d i) = unat d + 4 * unat i"
proof -
  obtain k where "unat d = 4096 * k" "k < 1048576" using aligned_pages [OF assms(1)] .
  with slot_offset [OF assms(2)] show ?thesis by (subst unat_plus_no_wrap) simp_all
qed

lemma unat_slot_mod:
  assumes "aligned d" and "i < 1024"
  shows "unat (pde_at d i) mod 4096 = 4 * unat i"
proof -
  obtain k where "unat d = 4096 * k" "k < 1048576" using aligned_pages [OF assms(1)] .
  with slot_offset [OF assms(2)] show ?thesis unfolding unat_slot [OF assms] by simp
qed

lemma frame_bits_slot [simp]: "aligned d \<Longrightarrow> i < 1024 \<Longrightarrow> frame_bits (pde_at d i) = d"
  by (simp add: word_unat_eq_iff unat_frame_bits unat_slot_mod) (simp add: unat_slot)

lemma low_bits_slot: "aligned d \<Longrightarrow> i < 1024 \<Longrightarrow> pde_at d i AND 0xFFF = 4 * i"
  unfolding low_mask by (simp add: word_unat_eq_iff unat_mask_mod unat_slot_mod slot_offset)

lemma slot_inj: "aligned d \<Longrightarrow> aligned e \<Longrightarrow> i < 1024 \<Longrightarrow> j < 1024 \<Longrightarrow>
    pde_at d i = pde_at e j \<longleftrightarrow> d = e \<and> i = j"
proof -
  assume *: "aligned d" "aligned e" "i < (1024 :: u32)" "j < (1024 :: u32)"
  have "i = j" if "pde_at d i = pde_at d j"
    using that unat_slot [OF *(1,3)] unat_slot [OF *(1,4)] by (simp add: word_unat_eq_iff)
  then show ?thesis using frame_bits_slot [OF *(1,3)] frame_bits_slot [OF *(2,4)] by metis
qed

lemma pd_index_less [simp]: "pd_index v < 1024"
proof -
  have "unat (drop_bit 22 v) = unat v div 2 ^ 22"
    unfolding unat_drop_bit_eq by (simp only: drop_bit_eq_div)
  then have "unat (pd_index v) < 1024" using unat_u32_lt [of v] by (simp add: pd_index_def)
  then show ?thesis by (simp add: word_less_nat_alt)
qed

lemma index_mask: "(0x3FF :: u32) = mask 10"
  by (simp add: mask_eq_exp_minus_1)

lemma pt_index_less [simp]: "pt_index v < 1024"
proof -
  have "unat (pt_index v) < 1024" by (simp add: pt_index_def index_mask unat_mask_mod)
  then show ?thesis by (simp add: word_less_nat_alt)
qed

text \<open>The two indices and the offset are the whole address.\<close>

lemma same_page: "frame_bits v = frame_bits w \<longleftrightarrow> pd_index v = pd_index w \<and> pt_index v = pt_index w"
proof
  assume e: "frame_bits v = frame_bits w"
  have b: "bit v n \<longleftrightarrow> bit w n" if "12 \<le> n" for n
    using arg_cong [OF e, of "\<lambda>x. bit x n"] that by (simp add: bit_frame_bits)
  show "pd_index v = pd_index w \<and> pt_index v = pt_index w"
    unfolding pd_index_def pt_index_def index_mask
    by (intro conjI bit_word_eqI) (auto simp: bit_simps b)
next
  assume e: "pd_index v = pd_index w \<and> pt_index v = pt_index w"
  show "frame_bits v = frame_bits w"
  proof (rule bit_word_eqI)
    fix n
    have hi: "bit v (22 + k) = bit w (22 + k)" for k
      using arg_cong [OF conjunct1 [OF e], of "\<lambda>x. bit x k"] by (simp add: pd_index_def bit_simps)
    have lo: "bit v (12 + k) = bit w (12 + k)" if "k < 10" for k
      using arg_cong [OF conjunct2 [OF e], of "\<lambda>x. bit x k"] that
      by (simp add: pt_index_def index_mask bit_simps)
    show "bit (frame_bits v) n = bit (frame_bits w) n"
      using hi [of "n - 22"] lo [of "n - 12"] by (cases "n < 22") (auto simp: bit_frame_bits)
  qed
qed

section \<open>Page tables of a set of directories\<close>

definition frame_used :: "'a vmm_scheme \<Rightarrow> u32 \<Rightarrow> bool" where
  "frame_used m f \<longleftrightarrow> frame_test m (frame_of f)"

abbreviation pde_of :: "'a vmm_scheme \<Rightarrow> u32 \<Rightarrow> u32 \<Rightarrow> u32" where
  "pde_of m d i \<equiv> pmem m (pde_at d i)"

abbreviation tbl :: "'a vmm_scheme \<Rightarrow> u32 \<Rightarrow> u32 \<Rightarrow> u32" where
  "tbl m d i \<equiv> frame_bits (pmem m (pde_at d i))"

text \<open>
  \<open>vm_ok D m\<close>: the directories \<open>D\<close>, the kernel's among them, and their page tables are
  frames in use; no table is a directory; and a table belongs to one entry of one
  directory, unless it is the kernel's table for that entry.
\<close>

definition kernel_table :: "'a vmm_scheme \<Rightarrow> u32 \<Rightarrow> u32 \<Rightarrow> bool" where
  "kernel_table m d i \<longleftrightarrow> present (pde_of m (kernel_dir m) i) \<and> tbl m d i = tbl m (kernel_dir m) i"

definition vm_ok :: "u32 set \<Rightarrow> 'a vmm_scheme \<Rightarrow> bool" where
  "vm_ok D m \<longleftrightarrow> pmm_ok m \<and> kernel_dir m \<in> D \<and> (\<forall>d \<in> D. aligned d \<and> frame_used m d) \<and>
     (\<forall>d \<in> D. \<forall>i < 1024. present (pde_of m d i) \<longrightarrow> tbl m d i \<notin> D \<and> frame_used m (tbl m d i)) \<and>
     (\<forall>d \<in> D. \<forall>e \<in> D. \<forall>i < 1024. \<forall>j < 1024. present (pde_of m d i) \<longrightarrow> present (pde_of m e j) \<longrightarrow>
        tbl m d i = tbl m e j \<longrightarrow> i = j \<and> (d = e \<or> kernel_table m d i))"

lemma vm_okD:
  assumes "vm_ok D m"
  shows "pmm_ok m" and "kernel_dir m \<in> D" and "\<And>d. d \<in> D \<Longrightarrow> aligned d" and "\<And>d. d \<in> D \<Longrightarrow> frame_used m d"
    and "\<And>d i. d \<in> D \<Longrightarrow> i < 1024 \<Longrightarrow> present (pde_of m d i) \<Longrightarrow> tbl m d i \<notin> D \<and> frame_used m (tbl m d i)"
    and "\<And>d e i j. d \<in> D \<Longrightarrow> e \<in> D \<Longrightarrow> i < 1024 \<Longrightarrow> j < 1024 \<Longrightarrow> present (pde_of m d i) \<Longrightarrow>
      present (pde_of m e j) \<Longrightarrow> tbl m d i = tbl m e j \<Longrightarrow> i = j \<and> (d = e \<or> kernel_table m d i)"
  using assms unfolding vm_ok_def by blast+

lemma wr_simps [simp]:
  "pmem (wr a v m) = (pmem m)(a := v)" "kernel_dir (wr a v m) = kernel_dir m" "cr3 (wr a v m) = cr3 m"
  "bitmap (wr a v m) = bitmap m" "nframes (wr a v m) = nframes m" "refcounts (wr a v m) = refcounts m"
  "kmap_used (wr a v m) = kmap_used m" "kvirt_next (wr a v m) = kvirt_next m" "kvirt_free (wr a v m) = kvirt_free m"
  by (simp_all add: wr_def)

lemma zero_page_simps [simp]:
  "pmem (zero_page f m) a = (if frame_bits a = f then 0 else pmem m a)"
  "kernel_dir (zero_page f m) = kernel_dir m" "cr3 (zero_page f m) = cr3 m"
  "bitmap (zero_page f m) = bitmap m" "nframes (zero_page f m) = nframes m"
  "refcounts (zero_page f m) = refcounts m" "kmap_used (zero_page f m) = kmap_used m"
  by (simp_all add: zero_page_def)

lemma copy_frame_simps [simp]:
  "pmem (copy_frame f g m) a = (if frame_bits a = f then pmem m (g + (a AND 0xFFF)) else pmem m a)"
  "kernel_dir (copy_frame f g m) = kernel_dir m" "cr3 (copy_frame f g m) = cr3 m"
  "bitmap (copy_frame f g m) = bitmap m" "nframes (copy_frame f g m) = nframes m"
  "refcounts (copy_frame f g m) = refcounts m" "kmap_used (copy_frame f g m) = kmap_used m"
  by (simp_all add: copy_frame_def)

lemma take_frame_vmm [simp]:
  "pmem (take_frame i m) = pmem m" "kernel_dir (take_frame i m) = kernel_dir m" "cr3 (take_frame i m) = cr3 m"
  "kmap_used (take_frame i m) = kmap_used m"
  by (simp_all add: take_frame_def frame_set_def)

lemma frame_used_same: "bitmap m' = bitmap m \<Longrightarrow> frame_used m' f = frame_used m f"
  by (simp add: frame_used_def frame_test_def)

text \<open>A new frame from the low zone.\<close>

lemma low_alloc:
  assumes ok: "pmm_ok m" and a: "pmm_alloc_frame_zone z m = Inr (f, m')"
  shows "aligned f" and "f \<noteq> 0" and "\<not> frame_used m f" and "\<And>g. frame_used m' g \<longleftrightarrow> frame_used m g \<or> frame_of g = frame_of f"
    and "pmem m' = pmem m" and "kernel_dir m' = kernel_dir m" and "cr3 m' = cr3 m" and "pmm_ok m'"
    and "kmap_used m' = kmap_used m" and "refcounts m' = (refcounts m)(frame_of f := 1)" and "nframes m' = nframes m"
    and "frame_of f < nframes m"
proof -
  from a obtain i where i: "f = addr_of i" "m' = take_frame i m" "256 \<le> i" "i < nframes m" "\<not> frame_test m i"
    by (rule alloc_zone_cases)
  then have lt: "i < 1048576" using ok by (simp add: pmm_ok_def)
  then have fr: "frame_of f = i" using i by (simp add: frame_addr)
  show "aligned f" using lt i by (simp add: aligned_addr_of)
  show "f \<noteq> 0" using lt i by (simp add: addr_of_zero)
  show "\<not> frame_used m f" using i fr by (simp add: frame_used_def)
  show "frame_used m' g \<longleftrightarrow> frame_used m g \<or> frame_of g = frame_of f" for g
    using i fr by (auto simp: frame_used_def)
  show "pmem m' = pmem m" "kernel_dir m' = kernel_dir m" "cr3 m' = cr3 m" "kmap_used m' = kmap_used m"
    using i by simp_all
  show "pmm_ok m'" "nframes m' = nframes m" using i ok by (simp_all add: pmm_ok_def take_frame_def)
  show "refcounts m' = (refcounts m)(frame_of f := 1)" using i fr by (simp add: take_frame_def)
  show "frame_of f < nframes m" using i fr by simp
qed

text \<open>The entry for a page, zero when there is no table.\<close>

definition pte_of :: "'a vmm_scheme \<Rightarrow> u32 \<Rightarrow> u32 \<Rightarrow> u32 \<Rightarrow> u32" where
  "pte_of m d i j = (if present (pde_of m d i) then pmem m (pde_at (tbl m d i) j) else 0)"

lemma translate_pte:
  "translate d v m = (let e = pte_of m d (pd_index v) (pt_index v) in
     if present e then Some (frame_bits e OR (v AND 0xFFF)) else None)"
  by (simp add: translate_def pte_of_def Let_def)

lemma get_phys_translate:
  "vmm_get_phys v m = (case translate (kernel_dir m) v m of None \<Rightarrow> 0 | Some a \<Rightarrow> a)"
  by (simp add: vmm_get_phys_def translate_def Let_def)

text \<open>What may change when the entry \<open>i\<close> of \<open>d\<close> gets a table of its own.\<close>

definition new_table :: "u32 set \<Rightarrow> u32 \<Rightarrow> u32 \<Rightarrow> 'a vmm_scheme \<Rightarrow> 'a vmm_scheme \<Rightarrow> bool" where
  "new_table D d i m m' \<longleftrightarrow> vm_ok D m' \<and> kernel_dir m' = kernel_dir m \<and> cr3 m' = cr3 m \<and> kmap_used m' = kmap_used m \<and>
     present (pde_of m' d i) \<and>
     (\<forall>e \<in> D. \<forall>k < 1024. \<forall>j < 1024. pte_of m' e k j = pte_of m e k j) \<and>
     (\<forall>e \<in> D. \<forall>k < 1024. present (pde_of m e k) \<longrightarrow> present (pde_of m' e k)) \<and>
     (\<forall>e \<in> D. \<forall>k < 1024. (e, k) \<noteq> (d, i) \<longrightarrow> pde_of m' e k = pde_of m e k) \<and>
     (d \<noteq> kernel_dir m \<longrightarrow> (\<forall>e \<in> D. present (pde_of m' e i) \<longrightarrow> tbl m' e i = tbl m' d i \<longrightarrow> e = d)) \<and>
     nframes m' = nframes m \<and>
     (\<forall>f. frame_used m f \<longrightarrow> frame_used m' f \<and> refcounts m' (frame_of f) = refcounts m (frame_of f)) \<and>
     (\<forall>a. frame_bits a \<notin> D \<longrightarrow> frame_used m (frame_bits a) \<longrightarrow> pmem m' a = pmem m a) \<and>
     (\<forall>e \<in> D. \<forall>k < 1024. present (pde_of m' e k) \<longrightarrow>
        \<not> frame_used m (tbl m' e k) \<or> present (pde_of m e k) \<and> tbl m' e k = tbl m e k)"

lemma new_tableD:
  assumes "new_table D d i m m'"
  shows "vm_ok D m'" and "kernel_dir m' = kernel_dir m" and "cr3 m' = cr3 m" and "kmap_used m' = kmap_used m"
    and "present (pde_of m' d i)"
    and "\<And>e k j. e \<in> D \<Longrightarrow> k < 1024 \<Longrightarrow> j < 1024 \<Longrightarrow> pte_of m' e k j = pte_of m e k j"
    and "\<And>e k. e \<in> D \<Longrightarrow> k < 1024 \<Longrightarrow> present (pde_of m e k) \<Longrightarrow> present (pde_of m' e k)"
    and "\<And>e k. e \<in> D \<Longrightarrow> k < 1024 \<Longrightarrow> (e, k) \<noteq> (d, i) \<Longrightarrow> pde_of m' e k = pde_of m e k"
    and "\<And>e. d \<noteq> kernel_dir m \<Longrightarrow> e \<in> D \<Longrightarrow> present (pde_of m' e i) \<Longrightarrow> tbl m' e i = tbl m' d i \<Longrightarrow> e = d"
    and "nframes m' = nframes m"
    and "\<And>f. frame_used m f \<Longrightarrow> frame_used m' f \<and> refcounts m' (frame_of f) = refcounts m (frame_of f)"
    and "\<And>a. frame_bits a \<notin> D \<Longrightarrow> frame_used m (frame_bits a) \<Longrightarrow> pmem m' a = pmem m a"
    and "\<And>e k. e \<in> D \<Longrightarrow> k < 1024 \<Longrightarrow> present (pde_of m' e k) \<Longrightarrow>
      \<not> frame_used m (tbl m' e k) \<or> present (pde_of m e k) \<and> tbl m' e k = tbl m e k"
  using assms unfolding new_table_def by (elim conjE; simp only: simp_thms Ball_def)+

lemma fresh_table:
  assumes ok: "vm_ok D m" and d: "d \<in> D" "i < 1024"
    and a: "pmm_alloc_frame_zone z m = Inr (f, m1)"
    and low: "frame_bits fl = 0" "present fl"
    and m2: "pmem m2 (pde_at d i) = f OR fl" "kernel_dir m2 = kernel_dir m1" "cr3 m2 = cr3 m1"
      "kmap_used m2 = kmap_used m1" "bitmap m2 = bitmap m1" "nframes m2 = nframes m1" "refcounts m2 = refcounts m1"
    and keep: "\<And>a. frame_bits a \<noteq> f \<Longrightarrow> a \<noteq> pde_at d i \<Longrightarrow> pmem m2 a = pmem m1 a"
    and content: "\<And>j. j < 1024 \<Longrightarrow> pmem m2 (pde_at f j) = pte_of m d i j"
    and np: "\<not> present (pde_of m d i) \<or> d \<noteq> kernel_dir m"
  shows "new_table D d i m m2"
proof -
  note ok' = vm_okD [OF ok]
  note al = low_alloc [OF ok'(1) a]
  have use: "frame_used m2 g \<longleftrightarrow> frame_used m g \<or> frame_of g = frame_of f" for g
    using al(4) frame_used_same [OF m2(5)] by simp
  have fD: "f \<notin> D" using al(3) ok'(4) by auto
  have pde: "pde_of m2 e k = pde_of m e k" if "e \<in> D" "k < 1024" "(e, k) \<noteq> (d, i)" for e k
  proof -
    have "pde_at e k \<noteq> pde_at d i" using that d ok'(3) by (auto simp: slot_inj)
    moreover have "frame_bits (pde_at e k) \<noteq> f" using that ok'(3) fD by auto
    ultimately show ?thesis using keep al(5) by simp
  qed
  have tf: "tbl m e k \<noteq> f" if "e \<in> D" "k < 1024" "present (pde_of m e k)" for e k
    using ok'(5) [OF that] al(3) by metis
  have new: "tbl m2 d i = f" using al(1) low by (simp add: m2(1) frame_bits_or aligned_def)
  have pr: "present (pde_of m2 d i)"
    unfolding m2(1) present_or using low(2) by simp
  have tbl2: "tbl m2 e k = (if (e, k) = (d, i) then f else tbl m e k)" if "e \<in> D" "k < 1024" for e k
    using pde [OF that] new by auto
  have pr2: "present (pde_of m2 e k) \<longleftrightarrow> (e, k) = (d, i) \<or> present (pde_of m e k)" if "e \<in> D" "k < 1024" for e k
    using pde [OF that] pr by (cases "(e, k) = (d, i)") auto
  have pte: "pte_of m2 e k j = pte_of m e k j" if e: "e \<in> D" "k < 1024" and j: "j < 1024" for e k j
  proof (cases "(e, k) = (d, i)")
    case True
    then show ?thesis using pr new content [OF j] by (simp add: pte_of_def)
  next
    case False
    show ?thesis
    proof (cases "present (pde_of m e k)")
      case p: True
      have "tbl m e k \<notin> D" using ok'(5) [OF e p] by simp
      then have "pde_at (tbl m e k) j \<noteq> pde_at d i"
        using d ok'(3) [OF d(1)] j by (auto simp: slot_inj)
      then have "pmem m2 (pde_at (tbl m e k) j) = pmem m (pde_at (tbl m e k) j)"
        using keep [of "pde_at (tbl m e k) j"] tf [OF e p] j al(5) by simp
      then show ?thesis using pde [OF e False] p by (simp add: pte_of_def)
    qed (use pde [OF e False] in \<open>simp add: pte_of_def\<close>)
  qed
  have kt: "kernel_table m2 e k" if "kernel_table m e k" "e \<in> D" "k < 1024" "(e, k) \<noteq> (d, i)" for e k
  proof -
    have "(kernel_dir m, k) \<noteq> (d, i)" using np that by (auto simp: kernel_table_def)
    then show ?thesis
      using that(1) pde [OF that(2,3,4)] pde [OF ok'(2) that(3)] by (simp add: kernel_table_def m2 al)
  qed
  have ok2: "vm_ok D m2" unfolding vm_ok_def
  proof (intro conjI ballI allI impI)
    show "pmm_ok m2" using al(8) m2(6) by (simp add: pmm_ok_def)
    show "kernel_dir m2 \<in> D" using ok'(2) by (simp add: m2 al)
    show "aligned e" "frame_used m2 e" if "e \<in> D" for e using that ok'(3,4) use by auto
    show "tbl m2 e k \<notin> D" "frame_used m2 (tbl m2 e k)" if "e \<in> D" "k < 1024" "present (pde_of m2 e k)" for e k
      using that pr2 [OF that(1,2)] tbl2 [OF that(1,2)] ok'(5) [of e k] fD use by auto
    fix e e' k k'
    assume e: "e \<in> D" "e' \<in> D" "k < 1024" "k' < 1024" "present (pde_of m2 e k)" "present (pde_of m2 e' k')"
      "tbl m2 e k = tbl m2 e' k'"
    have "k = k' \<and> (e = e' \<or> kernel_table m2 e k)"
    proof (cases "(e, k) = (d, i) \<or> (e', k') = (d, i)")
      case True
      then have "(e, k) = (d, i) \<and> (e', k') = (d, i)"
        using e tbl2 [OF e(1,3)] tbl2 [OF e(2,4)] pr2 [OF e(1,3)] pr2 [OF e(2,4)] tf
        by (metis (no_types, lifting))
      then show ?thesis by simp
    next
      case False
      then have "present (pde_of m e k)" "present (pde_of m e' k')" "tbl m e k = tbl m e' k'"
        using e pde by auto
      from ok'(6) [OF e(1-4) this] False kt [of e k] e show ?thesis by auto
    qed
    then show "k = k'" "e = e' \<or> kernel_table m2 e k" by auto
  qed
  show ?thesis unfolding new_table_def
  proof (intro conjI ballI allI impI)
    show "e = d" if "e \<in> D" "present (pde_of m2 e i)" "tbl m2 e i = tbl m2 d i" for e
      using that tbl2 [OF that(1) d(2)] pr2 [OF that(1) d(2)] new tf [OF that(1) d(2)] by (auto split: if_splits)
  next
    fix a assume a: "frame_bits a \<notin> D" "frame_used m (frame_bits a)"
    then have "frame_bits a \<noteq> f" "a \<noteq> pde_at d i" using al(3) d ok'(3) by auto
    then show "pmem m2 a = pmem m a" using keep al(5) by simp
  next
    fix g assume g: "frame_used m g"
    then show "frame_used m2 g" using use by simp
    show "refcounts m2 (frame_of g) = refcounts m (frame_of g)"
      using g al(3) by (auto simp: m2 al(10) frame_used_def)
  next
    fix e k assume e: "e \<in> D" "k < 1024" "present (pde_of m2 e k)"
    show "\<not> frame_used m (tbl m2 e k) \<or> present (pde_of m e k) \<and> tbl m2 e k = tbl m e k"
      using e(3) tbl2 [OF e(1,2)] pr2 [OF e(1,2)] al(3) by auto
  qed (use ok2 pte pde pr pr2 in \<open>auto simp: m2 al\<close>)
qed

lemma table_flags:
  "frame_bits (PTE_PRESENT OR PTE_WRITE OR (flags AND PTE_USER)) = 0"
  "present (PTE_PRESENT OR PTE_WRITE OR (flags AND PTE_USER))"
proof -
  show "frame_bits (PTE_PRESENT OR PTE_WRITE OR (flags AND PTE_USER)) = 0"
    by (simp add: frame_bits_or frame_bits_and) (simp add: frame_bits_def pte_defs)
  show "present (PTE_PRESENT OR PTE_WRITE OR (flags AND PTE_USER))"
    unfolding present_or by (simp add: PTE_PRESENT_def)
qed

text \<open>A present table keeps its frame when a flag is added to its entry.\<close>

lemma same_tables:
  assumes ok: "vm_ok D m" and d: "d \<in> D" "i < 1024" "present (pde_of m d i)"
    and fl: "frame_bits fl = 0" "present (pde_of m d i OR fl)"
    and own: "d \<noteq> kernel_dir m \<longrightarrow> tbl m d i \<noteq> tbl m (kernel_dir m) i"
  shows "new_table D d i m (wr (pde_at d i) (pde_of m d i OR fl) m)"
proof -
  let ?m = "wr (pde_at d i) (pde_of m d i OR fl) m"
  note ok' = vm_okD [OF ok]
  have pde: "pde_of ?m e k = (if (e, k) = (d, i) then pde_of m d i OR fl else pde_of m e k)"
    if "e \<in> D" "k < 1024" for e k
    using slot_inj [OF ok'(3) [OF that(1)] ok'(3) [OF d(1)] that(2) d(2)] by auto
  have tbl: "tbl ?m e k = tbl m e k" if "e \<in> D" "k < 1024" for e k
    unfolding pde [OF that] by (simp add: frame_bits_or fl(1))
  have pr: "present (pde_of ?m e k) \<longleftrightarrow> present (pde_of m e k)" if "e \<in> D" "k < 1024" for e k
    unfolding pde [OF that] using d(3) fl(2) by (cases "(e, k) = (d, i)") auto
  have kt: "kernel_table ?m e k \<longleftrightarrow> kernel_table m e k" if "e \<in> D" "k < 1024" for e k
    unfolding kernel_table_def using tbl [OF that] tbl [OF ok'(2) that(2)] pr [OF ok'(2) that(2)] by simp
  have use: "frame_used ?m g = frame_used m g" for g by (rule frame_used_same) simp
  have pte: "pte_of ?m e k j = pte_of m e k j" if e: "e \<in> D" "k < 1024" "j < 1024" for e k j
  proof (cases "present (pde_of m e k)")
    case True
    then have "pde_at (tbl m e k) j \<noteq> pde_at d i"
      using ok'(5) [OF e(1,2) True] d ok'(3) [OF d(1)] e by (auto simp: slot_inj)
    then show ?thesis unfolding pte_of_def pr [OF e(1,2)] tbl [OF e(1,2)] by simp
  qed (simp only: pte_of_def pr [OF e(1,2)] if_False)
  have "vm_ok D ?m" unfolding vm_ok_def
  proof (intro conjI ballI allI impI)
    fix e e' k k'
    assume "e \<in> D" "e' \<in> D" "k < 1024" "k' < 1024" "present (pde_of ?m e k)" "present (pde_of ?m e' k')"
      "tbl ?m e k = tbl ?m e' k'"
    then have "k = k' \<and> (e = e' \<or> kernel_table m e k)" using ok'(6) [of e e' k k'] pr tbl by auto
    then show "k = k'" "e = e' \<or> kernel_table ?m e k" using kt \<open>e \<in> D\<close> \<open>k < 1024\<close> by auto
  qed (use ok' pr tbl use in \<open>auto simp: pmm_ok_def\<close>)
  moreover have "e = d" if "d \<noteq> kernel_dir m" "e \<in> D" "present (pde_of ?m e i)" "tbl ?m e i = tbl ?m d i" for e
  proof -
    have "present (pde_of m e i)" "tbl m e i = tbl m d i"
      using that pr [OF that(2) d(2)] tbl [OF that(2) d(2)] tbl [OF d(1,2)] by auto
    then have "e = d \<or> kernel_table m e i" using ok'(6) [OF that(2) d(1) d(2) d(2)] d(3) by auto
    then show ?thesis using own that(1) \<open>tbl m e i = tbl m d i\<close> by (auto simp: kernel_table_def)
  qed
  moreover have "present (pde_of ?m d i)" using pr d by blast
  moreover have "pde_of ?m e k = pde_of m e k" if "e \<in> D" "k < 1024" "(e, k) \<noteq> (d, i)" for e k
    unfolding pde [OF that(1,2)] if_not_P [OF that(3)] ..
  moreover have "kernel_dir ?m = kernel_dir m" "cr3 ?m = cr3 m" "kmap_used ?m = kmap_used m" by simp_all
  moreover have "present (pde_of ?m e k)" if "e \<in> D" "k < 1024" "present (pde_of m e k)" for e k
    using pr that by blast
  moreover have "nframes ?m = nframes m" "refcounts ?m = refcounts m" by simp_all
  moreover have "pmem ?m a = pmem m a" if "frame_bits a \<notin> D" for a using that d ok'(3) by auto
  moreover have "frame_used ?m f \<and> refcounts ?m (frame_of f) = refcounts m (frame_of f)" if "frame_used m f" for f
    using that use by simp
  moreover have "present (pde_of m e k) \<and> tbl ?m e k = tbl m e k"
    if "e \<in> D" "k < 1024" "present (pde_of ?m e k)" for e k using that pr tbl by blast
  ultimately show ?thesis unfolding new_table_def using pte by (intro conjI) blast+
qed

lemma get_table_spec:
  assumes ok: "vm_ok D m" and d: "d \<in> D" "i < 1024" and g: "get_table d i flags m = Inr m'"
  shows "new_table D d i m m'"
proof -
  note ok' = vm_okD [OF ok]
  let ?fl = "PTE_PRESENT OR PTE_WRITE OR (flags AND PTE_USER)"
  consider (create) "\<not> present (pde_of m d i)"
    | (shared) "present (pde_of m d i)" "d \<noteq> kernel_dir m" "tbl m d i = tbl m (kernel_dir m) i"
    | (own) "present (pde_of m d i)" "\<not> (d \<noteq> kernel_dir m \<and> tbl m d i = tbl m (kernel_dir m) i)"
    by blast
  then show ?thesis
  proof cases
    case create
    with g obtain f m1 where a: "pmm_alloc_frame_zone PMM_ZONE_LOW m = Inr (f, m1)"
      and m': "m' = wr (pde_at d i) (f OR ?fl) (zero_page f m1)"
      by (auto simp: get_table_def Let_def or.assoc elim!: bindE_InrE)
    note al = low_alloc [OF ok'(1) a]
    have fd: "f \<noteq> d" using al(3) ok'(4) [OF d(1)] by auto
    show ?thesis unfolding m'
    proof (rule fresh_table [OF ok d a table_flags])
      show "pmem (wr (pde_at d i) (f OR ?fl) (zero_page f m1)) (pde_at f j) = pte_of m d i j" if "j < 1024" for j
        using create that fd al(1) ok'(3) [OF d(1)] d(2) by (simp add: pte_of_def slot_inj)
    qed (use create in auto)
  next
    case shared
    with g obtain f m1 where a: "pmm_alloc_frame_zone PMM_ZONE_LOW m = Inr (f, m1)"
      and m': "m' = wr (pde_at d i) (f OR ?fl) (copy_frame f (tbl m d i) m1)"
      by (auto simp: get_table_def Let_def or.assoc elim!: bindE_InrE)
    note al = low_alloc [OF ok'(1) a]
    have fd: "f \<noteq> d" using al(3) ok'(4) [OF d(1)] by auto
    show ?thesis unfolding m'
    proof (rule fresh_table [OF ok d a table_flags])
      show "pmem (wr (pde_at d i) (f OR ?fl) (copy_frame f (tbl m d i) m1)) (pde_at f j) = pte_of m d i j" if "j < 1024" for j
        using shared that fd al(1) ok'(3) [OF d(1)] d(2) by (simp add: pte_of_def slot_inj low_bits_slot al(5))
    qed (use shared in auto)
  next
    case own
    then have "m' = m \<or> m' = wr (pde_at d i) (pde_of m d i OR PTE_USER) m"
      using g by (auto simp: get_table_def Let_def split: if_splits)
    moreover have "m = wr (pde_at d i) (pde_of m d i OR 0) m" by (simp add: wr_def)
    moreover have "present (pde_of m d i OR PTE_USER)" "present (pde_of m d i OR 0)"
      unfolding present_or using own by simp_all
    ultimately show ?thesis
      using own same_tables [OF ok d own(1), of 0] same_tables [OF ok d own(1), of PTE_USER]
      by (auto simp: frame_bits_def pte_defs)
  qed
qed

section \<open>Mapping\<close>

text \<open>A write into a table is seen by the directories that have it, at that entry only.\<close>

lemma write_table:
  fixes x :: u32
  assumes ok: "vm_ok D m" and d: "d \<in> D" "i < 1024" "present (pde_of m d i)" and j: "j < 1024"
  defines "m' \<equiv> wr (pde_at (tbl m d i) j) x m"
  shows "vm_ok D m'"
    and "e \<in> D \<Longrightarrow> k < 1024 \<Longrightarrow> pde_of m' e k = pde_of m e k"
    and "e \<in> D \<Longrightarrow> k < 1024 \<Longrightarrow> l < 1024 \<Longrightarrow> pte_of m' e k l =
      (if k = i \<and> l = j \<and> present (pde_of m e i) \<and> tbl m e i = tbl m d i then x else pte_of m e k l)"
proof -
  note ok' = vm_okD [OF ok]
  have notD: "tbl m d i \<notin> D" using ok'(5) [OF d] by simp
  show pde: "pde_of m' e k = pde_of m e k" if "e \<in> D" "k < 1024" for e k
  proof -
    have "pde_at (tbl m d i) j \<noteq> pde_at e k" using notD that j ok'(3) by (auto simp: slot_inj)
    then show ?thesis by (simp add: m'_def)
  qed
  have kd: "kernel_dir m' = kernel_dir m" by (simp add: m'_def)
  have use: "frame_used m' g = frame_used m g" for g by (rule frame_used_same) (simp add: m'_def)
  have kt: "kernel_table m' e k \<longleftrightarrow> kernel_table m e k" if "e \<in> D" "k < 1024" for e k
    unfolding kernel_table_def kd pde [OF that] pde [OF ok'(2) that(2)] ..
  show "vm_ok D m'" unfolding vm_ok_def
  proof (intro conjI ballI allI impI)
    fix e e' k k'
    assume e: "e \<in> D" "e' \<in> D" "k < 1024" "k' < 1024" "present (pde_of m' e k)" "present (pde_of m' e' k')"
      "tbl m' e k = tbl m' e' k'"
    then have "k = k' \<and> (e = e' \<or> kernel_table m e k)" using ok'(6) [of e e' k k'] pde by auto
    then show "k = k'" "e = e' \<or> kernel_table m' e k" using kt e by auto
  qed (use ok' pde use kd in \<open>auto simp: pmm_ok_def m'_def\<close>)
  show "pte_of m' e k l = (if k = i \<and> l = j \<and> present (pde_of m e i) \<and> tbl m e i = tbl m d i then x else pte_of m e k l)"
    if e: "e \<in> D" "k < 1024" "l < 1024"
  proof (cases "present (pde_of m e k)")
    case True
    have "tbl m e k = tbl m d i \<longrightarrow> k = i" using ok'(6) [OF e(1) d(1) e(2) d(2) True d(3)] by simp
    moreover have "pde_at (tbl m e k) l = pde_at (tbl m d i) j \<longleftrightarrow> tbl m e k = tbl m d i \<and> l = j"
      using e j by (simp add: slot_inj)
    ultimately show ?thesis unfolding pte_of_def pde [OF e(1,2)] using True by (auto simp: m'_def)
  next
    case False
    then show ?thesis unfolding pte_of_def pde [OF e(1,2)] by auto
  qed
qed

lemma map_page_in_entries:
  assumes ok: "vm_ok D m" and d: "d \<in> D" and m': "vmm_map_page_in d v p fl m = Inr m'"
  shows "vm_ok D m'" and "kernel_dir m' = kernel_dir m" and "cr3 m' = cr3 m" and "kmap_used m' = kmap_used m"
    and "present (pde_of m' d (pd_index v))"
    and "e \<in> D \<Longrightarrow> k < 1024 \<Longrightarrow> l < 1024 \<Longrightarrow> pte_of m' e k l =
      (if k = pd_index v \<and> l = pt_index v \<and> present (pde_of m' e k) \<and> tbl m' e k = tbl m' d k
       then frame_bits p OR (fl AND 0xFFF) else pte_of m e k l)"
    and "d \<noteq> kernel_dir m \<Longrightarrow> e \<in> D \<Longrightarrow> present (pde_of m' e (pd_index v)) \<Longrightarrow>
      tbl m' e (pd_index v) = tbl m' d (pd_index v) \<Longrightarrow> e = d"
proof -
  let ?i = "pd_index v" and ?x = "frame_bits p OR (fl AND 0xFFF)"
  from m' obtain m1 where g: "get_table d ?i fl m = Inr m1"
    and e': "m' = wr (pde_at (tbl m1 d ?i) (pt_index v)) ?x m1"
    by (auto simp: vmm_map_page_in_def Let_def elim!: bindE_InrE)
  have nt: "new_table D d ?i m m1" by (rule get_table_spec [OF ok d _ g]) simp
  note n = new_tableD [OF nt]
  note pte = n(6) and own = n(9)
  note w = write_table [OF n(1) d pd_index_less n(5) pt_index_less [of v], where x = ?x, folded e']
  show "vm_ok D m'" by (rule w(1))
  show "kernel_dir m' = kernel_dir m" "cr3 m' = cr3 m" "kmap_used m' = kmap_used m" using n by (simp_all add: e')
  show "present (pde_of m' d ?i)" using w(2) [OF d] n(5) by simp
  show "pte_of m' e k l = (if k = ?i \<and> l = pt_index v \<and> present (pde_of m' e k) \<and> tbl m' e k = tbl m' d k
      then ?x else pte_of m e k l)" if "e \<in> D" "k < 1024" "l < 1024"
    unfolding w(3) [OF that] pte [OF that] w(2) [OF that(1,2)] w(2) [OF d that(2)] by auto
  show "e = d" if "d \<noteq> kernel_dir m" "e \<in> D" "present (pde_of m' e ?i)" "tbl m' e ?i = tbl m' d ?i"
    using own that w(2) [OF that(2)] w(2) [OF d] by simp
qed

lemma flags_entry: "frame_bits (frame_bits p OR (fl AND 0xFFF)) = frame_bits p"
  by (rule frame_or_low) simp

lemma present_low: "present (w AND 0xFFF) \<longleftrightarrow> present w"
  by (simp add: present_bit bit_low)

text \<open>The translations after a mapping, for the directory itself and for the others.\<close>

lemma map_translate:
  assumes ok: "vm_ok D m" and d: "d \<in> D" and fl: "present fl" and m': "vmm_map_page_in d v p fl m = Inr m'"
  shows "translate d w m' = (if frame_bits w = frame_bits v then Some (frame_bits p OR (w AND 0xFFF)) else translate d w m)"
    and "d \<noteq> kernel_dir m \<Longrightarrow> e \<in> D \<Longrightarrow> e \<noteq> d \<Longrightarrow> translate e w m' = translate e w m"
    and "frame_bits w \<noteq> frame_bits v \<Longrightarrow> e \<in> D \<Longrightarrow> translate e w m' = translate e w m"
proof -
  note s = map_page_in_entries [OF ok d m']
  have pr: "present (frame_bits p OR (fl AND 0xFFF))" unfolding present_or present_low using fl by simp
  show "translate d w m' = (if frame_bits w = frame_bits v then Some (frame_bits p OR (w AND 0xFFF)) else translate d w m)"
    unfolding translate_pte s(6) [OF d pd_index_less pt_index_less] same_page
    using pr s(5) flags_entry by (auto simp: Let_def)
  show "translate e w m' = translate e w m" if "d \<noteq> kernel_dir m" "e \<in> D" "e \<noteq> d"
    unfolding translate_pte s(6) [OF that(2) pd_index_less pt_index_less] using s(7) [OF that(1,2)] that(3) by auto
  show "translate e w m' = translate e w m" if "frame_bits w \<noteq> frame_bits v" "e \<in> D"
    unfolding translate_pte s(6) [OF that(2) pd_index_less pt_index_less] using that(1) unfolding same_page by auto
qed

text \<open>A frame in use that is neither a directory nor a table: only its content matters.\<close>

definition data_frame :: "u32 set \<Rightarrow> 'a vmm_scheme \<Rightarrow> u32 \<Rightarrow> bool" where
  "data_frame D m f \<longleftrightarrow> frame_used m f \<and> f \<notin> D \<and> (\<forall>e \<in> D. \<forall>k < 1024. present (pde_of m e k) \<longrightarrow> tbl m e k \<noteq> f)"

lemma map_page_in_data:
  assumes ok: "vm_ok D m" and d: "d \<in> D" and m': "vmm_map_page_in d v p fl m = Inr m'"
  shows "nframes m' = nframes m" and "frame_used m f \<Longrightarrow> frame_used m' f"
    and "frame_used m f \<Longrightarrow> refcounts m' (frame_of f) = refcounts m (frame_of f)"
    and "data_frame D m f \<Longrightarrow> data_frame D m' f"
    and "data_frame D m (frame_bits a) \<Longrightarrow> pmem m' a = pmem m a"
    and "e \<in> D \<Longrightarrow> k < 1024 \<Longrightarrow> (e, k) \<noteq> (d, pd_index v) \<Longrightarrow> pde_of m' e k = pde_of m e k"
    and "e \<in> D \<Longrightarrow> k < 1024 \<Longrightarrow> present (pde_of m e k) \<Longrightarrow> present (pde_of m' e k)"
proof -
  let ?i = "pd_index v" and ?x = "frame_bits p OR (fl AND 0xFFF)"
  from m' obtain m1 where g: "get_table d ?i fl m = Inr m1"
    and e': "m' = wr (pde_at (tbl m1 d ?i) (pt_index v)) ?x m1"
    by (auto simp: vmm_map_page_in_def Let_def elim!: bindE_InrE)
  have nt: "new_table D d ?i m m1" by (rule get_table_spec [OF ok d _ g]) simp
  note n = new_tableD [OF nt]
  note w = write_table [OF n(1) d pd_index_less n(5) pt_index_less [of v], where x = ?x, folded e']
  have use: "frame_used m' g = frame_used m1 g" for g by (rule frame_used_same) (simp add: e')
  show "nframes m' = nframes m" using n(10) by (simp add: e')
  show "frame_used m' f" if "frame_used m f" using n(11) [OF that] use by simp
  show "refcounts m' (frame_of f) = refcounts m (frame_of f)" if "frame_used m f"
    using n(11) [OF that] by (simp add: e')
  have t1: "tbl m1 e k \<noteq> g" if g: "data_frame D m g" and e: "e \<in> D" "k < 1024" "present (pde_of m1 e k)" for g e k
    using n(13) [OF e] g e(1,2) unfolding data_frame_def by metis
  show "data_frame D m' f" if f: "data_frame D m f"
    unfolding data_frame_def
  proof (intro conjI ballI allI impI)
    show "frame_used m' f" using n(11) [of f] f use by (simp add: data_frame_def)
    show "f \<notin> D" using f by (simp add: data_frame_def)
    show "tbl m' e k \<noteq> f" if "e \<in> D" "k < 1024" "present (pde_of m' e k)" for e k
      using t1 [OF f that(1,2)] that(3) w(2) [OF that(1,2)] by simp
  qed
  show "pmem m' a = pmem m a" if f: "data_frame D m (frame_bits a)"
  proof -
    have "tbl m1 d ?i \<noteq> frame_bits a" by (rule t1 [OF f d pd_index_less n(5)])
    then have "a \<noteq> pde_at (tbl m1 d ?i) (pt_index v)" by auto
    moreover have "pmem m1 a = pmem m a" using n(12) f by (simp add: data_frame_def)
    ultimately show ?thesis by (simp add: e')
  qed
  show "pde_of m' e k = pde_of m e k" if "e \<in> D" "k < 1024" "(e, k) \<noteq> (d, ?i)"
    unfolding w(2) [OF that(1,2)] by (rule n(8) [OF that])
  show "present (pde_of m' e k)" if "e \<in> D" "k < 1024" "present (pde_of m e k)"
    unfolding w(2) [OF that(1,2)] by (rule n(7) [OF that])
qed

lemma unmap_page_in_entries:
  fixes v :: u32
  assumes ok: "vm_ok D m" and d: "d \<in> D"
  defines "m' \<equiv> vmm_unmap_page_in d v m"
  shows "vm_ok D m'" and "kernel_dir m' = kernel_dir m" and "cr3 m' = cr3 m" and "kmap_used m' = kmap_used m"
    and "nframes m' = nframes m" and "refcounts m' = refcounts m" and "bitmap m' = bitmap m"
    and "e \<in> D \<Longrightarrow> k < 1024 \<Longrightarrow> pde_of m' e k = pde_of m e k"
    and "translate d w m' = (if frame_bits w = frame_bits v then None else translate d w m)"
    and "e \<in> D \<Longrightarrow> frame_bits w \<noteq> frame_bits v \<Longrightarrow> translate e w m' = translate e w m"
    and "data_frame D m (frame_bits a) \<Longrightarrow> pmem m' a = pmem m a"
    and "e \<in> D \<Longrightarrow> k < 1024 \<Longrightarrow> k \<noteq> pd_index v \<Longrightarrow> l < 1024 \<Longrightarrow> pte_of m' e k l = pte_of m e k l"
proof -
  let ?i = "pd_index v"
  have "vm_ok D m' \<and> kernel_dir m' = kernel_dir m \<and> cr3 m' = cr3 m \<and> kmap_used m' = kmap_used m \<and>
      nframes m' = nframes m \<and> refcounts m' = refcounts m \<and> bitmap m' = bitmap m \<and>
      (\<forall>e \<in> D. \<forall>k < 1024. pde_of m' e k = pde_of m e k) \<and>
      (\<forall>w. translate d w m' = (if frame_bits w = frame_bits v then None else translate d w m)) \<and>
      (\<forall>e \<in> D. \<forall>w. frame_bits w \<noteq> frame_bits v \<longrightarrow> translate e w m' = translate e w m) \<and>
      (\<forall>a. data_frame D m (frame_bits a) \<longrightarrow> pmem m' a = pmem m a) \<and>
      (\<forall>e \<in> D. \<forall>k < 1024. k \<noteq> ?i \<longrightarrow> (\<forall>l < 1024. pte_of m' e k l = pte_of m e k l))"
  proof (cases "present (pde_of m d ?i)")
    case True
    then have m': "m' = wr (pde_at (tbl m d ?i) (pt_index v)) 0 m"
      by (simp add: m'_def vmm_unmap_page_in_def Let_def)
    note w = write_table [OF ok d pd_index_less True pt_index_less [of v], where x = 0, folded m']
    have np: "\<not> present 0" by simp
    have "a \<noteq> pde_at (tbl m d ?i) (pt_index v)" if "data_frame D m (frame_bits a)" for a
    proof -
      have "tbl m d ?i \<noteq> frame_bits a" using that d True pd_index_less unfolding data_frame_def by blast
      then show ?thesis by auto
    qed
    then have "\<forall>a. data_frame D m (frame_bits a) \<longrightarrow> pmem m' a = pmem m a" by (simp add: m')
    moreover have "translate d w m' = (if frame_bits w = frame_bits v then None else translate d w m)" for w
      unfolding translate_pte w(3) [OF d pd_index_less pt_index_less] same_page using True by (auto simp: Let_def)
    moreover have "translate e w m' = translate e w m" if "e \<in> D" "frame_bits w \<noteq> frame_bits v" for e w
      unfolding translate_pte w(3) [OF that(1) pd_index_less pt_index_less] using that(2) unfolding same_page by auto
    moreover have "\<forall>e \<in> D. \<forall>k < 1024. k \<noteq> ?i \<longrightarrow> (\<forall>l < 1024. pte_of m' e k l = pte_of m e k l)" using w(3) by auto
    moreover have "\<forall>e \<in> D. \<forall>k < 1024. pde_of m' e k = pde_of m e k" using w(2) by blast
    ultimately show ?thesis using w(1) by (intro conjI) (auto simp: m')
  next
    case False
    then have "m' = m" by (simp add: m'_def vmm_unmap_page_in_def Let_def)
    moreover have "translate d w m = None" if "frame_bits w = frame_bits v" for w
      using False that by (simp add: translate_def Let_def same_page)
    ultimately show ?thesis using ok by auto
  qed
  then show "vm_ok D m'" "kernel_dir m' = kernel_dir m" "cr3 m' = cr3 m" "kmap_used m' = kmap_used m"
    "nframes m' = nframes m" "refcounts m' = refcounts m" "bitmap m' = bitmap m"
    "e \<in> D \<Longrightarrow> k < 1024 \<Longrightarrow> pde_of m' e k = pde_of m e k"
    "translate d w m' = (if frame_bits w = frame_bits v then None else translate d w m)"
    "e \<in> D \<Longrightarrow> frame_bits w \<noteq> frame_bits v \<Longrightarrow> translate e w m' = translate e w m"
    "data_frame D m (frame_bits a) \<Longrightarrow> pmem m' a = pmem m a"
    "e \<in> D \<Longrightarrow> k < 1024 \<Longrightarrow> k \<noteq> pd_index v \<Longrightarrow> l < 1024 \<Longrightarrow> pte_of m' e k l = pte_of m e k l"
    by (elim conjE; simp only: simp_thms Ball_def)+
qed

section \<open>Temporary windows and the copy of a page\<close>

lemma vm_cong:
  assumes "pmem m' = pmem m" and "bitmap m' = bitmap m" and "kernel_dir m' = kernel_dir m" and "nframes m' = nframes m"
  shows "vm_ok D m' = vm_ok D m" and "data_frame D m' f = data_frame D m f" and "translate d w m' = translate d w m"
    and "frame_used m' f = frame_used m f" and "pte_of m' d k l = pte_of m d k l"
  using assms by (simp_all add: vm_ok_def data_frame_def translate_def frame_used_def frame_test_def pmm_ok_def
    kernel_table_def pte_of_def Let_def)

definition window :: "nat \<Rightarrow> u32" where
  "window i = KMAP_BASE + of_nat i * 4096"

lemma unat_window: "i < 16 \<Longrightarrow> unat (window i) = 3488612352 + i * 4096"
proof -
  assume i: "i < 16"
  have "unat (of_nat i * 4096 :: u32) = i * 4096"
  proof -
    have "unat (of_nat (i * 4096) :: u32) = i * 4096" using i by (intro unat_of_nat_small) simp
    then show ?thesis by (simp only: of_nat_mult of_nat_numeral)
  qed
  then show ?thesis using i unfolding window_def KMAP_BASE_def by (subst unat_plus_no_wrap) simp_all
qed

lemma window_aligned: "i < 16 \<Longrightarrow> aligned (window i)"
  unfolding aligned_nat unat_window by presburger

lemma window_inj: "i < 16 \<Longrightarrow> j < 16 \<Longrightarrow> window i = window j \<longleftrightarrow> i = j"
  by (simp add: word_unat_eq_iff unat_window)

lemma window_pd_index: "i < 16 \<Longrightarrow> pd_index (window i) = 0x33F"
proof -
  assume i: "i < 16"
  have "unat (drop_bit 22 (window i)) = 831"
    unfolding unat_drop_bit_eq unat_window [OF i] using i by (simp add: drop_bit_eq_div)
  then show ?thesis by (simp add: word_unat_eq_iff pd_index_def)
qed

lemma kmap_window:
  assumes "vmm_kmap f m = Inr (v, m')"
  obtains i m0 where "i < 16" and "v = window i" and "\<not> bit (kmap_used m) i"
    and "m0 = m\<lparr>kmap_used := kmap_used m OR push_bit i 1\<rparr>"
    and "vmm_map_page_in (cr3 m) v f (PTE_PRESENT OR PTE_WRITE) m0 = Inr m'"
proof -
  from assms obtain i where i: "find (\<lambda>i. \<not> bit (kmap_used m) i) [0..<KMAP_SLOTS] = Some i"
    and r: "bindE (vmm_map_page_in (cr3 m) (window i) f (PTE_PRESENT OR PTE_WRITE)
      (m\<lparr>kmap_used := kmap_used m OR push_bit i 1\<rparr>)) (\<lambda>m. Inr (window i, m)) = Inr (v, m')"
    by (auto simp: vmm_kmap_def Let_def window_def split: option.splits)
  from i have "i < 16" "\<not> bit (kmap_used m) i" by (simp_all add: find_upt_Some KMAP_SLOTS_def)
  with r that show thesis by (auto elim!: bindE_InrE)
qed

lemma slot_or: "aligned f \<Longrightarrow> j < 1024 \<Longrightarrow> f OR 4 * j = pde_at f j"
  using frame_plus_low [of "pde_at f j"] by (simp add: low_bits_slot)

lemma of_nat_index: "j < 1024 \<Longrightarrow> (of_nat j :: u32) < 1024"
  by (simp add: word_less_nat_alt unat_of_nat_small)

lemma copy_page_spec:
  assumes ok: "vm_ok D m" and c: "cr3 m \<in> D" and nf: "data_frame D m nf" "aligned nf" and sf: "aligned sf" "sf \<noteq> nf"
    and al: "aligned dst" "aligned src"
    and dst: "\<And>w. frame_bits w = dst \<Longrightarrow> translate (cr3 m) w m = Some (nf OR (w AND 0xFFF))"
    and src: "\<And>w. frame_bits w = src \<Longrightarrow> translate (cr3 m) w m = Some (sf OR (w AND 0xFFF))"
  obtains q where "copy_page dst src m = Inr (m\<lparr>pmem := q\<rparr>)"
    and "\<And>j. j < 1024 \<Longrightarrow> q (pde_at nf (of_nat j)) = pmem m (pde_at sf (of_nat j))"
    and "\<And>a. frame_bits a \<noteq> nf \<Longrightarrow> q a = pmem m a"
proof -
  have keep: "translate (cr3 m) w (m\<lparr>pmem := q\<rparr>) = translate (cr3 m) w m"
    if q: "\<And>a. frame_bits a \<noteq> nf \<Longrightarrow> q a = pmem m a" for q w
  proof -
    have a: "aligned (cr3 m)" using vm_okD(3) [OF ok c] .
    have "cr3 m \<noteq> nf" using c nf(1) by (auto simp: data_frame_def)
    then have 1: "q (pde_at (cr3 m) (pd_index w)) = pde_of m (cr3 m) (pd_index w)" using q a by simp
    have "q (pde_at (tbl m (cr3 m) (pd_index w)) (pt_index w)) = pmem m (pde_at (tbl m (cr3 m) (pd_index w)) (pt_index w))"
      if "present (pde_of m (cr3 m) (pd_index w))"
    proof -
      have "tbl m (cr3 m) (pd_index w) \<noteq> nf" using nf(1) c that pd_index_less unfolding data_frame_def by blast
      then show ?thesis using q by simp
    qed
    with 1 show ?thesis by (simp add: translate_def Let_def)
  qed
  have "n \<le> 1024 \<Longrightarrow> \<exists>q. foldE (copy_frame_word dst src) [0..<n] m = Inr (m\<lparr>pmem := q\<rparr>) \<and>
     (\<forall>j < n. q (pde_at nf (of_nat j)) = pmem m (pde_at sf (of_nat j))) \<and> (\<forall>a. frame_bits a \<noteq> nf \<longrightarrow> q a = pmem m a)" for n
  proof (induction n)
    case 0
    then show ?case by (intro exI [of _ "pmem m"]) simp
  next
    case (Suc n)
    then obtain q where q: "foldE (copy_frame_word dst src) [0..<n] m = Inr (m\<lparr>pmem := q\<rparr>)"
      "\<forall>j < n. q (pde_at nf (of_nat j)) = pmem m (pde_at sf (of_nat j))" "\<forall>a. frame_bits a \<noteq> nf \<longrightarrow> q a = pmem m a"
      by auto
    have n: "(of_nat n :: u32) < 1024" using Suc.prems by (simp add: of_nat_index)
    have d: "translate (cr3 m) (pde_at dst (of_nat n)) (m\<lparr>pmem := q\<rparr>) = Some (pde_at nf (of_nat n))"
      using dst [of "pde_at dst (of_nat n)"] keep [of q] q(3) n al nf(2) by (simp add: low_bits_slot slot_or)
    have s: "translate (cr3 m) (pde_at src (of_nat n)) (m\<lparr>pmem := q\<rparr>) = Some (pde_at sf (of_nat n))"
      using src [of "pde_at src (of_nat n)"] keep [of q] q(3) n al sf(1) by (simp add: low_bits_slot slot_or)
    have e: "frame_bits (pde_at sf (of_nat n)) \<noteq> nf" using sf n by simp
    let ?q = "q(pde_at nf (of_nat n) := q (pde_at sf (of_nat n)))"
    have "copy_frame_word dst src n (m\<lparr>pmem := q\<rparr>) = Inr (m\<lparr>pmem := ?q\<rparr>)"
      using d s by (simp add: copy_frame_word_def wr_def)
    moreover have "?q (pde_at nf (of_nat j)) = pmem m (pde_at sf (of_nat j))" if "j < Suc n" for j
    proof (cases "j = n")
      case True
      then show ?thesis using q(3) e by simp
    next
      case False
      then have "of_nat j \<noteq> (of_nat n :: u32)"
        using that Suc.prems by (simp add: word_unat_eq_iff unat_of_nat_small)
      then have "pde_at nf (of_nat j) \<noteq> pde_at nf (of_nat n)"
        using slot_inj [OF nf(2) nf(2) of_nat_index n] that Suc.prems by simp
      then show ?thesis using q(2) that False by simp
    qed
    moreover have "?q a = pmem m a" if "frame_bits a \<noteq> nf" for a using that q(3) n nf(2) by auto
    ultimately show ?case using q(1)
      by (intro exI [of _ ?q] conjI allI impI) (simp_all only: foldE_append upt_Suc_append bindE_simps foldE.simps le0)
  qed
  from this [of 1024] obtain q where "foldE (copy_frame_word dst src) [0..<1024] m = Inr (m\<lparr>pmem := q\<rparr>)"
    "\<forall>j < 1024. q (pde_at nf (of_nat j)) = pmem m (pde_at sf (of_nat j))" "\<forall>a. frame_bits a \<noteq> nf \<longrightarrow> q a = pmem m a"
    by auto
  then show thesis using that by (simp add: copy_page_def)
qed

end
