(* ===== verification/Vmm_Cow.thy ===== *)
theory Vmm_Cow
  imports Vmm_Map
begin

text \<open>
  The properties of the virtual memory manager: what a mapping does to every directory,
  and what a copy-on-write fault on a shared page does.
\<close>

section \<open>Steps that leave the user mappings alone\<close>

text \<open>
  \<open>quiet D X m m'\<close>: the tables of the entries other than the one of the temporary windows
  are as before, frames in use stay in use with their counts, and frames of data other
  than \<open>X\<close> keep their content.
\<close>

definition quiet :: "u32 set \<Rightarrow> u32 set \<Rightarrow> 'a vmm_scheme \<Rightarrow> 'a vmm_scheme \<Rightarrow> bool" where
  "quiet D X m m' \<longleftrightarrow> vm_ok D m' \<and> kernel_dir m' = kernel_dir m \<and> cr3 m' = cr3 m \<and> nframes m' = nframes m \<and>
     (\<forall>f. frame_used m f \<longrightarrow> frame_used m' f \<and> refcounts m' (frame_of f) = refcounts m (frame_of f)) \<and>
     (\<forall>f. data_frame D m f \<longrightarrow> data_frame D m' f) \<and>
     (\<forall>a. data_frame D m (frame_bits a) \<longrightarrow> frame_bits a \<notin> X \<longrightarrow> pmem m' a = pmem m a) \<and>
     (\<forall>e \<in> D. \<forall>k < 1024. k \<noteq> 0x33F \<longrightarrow> pde_of m' e k = pde_of m e k \<and>
        (\<forall>l < 1024. pte_of m' e k l = pte_of m e k l))"

lemma quiet_trans: "quiet D X m m1 \<Longrightarrow> quiet D Y m1 m2 \<Longrightarrow> quiet D (X \<union> Y) m m2"
  unfolding quiet_def by (elim conjE, intro conjI; simp)

lemma quiet_kmap:
  assumes ok: "vm_ok D m" and c: "cr3 m \<in> D" and k: "vmm_kmap f m = Inr (v, m')" and f: "aligned f"
  obtains i where "i < 16" and "v = window i" and "\<not> bit (kmap_used m) i"
    and "kmap_used m' = kmap_used m OR push_bit i 1" and "quiet D {} m m'"
    and "\<And>w. frame_bits w = v \<Longrightarrow> translate (cr3 m) w m' = Some (f OR (w AND 0xFFF))"
    and "\<And>w. frame_bits w \<noteq> v \<Longrightarrow> translate (cr3 m) w m' = translate (cr3 m) w m"
proof -
  from k obtain i m0 where i: "i < 16" "v = window i" "\<not> bit (kmap_used m) i"
    and m0: "m0 = m\<lparr>kmap_used := kmap_used m OR push_bit i 1\<rparr>"
    and mp: "vmm_map_page_in (cr3 m) v f (PTE_PRESENT OR PTE_WRITE) m0 = Inr m'"
    by (rule kmap_window)
  have same: "pmem m0 = pmem m" "bitmap m0 = bitmap m" "kernel_dir m0 = kernel_dir m" "nframes m0 = nframes m"
    "refcounts m0 = refcounts m" "cr3 m0 = cr3 m" by (simp_all add: m0)
  note cong = vm_cong [OF same(1-4)]
  have ok0: "vm_ok D m0" using ok cong by simp
  note e = map_page_in_entries [OF ok0 c mp] and da = map_page_in_data [OF ok0 c mp]
  have pd: "pd_index v = 0x33F" using i by (simp add: window_pd_index)
  have fv: "frame_bits v = v" using i window_aligned by (simp add: aligned_def)
  have ff: "frame_bits f = f" using f by (simp add: aligned_def)
  have pr: "present (PTE_PRESENT OR PTE_WRITE)" by (simp add: pte_defs)
  note tr = map_translate [OF ok0 c pr mp, unfolded cong fv ff]
  show thesis
  proof (rule that [OF i])
    show "kmap_used m' = kmap_used m OR push_bit i 1" using e(4) by (simp add: m0)
    show "translate (cr3 m) w m' = Some (f OR (w AND 0xFFF))" if "frame_bits w = v" for w
      using tr(1) [of w] that by simp
    show "translate (cr3 m) w m' = translate (cr3 m) w m" if "frame_bits w \<noteq> v" for w
      using tr(1) [of w] that by simp
    show "quiet D {} m m'" unfolding quiet_def
    proof (intro conjI allI ballI impI)
      fix e' k assume "e' \<in> D" "k < (1024 :: u32)" "k \<noteq> 0x33F"
      then show "pde_of m' e' k = pde_of m e' k" "\<And>l. l < 1024 \<Longrightarrow> pte_of m' e' k l = pte_of m e' k l"
        using da(6) [of e' k] e(6) [of e' k] pd cong same by simp_all
    qed (use e da cong same in \<open>simp_all\<close>)
  qed
qed

lemma window_slot: "i < 16 \<Longrightarrow> unat (window i - KMAP_BASE) div 4096 = i"
proof -
  assume i: "i < 16"
  have "KMAP_BASE \<le> window i"
    unfolding word_le_nat_alt unat_window [OF i] by (simp add: KMAP_BASE_def)
  then have "unat (window i - KMAP_BASE) = i * 4096"
    using unat_window [OF i] by (simp add: unat_sub KMAP_BASE_def)
  then show ?thesis by simp
qed

lemma quiet_kunmap:
  assumes ok: "vm_ok D m" and c: "cr3 m \<in> D" and i: "i < 16"
  obtains m' where "vmm_kunmap (window i) m = Inr m'" and "quiet D {} m m'"
proof -
  let ?m = "vmm_unmap_page_in (cr3 m) (window i) m"
  let ?m' = "?m\<lparr>kmap_used := kmap_used ?m AND NOT (push_bit i 1)\<rparr>"
  note u = unmap_page_in_entries [OF ok c, where v = "window i"]
  have same: "pmem ?m' = pmem ?m" "bitmap ?m' = bitmap ?m" "kernel_dir ?m' = kernel_dir ?m" "nframes ?m' = nframes ?m"
    by simp_all
  note cong = vm_cong [OF same]
  have pd: "pd_index (window i) = 0x33F" using i by (rule window_pd_index)
  have fu: "frame_used ?m f = frame_used m f" for f by (rule frame_used_same) (rule u(7))
  have df: "data_frame D ?m f" if f: "data_frame D m f" for f
    using f by (simp add: data_frame_def fu u(8))
  have "vmm_kunmap (window i) m = Inr ?m'"
    unfolding vmm_kunmap_def window_slot [OF i] using i by (simp add: KMAP_SLOTS_def Let_def)
  moreover have "quiet D {} m ?m'" unfolding quiet_def
  proof (intro conjI allI ballI impI)
    fix e k assume e: "e \<in> D" "k < (1024 :: u32)" "k \<noteq> 0x33F"
    show "pde_of ?m' e k = pde_of m e k" using u(8) [OF e(1,2)] by simp
    show "pte_of ?m' e k l = pte_of m e k l" if "l < 1024" for l
      using u(12) [OF e(1,2) _ that] e(3) pd cong by simp
  qed (use u cong fu df in \<open>simp_all\<close>)
  ultimately show thesis by (rule that)
qed

lemma quiet_alloc:
  assumes ok: "vm_ok D m" and a: "pmm_alloc_frame_zone z m = Inr (f, m')"
  shows "quiet D {} m m'" and "data_frame D m' f" and "aligned f" and "\<not> frame_used m f" and "pmem m' = pmem m"
    and "refcounts m' (frame_of f) = 1" and "kmap_used m' = kmap_used m"
proof -
  note ok' = vm_okD [OF ok]
  note al = low_alloc [OF ok'(1) a]
  have use: "frame_used m' g" if "frame_used m g" for g using al(4) that by simp
  have pte: "pte_of m' e k l = pte_of m e k l" for e k l by (simp add: pte_of_def al)
  have kt: "kernel_table m' e k = kernel_table m e k" for e k by (simp add: kernel_table_def al)
  have "vm_ok D m'" unfolding vm_ok_def using ok' al(5,6,8) use kt by simp
  moreover have "refcounts m' (frame_of g) = refcounts m (frame_of g)" if "frame_used m g" for g
    using that al(3) by (auto simp: al(10) frame_used_def)
  ultimately show "quiet D {} m m'" unfolding quiet_def data_frame_def using use pte al by simp
  show "data_frame D m' f" unfolding data_frame_def
  proof (intro conjI ballI allI impI)
    show "frame_used m' f" using al(4) by simp
    show "f \<notin> D" using al(3) ok'(4) by auto
    show "tbl m' e k \<noteq> f" if "e \<in> D" "k < 1024" "present (pde_of m' e k)" for e k
      using ok'(5) [OF that(1,2)] that(3) al(3,5) by auto
  qed
qed (use low_alloc [OF vm_okD(1) [OF ok] a] in simp_all)

lemma quiet_content:
  assumes ok: "vm_ok D m" and nf: "data_frame D m nf" and q: "\<And>a. frame_bits a \<noteq> nf \<Longrightarrow> q a = pmem m a"
  shows "quiet D {nf} m (m\<lparr>pmem := q\<rparr>)"
proof -
  let ?m = "m\<lparr>pmem := q\<rparr>"
  note ok' = vm_okD [OF ok]
  have pde: "pde_of ?m e k = pde_of m e k" if "e \<in> D" "k < 1024" for e k
  proof -
    have "frame_bits (pde_at e k) \<noteq> nf" using that ok'(3) nf by (auto simp: data_frame_def)
    then show ?thesis using q by simp
  qed
  have pte: "pte_of ?m e k l = pte_of m e k l" if "e \<in> D" "k < 1024" "l < 1024" for e k l
  proof (cases "present (pde_of m e k)")
    case True
    then have "tbl m e k \<noteq> nf" using nf that unfolding data_frame_def by blast
    then show ?thesis unfolding pte_of_def pde [OF that(1,2)] using q that(3) by simp
  next
    case False
    then show ?thesis unfolding pte_of_def pde [OF that(1,2)] by simp
  qed
  have use: "frame_used ?m g = frame_used m g" for g by (rule frame_used_same) simp
  have kt: "kernel_table ?m e k = kernel_table m e k" if "e \<in> D" "k < 1024" for e k
    unfolding kernel_table_def using pde [OF that] pde [OF ok'(2) that(2)] by simp
  have "vm_ok D ?m" unfolding vm_ok_def
  proof (intro conjI ballI allI impI)
    fix e e' k k'
    assume e: "e \<in> D" "e' \<in> D" "k < 1024" "k' < 1024" "present (pde_of ?m e k)" "present (pde_of ?m e' k')"
      "tbl ?m e k = tbl ?m e' k'"
    then have "k = k' \<and> (e = e' \<or> kernel_table m e k)" using ok'(6) [of e e' k k'] pde by auto
    then show "k = k'" "e = e' \<or> kernel_table ?m e k" using kt e by auto
  qed (use ok' pde use in \<open>auto simp: pmm_ok_def\<close>)
  moreover have "data_frame D ?m f" if "data_frame D m f" for f
    using that pde unfolding data_frame_def use by metis
  ultimately show ?thesis unfolding quiet_def using use pde pte q by simp
qed

text \<open>A write of an entry of a user page.\<close>

lemma write_user_entry:
  fixes x :: u32
  assumes ok: "vm_ok D m" and d: "d \<in> D" "i < 1024" "present (pde_of m d i)" and j: "j < 1024"
  defines "m' \<equiv> wr (pde_at (tbl m d i) j) x m"
  shows "vm_ok D m'" and "pte_of m' d i j = x"
    and "e \<in> D \<Longrightarrow> k < 1024 \<Longrightarrow> l < 1024 \<Longrightarrow> (k, l) \<noteq> (i, j) \<Longrightarrow> pte_of m' e k l = pte_of m e k l"
    and "data_frame D m (frame_bits a) \<Longrightarrow> pmem m' a = pmem m a"
proof -
  note w = write_table [OF ok d j, where x = x, folded m'_def]
  show "vm_ok D m'" by (rule w(1))
  show "pte_of m' d i j = x" using w(3) [OF d(1,2) j] d(3) by simp
  show "pte_of m' e k l = pte_of m e k l" if "e \<in> D" "k < 1024" "l < 1024" "(k, l) \<noteq> (i, j)"
    using w(3) [OF that(1-3)] that(4) by auto
  show "pmem m' a = pmem m a" if "data_frame D m (frame_bits a)"
  proof -
    have "tbl m d i \<noteq> frame_bits a" using that d unfolding data_frame_def by blast
    then have "a \<noteq> pde_at (tbl m d i) j" using j by auto
    then show ?thesis by (simp add: m'_def)
  qed
qed

section \<open>Copy on write\<close>

lemma refcount_dec_vmm [simp]:
  "pmem (snd (pmm_refcount_dec f m)) = pmem m" "bitmap (snd (pmm_refcount_dec f m)) = bitmap m"
  "kernel_dir (snd (pmm_refcount_dec f m)) = kernel_dir m" "nframes (snd (pmm_refcount_dec f m)) = nframes m"
  by (simp_all add: pmm_refcount_dec_def Let_def)

lemma refcount_dec_at:
  "refcounts (snd (pmm_refcount_dec f m)) i =
     (if i = frame_of f \<and> i < nframes m \<and> refcounts m i > 0 then refcounts m i - 1 else refcounts m i)"
  by (simp add: pmm_refcount_dec_def Let_def)

lemma bit_set_slot: "i < 16 \<Longrightarrow> bit (u OR push_bit i 1 :: u16) j \<longleftrightarrow> bit u j \<or> j = i"
proof -
  assume "i < 16"
  then have "bit (push_bit i 1 :: u16) j \<longleftrightarrow> j = i" by (intro bit_push_one) simp
  then show ?thesis unfolding bit_or_iff by blast
qed

text \<open>The copy through two windows, as \<open>vmm_cow_fault\<close> runs it on two frames.\<close>

lemma copy_through_windows:
  assumes ok: "vm_ok D m" and c: "cr3 m \<in> D" and nf: "data_frame D m nf" "aligned nf"
    and sf: "data_frame D m sf" "aligned sf" "sf \<noteq> nf"
    and r: "bindE (vmm_kmap sf m) (\<lambda>(old_kp, m). bindE (vmm_kmap nf m) (\<lambda>(new_kp, m).
      bindE (copy_page new_kp old_kp m) (\<lambda>m. bindE (vmm_kunmap new_kp m) (\<lambda>m.
      bindE (vmm_kunmap old_kp m) g)))) = Inr res"
  obtains m' where "g m' = Inr res" and "quiet D {nf} m m'"
    and "\<And>j. j < 1024 \<Longrightarrow> pmem m' (pde_at nf (of_nat j)) = pmem m (pde_at sf (of_nat j))"
proof -
  from r obtain v1 m1 v2 m2 where k1: "vmm_kmap sf m = Inr (v1, m1)" and k2: "vmm_kmap nf m1 = Inr (v2, m2)"
    and r2: "bindE (copy_page v2 v1 m2) (\<lambda>m. bindE (vmm_kunmap v2 m) (\<lambda>m. bindE (vmm_kunmap v1 m) g)) = Inr res"
    by (auto elim!: bindE_InrE)
  from quiet_kmap [OF ok c k1 sf(2)] obtain i1 where w1: "i1 < 16" "v1 = window i1"
    "kmap_used m1 = kmap_used m OR push_bit i1 1" "quiet D {} m m1"
    and t1: "\<And>w. frame_bits w = v1 \<Longrightarrow> translate (cr3 m) w m1 = Some (sf OR (w AND 0xFFF))" by blast
  have q1: "vm_ok D m1" "cr3 m1 = cr3 m" using w1(4) by (simp_all add: quiet_def)
  with c have c1: "cr3 m1 \<in> D" by simp
  from quiet_kmap [OF q1(1) c1 k2 nf(2)] obtain i2 where w2: "i2 < 16" "v2 = window i2" "\<not> bit (kmap_used m1) i2"
    "quiet D {} m1 m2"
    and t2: "\<And>w. frame_bits w = v2 \<Longrightarrow> translate (cr3 m1) w m2 = Some (nf OR (w AND 0xFFF))"
    and t2': "\<And>w. frame_bits w \<noteq> v2 \<Longrightarrow> translate (cr3 m1) w m2 = translate (cr3 m1) w m1" by blast
  have "bit (kmap_used m1) i1" unfolding w1(3) bit_set_slot [OF w1(1)] by simp
  then have "i1 \<noteq> i2" using w2(3) by auto
  then have v: "v1 \<noteq> v2" using w1(1,2) w2(1,2) by (simp add: window_inj)
  have q2: "vm_ok D m2" "cr3 m2 = cr3 m" using w2(4) q1 by (simp_all add: quiet_def)
  have m12: "quiet D {} m m2" using quiet_trans [OF w1(4) w2(4)] by simp
  then have d2: "data_frame D m2 nf" "data_frame D m2 sf" using nf(1) sf(1) by (simp_all add: quiet_def)
  have cont: "pmem m2 a = pmem m a" if "data_frame D m (frame_bits a)" for a using m12 that by (simp add: quiet_def)
  have c2: "cr3 m2 \<in> D" using q2 c by simp
  have al: "aligned v2" "aligned v1" using w1(1,2) w2(1,2) window_aligned by simp_all
  have dst: "translate (cr3 m2) w m2 = Some (nf OR (w AND 0xFFF))" if "frame_bits w = v2" for w
    using t2 [OF that] q1 q2 by simp
  have src: "translate (cr3 m2) w m2 = Some (sf OR (w AND 0xFFF))" if "frame_bits w = v1" for w
    using t2' [of w] t1 [OF that] that v q1 q2 by simp
  obtain q where cp: "copy_page v2 v1 m2 = Inr (m2\<lparr>pmem := q\<rparr>)"
    and qc: "\<And>j. j < 1024 \<Longrightarrow> q (pde_at nf (of_nat j)) = pmem m2 (pde_at sf (of_nat j))"
    and qo: "\<And>a. frame_bits a \<noteq> nf \<Longrightarrow> q a = pmem m2 a"
    using copy_page_spec [OF q2(1) c2 d2(1) nf(2) sf(2,3) al dst src] by blast
  let ?m3 = "m2\<lparr>pmem := q\<rparr>"
  have q3: "quiet D {nf} m2 ?m3" by (rule quiet_content [OF q2(1) d2(1) qo])
  then have o3: "vm_ok D ?m3" "cr3 ?m3 \<in> D" using c2 by (simp_all add: quiet_def)
  obtain m4 where k4: "vmm_kunmap v2 ?m3 = Inr m4" and q4: "quiet D {} ?m3 m4"
    using quiet_kunmap [OF o3 w2(1)] w2(2) by blast
  then have o4: "vm_ok D m4" "cr3 m4 \<in> D" using o3 by (simp_all add: quiet_def)
  obtain m5 where k5: "vmm_kunmap v1 m4 = Inr m5" and q5: "quiet D {} m4 m5"
    using quiet_kunmap [OF o4 w1(1)] w1(2) by blast
  have "g m5 = Inr res" using r2 cp k4 k5 by simp
  moreover have "quiet D {nf} m m5"
    using quiet_trans [OF m12 quiet_trans [OF q3 quiet_trans [OF q4 q5]]] by simp
  moreover have "pmem m5 (pde_at nf (of_nat j)) = pmem m (pde_at sf (of_nat j))" if j: "j < 1024" for j
  proof -
    have q35: "quiet D {} ?m3 m5" using quiet_trans [OF q4 q5] by simp
    have "data_frame D ?m3 nf" using q3 d2(1) by (simp add: quiet_def)
    then have "pmem m5 (pde_at nf (of_nat j)) = q (pde_at nf (of_nat j))"
      using q35 nf(2) of_nat_index [OF j] by (simp add: quiet_def)
    also have "\<dots> = pmem m (pde_at sf (of_nat j))"
      using qc [OF j] cont [of "pde_at sf (of_nat j)"] sf(1,2) of_nat_index [OF j] by simp
    finally show ?thesis .
  qed
  ultimately show thesis by (rule that)
qed


text \<open>
  Mapping a page in the kernel's directory and asking for its physical address gives
  the frame and the offset back; after unmapping it the answer is 0 again, and no other
  address has changed.
\<close>
theorem map_get_phys_unmap:
  assumes "vm_ok D m" and "present fl" and "vmm_map_page v p fl m = Inr m'"
  shows "vmm_get_phys w m' =
      (if frame_bits w = frame_bits v then frame_bits p OR (w AND 0xFFF) else vmm_get_phys w m) \<and>
    vmm_get_phys w (vmm_unmap_page v m') = (if frame_bits w = frame_bits v then 0 else vmm_get_phys w m)"
proof -
  let ?d = "kernel_dir m"
  have d: "?d \<in> D" by (rule vm_okD(2) [OF assms(1)])
  have mp: "vmm_map_page_in ?d v p fl m = Inr m'" using assms(3) by (simp add: vmm_map_page_def)
  note e = map_page_in_entries(1,2) [OF assms(1) d mp]
  have d': "?d \<in> D" by (rule d)
  note u = unmap_page_in_entries(2,9) [OF e(1) d', where v = v]
  show ?thesis
    unfolding get_phys_translate vmm_unmap_page_def e(2) u(1) u(2) map_translate(1) [OF assms(1) d assms(2) mp] by simp
qed


section \<open>Faults that return\<close>

text \<open>The directory in \<open>CR3\<close> has its own table for the temporary windows.\<close>

definition owns_windows :: "'a vmm_scheme \<Rightarrow> bool" where
  "owns_windows m \<longleftrightarrow> present (pde_of m (cr3 m) 0x33F) \<and>
     (cr3 m = kernel_dir m \<or> tbl m (cr3 m) 0x33F \<noteq> tbl m (kernel_dir m) 0x33F)"

lemma kmap_returns:
  assumes ok: "vm_ok D m" and c: "cr3 m \<in> D" and own: "owns_windows m"
    and i: "find (\<lambda>i. \<not> bit (kmap_used m) i) [0..<16] = Some i"
  obtains m' where "vmm_kmap f m = Inr (window i, m')" and "owns_windows m'"
    and "kmap_used m' = kmap_used m OR push_bit i 1"
proof -
  let ?m = "m\<lparr>kmap_used := kmap_used m OR push_bit i 1\<rparr>"
  have "i < 16" using i by (simp add: find_upt_Some)
  then have pd: "pd_index (window i) = 0x33F" by (rule window_pd_index)
  let ?x = "frame_bits f OR ((PTE_PRESENT OR PTE_WRITE) AND 0xFFF)"
  let ?m' = "wr (pde_at (tbl ?m (cr3 m) 0x33F) (pt_index (window i))) ?x ?m"
  have "vm_ok D ?m = vm_ok D m" by (rule vm_cong(1)) simp_all
  with ok have ok0: "vm_ok D ?m" by blast
  have pr: "present (pde_of ?m (cr3 m) 0x33F)" using own by (simp add: owns_windows_def)
  have w: "pde_of ?m' e 0x33F = pde_of m e 0x33F" if "e \<in> D" for e
    using write_table(2) [OF ok0 c _ pr pt_index_less [of "window i"] that, where x = ?x and k = "0x33F"] by simp
  have "get_table (cr3 m) 0x33F (PTE_PRESENT OR PTE_WRITE) ?m = Inr ?m"
    using own by (auto simp: get_table_def Let_def owns_windows_def pte_defs)
  then have "vmm_kmap f m = Inr (window i, ?m')"
    using i by (simp add: vmm_kmap_def vmm_map_page_in_def KMAP_SLOTS_def Let_def pd window_def [symmetric])
  moreover have "owns_windows ?m'"
    using own w [OF c] w [OF vm_okD(2) [OF ok]] by (simp add: owns_windows_def)
  ultimately show thesis by (rule that) simp
qed

text \<open>
  A fault in such an address space returns when there is a free frame and no window in use.
\<close>

lemma cow_fault_returns:
  assumes ok: "vm_ok D m" and d: "dir \<in> D" and c: "cr3 m \<in> D" and user: "pd_index a \<noteq> 0x33F"
    and e: "e = pte_of m dir (pd_index a) (pt_index a)" "present e" "e AND PTE_COW \<noteq> 0"
    and sf: "data_frame D m (frame_bits e)" and own: "owns_windows m" and free: "kmap_used m = 0"
    and a: "pmm_alloc_frame m = Inr (nf, m1)"
  obtains m' where "vmm_cow_fault dir a m = Inr (1, m')"
proof (cases "pmm_refcount_get (frame_bits e) m = 1")
  case True
  have "present (pde_of m dir (pd_index a))" "pmem m (pde_at (tbl m dir (pd_index a)) (pt_index a)) = e"
    using e(1,2) by (auto simp: pte_of_def split: if_splits)
  then show thesis using True e(2,3) that by (simp add: vmm_cow_fault_def Let_def)
next
  case False
  have pr: "present (pde_of m dir (pd_index a))" and slot: "pmem m (pde_at (tbl m dir (pd_index a)) (pt_index a)) = e"
    using e(1,2) by (auto simp: pte_of_def split: if_splits)
  let ?sf = "frame_bits e"
  note al = quiet_alloc [OF ok a [unfolded pmm_alloc_frame_def]]
  have m1: "vm_ok D m1" "cr3 m1 = cr3 m" "kernel_dir m1 = kernel_dir m" "data_frame D m1 ?sf"
    using al(1) sf by (simp_all add: quiet_def)
  have c1: "cr3 m1 \<in> D" and own1: "owns_windows m1" using c own m1 al(5) by (simp_all add: owns_windows_def)
  have "find (\<lambda>i. \<not> bit (kmap_used m1) i) [0..<16] = Some 0" using free al(7) by (simp add: upt_rec)
  then obtain m2 where k1: "vmm_kmap ?sf m1 = Inr (window 0, m2)" and own2: "owns_windows m2"
    and u: "kmap_used m2 = kmap_used m1 OR push_bit 0 1" by (rule kmap_returns [OF m1(1) c1 own1])
  have u2: "kmap_used m2 = 1" using u free al(7) by simp
  obtain i0 :: nat where q2: "quiet D {} m1 m2"
    and t1: "\<And>w. frame_bits w = window 0 \<Longrightarrow> translate (cr3 m1) w m2 = Some (?sf OR (w AND 0xFFF))"
    by (rule quiet_kmap [OF m1(1) c1 k1 aligned_frame_bits]) blast
  have m2: "vm_ok D m2" "cr3 m2 = cr3 m" using q2 m1 by (simp_all add: quiet_def)
  then have c2: "cr3 m2 \<in> D" using c by simp
  have "find (\<lambda>i. \<not> bit (kmap_used m2) i) [0..<16] = Some 1" by (simp add: u2 upt_rec bit_1_iff)
  then obtain m3 where k2: "vmm_kmap nf m2 = Inr (window 1, m3)"
    by (rule kmap_returns [OF m2(1) c2 own2])
  obtain i1 :: nat where q3: "quiet D {} m2 m3"
    and t2: "\<And>w. frame_bits w = window 1 \<Longrightarrow> translate (cr3 m2) w m3 = Some (nf OR (w AND 0xFFF))"
    and t2': "\<And>w. frame_bits w \<noteq> window 1 \<Longrightarrow> translate (cr3 m2) w m3 = translate (cr3 m2) w m2"
    by (rule quiet_kmap [OF m2(1) c2 k2 al(3)]) blast
  have q13: "quiet D {} m1 m3" using quiet_trans [OF q2 q3] by simp
  have m3: "vm_ok D m3" "cr3 m3 = cr3 m" "data_frame D m3 nf" using q13 m1 al(2) by (simp_all add: quiet_def)
  then have c3: "cr3 m3 \<in> D" using c by simp
  have al2: "aligned (window 1)" "aligned (window 0)" by (simp_all add: window_aligned)
  have ne: "?sf \<noteq> nf" using al(4) sf by (auto simp: data_frame_def)
  have wn: "window 0 \<noteq> window 1" by (simp add: window_inj)
  have "translate (cr3 m3) w m3 = Some (nf OR (w AND 0xFFF))" if "frame_bits w = window 1" for w
    using t2 [OF that] m2 m3 by simp
  moreover have "translate (cr3 m3) w m3 = Some (?sf OR (w AND 0xFFF))" if "frame_bits w = window 0" for w
    using t2' [of w] t1 [OF that] that wn m1 m2 m3 by simp
  ultimately obtain q where cp: "copy_page (window 1) (window 0) m3 = Inr (m3\<lparr>pmem := q\<rparr>)"
    and qo: "\<And>b. frame_bits b \<noteq> nf \<Longrightarrow> q b = pmem m3 b"
    using copy_page_spec [OF m3(1) c3 m3(3) al(3) _ ne al2] by (metis aligned_frame_bits)
  have q4: "quiet D {nf} m3 (m3\<lparr>pmem := q\<rparr>)" by (rule quiet_content [OF m3(1,3) qo])
  then have m4: "vm_ok D (m3\<lparr>pmem := q\<rparr>)" "cr3 (m3\<lparr>pmem := q\<rparr>) \<in> D" using c3 by (simp_all add: quiet_def)
  obtain m5 where k5: "vmm_kunmap (window 1) (m3\<lparr>pmem := q\<rparr>) = Inr m5" and q5: "quiet D {} (m3\<lparr>pmem := q\<rparr>) m5"
    using quiet_kunmap [OF m4, of 1] by auto
  then have m5: "vm_ok D m5" "cr3 m5 \<in> D" using m4 by (simp_all add: quiet_def)
  obtain m6 where k6: "vmm_kunmap (window 0) m5 = Inr m6" using quiet_kunmap [OF m5, of 0] by auto
  show thesis
    using that pr slot e(2,3) False a k1 k2 cp k5 k6 by (simp add: vmm_cow_fault_def Let_def)
qed

section \<open>A concrete address space\<close>

text \<open>
  The kernel's directory at frame 512 with a table (515) for the first entry of its range,
  a task's directory at 513 with a user table (514) and a table for the windows (516); the
  first page of the user table is a copy-on-write page shared by two owners (frame 4352).
\<close>

definition demo_vmm :: vmm where
  "demo_vmm = \<lparr>bitmap = (\<lambda>_. 0)(16 := 0x1F, 136 := 1), nframes = 4400, refcounts = (\<lambda>_. 0)(4352 := 2),
     pmem = (\<lambda>_. 0)(pde_at 0x201000 4 := 0x202007, pde_at 0x200000 768 := 0x203003,
                     pde_at 0x201000 0x33F := 0x204003, pde_at 0x202000 0 := 0x1100205, 0x1100000 := 42),
     kernel_dir = 0x200000, cr3 = 0x201000, kmap_used = 0, kvirt_next = 0xC0000000, kvirt_free = []\<rparr>"

lemma demo_pmem: "pmem demo_vmm a = (if a = 0x201010 then 0x202007 else if a = 0x200C00 then 0x203003
    else if a = 0x201CFC then 0x204003 else if a = 0x202000 then 0x1100205 else if a = 0x1100000 then 42 else 0)"
  by (simp add: demo_vmm_def)

lemma aligned_demo: "aligned 0x200000" "aligned 0x201000" "aligned 0x202000" "aligned 0x203000" "aligned 0x204000"
  by (simp_all add: aligned_def frame_bits_def)

lemma demo_pde:
  assumes "d \<in> {0x200000, 0x201000}" and "i < 1024"
  shows "pde_of demo_vmm d i = (if d = 0x201000 \<and> i = 4 then 0x202007 else if d = 0x200000 \<and> i = 768 then 0x203003
    else if d = 0x201000 \<and> i = 0x33F then 0x204003 else 0)"
proof -
  have d: "aligned d" using assms(1) aligned_demo by auto
  have "pde_at d i = pde_at e j \<longleftrightarrow> d = e \<and> i = j" if "aligned e" "j < 1024" for e j
    by (rule slot_inj [OF d that(1) assms(2) that(2)])
  note s = this [of "0x201000" 4] this [of "0x200000" 768] this [of "0x201000" "0x33F"]
  have f: "frame_bits (pde_at d i) = d" using d assms(2) by simp
  have "pde_at d i \<noteq> 0x202000" "pde_at d i \<noteq> 0x1100000"
    using f assms(1) by (auto simp: frame_bits_def)
  then show ?thesis using s aligned_demo by (simp add: demo_pmem)
qed

lemma demo_used: "frame_used demo_vmm f \<longleftrightarrow> frame_of f \<in> {512, 513, 514, 515, 516, 4352}"
proof -
  have "frame_test demo_vmm i \<longleftrightarrow> i \<in> {512, 513, 514, 515, 516, 4352}" for i
  proof -
    have b: "(0x1F :: u32) = mask 5" by (simp add: mask_eq_exp_minus_1)
    have e: "i = i div 32 * 32 + i mod 32" by simp
    have "frame_test demo_vmm i \<longleftrightarrow> i div 32 = 16 \<and> i mod 32 < 5 \<or> i div 32 = 136 \<and> i mod 32 = 0"
      by (auto simp: frame_test_bit demo_vmm_def b bit_mask_iff bit_1_iff)
    also have "\<dots> \<longleftrightarrow> i \<in> {512, 513, 514, 515, 516, 4352}"
    proof
      assume "i div 32 = 16 \<and> i mod 32 < 5 \<or> i div 32 = 136 \<and> i mod 32 = 0"
      with e have "512 \<le> i \<and> i < 517 \<or> i = 4352" by linarith
      then show "i \<in> {512, 513, 514, 515, 516, 4352}" by auto
    qed auto
    finally show ?thesis .
  qed
  then show ?thesis by (simp add: frame_used_def)
qed

lemma demo_frames: "frame_of 0x200000 = 512" "frame_of 0x201000 = 513" "frame_of 0x202000 = 514"
  "frame_of 0x203000 = 515" "frame_of 0x204000 = 516" "frame_of 0x1100000 = 4352"
  by (simp_all add: frame_of_def)

lemma demo_ok: "vm_ok {0x200000, 0x201000} demo_vmm"
  unfolding vm_ok_def
proof (intro conjI ballI allI impI)
  show "pmm_ok demo_vmm" by (simp add: pmm_ok_def demo_vmm_def)
  show "kernel_dir demo_vmm \<in> {0x200000, 0x201000}" by (simp add: demo_vmm_def)
  show "aligned d" "frame_used demo_vmm d" if "d \<in> {0x200000, 0x201000}" for d
    using that aligned_demo by (auto simp: demo_used demo_frames)
  show "tbl demo_vmm d i \<notin> {0x200000, 0x201000}" "frame_used demo_vmm (tbl demo_vmm d i)"
    if "d \<in> {0x200000, 0x201000}" "i < 1024" "present (pde_of demo_vmm d i)" for d i
    using that(3) unfolding demo_pde [OF that(1,2)]
    by (auto simp: frame_bits_def demo_used demo_frames split: if_splits)
  fix d e i j
  assume a: "d \<in> {0x200000, 0x201000}" "e \<in> {0x200000, 0x201000}" "i < (1024 :: u32)" "j < (1024 :: u32)"
    "present (pde_of demo_vmm d i)" "present (pde_of demo_vmm e j)" "tbl demo_vmm d i = tbl demo_vmm e j"
  then have "i = j \<and> d = e"
    unfolding demo_pde [OF a(1,3)] demo_pde [OF a(2,4)] by (auto simp: frame_bits_def split: if_splits)
  then show "i = j" "d = e \<or> kernel_table demo_vmm d i" by auto
qed

lemma demo_data: "data_frame {0x200000, 0x201000} demo_vmm 0x1100000"
  unfolding data_frame_def
proof (intro conjI ballI allI impI)
  show "frame_used demo_vmm 0x1100000" by (simp add: demo_used demo_frames)
  show "(0x1100000 :: u32) \<notin> {0x200000, 0x201000}" by simp
  fix e i :: u32 assume a: "e \<in> {0x200000, 0x201000}" "i < 1024"
  show "tbl demo_vmm e i \<noteq> 0x1100000"
    unfolding demo_pde [OF a] by (auto simp: frame_bits_def)
qed


theorem map_get_phys_unmap_witness:
  "\<exists>m'. vmm_map_page 0xC0005000 0x1200000 3 demo_vmm = Inr m' \<and> vmm_get_phys 0xC0005008 m' = 0x1200008 \<and>
     vmm_get_phys 0xC0005008 (vmm_unmap_page 0xC0005000 m') = 0"
proof -
  have k: "kernel_dir demo_vmm = 0x200000" by (simp add: demo_vmm_def)
  have pd: "pd_index 0xC0005000 = 768" by (simp add: pd_index_def drop_bit_eq_div)
  have g: "get_table 0x200000 768 3 demo_vmm = Inr demo_vmm"
    using demo_pde [of "0x200000" 768] by (simp add: get_table_def Let_def pte_defs k)
  then obtain m' where m': "vmm_map_page 0xC0005000 0x1200000 3 demo_vmm = Inr m'"
    by (simp add: vmm_map_page_def vmm_map_page_in_def pd k Let_def)
  have "present 3" by (simp add: PTE_PRESENT_def)
  from map_get_phys_unmap [OF demo_ok this m', of "0xC0005008"] m' show ?thesis
    by (auto simp: frame_bits_def)
qed


end
