(* ===== verification/Kvirt.thy ===== *)
theory Kvirt
  imports Vmm "HOL-Library.Multiset"
begin

text \<open>
  The ranges of kernel virtual memory that \<open>vmm_alloc_pages\<close> and \<open>vmm_free_pages\<close> hand
  out and take back: no address is ever in two ranges at once, be they in use or free.
\<close>

section \<open>Ranges and the addresses they cover\<close>

type_synonym range = "u32 \<times> u32"

definition covers :: "nat \<Rightarrow> range \<Rightarrow> bool" where
  "covers a r \<longleftrightarrow> unat (fst r) \<le> a \<and> a < unat (fst r) + unat (snd r) * 4096"

definition cover_count :: "nat \<Rightarrow> range multiset \<Rightarrow> nat" where
  "cover_count a M = size (filter_mset (covers a) M)"

lemma cover_count_simps [simp]:
  "cover_count a {#} = 0" "cover_count a (add_mset r M) = of_bool (covers a r) + cover_count a M"
  "cover_count a (M + N) = cover_count a M + cover_count a N"
  by (simp_all add: cover_count_def)

lemma cover_count_remove:
  "r \<in># M \<Longrightarrow> cover_count a (M - {#r#}) + of_bool (covers a r) = cover_count a M"
  by (metis add.commute cover_count_simps(2) insert_DiffM)

text \<open>
  \<open>kv_ok live m\<close>: the ranges \<open>live\<close> that are in use and the free ranges cover each address
  at most once, are not empty and lie below \<open>kvirt_next\<close>.
\<close>

definition in_bounds :: "u32 \<Rightarrow> range \<Rightarrow> bool" where
  "in_bounds nxt r \<longleftrightarrow> snd r \<noteq> 0 \<and> unat (fst r) + unat (snd r) * 4096 \<le> unat nxt"

definition kv_ok :: "range list \<Rightarrow> 'a vmm_scheme \<Rightarrow> bool" where
  "kv_ok live m \<longleftrightarrow> (\<forall>a. cover_count a (mset live + mset (kvirt_free m)) \<le> 1) \<and>
     (\<forall>r \<in> set live \<union> set (kvirt_free m). in_bounds (kvirt_next m) r) \<and> length (kvirt_free m) \<le> KVIRT_FL_MAX"

lemma range_end:
  "in_bounds nxt (b, n) \<Longrightarrow> unat (b + n * 4096) = unat b + unat n * 4096"
proof -
  assume "in_bounds nxt (b, n)"
  then have le: "unat b + unat n * 4096 < 2 ^ 32"
    using unat_u32_lt [of nxt] by (simp add: in_bounds_def)
  then have "unat (n * 4096) = unat n * 4096" by (simp add: unat_word_ariths)
  with le show ?thesis by (subst unat_plus_no_wrap) simp_all
qed

lemma covers_split:
  assumes "in_bounds nxt (b, k)" and "n \<le> k"
  shows "of_bool (covers a (b, k)) = (of_bool (covers a (b, n)) + of_bool (covers a (b + n * 4096, k - n)) :: nat)"
proof -
  have "unat n \<le> unat k" using assms(2) by (simp add: word_le_nat_alt)
  moreover have "in_bounds nxt (b, n) \<or> n = 0" using assms calculation by (auto simp: in_bounds_def)
  then have "unat (b + n * 4096) = unat b + unat n * 4096" using range_end [of nxt b n] by auto
  moreover have "unat (k - n) = unat k - unat n" using assms(2) by (rule unat_minus_le)
  ultimately show ?thesis by (auto simp: covers_def algebra_simps diff_mult_distrib)
qed

lemma covers_join:
  assumes "in_bounds nxt (b, k)" and "in_bounds nxt (c, n)" and "b + k * 4096 = c"
  shows "of_bool (covers a (b, k + n)) = (of_bool (covers a (b, k)) + of_bool (covers a (c, n)) :: nat)"
    and "in_bounds nxt (b, k + n)"
proof -
  have c: "unat c = unat b + unat k * 4096" using range_end [OF assms(1)] assms(3) by simp
  then have le: "(unat k + unat n) * 4096 < 2 ^ 32"
    using assms(2) unat_u32_lt [of nxt] by (simp add: in_bounds_def algebra_simps)
  then have u: "unat (k + n) = unat k + unat n" by (subst unat_plus_no_wrap) simp_all
  then show "of_bool (covers a (b, k + n)) = (of_bool (covers a (b, k)) + of_bool (covers a (c, n)) :: nat)"
    using c by (auto simp: covers_def algebra_simps)
  have "k + n \<noteq> 0" using u assms(1) by (metis add_is_0 in_bounds_def snd_conv unat_eq_zero)
  then show "in_bounds nxt (b, k + n)" using c u assms(2) by (simp add: in_bounds_def algebra_simps)
qed

section \<open>Taking a range\<close>

lemma best_fit_spec:
  assumes "length fl \<le> KVIRT_FL_MAX"
  shows "best_fit n fl = KVIRT_FL_MAX \<and> (\<forall>j < length fl. snd (fl ! j) < n) \<or>
    best_fit n fl < length fl \<and> n \<le> snd (fl ! best_fit n fl) \<and>
    (\<forall>j < length fl. n \<le> snd (fl ! j) \<longrightarrow> snd (fl ! best_fit n fl) \<le> snd (fl ! j))"
proof -
  define f where "f = (\<lambda>i best. if n \<le> snd (fl ! i) \<and> (best = KVIRT_FL_MAX \<or> snd (fl ! i) < snd (fl ! best)) then i else best)"
  have "k \<le> length fl \<Longrightarrow> (let b = fold f [0..<k] KVIRT_FL_MAX in
      b = KVIRT_FL_MAX \<and> (\<forall>j < k. snd (fl ! j) < n) \<or>
      b < k \<and> n \<le> snd (fl ! b) \<and> (\<forall>j < k. n \<le> snd (fl ! j) \<longrightarrow> snd (fl ! b) \<le> snd (fl ! j)))" for k
  proof (induction k)
    case (Suc k)
    define b where "b = fold f [0..<k] KVIRT_FL_MAX"
    have e: "fold f [0..<Suc k] KVIRT_FL_MAX = f k b" by (simp add: b_def)
    from Suc have IH: "b = KVIRT_FL_MAX \<and> (\<forall>j < k. snd (fl ! j) < n) \<or>
      b < k \<and> n \<le> snd (fl ! b) \<and> (\<forall>j < k. n \<le> snd (fl ! j) \<longrightarrow> snd (fl ! b) \<le> snd (fl ! j))"
      by (simp add: b_def [symmetric] Let_def)
    have k: "k < KVIRT_FL_MAX" using Suc.prems assms by simp
    show ?case unfolding e Let_def
      using IH k by (auto simp: f_def less_Suc_eq not_le not_less intro: order.trans less_imp_le)
  qed simp
  from this [of "length fl"] show ?thesis by (simp add: best_fit_def f_def Let_def)
qed

lemma mset_swap_remove: "i < length xs \<Longrightarrow> mset (swap_remove i xs) = mset xs - {#xs ! i#}"
proof -
  assume i: "i < length xs"
  let ?ys = "xs[i := last xs]"
  have ne: "?ys \<noteq> []" using i by auto
  have "last ?ys = last xs" using i by (subst last_list_update) auto
  moreover have "mset ?ys = mset (butlast ?ys) + {#last ?ys#}" using ne by (metis append_butlast_last_id mset_append mset_single_iff_right mset.simps)
  ultimately have "add_mset (last xs) (mset (swap_remove i xs)) = add_mset (last xs) (mset xs - {#xs ! i#})"
    using i by (simp add: mset_update swap_remove_def)
  then show ?thesis by simp
qed

lemma length_swap_remove: "length (swap_remove i xs) = length xs - 1"
  by (simp add: swap_remove_def)

lemma set_swap_remove: "i < length xs \<Longrightarrow> set (swap_remove i xs) \<subseteq> set xs"
  by (metis in_diffD mset_swap_remove set_mset_mset subsetI)

lemma take_range_fresh:
  assumes ok: "kv_ok live m" and n: "n \<noteq> 0" and fits: "unat (kvirt_next m) + unat n * 4096 < 2 ^ 32"
    and r: "take_range n m = (b, m')"
  shows "kv_ok ((b, n) # live) m'"
proof -
  let ?fl = "kvirt_free m" and ?next = "kvirt_next m"
  have c1: "cover_count a (mset live + mset ?fl) \<le> 1" for a using ok by (simp add: kv_ok_def)
  have bd: "in_bounds ?next r" if "r \<in> set live \<union> set ?fl" for r using ok that by (simp add: kv_ok_def)
  have len: "length ?fl \<le> KVIRT_FL_MAX" using ok by (simp add: kv_ok_def)
  define best where "best = best_fit n ?fl"
  show ?thesis
  proof (cases "best < KVIRT_FL_MAX")
    case True
    then have bl: "best < length ?fl" "n \<le> snd (?fl ! best)" using best_fit_spec [OF len, of n] by (auto simp: best_def)
    obtain b' k where e: "?fl ! best = (b', k)" by fastforce
    have mem: "(b', k) \<in># mset ?fl" using bl e by (metis nth_mem set_mset_mset)
    then have bk: "in_bounds ?next (b', k)" using bd by simp
    have "b' + k * 4096 \<le> ?next"
      unfolding word_le_nat_alt using range_end [OF bk] bk by (simp add: in_bounds_def)
    then have m': "b = b'" "m' = m\<lparr>kvirt_free := (if k = n then swap_remove best ?fl else ?fl[best := (b' + n * 4096, k - n)]),
        kvirt_next := ?next\<rparr>"
      using r True e unfolding take_range_def best_def Let_def by (auto simp: not_less)
    note split = covers_split [OF bk bl(2) [unfolded e snd_conv]]
    show ?thesis
    proof (cases "k = n")
      case True
      have "cover_count a (mset ((b, n) # live) + mset (kvirt_free m')) \<le> 1" for a
        using c1 [of a] cover_count_remove [OF mem, of a] True m' mset_swap_remove [OF bl(1)] e by simp
      then show ?thesis using True m' bd bk len set_swap_remove [OF bl(1)]
        unfolding kv_ok_def by (auto simp: length_swap_remove)
    next
      case False
      have "mset (kvirt_free m') = add_mset (b' + n * 4096, k - n) (mset ?fl - {#(b', k)#})"
        using m' False bl e by (simp add: mset_update)
      then have "cover_count a (mset ((b, n) # live) + mset (kvirt_free m')) \<le> 1" for a
        using c1 [of a] cover_count_remove [OF mem, of a] split [of a] m' by simp
      moreover have "in_bounds ?next (b', n)" "in_bounds ?next (b' + n * 4096, k - n)"
      proof -
        have le: "unat n \<le> unat k" using bl e by (simp add: word_le_nat_alt)
        then show bn: "in_bounds ?next (b', n)" using bk n by (auto simp: in_bounds_def)
        have "unat (k - n) = unat k - unat n" using bl e by (simp add: unat_minus_le)
        then show "in_bounds ?next (b' + n * 4096, k - n)"
          using range_end [OF bn] bk le False by (auto simp: in_bounds_def diff_mult_distrib)
      qed
      moreover have "set (kvirt_free m') \<subseteq> insert (b' + n * 4096, k - n) (set ?fl)"
        using m' False by (simp add: set_update_subset_insert)
      ultimately show ?thesis using m' False bd len unfolding kv_ok_def by auto
    qed
  next
    case False
    then have m': "b = ?next" "m' = m\<lparr>kvirt_next := ?next + n * 4096\<rparr>"
      using r unfolding take_range_def best_def Let_def by auto
    have "unat (n * 4096) = unat n * 4096" using fits by (simp add: unat_word_ariths)
    then have nx: "unat (?next + n * 4096) = unat ?next + unat n * 4096" using fits by (subst unat_plus_no_wrap) simp_all
    have "cover_count a (mset live + mset ?fl) = 0" if "covers a (?next, n)" for a
    proof -
      have "\<not> covers a r" if "r \<in># mset live + mset ?fl" for r
        using bd [of r] that \<open>covers a (?next, n)\<close> by (auto simp: covers_def in_bounds_def)
      then show ?thesis by (simp add: cover_count_def)
    qed
    then have "cover_count a (mset ((b, n) # live) + mset (kvirt_free m')) \<le> 1" for a
      using c1 [of a] m' by (cases "covers a (?next, n)") auto
    moreover have "in_bounds (?next + n * 4096) r" if "r \<in> set live \<union> set ?fl" for r
      using bd [OF that] nx by (simp add: in_bounds_def)
    moreover have "in_bounds (?next + n * 4096) (?next, n)" using nx n by (simp add: in_bounds_def)
    ultimately show ?thesis using m' len unfolding kv_ok_def by auto
  qed
qed

section \<open>Giving a range back\<close>

lemma merge_range_covers:
  "merge_range i b n fl = (b', n', fl') \<Longrightarrow> in_bounds nxt (b, n) \<Longrightarrow> \<forall>r \<in> set fl. in_bounds nxt r \<Longrightarrow>
     (\<forall>a. cover_count a (add_mset (b', n') (mset fl')) = cover_count a (add_mset (b, n) (mset fl))) \<and>
     in_bounds nxt (b', n') \<and> set fl' \<subseteq> set fl \<and> length fl' \<le> length fl"
proof (induction i b n fl rule: merge_range.induct)
  case (1 i b n fl)
  show ?case
  proof (cases "i < length fl")
    case False
    with 1 show ?thesis by (subst (asm) merge_range.simps) auto
  next
    case i: True
    obtain c k where e: "fl ! i = (c, k)" by fastforce
    then have mem: "(c, k) \<in># mset fl" and ck: "in_bounds nxt (c, k)"
      using i "1.prems"(3) by (auto simp: in_set_conv_nth)
    note sub = set_swap_remove [OF i] and rem = mset_swap_remove [OF i, unfolded e]
    have len: "length (swap_remove i fl) \<le> length fl" by (simp add: length_swap_remove)
    have all: "\<forall>r \<in> set (swap_remove i fl). in_bounds nxt r" using sub "1.prems"(3) by auto
    consider (before) "c + k * 4096 = b" | (after) "c + k * 4096 \<noteq> b" "b + n * 4096 = c"
      | (apart) "c + k * 4096 \<noteq> b" "b + n * 4096 \<noteq> c" by blast
    then show ?thesis
    proof cases
      case before
      note j = covers_join [OF ck "1.prems"(2) before]
      have "merge_range 0 c (k + n) (swap_remove i fl) = (b', n', fl')"
        using "1.prems"(1) i e before by (subst (asm) merge_range.simps) simp
      note IH = "1.IH"(1) [OF i e [symmetric] refl before this j(2) all]
      have "cover_count a (add_mset (c, k + n) (mset (swap_remove i fl))) = cover_count a (add_mset (b, n) (mset fl))" for a
        using cover_count_remove [OF mem, of a] j(1) [of a] unfolding rem cover_count_simps by linarith
      moreover have "set fl' \<subseteq> set fl" "length fl' \<le> length fl" using IH sub len by auto
      ultimately show ?thesis using IH by simp
    next
      case after
      note j = covers_join [OF "1.prems"(2) ck after(2)]
      have "merge_range 0 b (n + k) (swap_remove i fl) = (b', n', fl')"
        using "1.prems"(1) i e after by (subst (asm) merge_range.simps) simp
      note IH = "1.IH"(2) [OF i e [symmetric] refl after this j(2) all]
      have "cover_count a (add_mset (b, n + k) (mset (swap_remove i fl))) = cover_count a (add_mset (b, n) (mset fl))" for a
        using cover_count_remove [OF mem, of a] j(1) [of a] unfolding rem cover_count_simps by linarith
      moreover have "set fl' \<subseteq> set fl" "length fl' \<le> length fl" using IH sub len by auto
      ultimately show ?thesis using IH by simp
    next
      case apart
      have "merge_range (i + 1) b n fl = (b', n', fl')"
        using "1.prems"(1) i e apart by (subst (asm) merge_range.simps) simp
      from "1.IH"(3) [OF i e [symmetric] refl apart this "1.prems"(2,3)] show ?thesis .
    qed
  qed
qed

lemma kvirt_kept [simp]:
  "kvirt_free (zero_page f m) = kvirt_free m" "kvirt_next (zero_page f m) = kvirt_next m"
  "kvirt_free (copy_frame f g m) = kvirt_free m" "kvirt_next (copy_frame f g m) = kvirt_next m"
  "kvirt_free (take_frame i m) = kvirt_free m" "kvirt_next (take_frame i m) = kvirt_next m"
  "kvirt_free (wr a v m) = kvirt_free m" "kvirt_next (wr a v m) = kvirt_next m"
  "kvirt_free (pmm_free_frame f m) = kvirt_free m" "kvirt_next (pmm_free_frame f m) = kvirt_next m"
  "kvirt_free (vmm_unmap_page v m) = kvirt_free m" "kvirt_next (vmm_unmap_page v m) = kvirt_next m"
  by (simp_all add: zero_page_def copy_frame_def take_frame_def frame_set_def frame_clear_def wr_def
    pmm_free_frame_def vmm_unmap_page_def vmm_unmap_page_in_def Let_def)

lemma alloc_kept:
  "pmm_alloc_frame_zone z m = Inr (f, m') \<Longrightarrow> kvirt_free m' = kvirt_free m \<and> kvirt_next m' = kvirt_next m"
  by (erule alloc_zone_cases) simp

lemma map_page_kept:
  "vmm_map_page v p fl m = Inr m' \<Longrightarrow> kvirt_free m' = kvirt_free m \<and> kvirt_next m' = kvirt_next m"
  by (auto simp: vmm_map_page_def vmm_map_page_in_def get_table_def Let_def dest!: alloc_kept
    elim!: bindE_InrE split: if_splits)

lemma map_frames_kept:
  "map_frames k v m = Inr (ok, m') \<Longrightarrow> kvirt_free m' = kvirt_free m \<and> kvirt_next m' = kvirt_next m"
  by (induction k v m rule: map_frames.induct)
    (auto simp: pmm_alloc_frame_def dest!: alloc_kept map_page_kept elim!: bindE_InrE split: if_splits)

lemma unmap_frames_kept:
  "kvirt_free (unmap_frames k v m) = kvirt_free m \<and> kvirt_next (unmap_frames k v m) = kvirt_next m"
  by (induction k v m rule: unmap_frames.induct) (auto simp: Let_def)

lemma kv_ok_same: "kvirt_free m' = kvirt_free m \<Longrightarrow> kvirt_next m' = kvirt_next m \<Longrightarrow> kv_ok live m' = kv_ok live m"
  by (simp add: kv_ok_def)

lemma free_pages_ok:
  assumes ok: "kv_ok live m" and r: "(v, n) \<in> set live"
  shows "kv_ok (remove1 (v, n) live) (vmm_free_pages v n m)"
proof -
  let ?m = "unmap_frames (unat n) v m" and ?live = "remove1 (v, n) live"
  have fr: "kvirt_free ?m = kvirt_free m" "kvirt_next ?m = kvirt_next m" using unmap_frames_kept by blast+
  obtain b k fl where mr: "merge_range 0 v n (kvirt_free m) = (b, k, fl)" by (cases "merge_range 0 v n (kvirt_free m)")
  have bd: "in_bounds (kvirt_next m) s" if "s \<in> set live \<union> set (kvirt_free m)" for s
    using ok that by (simp add: kv_ok_def)
  have mm: "\<forall>a. cover_count a (add_mset (b, k) (mset fl)) = cover_count a (add_mset (v, n) (mset (kvirt_free m)))"
    "in_bounds (kvirt_next m) (b, k)" "set fl \<subseteq> set (kvirt_free m)" "length fl \<le> length (kvirt_free m)"
    using merge_range_covers [OF mr, of "kvirt_next m"] bd r by auto
  have m': "vmm_free_pages v n m = ?m\<lparr>kvirt_free := (if length fl < KVIRT_FL_MAX then fl @ [(b, k)] else fl)\<rparr>"
    by (simp add: vmm_free_pages_def fr mr Let_def)
  have live: "mset live = add_mset (v, n) (mset ?live)" using r by simp
  have total: "cover_count a (mset ?live + add_mset (b, k) (mset fl)) \<le> 1" for a
  proof -
    have "cover_count a (mset live + mset (kvirt_free m)) \<le> 1" using ok by (simp add: kv_ok_def)
    then show ?thesis using mm(1) [rule_format, of a] unfolding live cover_count_simps by linarith
  qed
  show ?thesis unfolding kv_ok_def m'
  proof (intro conjI allI ballI)
    show "cover_count a (mset ?live + mset (kvirt_free (?m\<lparr>kvirt_free := (if length fl < KVIRT_FL_MAX then fl @ [(b, k)] else fl)\<rparr>))) \<le> 1" for a
      using total [of a] by auto
    show "in_bounds (kvirt_next (?m\<lparr>kvirt_free := (if length fl < KVIRT_FL_MAX then fl @ [(b, k)] else fl)\<rparr>)) s"
      if "s \<in> set ?live \<union> set (kvirt_free (?m\<lparr>kvirt_free := (if length fl < KVIRT_FL_MAX then fl @ [(b, k)] else fl)\<rparr>))" for s
    proof -
      have "s \<in> set live \<union> set (kvirt_free m) \<or> s = (b, k)"
        using that mm(3) set_remove1_subset [of "(v, n)" live] by (simp split: if_splits) blast+
      then have "in_bounds (kvirt_next m) s" using bd mm(2) by blast
      then show ?thesis using fr by simp
    qed
    show "length (kvirt_free (?m\<lparr>kvirt_free := (if length fl < KVIRT_FL_MAX then fl @ [(b, k)] else fl)\<rparr>)) \<le> KVIRT_FL_MAX"
      using mm(4) ok by (auto simp: kv_ok_def)
  qed
qed


definition demo_kvirt :: vmm where
  "demo_kvirt = \<lparr>bitmap = (\<lambda>_. 0), nframes = 4400, refcounts = (\<lambda>_. 0), pmem = (\<lambda>_. 0), kernel_dir = 0x200000,
     cr3 = 0x200000, kmap_used = 0, kvirt_next = 0xC0005000, kvirt_free = [(0xC0002000, 3)]\<rparr>"


end
