(* ===== verification/Vfs.thy ===== *)
theory Vfs
  imports Task_Queue
begin

text \<open>
  The virtual filesystem, \<open>kernel/vfs.c\<close>: the node pool, the tree of nodes, path lookup and
  normalisation, file content, creation, removal and renaming, the mount table and the
  device nodes. A node is a number: the first 512 are the static pool, the others come from
  the heap. The function pointers of devices and filesystem drivers are numbers; what they
  name is an argument of the functions that call them. A walk along a sibling chain that
  never ends is the value \<open>Runaway\<close>.
\<close>

section \<open>Nodes and state\<close>

definition VFS_FILE :: u8 where "VFS_FILE = 0x01"
definition VFS_DIR :: u8 where "VFS_DIR = 0x02"
definition VFS_CHARDEV :: u8 where "VFS_CHARDEV = 0x04"
definition VFS_NAME_MAX :: nat where "VFS_NAME_MAX = 128"
definition VFS_PATH_MAX :: nat where "VFS_PATH_MAX = 256"
definition VFS_NODE_POOL_SIZE :: nat where "VFS_NODE_POOL_SIZE = 512"
definition VFS_MOUNT_MAX :: nat where "VFS_MOUNT_MAX = 16"
definition VFS_FS_MAX :: nat where "VFS_FS_MAX = 8"

type_synonym fnptr = nat

text \<open>\<open>v_data\<close> is the buffer behind \<open>data\<close>, \<open>None\<close> for the null pointer.\<close>

record vfs_node =
  v_name :: string
  v_inode :: u32
  v_size :: u32
  v_flags :: u8
  v_data :: "u8 list option"
  v_writable :: bool
  v_readonly :: bool
  v_heap_alloc :: bool
  v_buf_cap :: u32
  v_read_op :: "fnptr option"
  v_write_op :: "fnptr option"
  v_control_op :: "fnptr option"
  v_mounted_root :: "vptr option"
  v_fs :: "fnptr option"
  v_children :: "vptr option"
  v_sibling :: "vptr option"
  v_parent :: "vptr option"

definition zero_node :: vfs_node where
  "zero_node = \<lparr>v_name = [], v_inode = 0, v_size = 0, v_flags = 0, v_data = None, v_writable = False,
     v_readonly = False, v_heap_alloc = False, v_buf_cap = 0, v_read_op = None, v_write_op = None,
     v_control_op = None, v_mounted_root = None, v_fs = None, v_children = None, v_sibling = None,
     v_parent = None\<rparr>"

record vfs_mount_entry =
  m_path :: string
  m_fstype :: string
  m_root :: "vptr option"
  m_mountpoint :: "vptr option"

record vfs =
  node_at :: "vptr \<Rightarrow> vfs_node"
  node_pool_used :: nat
  node_free_list :: "vptr option"
  next_inode :: u32
  vfs_root :: "vptr option"
  mount_table :: "vfs_mount_entry list"
  fs_registry :: "(string \<times> fnptr) list"

definition upd_node :: "vptr \<Rightarrow> (vfs_node \<Rightarrow> vfs_node) \<Rightarrow> 'a vfs_scheme \<Rightarrow> 'a vfs_scheme" where
  "upd_node n f s = s\<lparr>node_at := (node_at s)(n := f (node_at s n))\<rparr>"

abbreviation is_dir :: "'a vfs_scheme \<Rightarrow> vptr \<Rightarrow> bool" where
  "is_dir s n \<equiv> v_flags (node_at s n) AND VFS_DIR \<noteq> 0"

abbreviation is_file :: "'a vfs_scheme \<Rightarrow> vptr \<Rightarrow> bool" where
  "is_file s n \<equiv> v_flags (node_at s n) AND VFS_FILE \<noteq> 0"

abbreviation is_chardev :: "'a vfs_scheme \<Rightarrow> vptr \<Rightarrow> bool" where
  "is_chardev s n \<equiv> v_flags (node_at s n) AND VFS_CHARDEV \<noteq> 0"

text \<open>
  What the heap gives: the address of a node, and the content of a buffer of the size asked
  for, which \<open>kmalloc\<close> does not clear.
\<close>

record heap_env =
  he_node :: "vptr option"
  he_buf :: "u32 \<Rightarrow> u8 list option"

section \<open>The node pool\<close>

definition vfs_alloc_node :: "heap_env \<Rightarrow> 'a vfs_scheme \<Rightarrow> vptr option \<times> 'a vfs_scheme" where
  "vfs_alloc_node h s =
     (case node_free_list s of
        Some n \<Rightarrow> (Some n, upd_node n (\<lambda>_. zero_node) (s\<lparr>node_free_list := v_sibling (node_at s n)\<rparr>))
      | None \<Rightarrow>
          if node_pool_used s < VFS_NODE_POOL_SIZE then
            (let n = node_pool_used s
             in (Some n, upd_node n (\<lambda>_. zero_node) (s\<lparr>node_pool_used := n + 1\<rparr>)))
          else (case he_node h of
                  None \<Rightarrow> (None, s)
                | Some n \<Rightarrow> (Some n, upd_node n (\<lambda>_. zero_node\<lparr>v_heap_alloc := True\<rparr>) s)))"

definition vfs_free_node :: "vptr \<Rightarrow> 'a vfs_scheme \<Rightarrow> 'a vfs_scheme" where
  "vfs_free_node n s =
     (let was_heap = v_heap_alloc (node_at s n);
          s = upd_node n (\<lambda>_. zero_node) s
      in if was_heap then s
         else (upd_node n (\<lambda>x. x\<lparr>v_sibling := node_free_list s\<rparr>) s)\<lparr>node_free_list := Some n\<rparr>)"

definition vfs_set_root :: "vptr option \<Rightarrow> 'a vfs_scheme \<Rightarrow> 'a vfs_scheme" where
  "vfs_set_root r s = s\<lparr>vfs_root := r\<rparr>"

definition vfs_get_root :: "'a vfs_scheme \<Rightarrow> vptr option" where
  "vfs_get_root s =
     (case vfs_root s of
        None \<Rightarrow> None
      | Some r \<Rightarrow> (case v_mounted_root (node_at s r) of Some m \<Rightarrow> Some m | None \<Rightarrow> Some r))"

section \<open>Sibling chains\<close>

definition of_opt :: "'a option \<Rightarrow> fault + 'a" where
  "of_opt r = (case r of None \<Rightarrow> Inl Runaway | Some x \<Rightarrow> Inr x)"

lemma of_opt_simps [simp]: "of_opt None = Inl Runaway" "of_opt (Some x) = Inr x"
  by (simp_all add: of_opt_def)

text \<open>The first child from \<open>p\<close> on that is called \<open>name\<close>.\<close>

partial_function (option) child_named ::
    "(vptr \<Rightarrow> vfs_node) \<Rightarrow> string \<Rightarrow> vptr option \<Rightarrow> vptr option option" where
  "child_named h name p =
     (case p of
        None \<Rightarrow> Some None
      | Some c \<Rightarrow> if v_name (h c) = name then Some (Some c) else child_named h name (v_sibling (h c)))"

text \<open>The node before \<open>n\<close>: the last node of the chain for the null pointer.\<close>

partial_function (option) node_before ::
    "(vptr \<Rightarrow> vfs_node) \<Rightarrow> vptr option \<Rightarrow> vptr option \<Rightarrow> vptr option option" where
  "node_before h n p =
     (case p of
        None \<Rightarrow> Some None
      | Some c \<Rightarrow> if v_sibling (h c) = n then Some (Some c) else node_before h n (v_sibling (h c)))"

text \<open>The child at an index: \<open>k\<close> is what is left to count, \<open>index - i\<close> of the loop.\<close>

partial_function (option) child_index ::
    "(vptr \<Rightarrow> vfs_node) \<Rightarrow> u32 \<Rightarrow> vptr option \<Rightarrow> vptr option option" where
  "child_index h k p =
     (case p of
        None \<Rightarrow> Some None
      | Some c \<Rightarrow> if k = 0 then Some (Some c) else child_index h (k - 1) (v_sibling (h c)))"

declare child_named.simps [code] node_before.simps [code] child_index.simps [code]

definition dir_child :: "'a vfs_scheme \<Rightarrow> vptr \<Rightarrow> string \<Rightarrow> fault + vptr option" where
  "dir_child s dir name = of_opt (child_named (node_at s) name (v_children (node_at s dir)))"

definition vfs_add_child :: "vptr \<Rightarrow> vptr \<Rightarrow> 'a vfs_scheme \<Rightarrow> fault + 'a vfs_scheme" where
  "vfs_add_child parent child s =
     (let s = upd_node child (\<lambda>x. x\<lparr>v_parent := Some parent, v_sibling := None\<rparr>) s in
      case v_children (node_at s parent) of
        None \<Rightarrow> Inr (upd_node parent (\<lambda>x. x\<lparr>v_children := Some child\<rparr>) s)
      | Some c \<Rightarrow>
          bindE (of_opt (node_before (node_at s) None (Some c))) (\<lambda>l.
            case l of
              None \<Rightarrow> Inl NullDeref
            | Some l \<Rightarrow> Inr (upd_node l (\<lambda>x. x\<lparr>v_sibling := Some child\<rparr>) s)))"

definition vfs_readdir :: "'a vfs_scheme \<Rightarrow> vptr option \<Rightarrow> u32 \<Rightarrow> fault + vptr option" where
  "vfs_readdir s node index =
     (case node of
        None \<Rightarrow> Inr None
      | Some n \<Rightarrow> if \<not> is_dir s n then Inr None
                  else of_opt (child_index (node_at s) index (v_children (node_at s n))))"

section \<open>Paths\<close>

definition follow_mount :: "'a vfs_scheme \<Rightarrow> vptr \<Rightarrow> vptr" where
  "follow_mount s n = (case v_mounted_root (node_at s n) of Some m \<Rightarrow> m | None \<Rightarrow> n)"

abbreviation slash :: char where "slash \<equiv> CHR ''/''"

lemma rest_shorter: "dropWhile ((=) slash) p \<noteq> [] \<Longrightarrow>
    length (dropWhile ((\<noteq>) slash) (dropWhile ((=) slash) p)) < length p"
proof -
  assume ne: "dropWhile ((=) slash) p \<noteq> []"
  let ?q = "dropWhile ((=) slash) p"
  have "hd ?q \<noteq> slash" using hd_dropWhile [OF ne] by auto
  then have "length (dropWhile ((\<noteq>) slash) ?q) < length ?q"
    using ne length_dropWhile_le [of "(\<noteq>) slash" "tl ?q"] by (cases ?q) auto
  also have "\<dots> \<le> length p" by (rule length_dropWhile_le)
  finally show ?thesis .
qed

function lookup_loop :: "'a vfs_scheme \<Rightarrow> vptr \<Rightarrow> string \<Rightarrow> fault + vptr option" where
  "lookup_loop s cur p =
     (let p = dropWhile ((=) slash) p in
      if p = [] then Inr (Some cur)
      else
        let comp = takeWhile ((\<noteq>) slash) p
        in if \<not> is_dir s cur then Inr None
           else bindE (dir_child s cur comp) (\<lambda>c.
             case c of
               None \<Rightarrow> Inr None
             | Some c \<Rightarrow> lookup_loop s (follow_mount s c) (dropWhile ((\<noteq>) slash) p)))"
  by pat_completeness auto

termination by (relation "measure (\<lambda>(s, cur, p). length p)") (auto simp: rest_shorter)

declare lookup_loop.simps [simp del]

definition vfs_lookup :: "'a vfs_scheme \<Rightarrow> string \<Rightarrow> fault + vptr option" where
  "vfs_lookup s path =
     (case vfs_root s of
        None \<Rightarrow> Inr None
      | Some r \<Rightarrow> (case path of
                     [] \<Rightarrow> Inr None
                   | c # p \<Rightarrow> if c \<noteq> slash then Inr None else lookup_loop s (follow_mount s r) p))"

text \<open>\<open>vfs_resolve\<close>: the static buffer \<open>raw\<close> and the stack of kept components.\<close>

definition resolve_raw :: "string \<Rightarrow> string \<Rightarrow> string" where
  "resolve_raw dir path =
     (if path \<noteq> [] \<and> hd path = slash then take (VFS_PATH_MAX - 1) path
      else
        let raw = take (VFS_PATH_MAX - 1) dir;
            raw = (if length raw > 1 \<and> last raw \<noteq> slash \<and> length raw < VFS_PATH_MAX - 1
                   then raw @ [slash] else raw)
        in raw @ take (VFS_PATH_MAX - 1 - length raw) path)"

function resolve_segs :: "string list \<Rightarrow> string \<Rightarrow> string list" where
  "resolve_segs segs p =
     (let p = dropWhile ((=) slash) p in
      if p = [] then segs
      else
        let comp = takeWhile ((\<noteq>) slash) p;
            segs = (if comp = ''.'' then segs
                    else if comp = ''..'' then butlast segs
                    else if length segs < 64 then segs @ [comp] else segs)
        in resolve_segs segs (dropWhile ((\<noteq>) slash) p))"
  by pat_completeness auto
termination by (relation "measure (\<lambda>(segs, p). length p)") (auto simp: rest_shorter)

declare resolve_segs.simps [simp del]

fun emit_chars :: "string \<Rightarrow> string \<Rightarrow> string option" where
  "emit_chars out [] = Some out"
| "emit_chars out (c # cs) = (if length out < VFS_PATH_MAX - 1 then emit_chars (out @ [c]) cs else None)"

fun emit_segs :: "bool \<Rightarrow> string \<Rightarrow> string list \<Rightarrow> string option" where
  "emit_segs first out [] = Some out"
| "emit_segs first out (g # gs) =
     Option.bind (emit_chars (if \<not> first \<and> length out < VFS_PATH_MAX - 1 then out @ [slash] else out) g)
       (\<lambda>out. emit_segs False out gs)"

text \<open>With nothing in \<open>raw\<close> the scan would start behind its terminating NUL.\<close>

definition vfs_resolve :: "string \<Rightarrow> string \<Rightarrow> fault + string option" where
  "vfs_resolve dir path =
     (case resolve_raw dir path of
        [] \<Rightarrow> Inl BadAccess
      | _ # p \<Rightarrow> Inr (emit_segs True [slash] (resolve_segs [] p)))"

section \<open>Reading and writing\<close>

text \<open>What the functions of the devices do with a request, without their own state.\<close>

record dev_fns =
  df_read :: "fnptr \<Rightarrow> u32 \<Rightarrow> u32 \<Rightarrow> u8 list"
  df_write :: "fnptr \<Rightarrow> u32 \<Rightarrow> u8 list \<Rightarrow> u32"
  df_control :: "fnptr \<Rightarrow> vptr \<Rightarrow> u32 \<Rightarrow> u32 \<Rightarrow> int"

text \<open>The bytes read; the result of \<open>vfs_read\<close> is their number.\<close>

definition vfs_read :: "dev_fns \<Rightarrow> 'a vfs_scheme \<Rightarrow> vptr option \<Rightarrow> u32 \<Rightarrow> u32 \<Rightarrow> u8 list" where
  "vfs_read d s node offset len =
     (case node of
        None \<Rightarrow> []
      | Some n \<Rightarrow>
          if is_chardev s n then
            (case v_read_op (node_at s n) of None \<Rightarrow> [] | Some f \<Rightarrow> df_read d f offset len)
          else (case v_data (node_at s n) of
                  None \<Rightarrow> []
                | Some data \<Rightarrow>
                    if \<not> is_file s n \<or> v_size (node_at s n) \<le> offset then []
                    else let avail = v_size (node_at s n) - offset;
                             len = (if len > avail then avail else len)
                         in take (unat len) (drop (unat offset) data)))"

text \<open>
  \<open>while (newcap < end) newcap *= 2\<close>. Twice 32 doublings make any capacity 0, from where the
  loop never ends; \<open>None\<close> after that.
\<close>

fun grow_cap :: "nat \<Rightarrow> u32 \<Rightarrow> u32 \<Rightarrow> u32 option" where
  "grow_cap n cap stop =
     (if cap < stop then (case n of 0 \<Rightarrow> None | Suc n \<Rightarrow> grow_cap n (2 * cap) stop) else Some cap)"

declare grow_cap.simps [simp del]

definition splice :: "nat \<Rightarrow> 'x list \<Rightarrow> 'x list \<Rightarrow> 'x list" where
  "splice i xs ys = take i xs @ ys @ drop (i + length ys) xs"

definition vfs_write :: "dev_fns \<Rightarrow> heap_env \<Rightarrow> vptr option \<Rightarrow> u32 \<Rightarrow> u8 list \<Rightarrow> 'a vfs_scheme \<Rightarrow>
    fault + u32 \<times> 'a vfs_scheme" where
  "vfs_write d h node offset buf s =
     (case node of
        None \<Rightarrow> Inr (0, s)
      | Some n \<Rightarrow>
         (let x = node_at s n; len = of_nat (length buf) in
          if is_chardev s n then
            Inr (case v_write_op x of None \<Rightarrow> 0 | Some f \<Rightarrow> df_write d f offset buf, s)
          else if \<not> is_file s n \<or> \<not> v_writable x then Inr (0, s)
          else if (case v_parent x of None \<Rightarrow> False | Some p \<Rightarrow> v_readonly (node_at s p)) then Inr (0, s)
          else
            let stop = offset + len in
            if stop < offset then Inr (0, s)
            else
              bindE (if stop > v_buf_cap x then
                  (case grow_cap 33 (if v_buf_cap x \<noteq> 0 then v_buf_cap x else 64) stop of
                     None \<Rightarrow> Inl Runaway
                   | Some newcap \<Rightarrow>
                       Inr (map_option (\<lambda>fresh. x\<lparr>v_data := Some (case v_data x of
                                None \<Rightarrow> fresh
                              | Some old \<Rightarrow> splice 0 fresh (take (unat (v_size x)) old)),
                            v_buf_cap := newcap\<rparr>) (he_buf h newcap)))
                else Inr (Some x)) (\<lambda>x.
              case x of
                None \<Rightarrow> Inr (0, s)
              | Some x \<Rightarrow>
                 (let x = x\<lparr>v_size := (if stop > v_size x then stop else v_size x)\<rparr> in
                  case v_data x of
                    None \<Rightarrow> if buf = [] then Inr (0, upd_node n (\<lambda>_. x) s) else Inl NullDeref
                  | Some data \<Rightarrow>
                      Inr (len, upd_node n (\<lambda>_. x\<lparr>v_data := Some (splice (unat offset) data buf)\<rparr>) s)))))"

section \<open>Creating and removing\<close>

text \<open>The operations of a filesystem driver, on the state of the tree.\<close>

record fs_ops =
  fo_mount :: "vptr \<Rightarrow> u32 \<Rightarrow> vfs \<Rightarrow> int \<times> vfs"
  fo_umount :: "(vptr \<Rightarrow> vfs \<Rightarrow> int \<times> vfs) option"
  fo_create :: "(vptr \<Rightarrow> string \<Rightarrow> vfs \<Rightarrow> vptr option \<times> vfs) option"
  fo_mkdir :: "(vptr \<Rightarrow> string \<Rightarrow> vfs \<Rightarrow> vptr option \<times> vfs) option"
  fo_unlink :: "(vptr \<Rightarrow> vptr \<Rightarrow> vfs \<Rightarrow> int \<times> vfs) option"

type_synonym drivers = "fnptr \<Rightarrow> fs_ops"

text \<open>The length of the parent's path, its trailing slash stripped, and the base name.\<close>

definition split_path :: "string \<Rightarrow> nat \<times> string" where
  "split_path path =
     (let base = after_slash path path;
          parent_len = length path - length base
      in (if parent_len > 1 then parent_len - 1 else parent_len, base))"

definition lookup_parent :: "vfs \<Rightarrow> string \<Rightarrow> nat \<Rightarrow> fault + vptr option" where
  "lookup_parent s path parent_len =
     (if parent_len = 0 then Inr (vfs_root s)
      else if parent_len \<ge> VFS_PATH_MAX then Inr None
      else vfs_lookup s (take parent_len path))"

text \<open>What \<open>vfs_creat\<close> and \<open>vfs_mkdir\<close> check before they look for the name.\<close>

definition creation_dir :: "vfs \<Rightarrow> string \<Rightarrow> fault + (vptr \<times> string) option" where
  "creation_dir s path =
     (if vfs_root s = None \<or> path = [] \<or> hd path \<noteq> slash then Inr None
      else let (parent_len, base) = split_path path in
           if base = [] then Inr None
           else bindE (lookup_parent s path parent_len) (\<lambda>parent.
             case parent of
               None \<Rightarrow> Inr None
             | Some p \<Rightarrow> if \<not> is_dir s p \<or> v_readonly (node_at s p) then Inr None else Inr (Some (p, base))))"

definition driver_of :: "drivers \<Rightarrow> vfs \<Rightarrow> vptr \<Rightarrow> fs_ops option" where
  "driver_of drv s n = map_option drv (v_fs (node_at s n))"

definition new_node :: "heap_env \<Rightarrow> vptr \<Rightarrow> string \<Rightarrow> (vfs_node \<Rightarrow> vfs_node) \<Rightarrow> vfs \<Rightarrow> fault + vptr option \<times> vfs" where
  "new_node h parent base init s =
     (case vfs_alloc_node h s of
        (None, s) \<Rightarrow> Inr (None, s)
      | (Some n, s) \<Rightarrow>
          (let s = upd_node n (\<lambda>x. init (x\<lparr>v_name := take (VFS_NAME_MAX - 1) base, v_inode := next_inode s\<rparr>))
                     (s\<lparr>next_inode := next_inode s + 1\<rparr>)
           in bindE (vfs_add_child parent n s) (\<lambda>s. Inr (Some n, s))))"

definition vfs_creat :: "drivers \<Rightarrow> heap_env \<Rightarrow> string \<Rightarrow> vfs \<Rightarrow> fault + vptr option \<times> vfs" where
  "vfs_creat drv h path s =
     bindE (creation_dir s path) (\<lambda>r.
       case r of
         None \<Rightarrow> Inr (None, s)
       | Some (parent, base) \<Rightarrow>
          (case Option.bind (driver_of drv s (follow_mount s parent)) fo_create of
             Some create \<Rightarrow> Inr (create (follow_mount s parent) base s)
           | None \<Rightarrow>
               bindE (dir_child s parent base) (\<lambda>n.
                 case n of
                   Some n \<Rightarrow>
                     if \<not> is_file s n then Inr (None, s)
                     else Inr (Some n, upd_node n (\<lambda>x. x\<lparr>v_data := None, v_buf_cap := 0, v_size := 0,
                                         v_writable := True\<rparr>) s)
                 | None \<Rightarrow> new_node h parent base (\<lambda>x. x\<lparr>v_flags := VFS_FILE, v_writable := True\<rparr>) s)))"

definition vfs_mkdir :: "drivers \<Rightarrow> heap_env \<Rightarrow> string \<Rightarrow> vfs \<Rightarrow> fault + vptr option \<times> vfs" where
  "vfs_mkdir drv h path s =
     bindE (creation_dir s path) (\<lambda>r.
       case r of
         None \<Rightarrow> Inr (None, s)
       | Some (parent, base) \<Rightarrow>
          (case Option.bind (driver_of drv s (follow_mount s parent)) fo_mkdir of
             Some mkdir \<Rightarrow> Inr (mkdir (follow_mount s parent) base s)
           | None \<Rightarrow>
               bindE (dir_child s parent base) (\<lambda>n.
                 case n of
                   Some n \<Rightarrow> Inr (None, s)
                 | None \<Rightarrow> new_node h parent base (\<lambda>x. x\<lparr>v_flags := VFS_DIR\<rparr>) s)))"

definition vfs_unlink :: "drivers \<Rightarrow> string \<Rightarrow> vfs \<Rightarrow> fault + int \<times> vfs" where
  "vfs_unlink drv path s =
     bindE (vfs_lookup s path) (\<lambda>n.
       case n of
         None \<Rightarrow> Inr (-1, s)
       | Some n \<Rightarrow>
           if is_dir s n \<or> is_chardev s n then Inr (-1, s)
           else (case v_parent (node_at s n) of
              None \<Rightarrow> Inr (-1, s)
            | Some parent \<Rightarrow>
                if v_readonly (node_at s parent) then Inr (-1, s)
                else
                  let (r, s) = (case Option.bind (driver_of drv s parent) fo_unlink of
                                  Some f \<Rightarrow> f parent n s | None \<Rightarrow> (0, s))
                  in if r \<noteq> 0 then Inr (-1, s)
                     else if v_children (node_at s parent) = Some n then
                       Inr (0, vfs_free_node n (upd_node parent (\<lambda>x. x\<lparr>v_children := v_sibling (node_at s n)\<rparr>) s))
                     else
                       bindE (of_opt (node_before (node_at s) (Some n) (v_children (node_at s parent)))) (\<lambda>b.
                         case b of
                           None \<Rightarrow> Inr (-1, s)
                         | Some b \<Rightarrow>
                             Inr (0, vfs_free_node n (upd_node b (\<lambda>x. x\<lparr>v_sibling := v_sibling (node_at s n)\<rparr>) s)))))"

definition vfs_detach_child :: "vptr \<Rightarrow> vptr \<Rightarrow> vfs \<Rightarrow> fault + vfs" where
  "vfs_detach_child parent child s =
     bindE (if v_children (node_at s parent) = Some child
            then Inr (upd_node parent (\<lambda>x. x\<lparr>v_children := v_sibling (node_at s child)\<rparr>) s)
            else bindE (of_opt (node_before (node_at s) (Some child) (v_children (node_at s parent)))) (\<lambda>b.
              Inr (case b of
                     None \<Rightarrow> s
                   | Some b \<Rightarrow> upd_node b (\<lambda>x. x\<lparr>v_sibling := v_sibling (node_at s child)\<rparr>) s)))
       (\<lambda>s. Inr (upd_node child (\<lambda>x. x\<lparr>v_sibling := None, v_parent := None\<rparr>) s))"

text \<open>What \<open>vfs_rename\<close> refuses to overwrite.\<close>

definition rename_clash :: "vfs \<Rightarrow> vptr \<Rightarrow> vptr \<Rightarrow> bool" where
  "rename_clash s old new \<longleftrightarrow> is_chardev s new \<or> is_dir s old \<noteq> is_dir s new \<or>
     is_dir s new \<and> v_children (node_at s new) \<noteq> None"

definition vfs_rename :: "string \<Rightarrow> string \<Rightarrow> vfs \<Rightarrow> fault + int \<times> vfs" where
  "vfs_rename old_path new_path s =
     bindE (vfs_lookup s old_path) (\<lambda>old.
       case old of
         None \<Rightarrow> Inr (-1, s)
       | Some old \<Rightarrow>
           if v_parent (node_at s old) = None \<or> v_parent (node_at s old) = Some old then Inr (-1, s)
           else if old_path = new_path then Inr (0, s)
           else if is_dir s old \<and> take (length old_path) new_path = old_path \<and>
                   length old_path < length new_path \<and> new_path ! length old_path = slash then Inr (-1, s)
           else let (parent_len, base) = split_path new_path in
             if base = [] then Inr (-1, s)
             else bindE (lookup_parent s new_path parent_len) (\<lambda>np.
               case np of
                 None \<Rightarrow> Inr (-1, s)
               | Some np \<Rightarrow>
                   if \<not> is_dir s np \<or> v_readonly (node_at s np) \<or>
                      v_readonly (node_at s (the (v_parent (node_at s old)))) then Inr (-1, s)
                   else bindE (vfs_lookup s new_path) (\<lambda>new.
                     if (case new of None \<Rightarrow> False | Some n \<Rightarrow> rename_clash s old n) then Inr (-1, s)
                     else
                       bindE (case new of
                                None \<Rightarrow> Inr s
                              | Some n \<Rightarrow> bindE (vfs_detach_child np n s) (\<lambda>s. Inr (vfs_free_node n s))) (\<lambda>s.
                       case v_parent (node_at s old) of
                         None \<Rightarrow> Inl NullDeref
                       | Some op \<Rightarrow>
                           bindE (vfs_detach_child op old s) (\<lambda>s.
                           bindE (vfs_add_child np old
                                    (upd_node old (\<lambda>x. x\<lparr>v_name := take (VFS_NAME_MAX - 1) base\<rparr>) s)) (\<lambda>s.
                             Inr (0, s)))))))"

section \<open>Mounts, status and devices\<close>

definition vfs_fs_register :: "string \<Rightarrow> fnptr \<Rightarrow> 'a vfs_scheme \<Rightarrow> 'a vfs_scheme" where
  "vfs_fs_register fstype ops s =
     (if length (fs_registry s) \<ge> VFS_FS_MAX then s
      else s\<lparr>fs_registry := fs_registry s @ [(take 15 fstype, ops)]\<rparr>)"

definition fs_lookup_ops :: "'a vfs_scheme \<Rightarrow> string \<Rightarrow> fnptr option" where
  "fs_lookup_ops s fstype = map_option snd (find (\<lambda>e. fst e = fstype) (fs_registry s))"

definition mount_entry :: "string \<Rightarrow> string \<Rightarrow> vptr option \<Rightarrow> vptr option \<Rightarrow> vfs_mount_entry" where
  "mount_entry path fstype r mp = \<lparr>m_path = take (VFS_PATH_MAX - 1) path, m_fstype = take 15 fstype,
     m_root = r, m_mountpoint = mp\<rparr>"

definition vfs_mount :: "string \<Rightarrow> string \<Rightarrow> vptr option \<Rightarrow> 'a vfs_scheme \<Rightarrow> 'a vfs_scheme" where
  "vfs_mount path fstype r s =
     (if length (mount_table s) \<ge> VFS_MOUNT_MAX then s
      else s\<lparr>mount_table := mount_table s @ [mount_entry path fstype r None]\<rparr>)"

definition vfs_do_mount :: "drivers \<Rightarrow> string \<Rightarrow> string \<Rightarrow> u32 \<Rightarrow> vfs \<Rightarrow> fault + int \<times> vfs" where
  "vfs_do_mount drv path fstype device s =
     (case fs_lookup_ops s fstype of
        None \<Rightarrow> Inr (-1, s)
      | Some ops \<Rightarrow>
          bindE (vfs_lookup s path) (\<lambda>mp.
            case mp of
              None \<Rightarrow> Inr (-1, s)
            | Some mp \<Rightarrow>
                if \<not> is_dir s mp \<or> v_mounted_root (node_at s mp) \<noteq> None \<or>
                   length (mount_table s) \<ge> VFS_MOUNT_MAX then Inr (-1, s)
                else let (r, s) = fo_mount (drv ops) mp device s in
                     if r \<noteq> 0 then Inr (-1, s)
                     else Inr (0, s\<lparr>mount_table := mount_table s @
                            [mount_entry path fstype (v_mounted_root (node_at s mp)) (Some mp)]\<rparr>)))"

definition below :: "string \<Rightarrow> string \<Rightarrow> bool" where
  "below path p \<longleftrightarrow> take (length path) p = path \<and> (length p = length path \<or> p ! length path = slash)"

definition vfs_do_umount :: "drivers \<Rightarrow> string \<Rightarrow> vfs \<Rightarrow> int \<times> vfs" where
  "vfs_do_umount drv path s =
     (let ms = mount_table s in
      case find (\<lambda>i. m_mountpoint (ms ! i) \<noteq> None \<and> m_path (ms ! i) = path) [0..<length ms] of
        None \<Rightarrow> (-1, s)
      | Some idx \<Rightarrow>
          if list_ex (\<lambda>i. i \<noteq> idx \<and> m_mountpoint (ms ! i) \<noteq> None \<and> below path (m_path (ms ! i))) [0..<length ms]
            then (-1, s)
          else
            (case Option.bind (m_mountpoint (ms ! idx)) (\<lambda>mp. map_option (Pair mp) (v_mounted_root (node_at s mp))) of
               None \<Rightarrow> (-1, s)
             | Some (mp, r) \<Rightarrow>
                (case Option.bind (driver_of drv s r) fo_umount of
                   None \<Rightarrow> (-1, s)
                 | Some umount \<Rightarrow>
                     let (r, s) = umount mp s
                     in if r \<noteq> 0 then (-1, s)
                        else (0, s\<lparr>mount_table := take idx (mount_table s) @ drop (idx + 1) (mount_table s)\<rparr>))))"

definition vfs_get_mounts :: "'a vfs_scheme \<Rightarrow> nat \<Rightarrow> (string \<times> string \<times> bool) list" where
  "vfs_get_mounts s mx =
     map (\<lambda>m. (m_path m, m_fstype m, case m_root m of None \<Rightarrow> False | Some r \<Rightarrow> v_readonly (node_at s r)))
       (take mx (mount_table s))"

definition vfs_fstat :: "'a vfs_scheme \<Rightarrow> vptr option \<Rightarrow> (u32 \<times> u8 \<times> u32) option" where
  "vfs_fstat s node = map_option (\<lambda>n. (v_size (node_at s n), v_flags (node_at s n), v_inode (node_at s n))) node"

definition vfs_stat :: "'a vfs_scheme \<Rightarrow> string \<Rightarrow> fault + (u32 \<times> u8 \<times> u32) option" where
  "vfs_stat s path = bindE (vfs_lookup s path) (\<lambda>n. Inr (vfs_fstat s n))"

definition vfs_ioctl :: "dev_fns \<Rightarrow> 'a vfs_scheme \<Rightarrow> vptr option \<Rightarrow> u32 \<Rightarrow> u32 \<Rightarrow> int" where
  "vfs_ioctl d s node request arg =
     (case node of
        None \<Rightarrow> -1
      | Some n \<Rightarrow> (case v_control_op (node_at s n) of None \<Rightarrow> -1 | Some f \<Rightarrow> df_control d f n request arg))"

definition vfs_register_dev :: "heap_env \<Rightarrow> string \<Rightarrow> u32 \<Rightarrow> fnptr option \<Rightarrow> fnptr option \<Rightarrow> fnptr option \<Rightarrow>
    vfs \<Rightarrow> fault + vptr option \<times> vfs" where
  "vfs_register_dev h name inode rd wr ct s =
     bindE (vfs_lookup s ''/dev'') (\<lambda>dev.
       case dev of
         None \<Rightarrow> Inr (None, s)
       | Some dev \<Rightarrow>
          (case vfs_alloc_node h s of
             (None, s) \<Rightarrow> Inr (None, s)
           | (Some n, s) \<Rightarrow>
               (let s' = upd_node n (\<lambda>x. x\<lparr>v_name := take (VFS_NAME_MAX - 1) name, v_flags := VFS_FILE OR VFS_CHARDEV,
                           v_inode := (if inode \<noteq> 0 then inode else next_inode s), v_read_op := rd,
                           v_write_op := wr, v_control_op := ct\<rparr>)
                          (if inode \<noteq> 0 then s else s\<lparr>next_inode := next_inode s + 1\<rparr>)
                in bindE (vfs_add_child dev n s') (\<lambda>s. Inr (Some n, s)))))"

end
