(* ===== verification/Vfs_File.thy ===== *)
theory Vfs_File
  imports Vfs
begin

text \<open>
  The content of a file behind \<open>vfs_read\<close> and \<open>vfs_write\<close>, and the normalisation of paths.
\<close>

section \<open>File content\<close>

text \<open>
  The bytes of a file, and what holds of its buffer: the size is within it, and the buffer
  of a file that may be written is its own and has the capacity the node says.
\<close>

definition content :: "vfs_node \<Rightarrow> u8 list" where
  "content x = (case v_data x of None \<Rightarrow> [] | Some data \<Rightarrow> take (unat (v_size x)) data)"

definition file_ok :: "vfs_node \<Rightarrow> bool" where
  "file_ok x \<longleftrightarrow> (case v_data x of
     None \<Rightarrow> v_size x = 0 \<and> v_buf_cap x = 0
   | Some data \<Rightarrow> unat (v_size x) \<le> length data \<and>
       (v_writable x \<longrightarrow> v_buf_cap x \<noteq> 0 \<and> length data = unat (v_buf_cap x)))"

lemma content_length: "file_ok x \<Longrightarrow> length (content x) = unat (v_size x)"
  by (auto simp: file_ok_def content_def split: option.splits)

lemma length_splice [simp]: "i + length ys \<le> length xs \<Longrightarrow> length (splice i xs ys) = length xs"
  by (simp add: splice_def)

lemma splice_nth:
  assumes "i + length ys \<le> length xs" and "j < length xs"
  shows "splice i xs ys ! j = (if i \<le> j \<and> j < i + length ys then ys ! (j - i) else xs ! j)"
  using assms by (auto simp: splice_def nth_append)

lemma upd_node_simps [simp]:
  "node_at (upd_node n f s) = (node_at s)(n := f (node_at s n))"
  "node_pool_used (upd_node n f s) = node_pool_used s" "node_free_list (upd_node n f s) = node_free_list s"
  "next_inode (upd_node n f s) = next_inode s" "vfs_root (upd_node n f s) = vfs_root s"
  "mount_table (upd_node n f s) = mount_table s" "fs_registry (upd_node n f s) = fs_registry s"
  by (simp_all add: upd_node_def)

lemma grow_cap_enough:
  "stop \<le> 0x80000000 \<Longrightarrow> cap \<noteq> 0 \<Longrightarrow> unat stop \<le> unat cap * 2 ^ n \<Longrightarrow>
     \<exists>c. grow_cap n cap stop = Some c \<and> stop \<le> c \<and> cap \<le> c"
proof (induction n arbitrary: cap)
  case 0
  then show ?case by (simp add: grow_cap.simps word_le_nat_alt not_less)
next
  case (Suc n)
  show ?case
  proof (cases "cap < stop")
    case True
    have "unat stop \<le> 0x80000000" using Suc.prems(1) by (simp add: word_le_nat_alt)
    then have u: "unat (2 * cap) = 2 * unat cap"
      using True by (simp add: word_less_nat_alt unat_word_ariths)
    have "2 * cap \<noteq> 0" using u Suc.prems(2) by (metis mult_eq_0_iff unat_eq_zero zero_neq_numeral)
    moreover have "unat stop \<le> unat (2 * cap) * 2 ^ n" using Suc.prems(3) u by simp
    ultimately obtain c where c: "grow_cap n (2 * cap) stop = Some c" "stop \<le> c" "2 * cap \<le> c"
      using Suc.IH Suc.prems(1) by blast
    have "cap \<le> 2 * cap" using u by (simp add: word_le_nat_alt)
    with c True show ?thesis by (subst grow_cap.simps) (auto intro: order.trans)
  next
    case False
    then show ?thesis by (subst grow_cap.simps) auto
  qed
qed

text \<open>A plain file that may be written.\<close>

definition writable_file :: "'a vfs_scheme \<Rightarrow> vptr \<Rightarrow> bool" where
  "writable_file s n \<longleftrightarrow> is_file s n \<and> \<not> is_chardev s n \<and> v_writable (node_at s n) \<and>
     (\<forall>p. v_parent (node_at s n) = Some p \<longrightarrow> \<not> v_readonly (node_at s p))"

text \<open>The heap has memory: a buffer of every size asked for.\<close>

definition heap_gives :: "heap_env \<Rightarrow> bool" where
  "heap_gives h \<longleftrightarrow> (\<forall>c. \<exists>b. he_buf h c = Some b \<and> length b = unat c)"

lemma vfs_write_node:
  assumes w: "writable_file s n" and ok: "file_ok (node_at s n)" and h: "heap_gives h"
    and fits: "unat offset + length buf \<le> 2 ^ 31" and ne: "buf \<noteq> []"
  obtains x data where "vfs_write d h (Some n) offset buf s = Inr (of_nat (length buf), upd_node n (\<lambda>_. x) s)"
    and "v_data x = Some (splice (unat offset) data buf)" and "unat offset + length buf \<le> length data"
    and "unat (v_size x) = max (unat (v_size (node_at s n))) (unat offset + length buf)"
    and "unat (v_size x) \<le> length data" and "v_buf_cap x \<noteq> 0" and "length data = unat (v_buf_cap x)"
    and "take (unat (v_size (node_at s n))) data = content (node_at s n)"
    and "v_flags x = v_flags (node_at s n)" and "v_read_op x = v_read_op (node_at s n)"
proof -
  let ?x = "node_at s n" and ?len = "of_nat (length buf) :: u32"
  let ?stop = "offset + ?len"
  define sz where "sz = (if ?stop > v_size ?x then ?stop else v_size ?x)"
  have l: "unat ?len = length buf" using fits by (intro unat_of_nat_small) simp
  then have stop: "unat ?stop = unat offset + length buf" using fits by (subst unat_plus_no_wrap) simp_all
  then have no: "\<not> ?stop < offset" by (simp add: word_less_nat_alt)
  have stop31: "?stop \<le> 0x80000000" using stop fits by (simp add: word_le_nat_alt)
  have sz: "unat sz = max (unat (v_size ?x)) (unat offset + length buf)"
    using stop by (auto simp: sz_def word_less_nat_alt)
  have ro: "\<not> (case v_parent ?x of None \<Rightarrow> False | Some p \<Rightarrow> v_readonly (node_at s p))"
    using w by (auto simp: writable_file_def split: option.split)
  have wr: "v_writable ?x" using w by (simp add: writable_file_def)
  show thesis
  proof (cases "?stop > v_buf_cap ?x")
    case True
    let ?c0 = "if v_buf_cap ?x \<noteq> 0 then v_buf_cap ?x else 64"
    have "unat ?stop \<le> unat ?c0 * 2 ^ 33"
    proof -
      have "0 < unat ?c0" by (simp add: unat_gt_0)
      then have "1 * 2 ^ 33 \<le> unat ?c0 * 2 ^ 33" by (intro mult_right_mono) auto
      then show ?thesis using stop fits by simp
    qed
    moreover have "?c0 \<noteq> 0" by simp
    ultimately obtain c where c: "grow_cap 33 ?c0 ?stop = Some c" "?stop \<le> c" "?c0 \<le> c"
      using grow_cap_enough [OF stop31] by blast
    obtain fresh where f: "he_buf h c = Some fresh" "length fresh = unat c" using h by (auto simp: heap_gives_def)
    define data where "data = (case v_data ?x of None \<Rightarrow> fresh | Some old \<Rightarrow> splice 0 fresh (take (unat (v_size ?x)) old))"
    have szle: "unat (v_size ?x) \<le> unat c"
      using ok c(3) wr by (auto simp: file_ok_def word_le_nat_alt split: option.splits)
    have ld: "length data = unat c"
      using f szle ok by (auto simp: data_def file_ok_def split: option.splits)
    have keep: "take (unat (v_size ?x)) data = content ?x"
      using ok by (auto simp: data_def content_def file_ok_def splice_def split: option.splits)
    let ?y = "?x\<lparr>v_buf_cap := c, v_size := sz, v_data := Some (splice (unat offset) data buf)\<rparr>"
    have "vfs_write d h (Some n) offset buf s = Inr (?len, upd_node n (\<lambda>_. ?y) s)"
      using w no ro True c(1) f(1)
      by (simp add: vfs_write_def Let_def writable_file_def data_def [symmetric] sz_def)
    moreover have "unat offset + length buf \<le> length data" using c(2) stop ld by (simp add: word_le_nat_alt)
    moreover have "unat sz \<le> length data" using sz szle ld calculation(2) by simp
    moreover have "c \<noteq> 0" using c(3) by (auto split: if_splits)
    ultimately show thesis using that [of ?y data] sz keep ld by simp
  next
    case False
    then have capst: "unat offset + length buf \<le> unat (v_buf_cap ?x)" using stop by (simp add: word_less_nat_alt)
    then have "v_buf_cap ?x \<noteq> 0" using ne by auto
    with ok wr obtain data where data: "v_data ?x = Some data" "length data = unat (v_buf_cap ?x)"
      "unat (v_size ?x) \<le> length data" by (auto simp: file_ok_def split: option.splits)
    let ?y = "?x\<lparr>v_size := sz, v_data := Some (splice (unat offset) data buf)\<rparr>"
    have "vfs_write d h (Some n) offset buf s = Inr (?len, upd_node n (\<lambda>_. ?y) s)"
      using w no ro False data(1) by (simp add: vfs_write_def Let_def writable_file_def sz_def)
    moreover have "take (unat (v_size ?x)) data = content ?x" using data by (simp add: content_def)
    moreover have "unat sz \<le> length data" using sz capst data by simp
    ultimately show thesis using that [of ?y data] sz data capst \<open>v_buf_cap ?x \<noteq> 0\<close> by simp
  qed
qed

text \<open>
  C29. Writing bytes at an offset of a writable file, with memory available and the end within
  2 GB, stores them all: reading them back gives the bytes, the size is the larger of the
  old size and the end of the write, no byte of the old content outside the written range
  changes, the buffer stays large enough, and no other node changes.
\<close>
theorem vfs_write_read:
  assumes "writable_file s n" and "file_ok (node_at s n)" and "heap_gives h"
    and "unat offset + length buf \<le> 2 ^ 31" and "buf \<noteq> []"
  shows "\<exists>s'. vfs_write d h (Some n) offset buf s = Inr (of_nat (length buf), s') \<and>
    vfs_read d s' (Some n) offset (of_nat (length buf)) = buf \<and>
    file_ok (node_at s' n) \<and>
    length (content (node_at s' n)) = max (length (content (node_at s n))) (unat offset + length buf) \<and>
    (\<forall>i < length (content (node_at s n)). i < unat offset \<or> unat offset + length buf \<le> i \<longrightarrow>
       content (node_at s' n) ! i = content (node_at s n) ! i) \<and>
    (\<forall>m. m \<noteq> n \<longrightarrow> node_at s' m = node_at s m)"
proof -
  obtain x data where x: "vfs_write d h (Some n) offset buf s = Inr (of_nat (length buf), upd_node n (\<lambda>_. x) s)"
    "v_data x = Some (splice (unat offset) data buf)" "unat offset + length buf \<le> length data"
    "unat (v_size x) = max (unat (v_size (node_at s n))) (unat offset + length buf)"
    "unat (v_size x) \<le> length data" "v_buf_cap x \<noteq> 0" "length data = unat (v_buf_cap x)"
    "take (unat (v_size (node_at s n))) data = content (node_at s n)"
    "v_flags x = v_flags (node_at s n)" "v_read_op x = v_read_op (node_at s n)"
    by (rule vfs_write_node [OF assms])
  let ?s = "upd_node n (\<lambda>_. x) s" and ?len = "of_nat (length buf) :: u32"
  have l: "unat ?len = length buf" using assms(4) by (intro unat_of_nat_small) simp
  have ok: "file_ok x" using x by (simp add: file_ok_def)
  have "offset < v_size x" using x(4) assms(5) by (simp add: word_less_nat_alt less_max_iff_disj)
  moreover have "\<not> v_size x - offset < ?len"
    using x(4) l unat_minus_le [OF less_imp_le [OF calculation]] by (simp add: word_less_nat_alt)
  moreover have "take (length buf) (drop (unat offset) (splice (unat offset) data buf)) = buf"
    using x(3) by (simp add: splice_def)
  ultimately have "vfs_read d ?s (Some n) offset ?len = buf"
    using assms(1) x(2,9) l by (auto simp: vfs_read_def writable_file_def Let_def not_le)
  moreover have "length (content x) = max (length (content (node_at s n))) (unat offset + length buf)"
    unfolding content_length [OF ok] content_length [OF assms(2)] x(4) ..
  moreover have "content x ! i = content (node_at s n) ! i"
    if "i < length (content (node_at s n))" "i < unat offset \<or> unat offset + length buf \<le> i" for i
  proof -
    have i: "i < unat (v_size (node_at s n))" using that(1) content_length [OF assms(2)] by simp
    then have "content x ! i = splice (unat offset) data buf ! i" using x(2,4) by (simp add: content_def)
    also have "\<dots> = data ! i" using that(2) x(3,4,5) i by (subst splice_nth) auto
    also have "\<dots> = content (node_at s n) ! i" using i by (simp add: x(8) [symmetric])
    finally show ?thesis .
  qed
  ultimately show ?thesis using x(1) ok by auto
qed

definition demo_heap :: heap_env where
  "demo_heap = \<lparr>he_node = Some 600, he_buf = (\<lambda>c. Some (replicate (unat c) 0xAA))\<rparr>"

definition demo_dev :: dev_fns where
  "demo_dev = \<lparr>df_read = (\<lambda>_ _ _. []), df_write = (\<lambda>_ _ _. 0), df_control = (\<lambda>_ _ _ _. -1)\<rparr>"

definition demo_file :: vfs where
  "demo_file = \<lparr>node_at = (\<lambda>_. zero_node)(3 := zero_node\<lparr>v_name := ''f'', v_flags := VFS_FILE, v_writable := True\<rparr>),
     node_pool_used = 4, node_free_list = None, next_inode = 1000, vfs_root = Some 0, mount_table = [], fs_registry = []\<rparr>"

theorem vfs_write_read_witness:
  "\<exists>s'. vfs_write demo_dev demo_heap (Some 3) 2 [7, 8] demo_file = Inr (2, s') \<and>
     vfs_read demo_dev s' (Some 3) 2 2 = [7, 8] \<and> length (content (node_at s' 3)) = 4"
proof -
  have "writable_file demo_file 3"
    by (simp add: writable_file_def demo_file_def zero_node_def VFS_FILE_def VFS_CHARDEV_def)
  moreover have "file_ok (node_at demo_file 3)" "content (node_at demo_file 3) = []"
    by (simp_all add: file_ok_def content_def demo_file_def zero_node_def)
  moreover have "heap_gives demo_heap" by (simp add: heap_gives_def demo_heap_def)
  ultimately show ?thesis using vfs_write_read [of demo_file 3 demo_heap 2 "[7, 8]" demo_dev] by auto
qed

section \<open>Path normalisation\<close>

text \<open>The components of a path, and what each does to the ones kept so far.\<close>

function comps :: "string \<Rightarrow> string list" where
  "comps p =
     (let p = dropWhile ((=) slash) p in
      if p = [] then [] else takeWhile ((\<noteq>) slash) p # comps (dropWhile ((\<noteq>) slash) p))"
  by pat_completeness auto
termination by (relation "measure length") (auto simp: rest_shorter)

declare comps.simps [simp del]

definition keep_comp :: "string list \<Rightarrow> string \<Rightarrow> string list" where
  "keep_comp segs g = (if g = ''.'' then segs else if g = ''..'' then butlast segs
     else if length segs < 64 then segs @ [g] else segs)"

definition canon :: "string list \<Rightarrow> string" where
  "canon gs = (if gs = [] then ''/'' else concat (map ((#) slash) gs))"

definition normal_comp :: "string \<Rightarrow> bool" where
  "normal_comp g \<longleftrightarrow> g \<noteq> [] \<and> slash \<notin> set g \<and> g \<noteq> ''.'' \<and> g \<noteq> ''..''"

lemma comps_Nil [simp]: "comps [] = []"
  by (simp add: comps.simps)

lemma comps_slash [simp]: "comps (slash # p) = comps p"
  by (subst (1 2) comps.simps) simp

lemma comps_word: "g \<noteq> [] \<Longrightarrow> slash \<notin> set g \<Longrightarrow> comps (g @ slash # p) = g # comps p"
proof -
  assume g: "g \<noteq> []" "slash \<notin> set g"
  have 1: "dropWhile ((=) slash) (g @ slash # p) = g @ slash # p" using g by (cases g) auto
  have "\<forall>x \<in> set g. slash \<noteq> x" using g by auto
  then have "takeWhile ((\<noteq>) slash) (g @ slash # p) = g" "dropWhile ((\<noteq>) slash) (g @ slash # p) = slash # p"
    by (simp_all add: takeWhile_append2 dropWhile_append2)
  then show ?thesis using g by (subst comps.simps) (simp add: 1 Let_def)
qed

lemma comps_last: "g \<noteq> [] \<Longrightarrow> slash \<notin> set g \<Longrightarrow> comps g = [g]"
proof -
  assume g: "g \<noteq> []" "slash \<notin> set g"
  have 1: "dropWhile ((=) slash) g = g" using g by (cases g) auto
  have "\<forall>x \<in> set g. slash \<noteq> x" using g by auto
  then have t: "takeWhile ((\<noteq>) slash) g = g" "dropWhile ((\<noteq>) slash) g = []"
    by (simp_all add: takeWhile_eq_all_conv dropWhile_eq_Nil_conv)
  show ?thesis by (subst comps.simps) (simp only: 1 t Let_def g(1) if_False comps_Nil)
qed

lemma comps_canon: "\<forall>g \<in> set gs. normal_comp g \<Longrightarrow> comps (canon gs) = gs"
proof (induction gs)
  case Nil
  then show ?case by (simp add: canon_def)
next
  case (Cons g gs)
  then have g: "g \<noteq> []" "slash \<notin> set g" by (simp_all add: normal_comp_def)
  show ?case
  proof (cases gs)
    case Nil
    with g show ?thesis by (simp add: canon_def comps_last)
  next
    case (Cons h hs)
    then have "canon (g # gs) = slash # g @ slash # tl (canon gs)" "canon gs = slash # tl (canon gs)"
      by (simp_all add: canon_def)
    then show ?thesis using Cons.IH Cons.prems g comps_word [OF g] by (metis comps_slash list.set_intros(2))
  qed
qed

lemma comps_words: "g \<in> set (comps p) \<Longrightarrow> g \<noteq> [] \<and> slash \<notin> set g"
proof (induction p rule: comps.induct)
  case (1 p)
  let ?q = "dropWhile ((=) slash) p"
  show ?case
  proof (cases "?q = []")
    case True
    with 1 show ?thesis by (subst (asm) comps.simps) simp
  next
    case False
    have "hd ?q \<noteq> slash" using hd_dropWhile [OF False] by auto
    then have "takeWhile ((\<noteq>) slash) ?q \<noteq> []" using False by (cases ?q) auto
    moreover have "slash \<notin> set (takeWhile ((\<noteq>) slash) ?q)" by (auto dest: set_takeWhileD)
    moreover have "comps p = takeWhile ((\<noteq>) slash) ?q # comps (dropWhile ((\<noteq>) slash) ?q)"
      using False by (subst comps.simps) (simp add: Let_def)
    ultimately show ?thesis using "1.IH" [OF refl False] "1.prems" by auto
  qed
qed

lemma resolve_segs_fold: "resolve_segs segs p = fold (\<lambda>g segs. keep_comp segs g) (comps p) segs"
proof (induction segs p rule: resolve_segs.induct)
  case (1 segs p)
  let ?q = "dropWhile ((=) slash) p"
  show ?case
  proof (cases "?q = []")
    case True
    then show ?thesis by (subst resolve_segs.simps, subst comps.simps) simp
  next
    case False
    have "comps p = takeWhile ((\<noteq>) slash) ?q # comps (dropWhile ((\<noteq>) slash) ?q)"
      using False by (subst comps.simps) (simp add: Let_def)
    moreover have "resolve_segs segs p =
        resolve_segs (keep_comp segs (takeWhile ((\<noteq>) slash) ?q)) (dropWhile ((\<noteq>) slash) ?q)"
      by (subst resolve_segs.simps, unfold Let_def keep_comp_def, rule if_not_P [OF False])
    ultimately show ?thesis using "1.IH" [OF refl False refl refl] by (simp add: keep_comp_def)
  qed
qed

definition canon_size :: "string list \<Rightarrow> nat" where
  "canon_size gs = sum_list (map (\<lambda>g. length g + 1) gs)"

lemma canon_size_simps [simp]: "canon_size [] = 0" "canon_size (g # gs) = length g + 1 + canon_size gs"
  "canon_size (gs @ hs) = canon_size gs + canon_size hs"
  by (simp_all add: canon_size_def)

lemma length_canon: "length (canon gs) = (if gs = [] then 1 else canon_size gs)"
  by (induction gs) (auto simp: canon_def split: if_splits)

lemma comps_size: "canon_size (comps p) \<le> length p + (if p \<noteq> [] \<and> hd p = slash then 0 else 1)"
proof (induction p rule: comps.induct)
  case (1 p)
  let ?q = "dropWhile ((=) slash) p"
  show ?case
  proof (cases "?q = []")
    case True
    then show ?thesis by (subst comps.simps) simp
  next
    case False
    let ?r = "dropWhile ((\<noteq>) slash) ?q"
    have c: "comps p = takeWhile ((\<noteq>) slash) ?q # comps ?r" using False by (subst comps.simps) (simp add: Let_def)
    have r: "canon_size (comps ?r) \<le> length ?r"
    proof (cases "?r = []")
      case True
      show ?thesis unfolding True by simp
    next
      case ne: False
      have "hd ?r = slash" using hd_dropWhile [OF ne] by (metis (full_types))
      with ne have "(if ?r \<noteq> [] \<and> hd ?r = slash then 0 else 1 :: nat) = 0" by (simp only: simp_thms if_True)
      then show ?thesis using "1.IH" [OF refl False] by linarith
    qed
    have "length (takeWhile ((\<noteq>) slash) ?q) + length ?r = length ?q"
      by (metis length_append takeWhile_dropWhile_id)
    then have "canon_size (comps p) \<le> length ?q + 1" using c r by simp
    moreover have "length ?q \<le> length p" by (rule length_dropWhile_le)
    moreover have "length ?q < length p" if "p \<noteq> []" "hd p = slash"
      using that length_dropWhile_le [of "(=) slash" "tl p"] by (cases p) auto
    ultimately show ?thesis by auto
  qed
qed

lemma keep_comp_size: "canon_size (keep_comp segs g) \<le> canon_size segs + (length g + 1)"
  by (cases segs rule: rev_cases) (auto simp: keep_comp_def)

lemma fold_keep_size: "canon_size (fold (\<lambda>g segs. keep_comp segs g) gs segs) \<le> canon_size segs + canon_size gs"
proof (induction gs arbitrary: segs)
  case (Cons g gs)
  show ?case using Cons [of "keep_comp segs g"] keep_comp_size [of segs g] by simp
qed simp

lemma fold_keep_normal:
  "\<forall>g \<in> set segs. normal_comp g \<Longrightarrow> length segs \<le> 64 \<Longrightarrow> \<forall>g \<in> set gs. g \<noteq> [] \<and> slash \<notin> set g \<Longrightarrow>
     (\<forall>g \<in> set (fold (\<lambda>g segs. keep_comp segs g) gs segs). normal_comp g) \<and>
     length (fold (\<lambda>g segs. keep_comp segs g) gs segs) \<le> 64"
proof (induction gs arbitrary: segs)
  case (Cons g gs)
  have "\<forall>h \<in> set (keep_comp segs g). normal_comp h" "length (keep_comp segs g) \<le> 64"
    using Cons.prems by (auto simp: keep_comp_def normal_comp_def dest: in_set_butlastD)
  with Cons show ?case by simp
qed simp

lemma fold_keep_id:
  "\<forall>g \<in> set gs. normal_comp g \<Longrightarrow> length segs + length gs \<le> 64 \<Longrightarrow>
     fold (\<lambda>g segs. keep_comp segs g) gs segs = segs @ gs"
  by (induction gs arbitrary: segs) (auto simp: keep_comp_def normal_comp_def)

lemma emit_chars_fits: "length out + length g \<le> 255 \<Longrightarrow> emit_chars out g = Some (out @ g)"
  by (induction g arbitrary: out) (auto simp: VFS_PATH_MAX_def)

lemma emit_segs_fits:
  "length out + canon_size gs \<le> 255 \<Longrightarrow> \<forall>g \<in> set gs. g \<noteq> [] \<Longrightarrow>
     emit_segs False out gs = Some (out @ concat (map ((#) slash) gs))"
proof (induction gs arbitrary: out)
  case (Cons g gs)
  then have "emit_chars (out @ [slash]) g = Some ((out @ [slash]) @ g)" by (intro emit_chars_fits) simp
  with Cons show ?case by (simp add: VFS_PATH_MAX_def)
qed simp

lemma emit_canon:
  assumes "length (canon gs) \<le> 255" and "\<forall>g \<in> set gs. normal_comp g"
  shows "emit_segs True [slash] gs = Some (canon gs)"
proof (cases gs)
  case Nil
  then show ?thesis by (simp add: canon_def)
next
  case (Cons g hs)
  have "length g + 1 + canon_size hs \<le> 255" using assms(1) Cons by (simp add: length_canon)
  moreover from this have "emit_chars [slash] g = Some ([slash] @ g)" by (intro emit_chars_fits) simp
  moreover have "\<forall>h \<in> set hs. h \<noteq> []" using assms(2) Cons by (simp add: normal_comp_def)
  ultimately have "emit_chars [slash] g = Some (slash # g)"
    "emit_segs False (slash # g) hs = Some ((slash # g) @ concat (map ((#) slash) hs))"
    by (simp_all add: emit_segs_fits)
  with Cons show ?thesis by (simp add: canon_def)
qed

lemma resolve_raw_length: "length (resolve_raw dir path) \<le> 255"
  by (auto simp: resolve_raw_def VFS_PATH_MAX_def Let_def)

text \<open>The result is the canonical text of the components that are kept.\<close>

lemma resolve_fold:
  assumes "dir \<noteq> [] \<or> path \<noteq> []"
  defines "gs \<equiv> fold (\<lambda>g segs. keep_comp segs g) (comps (tl (resolve_raw dir path))) []"
  shows "vfs_resolve dir path = Inr (Some (canon gs))" and "length (canon gs) \<le> 255"
    and "\<forall>g \<in> set gs. normal_comp g" and "length gs \<le> 64"
proof -
  have ne: "resolve_raw dir path \<noteq> []"
    using assms(1) by (auto simp: resolve_raw_def VFS_PATH_MAX_def Let_def)
  then obtain c p where raw: "resolve_raw dir path = c # p" by (cases "resolve_raw dir path") auto
  then have lp: "length p \<le> 254" using resolve_raw_length [of dir path] by simp
  have gs: "gs = resolve_segs [] p" by (simp add: gs_def raw resolve_segs_fold)
  show norm: "\<forall>g \<in> set gs. normal_comp g" and "length gs \<le> 64"
    using fold_keep_normal [of "[]" "comps p"] comps_words unfolding gs_def raw by auto
  have "canon_size gs \<le> canon_size (comps p)"
    using fold_keep_size [of "comps p" "[]"] unfolding gs_def raw by simp
  also have "\<dots> \<le> length p + 1" using comps_size [of p] by (auto split: if_splits)
  finally show size: "length (canon gs) \<le> 255" using lp by (simp add: length_canon)
  show "vfs_resolve dir path = Inr (Some (canon gs))"
    by (simp add: vfs_resolve_def raw gs [symmetric] emit_canon [OF size norm])
qed

text \<open>A path of kept components only, with slashes behind it, is left as it is.\<close>

lemma comps_slashes: "comps (p @ [slash]) = comps p"
proof (induction p rule: comps.induct)
  case (1 p)
  let ?q = "dropWhile ((=) slash) p"
  show ?case
  proof (cases "?q = []")
    case True
    then have "dropWhile ((=) slash) (p @ [slash]) = []" by simp
    then show ?thesis using True by (subst (1 2) comps.simps) (simp only: Let_def True if_True)
  next
    case False
    have d: "dropWhile ((=) slash) (p @ [slash]) = ?q @ [slash]" using False by (auto simp: dropWhile_append)
    have t: "takeWhile ((\<noteq>) slash) (?q @ [slash]) = takeWhile ((\<noteq>) slash) ?q"
    proof (cases "\<exists>x\<in>set ?q. x = slash")
      case no: False
      then have n: "\<And>x. x \<in> set ?q \<Longrightarrow> slash \<noteq> x" by auto
      have a: "takeWhile ((\<noteq>) slash) ?q = ?q" unfolding takeWhile_eq_all_conv using n by simp
      have "takeWhile ((\<noteq>) slash) (?q @ [slash]) = ?q @ takeWhile ((\<noteq>) slash) [slash]" by (rule takeWhile_append2) (rule n)
      then have "takeWhile ((\<noteq>) slash) (?q @ [slash]) = ?q" by simp
      then show ?thesis by (rule trans [OF _ a [symmetric]])
    qed (auto simp: takeWhile_append1)
    have r: "comps (dropWhile ((\<noteq>) slash) (?q @ [slash])) = comps (dropWhile ((\<noteq>) slash) ?q)"
    proof (cases "\<exists>x\<in>set ?q. x = slash")
      case True
      then have "dropWhile ((\<noteq>) slash) (?q @ [slash]) = dropWhile ((\<noteq>) slash) ?q @ [slash]" by (auto intro: dropWhile_append1)
      then show ?thesis using "1.IH" [OF refl False] by simp
    next
      case no: False
      then have n: "\<And>x. x \<in> set ?q \<Longrightarrow> slash \<noteq> x" by auto
      have "dropWhile ((\<noteq>) slash) (?q @ [slash]) = dropWhile ((\<noteq>) slash) [slash]" by (rule dropWhile_append2) (rule n)
      then have e: "dropWhile ((\<noteq>) slash) (?q @ [slash]) = [slash]" by simp
      have e': "dropWhile ((\<noteq>) slash) ?q = []" unfolding dropWhile_eq_Nil_conv using n by simp
      show ?thesis unfolding e e' by simp
    qed
    have "comps (p @ [slash]) = takeWhile ((\<noteq>) slash) ?q # comps (dropWhile ((\<noteq>) slash) ?q)"
      using False by (subst comps.simps) (simp only: Let_def d t r append_is_Nil_conv if_False simp_thms)
    moreover have "comps p = takeWhile ((\<noteq>) slash) ?q # comps (dropWhile ((\<noteq>) slash) ?q)"
      using False by (subst comps.simps) (simp only: Let_def if_False)
    ultimately show ?thesis by simp
  qed
qed

lemma resolve_canon:
  assumes "\<forall>g \<in> set gs. normal_comp g" and "length gs \<le> 64" and "length (canon gs) \<le> 255" and p: "p \<in> {canon gs, canon gs @ [slash]}" "length p \<le> 255"
  shows "vfs_resolve d p = Inr (Some (canon gs))"
proof -
  have hd: "p \<noteq> []" "hd p = slash" using p(1) by (auto simp: canon_def neq_Nil_conv)
  then have r: "resolve_raw d p = p" using p(2) by (simp add: resolve_raw_def VFS_PATH_MAX_def)
  have c: "p = slash # tl p" using hd by (metis list.collapse)
  have "comps (tl p) = comps p" by (subst (2) c) simp
  also have "\<dots> = gs" using p(1) comps_canon [OF assms(1)] comps_slashes by auto
  finally have "comps (tl p) = gs" .
  then have "resolve_segs [] (tl p) = gs"
    using fold_keep_id [of gs "[]"] assms(1,2) by (simp add: resolve_segs_fold)
  then show ?thesis unfolding vfs_resolve_def r by (subst c) (simp add: emit_canon [OF assms(3,1)])
qed



end
