(* ===== verification/Vfs_Tree.thy ===== *)
theory Vfs_Tree
  imports Vfs_File
begin

text \<open>
  The tree of the filesystem as a map from directories to lists of children, and what
  creating and removing a file do to it.
\<close>

section \<open>Walks along the children\<close>

abbreviation sib :: "(vptr \<Rightarrow> vfs_node) \<Rightarrow> vptr \<Rightarrow> vptr option" where
  "sib h \<equiv> \<lambda>x. v_sibling (h x)"

lemma child_named_linked:
  "linked (sib h) p xs \<Longrightarrow> child_named h name p = Some (find (\<lambda>c. v_name (h c) = name) xs)"
  by (induction xs arbitrary: p) (auto simp: child_named.simps)

lemma node_before_last:
  "linked (sib h) p xs \<Longrightarrow> node_before h None p = Some (if xs = [] then None else Some (last xs))"
proof (induction xs arbitrary: p)
  case (Cons x xs)
  show ?case
  proof (cases xs)
    case Nil
    with Cons.prems show ?thesis by (simp add: node_before.simps)
  next
    case (Cons y ys)
    with Cons.prems Cons.IH [of "v_sibling (h x)"] show ?thesis by (simp add: node_before.simps [of h None "Some x"])
  qed
qed (simp add: node_before.simps)

lemma node_before_pred:
  "linked (sib h) p (as @ b # c # cs) \<Longrightarrow> c \<notin> set as \<Longrightarrow> c \<noteq> b \<Longrightarrow> node_before h (Some c) p = Some (Some b)"
proof (induction as arbitrary: p)
  case Nil
  then show ?case by (simp add: node_before.simps)
next
  case (Cons a as)
  have "v_sibling (h a) \<noteq> Some c" using Cons.prems by (cases as) auto
  moreover have "p = Some a" "linked (sib h) (v_sibling (h a)) (as @ b # c # cs)" using Cons.prems by auto
  ultimately show ?case using Cons.IH [of "v_sibling (h a)"] Cons.prems
    by (simp add: node_before.simps [of h "Some c" "Some a"])
qed

lemma node_before_absent:
  "linked (sib h) p xs \<Longrightarrow> c \<notin> set (tl xs) \<Longrightarrow> node_before h (Some c) p = Some None"
proof (induction xs arbitrary: p)
  case (Cons x xs)
  have "v_sibling (h x) \<noteq> Some c" using Cons.prems by (cases xs) auto
  moreover have "c \<notin> set (tl xs)" using Cons.prems(2) by (cases xs) auto
  ultimately show ?case using Cons.IH [of "v_sibling (h x)"] Cons.prems(1)
    by (simp add: node_before.simps [of h "Some c" "Some x"])
qed (simp add: node_before.simps)

section \<open>The tree\<close>

text \<open>
  \<open>tree_ok s kids fl\<close>: the children of each node are the chain \<open>kids\<close>, the free nodes the
  chain \<open>fl\<close>; no node is in two chains; a child's parent pointer is right; only directories
  have children; the root and the mounted roots are nobody's children; and the free nodes
  and those the pool has not given out yet are not used.
\<close>

definition spare :: "'a vfs_scheme \<Rightarrow> (vptr \<Rightarrow> vptr list) \<Rightarrow> vptr \<Rightarrow> bool" where
  "spare s kids n \<longleftrightarrow> (\<forall>x. n \<notin> set (kids x)) \<and> kids n = [] \<and> vfs_root s \<noteq> Some n \<and>
     (\<forall>x. v_mounted_root (node_at s x) \<noteq> Some n)"

definition tree_ok :: "'a vfs_scheme \<Rightarrow> (vptr \<Rightarrow> vptr list) \<Rightarrow> vptr list \<Rightarrow> bool" where
  "tree_ok s kids fl \<longleftrightarrow>
     (\<forall>x. linked (sib (node_at s)) (v_children (node_at s x)) (kids x)) \<and>
     linked (sib (node_at s)) (node_free_list s) fl \<and>
     (\<forall>x y. x \<noteq> y \<longrightarrow> set (kids x) \<inter> set (kids y) = {}) \<and>
     (\<forall>x. \<forall>c \<in> set (kids x). v_parent (node_at s c) = Some x) \<and>
     (\<forall>x. kids x \<noteq> [] \<longrightarrow> is_dir s x) \<and>
     (\<forall>x. \<forall>c \<in> set (kids x). vfs_root s \<noteq> Some c \<and> (\<forall>y. v_mounted_root (node_at s y) \<noteq> Some c)) \<and>
     (\<forall>n \<in> set fl. spare s kids n) \<and>
     (\<forall>n. node_pool_used s \<le> n \<longrightarrow> n < VFS_NODE_POOL_SIZE \<longrightarrow> spare s kids n \<and> n \<notin> set fl)"

text \<open>The heap's node is not in use.\<close>

definition heap_fresh :: "heap_env \<Rightarrow> 'a vfs_scheme \<Rightarrow> (vptr \<Rightarrow> vptr list) \<Rightarrow> vptr list \<Rightarrow> bool" where
  "heap_fresh h s kids fl \<longleftrightarrow> (\<forall>n. he_node h = Some n \<longrightarrow> VFS_NODE_POOL_SIZE \<le> n \<and> spare s kids n \<and> n \<notin> set fl)"

lemma tree_okD:
  assumes "tree_ok s kids fl"
  shows "\<And>x. linked (sib (node_at s)) (v_children (node_at s x)) (kids x)"
    and "linked (sib (node_at s)) (node_free_list s) fl"
    and "\<And>x y. x \<noteq> y \<Longrightarrow> set (kids x) \<inter> set (kids y) = {}"
    and "\<And>x c. c \<in> set (kids x) \<Longrightarrow> v_parent (node_at s c) = Some x"
    and "\<And>x. kids x \<noteq> [] \<Longrightarrow> is_dir s x"
    and "\<And>x c. c \<in> set (kids x) \<Longrightarrow> vfs_root s \<noteq> Some c \<and> (\<forall>y. v_mounted_root (node_at s y) \<noteq> Some c)"
    and "\<And>n. n \<in> set fl \<Longrightarrow> spare s kids n"
    and "\<And>n. node_pool_used s \<le> n \<Longrightarrow> n < VFS_NODE_POOL_SIZE \<Longrightarrow> spare s kids n \<and> n \<notin> set fl"
  using assms unfolding tree_ok_def by blast+

text \<open>Overwriting a node that nobody uses, which may leave the list of free nodes.\<close>

lemma set_spare_node:
  assumes ok: "tree_ok s kids fl" and n: "spare s kids n" "n \<notin> set fl1" "set fl1 \<subseteq> set fl"
    and fl1: "linked (sib (node_at s)) (node_free_list s') fl1"
    and s': "node_at s' = (node_at s)(n := z)" "vfs_root s' = vfs_root s" "node_pool_used s \<le> node_pool_used s'"
    and z: "v_children z = None" "v_mounted_root z = None"
  shows "tree_ok s' kids fl1" and "spare s kids y \<Longrightarrow> spare s' kids y"
proof -
  note ok' = tree_okD [OF ok]
  have nk: "n \<notin> set (kids x)" for x using n(1) by (simp add: spare_def)
  have lk: "linked (sib (node_at s')) p xs \<longleftrightarrow> linked (sib (node_at s)) p xs" if "n \<notin> set xs" for p xs
    by (rule lseg_cong) (use that s'(1) in auto)
  have mr: "v_mounted_root (node_at s' x) = Some y \<Longrightarrow> v_mounted_root (node_at s x) = Some y" for x y
    using z s'(1) by (cases "x = n") auto
  show sp: "spare s' kids y" if "spare s kids y" for y
    using that mr unfolding spare_def s'(2) by blast
  show "tree_ok s' kids fl1" unfolding tree_ok_def
  proof (intro conjI allI ballI impI)
    show "linked (sib (node_at s')) (v_children (node_at s' x)) (kids x)" for x
      using n(1) z(1) s'(1) ok'(1) [of x] lk [OF nk [of x]] by (cases "x = n") (simp_all add: spare_def)
    show "linked (sib (node_at s')) (node_free_list s') fl1" using fl1 lk [OF n(2)] by simp
    show "set (kids x) \<inter> set (kids y) = {}" if "x \<noteq> y" for x y by (rule ok'(3) [OF that])
    show "v_parent (node_at s' c) = Some x" if "c \<in> set (kids x)" for x c
      using ok'(4) [OF that] nk [of x] that s'(1) by auto
    show "is_dir s' x" if "kids x \<noteq> []" for x
      using ok'(5) [OF that] n(1) that s'(1) by (auto simp: spare_def)
    show "vfs_root s' \<noteq> Some c" "v_mounted_root (node_at s' y) \<noteq> Some c" if "c \<in> set (kids x)" for x c y
      unfolding s'(2) using ok'(6) [OF that] mr by blast+
    show "spare s' kids y" if "y \<in> set fl1" for y using that n(3) ok'(7) sp by blast
    show "spare s' kids y" "y \<notin> set fl1" if "node_pool_used s' \<le> y" "y < VFS_NODE_POOL_SIZE" for y
      using ok'(8) [of y] that s'(3) n(3) sp by auto
  qed
qed

text \<open>An allocated node is cleared and belongs to nobody.\<close>

lemma alloc_node_ok:
  assumes ok: "tree_ok s kids fl" and fresh: "heap_fresh h s kids fl" and a: "vfs_alloc_node h s = (Some n, s')"
  obtains fl' where "tree_ok s' kids fl'" and "spare s' kids n" and "spare s kids n" and "n \<notin> set fl'"
    and "set fl' \<subseteq> set fl" and "node_at s' n = zero_node \<or> node_at s' n = zero_node\<lparr>v_heap_alloc := True\<rparr>"
    and "\<And>x. x \<noteq> n \<Longrightarrow> node_at s' x = node_at s x" and "vfs_root s' = vfs_root s"
    and "n < node_pool_used s' \<or> VFS_NODE_POOL_SIZE \<le> n" and "node_pool_used s \<le> node_pool_used s'"
proof -
  note ok' = tree_okD [OF ok]
  have "\<exists>fl1 z. (z = zero_node \<or> z = zero_node\<lparr>v_heap_alloc := True\<rparr>) \<and> spare s kids n \<and> n \<notin> set fl1 \<and>
      set fl1 \<subseteq> set fl \<and> linked (sib (node_at s)) (node_free_list s') fl1 \<and>
      node_at s' = (node_at s)(n := z) \<and> vfs_root s' = vfs_root s \<and> node_pool_used s \<le> node_pool_used s' \<and>
      (n < node_pool_used s' \<or> VFS_NODE_POOL_SIZE \<le> n)"
  proof (cases "node_free_list s")
    case (Some m)
    then have mn: "m = n" and s': "s' = upd_node n (\<lambda>_. zero_node) (s\<lparr>node_free_list := v_sibling (node_at s n)\<rparr>)"
      using a by (auto simp: vfs_alloc_node_def)
    obtain fl1 where fl: "fl = n # fl1" using ok'(2) Some mn by (cases fl) auto
    have "distinct fl" using linked_distinct [OF ok'(2)] .
    moreover have "n < node_pool_used s \<or> VFS_NODE_POOL_SIZE \<le> n"
      using ok'(8) [of n] fl by (metis list.set_intros(1) not_le)
    ultimately show ?thesis
      using ok'(2) ok'(7) [of n] fl by (intro exI [of _ fl1] exI [of _ zero_node]) (auto simp: s')
  next
    case None
    show ?thesis
    proof (cases "node_pool_used s < VFS_NODE_POOL_SIZE")
      case True
      then have n: "n = node_pool_used s" and s': "s' = upd_node n (\<lambda>_. zero_node) (s\<lparr>node_pool_used := n + 1\<rparr>)"
        using a None by (auto simp: vfs_alloc_node_def Let_def)
      show ?thesis using ok'(2) ok'(8) [of n] n True
        by (intro exI [of _ fl] exI [of _ zero_node]) (auto simp: s')
    next
      case False
      then have "he_node h = Some n" and s': "s' = upd_node n (\<lambda>_. zero_node\<lparr>v_heap_alloc := True\<rparr>) s"
        using a None by (auto simp: vfs_alloc_node_def split: option.splits)
      with fresh show ?thesis using ok'(2)
        by (intro exI [of _ fl] exI [of _ "zero_node\<lparr>v_heap_alloc := True\<rparr>"]) (auto simp: heap_fresh_def)
    qed
  qed
  then obtain fl1 z where z: "z = zero_node \<or> z = zero_node\<lparr>v_heap_alloc := True\<rparr>"
    and n: "spare s kids n" "n \<notin> set fl1" "set fl1 \<subseteq> set fl" "linked (sib (node_at s)) (node_free_list s') fl1"
    and s': "node_at s' = (node_at s)(n := z)" "vfs_root s' = vfs_root s" "node_pool_used s \<le> node_pool_used s'"
    and pool: "n < node_pool_used s' \<or> VFS_NODE_POOL_SIZE \<le> n" by blast
  have zc: "v_children z = None" "v_mounted_root z = None" using z by (auto simp: zero_node_def)
  note r = set_spare_node [OF ok n s' zc]
  show thesis by (rule that [of fl1]) (use r n z s' pool in auto)
qed

text \<open>Appending a node that belongs to nobody.\<close>

lemma add_child_ok:
  assumes ok: "tree_ok s kids fl" and n: "spare s kids n" "n \<notin> set fl" "p \<noteq> n" "p \<notin> set fl"
    and dir: "is_dir s p" and pool: "n < node_pool_used s \<or> VFS_NODE_POOL_SIZE \<le> n"
      "p < node_pool_used s \<or> VFS_NODE_POOL_SIZE \<le> p"
  obtains s' where "vfs_add_child p n s = Inr s'" and "tree_ok s' (kids(p := kids p @ [n])) fl"
    and "vfs_root s' = vfs_root s"
    and "\<And>x. v_name (node_at s' x) = v_name (node_at s x) \<and> v_flags (node_at s' x) = v_flags (node_at s x) \<and>
      v_mounted_root (node_at s' x) = v_mounted_root (node_at s x) \<and> v_size (node_at s' x) = v_size (node_at s x)"
proof -
  note ok' = tree_okD [OF ok]
  define s1 where "s1 = upd_node n (\<lambda>x. x\<lparr>v_parent := Some p, v_sibling := None\<rparr>) s"
  have nk: "n \<notin> set (kids x)" for x using n(1) by (simp add: spare_def)
  define s2 where "s2 = (if kids p = [] then upd_node p (\<lambda>x. x\<lparr>v_children := Some n\<rparr>) s1
    else upd_node (last (kids p)) (\<lambda>x. x\<lparr>v_sibling := Some n\<rparr>) s1)"
  have ln: "kids p \<noteq> [] \<Longrightarrow> last (kids p) \<noteq> n" using nk [of p] by (metis last_in_set)
  have lk1: "linked (sib (node_at s1)) q xs \<longleftrightarrow> linked (sib (node_at s)) q xs" if "n \<notin> set xs" for q xs
    by (rule lseg_cong) (use that in \<open>auto simp: s1_def\<close>)
  have ch: "v_children (node_at s1 p) = v_children (node_at s p)" using n(3) by (simp add: s1_def)
  have add: "vfs_add_child p n s = Inr s2"
  proof (cases "v_children (node_at s p)")
    case None
    then have "kids p = []" using ok'(1) [of p] by (cases "kids p") auto
    then show ?thesis using None ch by (simp add: vfs_add_child_def s1_def [symmetric] s2_def Let_def)
  next
    case (Some c)
    then have ne: "kids p \<noteq> []" using ok'(1) [of p] by (cases "kids p") auto
    have "node_before (node_at s1) None (Some c) = Some (Some (last (kids p)))"
      using node_before_last [of "node_at s1" "Some c" "kids p"] ok'(1) [of p] lk1 [OF nk] Some ne by simp
    then show ?thesis using Some ch ne by (simp add: vfs_add_child_def s1_def [symmetric] s2_def Let_def)
  qed
  have flds: "v_name (node_at s2 x) = v_name (node_at s x) \<and> v_flags (node_at s2 x) = v_flags (node_at s x) \<and>
      v_mounted_root (node_at s2 x) = v_mounted_root (node_at s x) \<and> v_size (node_at s2 x) = v_size (node_at s x)" for x
    by (cases "kids p = []") (auto simp: s2_def s1_def)
  have par: "v_parent (node_at s2 x) = (if x = n then Some p else v_parent (node_at s x))" for x
    using n(3) ln by (simp add: s2_def s1_def)
  have sb: "v_sibling (node_at s2 x) = (if x = n then None else if kids p \<noteq> [] \<and> x = last (kids p) then Some n
      else v_sibling (node_at s x))" for x
    using n(3) ln by (simp add: s2_def s1_def)
  have chl: "v_children (node_at s2 x) = (if x = p \<and> kids p = [] then Some n else v_children (node_at s x))" for x
    using n(3) ln by (simp add: s2_def s1_def)
  have misc: "vfs_root s2 = vfs_root s" "node_free_list s2 = node_free_list s" "node_pool_used s2 = node_pool_used s"
    by (simp_all add: s2_def s1_def)
  have keep: "linked (sib (node_at s2)) q xs \<longleftrightarrow> linked (sib (node_at s)) q xs"
    if "n \<notin> set xs" "kids p = [] \<or> last (kids p) \<notin> set xs" for q xs
    by (rule lseg_cong) (use that sb in metis)
  let ?kids = "kids(p := kids p @ [n])"
  have sp: "spare s2 ?kids y" if "spare s kids y" "y \<noteq> n" "y \<noteq> p" for y
    using that flds unfolding spare_def misc by auto
  have "tree_ok s2 ?kids fl" unfolding tree_ok_def
  proof (intro conjI allI ballI impI)
    show "linked (sib (node_at s2)) (v_children (node_at s2 x)) (?kids x)" for x
    proof (cases "x = p")
      case True
      show ?thesis
      proof (cases "kids p" rule: rev_cases)
        case Nil
        then show ?thesis using True chl sb by simp
      next
        case (snoc ys l)
        have d: "distinct (ys @ [l])" using linked_distinct [OF ok'(1) [of p]] snoc by simp
        have "linked (sib (node_at s)) (v_children (node_at s p)) (ys @ [l])" using ok'(1) [of p] snoc by simp
        then have "lseg (sib (node_at s)) (v_children (node_at s p)) ys (Some l)" by simp
        moreover have "lseg (sib (node_at s2)) q ys r = lseg (sib (node_at s)) q ys r" for q r
          by (rule lseg_cong) (use d snoc nk [of p] sb in auto)
        ultimately show ?thesis using True chl sb snoc ln by simp
      qed
    next
      case False
      have "kids p = [] \<or> last (kids p) \<notin> set (kids x)"
        using ok'(3) [of x p] False last_in_set [of "kids p"] by auto
      then show ?thesis using keep [OF nk, of x] ok'(1) [of x] chl False by simp
    qed
    have "kids p = [] \<or> last (kids p) \<notin> set fl"
      using ok'(7) last_in_set [of "kids p"] unfolding spare_def by metis
    then show "linked (sib (node_at s2)) (node_free_list s2) fl" using keep [OF n(2)] ok'(2) misc by simp
    show "set (?kids x) \<inter> set (?kids y) = {}" if "x \<noteq> y" for x y
      using ok'(3) [OF that] nk that by auto
    show "v_parent (node_at s2 c) = Some x" if "c \<in> set (?kids x)" for x c
      using that ok'(4) [of c x] nk par by (auto split: if_splits)
    show "is_dir s2 x" if "?kids x \<noteq> []" for x
      using that ok'(5) [of x] dir flds by (auto split: if_splits)
    show "vfs_root s2 \<noteq> Some c" "v_mounted_root (node_at s2 y) \<noteq> Some c" if "c \<in> set (?kids x)" for x c y
      unfolding misc using that ok'(6) [of c x] n(1) flds by (auto simp: spare_def split: if_splits)
    show "spare s2 ?kids y" if "y \<in> set fl" for y
      using that n(2,4) ok'(7) by (intro sp) auto
    show "spare s2 ?kids y" "y \<notin> set fl" if "node_pool_used s2 \<le> y" "y < VFS_NODE_POOL_SIZE" for y
      using that ok'(8) [of y] pool misc by (auto intro!: sp)
  qed
  then show thesis by (rule that [OF add]) (use flds misc in auto)
qed

section \<open>Lookup\<close>

lemma dir_child_kids: "tree_ok s kids fl \<Longrightarrow> dir_child s d name = Inr (find (\<lambda>c. v_name (node_at s c) = name) (kids d))"
  unfolding dir_child_def by (subst child_named_linked [OF tree_okD(1)]) simp_all

lemma lookup_step:
  assumes "tree_ok s kids fl"
  shows "lookup_loop s cur p = (if dropWhile ((=) slash) p = [] then Inr (Some cur)
     else if \<not> is_dir s cur then Inr None
     else case find (\<lambda>c. v_name (node_at s c) = takeWhile ((\<noteq>) slash) (dropWhile ((=) slash) p)) (kids cur) of
            None \<Rightarrow> Inr None
          | Some c \<Rightarrow> lookup_loop s (follow_mount s c) (dropWhile ((\<noteq>) slash) (dropWhile ((=) slash) p)))"
  by (subst lookup_loop.simps) (simp add: Let_def dir_child_kids [OF assms])

lemma lookup_loop_append:
  assumes ok: "tree_ok s kids fl"
  shows "lookup_loop s cur (a @ slash # b) =
     bindE (lookup_loop s cur a) (\<lambda>r. case r of None \<Rightarrow> Inr None | Some c \<Rightarrow> lookup_loop s c (slash # b))"
proof (induction a arbitrary: cur rule: length_induct)
  case (1 a)
  let ?q = "dropWhile ((=) slash) a" and ?r = "dropWhile ((\<noteq>) slash) (dropWhile ((=) slash) a)"
  show ?case
  proof (cases "?q = []")
    case True
    then have "\<forall>x \<in> set a. slash = x" by (simp add: dropWhile_eq_Nil_conv)
    then have d: "dropWhile ((=) slash) (a @ slash # b) = dropWhile ((=) slash) (slash # b)"
      by (simp add: dropWhile_append2)
    have "lookup_loop s cur (a @ slash # b) = lookup_loop s cur (slash # b)"
      unfolding lookup_step [OF ok, of cur "a @ slash # b"] lookup_step [OF ok, of cur "slash # b"] d ..
    moreover have "lookup_loop s cur a = Inr (Some cur)" using True lookup_step [OF ok, of cur a] by simp
    ultimately show ?thesis by simp
  next
    case False
    have d: "dropWhile ((=) slash) (a @ slash # b) = ?q @ slash # b"
    proof -
      have "\<not> (\<forall>x \<in> set a. slash = x)" using False by (auto simp: dropWhile_eq_Nil_conv)
      then show ?thesis by (auto intro: dropWhile_append1)
    qed
    have tw: "takeWhile ((\<noteq>) slash) (q @ slash # b) = takeWhile ((\<noteq>) slash) q" for q
      by (induction q) auto
    have dw: "dropWhile ((\<noteq>) slash) (?q @ slash # b) = ?r @ slash # b"
      by (simp add: dropWhile_append)
    have ne: "?q @ slash # b \<noteq> []" by simp
    have IH: "lookup_loop s c (?r @ slash # b) = bindE (lookup_loop s c ?r)
        (\<lambda>r. case r of None \<Rightarrow> Inr None | Some c \<Rightarrow> lookup_loop s c (slash # b))" for c
      using 1 rest_shorter [OF False] by blast
    show ?thesis
      unfolding lookup_step [OF ok, of cur "a @ slash # b"] lookup_step [OF ok, of cur a] d if_not_P [OF ne]
        if_not_P [OF False] tw dw IH
      by (cases "is_dir s cur";
          cases "find (\<lambda>c. v_name (node_at s c) = takeWhile ((\<noteq>) slash) ?q) (kids cur)") simp_all
  qed
qed

text \<open>What a lookup finds is not a free node.\<close>

lemma lookup_not_spare:
  assumes ok: "tree_ok s kids fl"
  shows "lookup_loop s cur p = Inr (Some c) \<Longrightarrow> \<not> spare s kids cur \<Longrightarrow> \<not> spare s kids c"
proof (induction p arbitrary: cur rule: length_induct)
  case (1 p)
  let ?q = "dropWhile ((=) slash) p"
  show ?case
  proof (cases "?q = []")
    case True
    then show ?thesis using 1 lookup_step [OF ok, of cur p] by simp
  next
    case False
    obtain d where d: "find (\<lambda>c. v_name (node_at s c) = takeWhile ((\<noteq>) slash) ?q) (kids cur) = Some d"
      and l: "lookup_loop s (follow_mount s d) (dropWhile ((\<noteq>) slash) ?q) = Inr (Some c)"
      using "1.prems"(1) lookup_step [OF ok, of cur p] False by (auto split: if_splits option.splits)
    have "d \<in> set (kids cur)" using d by (auto simp: find_Some_iff)
    then have "\<not> spare s kids (follow_mount s d)" by (auto simp: follow_mount_def spare_def split: option.split)
    then show ?thesis using "1.IH" rest_shorter [OF False] l by blast
  qed
qed

lemma vfs_lookup_not_spare: "tree_ok s kids fl \<Longrightarrow> vfs_lookup s path = Inr (Some c) \<Longrightarrow> \<not> spare s kids c"
proof -
  assume ok: "tree_ok s kids fl" and l: "vfs_lookup s path = Inr (Some c)"
  from l obtain r p where "vfs_root s = Some r" "lookup_loop s (follow_mount s r) p = Inr (Some c)"
    by (auto simp: vfs_lookup_def split: option.splits list.splits if_splits)
  moreover have "\<not> spare s kids (follow_mount s r)" if "vfs_root s = Some r"
    using that by (auto simp: follow_mount_def spare_def split: option.split)
  ultimately show ?thesis using lookup_not_spare [OF ok] by blast
qed

text \<open>A child appended to a directory hides nothing.\<close>

lemma lookup_mono:
  assumes ok: "tree_ok s kids fl" and ok': "tree_ok s' (kids(p := kids p @ [n])) fl'" and n: "spare s kids n"
    and same: "\<And>x. x \<noteq> n \<Longrightarrow> v_name (node_at s' x) = v_name (node_at s x) \<and> v_flags (node_at s' x) = v_flags (node_at s x) \<and>
      v_mounted_root (node_at s' x) = v_mounted_root (node_at s x)"
  shows "lookup_loop s cur q = Inr (Some c) \<Longrightarrow> cur \<noteq> n \<Longrightarrow> lookup_loop s' cur q = Inr (Some c)"
proof (induction q arbitrary: cur rule: length_induct)
  case (1 q)
  let ?q = "dropWhile ((=) slash) q" and ?kids = "kids(p := kids p @ [n])"
  show ?case
  proof (cases "?q = []")
    case True
    then show ?thesis using "1.prems" lookup_step [OF ok, of cur q] lookup_step [OF ok', of cur q] by simp
  next
    case False
    let ?g = "takeWhile ((\<noteq>) slash) ?q"
    obtain d where d: "find (\<lambda>c. v_name (node_at s c) = ?g) (kids cur) = Some d" and dir: "is_dir s cur"
      and l: "lookup_loop s (follow_mount s d) (dropWhile ((\<noteq>) slash) ?q) = Inr (Some c)"
      using "1.prems"(1) lookup_step [OF ok, of cur q] False by (auto split: if_splits option.splits)
    have dk: "d \<in> set (kids cur)" using d by (auto simp: find_Some_iff)
    have nk: "n \<notin> set (kids x)" for x using n by (simp add: spare_def)
    have fe: "find (\<lambda>c. v_name (node_at s' c) = ?g) xs = find (\<lambda>c. v_name (node_at s c) = ?g) xs"
      if "n \<notin> set xs" for xs
      using that same by (induction xs) auto
    have d': "find (\<lambda>c. v_name (node_at s' c) = ?g) (?kids cur) = Some d"
      using d fe [OF nk, of cur] by (auto simp: find_append)
    have "d \<noteq> n" using dk nk by metis
    then have fm: "follow_mount s' d = follow_mount s d" using same [of d] by (simp add: follow_mount_def)
    moreover have "follow_mount s d \<noteq> n"
      using \<open>d \<noteq> n\<close> n by (auto simp: follow_mount_def spare_def split: option.split)
    ultimately have "lookup_loop s' (follow_mount s' d) (dropWhile ((\<noteq>) slash) ?q) = Inr (Some c)"
      using "1.IH" rest_shorter [OF False] l by simp
    moreover have "is_dir s' cur" using same [OF "1.prems"(2)] dir by simp
    ultimately show ?thesis unfolding lookup_step [OF ok', of cur q] if_not_P [OF False] d' by simp
  qed
qed

section \<open>Creating a file\<close>

lemma not_spare_node:
  assumes "tree_ok s kids fl" and "\<not> spare s kids p"
  shows "p \<notin> set fl" and "p < node_pool_used s \<or> VFS_NODE_POOL_SIZE \<le> p"
  using tree_okD(7,8) [OF assms(1)] assms(2) not_le by blast+

lemma new_node_ok:
  assumes ok: "tree_ok s kids fl" and fresh: "heap_fresh h s kids fl"
    and p: "is_dir s p" "\<not> spare s kids p" and r: "new_node h p base init s = Inr (Some n, s')"
    and init: "\<And>x. v_children (init x) = v_children x \<and> v_mounted_root (init x) = v_mounted_root x \<and>
      v_name (init x) = v_name x \<and> v_size (init x) = v_size x"
  obtains fl' z where "tree_ok s' (kids(p := kids p @ [n])) fl'" and "spare s kids n"
    and "v_name (node_at s' n) = take (VFS_NAME_MAX - 1) base" and "v_flags (node_at s' n) = v_flags (init z)"
    and "v_mounted_root (node_at s' n) = None" and "v_size (node_at s' n) = 0" and "vfs_root s' = vfs_root s"
    and "\<And>x. x \<noteq> n \<Longrightarrow> v_name (node_at s' x) = v_name (node_at s x) \<and> v_flags (node_at s' x) = v_flags (node_at s x) \<and>
      v_mounted_root (node_at s' x) = v_mounted_root (node_at s x)"
proof -
  obtain s1 where a: "vfs_alloc_node h s = (Some n, s1)"
    using r by (auto simp: new_node_def Let_def elim!: bindE_InrE split: option.splits prod.splits)
  obtain fl1 where s1: "tree_ok s1 kids fl1" "spare s1 kids n" "spare s kids n" "n \<notin> set fl1" "set fl1 \<subseteq> set fl"
    "node_at s1 n = zero_node \<or> node_at s1 n = zero_node\<lparr>v_heap_alloc := True\<rparr>"
    and same1: "\<And>x. x \<noteq> n \<Longrightarrow> node_at s1 x = node_at s x"
    and s1': "vfs_root s1 = vfs_root s" "n < node_pool_used s1 \<or> VFS_NODE_POOL_SIZE \<le> n"
      "node_pool_used s \<le> node_pool_used s1"
    by (rule alloc_node_ok [OF ok fresh a]) (rule that)
  define z where "z = (node_at s1 n)\<lparr>v_name := take (VFS_NAME_MAX - 1) base, v_inode := next_inode s1\<rparr>"
  define s2 where "s2 = upd_node n (\<lambda>x. init (x\<lparr>v_name := take (VFS_NAME_MAX - 1) base, v_inode := next_inode s1\<rparr>))
    (s1\<lparr>next_inode := next_inode s1 + 1\<rparr>)"
  have zf: "v_children (init z) = None" "v_mounted_root (init z) = None" "v_size (init z) = 0"
    "v_name (init z) = take (VFS_NAME_MAX - 1) base"
    using init [of z] s1(6) by (auto simp: z_def zero_node_def)
  have n2: "node_at s2 = (node_at s1)(n := init z)" "vfs_root s2 = vfs_root s1" "node_free_list s2 = node_free_list s1"
    "node_pool_used s2 = node_pool_used s1" by (simp_all add: s2_def z_def)
  note ss = set_spare_node [OF s1(1,2,4) order.refl _ n2(1,2) _ zf(1,2), unfolded n2(3,4),
      OF tree_okD(2) [OF s1(1)] order.refl]
  have pn: "p \<noteq> n" using p(2) s1(3) by auto
  have pf: "p \<notin> set fl1" "p < node_pool_used s2 \<or> VFS_NODE_POOL_SIZE \<le> p"
    using not_spare_node [OF ok p(2)] s1(5) s1'(3) n2(4) by auto
  have dir2: "is_dir s2 p" using p(1) pn same1 by (simp add: n2)
  obtain s3 where s3: "vfs_add_child p n s2 = Inr s3" "tree_ok s3 (kids(p := kids p @ [n])) fl1" "vfs_root s3 = vfs_root s2"
    and f3: "\<And>x. v_name (node_at s3 x) = v_name (node_at s2 x) \<and> v_flags (node_at s3 x) = v_flags (node_at s2 x) \<and>
      v_mounted_root (node_at s3 x) = v_mounted_root (node_at s2 x) \<and> v_size (node_at s3 x) = v_size (node_at s2 x)"
    by (rule add_child_ok [OF ss(1) ss(2) [OF s1(2)] s1(4) pn pf(1) dir2 _ pf(2)]) (use s1'(2) n2(4) in simp, rule that)
  have "new_node h p base init s = bindE (vfs_add_child p n s2) (\<lambda>s. Inr (Some n, s))"
    by (simp add: new_node_def a s2_def Let_def)
  then have "s' = s3" using r s3(1) by simp
  then show thesis using s3 s1(3) s1'(1) n2 zf f3 same1 by (intro that [of fl1 z]) auto
qed

lemma after_slash_split:
  "slash \<in> set p \<Longrightarrow> \<exists>pre. p = pre @ slash # after_slash b p \<and> slash \<notin> set (after_slash b p)"
  "slash \<notin> set p \<Longrightarrow> after_slash b p = b"
proof (induction p arbitrary: b)
  case (Cons c p)
  {
    case 1
    show ?case
    proof (cases "slash \<in> set p")
      case True
      from Cons.IH(1) [OF this] obtain pre where
        "p = pre @ slash # after_slash (if c = slash then p else b) p"
        "slash \<notin> set (after_slash (if c = slash then p else b) p)" by blast
      then show ?thesis by (intro exI [of _ "c # pre"]) simp
    next
      case False
      with 1 have "c = slash" by auto
      then show ?thesis using Cons.IH(2) [OF False, of p] False by (intro exI [of _ "[]"]) simp
    qed
  next
    case 2
    then show ?case using Cons.IH(2) [of b] by auto
  }
qed simp_all

text \<open>Looking up a path is looking up its base name in what its parent's path names.\<close>

lemma lookup_split:
  assumes ok: "tree_ok s kids fl" and path: "path \<noteq> []" "hd path = slash" and len: "fst (split_path path) < VFS_PATH_MAX"
    and root: "vfs_root s \<noteq> None"
  shows "vfs_lookup s path = bindE (lookup_parent s path (fst (split_path path)))
      (\<lambda>r. case r of None \<Rightarrow> Inr None | Some c \<Rightarrow> lookup_loop s c (slash # snd (split_path path)))"
    and "slash \<notin> set (snd (split_path path))"
proof -
  have "slash \<in> set path" using path by (metis list.set_sel(1))
  then obtain pre where pre: "path = pre @ slash # after_slash path path" "slash \<notin> set (after_slash path path)"
    using after_slash_split(1) by blast
  define base where "base = after_slash path path"
  have p: "path = pre @ slash # base" using pre(1) unfolding base_def .
  have l: "length path - length base = length pre + 1" by (subst p) simp
  have sp: "split_path path = (if pre = [] then 1 else length pre, base)"
    unfolding split_path_def base_def [symmetric] Let_def l by (cases pre) auto
  show "slash \<notin> set (snd (split_path path))" using pre(2) by (simp add: sp base_def)
  obtain r where r: "vfs_root s = Some r" using root by auto
  show "vfs_lookup s path = bindE (lookup_parent s path (fst (split_path path)))
      (\<lambda>r. case r of None \<Rightarrow> Inr None | Some c \<Rightarrow> lookup_loop s c (slash # snd (split_path path)))"
  proof (cases pre)
    case Nil
    then have pb: "path = slash # base" using p by simp
    have tk: "take (Suc 0) path = [slash]" by (subst pb) simp
    have "lookup_parent s path 1 = Inr (Some (follow_mount s r))"
      using r lookup_step [OF ok, of "follow_mount s r" "[]"]
      by (simp add: lookup_parent_def VFS_PATH_MAX_def vfs_lookup_def tk)
    moreover have "vfs_lookup s path = lookup_loop s (follow_mount s r) base"
      using r by (subst pb) (simp add: vfs_lookup_def)
    moreover have "lookup_loop s (follow_mount s r) (slash # base) = lookup_loop s (follow_mount s r) base"
    proof -
      have d: "dropWhile ((=) slash) (slash # base) = dropWhile ((=) slash) base" by simp
      show ?thesis unfolding lookup_step [OF ok, of _ "slash # base"] lookup_step [OF ok, of _ base] d ..
    qed
    ultimately show ?thesis using sp Nil by simp
  next
    case (Cons x pre')
    then have x: "x = slash" using path(2) p by simp
    have tk: "take (length pre) path = pre" by (subst p) simp
    have "lookup_parent s path (length pre) = lookup_loop s (follow_mount s r) pre'"
      using r len sp tk Cons x by (simp add: lookup_parent_def vfs_lookup_def)
    moreover have "vfs_lookup s path = lookup_loop s (follow_mount s r) (pre' @ slash # base)"
      using r Cons x by (subst p) (simp add: vfs_lookup_def)
    moreover have f: "fst (split_path path) = length pre" "snd (split_path path) = base" using sp Cons by simp_all
    ultimately show ?thesis unfolding f using lookup_loop_append [OF ok, of _ pre' base] by simp
  qed
qed

lemma creation_dirD:
  assumes "creation_dir s path = Inr (Some (p, base))"
  shows "path \<noteq> []" and "hd path = slash" and "base = snd (split_path path)" and "base \<noteq> []" and "is_dir s p"
    and "lookup_parent s path (fst (split_path path)) = Inr (Some p)" and "vfs_root s \<noteq> None"
    and "fst (split_path path) < VFS_PATH_MAX"
  using assms
  by (auto simp: creation_dir_def lookup_parent_def Let_def VFS_PATH_MAX_def split: if_splits prod.splits option.splits elim!: bindE_InrE)

lemma parent_not_spare:
  assumes ok: "tree_ok s kids fl" and l: "lookup_parent s path k = Inr (Some p)"
  shows "\<not> spare s kids p"
  using l vfs_lookup_not_spare [OF ok] by (auto simp: lookup_parent_def spare_def split: if_splits)

lemma vfs_lookup_mono:
  assumes "tree_ok s kids fl" and "tree_ok s' (kids(p := kids p @ [n])) fl'" and n: "spare s kids n"
    and "\<And>x. x \<noteq> n \<Longrightarrow> v_name (node_at s' x) = v_name (node_at s x) \<and> v_flags (node_at s' x) = v_flags (node_at s x) \<and>
      v_mounted_root (node_at s' x) = v_mounted_root (node_at s x)"
    and root: "vfs_root s' = vfs_root s" and l: "vfs_lookup s q = Inr (Some c)"
  shows "vfs_lookup s' q = Inr (Some c)"
proof -
  from l obtain r t where r: "vfs_root s = Some r" "q = slash # t" "lookup_loop s (follow_mount s r) t = Inr (Some c)"
    by (auto simp: vfs_lookup_def split: option.splits list.splits if_splits)
  have "r \<noteq> n" using r(1) n by (auto simp: spare_def)
  then have "follow_mount s' r = follow_mount s r" using assms(4) [of r] by (simp add: follow_mount_def)
  moreover have "follow_mount s r \<noteq> n"
    using \<open>r \<noteq> n\<close> n by (auto simp: follow_mount_def spare_def split: option.split)
  ultimately show ?thesis
    using lookup_mono [OF assms(1-4) r(3)] r(1,2) root by (simp add: vfs_lookup_def)
qed


section \<open>Removing a file\<close>

lemma cut_child_ok:
  assumes ok: "tree_ok s kids fl" and n: "n \<in> set (kids p)" and leaf: "kids n = []"
  obtains s1 where "v_children (node_at s p) = Some n \<Longrightarrow>
      s1 = upd_node p (\<lambda>x. x\<lparr>v_children := v_sibling (node_at s n)\<rparr>) s"
    and "v_children (node_at s p) \<noteq> Some n \<Longrightarrow>
      \<exists>b. node_before (node_at s) (Some n) (v_children (node_at s p)) = Some (Some b) \<and>
        s1 = upd_node b (\<lambda>x. x\<lparr>v_sibling := v_sibling (node_at s n)\<rparr>) s"
    and "tree_ok s1 (kids(p := remove1 n (kids p))) fl" and "spare s1 (kids(p := remove1 n (kids p))) n"
    and "n \<notin> set fl"
proof -
  note ok' = tree_okD [OF ok]
  obtain as bs where kp: "kids p = as @ n # bs" using n by (meson split_list)
  have dist: "distinct (as @ n # bs)" using linked_distinct [OF ok'(1) [of p]] kp by simp
  have lp: "linked (sib (node_at s)) (v_children (node_at s p)) (as @ n # bs)" using ok'(1) [of p] kp by simp
  have pn: "p \<noteq> n" using n leaf by auto
  have nfl: "n \<notin> set fl" using n ok'(7) by (auto simp: spare_def)
  let ?kids = "kids(p := remove1 n (kids p))"
  have r1: "remove1 n (kids p) = as @ bs" using dist kp by (simp add: remove1_append)
  have other: "x \<noteq> p \<Longrightarrow> set (kids x) \<inter> set (as @ n # bs) = {}" for x using ok'(3) [of x p] kp by simp
  have gen: "tree_ok s1 ?kids fl \<and> spare s1 ?kids n"
    if s1: "\<And>x. v_sibling (node_at s1 x) = (if as \<noteq> [] \<and> x = last as then v_sibling (node_at s n) else v_sibling (node_at s x))"
      "\<And>x. v_children (node_at s1 x) = (if as = [] \<and> x = p then v_sibling (node_at s n) else v_children (node_at s x))"
      "\<And>x. v_parent (node_at s1 x) = v_parent (node_at s x) \<and> v_flags (node_at s1 x) = v_flags (node_at s x) \<and>
        v_mounted_root (node_at s1 x) = v_mounted_root (node_at s x)"
      "vfs_root s1 = vfs_root s" "node_free_list s1 = node_free_list s" "node_pool_used s1 = node_pool_used s" for s1
  proof -
    have keep: "linked (sib (node_at s1)) q xs \<longleftrightarrow> linked (sib (node_at s)) q xs"
      if "as = [] \<or> last as \<notin> set xs" for q xs
      by (rule lseg_cong) (use that s1(1) in auto)
    have sp: "spare s1 ?kids y" if "spare s kids y" for y
    proof -
      have "set (remove1 n (kids p)) \<subseteq> set (kids p)" by (rule set_remove1_subset)
      moreover have "kids y = [] \<Longrightarrow> remove1 n (kids y) = []" by simp
      ultimately show ?thesis using that s1(3,4) unfolding spare_def by auto
    qed
    have "linked (sib (node_at s1)) (v_children (node_at s1 p)) (as @ bs)"
    proof (cases as rule: rev_cases)
      case Nil
      then show ?thesis using lp s1 keep by simp
    next
      case (snoc cs l)
      have "lseg (sib (node_at s1)) q cs r = lseg (sib (node_at s)) q cs r" for q r
        by (rule lseg_cong) (use snoc dist s1(1) in auto)
      moreover have "linked (sib (node_at s1)) q bs = linked (sib (node_at s)) q bs" for q
        by (rule lseg_cong) (use snoc dist s1(1) in auto)
      ultimately show ?thesis using lp s1 snoc by simp
    qed
    moreover have "linked (sib (node_at s1)) (v_children (node_at s1 x)) (kids x)" if "x \<noteq> p" for x
    proof -
      have "as = [] \<or> last as \<notin> set (kids x)" using other [OF that] last_in_set [of as] by auto
      then show ?thesis using keep [of "kids x"] ok'(1) [of x] that s1(2) by simp
    qed
    moreover have "as = [] \<or> last as \<notin> set fl"
    proof -
      have "last as \<in> set (kids p)" if "as \<noteq> []" using that kp by simp
      then show ?thesis using ok'(7) by (auto simp: spare_def)
    qed
    then have "linked (sib (node_at s1)) (node_free_list s1) fl" using keep [of fl] ok'(2) s1(5) by simp
    moreover have "set (?kids x) \<subseteq> set (kids x)" for x using kp by (auto simp: r1)
    moreover have "set (?kids x) \<inter> set (?kids y) = {}" if "x \<noteq> y" for x y
      using ok'(3) [OF that] calculation(4) [of x] calculation(4) [of y] by blast
    ultimately have "tree_ok s1 ?kids fl" unfolding tree_ok_def
    proof (intro conjI allI ballI impI)
      fix x c assume sub: "\<And>x. set (?kids x) \<subseteq> set (kids x)" and "c \<in> set (?kids x)"
      then have c: "c \<in> set (kids x)" by blast
      show "v_parent (node_at s1 c) = Some x" using ok'(4) [OF c] s1(3) by simp
      show "vfs_root s1 \<noteq> Some c" "v_mounted_root (node_at s1 y) \<noteq> Some c" for y using ok'(6) [OF c] s1(3,4) by auto
    next
      show "is_dir s1 x" if "?kids x \<noteq> []" for x using that ok'(5) [of x] s1(3) kp by (auto split: if_splits)
      show "spare s1 ?kids y" if "y \<in> set fl" for y by (rule sp [OF ok'(7) [OF that]])
      show "spare s1 ?kids y" "y \<notin> set fl" if "node_pool_used s1 \<le> y" "y < VFS_NODE_POOL_SIZE" for y
        using ok'(8) [of y] that s1(6) sp by auto
    qed (auto simp: r1)
    moreover have "spare s1 ?kids n"
      using dist leaf pn ok'(6) [of n p] n other s1(3,4) kp unfolding spare_def by (auto simp: r1)
    ultimately show ?thesis by blast
  qed
  show thesis
  proof (cases as rule: rev_cases)
    case Nil
    let ?s = "upd_node p (\<lambda>x. x\<lparr>v_children := v_sibling (node_at s n)\<rparr>) s"
    have c: "v_children (node_at s p) = Some n" using lp Nil by simp
    have "tree_ok ?s ?kids fl \<and> spare ?s ?kids n" by (rule gen) (simp_all add: Nil)
    then show thesis using c nfl by (intro that [of ?s]) simp_all
  next
    case (snoc cs l)
    let ?s = "upd_node l (\<lambda>x. x\<lparr>v_sibling := v_sibling (node_at s n)\<rparr>) s"
    have lp': "linked (sib (node_at s)) (v_children (node_at s p)) (cs @ l # n # bs)" using lp snoc by simp
    have nb: "node_before (node_at s) (Some n) (v_children (node_at s p)) = Some (Some l)"
      by (rule node_before_pred [OF lp']) (use dist snoc in auto)
    have c: "v_children (node_at s p) \<noteq> Some n" using lp' dist snoc by (cases cs) auto
    have "tree_ok ?s ?kids fl \<and> spare ?s ?kids n" by (rule gen) (simp_all add: snoc)
    then show thesis using c nb nfl by (intro that [of ?s]) simp_all
  qed
qed

text \<open>A node that belongs to nobody, put on the list of free nodes.\<close>

abbreviation push_free :: "vptr \<Rightarrow> 'a vfs_scheme \<Rightarrow> 'a vfs_scheme" where
  "push_free n s \<equiv> (upd_node n (\<lambda>x. x\<lparr>v_sibling := node_free_list s\<rparr>) s)\<lparr>node_free_list := Some n\<rparr>"

lemma push_free_ok:
  assumes ok: "tree_ok s kids fl" and n: "spare s kids n" "n \<notin> set fl" "n < node_pool_used s \<or> VFS_NODE_POOL_SIZE \<le> n"
  shows "tree_ok (push_free n s) kids (n # fl)" and "spare (push_free n s) kids y \<longleftrightarrow> spare s kids y"
proof -
  let ?s = "push_free n s"
  note ok' = tree_okD [OF ok]
  have nk: "n \<notin> set (kids x)" for x using n(1) by (simp add: spare_def)
  have lk: "linked (sib (node_at ?s)) p xs \<longleftrightarrow> linked (sib (node_at s)) p xs" if "n \<notin> set xs" for p xs
    by (rule lseg_cong) (use that in auto)
  show sp: "spare ?s kids y \<longleftrightarrow> spare s kids y" for y unfolding spare_def by auto
  show "tree_ok ?s kids (n # fl)" unfolding tree_ok_def sp
  proof (intro conjI allI ballI impI)
    show "linked (sib (node_at ?s)) (v_children (node_at ?s x)) (kids x)" for x
      using ok'(1) [of x] lk [OF nk [of x]] by (cases "x = n") simp_all
    show "linked (sib (node_at ?s)) (node_free_list ?s) (n # fl)" using ok'(2) lk [OF n(2)] by simp
    show "set (kids x) \<inter> set (kids y) = {}" if "x \<noteq> y" for x y by (rule ok'(3) [OF that])
    show "v_parent (node_at ?s c) = Some x" if "c \<in> set (kids x)" for x c using ok'(4) [OF that] by auto
    show "is_dir ?s x" if "kids x \<noteq> []" for x using ok'(5) [OF that] by auto
    show "vfs_root ?s \<noteq> Some c" "v_mounted_root (node_at ?s y) \<noteq> Some c" if "c \<in> set (kids x)" for x c y
      using ok'(6) [OF that] by auto
    show "spare s kids y" if "y \<in> set (n # fl)" for y using that n(1) ok'(7) by auto
    show "spare s kids y" "y \<notin> set (n # fl)" if "node_pool_used ?s \<le> y" "y < VFS_NODE_POOL_SIZE" for y
      using ok'(8) [of y] that n(3) by auto
  qed
qed

lemma free_node_ok:
  assumes ok: "tree_ok s kids fl" and n: "spare s kids n" "n \<notin> set fl" "n < node_pool_used s \<or> VFS_NODE_POOL_SIZE \<le> n"
  obtains fl' where "tree_ok (vfs_free_node n s) kids fl'" and "spare (vfs_free_node n s) kids n"
    and "vfs_root (vfs_free_node n s) = vfs_root s"
    and "\<And>x. x \<noteq> n \<Longrightarrow> node_at (vfs_free_node n s) x = node_at s x"
proof -
  let ?s = "upd_node n (\<lambda>_. zero_node) s"
  have z: "v_children zero_node = None" "v_mounted_root zero_node = None" by (simp_all add: zero_node_def)
  have s: "node_at ?s = (node_at s)(n := zero_node)" "vfs_root ?s = vfs_root s" "node_pool_used s \<le> node_pool_used ?s"
    "linked (sib (node_at s)) (node_free_list ?s) fl"
    using tree_okD(2) [OF ok] by (simp_all add: upd_node_def)
  note r = set_spare_node [OF ok n(1,2) order.refl s(4,1-3) z]
  show thesis
  proof (cases "v_heap_alloc (node_at s n)")
    case True
    then have "vfs_free_node n s = ?s" by (simp add: vfs_free_node_def)
    then show thesis using r n(1) s by (intro that [of fl]) auto
  next
    case False
    then have f: "vfs_free_node n s = push_free n ?s"
      by (simp add: vfs_free_node_def)
    have n3: "n < node_pool_used ?s \<or> VFS_NODE_POOL_SIZE \<le> n" using n(3) by (simp add: upd_node_def)
    note p = push_free_ok [OF r(1) r(2) [OF n(1)] n(2) n3, folded f]
    show thesis using p r(2) [OF n(1)] f by (intro that [of "n # fl"]) (auto simp: upd_node_def)
  qed
qed

text \<open>Removing a child that is no directory: a path to another node keeps naming it.\<close>

lemma lookup_cut:
  assumes ok: "tree_ok s kids fl" and ok': "tree_ok s' (kids(p := remove1 n (kids p))) fl'"
    and n: "n \<in> set (kids p)" "v_mounted_root (node_at s n) = None" "\<not> is_dir s n"
    and same: "\<And>x. x \<noteq> n \<Longrightarrow> v_name (node_at s' x) = v_name (node_at s x) \<and> v_flags (node_at s' x) = v_flags (node_at s x) \<and>
      v_mounted_root (node_at s' x) = v_mounted_root (node_at s x)"
  shows "lookup_loop s cur q = Inr (Some c) \<Longrightarrow> cur \<noteq> n \<Longrightarrow> c \<noteq> n \<Longrightarrow> lookup_loop s' cur q = Inr (Some c)"
proof (induction q arbitrary: cur rule: length_induct)
  case (1 q)
  let ?q = "dropWhile ((=) slash) q" and ?kids = "kids(p := remove1 n (kids p))"
  let ?g = "takeWhile ((\<noteq>) slash) ?q" and ?r = "dropWhile ((\<noteq>) slash) ?q"
  show ?case
  proof (cases "?q = []")
    case True
    then show ?thesis using "1.prems" lookup_step [OF ok, of cur q] lookup_step [OF ok', of cur q] by simp
  next
    case False
    obtain d where d: "find (\<lambda>c. v_name (node_at s c) = ?g) (kids cur) = Some d" and dir: "is_dir s cur"
      and l: "lookup_loop s (follow_mount s d) ?r = Inr (Some c)"
      using "1.prems"(1) lookup_step [OF ok, of cur q] False by (auto split: if_splits option.splits)
    have dn: "d \<noteq> n"
    proof
      assume "d = n"
      then have "follow_mount s d = n" using n(2) by (simp add: follow_mount_def)
      then have "lookup_loop s n ?r = Inr (Some c)" using l by simp
      then show False using n(3) "1.prems"(3) unfolding lookup_step [OF ok, of n ?r] by (auto split: if_splits)
    qed
    have fe: "find (\<lambda>c. v_name (node_at s' c) = ?g) xs = Some d"
      if "find (\<lambda>c. v_name (node_at s c) = ?g) xs = Some d" "n \<notin> set xs" for xs
      using that same by (induction xs) (auto split: if_splits)
    have fr: "find (\<lambda>c. v_name (node_at s' c) = ?g) (remove1 n xs) = Some d"
      if "find (\<lambda>c. v_name (node_at s c) = ?g) xs = Some d" "distinct xs" for xs
      using that dn
    proof (induction xs)
      case (Cons x xs)
      then show ?case using fe [of xs] same [of x] by (cases "x = n") (auto split: if_splits)
    qed simp
    have "n \<notin> set (kids cur)" if "cur \<noteq> p" using tree_okD(3) [OF ok that] n(1) by auto
    then have d': "find (\<lambda>c. v_name (node_at s' c) = ?g) (?kids cur) = Some d"
      using d fe [OF d] fr [OF d] linked_distinct [OF tree_okD(1) [OF ok]] by auto
    have fm: "follow_mount s' d = follow_mount s d" using same [OF dn] by (simp add: follow_mount_def)
    moreover have "follow_mount s d \<noteq> n"
      using dn tree_okD(6) [OF ok n(1)] by (auto simp: follow_mount_def split: option.split)
    ultimately have "lookup_loop s' (follow_mount s' d) ?r = Inr (Some c)"
      using "1.IH" rest_shorter [OF False] l "1.prems"(3) by simp
    moreover have "is_dir s' cur" using same [OF "1.prems"(2)] dir by simp
    ultimately show ?thesis unfolding lookup_step [OF ok', of cur q] if_not_P [OF False] d' by simp
  qed
qed

lemma vfs_lookup_cut:
  assumes "tree_ok s kids fl" and "tree_ok s' (kids(p := remove1 n (kids p))) fl'"
    and n: "n \<in> set (kids p)" "v_mounted_root (node_at s n) = None" "\<not> is_dir s n"
    and same: "\<And>x. x \<noteq> n \<Longrightarrow> v_name (node_at s' x) = v_name (node_at s x) \<and> v_flags (node_at s' x) = v_flags (node_at s x) \<and>
      v_mounted_root (node_at s' x) = v_mounted_root (node_at s x)"
    and root: "vfs_root s' = vfs_root s" and l: "vfs_lookup s q = Inr (Some c)" "c \<noteq> n"
  shows "vfs_lookup s' q = Inr (Some c)"
proof -
  from l obtain r t where r: "vfs_root s = Some r" "q = slash # t" "lookup_loop s (follow_mount s r) t = Inr (Some c)"
    by (auto simp: vfs_lookup_def split: option.splits list.splits if_splits)
  note nr = tree_okD(6) [OF assms(1) n(1)]
  have "r \<noteq> n" using r(1) nr by auto
  then have "follow_mount s' r = follow_mount s r" using same [of r] by (simp add: follow_mount_def)
  moreover have "follow_mount s r \<noteq> n"
    using \<open>r \<noteq> n\<close> nr by (auto simp: follow_mount_def split: option.split)
  ultimately show ?thesis
    using lookup_cut [OF assms(1,2) n same r(3)] r(1,2) root l(2) by (simp add: vfs_lookup_def)
qed

text \<open>A path never names a child that something is mounted on.\<close>

lemma lookup_named:
  assumes ok: "tree_ok s kids fl" and n: "n \<in> set (kids p)"
  shows "lookup_loop s cur q = Inr (Some n) \<Longrightarrow> cur \<noteq> n \<Longrightarrow> v_mounted_root (node_at s n) = None"
proof (induction q arbitrary: cur rule: length_induct)
  case (1 q)
  let ?q = "dropWhile ((=) slash) q"
  let ?g = "takeWhile ((\<noteq>) slash) ?q" and ?r = "dropWhile ((\<noteq>) slash) ?q"
  have ne: "?q \<noteq> []"
  proof
    assume e: "?q = []"
    have "lookup_loop s cur q = Inr (Some cur)" unfolding lookup_step [OF ok, of cur q] if_P [OF e] ..
    then show False using "1.prems" by simp
  qed
  then obtain d where l: "lookup_loop s (follow_mount s d) ?r = Inr (Some n)"
    using "1.prems"(1) unfolding lookup_step [OF ok, of cur q] if_not_P [OF ne]
    by (simp split: if_splits option.splits)
  show ?case
  proof (cases "follow_mount s d = n")
    case True
    then show ?thesis using tree_okD(6) [OF ok n] by (auto simp: follow_mount_def split: option.splits)
  next
    case False
    then show ?thesis using "1.IH" rest_shorter [OF ne] l by blast
  qed
qed

lemma vfs_lookup_named:
  assumes ok: "tree_ok s kids fl" and n: "n \<in> set (kids p)" and l: "vfs_lookup s q = Inr (Some n)"
  shows "v_mounted_root (node_at s n) = None"
proof -
  from l obtain r t where r: "vfs_root s = Some r" "lookup_loop s (follow_mount s r) t = Inr (Some n)"
    by (auto simp: vfs_lookup_def split: option.splits list.splits if_splits)
  have "follow_mount s r \<noteq> n"
    using tree_okD(6) [OF ok n] r(1) by (auto simp: follow_mount_def split: option.split)
  then show ?thesis by (rule lookup_named [OF ok n r(2)])
qed

text \<open>
  C31. Removing a file, in a well-formed tree and a filesystem without a driver of its own: when
  \<open>vfs_unlink\<close> succeeds the path named a plain node, this node leaves its directory and
  nothing else does, the tree stays well formed, no path names the node any more, and every
  path that named another node still names it.
\<close>
theorem vfs_unlink_removes:
  assumes ok: "tree_ok s kids fl" and plain: "\<forall>x. Option.bind (driver_of drv s x) fo_unlink = None"
    and r: "vfs_unlink drv path s = Inr (0, s')"
  shows "\<exists>n p fl'. vfs_lookup s path = Inr (Some n) \<and> n \<in> set (kids p) \<and> \<not> is_dir s n \<and> \<not> is_chardev s n \<and>
    tree_ok s' (kids(p := remove1 n (kids p))) fl' \<and> (\<forall>q. vfs_lookup s' q \<noteq> Inr (Some n)) \<and>
    (\<forall>q c. vfs_lookup s q = Inr (Some c) \<longrightarrow> c \<noteq> n \<longrightarrow> vfs_lookup s' q = Inr (Some c))"
proof -
  note ok' = tree_okD [OF ok]
  obtain n where l: "vfs_lookup s path = Inr (Some n)" and nd: "\<not> is_dir s n" "\<not> is_chardev s n"
    using r by (auto simp: vfs_unlink_def elim!: bindE_InrE split: option.splits if_splits)
  obtain p where p: "v_parent (node_at s n) = Some p"
    using r l nd by (auto simp: vfs_unlink_def split: option.splits)
  have r': "(if v_children (node_at s p) = Some n
      then Inr (0, vfs_free_node n (upd_node p (\<lambda>x. x\<lparr>v_children := v_sibling (node_at s n)\<rparr>) s))
      else bindE (of_opt (node_before (node_at s) (Some n) (v_children (node_at s p)))) (\<lambda>b.
         case b of None \<Rightarrow> Inr (-1, s)
         | Some b \<Rightarrow> Inr (0, vfs_free_node n (upd_node b (\<lambda>x. x\<lparr>v_sibling := v_sibling (node_at s n)\<rparr>) s)))) = Inr (0 :: int, s')"
    using r l nd p plain by (auto simp: vfs_unlink_def split: if_splits)
  have n: "n \<in> set (kids p)"
  proof (rule ccontr)
    assume no: "n \<notin> set (kids p)"
    then have "v_children (node_at s p) \<noteq> Some n" using ok'(1) [of p] by (cases "kids p") auto
    moreover have "n \<notin> set (tl (kids p))" using no by (cases "kids p") auto
    ultimately show False using r' node_before_absent [OF ok'(1) [of p], of n] by simp
  qed
  have leaf: "kids n = []" using ok'(5) [of n] nd(1) by auto
  obtain s1 where s1: "v_children (node_at s p) = Some n \<Longrightarrow>
      s1 = upd_node p (\<lambda>x. x\<lparr>v_children := v_sibling (node_at s n)\<rparr>) s"
    "v_children (node_at s p) \<noteq> Some n \<Longrightarrow>
      \<exists>b. node_before (node_at s) (Some n) (v_children (node_at s p)) = Some (Some b) \<and>
        s1 = upd_node b (\<lambda>x. x\<lparr>v_sibling := v_sibling (node_at s n)\<rparr>) s"
    and t1: "tree_ok s1 (kids(p := remove1 n (kids p))) fl" "spare s1 (kids(p := remove1 n (kids p))) n" "n \<notin> set fl"
    by (rule cut_child_ok [OF ok n leaf]) (rule that)
  have s': "s' = vfs_free_node n s1" using r' s1 by (cases "v_children (node_at s p) = Some n") auto
  have f1: "v_name (node_at s1 x) = v_name (node_at s x) \<and> v_flags (node_at s1 x) = v_flags (node_at s x) \<and>
      v_mounted_root (node_at s1 x) = v_mounted_root (node_at s x)"
    "vfs_root s1 = vfs_root s" "node_pool_used s1 = node_pool_used s" for x
    using s1 by (cases "v_children (node_at s p) = Some n"; auto simp: upd_node_def)+
  have "\<not> spare s kids n" using n by (auto simp: spare_def)
  then have pool: "n < node_pool_used s1 \<or> VFS_NODE_POOL_SIZE \<le> n" using not_spare_node(2) [OF ok] f1(3) by simp
  obtain fl' where t2: "tree_ok s' (kids(p := remove1 n (kids p))) fl'" "spare s' (kids(p := remove1 n (kids p))) n"
    and g: "vfs_root s' = vfs_root s1" "\<And>x. x \<noteq> n \<Longrightarrow> node_at s' x = node_at s1 x"
    by (rule free_node_ok [OF t1 pool, folded s']) (rule that)
  have same: "v_name (node_at s' x) = v_name (node_at s x) \<and> v_flags (node_at s' x) = v_flags (node_at s x) \<and>
      v_mounted_root (node_at s' x) = v_mounted_root (node_at s x)" if "x \<noteq> n" for x
    using g(2) [OF that] f1(1) by simp
  have "vfs_lookup s' q \<noteq> Inr (Some n)" for q using vfs_lookup_not_spare [OF t2(1)] t2(2) by blast
  moreover have "vfs_lookup s' q = Inr (Some c)" if "vfs_lookup s q = Inr (Some c)" "c \<noteq> n" for q c
    using vfs_lookup_cut [OF ok t2(1) n vfs_lookup_named [OF ok n l] nd(1) same _ that] g(1) f1(2) by simp
  ultimately show ?thesis using l n nd t2(1) by blast
qed

section \<open>A concrete tree\<close>

text \<open>The root with a directory \<open>tmp\<close>, which holds the file \<open>f\<close>.\<close>

definition demo_node :: "vptr \<Rightarrow> vfs_node" where
  "demo_node x =
     (if x = 0 then zero_node\<lparr>v_flags := VFS_DIR, v_children := Some 1\<rparr>
      else if x = 1 then zero_node\<lparr>v_name := ''tmp'', v_flags := VFS_DIR, v_children := Some 2, v_parent := Some 0\<rparr>
      else if x = 2 then zero_node\<lparr>v_name := ''f'', v_flags := VFS_FILE, v_parent := Some 1, v_writable := True\<rparr>
      else zero_node)"

definition demo_tree :: vfs where
  "demo_tree = \<lparr>node_at = demo_node, node_pool_used = 3, node_free_list = None, next_inode = 1000,
     vfs_root = Some 0, mount_table = [], fs_registry = []\<rparr>"

definition demo_kids :: "vptr \<Rightarrow> vptr list" where
  "demo_kids x = (if x = 0 then [1] else if x = 1 then [2] else [])"

definition demo_drv :: drivers where
  "demo_drv = (\<lambda>_. \<lparr>fo_mount = (\<lambda>_ _ s. (-1, s)), fo_umount = None, fo_create = None, fo_mkdir = None, fo_unlink = None\<rparr>)"

lemma demo_tree_ok: "tree_ok demo_tree demo_kids []" "heap_fresh demo_heap demo_tree demo_kids []"
  unfolding tree_ok_def heap_fresh_def spare_def
  by (auto simp: demo_tree_def demo_node_def demo_kids_def demo_heap_def zero_node_def VFS_NODE_POOL_SIZE_def VFS_DIR_def)

lemma demo_plain: "\<forall>x. Option.bind (driver_of demo_drv s x) fo_unlink = None"
  "\<forall>x. Option.bind (driver_of demo_drv s x) fo_create = None"
  by (simp_all add: driver_of_def demo_drv_def bind_map_option comp_def)


theorem vfs_unlink_removes_witness:
  "case vfs_unlink demo_drv ''/tmp/f'' demo_tree of
     Inr (r, s') \<Rightarrow> r = 0 \<and> vfs_lookup s' ''/tmp/f'' \<noteq> Inr (Some 2) \<and> vfs_lookup s' ''/tmp'' = Inr (Some 1)
   | _ \<Rightarrow> False"
proof -
  have "case vfs_unlink demo_drv ''/tmp/f'' demo_tree of Inr (r, s') \<Rightarrow> r = 0 | _ \<Rightarrow> False" by code_simp
  then obtain s' where r: "vfs_unlink demo_drv ''/tmp/f'' demo_tree = Inr (0, s')"
    by (auto split: sum.splits prod.splits)
  have "vfs_lookup demo_tree ''/tmp/f'' = Inr (Some 2)" "vfs_lookup demo_tree ''/tmp'' = Inr (Some 1)"
    by code_simp+
  then show ?thesis using vfs_unlink_removes [OF demo_tree_ok(1) demo_plain(1) r] r by auto
qed

section \<open>Renaming a file to itself\<close>

text \<open>
  A second spelling of the same path is not the no-op the code means: the target found is
  the file itself, which is detached and freed, and then its parent is the null pointer.
\<close>

lemma vfs_rename_alias:
  "vfs_rename ''/tmp/f'' ''/tmp/f'' demo_tree = Inr (0, demo_tree)"
  "vfs_rename ''/tmp/f'' ''//tmp/f'' demo_tree = Inl NullDeref"
proof -
  have "vfs_lookup demo_tree ''/tmp/f'' = Inr (Some 2)" by code_simp
  then show "vfs_rename ''/tmp/f'' ''/tmp/f'' demo_tree = Inr (0, demo_tree)"
    by (simp add: vfs_rename_def) (simp add: demo_tree_def demo_node_def)
  have "case vfs_rename ''/tmp/f'' ''//tmp/f'' demo_tree of Inl NullDeref \<Rightarrow> True | _ \<Rightarrow> False" by code_simp
  then show "vfs_rename ''/tmp/f'' ''//tmp/f'' demo_tree = Inl NullDeref" by (auto split: sum.splits fault.splits)
qed

end
