(* ===== verification/Kheap.thy ===== *)
theory Kheap
  imports Kvirt
begin

text \<open>
  The kernel heap, \<open>kernel/heap.c\<close>: slabs of eight size classes, each page with a bitmap of
  its slots, and blocks of whole pages above 4096 bytes with a cache of those given back.
  The content of the blocks is not part of the state, apart from the clearing of a new page.
\<close>

section \<open>The state\<close>

definition PAGE_BYTES :: u32 where "PAGE_BYTES = 4096"
definition NUM_SLAB_CLASSES :: nat where "NUM_SLAB_CLASSES = 8"
definition SLAB_BITMAP_WORDS :: nat where "SLAB_BITMAP_WORDS = 4"
definition MAX_SLABS_PER_CLASS :: nat where "MAX_SLABS_PER_CLASS = 64"
definition MAX_OVERFLOW :: nat where "MAX_OVERFLOW = 128"
definition LARGE_CACHE_MAX :: nat where "LARGE_CACHE_MAX = 8"

lemmas heap_consts = PAGE_BYTES_def NUM_SLAB_CLASSES_def SLAB_BITMAP_WORDS_def MAX_SLABS_PER_CLASS_def
  MAX_OVERFLOW_def LARGE_CACHE_MAX_def

definition slab_sizes :: "u32 list" where
  "slab_sizes = [32, 64, 128, 256, 512, 1024, 2048, 4096]"

text \<open>The field \<open>phys\<close> holds a virtual address; the used part of the array \<open>pages\<close> is a list.\<close>

record slab_page =
  sp_phys :: u32
  sp_slots :: u32
  sp_free :: u32
  sp_bitmap :: "u32 list"

record slab_class =
  obj_size :: u32
  sc_pages :: "slab_page list"

record kheap = vmm +
  classes :: "slab_class list"
  overflow_table :: "(u32 \<times> u32) list"
  large_cache :: "(u32 \<times> u32) list"

section \<open>Slabs\<close>

definition find_class :: "u32 \<Rightarrow> nat" where
  "find_class sz =
     (case find (\<lambda>i. sz \<le> slab_sizes ! i) [0..<NUM_SLAB_CLASSES] of
        Some i \<Rightarrow> i | None \<Rightarrow> NUM_SLAB_CLASSES)"

text \<open>\<open>memset(virt, 0, PAGE_SIZE)\<close> through the page tables of the directory in \<open>CR3\<close>.\<close>

definition clear_word :: "u32 \<Rightarrow> nat \<Rightarrow> 'a vmm_scheme \<Rightarrow> fault + 'a vmm_scheme" where
  "clear_word v i m =
     (case translate (cr3 m) (v + 4 * of_nat i) m of Some d \<Rightarrow> Inr (wr d 0 m) | None \<Rightarrow> Inl BadAccess)"

definition new_slab :: "u32 \<Rightarrow> u32 \<Rightarrow> slab_page" where
  "new_slab virt sz = \<lparr>sp_phys = virt, sp_slots = PAGE_BYTES div sz, sp_free = PAGE_BYTES div sz,
     sp_bitmap = replicate SLAB_BITMAP_WORDS 0\<rparr>"

definition slab_grow :: "nat \<Rightarrow> 'a kheap_scheme \<Rightarrow> fault + bool \<times> 'a kheap_scheme" where
  "slab_grow ci h =
     (let cls = classes h ! ci in
      if length (sc_pages cls) \<ge> MAX_SLABS_PER_CLASS then Inr (False, h)
      else bindE (vmm_alloc_pages 1 h) (\<lambda>(virt, h).
        if virt = 0 then Inr (False, h)
        else bindE (foldE (clear_word virt) [0..<1024] h) (\<lambda>h.
          Inr (True, h\<lparr>classes := (classes h)[ci := cls\<lparr>sc_pages := sc_pages cls @ [new_slab virt (obj_size cls)]\<rparr>]\<rparr>))))"

text \<open>The index of the lowest bit that is set.\<close>

definition ctz :: "u32 \<Rightarrow> nat" where
  "ctz w = length (takeWhile (\<lambda>i. \<not> bit w i) [0..<32])"

definition slot_in :: "slab_page \<Rightarrow> nat \<Rightarrow> nat" where
  "slot_in sp w = w * 32 + ctz (NOT (sp_bitmap sp ! w))"

definition slab_page_alloc :: "u32 \<Rightarrow> slab_page \<Rightarrow> u32 \<times> slab_page" where
  "slab_page_alloc sz sp =
     (case find (\<lambda>w. sp_bitmap sp ! w \<noteq> 0xFFFFFFFF \<and> of_nat (slot_in sp w) < sp_slots sp) [0..<SLAB_BITMAP_WORDS] of
        None \<Rightarrow> (0, sp)
      | Some w \<Rightarrow>
          (sp_phys sp + of_nat (slot_in sp w) * sz,
           sp\<lparr>sp_bitmap := (sp_bitmap sp)[w := sp_bitmap sp ! w OR push_bit (ctz (NOT (sp_bitmap sp ! w))) 1],
              sp_free := sp_free sp - 1\<rparr>))"

text \<open>The scan of the pages a class already has; 0 when none has a slot.\<close>

fun class_scan :: "u32 \<Rightarrow> slab_page list \<Rightarrow> u32 \<times> slab_page list" where
  "class_scan sz [] = (0, [])"
| "class_scan sz (sp # sps) =
     (let (p, sp') = (if sp_free sp = 0 then (0, sp) else slab_page_alloc sz sp)
      in if p \<noteq> 0 then (p, sp' # sps) else apsnd ((#) sp') (class_scan sz sps))"

definition set_pages :: "nat \<Rightarrow> slab_page list \<Rightarrow> 'a kheap_scheme \<Rightarrow> 'a kheap_scheme" where
  "set_pages ci sps h = h\<lparr>classes := (classes h)[ci := (classes h ! ci)\<lparr>sc_pages := sps\<rparr>]\<rparr>"

section \<open>Blocks of whole pages\<close>

text \<open>The first cached range of the size, which leaves the cache.\<close>

definition cache_take :: "u32 \<Rightarrow> 'a kheap_scheme \<Rightarrow> u32 \<times> 'a kheap_scheme" where
  "cache_take nfr h =
     (case find (\<lambda>i. snd (large_cache h ! i) = nfr) [0..<length (large_cache h)] of
        None \<Rightarrow> (0, h)
      | Some i \<Rightarrow> (fst (large_cache h ! i), h\<lparr>large_cache := swap_remove i (large_cache h)\<rparr>))"

definition large_alloc :: "u32 \<Rightarrow> 'a kheap_scheme \<Rightarrow> fault + u32 \<times> 'a kheap_scheme" where
  "large_alloc sz h =
     (let nfr = (sz + PAGE_BYTES - 1) div PAGE_BYTES in
      case find (\<lambda>i. fst (overflow_table h ! i) = 0) [0..<MAX_OVERFLOW] of
        None \<Rightarrow> Inr (0, h)
      | Some slot \<Rightarrow>
          let (virt, h) = cache_take nfr h
          in bindE (if virt = 0 then vmm_alloc_pages nfr h else Inr (virt, h)) (\<lambda>(virt, h).
               if virt = 0 then Inr (0, h)
               else Inr (virt, h\<lparr>overflow_table := (overflow_table h)[slot := (virt, nfr)]\<rparr>)))"

section \<open>The interface\<close>

definition kmalloc :: "u32 \<Rightarrow> 'a kheap_scheme \<Rightarrow> fault + u32 \<times> 'a kheap_scheme" where
  "kmalloc sz h =
     (if sz = 0 then Inr (0, h)
      else let ci = find_class sz in
        if ci = NUM_SLAB_CLASSES then large_alloc sz h
        else
          let cls = classes h ! ci; (p, sps) = class_scan (obj_size cls) (sc_pages cls); h = set_pages ci sps h
          in if p \<noteq> 0 then Inr (p, h)
             else bindE (slab_grow ci h) (\<lambda>(ok, h).
               if \<not> ok then Inr (0, h)
               else let sps = sc_pages (classes h ! ci); (p, sp) = slab_page_alloc (obj_size (classes h ! ci)) (last sps)
                    in Inr (p, set_pages ci (butlast sps @ [sp]) h)))"

definition large_free :: "u32 \<Rightarrow> u32 \<Rightarrow> 'a kheap_scheme \<Rightarrow> 'a kheap_scheme" where
  "large_free addr nfr h =
     (if length (large_cache h) < LARGE_CACHE_MAX
      then h\<lparr>large_cache := large_cache h @ [(addr, nfr)]\<rparr>
      else let (v, n) = large_cache h ! 0; h = vmm_free_pages v n h
           in h\<lparr>large_cache := (large_cache h)[0 := large_cache h ! (LARGE_CACHE_MAX - 1),
                                             LARGE_CACHE_MAX - 1 := (addr, nfr)]\<rparr>)"

definition in_page :: "u32 \<Rightarrow> slab_page \<Rightarrow> bool" where
  "in_page addr sp \<longleftrightarrow> sp_phys sp \<le> addr \<and> addr < sp_phys sp + PAGE_BYTES"

definition slab_page_free :: "u32 \<Rightarrow> u32 \<Rightarrow> slab_page \<Rightarrow> fault + slab_page" where
  "slab_page_free sz addr sp =
     (let slot = (addr - sp_phys sp) div sz in
      if sp_phys sp + slot * sz \<noteq> addr then Inl (Panic ''kfree: misaligned pointer'')
      else let w = unat slot div 32; b = unat slot mod 32 in
        if \<not> bit (sp_bitmap sp ! w) b then Inl (Panic ''kfree: double free'')
        else Inr (sp\<lparr>sp_bitmap := (sp_bitmap sp)[w := sp_bitmap sp ! w AND NOT (push_bit b 1)],
                     sp_free := sp_free sp + 1\<rparr>))"

text \<open>The search of the slab pages: the first page with the address decides.\<close>

fun free_scan :: "u32 \<Rightarrow> u32 \<Rightarrow> slab_page list \<Rightarrow> (fault + slab_page list) option" where
  "free_scan sz addr [] = None"
| "free_scan sz addr (sp # sps) =
     (if in_page addr sp then Some (bindE (slab_page_free sz addr sp) (\<lambda>sp. Inr (sp # sps)))
      else map_option (\<lambda>r. bindE r (\<lambda>sps. Inr (sp # sps))) (free_scan sz addr sps))"

fun classes_free :: "u32 \<Rightarrow> slab_class list \<Rightarrow> fault + slab_class list" where
  "classes_free addr [] = Inl (Panic ''kfree: pointer not found in any slab'')"
| "classes_free addr (c # cs) =
     (case free_scan (obj_size c) addr (sc_pages c) of
        Some r \<Rightarrow> bindE r (\<lambda>sps. Inr (c\<lparr>sc_pages := sps\<rparr> # cs))
      | None \<Rightarrow> bindE (classes_free addr cs) (\<lambda>cs. Inr (c # cs)))"

definition kfree :: "u32 \<Rightarrow> 'a kheap_scheme \<Rightarrow> fault + 'a kheap_scheme" where
  "kfree addr h =
     (if addr = 0 then Inr h
      else case find (\<lambda>i. fst (overflow_table h ! i) = addr) [0..<MAX_OVERFLOW] of
        Some i \<Rightarrow>
          let nfr = snd (overflow_table h ! i)
          in Inr (large_free addr nfr (h\<lparr>overflow_table := (overflow_table h)[i := (0, 0)]\<rparr>))
      | None \<Rightarrow> bindE (classes_free addr (classes h)) (\<lambda>cs. Inr (h\<lparr>classes := cs\<rparr>)))"

definition init_kernel_heap :: "'a kheap_scheme \<Rightarrow> 'a kheap_scheme" where
  "init_kernel_heap h =
     h\<lparr>classes := map (\<lambda>s. \<lparr>obj_size = s, sc_pages = []\<rparr>) slab_sizes,
       overflow_table := replicate MAX_OVERFLOW (0, 0)\<rparr>"

end
