(* ===== verification/Kheap_Blocks.thy ===== *)
theory Kheap_Blocks
  imports Kheap
begin

text \<open>
  What the kernel heap promises: the blocks handed out never overlap each other, the other
  ranges of kernel memory, or what the heap keeps for itself.
\<close>

section \<open>Blocks and the ranges they lie in\<close>

definition slot_bit :: "slab_page \<Rightarrow> nat \<Rightarrow> bool" where
  "slot_bit sp i \<longleftrightarrow> bit (sp_bitmap sp ! (i div 32)) (i mod 32)"

text \<open>A block is its address and its length in bytes.\<close>

type_synonym block = "nat \<times> nat"

definition page_blocks :: "u32 \<Rightarrow> slab_page \<Rightarrow> block set" where
  "page_blocks sz sp = {(unat (sp_phys sp) + i * unat sz, unat sz) | i. i < unat (sp_slots sp) \<and> slot_bit sp i}"

definition class_blocks :: "slab_class \<Rightarrow> block set" where
  "class_blocks c = (\<Union>sp \<in> set (sc_pages c). page_blocks (obj_size c) sp)"

definition large_blocks :: "(u32 \<times> u32) list \<Rightarrow> block set" where
  "large_blocks ov = {(unat v, unat n * 4096) | v n. (v, n) \<in> set ov \<and> v \<noteq> 0}"

definition blocks :: "'a kheap_scheme \<Rightarrow> block set" where
  "blocks h = (\<Union>c \<in> set (classes h). class_blocks c) \<union> large_blocks (overflow_table h)"

definition page_ranges :: "slab_class \<Rightarrow> range list" where
  "page_ranges c = map (\<lambda>sp. (sp_phys sp, 1)) (sc_pages c)"

definition heap_ranges :: "'a kheap_scheme \<Rightarrow> range list" where
  "heap_ranges h = concat (map page_ranges (classes h)) @ filter (\<lambda>e. fst e \<noteq> 0) (overflow_table h) @ large_cache h"

definition page_ok :: "u32 \<Rightarrow> slab_page \<Rightarrow> bool" where
  "page_ok sz sp \<longleftrightarrow> sp_phys sp \<noteq> 0 \<and> length (sp_bitmap sp) = SLAB_BITMAP_WORDS \<and> sp_slots sp = PAGE_BYTES div sz \<and>
     unat (sp_free sp) = card {i. i < unat (sp_slots sp) \<and> \<not> slot_bit sp i}"

definition heap_ok :: "range list \<Rightarrow> 'a kheap_scheme \<Rightarrow> bool" where
  "heap_ok others h \<longleftrightarrow> kv_ok (heap_ranges h @ others) h \<and> map obj_size (classes h) = slab_sizes \<and>
     (\<forall>c \<in> set (classes h). \<forall>sp \<in> set (sc_pages c). page_ok (obj_size c) sp) \<and>
     length (overflow_table h) = MAX_OVERFLOW \<and> length (large_cache h) \<le> LARGE_CACHE_MAX \<and>
     (\<forall>r \<in> set (large_cache h). fst r \<noteq> 0)"

definition apart :: "block \<Rightarrow> block \<Rightarrow> bool" where
  "apart x y \<longleftrightarrow> fst x + snd x \<le> fst y \<or> fst y + snd y \<le> fst x"

definition range_block :: "range \<Rightarrow> block" where
  "range_block r = (unat (fst r), unat (snd r) * 4096)"

definition within :: "block \<Rightarrow> range \<Rightarrow> bool" where
  "within x r \<longleftrightarrow> unat (fst r) \<le> fst x \<and> fst x + snd x \<le> unat (fst r) + unat (snd r) * 4096"

lemma kv_apart:
  assumes "kv_ok live m" and "mset live = add_mset r (add_mset r' M)" and "within x r" and "within y r'"
    and "0 < snd x" and "0 < snd y"
  shows "apart x y"
proof (rule ccontr)
  let ?a = "max (fst x) (fst y)"
  assume "\<not> apart x y"
  then have "covers ?a r" "covers ?a r'" using assms(3-6) by (auto simp: apart_def within_def covers_def)
  moreover have "cover_count ?a (mset live + mset (kvirt_free m)) \<le> 1" using assms(1) by (simp add: kv_ok_def)
  ultimately show False by (simp add: assms(2))
qed

section \<open>One slab page\<close>

lemma slab_size_cases:
  assumes "sz \<in> set slab_sizes"
  obtains k where "k \<le> 7" and "unat sz = 2 ^ (k + 5)" and "unat (PAGE_BYTES div sz) = 2 ^ (7 - k)"
proof -
  have "\<exists>k \<le> 7. unat sz = 2 ^ (k + 5) \<and> unat (PAGE_BYTES div sz) = 2 ^ (7 - k)"
    using assms unfolding slab_sizes_def PAGE_BYTES_def
    by (auto simp: numeral_2_eq_2 [symmetric] intro: exI [of _ 0] exI [of _ 1] exI [of _ 2] exI [of _ 3] exI [of _ 4]
      exI [of _ 5] exI [of _ 6] exI [of _ 7])
  then show thesis using that by blast
qed

lemma slots_size:
  assumes "sz \<in> set slab_sizes"
  shows "unat (PAGE_BYTES div sz) * unat sz = 4096" and "unat (PAGE_BYTES div sz) \<le> 128" and "0 < unat (PAGE_BYTES div sz)"
    and "0 < unat sz"
proof -
  obtain k where k: "k \<le> 7" "unat sz = 2 ^ (k + 5)" "unat (PAGE_BYTES div sz) = 2 ^ (7 - k)"
    by (rule slab_size_cases [OF assms])
  have "(2 :: nat) ^ (7 - k) * 2 ^ (k + 5) = 2 ^ (7 - k + (k + 5))" by (simp add: power_add)
  also have "7 - k + (k + 5) = 12" using k(1) by simp
  finally show "unat (PAGE_BYTES div sz) * unat sz = 4096" using k by simp
  have "(2 :: nat) ^ (7 - k) \<le> 2 ^ 7" by (rule power_increasing) simp_all
  then show "unat (PAGE_BYTES div sz) \<le> 128" using k by simp
  show "0 < unat (PAGE_BYTES div sz)" "0 < unat sz" using k by simp_all
qed

lemma ctz_spec:
  assumes "w \<noteq> 0"
  shows "ctz w < 32" and "bit w (ctz w)" and "i < ctz w \<Longrightarrow> \<not> bit w i"
proof -
  let ?xs = "takeWhile (\<lambda>i. \<not> bit w i) [0..<32]"
  have "\<exists>i < 32. bit w i"
  proof (rule ccontr)
    assume "\<not> ?thesis"
    then have "w = 0" by (intro bit_word_eqI) (auto simp: )
    with assms show False ..
  qed
  then have "?xs \<noteq> [0..<32]" by (auto simp: takeWhile_eq_all_conv)
  moreover have "?xs = take (length ?xs) [0..<32]" by (rule takeWhile_eq_take)
  ultimately have "length ?xs < 32" by (metis length_upt linorder_not_less minus_nat.diff_0 take_all)
  then show c: "ctz w < 32" by (simp add: ctz_def)
  show "bit w (ctz w)" using nth_length_takeWhile [of "\<lambda>i. \<not> bit w i" "[0..<32]"] c by (simp add: ctz_def)
  show "\<not> bit w i" if "i < ctz w"
    using that set_takeWhileD [of i "\<lambda>i. \<not> bit w i" "[0..<32]"] takeWhile_nth [of i "\<lambda>i. \<not> bit w i" "[0..<32]"] c
      nth_mem [of i ?xs] by (auto simp: ctz_def)
qed

lemma slot_bit_update:
  assumes len: "length (sp_bitmap sp) = SLAB_BITMAP_WORDS" and w: "w < SLAB_BITMAP_WORDS" and b: "b < 32"
  shows "j < 128 \<Longrightarrow> slot_bit (sp\<lparr>sp_bitmap := (sp_bitmap sp)[w := sp_bitmap sp ! w OR push_bit b 1]\<rparr>) j \<longleftrightarrow>
      slot_bit sp j \<or> j = w * 32 + b"
    and "j < 128 \<Longrightarrow> slot_bit (sp\<lparr>sp_bitmap := (sp_bitmap sp)[w := sp_bitmap sp ! w AND NOT (push_bit b 1)]\<rparr>) j \<longleftrightarrow>
      slot_bit sp j \<and> j \<noteq> w * 32 + b"
proof -
  have pb: "bit (push_bit b 1 :: u32) n \<longleftrightarrow> n = b" for n using b bit_push_one [of b n, where 'a = 32] by simp
  have pb': "bit (2 ^ b :: u32) n \<longleftrightarrow> n = b" for n using pb [of n] by (simp add: push_bit_eq_mult)
  have e: "j = w * 32 + b \<longleftrightarrow> j div 32 = w \<and> j mod 32 = b" using b by auto
  have m: "j mod 32 < 32" by simp
  {
    assume "j < 128"
    then have "j div 32 < length (sp_bitmap sp)" using len by (simp add: SLAB_BITMAP_WORDS_def)
    then show "slot_bit (sp\<lparr>sp_bitmap := (sp_bitmap sp)[w := sp_bitmap sp ! w OR push_bit b 1]\<rparr>) j \<longleftrightarrow>
        slot_bit sp j \<or> j = w * 32 + b"
      unfolding slot_bit_def e using len w by (auto simp: nth_list_update bit_or_iff pb pb')
  }
  {
    assume "j < 128"
    then have "j div 32 < length (sp_bitmap sp)" using len by (simp add: SLAB_BITMAP_WORDS_def)
    then show "slot_bit (sp\<lparr>sp_bitmap := (sp_bitmap sp)[w := sp_bitmap sp ! w AND NOT (push_bit b 1)]\<rparr>) j \<longleftrightarrow>
        slot_bit sp j \<and> j \<noteq> w * 32 + b"
      unfolding slot_bit_def e using len w m by (auto simp: nth_list_update bit_and_iff bit_not_iff pb pb')
  }
qed

text \<open>Changing one slot's bit changes the number of free slots by one.\<close>

lemma free_slots_take:
  fixes P Q :: "nat \<Rightarrow> bool"
  assumes "i < n" and "\<not> P i" and "\<And>j. j < n \<Longrightarrow> Q j \<longleftrightarrow> P j \<or> j = i"
  shows "card {j. j < n \<and> \<not> P j} = Suc (card {j. j < n \<and> \<not> Q j})"
proof -
  have "{j. j < n \<and> \<not> P j} = insert i {j. j < n \<and> \<not> Q j}" using assms by auto
  then show ?thesis using assms by simp
qed

lemma in_slots:
  assumes "sz \<in> set slab_sizes" and "i < unat (PAGE_BYTES div sz)"
  shows "i * unat sz + unat sz \<le> 4096"
proof -
  have "Suc i * unat sz \<le> unat (PAGE_BYTES div sz) * unat sz" using assms(2) by (intro mult_le_mono1) simp
  then show ?thesis using slots_size(1) [OF assms(1)] by simp
qed

lemma slab_page_alloc_spec:
  assumes sz: "sz \<in> set slab_sizes" and ok: "page_ok sz sp" and bd: "in_bounds nxt (sp_phys sp, 1)"
    and r: "slab_page_alloc sz sp = (p, sp')"
  shows "p = 0 \<and> sp' = sp \<and> (\<forall>j < unat (sp_slots sp). slot_bit sp j) \<or>
    p \<noteq> 0 \<and> sp_phys sp' = sp_phys sp \<and> page_ok sz sp' \<and>
    (\<exists>i < unat (sp_slots sp). \<not> slot_bit sp i \<and> unat p = unat (sp_phys sp) + i * unat sz \<and>
       (\<forall>j < unat (sp_slots sp). slot_bit sp' j \<longleftrightarrow> slot_bit sp j \<or> j = i) \<and> sp_slots sp' = sp_slots sp)"
proof -
  have pg: "sp_phys sp \<noteq> 0" "length (sp_bitmap sp) = 4" "sp_slots sp = PAGE_BYTES div sz"
    "unat (sp_free sp) = card {i. i < unat (sp_slots sp) \<and> \<not> slot_bit sp i}"
    using ok by (simp_all add: page_ok_def SLAB_BITMAP_WORDS_def)
  have sl: "unat (sp_slots sp) \<le> 128" using slots_size(2) [OF sz] pg(3) by simp
  let ?P = "\<lambda>w. sp_bitmap sp ! w \<noteq> 0xFFFFFFFF \<and> of_nat (slot_in sp w) < sp_slots sp"
  have free: "slot_in sp w = w * 32 + ctz (NOT (sp_bitmap sp ! w))" "ctz (NOT (sp_bitmap sp ! w)) < 32"
    "\<not> slot_bit sp (slot_in sp w)" "\<And>i. i < ctz (NOT (sp_bitmap sp ! w)) \<Longrightarrow> slot_bit sp (w * 32 + i)"
    if "sp_bitmap sp ! w \<noteq> 0xFFFFFFFF" for w
  proof -
    have "NOT (sp_bitmap sp ! w) \<noteq> 0"
    proof
      assume "NOT (sp_bitmap sp ! w) = 0"
      then have "sp_bitmap sp ! w = NOT 0" by (metis bit.double_compl)
      also have "\<dots> = (0xFFFFFFFF :: u32)" by simp
      finally show False using that by simp
    qed
    note c = ctz_spec [OF this]
    show "slot_in sp w = w * 32 + ctz (NOT (sp_bitmap sp ! w))" by (simp add: slot_in_def)
    show "ctz (NOT (sp_bitmap sp ! w)) < 32" by (rule c(1))
    show "\<not> slot_bit sp (slot_in sp w)" using c(1,2) by (simp add: slot_in_def slot_bit_def bit_not_iff)
    show "slot_bit sp (w * 32 + i)" if "i < ctz (NOT (sp_bitmap sp ! w))" for i
      using c(1) c(3) [OF that] that by (simp add: slot_bit_def bit_not_iff)
  qed
  show ?thesis
  proof (cases "find ?P [0..<4]")
    case None
    have "slot_bit sp j" if j: "j < unat (sp_slots sp)" for j
    proof (cases "sp_bitmap sp ! (j div 32) = 0xFFFFFFFF")
      case True
      have "bit (0xFFFFFFFF :: u32) k" if "k < 32" for k
      proof -
        have "(0xFFFFFFFF :: u32) = mask 32" by (simp add: mask_eq_exp_minus_1)
        moreover have "bit (mask 32 :: u32) k" unfolding bit_mask_iff using that by simp
        ultimately show ?thesis by (simp only:)
      qed
      then show ?thesis using True by (simp add: slot_bit_def)
    next
      case False
      have jw: "j div 32 < 4" using j sl by simp
      moreover have "\<not> ?P x" if "x < 4" for x using None that by (auto simp: find_None_iff)
      ultimately have "sp_slots sp \<le> of_nat (slot_in sp (j div 32))"
        using False by (metis not_less)
      moreover have "slot_in sp (j div 32) < 128" using free(1,2) [OF False] jw by simp
      ultimately have "unat (sp_slots sp) \<le> slot_in sp (j div 32)"
        by (simp add: word_le_nat_alt unat_of_nat_small)
      then have "j mod 32 < ctz (NOT (sp_bitmap sp ! (j div 32)))"
        using j free(1) [OF False] div_mult_mod_eq [of j 32] by linarith
      from free(4) [OF False this] show ?thesis by (simp add: mult.commute)
    qed
    then show ?thesis using r None by (simp add: slab_page_alloc_def SLAB_BITMAP_WORDS_def)
  next
    case (Some w)
    then have w: "w < 4" "?P w" by (auto simp: find_Some_iff)
    note f = free [of w]
    define i where "i = slot_in sp w"
    have i128: "i < 128" using f(1,2) w by (simp add: i_def)
    then have isl: "i < unat (sp_slots sp)" using w(2) by (simp add: word_less_nat_alt unat_of_nat_small i_def)
    have le: "i * unat sz + unat sz \<le> 4096" using in_slots [OF sz] isl pg(3) by simp
    have "unat (of_nat i * sz) = i * unat sz"
      using le i128 by (simp add: unat_word_ariths unat_of_nat_small)
    moreover have "unat (sp_phys sp) + 4096 < 2 ^ 32"
      using bd unat_u32_lt [of nxt] by (simp add: in_bounds_def)
    ultimately have up: "unat (sp_phys sp + of_nat i * sz) = unat (sp_phys sp) + i * unat sz"
      using le slots_size(4) [OF sz] by (subst unat_plus_no_wrap) auto
    have ps: "p = sp_phys sp + of_nat i * sz" and
      s': "sp' = sp\<lparr>sp_bitmap := (sp_bitmap sp)[w := sp_bitmap sp ! w OR push_bit (ctz (NOT (sp_bitmap sp ! w))) 1],
              sp_free := sp_free sp - 1\<rparr>"
      using r Some by (simp_all add: slab_page_alloc_def SLAB_BITMAP_WORDS_def i_def)
    have bits: "slot_bit sp' j \<longleftrightarrow> slot_bit sp j \<or> j = i" if "j < 128" for j
      using slot_bit_update(1) [of sp w "ctz (NOT (sp_bitmap sp ! w))" j] f(1,2) w that pg(2)
      by (simp add: s' i_def SLAB_BITMAP_WORDS_def slot_bit_def)
    have card: "card {j. j < unat (sp_slots sp) \<and> \<not> slot_bit sp j} = Suc (card {j. j < unat (sp_slots sp) \<and> \<not> slot_bit sp' j})"
      by (rule free_slots_take [OF isl]) (use f(3) w bits sl in \<open>auto simp: i_def\<close>)
    then have "unat (sp_free sp - 1) = card {j. j < unat (sp_slots sp) \<and> \<not> slot_bit sp' j}"
      using pg(4) by (subst unat_minus_le) (auto simp: word_le_nat_alt)
    then have "page_ok sz sp'" using pg by (simp add: page_ok_def s' SLAB_BITMAP_WORDS_def)
    moreover have "p \<noteq> 0" using up ps pg(1) by (metis add_is_0 unat_eq_zero)
    moreover have "\<forall>j < unat (sp_slots sp). slot_bit sp' j \<longleftrightarrow> slot_bit sp j \<or> j = i" using bits sl by auto
    ultimately show ?thesis using isl f(3) w(2) up ps s' by (auto simp: i_def)
  qed
qed

lemma blocks_minus:
  fixes f :: "nat \<Rightarrow> nat"
  assumes "\<And>j. j < n \<Longrightarrow> P j \<longleftrightarrow> Q j \<and> f j \<noteq> a"
  shows "{(f j, s) | j. j < n \<and> P j} = {(f j, s) | j. j < n \<and> Q j} - {(a, s)}"
  using assms by blast

lemma blocks_plus:
  fixes f :: "nat \<Rightarrow> nat"
  assumes "i < n" and "\<And>j. j < n \<Longrightarrow> P j \<longleftrightarrow> Q j \<or> j = i"
  shows "{(f j, s) | j. j < n \<and> P j} = insert (f i, s) {(f j, s) | j. j < n \<and> Q j}"
  using assms by blast

lemma in_page_iff:
  assumes "in_bounds nxt (sp_phys sp, 1)"
  shows "in_page a sp \<longleftrightarrow> covers (unat a) (sp_phys sp, 1)"
  using range_end [OF assms] by (simp add: in_page_def covers_def PAGE_BYTES_def word_le_nat_alt word_less_nat_alt)

lemma slab_page_free_spec:
  assumes sz: "sz \<in> set slab_sizes" and ok: "page_ok sz sp" and bd: "in_bounds nxt (sp_phys sp, 1)"
    and a: "in_page a sp"
  shows "(unat a, unat sz) \<notin> page_blocks sz sp \<Longrightarrow> \<exists>msg. slab_page_free sz a sp = Inl (Panic msg)"
    and "(unat a, unat sz) \<in> page_blocks sz sp \<Longrightarrow>
      \<exists>sp'. slab_page_free sz a sp = Inr sp' \<and> sp_phys sp' = sp_phys sp \<and> page_ok sz sp' \<and>
        page_blocks sz sp' = page_blocks sz sp - {(unat a, unat sz)}"
proof -
  have pg: "sp_phys sp \<noteq> 0" "length (sp_bitmap sp) = 4" "sp_slots sp = PAGE_BYTES div sz"
    "unat (sp_free sp) = card {i. i < unat (sp_slots sp) \<and> \<not> slot_bit sp i}"
    using ok by (simp_all add: page_ok_def SLAB_BITMAP_WORDS_def)
  note ss = slots_size [OF sz]
  have sl: "unat (sp_slots sp) \<le> 128" using ss(2) pg(3) by simp
  have cov: "unat (sp_phys sp) \<le> unat a" "unat a < unat (sp_phys sp) + 4096"
    using a in_page_iff [OF bd] by (auto simp: covers_def)
  define i where "i = (unat a - unat (sp_phys sp)) div unat sz"
  have ui: "unat ((a - sp_phys sp) div sz) = i"
    using cov(1) by (simp add: i_def unat_div_distrib unat_sub word_le_nat_alt)
  have isl: "i < unat (sp_slots sp)"
    using cov ss(1,4) pg(3) by (simp add: i_def div_less_iff_less_mult)
  have le: "i * unat sz + unat sz \<le> 4096" using in_slots [OF sz] isl pg(3) by simp
  have "unat (sp_phys sp) + 4096 < 2 ^ 32"
    using bd unat_u32_lt [of nxt] by (simp add: in_bounds_def)
  moreover have us: "unat ((a - sp_phys sp) div sz * sz) = i * unat sz"
    unfolding unat_word_ariths(2) ui using le by simp
  ultimately have up: "unat (sp_phys sp + (a - sp_phys sp) div sz * sz) = unat (sp_phys sp) + i * unat sz"
    using le ss(4) by (subst unat_plus_no_wrap) auto
  have hit: "sp_phys sp + (a - sp_phys sp) div sz * sz = a \<longleftrightarrow> unat a = unat (sp_phys sp) + i * unat sz"
    using up by (metis unsigned_word_eqI)
  have idx: "j = i" if "unat a = unat (sp_phys sp) + j * unat sz" for j
    using that ss(4) by (simp add: i_def)
  have mem: "(unat a, unat sz) \<in> page_blocks sz sp \<longleftrightarrow> unat a = unat (sp_phys sp) + i * unat sz \<and> slot_bit sp i"
    using isl idx by (auto simp: page_blocks_def)
  have f: "slab_page_free sz a sp =
     (if \<not> (unat a = unat (sp_phys sp) + i * unat sz) then Inl (Panic ''kfree: misaligned pointer'')
      else if \<not> slot_bit sp i then Inl (Panic ''kfree: double free'')
      else Inr (sp\<lparr>sp_bitmap := (sp_bitmap sp)[i div 32 := sp_bitmap sp ! (i div 32) AND NOT (push_bit (i mod 32) 1)],
                   sp_free := sp_free sp + 1\<rparr>))"
    by (simp add: slab_page_free_def Let_def hit ui slot_bit_def)
  show "\<exists>msg. slab_page_free sz a sp = Inl (Panic msg)" if "(unat a, unat sz) \<notin> page_blocks sz sp"
    using that unfolding f mem by auto
  show "\<exists>sp'. slab_page_free sz a sp = Inr sp' \<and> sp_phys sp' = sp_phys sp \<and> page_ok sz sp' \<and>
        page_blocks sz sp' = page_blocks sz sp - {(unat a, unat sz)}"
    if b: "(unat a, unat sz) \<in> page_blocks sz sp"
  proof -
    define sp' where "sp' = sp\<lparr>sp_bitmap := (sp_bitmap sp)[i div 32 := sp_bitmap sp ! (i div 32) AND NOT (push_bit (i mod 32) 1)],
                   sp_free := sp_free sp + 1\<rparr>"
    have w: "i div 32 < 4" using isl sl by simp
    have bits: "slot_bit sp' j \<longleftrightarrow> slot_bit sp j \<and> j \<noteq> i" if "j < 128" for j
      using slot_bit_update(2) [of sp "i div 32" "i mod 32" j] w that pg(2)
      by (simp add: sp'_def SLAB_BITMAP_WORDS_def slot_bit_def)
    have "card {j. j < unat (sp_slots sp) \<and> \<not> slot_bit sp' j} = Suc (card {j. j < unat (sp_slots sp) \<and> \<not> slot_bit sp j})"
      by (rule free_slots_take [OF isl]) (use bits sl b mem isl in auto)
    moreover have "card {j. j < unat (sp_slots sp) \<and> \<not> slot_bit sp' j} \<le> 128"
    proof -
      have "card {j. j < unat (sp_slots sp) \<and> \<not> slot_bit sp' j} \<le> card {..<unat (sp_slots sp)}"
        by (rule card_mono) auto
      then show ?thesis using sl by simp
    qed
    ultimately have "unat (sp_free sp + 1) = card {j. j < unat (sp_slots sp) \<and> \<not> slot_bit sp' j}"
      using pg(4) by (subst unat_plus_no_wrap) auto
    then have "page_ok sz sp'" using pg by (simp add: page_ok_def sp'_def SLAB_BITMAP_WORDS_def)
    moreover have "page_blocks sz sp' = page_blocks sz sp - {(unat a, unat sz)}"
    proof -
      have s': "sp_phys sp' = sp_phys sp" "sp_slots sp' = sp_slots sp" by (simp_all add: sp'_def)
      have "slot_bit sp' j \<longleftrightarrow> slot_bit sp j \<and> unat (sp_phys sp) + j * unat sz \<noteq> unat a" if "j < unat (sp_slots sp)" for j
        using bits [of j] sl that b ss(4) unfolding mem by auto
      then show ?thesis unfolding page_blocks_def s' by (rule blocks_minus)
    qed
    moreover have "unat a = unat (sp_phys sp) + i * unat sz" "slot_bit sp i" using b unfolding mem by blast+
    then have "slab_page_free sz a sp = Inr sp'" unfolding f sp'_def by (simp only: simp_thms if_True if_False)
    moreover have "sp_phys sp' = sp_phys sp" by (simp add: sp'_def)
    ultimately show ?thesis by blast
  qed
qed

section \<open>The heap as a whole\<close>

lemma kv_ok_mset: "mset live = mset live' \<Longrightarrow> kv_ok live m \<longleftrightarrow> kv_ok live' m"
  unfolding kv_ok_def by (metis set_mset_mset)

lemma kv_ok_trans:
  "kv_ok live m \<Longrightarrow> mset live = mset live' \<Longrightarrow> kvirt_free m' = kvirt_free m \<Longrightarrow> kvirt_next m' = kvirt_next m \<Longrightarrow> kv_ok live' m'"
  using kv_ok_mset kv_ok_same by blast

lemma kv_in_bounds: "kv_ok live m \<Longrightarrow> r \<in> set live \<Longrightarrow> in_bounds (kvirt_next m) r"
  by (simp add: kv_ok_def)

definition fresh :: "range list \<Rightarrow> 'a kheap_scheme \<Rightarrow> block \<Rightarrow> bool" where
  "fresh others h x \<longleftrightarrow> (\<forall>y \<in> blocks h. apart x y) \<and> (\<forall>r \<in> set others. apart x (range_block r))"

lemma heap_okD:
  assumes "heap_ok others h"
  shows "kv_ok (heap_ranges h @ others) h" and "map obj_size (classes h) = slab_sizes"
    and "\<And>c sp. c \<in> set (classes h) \<Longrightarrow> sp \<in> set (sc_pages c) \<Longrightarrow> page_ok (obj_size c) sp"
    and "length (overflow_table h) = MAX_OVERFLOW" and "length (large_cache h) \<le> LARGE_CACHE_MAX"
    and "\<And>r. r \<in> set (large_cache h) \<Longrightarrow> fst r \<noteq> 0"
    and "\<And>c. c \<in> set (classes h) \<Longrightarrow> obj_size c \<in> set slab_sizes"
  using assms unfolding heap_ok_def by (blast, blast, blast, blast, blast, blast, metis image_eqI set_map)

lemma in_heap_ranges:
  "c \<in> set (classes h) \<Longrightarrow> sp \<in> set (sc_pages c) \<Longrightarrow> (sp_phys sp, 1) \<in> set (heap_ranges h)"
  "(v, n) \<in> set (overflow_table h) \<Longrightarrow> v \<noteq> 0 \<Longrightarrow> (v, n) \<in> set (heap_ranges h)"
  "r \<in> set (large_cache h) \<Longrightarrow> r \<in> set (heap_ranges h)"
  by (auto simp: heap_ranges_def page_ranges_def)

lemma page_block_within:
  assumes "sz \<in> set slab_sizes" and "page_ok sz sp" and "x \<in> page_blocks sz sp"
  shows "within x (sp_phys sp, 1)" and "0 < snd x"
proof -
  obtain i where x: "x = (unat (sp_phys sp) + i * unat sz, unat sz)" "i < unat (PAGE_BYTES div sz)"
    using assms(2,3) by (auto simp: page_blocks_def page_ok_def)
  show "within x (sp_phys sp, 1)" using in_slots [OF assms(1) x(2)] by (simp add: within_def x(1))
  show "0 < snd x" using slots_size(4) [OF assms(1)] by (simp add: x(1))
qed

text \<open>The blocks outside one page, and the ranges they lie in.\<close>

definition other_blocks :: "slab_class list \<Rightarrow> slab_class \<Rightarrow> slab_page list \<Rightarrow> (u32 \<times> u32) list \<Rightarrow> block set" where
  "other_blocks cs c sps ov = (\<Union>d \<in> set cs. class_blocks d) \<union> (\<Union>sp \<in> set sps. page_blocks (obj_size c) sp) \<union> large_blocks ov"

definition other_ranges :: "slab_class list \<Rightarrow> slab_page list \<Rightarrow> 'a kheap_scheme \<Rightarrow> range multiset" where
  "other_ranges cs sps h = mset (concat (map page_ranges cs)) + mset (map (\<lambda>sp. (sp_phys sp, 1)) sps) +
     mset (filter (\<lambda>e. fst e \<noteq> 0) (overflow_table h)) + mset (large_cache h)"

lemma blocks_split:
  assumes "classes h = cs1 @ c # cs2" and "sc_pages c = ps1 @ sp # ps2"
  shows "blocks h = page_blocks (obj_size c) sp \<union> other_blocks (cs1 @ cs2) c (ps1 @ ps2) (overflow_table h)"
    and "mset (heap_ranges h) = add_mset (sp_phys sp, 1) (other_ranges (cs1 @ cs2) (ps1 @ ps2) h)"
proof -
  have "class_blocks c = page_blocks (obj_size c) sp \<union> (\<Union>sp \<in> set (ps1 @ ps2). page_blocks (obj_size c) sp)"
    using assms(2) by (auto simp: class_blocks_def)
  then show "blocks h = page_blocks (obj_size c) sp \<union> other_blocks (cs1 @ cs2) c (ps1 @ ps2) (overflow_table h)"
    using assms(1) by (auto simp: blocks_def other_blocks_def)
  show "mset (heap_ranges h) = add_mset (sp_phys sp, 1) (other_ranges (cs1 @ cs2) (ps1 @ ps2) h)"
    using assms by (simp add: heap_ranges_def other_ranges_def page_ranges_def)
qed

lemma large_block_within:
  assumes "x \<in> large_blocks ov" and bd: "\<And>v n. (v, n) \<in> set ov \<Longrightarrow> v \<noteq> 0 \<Longrightarrow> in_bounds nxt (v, n)"
  obtains r where "r \<in># mset (filter (\<lambda>e. fst e \<noteq> 0) ov)" and "within x r" and "0 < snd x"
proof -
  obtain v n where v: "(v, n) \<in> set ov" "v \<noteq> 0" "x = (unat v, unat n * 4096)" using assms(1) by (auto simp: large_blocks_def)
  have "n \<noteq> 0" using bd [OF v(1,2)] by (simp add: in_bounds_def)
  then have "0 < unat n" by (simp add: unat_gt_0)
  with v show thesis by (intro that [of "(v, n)"]) (auto simp: within_def)
qed

lemma other_apart:
  assumes ok: "heap_ok others h" and cl: "classes h = cs1 @ c # cs2" and pg: "sc_pages c = ps1 @ sp # ps2"
    and x: "within x (sp_phys sp, 1)" "0 < snd x"
  shows "y \<in> other_blocks (cs1 @ cs2) c (ps1 @ ps2) (overflow_table h) \<Longrightarrow> apart x y"
    and "r \<in> set others \<Longrightarrow> apart x (range_block r)"
proof -
  note ok' = heap_okD [OF ok] and sp = blocks_split [OF cl pg]
  let ?R = "other_ranges (cs1 @ cs2) (ps1 @ ps2) h"
  have live: "mset (heap_ranges h @ others) = add_mset (sp_phys sp, 1) (?R + mset others)" by (simp add: sp(2))
  have far: "apart x y" if r: "r \<in># ?R + mset others" "within y r" "0 < snd y" for y r
  proof -
    obtain M where "?R + mset others = add_mset r M" using multi_member_split [OF r(1)] by blast
    then show ?thesis using kv_apart [OF ok'(1) _ x(1) r(2) x(2) r(3)] live by simp
  qed
  show "apart x y" if y: "y \<in> other_blocks (cs1 @ cs2) c (ps1 @ ps2) (overflow_table h)"
  proof -
    consider d sq where "d \<in> set (cs1 @ cs2)" "sq \<in> set (sc_pages d)" "y \<in> page_blocks (obj_size d) sq"
      | sq where "sq \<in> set (ps1 @ ps2)" "y \<in> page_blocks (obj_size c) sq" | "y \<in> large_blocks (overflow_table h)"
      using y unfolding other_blocks_def class_blocks_def by blast
    then show ?thesis
    proof cases
      case 1
      have d: "d \<in> set (classes h)" using 1(1) cl by auto
      note w = page_block_within [OF ok'(7) [OF d] ok'(3) [OF d 1(2)] 1(3)]
      have "(sp_phys sq, 1) \<in># ?R + mset others" using 1(1,2) by (auto simp: other_ranges_def page_ranges_def)
      from far [OF this w] show ?thesis .
    next
      case 2
      have d: "c \<in> set (classes h)" "sq \<in> set (sc_pages c)" using 2(1) cl pg by auto
      note w = page_block_within [OF ok'(7) [OF d(1)] ok'(3) [OF d] 2(2)]
      have "(sp_phys sq, 1) \<in># ?R + mset others" using 2(1) by (auto simp: other_ranges_def page_ranges_def)
      from far [OF this w] show ?thesis .
    next
      case 3
      have bd: "in_bounds (kvirt_next h) (v, n)" if "(v, n) \<in> set (overflow_table h)" "v \<noteq> 0" for v n
        using kv_in_bounds [OF ok'(1)] in_heap_ranges(2) [OF that] by simp
      obtain r where r: "r \<in># mset (filter (\<lambda>e. fst e \<noteq> 0) (overflow_table h))" "within y r" "0 < snd y"
        by (rule large_block_within [OF 3 bd]) (assumption, assumption, rule that)
      have "r \<in># ?R + mset others" using r(1) by (simp add: other_ranges_def)
      from far [OF this r(2,3)] show ?thesis .
    qed
  qed
  show "apart x (range_block r)" if "r \<in> set others"
  proof -
    have "snd r \<noteq> 0" using kv_in_bounds [OF ok'(1), of r] that by (simp add: in_bounds_def)
    then have "0 < unat (snd r)" by (simp add: unat_gt_0)
    with far [of r "range_block r"] that show ?thesis by (simp add: range_block_def within_def)
  qed
qed

text \<open>Replacing one page by another at the same address.\<close>

lemma page_change:
  assumes ok: "heap_ok others h" and cl: "classes h = cs1 @ c # cs2" and pg: "sc_pages c = ps1 @ sp # ps2"
    and sp': "sp_phys sp' = sp_phys sp" "page_ok (obj_size c) sp'"
    and h': "h' = h\<lparr>classes := cs1 @ c\<lparr>sc_pages := ps1 @ sp' # ps2\<rparr> # cs2\<rparr>"
  shows "heap_ok others h'"
    and "blocks h' = page_blocks (obj_size c) sp' \<union> other_blocks (cs1 @ cs2) c (ps1 @ ps2) (overflow_table h)"
proof -
  note ok' = heap_okD [OF ok]
  let ?c = "c\<lparr>sc_pages := ps1 @ sp' # ps2\<rparr>"
  have cl': "classes h' = cs1 @ ?c # cs2" "sc_pages ?c = ps1 @ sp' # ps2" using h' by simp_all
  note s = blocks_split [OF cl pg] and s' = blocks_split [OF cl']
  have "other_ranges (cs1 @ cs2) (ps1 @ ps2) h' = other_ranges (cs1 @ cs2) (ps1 @ ps2) h"
    by (simp add: other_ranges_def h')
  then have "mset (heap_ranges h' @ others) = mset (heap_ranges h @ others)" using s(2) s'(2) sp'(1) by simp
  then have "kv_ok (heap_ranges h' @ others) h" using ok'(1) kv_ok_mset by blast
  then have "kv_ok (heap_ranges h' @ others) h'" by (simp add: kv_ok_def h')
  moreover have "page_ok (obj_size d) sq" if "d \<in> set (classes h')" "sq \<in> set (sc_pages d)" for d sq
  proof (cases "d = ?c \<and> sq = sp'")
    case False
    have "d \<in> set (classes h) \<or> d = ?c" using that(1) cl cl' by auto
    then show ?thesis using False ok'(3) [of d sq] ok'(3) [of c sq] that(2) cl pg by auto
  qed (use sp'(2) in simp)
  ultimately show "heap_ok others h'" using ok' cl cl' h' unfolding heap_ok_def by simp
  show "blocks h' = page_blocks (obj_size c) sp' \<union> other_blocks (cs1 @ cs2) c (ps1 @ ps2) (overflow_table h)"
    unfolding s'(1) by (simp add: other_blocks_def h')
qed

lemma page_bound:
  assumes "heap_ok others h" and "c \<in> set (classes h)" and "sp \<in> set (sc_pages c)"
  shows "in_bounds (kvirt_next h) (sp_phys sp, 1)"
  using kv_in_bounds [OF heap_okD(1) [OF assms(1)]] in_heap_ranges(1) [OF assms(2,3)] by simp

text \<open>A slot taken from one page.\<close>

lemma slot_taken:
  assumes ok: "heap_ok others h" and cl: "classes h = cs1 @ c # cs2" and pg: "sc_pages c = ps1 @ sp # ps2"
    and r: "slab_page_alloc (obj_size c) sp = (p, sp')" "p \<noteq> 0"
    and h': "h' = h\<lparr>classes := cs1 @ c\<lparr>sc_pages := ps1 @ sp' # ps2\<rparr> # cs2\<rparr>"
  shows "heap_ok others h'" and "blocks h' = insert (unat p, unat (obj_size c)) (blocks h)"
    and "fresh others h (unat p, unat (obj_size c))"
proof -
  note ok' = heap_okD [OF ok]
  have c: "c \<in> set (classes h)" "sp \<in> set (sc_pages c)" using cl pg by auto
  note sz = ok'(7) [OF c(1)] and pok = ok'(3) [OF c] and bd = page_bound [OF ok c]
  obtain i where s': "sp_phys sp' = sp_phys sp" "page_ok (obj_size c) sp'" "sp_slots sp' = sp_slots sp"
    and i: "i < unat (sp_slots sp)" "\<not> slot_bit sp i" "unat p = unat (sp_phys sp) + i * unat (obj_size c)"
    and bits: "\<And>j. j < unat (sp_slots sp) \<Longrightarrow> slot_bit sp' j \<longleftrightarrow> slot_bit sp j \<or> j = i"
    using slab_page_alloc_spec [OF sz pok bd r(1)] r(2) by blast
  note ch = page_change [OF ok cl pg s'(1,2) h'] and sp = blocks_split [OF cl pg]
  show "heap_ok others h'" by (rule ch(1))
  have "page_blocks (obj_size c) sp' = insert (unat (sp_phys sp) + i * unat (obj_size c), unat (obj_size c)) (page_blocks (obj_size c) sp)"
    unfolding page_blocks_def s'(1,3) using i(1) bits by (rule blocks_plus)
  then show "blocks h' = insert (unat p, unat (obj_size c)) (blocks h)" using ch(2) sp(1) i(3) by simp
  have "i * unat (obj_size c) + unat (obj_size c) \<le> 4096" using in_slots [OF sz] i(1) pok by (simp add: page_ok_def)
  then have x: "within (unat p, unat (obj_size c)) (sp_phys sp, 1)" "0 < snd (unat p, unat (obj_size c))"
    using i(3) slots_size(4) [OF sz] by (simp_all add: within_def)
  note far = other_apart [OF ok cl pg x]
  have "apart (unat p, unat (obj_size c)) y" if y: "y \<in> page_blocks (obj_size c) sp" for y
  proof -
    obtain j where j: "y = (unat (sp_phys sp) + j * unat (obj_size c), unat (obj_size c))" "slot_bit sp j"
      using y unfolding page_blocks_def by blast
    then have "i < j \<or> j < i" using i(2) by (cases i j rule: linorder_cases) auto
    then have "Suc i * unat (obj_size c) \<le> j * unat (obj_size c) \<or> Suc j * unat (obj_size c) \<le> i * unat (obj_size c)"
      using mult_le_mono1 Suc_le_eq by blast
    then show ?thesis using i(3) j(1) by (auto simp: apart_def)
  qed
  then show "fresh others h (unat p, unat (obj_size c))" unfolding fresh_def sp(1) using far by blast
qed

lemma class_scan_spec:
  assumes "\<forall>sp \<in> set sps. page_ok sz sp \<and> in_bounds nxt (sp_phys sp, 1)" and "sz \<in> set slab_sizes"
    and "class_scan sz sps = (p, sps')"
  shows "p = 0 \<and> sps' = sps \<and> (\<forall>sp \<in> set sps. \<forall>i < unat (sp_slots sp). slot_bit sp i) \<or>
    (\<exists>ps1 sp sp' ps2. sps = ps1 @ sp # ps2 \<and> sps' = ps1 @ sp' # ps2 \<and> slab_page_alloc sz sp = (p, sp') \<and> p \<noteq> 0)"
  using assms
proof (induction sps arbitrary: p sps')
  case (Cons sp sps)
  have pk: "page_ok sz sp" "in_bounds nxt (sp_phys sp, 1)" using Cons.prems(1) by auto
  obtain q sp' where q: "(if sp_free sp = 0 then (0, sp) else slab_page_alloc sz sp) = (q, sp')" by fastforce
  show ?case
  proof (cases "q = 0")
    case False
    then have "slab_page_alloc sz sp = (q, sp')" using q by (auto split: if_splits)
    moreover have "p = q" "sps' = sp' # sps" using False q Cons.prems(3) by auto
    ultimately show ?thesis using False by (intro disjI2 exI [of _ "[]"] exI [of _ sp] exI [of _ sp'] exI [of _ sps]) simp
  next
    case True
    have full: "sp' = sp" "\<forall>i < unat (sp_slots sp). slot_bit sp i"
    proof -
      have "sp_free sp = 0 \<Longrightarrow> \<forall>i < unat (sp_slots sp). slot_bit sp i"
        using pk(1) by (auto simp: page_ok_def)
      then show "sp' = sp" "\<forall>i < unat (sp_slots sp). slot_bit sp i"
        using True q slab_page_alloc_spec [OF Cons.prems(2) pk] by (auto split: if_splits)
    qed
    obtain sps'' where rest: "class_scan sz sps = (p, sps'')" "sps' = sp # sps''"
      using Cons.prems(3) True q full(1) by (cases "class_scan sz sps") auto
    have "\<forall>sp \<in> set sps. page_ok sz sp \<and> in_bounds nxt (sp_phys sp, 1)" using Cons.prems(1) by simp
    from Cons.IH [OF this Cons.prems(2) rest(1)] show ?thesis
    proof
      assume "\<exists>ps1 sp sp' ps2. sps = ps1 @ sp # ps2 \<and> sps'' = ps1 @ sp' # ps2 \<and> slab_page_alloc sz sp = (p, sp') \<and> p \<noteq> 0"
      then obtain ps1 sq sq' ps2 where "sps = ps1 @ sq # ps2" "sps'' = ps1 @ sq' # ps2" "slab_page_alloc sz sq = (p, sq')" "p \<noteq> 0"
        by blast
      then show ?thesis using rest(2)
        by (intro disjI2 exI [of _ "sp # ps1"] exI [of _ sq] exI [of _ sq'] exI [of _ ps2]) simp
    qed (use full rest in auto)
  qed
qed simp

section \<open>What the page allocator leaves alone\<close>

lemma more_kept [simp]:
  "vmm.more (zero_page f m) = vmm.more m" "vmm.more (copy_frame f g m) = vmm.more m"
  "vmm.more (take_frame i m) = vmm.more m" "vmm.more (wr a v m) = vmm.more m"
  "vmm.more (pmm_free_frame f m) = vmm.more m" "vmm.more (vmm_unmap_page v m) = vmm.more m"
  by (simp_all add: zero_page_def copy_frame_def take_frame_def frame_set_def frame_clear_def wr_def
    pmm_free_frame_def vmm_unmap_page_def vmm_unmap_page_in_def Let_def)

lemma alloc_more: "pmm_alloc_frame_zone z m = Inr (f, m') \<Longrightarrow> vmm.more m' = vmm.more m"
  by (erule alloc_zone_cases) simp

lemma map_page_more: "vmm_map_page v p fl m = Inr m' \<Longrightarrow> vmm.more m' = vmm.more m"
  by (auto simp: vmm_map_page_def vmm_map_page_in_def get_table_def Let_def dest!: alloc_more
    elim!: bindE_InrE split: if_splits)

lemma map_frames_more: "map_frames k v m = Inr (ok, m') \<Longrightarrow> vmm.more m' = vmm.more m"
  by (induction k v m rule: map_frames.induct)
    (auto simp: pmm_alloc_frame_def dest!: alloc_more map_page_more elim!: bindE_InrE split: if_splits)

lemma take_range_more: "vmm.more (snd (take_range n m)) = vmm.more m"
  by (simp add: take_range_def Let_def split: prod.split)

lemma alloc_pages_more: "vmm_alloc_pages n m = Inr (b, m') \<Longrightarrow> vmm.more m' = vmm.more m"
  using take_range_more [of n m]
  by (auto simp: vmm_alloc_pages_def dest!: map_frames_more elim!: bindE_InrE split: if_splits prod.splits)

lemma unmap_frames_more: "vmm.more (unmap_frames k v m) = vmm.more m"
  by (induction k v m rule: unmap_frames.induct) (auto simp: Let_def)

lemma free_pages_more: "vmm.more (vmm_free_pages v n m) = vmm.more m"
  by (simp add: vmm_free_pages_def unmap_frames_more Let_def split: prod.split)

lemma heap_fields:
  assumes "vmm.more (h' :: 'a kheap_scheme) = vmm.more h"
  shows "classes h' = classes h" and "overflow_table h' = overflow_table h" and "large_cache h' = large_cache h"
  using assms by (cases h; cases h'; simp)+

lemma clear_page_kept:
  assumes "foldE (clear_word v) xs m = Inr m'"
  shows "kvirt_free m' = kvirt_free m \<and> kvirt_next m' = kvirt_next m \<and> vmm.more m' = vmm.more m"
  by (rule foldE_invariant [OF assms, of "\<lambda>m'. kvirt_free m' = kvirt_free m \<and> kvirt_next m' = kvirt_next m \<and> vmm.more m' = vmm.more m"])
    (auto simp: clear_word_def split: option.splits)

lemma alloc_pages_ok:
  assumes "kv_ok live m" and "vmm_alloc_pages n m = Inr (b, m')" and "b \<noteq> 0"
    and "unat (kvirt_next m) + unat n * 4096 < 2 ^ 32"
  shows "kv_ok ((b, n) # live) m'" and "n \<noteq> 0"
proof -
  show n: "n \<noteq> 0" using assms(2,3) by (auto simp: vmm_alloc_pages_def)
  obtain b' m1 where t: "take_range n m = (b', m1)" by fastforce
  with assms(2,3) n obtain "map_frames (unat n) b' m1 = Inr (True, m')" and "b = b'"
    by (auto simp: vmm_alloc_pages_def elim!: bindE_InrE split: if_splits)
  then show "kv_ok ((b, n) # live) m'"
    using take_range_fresh [OF assms(1) n assms(4) t] map_frames_kept kv_ok_same by metis
qed

section \<open>Growing a class\<close>

lemma new_slab_ok:
  assumes "v \<noteq> 0" and "sz \<in> set slab_sizes"
  shows "page_ok sz (new_slab v sz)" and "page_blocks sz (new_slab v sz) = {}"
    and "i < unat (PAGE_BYTES div sz) \<Longrightarrow> \<not> slot_bit (new_slab v sz) i"
proof -
  show free: "\<not> slot_bit (new_slab v sz) i" if "i < unat (PAGE_BYTES div sz)" for i
  proof -
    have "i div 32 < 4" using that slots_size(2) [OF assms(2)] by simp
    then show ?thesis by (simp add: slot_bit_def new_slab_def SLAB_BITMAP_WORDS_def)
  qed
  then have "{i. i < unat (PAGE_BYTES div sz) \<and> \<not> slot_bit (new_slab v sz) i} = {..<unat (PAGE_BYTES div sz)}" by auto
  then show "page_ok sz (new_slab v sz)" using assms(1) by (simp add: page_ok_def) (simp add: new_slab_def)
  show "page_blocks sz (new_slab v sz) = {}" using free by (auto simp: page_blocks_def) (simp add: new_slab_def)
qed

lemma slab_grow_ok:
  assumes ok: "heap_ok others h" and cl: "classes h = cs1 @ c # cs2" and r: "slab_grow (length cs1) h = Inr (b, h')"
    and fits: "unat (kvirt_next h) + 4096 < 2 ^ 32"
  shows "b \<Longrightarrow> \<exists>v. v \<noteq> 0 \<and> classes h' = cs1 @ c\<lparr>sc_pages := sc_pages c @ [new_slab v (obj_size c)]\<rparr> # cs2 \<and>
      heap_ok others h' \<and> blocks h' = blocks h \<and> overflow_table h' = overflow_table h"
    and "\<not> b \<Longrightarrow> blocks h' = blocks h"
proof -
  note ok' = heap_okD [OF ok]
  have c: "classes h ! length cs1 = c" "c \<in> set (classes h)" using cl by simp_all
  {
    assume b
    then obtain v h1 h2 where al: "vmm_alloc_pages 1 h = Inr (v, h1)" "v \<noteq> 0" and cw: "foldE (clear_word v) [0..<1024] h1 = Inr h2"
      and h': "h' = h2\<lparr>classes := (classes h2)[length cs1 := c\<lparr>sc_pages := sc_pages c @ [new_slab v (obj_size c)]\<rparr>]\<rparr>"
      using r c by (auto simp: slab_grow_def Let_def elim!: bindE_InrE split: if_splits prod.splits)
    note f2 = clear_page_kept [OF cw]
    have more: "vmm.more h2 = vmm.more h" using f2 alloc_pages_more [OF al(1)] by simp
    note fl = heap_fields [OF more]
    have cl': "classes h' = cs1 @ c\<lparr>sc_pages := sc_pages c @ [new_slab v (obj_size c)]\<rparr> # cs2"
      using h' fl(1) cl by simp
    have "kv_ok ((v, 1) # heap_ranges h @ others) h1" using alloc_pages_ok(1) [OF ok'(1) al] fits by simp
    then have kv: "kv_ok ((v, 1) # heap_ranges h @ others) h'"
      using f2 kv_ok_same [of h' h1] h' by simp
    have "mset (heap_ranges h') = add_mset (v, 1) (mset (heap_ranges h))"
      unfolding heap_ranges_def cl' cl using h' fl by (simp add: page_ranges_def new_slab_def)
    then have "mset ((v, 1) # heap_ranges h @ others) = mset (heap_ranges h' @ others)" by simp
    then have "kv_ok (heap_ranges h' @ others) h'" using kv kv_ok_mset by blast
    moreover have "page_ok (obj_size d) sp" if "d \<in> set (classes h')" "sp \<in> set (sc_pages d)" for d sp
      using that ok'(3) [of d sp] ok'(3) [of c sp] new_slab_ok(1) [OF al(2) ok'(7) [OF c(2)]] cl cl' by auto
    ultimately have "heap_ok others h'" using ok' cl cl' h' fl unfolding heap_ok_def by simp
    moreover have "blocks h' = blocks h"
      using new_slab_ok(2) [OF al(2) ok'(7) [OF c(2)]] h' fl unfolding blocks_def cl' cl
      by (auto simp: class_blocks_def)
    ultimately show "\<exists>v. v \<noteq> 0 \<and> classes h' = cs1 @ c\<lparr>sc_pages := sc_pages c @ [new_slab v (obj_size c)]\<rparr> # cs2 \<and>
      heap_ok others h' \<and> blocks h' = blocks h \<and> overflow_table h' = overflow_table h"
      using al(2) cl' h' fl by (intro exI [of _ v]) simp
  }
  show "blocks h' = blocks h" if "\<not> b"
  proof -
    have "h' = h \<or> (\<exists>v. vmm_alloc_pages 1 h = Inr (v, h'))"
      using r that c by (auto simp: slab_grow_def Let_def elim!: bindE_InrE split: if_splits prod.splits)
    then show ?thesis using heap_fields [OF alloc_pages_more] unfolding blocks_def by metis
  qed
qed

section \<open>Blocks of whole pages\<close>

lemma find_index:
  assumes "find (\<lambda>i. P (xs ! i)) [0..<length xs] = Some i"
  obtains as bs where "xs = as @ xs ! i # bs" and "length as = i" and "P (xs ! i)" and "\<forall>x \<in> set as. \<not> P x"
proof -
  have i: "i < length xs" "P (xs ! i)" "\<And>j. j < i \<Longrightarrow> \<not> P (xs ! j)"
    using assms by (auto simp: find_Some_iff)
  have "xs = take i xs @ xs ! i # drop (Suc i) xs" by (rule id_take_nth_drop [OF i(1)])
  moreover have "\<forall>x \<in> set (take i xs). \<not> P x" using i(1,3) by (auto simp: in_set_conv_nth)
  ultimately show thesis using that i by (metis length_take min.absorb2 less_imp_le)
qed

lemma find_index_None: "find (\<lambda>i. P (xs ! i)) [0..<length xs] = None \<Longrightarrow> x \<in> set xs \<Longrightarrow> \<not> P x"
  by (auto simp: find_None_iff in_set_conv_nth)

lemma cache_take_spec:
  assumes "cache_take n h = (v, h1)" and "\<forall>r \<in> set (large_cache h). fst r \<noteq> 0"
  shows "v = 0 \<and> h1 = h \<or> v \<noteq> 0 \<and> (\<exists>cache. h1 = h\<lparr>large_cache := cache\<rparr> \<and> mset (large_cache h) = add_mset (v, n) (mset cache))"
proof (cases "find (\<lambda>i. snd (large_cache h ! i) = n) [0..<length (large_cache h)]")
  case None
  then show ?thesis using assms(1) by (simp add: cache_take_def)
next
  case (Some i)
  then have i: "i < length (large_cache h)" "snd (large_cache h ! i) = n" by (auto simp: find_Some_iff)
  have h1: "v = fst (large_cache h ! i)" "h1 = h\<lparr>large_cache := swap_remove i (large_cache h)\<rparr>"
    using assms(1) Some by (simp_all add: cache_take_def)
  have "large_cache h ! i = (v, n)" using h1 i by (simp add: prod_eq_iff)
  then have "mset (large_cache h) = add_mset (v, n) (mset (swap_remove i (large_cache h)))"
    using mset_swap_remove [OF i(1)] i(1) by (metis insert_DiffM nth_mem set_mset_mset)
  moreover have "v \<noteq> 0" using assms(2) i(1) h1(1) by simp
  ultimately show ?thesis using h1 by blast
qed

text \<open>An overflow entry filled with a range that nobody has.\<close>

lemma large_taken:
  assumes ok: "heap_ok others h" and kv: "kv_ok ((v, n) # heap_ranges h' @ others) h'" and v: "v \<noteq> 0"
    and h': "classes h' = classes h" "overflow_table h' = overflow_table h" "mset (large_cache h') \<subseteq># mset (large_cache h)"
    and ov: "overflow_table h = os1 @ (0, k) # os2" and h2: "h2 = h'\<lparr>overflow_table := os1 @ (v, n) # os2\<rparr>"
    and x: "x = (unat v, unat n * 4096)"
  shows "heap_ok others h2" and "blocks h2 = insert x (blocks h)" and "fresh others h x"
proof -
  note ok' = heap_okD [OF ok]
  have "mset (heap_ranges h2) = add_mset (v, n) (mset (heap_ranges h'))"
    using h' ov h2 v by (simp add: heap_ranges_def)
  then have live: "mset (heap_ranges h2 @ others) = mset ((v, n) # heap_ranges h' @ others)" by simp
  have kv2: "kv_ok (heap_ranges h2 @ others) h2" by (rule kv_ok_trans [OF kv live [symmetric]]) (simp_all add: h2)
  have cache: "set (large_cache h2) \<subseteq> set (large_cache h)" "length (large_cache h2) \<le> length (large_cache h)"
    using h2 h'(3) set_mset_mono [OF h'(3)] size_mset_mono [OF h'(3)] by simp_all
  show ok2: "heap_ok others h2" using kv2 ok' h' h2 ov cache unfolding heap_ok_def by auto
  have lb: "large_blocks (os1 @ (v, n) # os2) = insert x (large_blocks (overflow_table h))"
    using v ov x by (auto simp: large_blocks_def)
  then show "blocks h2 = insert x (blocks h)" using h' h2 by (simp add: blocks_def)
  have n: "0 < snd x" using kv_in_bounds [OF kv, of "(v, n)"] x by (simp add: in_bounds_def unat_gt_0)
  have w: "within x (v, n)" by (simp add: within_def x)
  have far: "apart x y" if r: "r \<in> set (heap_ranges h') \<union> set others" and "within y r" "0 < snd y" for y r
  proof -
    have "r \<in># mset (heap_ranges h' @ others)" using r by auto
    then obtain M where "mset (heap_ranges h' @ others) = add_mset r M" by (meson multi_member_split)
    then have "mset ((v, n) # heap_ranges h' @ others) = add_mset (v, n) (add_mset r M)" by simp
    from kv_apart [OF kv this w that(2) n that(3)] show ?thesis .
  qed
  have bd: "in_bounds (kvirt_next h) (a, b)" if "(a, b) \<in> set (overflow_table h)" "a \<noteq> 0" for a b
    using kv_in_bounds [OF ok'(1)] in_heap_ranges(2) [OF that] by simp
  have "apart x y" if "y \<in> blocks h" for y
  proof -
    from that consider c sp where "c \<in> set (classes h)" "sp \<in> set (sc_pages c)" "y \<in> page_blocks (obj_size c) sp"
      | "y \<in> large_blocks (overflow_table h)" unfolding blocks_def class_blocks_def by blast
    then show ?thesis
    proof cases
      case 1
      note pw = page_block_within [OF ok'(7) [OF 1(1)] ok'(3) [OF 1(1,2)] 1(3)]
      have "(sp_phys sp, 1) \<in> set (heap_ranges h')" using in_heap_ranges(1) 1(1,2) h'(1) by metis
      then show ?thesis using far pw by blast
    next
      case 2
      obtain r where r: "r \<in># mset (filter (\<lambda>e. fst e \<noteq> 0) (overflow_table h))" "within y r" "0 < snd y"
        by (rule large_block_within [OF 2 bd]) (assumption, assumption, rule that)
      then have "r \<in> set (heap_ranges h')" using h'(2) by (auto simp: heap_ranges_def)
      then show ?thesis using far r by blast
    qed
  qed
  moreover have "apart x (range_block r)" if "r \<in> set others" for r
  proof -
    have "0 < unat (snd r)" using kv_in_bounds [OF kv, of r] that by (simp add: in_bounds_def unat_gt_0)
    then show ?thesis using far [of r "range_block r"] that by (simp add: range_block_def within_def)
  qed
  ultimately show "fresh others h x" by (simp add: fresh_def)
qed

lemma pages_for:
  assumes "(sz + PAGE_BYTES - 1) div PAGE_BYTES \<noteq> 0"
  shows "unat sz \<le> unat ((sz + PAGE_BYTES - 1) div PAGE_BYTES) * 4096"
proof -
  have "sz + PAGE_BYTES - 1 = sz + 4095" by (simp add: PAGE_BYTES_def)
  then have d: "unat ((sz + PAGE_BYTES - 1) div PAGE_BYTES) = unat (sz + 4095) div 4096"
    unfolding \<open>sz + PAGE_BYTES - 1 = sz + 4095\<close> by (simp add: PAGE_BYTES_def unat_div_distrib)
  have "unat (sz + 4095) = unat sz + 4095"
  proof (rule ccontr)
    assume ne: "unat (sz + 4095) \<noteq> unat sz + 4095"
    have "unat (sz + 4095) = (unat sz + 4095) mod 2 ^ 32" by (simp add: unat_word_ariths)
    moreover have "unat sz + 4095 < 2 * 2 ^ 32" using unat_u32_lt [of sz] by simp
    ultimately have "unat (sz + 4095) < 4096" using ne unat_u32_lt [of sz] by (auto simp: mod_if)
    then have "unat ((sz + PAGE_BYTES - 1) div PAGE_BYTES) = 0" using d by simp
    then show False using assms by (simp add: unat_eq_0)
  qed
  then show ?thesis unfolding d using nat_round_up [of 4096 "unat sz"] div_mult_mod_eq [of "unat sz + 4095" 4096] by simp
qed

lemma large_alloc_ok:
  assumes ok: "heap_ok others h" and r: "large_alloc sz h = Inr (p, h')"
    and fits: "unat (kvirt_next h) + unat ((sz + PAGE_BYTES - 1) div PAGE_BYTES) * 4096 < 2 ^ 32"
  shows "p \<noteq> 0 \<Longrightarrow> \<exists>n. unat sz \<le> n \<and> heap_ok others h' \<and> blocks h' = insert (unat p, n) (blocks h) \<and> fresh others h (unat p, n)"
    and "p = 0 \<Longrightarrow> blocks h' = blocks h"
proof -
  note ok' = heap_okD [OF ok]
  let ?n = "(sz + PAGE_BYTES - 1) div PAGE_BYTES"
  obtain v h1 where ct: "cache_take ?n h = (v, h1)" by fastforce
  note cs = cache_take_spec [OF ct, rule_format, OF ok'(6)]
  let ?find = "find (\<lambda>i. fst (overflow_table h ! i) = 0) [0..<MAX_OVERFLOW]"
  {
    assume p: "p \<noteq> 0"
    then obtain slot where s: "?find = Some slot" using r by (auto simp: large_alloc_def Let_def split: option.splits)
    obtain h2 where al: "(if v = 0 then vmm_alloc_pages ?n h1 else Inr (v, h1)) = Inr (p, h2)"
      and h': "h' = h2\<lparr>overflow_table := (overflow_table h2)[slot := (p, ?n)]\<rparr>"
      using r s ct p by (auto simp: large_alloc_def Let_def elim!: bindE_InrE split: if_splits)
    obtain os1 os2 where os: "overflow_table h = os1 @ overflow_table h ! slot # os2" "length os1 = slot"
      "fst (overflow_table h ! slot) = 0"
      by (rule find_index [of "\<lambda>x. fst x = 0" "overflow_table h" slot]) (use s ok'(4) in auto)
    obtain k where k: "overflow_table h = os1 @ (0, k) # os2" using os by (metis prod.collapse)
    have fl: "classes h2 = classes h \<and> overflow_table h2 = overflow_table h \<and> mset (large_cache h2) \<subseteq># mset (large_cache h) \<and>
        kv_ok ((p, ?n) # heap_ranges h2 @ others) h2"
    proof (cases "v = 0")
      case True
      then have h1: "h1 = h" and a: "vmm_alloc_pages ?n h = Inr (p, h2)" using cs al by auto
      note f = heap_fields [OF alloc_pages_more [OF a]]
      have "heap_ranges h2 = heap_ranges h" using f by (simp add: heap_ranges_def)
      then show ?thesis using alloc_pages_ok(1) [OF ok'(1) a p fits] f by simp
    next
      case False
      then obtain cache where c: "h2 = h\<lparr>large_cache := cache\<rparr>" "p = v" "mset (large_cache h) = add_mset (v, ?n) (mset cache)"
        using cs al by auto
      have "mset ((p, ?n) # heap_ranges h2 @ others) = mset (heap_ranges h @ others)" using c by (simp add: heap_ranges_def)
      from kv_ok_trans [OF ok'(1) this [symmetric], of h2] have "kv_ok ((p, ?n) # heap_ranges h2 @ others) h2" using c(1) by simp
      then show ?thesis using c by simp
    qed
    have h'2: "h' = h2\<lparr>overflow_table := os1 @ (p, ?n) # os2\<rparr>" 
    proof -
      have "(overflow_table h2)[slot := (p, ?n)] = os1 @ (p, ?n) # os2" unfolding os(2) [symmetric] using fl k by simp
      then show ?thesis using h' by simp
    qed
    note lt = large_taken [OF ok _ p _ _ _ k h'2 refl]
    have "?n \<noteq> 0" using fl kv_in_bounds [of "(p, ?n) # heap_ranges h2 @ others" h2 "(p, ?n)"] by (simp add: in_bounds_def)
    from pages_for [OF this] lt fl
    show "\<exists>n. unat sz \<le> n \<and> heap_ok others h' \<and> blocks h' = insert (unat p, n) (blocks h) \<and> fresh others h (unat p, n)"
      by blast
  }
  show "blocks h' = blocks h" if p: "p = 0"
  proof (cases ?find)
    case None
    then show ?thesis using r by (simp add: large_alloc_def Let_def)
  next
    case (Some slot)
    obtain q h2 where al: "(if v = 0 then vmm_alloc_pages ?n h1 else Inr (v, h1)) = Inr (q, h2)"
      and h': "(if q = 0 then (0, h2) else (q, h2\<lparr>overflow_table := (overflow_table h2)[slot := (q, ?n)]\<rparr>)) = (p, h')"
      using r Some ct by (auto simp: large_alloc_def Let_def elim!: bindE_InrE split: if_splits)
    have "q = 0" "h' = h2" using h' p by (auto split: if_splits)
    then have "v = 0" "vmm_alloc_pages ?n h = Inr (q, h')" using al cs by (auto split: if_splits)
    then show ?thesis using heap_fields [OF alloc_pages_more] unfolding blocks_def by metis
  qed
qed

section \<open>Allocation and release\<close>

lemma find_class_spec:
  assumes "find_class sz \<noteq> NUM_SLAB_CLASSES"
  shows "find_class sz < 8" and "sz \<le> slab_sizes ! find_class sz"
proof -
  obtain i where i: "find (\<lambda>i. sz \<le> slab_sizes ! i) [0..<8] = Some i" "find_class sz = i"
    using assms by (auto simp: find_class_def NUM_SLAB_CLASSES_def split: option.splits)
  then show "find_class sz < 8" "sz \<le> slab_sizes ! find_class sz" by (auto simp: find_Some_iff)
qed

lemma class_split:
  assumes "heap_ok others h" and "ci < 8"
  obtains cs1 c cs2 where "classes h = cs1 @ c # cs2" and "length cs1 = ci" and "obj_size c = slab_sizes ! ci"
proof -
  note m = heap_okD(2) [OF assms(1)]
  have "length (map obj_size (classes h)) = 8" unfolding m by (simp add: slab_sizes_def)
  then have l: "ci < length (classes h)" using assms(2) by simp
  have "classes h = take ci (classes h) @ classes h ! ci # drop (Suc ci) (classes h)" by (rule id_take_nth_drop [OF l])
  moreover have "obj_size (classes h ! ci) = slab_sizes ! ci" using m l by (metis nth_map)
  ultimately show thesis using that [of "take ci (classes h)" "classes h ! ci"] l by simp
qed

definition page_count :: "u32 \<Rightarrow> nat" where
  "page_count sz = (if find_class sz = NUM_SLAB_CLASSES then unat ((sz + PAGE_BYTES - 1) div PAGE_BYTES) else 1)"

text \<open>
  C2. Kernel allocation: in a well-formed heap whose page ranges do not run into the end of the
  address space, a pointer that \<open>kmalloc\<close> returns is the start of a block of at least the size
  asked for, which overlaps no block in use and no other range of kernel memory; this block is
  the only one added and the heap stays well formed. The null pointer leaves the blocks as
  they are.
\<close>
theorem kmalloc_fresh:
  assumes ok: "heap_ok others h" and r: "kmalloc sz h = Inr (p, h')"
    and fits: "unat (kvirt_next h) + page_count sz * 4096 < 2 ^ 32"
  shows "(p \<noteq> 0 \<longrightarrow> (\<exists>n. unat sz \<le> n \<and> fresh others h (unat p, n) \<and> blocks h' = insert (unat p, n) (blocks h) \<and>
      heap_ok others h')) \<and> (p = 0 \<longrightarrow> blocks h' = blocks h)"
proof (cases "sz = 0 \<or> find_class sz = NUM_SLAB_CLASSES")
  case True
  then show ?thesis
  proof
    assume "sz = 0"
    then show ?thesis using r by (simp add: kmalloc_def)
  next
    assume large: "find_class sz = NUM_SLAB_CLASSES"
    show ?thesis
    proof (cases "sz = 0")
      case False
      then have "large_alloc sz h = Inr (p, h')" using r large by (simp add: kmalloc_def Let_def)
      moreover have "unat (kvirt_next h) + unat ((sz + PAGE_BYTES - 1) div PAGE_BYTES) * 4096 < 2 ^ 32"
        using fits large by (simp add: page_count_def)
      ultimately show ?thesis using large_alloc_ok [OF ok] by blast
    qed (use r in \<open>simp add: kmalloc_def\<close>)
  qed
next
  case False
  let ?ci = "find_class sz"
  have ci: "?ci < 8" "sz \<le> slab_sizes ! ?ci" using find_class_spec False by auto
  obtain cs1 c cs2 where cl: "classes h = cs1 @ c # cs2" and l1: "length cs1 = ?ci" and os: "obj_size c = slab_sizes ! ?ci"
    by (rule class_split [OF ok ci(1)])
  have nth: "classes h ! ?ci = c" "c \<in> set (classes h)" using cl l1 nth_append_length [of cs1 c cs2] by simp_all
  have le: "unat sz \<le> unat (obj_size c)" using ci(2) os by (simp add: word_le_nat_alt)
  note slot = slot_taken [OF ok cl]
  obtain q sps where sc: "class_scan (obj_size c) (sc_pages c) = (q, sps)" by fastforce
  have sp: "set_pages ?ci sps h = h\<lparr>classes := cs1 @ c\<lparr>sc_pages := sps\<rparr> # cs2\<rparr>"
    using cl l1 nth by (simp add: set_pages_def flip: l1)
  have all: "\<forall>sp \<in> set (sc_pages c). page_ok (obj_size c) sp \<and> in_bounds (kvirt_next h) (sp_phys sp, 1)"
    using heap_okD(3) [OF ok nth(2)] page_bound [OF ok nth(2)] by blast
  from class_scan_spec [OF all heap_okD(7) [OF ok nth(2)] sc] show ?thesis
  proof
    assume "\<exists>ps1 sp sp' ps2. sc_pages c = ps1 @ sp # ps2 \<and> sps = ps1 @ sp' # ps2 \<and>
      slab_page_alloc (obj_size c) sp = (q, sp') \<and> q \<noteq> 0"
    then obtain ps1 s s' ps2 where s: "sc_pages c = ps1 @ s # ps2" "sps = ps1 @ s' # ps2"
      "slab_page_alloc (obj_size c) s = (q, s')" "q \<noteq> 0" by blast
    have "p = q" "h' = h\<lparr>classes := cs1 @ c\<lparr>sc_pages := ps1 @ s' # ps2\<rparr> # cs2\<rparr>"
      using r False sc sp nth s(2,4) by (simp_all add: kmalloc_def Let_def)
    with slot [OF s(1,3,4)] le s(4) show ?thesis by blast
  next
    assume none: "q = 0 \<and> sps = sc_pages c \<and> (\<forall>sp \<in> set (sc_pages c). \<forall>i < unat (sp_slots sp). slot_bit sp i)"
    then have h: "set_pages ?ci sps h = h" using sp cl by simp
    obtain b h1 where g: "slab_grow ?ci h = Inr (b, h1)"
      and rest: "(if \<not> b then Inr (0, h1) else let sps = sc_pages (classes h1 ! ?ci);
          (p, sp) = slab_page_alloc (obj_size (classes h1 ! ?ci)) (last sps)
        in Inr (p, set_pages ?ci (butlast sps @ [sp]) h1)) = (Inr (p, h') :: fault + _)"
      using r False sc nth none h by (auto simp: kmalloc_def Let_def elim!: bindE_InrE)
    note grow = slab_grow_ok [OF ok cl g [folded l1]]
    have f1: "unat (kvirt_next h) + 4096 < 2 ^ 32" using fits False by (simp add: page_count_def)
    show ?thesis
    proof (cases b)
      case False
      then show ?thesis using rest grow(2) [OF f1] by simp
    next
      case True
      then obtain v where v: "v \<noteq> 0" "classes h1 = cs1 @ c\<lparr>sc_pages := sc_pages c @ [new_slab v (obj_size c)]\<rparr> # cs2"
        "heap_ok others h1" "blocks h1 = blocks h" using grow(1) [OF f1] by blast
      let ?c = "c\<lparr>sc_pages := sc_pages c @ [new_slab v (obj_size c)]\<rparr>"
      have n1: "classes h1 ! ?ci = ?c" using v(2) l1 nth_append_length [of cs1 ?c cs2] by simp
      obtain s' where sa: "slab_page_alloc (obj_size c) (new_slab v (obj_size c)) = (p, s')"
        and h': "h' = set_pages ?ci (sc_pages c @ [s']) h1"
        using rest True n1 by (auto simp: Let_def split: prod.splits)
      have h'2: "h' = h1\<lparr>classes := cs1 @ ?c\<lparr>sc_pages := sc_pages c @ s' # []\<rparr> # cs2\<rparr>"
        using h' v(2) n1 by (simp add: set_pages_def flip: l1)
      have pgs: "sc_pages ?c = sc_pages c @ new_slab v (obj_size c) # []" by simp
      have sa': "slab_page_alloc (obj_size ?c) (new_slab v (obj_size c)) = (p, s')" using sa by simp
      note sl = slot_taken [OF v(3,2) pgs sa' _ h'2]
      have "p \<noteq> 0"
      proof
        assume "p = 0"
        have in1: "?c \<in> set (classes h1)" "new_slab v (obj_size c) \<in> set (sc_pages ?c)" using v(2) by simp_all
        have "\<forall>j < unat (sp_slots (new_slab v (obj_size c))). slot_bit (new_slab v (obj_size c)) j"
          using slab_page_alloc_spec [OF _ _ page_bound [OF v(3) in1] sa] heap_okD(7) [OF ok nth(2)]
            new_slab_ok(1) [OF v(1)] \<open>p = 0\<close> by blast
        then show False using new_slab_ok(3) [OF v(1) heap_okD(7) [OF ok nth(2)], of 0] slots_size(3) [OF heap_okD(7) [OF ok nth(2)]]
          by (simp add: new_slab_def)
      qed
      moreover have "fresh others h = fresh others h1" by (simp add: fresh_def v(4) fun_eq_iff)
      moreover have "obj_size ?c = obj_size c" by simp
      ultimately show ?thesis using sl v(4) le by (metis (no_types, lifting))
    qed
  qed
qed

lemma free_scan_hit:
  "\<forall>s \<in> set ps1. \<not> in_page p s \<Longrightarrow> in_page p sp \<Longrightarrow>
     free_scan sz p (ps1 @ sp # ps2) = Some (bindE (slab_page_free sz p sp) (\<lambda>sp. Inr (ps1 @ sp # ps2)))"
  by (induction ps1) (simp_all add: bindE_assoc)

lemma free_scan_miss: "\<forall>s \<in> set sps. \<not> in_page p s \<Longrightarrow> free_scan sz p sps = None"
  by (induction sps) simp_all

lemma classes_free_hit:
  "\<forall>d \<in> set cs1. \<forall>s \<in> set (sc_pages d). \<not> in_page p s \<Longrightarrow> sc_pages c = ps1 @ sp # ps2 \<Longrightarrow>
     \<forall>s \<in> set ps1. \<not> in_page p s \<Longrightarrow> in_page p sp \<Longrightarrow>
     classes_free p (cs1 @ c # cs2) =
       bindE (slab_page_free (obj_size c) p sp) (\<lambda>sp. Inr (cs1 @ c\<lparr>sc_pages := ps1 @ sp # ps2\<rparr> # cs2))"
  by (induction cs1) (simp_all add: free_scan_hit free_scan_miss bindE_assoc)

lemma classes_free_miss:
  "\<forall>d \<in> set cs. \<forall>s \<in> set (sc_pages d). \<not> in_page p s \<Longrightarrow>
     classes_free p cs = Inl (Panic ''kfree: pointer not found in any slab'')"
  by (induction cs) (simp_all add: free_scan_miss)

lemma first_page:
  assumes "\<exists>c \<in> set cs. \<exists>s \<in> set (sc_pages c). in_page p s"
  obtains cs1 c cs2 ps1 sp ps2 where "cs = cs1 @ c # cs2" and "\<forall>d \<in> set cs1. \<forall>s \<in> set (sc_pages d). \<not> in_page p s"
    and "sc_pages c = ps1 @ sp # ps2" and "\<forall>s \<in> set ps1. \<not> in_page p s" and "in_page p sp"
proof -
  obtain cs1 c cs2 where c: "cs = cs1 @ c # cs2" "\<exists>s \<in> set (sc_pages c). in_page p s"
    "\<forall>d \<in> set cs1. \<not> (\<exists>s \<in> set (sc_pages d). in_page p s)"
    using split_list_first_prop [OF assms] by blast
  obtain ps1 sp ps2 where "sc_pages c = ps1 @ sp # ps2" "in_page p sp" "\<forall>s \<in> set ps1. \<not> in_page p s"
    using split_list_first_prop [OF c(2)] by blast
  with c show thesis using that by blast
qed

lemma large_free_ok:
  assumes kv: "kv_ok ((p, k) # heap_ranges h @ others) h" and p: "p \<noteq> 0"
    and cache: "length (large_cache h) \<le> LARGE_CACHE_MAX" "\<forall>r \<in> set (large_cache h). fst r \<noteq> 0"
  shows "kv_ok (heap_ranges (large_free p k h) @ others) (large_free p k h) \<and>
    classes (large_free p k h) = classes h \<and> overflow_table (large_free p k h) = overflow_table h \<and>
    length (large_cache (large_free p k h)) \<le> LARGE_CACHE_MAX \<and> (\<forall>r \<in> set (large_cache (large_free p k h)). fst r \<noteq> 0)"
proof (cases "length (large_cache h) < LARGE_CACHE_MAX")
  case True
  then have f: "large_free p k h = h\<lparr>large_cache := large_cache h @ [(p, k)]\<rparr>" by (simp add: large_free_def)
  have "mset ((p, k) # heap_ranges h @ others) = mset (heap_ranges (large_free p k h) @ others)"
    unfolding f by (simp add: heap_ranges_def)
  from kv_ok_trans [OF kv this, of "large_free p k h"] show ?thesis using True p cache unfolding f by auto
next
  case False
  then have len: "length (large_cache h) = 8" using cache(1) by (simp add: LARGE_CACHE_MAX_def)
  obtain v n rest where vn: "large_cache h = (v, n) # rest" using len by (cases "large_cache h") auto
  obtain mid r7 where mid: "rest = mid @ [r7]" "length mid = 6" using len vn by (cases rest rule: rev_cases) auto
  let ?h = "vmm_free_pages v n h"
  note f = heap_fields [OF free_pages_more [of v n h]]
  have lf: "large_free p k h = ?h\<lparr>large_cache := r7 # mid @ [(p, k)]\<rparr>"
    using False vn mid f by (simp add: large_free_def LARGE_CACHE_MAX_def nth_append list_update_append)
  have "(v, n) \<in> set ((p, k) # heap_ranges h @ others)" using vn by (simp add: heap_ranges_def)
  note kv' = free_pages_ok [OF kv this]
  have "mset (remove1 (v, n) ((p, k) # heap_ranges h @ others)) = mset (heap_ranges (large_free p k h) @ others)"
    using f vn mid unfolding lf by (simp add: heap_ranges_def)
  from kv_ok_trans [OF kv' this, of "large_free p k h"] show ?thesis
    using f vn mid cache p unfolding lf by (auto simp: LARGE_CACHE_MAX_def)
qed

text \<open>A pointer found in the table of large blocks.\<close>

lemma large_released:
  assumes ok: "heap_ok others h" and p: "p \<noteq> 0"
    and f: "find (\<lambda>i. fst (overflow_table h ! i) = p) [0..<MAX_OVERFLOW] = Some i"
  shows "\<exists>h' m. kfree p h = Inr h' \<and> heap_ok others h' \<and> (unat p, m) \<in> blocks h \<and>
    blocks h' = blocks h - {(unat p, m)} \<and> (\<forall>n. (unat p, n) \<in> blocks h \<longrightarrow> n = m)"
proof -
  note ok' = heap_okD [OF ok]
  obtain os1 os2 where os: "overflow_table h = os1 @ overflow_table h ! i # os2" "length os1 = i" "fst (overflow_table h ! i) = p"
    by (rule find_index [of "\<lambda>x. fst x = p" "overflow_table h" i]) (use f ok'(4) in auto)
  obtain k where k: "overflow_table h = os1 @ (p, k) # os2" "overflow_table h ! i = (p, k)" using os by (metis prod.collapse)
  define h1 where "h1 = h\<lparr>overflow_table := os1 @ (0, 0) # os2\<rparr>"
  let ?x = "(unat p, unat k * 4096)" and ?h' = "large_free p k h1"
  have "(overflow_table h)[i := (0, 0)] = os1 @ (0, 0) # os2" unfolding os(2) [symmetric] k(1) by simp
  then have kf: "kfree p h = Inr ?h'" using p f k(2) by (simp add: kfree_def h1_def Let_def)
  have live: "mset (heap_ranges h @ others) = mset ((p, k) # heap_ranges h1 @ others)"
    using p unfolding heap_ranges_def h1_def k(1) by simp
  have kv: "kv_ok ((p, k) # heap_ranges h1 @ others) h1" by (rule kv_ok_trans [OF ok'(1) live]) (simp_all add: h1_def)
  have kpos: "0 < unat k" using kv_in_bounds [OF kv, of "(p, k)"] by (simp add: in_bounds_def unat_gt_0)
  have w: "within ?x (p, k)" "0 < snd ?x" using kpos by (simp_all add: within_def)
  have far: "apart ?x y" if r: "r \<in> set (heap_ranges h1)" "within y r" "0 < snd y" for y r
  proof -
    obtain M where "mset (heap_ranges h1 @ others) = add_mset r M" using r(1) multi_member_split [of r "mset (heap_ranges h1 @ others)"] by auto
    then have "mset ((p, k) # heap_ranges h1 @ others) = add_mset (p, k) (add_mset r M)" by simp
    from kv_apart [OF kv this w(1) r(2) w(2) r(3)] show ?thesis .
  qed
  have lf: "kv_ok (heap_ranges ?h' @ others) ?h'" "classes ?h' = classes h" "overflow_table ?h' = os1 @ (0, 0) # os2"
    "length (large_cache ?h') \<le> LARGE_CACHE_MAX" "\<forall>r \<in> set (large_cache ?h'). fst r \<noteq> 0"
    using large_free_ok [OF kv p] ok'(5,6) by (simp_all add: h1_def)
  have ok2: "heap_ok others ?h'" using lf ok' k(1) unfolding heap_ok_def by auto
  have only: "y = ?x" if y: "y \<in> blocks h" "fst y = unat p" for y
  proof -
    from y(1) consider c sp where "c \<in> set (classes h)" "sp \<in> set (sc_pages c)" "y \<in> page_blocks (obj_size c) sp"
      | "y \<in> large_blocks (overflow_table h)" unfolding blocks_def class_blocks_def by blast
    then show ?thesis
    proof cases
      case 1
      note pw = page_block_within [OF ok'(7) [OF 1(1)] ok'(3) [OF 1(1,2)] 1(3)]
      have "(sp_phys sp, 1) \<in> set (heap_ranges h1)" using in_heap_ranges(1) [of c h1 sp] 1(1,2) by (simp add: h1_def)
      from far [OF this pw] y(2) pw(2) kpos show ?thesis by (simp add: apart_def)
    next
      case 2
      then obtain n where n: "(p, n) \<in> set (overflow_table h)" "y = (unat p, unat n * 4096)"
        using y(2) by (auto simp: large_blocks_def dest!: unsigned_word_eqI)
      show ?thesis
      proof (cases "(p, n) \<in> set (os1 @ os2)")
        case True
        then have r: "(p, n) \<in> set (heap_ranges h1)" using p by (auto simp: heap_ranges_def h1_def)
        have "0 < unat n" using kv_in_bounds [OF kv, of "(p, n)"] r by (simp add: in_bounds_def unat_gt_0)
        with far [OF r, of y] n kpos show ?thesis by (simp add: apart_def within_def)
      qed (use n k in auto)
    qed
  qed
  have xb: "?x \<in> blocks h" using k(1) p by (force simp: blocks_def large_blocks_def)
  have nop: "p \<notin> fst ` set (os1 @ os2)"
  proof
    assume "p \<in> fst ` set (os1 @ os2)"
    then obtain e where e: "p = fst e" "e \<in> set (os1 @ os2)" by (rule imageE)
    define n where "n = snd e"
    have n: "(p, n) \<in> set (os1 @ os2)" using e by (simp add: n_def)
    then have r: "(p, n) \<in> set (heap_ranges h1)" using p by (auto simp: heap_ranges_def h1_def)
    have "0 < unat n" using kv_in_bounds [OF kv, of "(p, n)"] r by (simp add: in_bounds_def unat_gt_0)
    with far [OF r, of "(unat p, unat n * 4096)"] kpos show False by (simp add: apart_def within_def)
  qed
  have "(p, n) \<notin> set os1" "(p, n) \<notin> set os2" for n using nop by (metis Un_iff fst_conv image_eqI set_append)+
  then have "large_blocks (os1 @ (0, 0) # os2) = large_blocks (overflow_table h) - {?x}"
    unfolding k(1) large_blocks_def by (auto dest!: unsigned_word_eqI)
  moreover have "?x \<notin> (\<Union>c \<in> set (classes h). class_blocks c)"
  proof
    assume "?x \<in> (\<Union>c \<in> set (classes h). class_blocks c)"
    then obtain c sp where 1: "c \<in> set (classes h)" "sp \<in> set (sc_pages c)" "?x \<in> page_blocks (obj_size c) sp"
      unfolding class_blocks_def by blast
    note pw = page_block_within [OF ok'(7) [OF 1(1)] ok'(3) [OF 1(1,2)] 1(3)]
    have "(sp_phys sp, 1) \<in> set (heap_ranges h1)" using in_heap_ranges(1) [of c h1 sp] 1(1,2) by (simp add: h1_def)
    from far [OF this pw] kpos show False by (simp add: apart_def)
  qed
  ultimately have "blocks ?h' = blocks h - {?x}" using lf(2,3) by (auto simp: blocks_def)
  with kf ok2 xb only show ?thesis by (metis fst_conv snd_conv)
qed

text \<open>A pointer into a slab page.\<close>

lemma slab_released:
  assumes ok: "heap_ok others h" and nl: "\<And>n. (unat p, n) \<notin> large_blocks (overflow_table h)"
    and hit: "\<exists>c \<in> set (classes h). \<exists>s \<in> set (sc_pages c). in_page p s"
  shows "((\<exists>n. (unat p, n) \<in> blocks h) \<longrightarrow>
      (\<exists>cs n. classes_free p (classes h) = Inr cs \<and> heap_ok others (h\<lparr>classes := cs\<rparr>) \<and> (unat p, n) \<in> blocks h \<and>
         blocks (h\<lparr>classes := cs\<rparr>) = blocks h - {(unat p, n)} \<and> (\<forall>m. (unat p, m) \<notin> blocks (h\<lparr>classes := cs\<rparr>)))) \<and>
    ((\<forall>n. (unat p, n) \<notin> blocks h) \<longrightarrow> (\<exists>msg. classes_free p (classes h) = Inl (Panic msg)))"
proof -
  note ok' = heap_okD [OF ok]
  obtain cs1 c cs2 ps1 sp ps2 where cl: "classes h = cs1 @ c # cs2" and n1: "\<forall>d \<in> set cs1. \<forall>s \<in> set (sc_pages d). \<not> in_page p s"
    and pg: "sc_pages c = ps1 @ sp # ps2" and n2: "\<forall>s \<in> set ps1. \<not> in_page p s" and ip: "in_page p sp"
    by (rule first_page [OF hit])
  have c: "c \<in> set (classes h)" "sp \<in> set (sc_pages c)" using cl pg by auto
  note bd = page_bound [OF ok c] and sz = ok'(7) [OF c(1)] and pok = ok'(3) [OF c]
  note spf = slab_page_free_spec [OF sz pok bd ip] and bs = blocks_split [OF cl pg]
  have kf': "classes_free p (classes h) = bindE (slab_page_free (obj_size c) p sp)
      (\<lambda>sp. Inr (cs1 @ c\<lparr>sc_pages := ps1 @ sp # ps2\<rparr> # cs2))"
    unfolding cl by (rule classes_free_hit [OF n1 pg n2 ip])
  have "within (unat p, 1) (sp_phys sp, 1)" using ip unfolding in_page_iff [OF bd] by (simp add: within_def covers_def)
  note far = other_apart(1) [OF ok cl pg this, simplified]
  have other: "(unat p, n) \<in> blocks h \<longleftrightarrow> n = unat (obj_size c) \<and> (unat p, unat (obj_size c)) \<in> page_blocks (obj_size c) sp" for n
  proof
    assume b: "(unat p, n) \<in> blocks h"
    have "0 < n"
    proof -
      obtain d s where 1: "d \<in> set (classes h)" "s \<in> set (sc_pages d)" "(unat p, n) \<in> page_blocks (obj_size d) s"
        using b nl unfolding blocks_def class_blocks_def by blast
      from page_block_within(2) [OF ok'(7) [OF 1(1)] ok'(3) [OF 1(1,2)] 1(3)] show ?thesis by simp
    qed
    then have "(unat p, n) \<in> page_blocks (obj_size c) sp" using b far [of "(unat p, n)"] unfolding bs(1) by (auto simp: apart_def)
    then show "n = unat (obj_size c) \<and> (unat p, unat (obj_size c)) \<in> page_blocks (obj_size c) sp"
      by (auto simp: page_blocks_def)
  qed (simp add: bs(1))
  show ?thesis
  proof (cases "(unat p, unat (obj_size c)) \<in> page_blocks (obj_size c) sp")
    case False
    then show ?thesis using spf(1) other kf' by fastforce
  next
    case b: True
    obtain sp' where s': "slab_page_free (obj_size c) p sp = Inr sp'" "sp_phys sp' = sp_phys sp" "page_ok (obj_size c) sp'"
      "page_blocks (obj_size c) sp' = page_blocks (obj_size c) sp - {(unat p, unat (obj_size c))}"
      using spf(2) [OF b] by blast
    let ?cs = "cs1 @ c\<lparr>sc_pages := ps1 @ sp' # ps2\<rparr> # cs2"
    let ?h' = "h\<lparr>classes := ?cs\<rparr>"
    note ch = page_change [OF ok cl pg s'(2,3) refl]
    have "(unat p, unat (obj_size c)) \<notin> other_blocks (cs1 @ cs2) c (ps1 @ ps2) (overflow_table h)"
      using far [of "(unat p, unat (obj_size c))"] slots_size(4) [OF sz] by (auto simp: apart_def)
    then have bl: "blocks ?h' = blocks h - {(unat p, unat (obj_size c))}" unfolding ch(2) bs(1) s'(4) by blast
    have "classes_free p (classes h) = Inr ?cs" using kf' s'(1) by simp
    moreover have "(unat p, m) \<notin> blocks ?h'" for m using other bl by simp
    moreover have "(unat p, unat (obj_size c)) \<in> blocks h" using other b by simp
    ultimately show ?thesis using ch(1) bl by blast
  qed
qed

text \<open>
  C32. Kernel release: in a well-formed heap the pointer of a block in use is given back, which
  takes exactly this block out of use and keeps the heap well formed; any other pointer but
  the null pointer, a pointer freed before in particular, stops the kernel with a panic.
\<close>
theorem kfree_releases:
  assumes ok: "heap_ok others h"
  shows "((\<exists>n. (unat p, n) \<in> blocks h) \<longrightarrow>
      (\<exists>h' n. kfree p h = Inr h' \<and> heap_ok others h' \<and> (unat p, n) \<in> blocks h \<and> blocks h' = blocks h - {(unat p, n)} \<and>
         (\<forall>m. (unat p, m) \<notin> blocks h'))) \<and>
    ((\<forall>n. (unat p, n) \<notin> blocks h) \<longrightarrow> p \<noteq> 0 \<longrightarrow> (\<exists>msg. kfree p h = Inl (Panic msg)))"
proof (cases "p = 0")
  case True
  note ok' = heap_okD [OF ok]
  have "(unat p, n) \<notin> blocks h" for n
  proof
    assume "(unat p, n) \<in> blocks h"
    then consider c sp where "c \<in> set (classes h)" "sp \<in> set (sc_pages c)" "(unat p, n) \<in> page_blocks (obj_size c) sp"
      | "(unat p, n) \<in> large_blocks (overflow_table h)" unfolding blocks_def class_blocks_def by blast
    then show False
    proof cases
      case 1
      from page_block_within(1) [OF ok'(7) [OF 1(1)] ok'(3) [OF 1(1,2)] 1(3)] ok'(3) [OF 1(1,2)] True
      show False by (simp add: within_def page_ok_def unat_eq_0)
    qed (use True in \<open>auto simp: large_blocks_def unat_eq_0\<close>)
  qed
  then show ?thesis using True by simp
next
  case p: False
  note ok' = heap_okD [OF ok]
  show ?thesis
  proof (cases "find (\<lambda>i. fst (overflow_table h ! i) = p) [0..<MAX_OVERFLOW]")
    case (Some i)
    from large_released [OF ok p this] obtain h' m where "kfree p h = Inr h'" "heap_ok others h'" "(unat p, m) \<in> blocks h"
      "blocks h' = blocks h - {(unat p, m)}" "\<forall>n. (unat p, n) \<in> blocks h \<longrightarrow> n = m" by blast
    then show ?thesis by blast
  next
    case None
    then have kf: "kfree p h = bindE (classes_free p (classes h)) (\<lambda>cs. Inr (h\<lparr>classes := cs\<rparr>))"
      using p by (simp add: kfree_def)
    have nl: "(unat p, n) \<notin> large_blocks (overflow_table h)" for n
    proof
      assume "(unat p, n) \<in> large_blocks (overflow_table h)"
      then obtain k where "(p, k) \<in> set (overflow_table h)" by (auto simp: large_blocks_def dest!: unsigned_word_eqI)
      with find_index_None [of "\<lambda>x. fst x = p" "overflow_table h" "(p, k)"] None ok'(4) show False by simp
    qed
    show ?thesis
    proof (cases "\<exists>c \<in> set (classes h). \<exists>s \<in> set (sc_pages c). in_page p s")
      case False
      have "(unat p, n) \<notin> blocks h" for n
      proof
        assume "(unat p, n) \<in> blocks h"
        then obtain c s where 1: "c \<in> set (classes h)" "s \<in> set (sc_pages c)" "(unat p, n) \<in> page_blocks (obj_size c) s"
          using nl unfolding blocks_def class_blocks_def by blast
        from page_block_within [OF ok'(7) [OF 1(1)] ok'(3) [OF 1(1,2)] 1(3)]
        have "in_page p s" unfolding in_page_iff [OF page_bound [OF ok 1(1,2)]] by (simp add: within_def covers_def)
        then show False using False 1 by blast
      qed
      then show ?thesis using False classes_free_miss [of "classes h" p] kf by auto
    next
      case True
      from slab_released [OF ok nl True] show ?thesis using kf by fastforce
    qed
  qed
qed


section \<open>A concrete heap\<close>

definition demo_kheap :: kheap where
  "demo_kheap = \<lparr>bitmap = (\<lambda>_. 0), nframes = 4400, refcounts = (\<lambda>_. 0), pmem = (\<lambda>_. 0), kernel_dir = 0x200000,
     cr3 = 0x200000, kmap_used = 0, kvirt_next = 0xC0005000, kvirt_free = [],
     classes = \<lparr>obj_size = 32, sc_pages = [\<lparr>sp_phys = 0xC0000000, sp_slots = 128, sp_free = 127, sp_bitmap = [1, 0, 0, 0]\<rparr>]\<rparr> #
       map (\<lambda>s. \<lparr>obj_size = s, sc_pages = []\<rparr>) (tl slab_sizes),
     overflow_table = (0xC0002000, 2) # replicate 127 (0, 0), large_cache = []\<rparr>"

lemma demo_kheap_ok: "heap_ok [] demo_kheap"
proof -
  have "{i. i < (128 :: nat) \<and> \<not> bit ([1, 0, 0, 0 :: u32] ! (i div 32)) (i mod 32)} = {1..<128}"
    (is "?A = _")
  proof (rule set_eqI)
    fix i :: nat
    have "bit ([1, 0, 0, 0 :: u32] ! (i div 32)) (i mod 32) \<longleftrightarrow> i = 0" if "i < 128"
    proof (cases "i div 32 = 0")
      case False
      then have "i div 32 = 1 \<or> i div 32 = 2 \<or> i div 32 = 3" using that by auto
      then show ?thesis by (auto simp: numeral_2_eq_2 numeral_3_eq_3)
    qed (auto simp: bit_1_iff)
    then show "i \<in> ?A \<longleftrightarrow> i \<in> {1..<128}" by auto
  qed
  then show ?thesis
    by (simp add: heap_ok_def demo_kheap_def slab_sizes_def heap_ranges_def page_ranges_def kv_ok_def in_bounds_def covers_def
      KVIRT_FL_MAX_def page_ok_def heap_consts slot_bit_def)
qed

theorem kmalloc_fresh_witness:
  "case kmalloc 20 demo_kheap of
     Inr (p, h') \<Rightarrow> p = 0xC0000020 \<and> heap_ok [] h' | _ \<Rightarrow> False"
proof -
  have "case kmalloc 20 demo_kheap of Inr (p, h') \<Rightarrow> p = 0xC0000020 | _ \<Rightarrow> False" by code_simp
  then obtain h' where r: "kmalloc 20 demo_kheap = Inr (0xC0000020, h')" by (auto split: sum.splits prod.splits)
  have "page_count 20 = 1" by code_simp
  then have "unat (kvirt_next demo_kheap) + page_count 20 * 4096 < 2 ^ 32" by (simp add: demo_kheap_def)
  from kmalloc_fresh [OF demo_kheap_ok r this] r show ?thesis by auto
qed

theorem kfree_releases_witness:
  "case kfree 0xC0002000 demo_kheap of
     Inr h' \<Rightarrow> heap_ok [] h' \<and> (\<forall>m. (0xC0002000, m) \<notin> blocks h') | _ \<Rightarrow> False"
proof -
  have "(unat (0xC0002000 :: u32), 8192) \<in> blocks demo_kheap"
  proof -
    have "(0xC0002000 :: u32, 2 :: u32) \<in> set (overflow_table demo_kheap)" by (simp add: demo_kheap_def)
    then have "(unat (0xC0002000 :: u32), unat (2 :: u32) * 4096) \<in> large_blocks (overflow_table demo_kheap)"
      unfolding large_blocks_def by fastforce
    then show ?thesis by (simp add: blocks_def)
  qed
  then have "\<exists>n. (unat (0xC0002000 :: u32), n) \<in> blocks demo_kheap" ..
  from conjunct1 [OF kfree_releases [OF demo_kheap_ok], rule_format, OF this]
  obtain h' where "kfree 0xC0002000 demo_kheap = Inr h'" "heap_ok [] h'" "\<forall>m. (unat (0xC0002000 :: u32), m) \<notin> blocks h'" by blast
  then show ?thesis by simp
qed

end
