(* ===== verification/Pipe_Table.thy ===== *)
theory Pipe_Table
  imports Pipe_Ring Vfs Task_Queue
begin

text \<open>
  The table of pipes, the rest of \<open>kernel/pipe.c\<close>: the slots with their two nodes and their
  reference counts, on a state that joins the scheduler's, the tree of files and the table.
\<close>

definition PIPE_MAX :: nat where "PIPE_MAX = 16"

text \<open>
  \<open>struct pipe_entry\<close>, the struct that its pointer \<open>p\<close> refers to in place of the pointer.
  The functions \<open>slot_read[i]\<close> and \<open>slot_write[i]\<close> have the addresses \<open>2 * i\<close> and
  \<open>2 * i + 1\<close>; those of other devices lie above.
\<close>

record pipe_entry =
  pe_pipe :: "pipe option"
  pe_read :: "vptr option"
  pe_write :: "vptr option"

definition slot_read :: "nat \<Rightarrow> fnptr" where "slot_read i = 2 * i"
definition slot_write :: "nat \<Rightarrow> fnptr" where "slot_write i = 2 * i + 1"

definition free_entry :: pipe_entry where
  "free_entry = \<lparr>pe_pipe = None, pe_read = None, pe_write = None\<rparr>"

record sys = sched_state +
  sy_vfs :: vfs
  pipe_table :: "pipe_entry list"

definition set_entry :: "nat \<Rightarrow> pipe_entry \<Rightarrow> 'a sys_scheme \<Rightarrow> 'a sys_scheme" where
  "set_entry i e s = s\<lparr>pipe_table := (pipe_table s)[i := e]\<rparr>"

definition on_vfs :: "(vfs \<Rightarrow> vfs) \<Rightarrow> 'a sys_scheme \<Rightarrow> 'a sys_scheme" where
  "on_vfs f s = s\<lparr>sy_vfs := f (sy_vfs s)\<rparr>"

text \<open>The slot with a pipe that has the node as one of its ends.\<close>

definition slot_of :: "vptr \<Rightarrow> pipe_entry list \<Rightarrow> nat option" where
  "slot_of n es = find (\<lambda>i. pe_pipe (es ! i) \<noteq> None \<and> (pe_read (es ! i) = Some n \<or> pe_write (es ! i) = Some n))
     [0..<PIPE_MAX]"

text \<open>The last close of the last end frees the struct and both nodes.\<close>

definition drop_unused :: "nat \<Rightarrow> 'a sys_scheme \<Rightarrow> 'a sys_scheme" where
  "drop_unused i s =
     (let e = pipe_table s ! i in
      case pe_pipe e of
        None \<Rightarrow> s
      | Some p \<Rightarrow>
          if read_refs p = 0 \<and> write_refs p = 0 then
            let free = (\<lambda>n s. case n of None \<Rightarrow> s | Some n \<Rightarrow> on_vfs (vfs_free_node n) s)
            in set_entry i free_entry (free (pe_write e) (free (pe_read e) s))
          else s)"

definition pipe_notify_close :: "vptr \<Rightarrow> 'a sys_scheme \<Rightarrow> 'a sys_scheme" where
  "pipe_notify_close n s =
     (case slot_of n (pipe_table s) of
        None \<Rightarrow> s
      | Some i \<Rightarrow>
          let e = pipe_table s ! i; p = the (pe_pipe e);
              p' = (if pe_read e = Some n then p\<lparr>read_refs := (if read_refs p > 0 then read_refs p - 1 else 0)\<rparr>
                    else p\<lparr>write_refs := (if write_refs p > 0 then write_refs p - 1 else 0)\<rparr>)
          in drop_unused i (set_entry i (e\<lparr>pe_pipe := Some p'\<rparr>) s))"

definition pipe_fork_fd :: "vptr \<Rightarrow> 'a sys_scheme \<Rightarrow> 'a sys_scheme" where
  "pipe_fork_fd n s =
     (case slot_of n (pipe_table s) of
        None \<Rightarrow> s
      | Some i \<Rightarrow>
          let e = pipe_table s ! i; p = the (pe_pipe e);
              p' = (if pe_read e = Some n then p\<lparr>read_refs := read_refs p + 1\<rparr>
                    else p\<lparr>write_refs := write_refs p + 1\<rparr>)
          in set_entry i (e\<lparr>pe_pipe := Some p'\<rparr>) s)"

definition pipe_get_struct :: "vptr \<Rightarrow> 'a sys_scheme \<Rightarrow> pipe option" where
  "pipe_get_struct n s = Option.bind (slot_of n (pipe_table s)) (\<lambda>i. pe_pipe (pipe_table s ! i))"

text \<open>\<open>memset(p, 0, sizeof(*p))\<close> and one reference to each end.\<close>

definition new_pipe :: pipe where
  "new_pipe = \<lparr>pbuf = replicate 4096 0, head = 0, tail = 0, write_refs = 1, read_refs = 1\<rparr>"

definition pipe_end :: "u32 \<Rightarrow> fnptr option \<Rightarrow> fnptr option \<Rightarrow> vfs_node \<Rightarrow> vfs_node" where
  "pipe_end inode rd wr x = x\<lparr>v_flags := VFS_FILE OR VFS_CHARDEV, v_inode := inode, v_read_op := rd, v_write_op := wr\<rparr>"

text \<open>
  \<open>room\<close> tells whether \<open>kmalloc\<close> has memory for the struct; \<open>h1\<close> and \<open>h2\<close> are the heap at
  the two allocations of a node.
\<close>

definition pipe_create :: "bool \<Rightarrow> heap_env \<Rightarrow> heap_env \<Rightarrow> 'a sys_scheme \<Rightarrow> (vptr \<times> vptr) option \<times> 'a sys_scheme" where
  "pipe_create room h1 h2 s =
     (case find (\<lambda>i. pe_pipe (pipe_table s ! i) = None) [0..<PIPE_MAX] of
        None \<Rightarrow> (None, s)
      | Some slot \<Rightarrow>
          if \<not> room then (None, s)
          else
            let (r, v) = vfs_alloc_node h1 (sy_vfs s); (w, v) = vfs_alloc_node h2 v; s = s\<lparr>sy_vfs := v\<rparr> in
            case (r, w) of
              (Some r, Some w) \<Rightarrow>
                (Some (r, w),
                 set_entry slot \<lparr>pe_pipe = Some new_pipe, pe_read = Some r, pe_write = Some w\<rparr>
                   (on_vfs (\<lambda>v. upd_node w (pipe_end (201 + of_nat slot * 2) None (Some (slot_write slot)))
                              (upd_node r (pipe_end (200 + of_nat slot * 2) (Some (slot_read slot)) None) v)) s))
            | _ \<Rightarrow> (None, s))"

section \<open>References\<close>

text \<open>The descriptors of a task that are open on a node, and those of several tasks.\<close>

definition refs_in :: "vptr \<Rightarrow> vfs_fd list \<Rightarrow> nat" where
  "refs_in n xs = length (filter (\<lambda>f. fd_open f \<and> fd_node f = Some n) xs)"

definition refs :: "tptr list \<Rightarrow> vptr \<Rightarrow> 'a sched_state_scheme \<Rightarrow> nat" where
  "refs ts n s = (\<Sum>t \<leftarrow> ts. refs_in n (fds (task_at s t)))"

text \<open>Every pipe's counts are the numbers of descriptors; no node is an end twice.\<close>

definition entry_ends :: "pipe_entry \<Rightarrow> vptr list" where
  "entry_ends e = (if pe_pipe e = None then [] else
     (case pe_read e of Some r \<Rightarrow> [r] | None \<Rightarrow> []) @ (case pe_write e of Some w \<Rightarrow> [w] | None \<Rightarrow> []))"

definition refs_match :: "(vptr \<Rightarrow> nat) \<Rightarrow> pipe_entry \<Rightarrow> bool" where
  "refs_match k e \<longleftrightarrow> (case pe_pipe e of
       None \<Rightarrow> True
     | Some p \<Rightarrow> (\<exists>r w. pe_read e = Some r \<and> pe_write e = Some w \<and>
         unat (read_refs p) = k r \<and> unat (write_refs p) = k w \<and> k r + k w > 0))"

definition pipes_ok :: "(vptr \<Rightarrow> nat) \<Rightarrow> 'a sys_scheme \<Rightarrow> bool" where
  "pipes_ok k s \<longleftrightarrow> length (pipe_table s) = PIPE_MAX \<and> distinct (concat (map entry_ends (pipe_table s))) \<and>
     (\<forall>e \<in> set (pipe_table s). refs_match k e)"

lemma match_cong: "(\<And>x. x \<in> set (entry_ends e) \<Longrightarrow> k x = k' x) \<Longrightarrow> refs_match k e \<longleftrightarrow> refs_match k' e"
  by (cases "pe_pipe e"; cases "pe_read e"; cases "pe_write e") (auto simp: refs_match_def entry_ends_def)

lemma match_upd [simp]: "n \<notin> set (entry_ends e) \<Longrightarrow> refs_match (k(n := x)) e \<longleftrightarrow> refs_match k e"
  by (rule match_cong) auto

lemma matchE:
  assumes "refs_match k e" and "pe_pipe e = Some p"
  obtains r w where "pe_read e = Some r" and "pe_write e = Some w" and "unat (read_refs p) = k r"
    and "unat (write_refs p) = k w" and "k r + k w > 0" and "entry_ends e = [r, w]"
  using assms by (auto simp: refs_match_def entry_ends_def)

lemma slot_ofE:
  assumes "slot_of n (pipe_table s) = Some i" and "pipes_ok k s"
  obtains as e bs p where "pipe_table s = as @ e # bs" and "length as = i" and "pe_pipe e = Some p"
    and "n \<in> set (entry_ends e)" and "refs_match k e" and "\<forall>e' \<in> set (as @ bs). n \<notin> set (entry_ends e') \<and> refs_match k e'"
    and "distinct (entry_ends e)" and "pipe_table s ! i = e"
proof -
  have len: "length (pipe_table s) = PIPE_MAX" and dist: "distinct (concat (map entry_ends (pipe_table s)))"
    and cnt: "\<forall>e \<in> set (pipe_table s). refs_match k e" using assms(2) by (simp_all add: pipes_ok_def)
  let ?e = "pipe_table s ! i"
  have i: "i < length (pipe_table s)" and p: "pe_pipe ?e \<noteq> None" and n: "pe_read ?e = Some n \<or> pe_write ?e = Some n"
    using assms(1) len unfolding slot_of_def by (auto simp: find_Some_iff)
  have split: "pipe_table s = take i (pipe_table s) @ ?e # drop (Suc i) (pipe_table s)" by (rule id_take_nth_drop [OF i])
  obtain q where q: "pe_pipe ?e = Some q" using p by auto
  have ce: "refs_match k ?e" using cnt i by simp
  have ne: "n \<in> set (entry_ends ?e)" using n q by (auto simp: entry_ends_def split: option.split)
  have "distinct (concat (map entry_ends (take i (pipe_table s) @ ?e # drop (Suc i) (pipe_table s))))"
    using dist split by simp
  then have d: "distinct (entry_ends ?e)" "\<forall>e' \<in> set (take i (pipe_table s) @ drop (Suc i) (pipe_table s)). n \<notin> set (entry_ends e')"
    using ne by auto
  have "\<forall>e' \<in> set (take i (pipe_table s) @ drop (Suc i) (pipe_table s)). refs_match k e'"
    using cnt by (auto dest: in_set_takeD in_set_dropD)
  then show thesis
    using that [of "take i (pipe_table s)" ?e "drop (Suc i) (pipe_table s)" q] split q ne ce d i by auto
qed

lemma slot_of_None:
  assumes "slot_of n (pipe_table s) = None" and "length (pipe_table s) = PIPE_MAX" and "e \<in> set (pipe_table s)"
  shows "n \<notin> set (entry_ends e)"
proof -
  obtain i where i: "i < PIPE_MAX" "pipe_table s ! i = e" using assms(2,3) by (auto simp: in_set_conv_nth)
  then have "pe_pipe e = None \<or> pe_read e \<noteq> Some n \<and> pe_write e \<noteq> Some n"
    using assms(1) by (auto simp: slot_of_def find_None_iff)
  then show ?thesis by (auto simp: entry_ends_def split: option.split)
qed

text \<open>Replacing one entry by one whose counts are right, with the same ends or none.\<close>

lemma pipes_ok_update:
  assumes ok: "pipes_ok k s" and es: "pipe_table s = as @ e # bs" "length as = i"
    and other: "\<forall>e' \<in> set (as @ bs). n \<notin> set (entry_ends e')"
    and e': "refs_match (k(n := x)) e'" "entry_ends e' = entry_ends e \<or> entry_ends e' = []"
    and s': "pipe_table s' = (pipe_table s)[i := e']"
  shows "pipes_ok (k(n := x)) s'"
proof -
  have t: "pipe_table s' = as @ e' # bs" using s' es by (metis list_update_length)
  have dist: "distinct (concat (map entry_ends (as @ e # bs)))" using ok es by (simp add: pipes_ok_def)
  have "refs_match (k(n := x)) f" if "f \<in> set (as @ bs)" for f
    using ok es that other by (auto simp: pipes_ok_def)
  moreover have "distinct (concat (map entry_ends (as @ e' # bs)))" using dist e'(2) by auto
  ultimately show ?thesis using ok es e'(1) unfolding pipes_ok_def t by auto
qed

lemma fork_fd_counts:
  assumes ok: "pipes_ok k s" and room: "k n < 255"
  shows "pipes_ok (k(n := k n + 1)) (pipe_fork_fd n s)"
proof (cases "slot_of n (pipe_table s)")
  case None
  then have "n \<notin> set (entry_ends e)" if "e \<in> set (pipe_table s)" for e
    using slot_of_None that ok by (auto simp: pipes_ok_def)
  then have "refs_match (k(n := k n + 1)) e" if "e \<in> set (pipe_table s)" for e
    using ok that match_upd by (auto simp: pipes_ok_def)
  then show ?thesis using ok None by (simp add: pipe_fork_fd_def pipes_ok_def)
next
  case (Some i)
  obtain as e bs p where e: "pipe_table s = as @ e # bs" "length as = i" "pe_pipe e = Some p" "n \<in> set (entry_ends e)"
    "refs_match k e" "\<forall>e' \<in> set (as @ bs). n \<notin> set (entry_ends e') \<and> refs_match k e'" "distinct (entry_ends e)" "pipe_table s ! i = e"
    by (rule slot_ofE [OF Some ok])
  obtain r w where rw: "pe_read e = Some r" "pe_write e = Some w" "unat (read_refs p) = k r" "unat (write_refs p) = k w"
    "k r + k w > 0" "entry_ends e = [r, w]" by (rule matchE [OF e(5,3)])
  have inc: "unat (x + 1 :: u8) = unat x + 1" if "unat x < 255" for x
    using that by (subst unat_plus_no_wrap) auto
  let ?p = "if pe_read e = Some n then p\<lparr>read_refs := read_refs p + 1\<rparr> else p\<lparr>write_refs := write_refs p + 1\<rparr>"
  have s': "pipe_table (pipe_fork_fd n s) = (pipe_table s)[i := e\<lparr>pe_pipe := Some ?p\<rparr>]"
    using Some e by (simp add: pipe_fork_fd_def set_entry_def Let_def)
  have ends: "entry_ends (e\<lparr>pe_pipe := Some ?p\<rparr>) = entry_ends e" using e(3) by (simp add: entry_ends_def)
  have "refs_match (k(n := k n + 1)) (e\<lparr>pe_pipe := Some ?p\<rparr>)"
    using rw e(4,7) room inc by (auto simp: refs_match_def)
  from pipes_ok_update [OF ok e(1,2) _ this _ s'] e(6) ends show ?thesis by blast
qed

lemma notify_close_counts:
  assumes ok: "pipes_ok k s" and pos: "k n > 0"
  shows "pipes_ok (k(n := k n - 1)) (pipe_notify_close n s)"
proof (cases "slot_of n (pipe_table s)")
  case None
  then have "n \<notin> set (entry_ends e)" if "e \<in> set (pipe_table s)" for e
    using slot_of_None that ok by (auto simp: pipes_ok_def)
  then have "refs_match (k(n := k n - 1)) e" if "e \<in> set (pipe_table s)" for e
    using ok that match_upd by (auto simp: pipes_ok_def)
  then show ?thesis using ok None by (simp add: pipe_notify_close_def pipes_ok_def)
next
  case (Some i)
  obtain as e bs p where e: "pipe_table s = as @ e # bs" "length as = i" "pe_pipe e = Some p" "n \<in> set (entry_ends e)"
    "refs_match k e" "\<forall>e' \<in> set (as @ bs). n \<notin> set (entry_ends e') \<and> refs_match k e'" "distinct (entry_ends e)" "pipe_table s ! i = e"
    by (rule slot_ofE [OF Some ok])
  obtain r w where rw: "pe_read e = Some r" "pe_write e = Some w" "unat (read_refs p) = k r" "unat (write_refs p) = k w"
    "k r + k w > 0" "entry_ends e = [r, w]" by (rule matchE [OF e(5,3)])
  have dec: "unat (x - 1 :: u8) = unat x - 1" "x > 0" if "unat x > 0" for x
    using that unat_minus_le [of 1 x] by (simp_all add: word_le_nat_alt word_less_nat_alt)
  define p' where "p' = (if pe_read e = Some n then p\<lparr>read_refs := (if read_refs p > 0 then read_refs p - 1 else 0)\<rparr>
                    else p\<lparr>write_refs := (if write_refs p > 0 then write_refs p - 1 else 0)\<rparr>)"
  have refs': "unat (read_refs p') = (k(n := k n - 1)) r" "unat (write_refs p') = (k(n := k n - 1)) w"
    using rw e(4,7) pos dec by (auto simp: p'_def)
  define s1 where "s1 = set_entry i (e\<lparr>pe_pipe := Some p'\<rparr>) s"
  have nc: "pipe_notify_close n s = drop_unused i s1"
    using Some e by (simp add: pipe_notify_close_def s1_def p'_def Let_def)
  have t1: "pipe_table s1 = (pipe_table s)[i := e\<lparr>pe_pipe := Some p'\<rparr>]" by (simp add: s1_def set_entry_def)
  have i: "i < length (pipe_table s)" using e(1,2) by simp
  show ?thesis
  proof (cases "read_refs p' = 0 \<and> write_refs p' = 0")
    case True
    have s': "pipe_table (drop_unused i s1) = (pipe_table s)[i := free_entry]"
      using True i rw by (simp add: drop_unused_def t1 set_entry_def on_vfs_def Let_def)
    have "refs_match (k(n := k n - 1)) free_entry" "entry_ends free_entry = []"
      by (simp_all add: refs_match_def entry_ends_def free_entry_def)
    from pipes_ok_update [OF ok e(1,2) _ this(1) _ s'] this(2) e(6) nc show ?thesis by auto
  next
    case False
    have s': "pipe_table (drop_unused i s1) = (pipe_table s)[i := e\<lparr>pe_pipe := Some p'\<rparr>]"
      using False i by (auto simp: drop_unused_def t1 Let_def)
    have "unat (read_refs p') + unat (write_refs p') > 0" using False by (auto simp: unat_gt_0)
    then have "refs_match (k(n := k n - 1)) (e\<lparr>pe_pipe := Some p'\<rparr>)"
      using rw refs' by (simp add: refs_match_def)
    moreover have "entry_ends (e\<lparr>pe_pipe := Some p'\<rparr>) = entry_ends e" using e(3) by (simp add: entry_ends_def)
    ultimately show ?thesis using pipes_ok_update [OF ok e(1,2) _ _ _ s'] e(6) nc by auto
  qed
qed

lemma create_counts:
  assumes ok: "pipes_ok k s" and r: "pipe_create room h1 h2 s = (Some (r, w), s')" and new: "r \<noteq> w"
    "\<forall>e \<in> set (pipe_table s). r \<notin> set (entry_ends e) \<and> w \<notin> set (entry_ends e)"
  shows "pipes_ok (k(r := 1, w := 1)) s'"
proof -
  obtain i where i: "find (\<lambda>i. pe_pipe (pipe_table s ! i) = None) [0..<PIPE_MAX] = Some i"
    and t: "pipe_table s' = (pipe_table s)[i := \<lparr>pe_pipe = Some new_pipe, pe_read = Some r, pe_write = Some w\<rparr>]"
    using r by (auto simp: pipe_create_def set_entry_def on_vfs_def Let_def split: option.splits if_splits prod.splits)
  let ?e = "\<lparr>pe_pipe = Some new_pipe, pe_read = Some r, pe_write = Some w\<rparr>"
  have len: "length (pipe_table s) = PIPE_MAX" using ok by (simp add: pipes_ok_def)
  have i': "i < length (pipe_table s)" "pe_pipe (pipe_table s ! i) = None" using i len by (auto simp: find_Some_iff)
  have split: "pipe_table s = take i (pipe_table s) @ pipe_table s ! i # drop (Suc i) (pipe_table s)"
    by (rule id_take_nth_drop [OF i'(1)])
  define as bs where "as = take i (pipe_table s)" and "bs = drop (Suc i) (pipe_table s)"
  have es: "pipe_table s = as @ pipe_table s ! i # bs" "pipe_table s' = as @ ?e # bs"
    using split t i'(1) by (simp_all add: as_def bs_def upd_conv_take_nth_drop)
  have em: "entry_ends (pipe_table s ! i) = []" using i'(2) by (simp add: entry_ends_def)
  have dist: "distinct (concat (map entry_ends (as @ bs)))"
    using ok es(1) em unfolding pipes_ok_def by (metis append_Nil concat.simps(2) concat_append list.simps(9) map_append)
  have sub: "set (as @ bs) \<subseteq> set (pipe_table s)" 
  proof -
    have "set (pipe_table s) = set (as @ pipe_table s ! i # bs)" using es(1) by (rule arg_cong)
    then show ?thesis by auto
  qed
  then have off: "r \<notin> set (entry_ends f)" "w \<notin> set (entry_ends f)" if "f \<in> set (as @ bs)" for f using new(2) that by auto
  have ends: "entry_ends ?e = [r, w]" by (simp add: entry_ends_def)
  have "distinct (concat (map entry_ends (as @ ?e # bs)))" using dist off new(1) ends by auto
  moreover have "refs_match (k(r := 1, w := 1)) f" if f: "f \<in> set (as @ ?e # bs)" for f
  proof (cases "f = ?e")
    case True
    then show ?thesis using new(1) by (simp add: refs_match_def new_pipe_def)
  next
    case False
    then have g: "f \<in> set (as @ bs)" using f by auto
    then have "refs_match k f" using ok sub by (auto simp: pipes_ok_def)
    moreover have "(k(r := 1, w := 1)) x = k x" if "x \<in> set (entry_ends f)" for x using off [OF g] that by auto
    ultimately show ?thesis using match_cong [of f "k(r := 1, w := 1)" k] by blast
  qed
  ultimately show ?thesis using len t unfolding pipes_ok_def es(2) [symmetric] by simp
qed

end
