(* ===== verification/Syscall_Fd.thy ===== *)
theory Syscall_Fd
  imports Pipe_Table
begin

text \<open>
  The system calls on open files, \<open>kernel/syscall.c\<close>. A call is a function of its register
  arguments; the running task comes from the scheduler's state. A call returns, or halts the
  processor to wait: then what remains to be done when it goes on is part of the result.
\<close>

section \<open>User memory and results\<close>

text \<open>What a call stores through its pointer argument.\<close>

datatype user_out = No_out | Out_bytes "u8 list" | Out_ints "int list" | Out_stat "u32 \<times> u8 \<times> u32"
  | Out_dirent string u32 u8 | Out_path string

text \<open>
  A waiting call: a read of a pipe starts over, a write goes on with the bytes not yet
  written, \<open>waitpid\<close> looks again whether the child is gone.
\<close>

datatype waiting = In_read nat vptr u32 u32 bool | In_write nat vptr u32 "u8 list" nat | In_waitpid u32 bool | In_yield

datatype 's sysret = Ret int user_out 's | Halted waiting 's

text \<open>
  What the calls get from elsewhere: user memory (strings, bytes, the arrays of strings), the
  devices and filesystem drivers, the heap at each allocation, the block devices.
\<close>

record sys_env =
  se_str :: "u32 \<Rightarrow> string"
  se_bytes :: "u32 \<Rightarrow> u32 \<Rightarrow> u8 list"
  se_dev :: dev_fns
  se_drv :: drivers
  se_heap :: heap_env
  se_heap2 :: heap_env
  se_room :: "u32 \<Rightarrow> bool"
  se_blkdev :: "string \<Rightarrow> u32 option"

text \<open>\<open>running_task\<close> is used without a check.\<close>

definition cur :: "'a sys_scheme \<Rightarrow> (tptr \<Rightarrow> fault + 'b) \<Rightarrow> fault + 'b" where
  "cur s f = (case running_task s of None \<Rightarrow> Inl NullDeref | Some r \<Rightarrow> f r)"

definition fail :: "'s \<Rightarrow> fault + 's sysret" where
  "fail s = Inr (Ret (-1) No_out s)"

definition ret :: "int \<Rightarrow> 's \<Rightarrow> fault + 's sysret" where
  "ret n s = Inr (Ret n No_out s)"

text \<open>\<open>fd < 0 || fd >= VFS_FD_MAX\<close>.\<close>

definition fd_index :: "u32 \<Rightarrow> nat option" where
  "fd_index w = (if sint w < 0 \<or> sint w \<ge> int VFS_FD_MAX then None else Some (nat (sint w)))"

abbreviation fd_at :: "'a sched_state_scheme \<Rightarrow> tptr \<Rightarrow> nat \<Rightarrow> vfs_fd" where
  "fd_at s r i \<equiv> fds (task_at s r) ! i"

definition set_fd :: "tptr \<Rightarrow> nat \<Rightarrow> (vfs_fd \<Rightarrow> vfs_fd) \<Rightarrow> 'a sched_state_scheme \<Rightarrow> 'a sched_state_scheme" where
  "set_fd r i f s = set_task r (\<lambda>t. t\<lparr>fds := (fds t)[i := f (fds t ! i)]\<rparr>) s"

abbreviation file_node :: "'a sys_scheme \<Rightarrow> vptr \<Rightarrow> vfs_node" where
  "file_node s n \<equiv> node_at (sy_vfs s) n"

section \<open>Reading and writing\<close>

text \<open>A node's read function, the functions of the pipes' slots included.\<close>

datatype ('r, 's) io = Done 'r 's | Waits 's

definition set_pipe :: "nat \<Rightarrow> pipe \<Rightarrow> 'a sys_scheme \<Rightarrow> 'a sys_scheme" where
  "set_pipe i p s = set_entry i ((pipe_table s ! i)\<lparr>pe_pipe := Some p\<rparr>) s"

definition node_read :: "dev_fns \<Rightarrow> bool \<Rightarrow> vptr \<Rightarrow> u32 \<Rightarrow> u32 \<Rightarrow> 'a sys_scheme \<Rightarrow> fault + (u8 list, 'a sys_scheme) io" where
  "node_read d nb n offset len s =
     (case v_read_op (file_node s n) of
        Some f \<Rightarrow>
          if is_chardev (sy_vfs s) n \<and> f < slot_read PIPE_MAX \<and> even f then
            (case pe_pipe (pipe_table s ! (f div 2)) of
               None \<Rightarrow> Inl NullDeref
             | Some p \<Rightarrow>
                 (case pipe_read nb len p of
                    Read_returns bs p \<Rightarrow> Inr (Done bs (set_pipe (f div 2) p s))
                  | Read_waits p \<Rightarrow> Inr (Waits (set_pipe (f div 2) p s))))
          else Inr (Done (vfs_read d (sy_vfs s) (Some n) offset len) s)
      | None \<Rightarrow> Inr (Done (vfs_read d (sy_vfs s) (Some n) offset len) s))"

text \<open>A write to a pipe, the first time or (with the count of bytes written) when it goes on.\<close>

definition node_write :: "dev_fns \<Rightarrow> heap_env \<Rightarrow> nat option \<Rightarrow> vptr \<Rightarrow> u32 \<Rightarrow> u8 list \<Rightarrow> 'a sys_scheme \<Rightarrow>
    fault + (u32, (u8 list \<times> nat) option \<times> 'a sys_scheme) io" where
  "node_write d h cont n offset bs s =
     (case v_write_op (file_node s n) of
        Some f \<Rightarrow>
          if is_chardev (sy_vfs s) n \<and> f < slot_read PIPE_MAX \<and> odd f then
            (case pe_pipe (pipe_table s ! (f div 2)) of
               None \<Rightarrow> Inl NullDeref
             | Some p \<Rightarrow>
                 (case (case cont of None \<Rightarrow> pipe_write bs p | Some written \<Rightarrow> pipe_write_loop bs written p) of
                    Write_returns k p \<Rightarrow> Inr (Done k (None, set_pipe (f div 2) p s))
                  | Write_waits rest written p \<Rightarrow> Inr (Waits (Some (rest, written), set_pipe (f div 2) p s))))
          else bindE (vfs_write d h (Some n) offset bs (sy_vfs s)) (\<lambda>(k, v). Inr (Done k (None, s\<lparr>sy_vfs := v\<rparr>)))
      | None \<Rightarrow> bindE (vfs_write d h (Some n) offset bs (sy_vfs s)) (\<lambda>(k, v). Inr (Done k (None, s\<lparr>sy_vfs := v\<rparr>))))"

text \<open>
  The read itself and what follows it; \<open>track\<close> tells whether the descriptor's offset
  advances. The descriptor is a pointer into the task, so it is read again afterwards.
\<close>

definition read_step :: "sys_env \<Rightarrow> tptr \<Rightarrow> nat \<Rightarrow> vptr \<Rightarrow> u32 \<Rightarrow> u32 \<Rightarrow> bool \<Rightarrow> 'a sys_scheme \<Rightarrow> fault + 'a sys_scheme sysret" where
  "read_step env r i n offset len track s =
     bindE (node_read (se_dev env) (read_nonblock (task_at s r)) n offset len s) (\<lambda>io.
       case io of
         Done bs s \<Rightarrow>
           (let s = set_task r (\<lambda>t. t\<lparr>read_nonblock := False\<rparr>) s;
                k = of_nat (length bs);
                s = (if track then set_fd r i (\<lambda>f. f\<lparr>fd_offset := fd_offset f + k\<rparr>) s else s)
            in Inr (Ret (sint k) (Out_bytes bs) s))
       | Waits s \<Rightarrow> Inr (Halted (In_read i n offset len track) (set_task r (\<lambda>t. t\<lparr>blocking := True\<rparr>) s)))"

definition write_step :: "sys_env \<Rightarrow> tptr \<Rightarrow> nat \<Rightarrow> vptr \<Rightarrow> u32 \<Rightarrow> nat option \<Rightarrow> u8 list \<Rightarrow> 'a sys_scheme \<Rightarrow>
    fault + 'a sys_scheme sysret" where
  "write_step env r i n offset cont bs s =
     bindE (node_write (se_dev env) (se_heap env) cont n offset bs s) (\<lambda>io.
       case io of
         Done k (_, s) \<Rightarrow> ret (sint k) (set_fd r i (\<lambda>f. f\<lparr>fd_offset := offset + k\<rparr>) s)
       | Waits (rest, s) \<Rightarrow>
           (case rest of
              None \<Rightarrow> Inl BadAccess
            | Some (rest, written) \<Rightarrow>
                Inr (Halted (In_write i n offset rest written) (set_task r (\<lambda>t. t\<lparr>blocking := True\<rparr>) s))))"

definition sys_read :: "sys_env \<Rightarrow> u32 \<Rightarrow> u32 \<Rightarrow> u32 \<Rightarrow> 'a sys_scheme \<Rightarrow> fault + 'a sys_scheme sysret" where
  "sys_read env fd buf len s =
     (case fd_index fd of
        None \<Rightarrow> fail s
      | Some i \<Rightarrow> cur s (\<lambda>r.
          case (fd_open (fd_at s r i), fd_node (fd_at s r i)) of
            (True, Some n) \<Rightarrow>
              (let fl = v_flags (file_node s n);
                   s' = (if fd_nonblock (fd_at s r i) then set_task r (\<lambda>t. t\<lparr>read_nonblock := True\<rparr>) s else s)
               in if fl AND VFS_CHARDEV \<noteq> 0 \<and> fl AND VFS_FILE = 0 then
                    (if \<not> user_access_ok buf len \<or> len > 4096 then fail s
                     else read_step env r i n 0 len False s')
                  else if fl AND (VFS_FILE OR VFS_CHARDEV) \<noteq> 0 then
                    (if \<not> user_access_ok buf len \<or> len > 65536 then fail s
                     else read_step env r i n (fd_offset (fd_at s r i)) len True s')
                  else fail s)
          | _ \<Rightarrow> fail s))"

definition sys_read_nb :: "sys_env \<Rightarrow> u32 \<Rightarrow> u32 \<Rightarrow> u32 \<Rightarrow> 'a sys_scheme \<Rightarrow> fault + 'a sys_scheme sysret" where
  "sys_read_nb env fd buf len s =
     (case fd_index fd of
        None \<Rightarrow> fail s
      | Some i \<Rightarrow>
          if \<not> user_access_ok buf len \<or> len > 4096 then fail s
          else cur s (\<lambda>r.
            case (fd_open (fd_at s r i), fd_node (fd_at s r i)) of
              (True, Some n) \<Rightarrow>
                if v_flags (file_node s n) AND (VFS_FILE OR VFS_CHARDEV) \<noteq> 0
                then read_step env r i n (fd_offset (fd_at s r i)) len (v_flags (file_node s n) AND VFS_CHARDEV = 0)
                       (set_task r (\<lambda>t. t\<lparr>read_nonblock := True\<rparr>) s)
                else fail s
            | _ \<Rightarrow> fail s))"

definition sys_write :: "sys_env \<Rightarrow> u32 \<Rightarrow> u32 \<Rightarrow> u32 \<Rightarrow> 'a sys_scheme \<Rightarrow> fault + 'a sys_scheme sysret" where
  "sys_write env fd buf len s =
     (case fd_index fd of
        None \<Rightarrow> fail s
      | Some i \<Rightarrow>
          if \<not> user_access_ok buf len \<or> len > 65536 then fail s
          else cur s (\<lambda>r.
            case (fd_open (fd_at s r i), fd_node (fd_at s r i)) of
              (True, Some n) \<Rightarrow>
                (let fl = v_flags (file_node s n); bs = se_bytes env buf len in
                 if fl AND VFS_CHARDEV \<noteq> 0 \<and> fl AND VFS_FILE = 0 then
                   bindE (vfs_write (se_dev env) (se_heap env) (Some n) 0 bs (sy_vfs s)) (\<lambda>(_, v).
                     ret (sint len) (s\<lparr>sy_vfs := v\<rparr>))
                 else if fl AND (VFS_FILE OR VFS_CHARDEV) \<noteq> 0 then
                   write_step env r i n
                     (if fd_append (fd_at s r i) then v_size (file_node s n) else fd_offset (fd_at s r i)) None bs s
                 else fail s)
            | _ \<Rightarrow> fail s))"

definition sys_ioctl :: "sys_env \<Rightarrow> u32 \<Rightarrow> u32 \<Rightarrow> u32 \<Rightarrow> 'a sys_scheme \<Rightarrow> fault + 'a sys_scheme sysret" where
  "sys_ioctl env fd req arg s =
     (case fd_index fd of
        None \<Rightarrow> fail s
      | Some i \<Rightarrow> cur s (\<lambda>r.
          case (fd_open (fd_at s r i), fd_node (fd_at s r i)) of
            (True, Some n) \<Rightarrow>
              if arg \<noteq> 0 \<and> \<not> user_access_ok arg 1 then fail s
              else ret (vfs_ioctl (se_dev env) (sy_vfs s) (Some n) req arg) s
          | _ \<Rightarrow> fail s))"

section \<open>The table of descriptors\<close>

text \<open>The fields that are not named keep what the last user of the slot left in them.\<close>

definition fd_alloc :: "tptr \<Rightarrow> vptr \<Rightarrow> bool \<Rightarrow> 'a sched_state_scheme \<Rightarrow> nat option \<times> 'a sched_state_scheme" where
  "fd_alloc r n app s =
     (case find (\<lambda>i. \<not> fd_open (fd_at s r i)) [0..<VFS_FD_MAX] of
        None \<Rightarrow> (None, s)
      | Some i \<Rightarrow> (Some i, set_fd r i (\<lambda>f. f\<lparr>fd_open := True, fd_append := app, fd_node := Some n,
                     fd_offset := 0, fd_dir_idx := 0\<rparr>) s))"

definition shut_fd :: "tptr \<Rightarrow> nat \<Rightarrow> 'a sched_state_scheme \<Rightarrow> 'a sched_state_scheme" where
  "shut_fd r i s = set_fd r i (\<lambda>f. f\<lparr>fd_open := False, fd_node := None\<rparr>) s"

text \<open>Closing an open descriptor and telling the pipes.\<close>

definition close_fd :: "tptr \<Rightarrow> nat \<Rightarrow> 'a sys_scheme \<Rightarrow> 'a sys_scheme" where
  "close_fd r i s =
     (case fd_node (fd_at s r i) of
        None \<Rightarrow> shut_fd r i s
      | Some n \<Rightarrow> pipe_notify_close n (shut_fd r i s))"

definition sys_close :: "u32 \<Rightarrow> 'a sys_scheme \<Rightarrow> fault + 'a sys_scheme sysret" where
  "sys_close fd s =
     (case fd_index fd of
        None \<Rightarrow> fail s
      | Some i \<Rightarrow> cur s (\<lambda>r. if \<not> fd_open (fd_at s r i) then fail s else ret 0 (close_fd r i s)))"

definition sys_pipe :: "sys_env \<Rightarrow> u32 \<Rightarrow> 'a sys_scheme \<Rightarrow> fault + 'a sys_scheme sysret" where
  "sys_pipe env ptr s =
     (if \<not> user_access_ok ptr 8 then fail s
      else cur s (\<lambda>r.
        case pipe_create (se_room env 4108) (se_heap env) (se_heap2 env) s of
          (None, s) \<Rightarrow> fail s
        | (Some (rnode, wnode), s) \<Rightarrow>
            (case fd_alloc r rnode False s of
               (None, s) \<Rightarrow> fail s
             | (Some rfd, s) \<Rightarrow>
                 (case fd_alloc r wnode False s of
                    (None, s) \<Rightarrow> fail (shut_fd r rfd s)
                  | (Some wfd, s) \<Rightarrow> Inr (Ret 0 (Out_ints [int rfd, int wfd]) s)))))"

definition sys_dup2 :: "u32 \<Rightarrow> u32 \<Rightarrow> 'a sys_scheme \<Rightarrow> fault + 'a sys_scheme sysret" where
  "sys_dup2 oldfd newfd s =
     (case (fd_index oldfd, fd_index newfd) of
        (Some i, Some j) \<Rightarrow> cur s (\<lambda>r.
          if \<not> fd_open (fd_at s r i) then fail s
          else if i = j then ret (int j) s
          else
            let s = (if fd_open (fd_at s r j) then close_fd r j s else s);
                f = fd_at s r i;
                s = set_fd r j (\<lambda>_. f) s
            in ret (int j) (case fd_node f of None \<Rightarrow> s | Some n \<Rightarrow> pipe_fork_fd n s))
      | _ \<Rightarrow> fail s)"

definition sys_lseek :: "u32 \<Rightarrow> u32 \<Rightarrow> u32 \<Rightarrow> 'a sys_scheme \<Rightarrow> fault + 'a sys_scheme sysret" where
  "sys_lseek fd offset whence s =
     (case fd_index fd of
        None \<Rightarrow> fail s
      | Some i \<Rightarrow> cur s (\<lambda>r.
          if \<not> fd_open (fd_at s r i) then fail s
          else case fd_node (fd_at s r i) of
            None \<Rightarrow> Inl NullDeref
          | Some n \<Rightarrow>
              (let fl = v_flags (file_node s n); sz = v_size (file_node s n) in
               if fl AND (VFS_FILE OR VFS_CHARDEV) = 0 then fail s
               else if fl AND VFS_CHARDEV \<noteq> 0 then ret 0 s
               else case (if whence = 0 then Some offset
                          else if whence = 1 then Some (fd_offset (fd_at s r i) + offset)
                          else if whence = 2 then Some (sz + offset) else None) of
                 None \<Rightarrow> fail s
               | Some new_off \<Rightarrow>
                   (let new_off = (if new_off > sz then sz else new_off)
                    in ret (sint new_off) (set_fd r i (\<lambda>f. f\<lparr>fd_offset := new_off\<rparr>) s)))))"

definition sys_readdir :: "u32 \<Rightarrow> u32 \<Rightarrow> 'a sys_scheme \<Rightarrow> fault + 'a sys_scheme sysret" where
  "sys_readdir fd out s =
     (case fd_index fd of
        None \<Rightarrow> fail s
      | Some i \<Rightarrow> cur s (\<lambda>r.
          if \<not> fd_open (fd_at s r i) then fail s
          else if \<not> user_access_ok out 136 then fail s
          else case fd_node (fd_at s r i) of
            None \<Rightarrow> Inl NullDeref
          | Some n \<Rightarrow>
              if \<not> is_dir (sy_vfs s) n then fail s
              else bindE (vfs_readdir (sy_vfs s) (Some n) (fd_dir_idx (fd_at s r i))) (\<lambda>c.
                case c of
                  None \<Rightarrow> ret 0 s
                | Some c \<Rightarrow>
                    Inr (Ret 1 (Out_dirent (take (VFS_NAME_MAX - 1) (v_name (file_node s c))) (v_inode (file_node s c))
                                  (v_flags (file_node s c)))
                      (set_fd r i (\<lambda>f. f\<lparr>fd_dir_idx := fd_dir_idx f + 1\<rparr>) s)))))"

definition sys_fstat :: "u32 \<Rightarrow> u32 \<Rightarrow> 'a sys_scheme \<Rightarrow> fault + 'a sys_scheme sysret" where
  "sys_fstat fd out s =
     (case fd_index fd of
        None \<Rightarrow> fail s
      | Some i \<Rightarrow>
          if \<not> user_access_ok out 12 then fail s
          else cur s (\<lambda>r.
            case (fd_open (fd_at s r i), fd_node (fd_at s r i)) of
              (True, Some n) \<Rightarrow>
                (case vfs_fstat (sy_vfs s) (Some n) of None \<Rightarrow> fail s | Some st \<Rightarrow> Inr (Ret 0 (Out_stat st) s))
            | _ \<Rightarrow> fail s))"

end
