(* ===== verification/Syscall.thy ===== *)
theory Syscall
  imports Syscall_Fd Vmm
begin

text \<open>
  The other system calls and the dispatcher of \<open>kernel/syscall.c\<close>: files by path, the working
  directory, mounts, processes, program execution and the program break.
\<close>

section \<open>Calls that take a path\<close>

definition O_CREAT :: u32 where "O_CREAT = 0x40"
definition O_TRUNC :: u32 where "O_TRUNC = 0x200"
definition O_APPEND :: u32 where "O_APPEND = 0x400"

definition resolve_path :: "sys_env \<Rightarrow> tptr \<Rightarrow> u32 \<Rightarrow> 'a sched_state_scheme \<Rightarrow> fault + string option" where
  "resolve_path env r upath s =
     (if \<not> user_access_ok upath 1 then Inr None else vfs_resolve (cwd (task_at s r)) (se_str env upath))"

text \<open>A call with the resolved path; \<open>-1\<close> when there is none.\<close>

definition with_path :: "sys_env \<Rightarrow> u32 \<Rightarrow> 'a sys_scheme \<Rightarrow> (tptr \<Rightarrow> string \<Rightarrow> fault + 'a sys_scheme sysret) \<Rightarrow>
    fault + 'a sys_scheme sysret" where
  "with_path env upath s f =
     cur s (\<lambda>r. bindE (resolve_path env r upath s) (\<lambda>p. case p of None \<Rightarrow> fail s | Some p \<Rightarrow> f r p))"

text \<open>The node that \<open>sys_open\<close> opens, with the state of the tree after a creation.\<close>

definition open_node :: "sys_env \<Rightarrow> string \<Rightarrow> u32 \<Rightarrow> vfs \<Rightarrow> fault + vptr option \<times> vfs" where
  "open_node env path flags v =
     (let denied = (\<lambda>n v. flags AND 3 \<noteq> 0 \<and> v_flags (node_at v n) AND VFS_CHARDEV = 0 \<and> \<not> v_writable (node_at v n));
          check = (\<lambda>(n, v). case n of None \<Rightarrow> (None, v) | Some n \<Rightarrow> if denied n v then (None, v) else (Some n, v))
      in if flags AND O_TRUNC \<noteq> 0 then vfs_creat (se_drv env) (se_heap env) path v
         else bindE (vfs_lookup v path) (\<lambda>n.
           if flags AND O_CREAT \<noteq> 0 \<and> n = None
           then bindE (vfs_creat (se_drv env) (se_heap env) path v) (\<lambda>r. Inr (check r))
           else Inr (check (n, v))))"

definition sys_open :: "sys_env \<Rightarrow> u32 \<Rightarrow> u32 \<Rightarrow> 'a sys_scheme \<Rightarrow> fault + 'a sys_scheme sysret" where
  "sys_open env upath flags s =
     with_path env upath s (\<lambda>r path.
       bindE (open_node env path flags (sy_vfs s)) (\<lambda>(n, v).
         let s = s\<lparr>sy_vfs := v\<rparr>; app = (flags AND O_APPEND \<noteq> 0) in
         case n of
           None \<Rightarrow> fail s
         | Some n \<Rightarrow>
             (case fd_alloc r n app s of
                (None, s) \<Rightarrow> fail s
              | (Some i, s) \<Rightarrow>
                  (let s = (if app then set_fd r i (\<lambda>f. f\<lparr>fd_offset := v_size (file_node s n)\<rparr>) s else s)
                   in ret (int i) (pipe_fork_fd n s)))))"

definition sys_stat :: "sys_env \<Rightarrow> u32 \<Rightarrow> u32 \<Rightarrow> 'a sys_scheme \<Rightarrow> fault + 'a sys_scheme sysret" where
  "sys_stat env upath out s =
     with_path env upath s (\<lambda>r path.
       if \<not> user_access_ok out 12 then fail s
       else bindE (vfs_stat (sy_vfs s) path) (\<lambda>st.
         case st of None \<Rightarrow> fail s | Some st \<Rightarrow> Inr (Ret 0 (Out_stat st) s)))"

definition sys_chdir :: "sys_env \<Rightarrow> u32 \<Rightarrow> 'a sys_scheme \<Rightarrow> fault + 'a sys_scheme sysret" where
  "sys_chdir env upath s =
     with_path env upath s (\<lambda>r path.
       bindE (vfs_lookup (sy_vfs s) path) (\<lambda>n.
         case n of
           None \<Rightarrow> fail s
         | Some n \<Rightarrow>
             if \<not> is_dir (sy_vfs s) n \<or> length path \<ge> VFS_PATH_MAX then fail s
             else ret 0 (set_task r (\<lambda>t. t\<lparr>cwd := path\<rparr>) s)))"

definition sys_getcwd :: "u32 \<Rightarrow> u32 \<Rightarrow> 'a sys_scheme \<Rightarrow> fault + 'a sys_scheme sysret" where
  "sys_getcwd buf len s =
     (if \<not> user_access_ok buf len then fail s
      else cur s (\<lambda>r.
        if of_nat (length (cwd (task_at s r))) + 1 > len then fail s
        else Inr (Ret 0 (Out_path (cwd (task_at s r))) s)))"

definition sys_mkdir :: "sys_env \<Rightarrow> u32 \<Rightarrow> 'a sys_scheme \<Rightarrow> fault + 'a sys_scheme sysret" where
  "sys_mkdir env upath s =
     with_path env upath s (\<lambda>r path.
       bindE (vfs_mkdir (se_drv env) (se_heap env) path (sy_vfs s)) (\<lambda>(n, v).
         ret (if n = None then -1 else 0) (s\<lparr>sy_vfs := v\<rparr>)))"

definition sys_unlink :: "sys_env \<Rightarrow> u32 \<Rightarrow> 'a sys_scheme \<Rightarrow> fault + 'a sys_scheme sysret" where
  "sys_unlink env upath s =
     with_path env upath s (\<lambda>r path.
       bindE (vfs_unlink (se_drv env) path (sy_vfs s)) (\<lambda>(n, v). ret n (s\<lparr>sy_vfs := v\<rparr>)))"

definition sys_rename :: "sys_env \<Rightarrow> u32 \<Rightarrow> u32 \<Rightarrow> 'a sys_scheme \<Rightarrow> fault + 'a sys_scheme sysret" where
  "sys_rename env old new s =
     cur s (\<lambda>r.
       bindE (resolve_path env r old s) (\<lambda>p. bindE (resolve_path env r new s) (\<lambda>q.
         case (p, q) of
           (Some p, Some q) \<Rightarrow> bindE (vfs_rename p q (sy_vfs s)) (\<lambda>(n, v). ret n (s\<lparr>sy_vfs := v\<rparr>))
         | _ \<Rightarrow> fail s)))"

text \<open>The name of a device below \<open>/dev/\<close>, or the name itself.\<close>

definition dev_name :: "string \<Rightarrow> string" where
  "dev_name d = (if take 5 d = ''/dev/'' then drop 5 d else d)"

definition sys_mount :: "sys_env \<Rightarrow> u32 \<Rightarrow> u32 \<Rightarrow> u32 \<Rightarrow> 'a sys_scheme \<Rightarrow> fault + 'a sys_scheme sysret" where
  "sys_mount env fstype upath devarg s =
     (if \<not> user_access_ok fstype 1 then fail s
      else with_path env upath s (\<lambda>r path.
        case (if devarg \<noteq> 0 \<and> user_access_ok devarg 1 then se_blkdev env (dev_name (se_str env devarg)) else Some 0) of
          None \<Rightarrow> fail s
        | Some device \<Rightarrow>
            bindE (vfs_do_mount (se_drv env) path (se_str env fstype) device (sy_vfs s)) (\<lambda>(n, v).
              ret n (s\<lparr>sy_vfs := v\<rparr>))))"

definition sys_umount :: "sys_env \<Rightarrow> u32 \<Rightarrow> 'a sys_scheme \<Rightarrow> fault + 'a sys_scheme sysret" where
  "sys_umount env upath s =
     with_path env upath s (\<lambda>r path.
       let (n, v) = vfs_do_umount (se_drv env) path (sy_vfs s) in ret n (s\<lparr>sy_vfs := v\<rparr>))"

section \<open>Processes\<close>

definition sys_nop :: "'s \<Rightarrow> fault + 's sysret" where
  "sys_nop s = ret 0 s"

definition sys_getpid :: "'a sys_scheme \<Rightarrow> fault + 'a sys_scheme sysret" where
  "sys_getpid s = cur s (\<lambda>r. ret (sint (pid (task_at s r))) s)"

definition sys_getppid :: "'a sys_scheme \<Rightarrow> fault + 'a sys_scheme sysret" where
  "sys_getppid s = cur s (\<lambda>r. ret (sint (ppid (task_at s r))) s)"

text \<open>The task halts until an interrupt; then it goes on.\<close>

definition sys_yield :: "'a sys_scheme \<Rightarrow> fault + 'a sys_scheme sysret" where
  "sys_yield s =
     Inr (Halted In_yield (case running_task s of None \<Rightarrow> s | Some r \<Rightarrow> set_task r (\<lambda>t. t\<lparr>blocking := True\<rparr>) s))"

definition nodes_or :: "'a sched_state_scheme \<Rightarrow> (tptr list \<Rightarrow> fault + 'b) \<Rightarrow> fault + 'b" where
  "nodes_or s f = (case queue_nodes (sched_state.truncate s) of None \<Rightarrow> Inl Runaway | Some qs \<Rightarrow> f qs)"

definition sys_task_done :: "u32 \<Rightarrow> 'a sys_scheme \<Rightarrow> fault + 'a sys_scheme sysret" where
  "sys_task_done target s =
     nodes_or s (\<lambda>qs. ret (if find (\<lambda>t. pid (task_at s t) = target) qs = None then 1 else 0) s)"

text \<open>The references of the child are counted before the fork, and given up if it fails.\<close>

definition each_open :: "(vptr \<Rightarrow> 'a sys_scheme \<Rightarrow> 'a sys_scheme) \<Rightarrow> tptr \<Rightarrow> 'a sys_scheme \<Rightarrow> 'a sys_scheme" where
  "each_open f r s =
     fold (\<lambda>i s. case (fd_open (fd_at s r i), fd_node (fd_at s r i)) of (True, Some n) \<Rightarrow> f n s | _ \<Rightarrow> s)
       [0..<VFS_FD_MAX] s"

definition sys_fork :: "create_env \<Rightarrow> u32 \<Rightarrow> tptr option \<Rightarrow> 'a sys_scheme \<Rightarrow> fault + 'a sys_scheme sysret" where
  "sys_fork cenv frame child s =
     cur s (\<lambda>r.
       bindE (task_fork cenv frame child (each_open pipe_fork_fd r s)) (\<lambda>(c, s).
         case c of
           None \<Rightarrow> fail (each_open pipe_notify_close r s)
         | Some c \<Rightarrow> ret (sint (pid (task_at s c))) s))"

text \<open>
  \<open>task_kill\<close> on this state: it works on the scheduler's part, then the pipes are told of the
  descriptors it closed, in the order in which it closed them.
\<close>

definition kill_part :: "'a sched_state_scheme \<Rightarrow> kill_state" where
  "kill_part s = sched_state.extend (sched_state.truncate s) (kill_state.fields [] None)"

definition put_sched :: "'b sched_state_scheme \<Rightarrow> 'a sched_state_scheme \<Rightarrow> 'a sched_state_scheme" where
  "put_sched k s = s\<lparr>task_at := task_at k, sched_queue := sched_queue k, running_task := running_task k,
     prev_task := prev_task k, total_ticks := total_ticks k, last_pid := last_pid k\<rparr>"

fun apply_closes :: "effect list \<Rightarrow> 'a sys_scheme \<Rightarrow> 'a sys_scheme" where
  "apply_closes [] s = s"
| "apply_closes (PipeClose n # es) s = apply_closes es (pipe_notify_close n s)"
| "apply_closes (_ # es) s = apply_closes es s"

definition kill_task :: "kill_ctx \<Rightarrow> tptr \<Rightarrow> 'a sys_scheme \<Rightarrow> fault + bool \<times> 'a sys_scheme" where
  "kill_task k t s =
     bindE (task_kill k QUEUE_BOUND t (kill_part s)) (\<lambda>(gone, ks).
       Inr (gone, apply_closes (effects ks) (put_sched ks s)))"

text \<open>Killing the running task, or one whose death takes it along, does not return.\<close>

datatype 's exit_result = Gone 's | Back "'s sysret"

definition sys_kill :: "kill_ctx \<Rightarrow> u32 \<Rightarrow> 'a sys_scheme \<Rightarrow> fault + 'a sys_scheme exit_result" where
  "sys_kill k target s =
     (if target = PID_IDLE then Inr (Back (Ret (-1) No_out s))
      else nodes_or s (\<lambda>qs.
        case find (\<lambda>t. pid (task_at s t) = target) qs of
          None \<Rightarrow> Inr (Back (Ret (-1) No_out s))
        | Some t \<Rightarrow>
            bindE (kill_task k t s) (\<lambda>(gone, s). Inr (if gone then Gone s else Back (Ret 0 No_out s)))))"

definition sys_exit_task :: "kill_ctx \<Rightarrow> u32 \<Rightarrow> 'a sys_scheme \<Rightarrow> fault + 'a sys_scheme exit_result" where
  "sys_exit_task k code s =
     cur s (\<lambda>r.
       bindE (kill_task k r (set_task r (\<lambda>t. t\<lparr>exit_status := sint code\<rparr>) s)) (\<lambda>(gone, s).
         if gone then Inr (Gone s) else Inl BadAccess))"

text \<open>The end of a wait: the status goes to the caller, if it asked for it.\<close>

definition wait_over :: "u32 \<Rightarrow> bool \<Rightarrow> tptr \<Rightarrow> 'a sys_scheme \<Rightarrow> fault + 'a sys_scheme sysret" where
  "wait_over target st r s =
     (let s = set_task r (\<lambda>t. t\<lparr>wait_done := False\<rparr>) s
      in Inr (Ret (sint target) (if st then Out_ints [exit_status (task_at s r)] else No_out) s))"

text \<open>The loop around the halt.\<close>

definition wait_loop :: "u32 \<Rightarrow> bool \<Rightarrow> tptr \<Rightarrow> 'a sys_scheme \<Rightarrow> fault + 'a sys_scheme sysret" where
  "wait_loop target st r s =
     (if wait_done (task_at s r) then wait_over target st r s
      else Inr (Halted (In_waitpid target st) (set_task r (\<lambda>t. t\<lparr>blocking := True\<rparr>) s)))"

definition sys_waitpid :: "u32 \<Rightarrow> u32 \<Rightarrow> u32 \<Rightarrow> 'a sys_scheme \<Rightarrow> fault + 'a sys_scheme sysret" where
  "sys_waitpid target status flags s =
     (if sint target \<le> 0 then fail s
      else if status \<noteq> 0 \<and> \<not> user_access_ok status 4 then fail s
      else nodes_or s (\<lambda>qs. cur s (\<lambda>r.
        if find (\<lambda>t. pid (task_at s t) = target \<and> ppid (task_at s t) = pid (task_at s r)) qs = None then
          (if wait_done (task_at s r) then wait_over target (status \<noteq> 0) r s else fail s)
        else if flags AND 1 \<noteq> 0 then ret 0 s
        else wait_loop target (status \<noteq> 0) r
               (set_task r (\<lambda>t. t\<lparr>wait_pid := sint target, wait_done := False, prio_d := SCHED_LEVEL_SUSP\<rparr>) s))))"

text \<open>What a halted call does when the processor goes on with it.\<close>

definition resume :: "sys_env \<Rightarrow> waiting \<Rightarrow> 'a sys_scheme \<Rightarrow> fault + 'a sys_scheme sysret" where
  "resume env w s =
     cur s (\<lambda>r.
       let s = set_task r (\<lambda>t. t\<lparr>blocking := False\<rparr>) s in
       case w of
         In_read i n offset len track \<Rightarrow> read_step env r i n offset len track s
       | In_write i n offset rest written \<Rightarrow> write_step env r i n offset (Some written) rest s
       | In_waitpid target st \<Rightarrow> wait_loop target st r s
       | In_yield \<Rightarrow> ret 0 s)"

section \<open>Program execution\<close>

text \<open>\<open>parse_shebang\<close>: the interpreter and the argument of a script's first line.\<close>

definition is_blank :: "char \<Rightarrow> bool" where
  "is_blank c \<longleftrightarrow> c = CHR '' '' \<or> c = CHR 0x09"

definition ends_word :: "char \<Rightarrow> bool" where
  "ends_word c \<longleftrightarrow> is_blank c \<or> c = CHR 0x0A \<or> c = CHR 0x0D"

definition parse_shebang :: "string \<Rightarrow> nat \<Rightarrow> nat \<Rightarrow> (string \<times> string) option" where
  "parse_shebang data interp_sz arg_sz =
     (if take 2 data \<noteq> ''#!'' then None
      else
        let p = dropWhile is_blank (drop 2 data);
            interp = take (interp_sz - 1) (takeWhile (Not \<circ> ends_word) p);
            p = dropWhile is_blank (drop (length interp) p);
            arg = take (arg_sz - 1) (takeWhile (Not \<circ> ends_word) p)
        in if interp = [] then None else Some (interp, arg))"

text \<open>
  An argument vector in user memory: pointers up to a null pointer, one that is not
  acceptable, or the limit.
\<close>

definition user_vec :: "(u32 \<Rightarrow> u32 list) \<Rightarrow> nat \<Rightarrow> u32 \<Rightarrow> u32 list" where
  "user_vec words limit ptr =
     (if ptr \<noteq> 0 \<and> user_access_ok ptr 4
      then take limit (takeWhile (\<lambda>p. p \<noteq> 0 \<and> user_access_ok p 1) (words ptr)) else [])"

definition script_args :: "string \<Rightarrow> string \<Rightarrow> string \<Rightarrow> string list \<Rightarrow> string list" where
  "script_args interp arg script args =
     (let fixed = [interp] @ (if arg \<noteq> [] then [arg] else []) @ [script]
      in fixed @ take (31 - length fixed) (drop 1 args))"

text \<open>The environment, which replaces the old one after a successful execution.\<close>

definition put_environ :: "string list \<Rightarrow> task \<Rightarrow> task" where
  "put_environ env t = t\<lparr>environ := map (take (TASK_ENVIRON_LEN - 1)) env @ drop (length env) (environ t),
     environ_count := length env\<rparr>"

text \<open>
  \<open>words\<close> are the words in user memory from an address on, \<open>new_dir\<close> the page directory made
  for the image, \<open>elf\<close> what the loader makes of it (entry point 0 for a failure).
\<close>

definition read_image :: "sys_env \<Rightarrow> string \<Rightarrow> 'a sys_scheme \<Rightarrow> fault + u8 list option" where
  "read_image env path s =
     bindE (vfs_lookup (sy_vfs s) path) (\<lambda>n.
       case n of
         None \<Rightarrow> Inr None
       | Some n \<Rightarrow>
           (let sz = v_size (file_node s n); data = vfs_read (se_dev env) (sy_vfs s) (Some n) 0 sz in
            if \<not> is_file (sy_vfs s) n \<or> sz = 0 \<or> \<not> se_room env sz \<or> of_nat (length data) \<noteq> sz
            then Inr None else Inr (Some data)))"

definition exec_image :: "u32 \<Rightarrow> (u8 list \<Rightarrow> string list \<Rightarrow> u32 \<times> u32 \<times> u32) \<Rightarrow> u8 list \<Rightarrow> string list \<Rightarrow>
    string list \<Rightarrow> trap_frame \<Rightarrow> 'a sys_scheme \<Rightarrow> fault + 'a sys_scheme sysret \<times> trap_frame" where
  "exec_image new_dir elf data args envs frame s =
     cur s (\<lambda>r.
       bindE (task_exec new_dir (elf data args) args frame (kill_part s)) (\<lambda>(n, frame, ks).
         let s = put_sched ks s;
             s = (if n = 0 then set_task r (put_environ envs) s else s)
         in Inr (Ret n No_out s, frame)))"

definition sys_execve :: "sys_env \<Rightarrow> (u32 \<Rightarrow> u32 list) \<Rightarrow> u32 \<Rightarrow> (u8 list \<Rightarrow> string list \<Rightarrow> u32 \<times> u32 \<times> u32) \<Rightarrow>
    u32 \<Rightarrow> u32 \<Rightarrow> u32 \<Rightarrow> trap_frame \<Rightarrow> 'a sys_scheme \<Rightarrow> fault + 'a sys_scheme sysret \<times> trap_frame" where
  "sys_execve env words new_dir elf upath argv_ptr envp_ptr frame s =
     cur s (\<lambda>r.
     bindE (resolve_path env r upath s) (\<lambda>path.
       case path of
         None \<Rightarrow> Inr (Ret (-1) No_out s, frame)
       | Some path \<Rightarrow>
          (let args = map (se_str env) (user_vec words 31 argv_ptr);
               envs = map (se_str env) (user_vec words TASK_ENVIRON_MAX envp_ptr)
           in bindE (read_image env path s) (\<lambda>img.
             case img of
               None \<Rightarrow> Inr (Ret (-1) No_out s, frame)
             | Some data \<Rightarrow>
                (case parse_shebang (map (\<lambda>b. char_of (unat b)) data) VFS_PATH_MAX 128 of
                   None \<Rightarrow> exec_image new_dir elf data args envs frame s
                 | Some (interp, arg) \<Rightarrow>
                     bindE (vfs_resolve ''/'' interp) (\<lambda>ipath.
                       case ipath of
                         None \<Rightarrow> Inr (Ret (-1) No_out s, frame)
                       | Some ipath \<Rightarrow>
                           bindE (read_image env ipath s) (\<lambda>img.
                             case img of
                               None \<Rightarrow> Inr (Ret (-1) No_out s, frame)
                             | Some idata \<Rightarrow>
                                 exec_image new_dir elf idata (script_args interp arg path args) envs frame s)))))))"

section \<open>The program break\<close>

text \<open>
  The pages from the old break on, one frame each; the result is the address reached, which
  is the new break unless a frame is missing. \<open>n\<close> bounds the steps: at most one per page.
\<close>

fun brk_loop :: "nat \<Rightarrow> u32 \<Rightarrow> u32 \<Rightarrow> u32 \<Rightarrow> 'a vmm_scheme \<Rightarrow> fault + u32 \<times> 'a vmm_scheme" where
  "brk_loop 0 dir v new m = (if v < new then Inl Runaway else Inr (new, m))"
| "brk_loop (Suc n) dir v new m =
     (if \<not> v < new then Inr (new, m)
      else bindE (pmm_alloc_frame m) (\<lambda>(f, m).
        if f = 0 then Inr (v, m)
        else bindE (vmm_map_page_in dir v f (PTE_PRESENT OR PTE_WRITE OR PTE_USER) m)
               (brk_loop n dir (v + 4096) new)))"

definition sys_brk :: "u32 \<Rightarrow> 'b vmm_scheme \<Rightarrow> 'a sys_scheme \<Rightarrow> fault + ('a sys_scheme sysret \<times> 'b vmm_scheme)" where
  "sys_brk new_brk m s =
     cur s (\<lambda>r.
       let cur_brk = brk (task_at s r) in
       if new_brk = 0 \<or> new_brk \<le> cur_brk \<or> new_brk \<ge> USER_STACK_TOP - 4096
       then Inr (Ret (sint cur_brk) No_out s, m)
       else bindE (brk_loop (unat (new_brk - cur_brk) div 4096 + 1) (page_dir_phys (task_at s r)) cur_brk new_brk m)
         (\<lambda>(b, m). Inr (Ret (sint b) No_out (set_task r (\<lambda>t. t\<lparr>brk := b\<rparr>) s), m)))"

section \<open>The dispatcher\<close>

datatype sysno = SYS_NOP | SYS_EXIT_TASK | SYS_FORK | SYS_READ | SYS_WRITE | SYS_OPEN | SYS_CLOSE | SYS_WAITPID
  | SYS_UNLINK | SYS_EXECVE | SYS_CHDIR | SYS_LSEEK | SYS_GETPID | SYS_MOUNT | SYS_UMOUNT | SYS_KILL | SYS_RENAME
  | SYS_MKDIR | SYS_PIPE | SYS_BRK | SYS_IOCTL | SYS_DUP2 | SYS_GETPPID | SYS_READDIR | SYS_STAT | SYS_FSTAT
  | SYS_GETCWD | SYS_YIELD | SYS_READ_NB | SYS_TASK_DONE

definition syscall_numbers :: "(u32 \<times> sysno) list" where
  "syscall_numbers = [(0, SYS_NOP), (1, SYS_EXIT_TASK), (2, SYS_FORK), (3, SYS_READ), (4, SYS_WRITE), (5, SYS_OPEN),
     (6, SYS_CLOSE), (7, SYS_WAITPID), (10, SYS_UNLINK), (11, SYS_EXECVE), (12, SYS_CHDIR), (19, SYS_LSEEK),
     (20, SYS_GETPID), (21, SYS_MOUNT), (22, SYS_UMOUNT), (37, SYS_KILL), (38, SYS_RENAME), (39, SYS_MKDIR),
     (42, SYS_PIPE), (45, SYS_BRK), (54, SYS_IOCTL), (63, SYS_DUP2), (64, SYS_GETPPID), (89, SYS_READDIR),
     (106, SYS_STAT), (108, SYS_FSTAT), (183, SYS_GETCWD), (200, SYS_YIELD), (201, SYS_READ_NB), (202, SYS_TASK_DONE)]"

text \<open>
  The environment of a call, with what \<open>fork\<close>, \<open>kill\<close> and \<open>execve\<close> need besides: the address of the
  frame, the struct for a child, the kill context, user memory in words, the new page directory and the loader.
\<close>

record call_env = sys_env +
  ke_create :: create_env
  ke_frame :: u32
  ke_child :: "tptr option"
  ke_kill :: kill_ctx
  ke_words :: "u32 \<Rightarrow> u32 list"
  ke_dir :: u32
  ke_elf :: "u8 list \<Rightarrow> string list \<Rightarrow> u32 \<times> u32 \<times> u32"

text \<open>
  The end of a call: the trap frame with the result in \<open>eax\<close> goes back to the task, the task
  halts in the call, or nobody comes back.
\<close>

datatype ('s, 'm) handled = Returns trap_frame user_out 's 'm | Halts waiting 's 'm | Never 's 'm

definition finish :: "trap_frame \<Rightarrow> 'm \<Rightarrow> 's sysret \<Rightarrow> fault + ('s, 'm) handled" where
  "finish frame m r =
     Inr (case r of
            Ret n out s \<Rightarrow> Returns (frame\<lparr>tf_eax := word_of_int n\<rparr>) out s m
          | Halted w s \<Rightarrow> Halts w s m)"

definition finish_exit :: "trap_frame \<Rightarrow> 'm \<Rightarrow> 's exit_result \<Rightarrow> fault + ('s, 'm) handled" where
  "finish_exit frame m r = (case r of Gone s \<Rightarrow> Inr (Never s m) | Back r \<Rightarrow> finish frame m r)"

definition syscall_handler :: "call_env \<Rightarrow> trap_frame \<Rightarrow> 'a sys_scheme \<Rightarrow> 'm vmm_scheme \<Rightarrow>
    fault + ('a sys_scheme, 'm vmm_scheme) handled" where
  "syscall_handler env frame s m =
     (let b = tf_ebx frame; c = tf_ecx frame; d = tf_edx frame; se = sys_env.truncate env;
          plain = (\<lambda>r. bindE r (finish frame m))
      in case map_of syscall_numbers (tf_eax frame) of
           None \<Rightarrow> finish frame m (Ret (-1) No_out s)
         | Some k \<Rightarrow>
             (case k of
                SYS_NOP \<Rightarrow> plain (sys_nop s)
              | SYS_WRITE \<Rightarrow> plain (sys_write se b c d s)
              | SYS_READ \<Rightarrow> plain (sys_read se b c d s)
              | SYS_READ_NB \<Rightarrow> plain (sys_read_nb se b c d s)
              | SYS_GETPID \<Rightarrow> plain (sys_getpid s)
              | SYS_KILL \<Rightarrow> bindE (sys_kill (ke_kill env) b s) (finish_exit frame m)
              | SYS_YIELD \<Rightarrow> plain (sys_yield s)
              | SYS_OPEN \<Rightarrow> plain (sys_open se b c s)
              | SYS_CLOSE \<Rightarrow> plain (sys_close b s)
              | SYS_LSEEK \<Rightarrow> plain (sys_lseek b c d s)
              | SYS_READDIR \<Rightarrow> plain (sys_readdir b c s)
              | SYS_STAT \<Rightarrow> plain (sys_stat se b c s)
              | SYS_EXECVE \<Rightarrow> bindE (sys_execve se (ke_words env) (ke_dir env) (ke_elf env) b c d frame s)
                  (\<lambda>(r, frame). finish frame m r)
              | SYS_FORK \<Rightarrow> plain (sys_fork (ke_create env) (ke_frame env) (ke_child env) s)
              | SYS_WAITPID \<Rightarrow> plain (sys_waitpid b c d s)
              | SYS_EXIT_TASK \<Rightarrow> bindE (sys_exit_task (ke_kill env) b s) (finish_exit frame m)
              | SYS_PIPE \<Rightarrow> plain (sys_pipe se b s)
              | SYS_DUP2 \<Rightarrow> plain (sys_dup2 b c s)
              | SYS_TASK_DONE \<Rightarrow> plain (sys_task_done b s)
              | SYS_CHDIR \<Rightarrow> plain (sys_chdir se b s)
              | SYS_GETCWD \<Rightarrow> plain (sys_getcwd b c s)
              | SYS_GETPPID \<Rightarrow> plain (sys_getppid s)
              | SYS_MKDIR \<Rightarrow> plain (sys_mkdir se b s)
              | SYS_UNLINK \<Rightarrow> plain (sys_unlink se b s)
              | SYS_IOCTL \<Rightarrow> plain (sys_ioctl se b c d s)
              | SYS_MOUNT \<Rightarrow> plain (sys_mount se b c d s)
              | SYS_UMOUNT \<Rightarrow> plain (sys_umount se b s)
              | SYS_FSTAT \<Rightarrow> plain (sys_fstat b c s)
              | SYS_RENAME \<Rightarrow> plain (sys_rename se b c s)
              | SYS_BRK \<Rightarrow> bindE (sys_brk b m s) (\<lambda>(r, m). finish frame m r)))"

end
