(* ===== verification/Syscall_Refs.thy ===== *)
theory Syscall_Refs
  imports Syscall
begin

text \<open>
  The reference counts of the pipes are exact: along every interleaving of the tasks' calls a
  pipe's counts are the numbers of open descriptors on its two ends.
\<close>

section \<open>Descriptors and counts\<close>

definition points :: "vfs_fd \<Rightarrow> vptr \<Rightarrow> bool" where
  "points f n \<longleftrightarrow> fd_open f \<and> fd_node f = Some n"

lemma refs_in_sum: "refs_in n xs = (\<Sum>f \<leftarrow> xs. of_bool (points f n))"
  by (induction xs) (auto simp: refs_in_def points_def)

lemma refs_in_update:
  assumes "i < length xs"
  shows "refs_in n (xs[i := f]) + of_bool (points (xs ! i) n) = refs_in n xs + of_bool (points f n)"
  using assms sum_list_update_nat [of i "map (\<lambda>f. of_bool (points f n)) xs" "of_bool (points f n)"]
  by (simp add: refs_in_sum map_update)

lemma refs_cong: "(\<And>t. t \<in> set ts \<Longrightarrow> fds (task_at s' t) = fds (task_at s t)) \<Longrightarrow> refs ts n s' = refs ts n s"
  by (simp add: refs_def cong: map_cong)

lemma refs_set_fd:
  assumes "r \<in> set ts" and "distinct ts" and "i < length (fds (task_at s r))"
  shows "refs ts n (set_fd r i f s) + of_bool (points (fd_at s r i) n) = refs ts n s + of_bool (points (f (fd_at s r i)) n)"
proof -
  obtain as bs where ts: "ts = as @ r # bs" using assms(1) by (meson split_list)
  have other: "refs as n (set_fd r i f s) = refs as n s" "refs bs n (set_fd r i f s) = refs bs n s"
    using assms(2) ts by (auto intro!: refs_cong simp: set_fd_def set_task_def)
  have r: "fds (task_at (set_fd r i f s) r) = (fds (task_at s r))[i := f (fd_at s r i)]"
    by (simp add: set_fd_def set_task_def)
  have sum: "refs ts n x = refs as n x + refs_in n (fds (task_at x r)) + refs bs n x" for x :: "'b sched_state_scheme"
    by (simp add: ts refs_def)
  show ?thesis unfolding sum other r using refs_in_update [OF assms(3), of n "f (fd_at s r i)"] by simp
qed

lemma fds_set_fd:
  "length (fds (task_at (set_fd r i f s) t)) = length (fds (task_at s t))"
  "running_task (set_fd r i f s) = running_task s"
  "fd_at (set_fd r i f s) t j = (if t = r \<and> j = i \<and> i < length (fds (task_at s r)) then f (fd_at s r i) else fd_at s t j)"
  by (auto simp: set_fd_def set_task_def nth_list_update list_update_beyond)

lemma pipe_table_set_fd [simp]:
  "pipe_table (set_fd r i f s) = pipe_table s" "sy_vfs (set_fd r i f s) = sy_vfs s"
  "pipe_table (set_task r g s) = pipe_table s" "sy_vfs (set_task r g s) = sy_vfs s"
  by (simp_all add: set_fd_def set_task_def)

lemma entry_ops_kept [simp]:
  "task_at (set_entry i e s) = task_at s" "running_task (set_entry i e s) = running_task s"
  "task_at (on_vfs g s) = task_at s" "running_task (on_vfs g s) = running_task s"
  by (simp_all add: set_entry_def on_vfs_def)

lemma drop_unused_kept [simp]:
  "task_at (drop_unused i s) = task_at s" "running_task (drop_unused i s) = running_task s"
  by (simp_all add: drop_unused_def Let_def split: option.split)

lemma pipe_ops_kept [simp]:
  "task_at (pipe_fork_fd n s) = task_at s" "running_task (pipe_fork_fd n s) = running_task s"
  "task_at (pipe_notify_close n s) = task_at s" "running_task (pipe_notify_close n s) = running_task s"
  unfolding pipe_fork_fd_def pipe_notify_close_def Let_def by (simp_all split: option.split)

lemma refs_pipe_ops [simp]:
  "refs ts m (pipe_fork_fd n s) = refs ts m s" "refs ts m (pipe_notify_close n s) = refs ts m s"
  by (simp_all add: refs_def)

section \<open>Nodes that are ends of pipes\<close>

definition ends :: "'a sys_scheme \<Rightarrow> vptr set" where
  "ends s = (\<Union>e \<in> set (pipe_table s). set (entry_ends e))"

text \<open>Only the table and the counts of the ends matter.\<close>

lemma pipes_ok_table: "pipe_table s' = pipe_table s \<Longrightarrow> pipes_ok k s' \<longleftrightarrow> pipes_ok k s"
  by (simp add: pipes_ok_def)

lemma pipes_ok_cong: "(\<And>n. n \<in> ends s \<Longrightarrow> k' n = k n) \<Longrightarrow> pipes_ok k' s \<longleftrightarrow> pipes_ok k s"
proof -
  assume eq: "\<And>n. n \<in> ends s \<Longrightarrow> k' n = k n"
  have "refs_match k' e \<longleftrightarrow> refs_match k e" if "e \<in> set (pipe_table s)" for e
    by (rule match_cong) (use eq that in \<open>auto simp: ends_def\<close>)
  then show ?thesis by (simp add: pipes_ok_def)
qed

lemma not_end_slot:
  assumes "n \<notin> ends s" and "length (pipe_table s) = PIPE_MAX"
  shows "slot_of n (pipe_table s) = None"
proof (rule ccontr)
  assume "slot_of n (pipe_table s) \<noteq> None"
  then obtain i where "slot_of n (pipe_table s) = Some i" by auto
  then have i: "i < length (pipe_table s)" "pe_pipe (pipe_table s ! i) \<noteq> None"
    "pe_read (pipe_table s ! i) = Some n \<or> pe_write (pipe_table s ! i) = Some n"
    using assms(2) unfolding slot_of_def by (auto simp: find_Some_iff)
  then have "n \<in> set (entry_ends (pipe_table s ! i))" by (auto simp: entry_ends_def split: option.split)
  then show False using assms(1) i(1) by (auto simp: ends_def)
qed

lemma pipe_ops_not_end:
  assumes "n \<notin> ends s" and "length (pipe_table s) = PIPE_MAX"
  shows "pipe_fork_fd n s = s" and "pipe_notify_close n s = s"
  using not_end_slot [OF assms] by (simp_all add: pipe_fork_fd_def pipe_notify_close_def)

lemma pipes_ok_length: "pipes_ok k s \<Longrightarrow> length (pipe_table s) = PIPE_MAX"
  by (simp add: pipes_ok_def)

lemma ends_update:
  assumes "i < length (pipe_table s)" and "pipe_table s' = (pipe_table s)[i := e]"
    and "set (entry_ends e) \<subseteq> set (entry_ends (pipe_table s ! i))"
  shows "ends s' \<subseteq> ends s"
proof -
  have "set (pipe_table s') \<subseteq> insert e (set (pipe_table s))" unfolding assms(2) by (rule set_update_subset_insert)
  moreover have "set (entry_ends e) \<subseteq> ends s" using assms(1,3) nth_mem [OF assms(1)] unfolding ends_def by blast
  ultimately show ?thesis by (auto simp: ends_def)
qed

lemma fork_counts:
  assumes ok: "pipes_ok k s" and room: "n \<in> ends s \<Longrightarrow> k n < 255"
  shows "pipes_ok (k(n := k n + 1)) (pipe_fork_fd n s)"
proof (cases "n \<in> ends s")
  case True
  show ?thesis by (rule fork_fd_counts [OF ok room [OF True]])
next
  case False
  have "pipes_ok (k(n := k n + 1)) s" using ok False pipes_ok_cong [of s "k(n := k n + 1)" k] by fastforce
  then show ?thesis by (simp add: pipe_ops_not_end [OF False pipes_ok_length [OF ok]])
qed

lemma close_counts:
  assumes ok: "pipes_ok k s" and pos: "n \<in> ends s \<Longrightarrow> k n > 0"
  shows "pipes_ok (k(n := k n - 1)) (pipe_notify_close n s)"
proof (cases "n \<in> ends s")
  case True
  show ?thesis by (rule notify_close_counts [OF ok pos [OF True]])
next
  case False
  have "pipes_ok (k(n := k n - 1)) s" using ok False pipes_ok_cong [of s "k(n := k n - 1)" k] by fastforce
  then show ?thesis by (simp add: pipe_ops_not_end [OF False pipes_ok_length [OF ok]])
qed

lemma entry_ends_pipe: "pe_pipe e \<noteq> None \<Longrightarrow> entry_ends (e\<lparr>pe_pipe := Some p\<rparr>) = entry_ends e"
  by (auto simp: entry_ends_def)

lemma entry_ends_free [simp]: "entry_ends free_entry = []"
  by (simp add: entry_ends_def free_entry_def)

lemma drop_unused_table:
  "pipe_table (drop_unused i s) = pipe_table s \<or> pipe_table (drop_unused i s) = (pipe_table s)[i := free_entry]"
  by (simp add: drop_unused_def set_entry_def on_vfs_def Let_def split: option.split)

lemma drop_unused_ends:
  assumes "i < length (pipe_table s)"
  shows "ends (drop_unused i s) \<subseteq> ends s"
  using drop_unused_table [of i s]
proof
  assume "pipe_table (drop_unused i s) = (pipe_table s)[i := free_entry]"
  then show ?thesis by (rule ends_update [OF assms]) simp
qed (simp add: ends_def)

lemma fork_ends:
  assumes "length (pipe_table s) = PIPE_MAX"
  shows "ends (pipe_fork_fd n s) \<subseteq> ends s"
proof (cases "slot_of n (pipe_table s)")
  case (Some i)
  then have i: "i < length (pipe_table s)" "pe_pipe (pipe_table s ! i) \<noteq> None"
    using assms unfolding slot_of_def by (auto simp: find_Some_iff)
  have *: "ends (set_entry i ((pipe_table s ! i)\<lparr>pe_pipe := Some p\<rparr>) s) \<subseteq> ends s" for p
    by (rule ends_update [OF i(1), of _ "(pipe_table s ! i)\<lparr>pe_pipe := Some p\<rparr>"])
      (simp_all add: set_entry_def entry_ends_pipe [OF i(2)])
  show ?thesis using Some * by (simp add: pipe_fork_fd_def Let_def)
qed (simp add: pipe_fork_fd_def)

lemma close_ends:
  assumes "length (pipe_table s) = PIPE_MAX"
  shows "ends (pipe_notify_close n s) \<subseteq> ends s"
proof (cases "slot_of n (pipe_table s)")
  case (Some i)
  then have i: "i < length (pipe_table s)" "pe_pipe (pipe_table s ! i) \<noteq> None"
    using assms unfolding slot_of_def by (auto simp: find_Some_iff)
  have *: "ends (drop_unused i (set_entry i ((pipe_table s ! i)\<lparr>pe_pipe := Some p\<rparr>) s)) \<subseteq> ends s" for p
    by (rule order_trans [OF drop_unused_ends ends_update [OF i(1), of _ "(pipe_table s ! i)\<lparr>pe_pipe := Some p\<rparr>"]])
      (simp_all add: set_entry_def i entry_ends_pipe)
  show ?thesis using Some * by (simp add: pipe_notify_close_def Let_def)
qed (simp add: pipe_notify_close_def)

text \<open>A list of closings.\<close>

definition closes :: "effect list \<Rightarrow> vptr \<Rightarrow> nat" where
  "closes es n = length (filter (\<lambda>e. e = PipeClose n) es)"

lemma closes_simps [simp]:
  "closes [] n = 0" "closes (e # es) n = of_bool (e = PipeClose n) + closes es n" "closes (es @ fs) n = closes es n + closes fs n"
  by (simp_all add: closes_def)

lemma apply_closes_counts:
  assumes "pipes_ok k s" and "\<And>n. n \<in> ends s \<Longrightarrow> closes es n \<le> k n"
  shows "pipes_ok (\<lambda>n. k n - closes es n) (apply_closes es s) \<and> ends (apply_closes es s) \<subseteq> ends s"
  using assms
proof (induction es arbitrary: k s)
  case (Cons e es)
  show ?case
  proof (cases e)
    case (PipeClose m)
    have pos: "m \<in> ends s \<Longrightarrow> k m > 0" using Cons.prems(2) [of m] PipeClose by simp
    note ok = close_counts [OF Cons.prems(1) pos]
    note sub = close_ends [OF pipes_ok_length [OF Cons.prems(1)], of m]
    have "closes es n \<le> (k(m := k m - 1)) n" if "n \<in> ends (pipe_notify_close m s)" for n
      using Cons.prems(2) [of n] sub that PipeClose by (auto split: if_splits)
    from Cons.IH [OF ok this] sub
    have "pipes_ok (\<lambda>n. (k(m := k m - 1)) n - closes es n) (apply_closes (e # es) s)"
      "ends (apply_closes (e # es) s) \<subseteq> ends s" using PipeClose by auto
    moreover have "(\<lambda>n. (k(m := k m - 1)) n - closes es n) = (\<lambda>n. k n - closes (e # es) n)"
      using PipeClose by (auto simp: fun_eq_iff)
    ultimately show ?thesis by simp
  qed (use Cons.IH [OF Cons.prems(1)] Cons.prems(2) in simp_all)
qed simp

section \<open>The death of a task\<close>

text \<open>
  The descriptors: every struct has 32, those of the tasks are counted, a struct that is not
  counted holds at most the standard devices open.
\<close>

definition fds_ok :: "vptr set \<Rightarrow> tptr list \<Rightarrow> 'a sched_state_scheme \<Rightarrow> bool" where
  "fds_ok std ts s \<longleftrightarrow> distinct ts \<and> (\<forall>t. length (fds (task_at s t)) = VFS_FD_MAX) \<and>
     (\<forall>t n. t \<notin> set ts \<longrightarrow> n \<notin> std \<longrightarrow> refs_in n (fds (task_at s t)) = 0)"

definition fds_same :: "'a sched_state_scheme \<Rightarrow> 'b sched_state_scheme \<Rightarrow> bool" where
  "fds_same s s' \<longleftrightarrow> (\<forall>t. fds (task_at s' t) = fds (task_at s t))"

lemma fds_same_refl [simp]: "task_at s' = task_at s \<Longrightarrow> fds_same s s'"
  by (simp add: fds_same_def)

lemma fds_same_trans [trans]: "fds_same s s' \<Longrightarrow> fds_same s' s'' \<Longrightarrow> fds_same s s''"
  by (simp add: fds_same_def)

lemma fds_same_ok: "fds_same s s' \<Longrightarrow> fds_ok std ts s' \<longleftrightarrow> fds_ok std ts s"
  by (simp add: fds_ok_def fds_same_def)

lemma fds_same_refs: "fds_same s s' \<Longrightarrow> refs ts n s' = refs ts n s"
  by (rule refs_cong) (simp add: fds_same_def)

lemma fds_same_set_task: "(\<And>x. fds (f x) = fds x) \<Longrightarrow> fds_same s (set_task t f s)"
  by (simp add: fds_same_def set_task_def)

lemma fds_same_unlink: "fds_same s (unlink_task t s)"
  by (auto simp: fds_same_def unlink_task_def set_task_def Let_def split: option.split)

lemma fds_same_wake: "fds_same s (wake_waiters d st ws s)"
proof (induction d st ws s rule: wake_waiters.induct)
  case (2 d st w ws s)
  then show ?case by (auto simp: fds_same_def set_task_def split: if_splits)
qed simp

lemma fds_same_fold:
  "(\<And>q s. fds_same s (f q s)) \<Longrightarrow> fds_same s (fold f qs (s :: 'a sched_state_scheme))"
  by (induction qs arbitrary: s) (auto intro: fds_same_trans)

lemma fds_same_pick:
  assumes "pick_next qs s = Inr (q, s')"
  shows "fds_same s s'"
proof -
  let ?f = "\<lambda>q s. if pid (task_at s q) \<noteq> PID_IDLE then set_task q (\<lambda>x. x\<lparr>prio_d := prio_s x\<rparr>) s else s"
  have "fds_same s (fold ?f qs s)" by (rule fds_same_fold) (auto simp: fds_same_def set_task_def)
  then show ?thesis using assms by (auto simp: pick_next_def Let_def split: option.splits list.splits)
qed

lemma fds_same_step: "fds_same s s' \<Longrightarrow> (\<And>x. fds (f x) = fds x) \<Longrightarrow> fds_same s (set_task t f s')"
  using fds_same_trans fds_same_set_task by blast

lemma fds_same_queue [simp]: "fds_same s (s'\<lparr>sched_queue := q\<rparr>) \<longleftrightarrow> fds_same s s'"
  by (simp add: fds_same_def)

lemma fds_same_before: "insert_task_before t b s = Inr s' \<Longrightarrow> fds_same s s'"
  by (auto simp: insert_task_before_def Let_def bindE_Inr_iff simp del: set_task_simps
    intro!: fds_same_step split: option.splits)

lemma insert_task_sortedE:
  assumes "insert_task_sorted t p s = Inr s'"
  obtains b where "insert_task_before t b s = Inr s'"
    | l where "s' = set_task t (\<lambda>x. x\<lparr>t_prev := Some l, t_next := None\<rparr>) (set_task l (\<lambda>x. x\<lparr>t_next := Some t\<rparr>) s)"
proof -
  obtain q where q: "sched_queue s = Some q" using assms by (auto simp: insert_task_sorted_def bindE_Inr_iff split: option.splits)
  obtain pl where r: "(case pl of
       Before b \<Rightarrow> insert_task_before t b s
     | After l \<Rightarrow>
         (let s = set_task l (\<lambda>x. x\<lparr>t_next := Some t\<rparr>) s; s = set_task t (\<lambda>x. x\<lparr>t_prev := Some l, t_next := None\<rparr>) s
          in bindE (sched_queue_verify s) (\<lambda>_. Inr s))) = Inr s'"
    using assms unfolding insert_task_sorted_def q option.case bindE_Inr_iff by blast
  show thesis
  proof (cases pl)
    case (Before b)
    then show thesis using r that(1) [of b] by simp
  next
    case (After l)
    then show thesis using r that(2) [of l] by (simp add: Let_def bindE_Inr_iff)
  qed
qed

lemma fds_same_insert: "insert_task_sorted t p s = Inr s' \<Longrightarrow> fds_same s s'"
  by (erule insert_task_sortedE) (auto intro!: fds_same_step intro: fds_same_before simp del: set_task_simps)

lemma closed_no_refs: "(\<And>i. i < length xs \<Longrightarrow> \<not> fd_open (xs ! i)) \<Longrightarrow> refs_in n xs = 0"
  by (auto simp: refs_in_def filter_empty_conv in_set_conv_nth)

lemma refs_in_0_nth: "refs_in n xs = 0 \<Longrightarrow> i < length xs \<Longrightarrow> \<not> points (xs ! i) n"
  by (auto simp: refs_in_def points_def filter_empty_conv)

text \<open>The count of a node with the closings that the pipes have not been told of yet.\<close>

definition owed :: "tptr list \<Rightarrow> vptr \<Rightarrow> kill_state \<Rightarrow> nat" where
  "owed ts n s = refs ts n s + closes (effects s) n"

definition settled :: "vptr set \<Rightarrow> tptr list \<Rightarrow> kill_state \<Rightarrow> kill_state \<Rightarrow> bool" where
  "settled std ts s s' \<longleftrightarrow> fds_ok std ts s \<longrightarrow> fds_ok std ts s' \<and> (\<forall>n. n \<notin> std \<longrightarrow> owed ts n s' = owed ts n s)"

lemma settled_refl [simp]: "settled std ts s s"
  by (simp add: settled_def)

lemma settled_trans [trans]: "settled std ts s s' \<Longrightarrow> settled std ts s' s'' \<Longrightarrow> settled std ts s s''"
  by (simp add: settled_def)

lemma settled_same: "fds_same s s' \<Longrightarrow> effects s' = effects s \<Longrightarrow> settled std ts s s'"
  by (simp add: settled_def fds_same_ok owed_def fds_same_refs)

lemma settled_emit: "(\<And>n. e \<noteq> PipeClose n) \<Longrightarrow> settled std ts s (emit_effect e s)"
  using fds_same_ok [of s "emit_effect e s" std ts] fds_same_refs [of s "emit_effect e s" ts]
  by (simp add: settled_def owed_def emit_effect_def)

lemma settled_close_fd:
  assumes "i < VFS_FD_MAX" and "fd_open (fds (task_at s t) ! i)"
  defines "f \<equiv> fds (task_at s t) ! i"
  defines "s1 \<equiv> set_task t (\<lambda>x. x\<lparr>fds := (fds x)[i := f\<lparr>fd_open := False, fd_node := None\<rparr>]\<rparr>) s"
  shows "settled std ts s (case fd_node f of None \<Rightarrow> s1 | Some n \<Rightarrow> emit_effect (PipeClose n) s1)"
  unfolding settled_def
proof
  assume ok: "fds_ok std ts s"
  let ?s = "case fd_node f of None \<Rightarrow> s1 | Some n \<Rightarrow> emit_effect (PipeClose n) s1"
  have i: "i < length (fds (task_at s t))" using ok assms(1) by (simp add: fds_ok_def)
  have s1: "s1 = set_fd t i (\<lambda>f. f\<lparr>fd_open := False, fd_node := None\<rparr>) s"
    by (simp add: s1_def set_fd_def set_task_def f_def)
  have same: "fds_same s1 ?s" "effects s1 = effects s"
    by (auto simp: emit_effect_def s1_def set_task_def split: option.split)
  have eff: "closes (effects ?s) n = closes (effects s) n + of_bool (points f n)" for n
    using same(2) assms(2) by (auto simp: emit_effect_def points_def f_def split: option.split)
  have in_t: "refs_in n (fds (task_at s1 t)) + of_bool (points f n) = refs_in n (fds (task_at s t))" for n
    using refs_in_update [OF i, of n "f\<lparr>fd_open := False, fd_node := None\<rparr>"]
    by (simp add: s1_def set_task_def points_def f_def)
  have other: "x \<noteq> t \<Longrightarrow> task_at s1 x = task_at s x" for x by (simp add: s1_def set_task_def)
  have "refs ts n s1 + of_bool (points f n) = refs ts n s" if n: "n \<notin> std" for n
  proof (cases "t \<in> set ts")
    case True
    then show ?thesis
      using refs_set_fd [OF True _ i, of n "\<lambda>f. f\<lparr>fd_open := False, fd_node := None\<rparr>"] ok s1
      by (simp add: fds_ok_def points_def f_def)
  next
    case False
    then have "refs_in n (fds (task_at s t)) = 0" using ok n by (simp add: fds_ok_def)
    then have "\<not> points f n" using refs_in_0_nth [OF _ i, of n] by (simp add: f_def)
    moreover have "refs ts n s1 = refs ts n s" by (rule refs_cong, rule arg_cong [of _ _ fds], rule other) (use False in blast)
    ultimately show ?thesis by simp
  qed
  then have "owed ts n ?s = owed ts n s" if "n \<notin> std" for n
    using that fds_same_refs [OF same(1), of ts n] eff [of n] by (simp add: owed_def)
  moreover have "fds_ok std ts s1"
    unfolding fds_ok_def
  proof (intro conjI allI impI)
    show "distinct ts" using ok by (simp add: fds_ok_def)
    show "length (fds (task_at s1 x)) = VFS_FD_MAX" for x
      using ok by (cases "x = t") (simp_all add: s1_def set_task_def fds_ok_def)
    show "refs_in n (fds (task_at s1 x)) = 0" if "x \<notin> set ts" "n \<notin> std" for x n
      using ok that in_t [of n] other [of x] by (cases "x = t") (simp_all add: fds_ok_def)
  qed
  ultimately show "fds_ok std ts ?s \<and> (\<forall>n. n \<notin> std \<longrightarrow> owed ts n ?s = owed ts n s)"
    using fds_same_ok [OF same(1), of std ts] by blast
qed

lemma settled_close_fds: "\<forall>i \<in> set is. i < VFS_FD_MAX \<Longrightarrow> settled std ts s (close_fds t is s)"
proof (induction t "is" s rule: close_fds.induct)
  case (2 t i "is" s)
  show ?case
  proof (cases "fd_open (fds (task_at s t) ! i)")
    case True
    have "settled std ts s (case fd_node (fds (task_at s t) ! i) of
        None \<Rightarrow> set_task t (\<lambda>x. x\<lparr>fds := (fds x)[i := (fds (task_at s t) ! i)\<lparr>fd_open := False, fd_node := None\<rparr>]\<rparr>) s
      | Some n \<Rightarrow> emit_effect (PipeClose n)
          (set_task t (\<lambda>x. x\<lparr>fds := (fds x)[i := (fds (task_at s t) ! i)\<lparr>fd_open := False, fd_node := None\<rparr>]\<rparr>) s))"
      by (rule settled_close_fd) (use True 2(3) in auto)
    also note 2(1) [OF refl True refl]
    finally show ?thesis using True 2(3) by (simp add: Let_def)
  next
    case False
    then show ?thesis using 2(2) [OF refl False] 2(3) by (simp add: Let_def)
  qed
qed simp

text \<open>After the closings of all its descriptors a task has none.\<close>

lemma close_fds_closed:
  assumes "length (fds (task_at s t)) = VFS_FD_MAX" and "\<forall>i \<in> set is. i < VFS_FD_MAX"
  shows "length (fds (task_at (close_fds t is s) t)) = VFS_FD_MAX \<and>
    (\<forall>j < VFS_FD_MAX. j \<in> set is \<or> \<not> fd_open (fds (task_at s t) ! j) \<longrightarrow> \<not> fd_open (fds (task_at (close_fds t is s) t) ! j))"
  using assms
proof (induction t "is" s rule: close_fds.induct)
  case (2 t i "is" s)
  let ?f = "fds (task_at s t) ! i"
  let ?s = "set_task t (\<lambda>x. x\<lparr>fds := (fds x)[i := ?f\<lparr>fd_open := False, fd_node := None\<rparr>]\<rparr>) s"
  let ?s' = "case fd_node ?f of None \<Rightarrow> ?s | Some n \<Rightarrow> emit_effect (PipeClose n) ?s"
  have h: "task_at ?s' t = task_at ?s t" by (simp add: emit_effect_def split: option.split)
  show ?case
  proof (cases "fd_open ?f")
    case True
    have "length (fds (task_at ?s' t)) = VFS_FD_MAX" using 2(3) h by simp
    from 2(1) [OF refl True refl this] 2(4) have
      IH: "length (fds (task_at (close_fds t is ?s') t)) = VFS_FD_MAX"
      "\<And>j. j < VFS_FD_MAX \<Longrightarrow> j \<in> set is \<or> \<not> fd_open (fds (task_at ?s' t) ! j) \<Longrightarrow>
         \<not> fd_open (fds (task_at (close_fds t is ?s') t) ! j)" by auto
    have eq: "close_fds t (i # is) s = close_fds t is ?s'" using True by (simp add: Let_def)
    have "\<not> fd_open (fds (task_at (close_fds t (i # is) s) t) ! j)"
      if "j < VFS_FD_MAX" "j \<in> set (i # is) \<or> \<not> fd_open (fds (task_at s t) ! j)" for j
    proof -
      have "j \<in> set is \<or> \<not> fd_open (fds (task_at ?s' t) ! j)"
        using that 2(3) h by (cases "j = i") auto
      then show ?thesis unfolding eq by (rule IH(2) [OF that(1)])
    qed
    then show ?thesis using IH(1) unfolding eq by blast
  next
    case False
    then show ?thesis using 2(2) [OF refl False 2(3)] 2(4) by (auto simp: Let_def)
  qed
qed auto

text \<open>The devices that a new task opens.\<close>

definition std_nodes :: "create_env \<Rightarrow> vptr set" where
  "std_nodes env = (case ce_std env of None \<Rightarrow> {} | Some (i, o1, e) \<Rightarrow> {i, o1, e})"

lemma refs_in_std:
  assumes "n \<notin> std_nodes env" and "length (fds t) = VFS_FD_MAX"
  shows "refs_in n (fds (task_open_std_fds (ce_std env) t)) \<le> refs_in n (fds t)"
proof (cases "ce_std env")
  case (Some x)
  obtain i o1 e where x: "x = (i, o1, e)" by (cases x) auto
  have no: "\<not> points (open_std i f) n" "\<not> points (open_std o1 f) n" "\<not> points (open_std e f) n" for f
    using assms(1) Some x by (auto simp: std_nodes_def points_def open_std_def)
  have le: "refs_in n (xs[j := f]) \<le> refs_in n xs" if "j < length xs" "\<not> points f n" for xs j f
    using refs_in_update [OF that(1), of n f] that(2) by simp
  have l: "length (fds t) > 2" using assms(2) by (simp add: VFS_FD_MAX_def)
  have "refs_in n ((fds t)[0 := open_std i (fds t ! 0), 1 := open_std o1 (fds t ! 1), 2 := open_std e (fds t ! 2)])
      \<le> refs_in n (fds t)"
    by (rule order_trans [OF le order_trans [OF le le]]) (use l no in \<open>auto simp: length_greater_0_conv [symmetric] simp del: length_greater_0_conv\<close>)
  then show ?thesis using Some x by (simp add: task_open_std_fds_def)
qed (simp add: task_open_std_fds_def)

lemma task_open_std_length [simp]: "length (fds (task_open_std_fds std t)) = length (fds t)"
  by (simp add: task_open_std_fds_def split: option.split)

lemma new_task_fds:
  "length (fds (new_task_fields env name prio p entry t)) = VFS_FD_MAX"
  "n \<notin> std_nodes env \<Longrightarrow> refs_in n (fds (new_task_fields env name prio p entry t)) = 0"
proof -
  let ?t = "t\<lparr>magic := TASK_MAGIC, tname := take 31 name, pid := p, created := ce_now env, prio_s := prio, prio_d := prio,
     t_entry := entry, page_dir_phys := ce_page_dir env, t_prev := None, t_next := None, fds := replicate VFS_FD_MAX closed_fd\<rparr>"
  have f: "fds (new_task_fields env name prio p entry t) = fds (task_open_std_fds (ce_std env) ?t)"
    by (simp add: new_task_fields_def)
  have "refs_in n (replicate VFS_FD_MAX closed_fd) = 0" for n by (simp add: refs_in_def closed_fd_def)
  then show "n \<notin> std_nodes env \<Longrightarrow> refs_in n (fds (new_task_fields env name prio p entry t)) = 0"
    using refs_in_std [of n env ?t] f by simp
  show "length (fds (new_task_fields env name prio p entry t)) = VFS_FD_MAX" unfolding f by simp
qed

lemma respawn_init_fds:
  assumes "respawn_init env t s = Inr s'"
  shows "(\<forall>x. x \<noteq> t \<longrightarrow> fds (task_at s' x) = fds (task_at s x)) \<and> length (fds (task_at s' t)) = VFS_FD_MAX \<and>
     (\<forall>n. n \<notin> std_nodes env \<longrightarrow> refs_in n (fds (task_at s' t)) = 0)"
proof -
  let ?s = "(set_task t (\<lambda>_. zero_task) s)\<lparr>last_pid := last_pid s + 1\<rparr>"
  let ?x = "new_task_fields env ''init'' 5 (last_pid s + 1) None zero_task"
  obtain x s2 where x: "setup_user_task_stack env (ce_elf_entry env) (ce_user_sp env) (?x\<lparr>brk := ce_brk env\<rparr>) = Inr x"
    and s2: "insert_task_sorted t 5 (set_task t (\<lambda>_. x) ?s) = Inr s2"
    and s': "s' = set_task t (\<lambda>x. x\<lparr>pid := PID_INIT\<rparr>) s2"
    using assms by (auto simp: respawn_init_def spawn_init_def create_elf_task_def Let_def bindE_Inr_iff split: if_splits)
  have fx: "fds x = fds ?x" using x by (auto simp: setup_user_task_stack_def split: option.splits)
  have same: "fds_same (set_task t (\<lambda>_. x) ?s) s'"
    unfolding s' by (rule fds_same_step [OF fds_same_insert [OF s2]]) simp
  then have "fds (task_at s' y) = (if y = t then fds ?x else fds (task_at s y))" for y
    by (simp add: fds_same_def fx)
  then show ?thesis 
    using new_task_fds(1) [of env "''init''" 5 "last_pid s + 1" None zero_task]
      new_task_fds(2) [of _ env "''init''" 5 "last_pid s + 1" None zero_task] by simp
qed

lemma effects_set_task [simp]: "effects (set_task t f s) = effects s"
  by (simp add: set_task_def)

lemma insert_effects: "insert_task_sorted t p s = Inr s' \<Longrightarrow> effects s' = effects s"
  by (erule insert_task_sortedE)
    (auto simp: insert_task_before_def Let_def bindE_Inr_iff simp del: set_task_simps split: option.splits)

lemma respawn_effects: "respawn_init env t s = Inr s' \<Longrightarrow> effects s' = effects s"
  by (auto simp: respawn_init_def spawn_init_def create_elf_task_def Let_def bindE_Inr_iff
    dest!: insert_effects split: if_splits)

lemma settled_respawn:
  assumes "respawn_init env t s = Inr s'" and "std_nodes env \<subseteq> std" and "\<And>i. i < VFS_FD_MAX \<Longrightarrow> \<not> fd_open (fds (task_at s t) ! i)"
  shows "settled std ts s s'"
  unfolding settled_def
proof
  assume ok: "fds_ok std ts s"
  note f = respawn_init_fds [OF assms(1)]
  have z: "refs_in n (fds (task_at s t)) = 0" for n
    by (rule closed_no_refs) (use assms(3) ok in \<open>simp add: fds_ok_def\<close>)
  have same: "refs_in n (fds (task_at s' x)) = refs_in n (fds (task_at s x))" if "n \<notin> std" for n x
    using f z that assms(2) by (cases "x = t") auto
  then have "refs ts n s' = refs ts n s" if "n \<notin> std" for n using that by (simp add: refs_def)
  then have "owed ts n s' = owed ts n s" if "n \<notin> std" for n
    using that respawn_effects [OF assms(1)] by (simp add: owed_def)
  moreover have "length (fds (task_at s' x)) = VFS_FD_MAX" for x using f ok by (cases "x = t") (auto simp: fds_ok_def)
  ultimately show "fds_ok std ts s' \<and> (\<forall>n. n \<notin> std \<longrightarrow> owed ts n s' = owed ts n s)"
    using ok same by (simp add: fds_ok_def)
qed

lemma unlink_effects [simp]: "effects (unlink_task t s) = effects s"
  by (simp add: unlink_task_def set_task_def Let_def split: option.split)

lemma wake_effects [simp]: "effects (wake_waiters d st ws s) = effects s"
proof (induction d st ws s rule: wake_waiters.induct)
  case (2 d st w ws s)
  then show ?case by (auto simp: set_task_def)
qed simp

lemma pick_effects: "pick_next qs s = Inr (q, s') \<Longrightarrow> effects s' = effects s"
proof -
  have "effects (fold (\<lambda>q s. if pid (task_at s q) \<noteq> PID_IDLE then set_task q (\<lambda>x. x\<lparr>prio_d := prio_s x\<rparr>) s else s) qs s) = effects s"
    by (induction qs arbitrary: s) (simp_all add: set_task_def)
  then show "pick_next qs s = Inr (q, s') \<Longrightarrow> effects s' = effects s"
    by (auto simp: pick_next_def Let_def split: option.splits list.splits)
qed

lemma settled_kill_self:
  assumes "kill_self_part k t s = Inr (r, s')" and "std_nodes (kc_env k) \<subseteq> std" and "fds_ok std ts s"
  shows "settled std ts s s'"
proof -
  define s1 where "s1 = close_fds t [0..<VFS_FD_MAX] s"
  define s3 where "s3 = set_task t (\<lambda>x. x\<lparr>magic := TASK_MAGIC_DEAD\<rparr>) (unlink_task t s1)"
  define s4 where "s4 = emit_effect (DeathHook (pid (task_at s3 t))) s3"
  define s5 where "s5 = (if page_dir_phys (task_at s4 t) \<noteq> kc_kernel_dir k
       then emit_effect (DestroyDir (page_dir_phys (task_at s4 t))) s4 else s4)"
  from assms(1) obtain s6 qs where
    s6: "(if t = kc_init k then respawn_init (kc_env k) t s5 else Inr s5) = Inr s6"
    and s': "s' = wake_waiters (pid (task_at s4 t)) (exit_status (task_at s6 t)) qs s6"
    unfolding kill_self_part_def Let_def s1_def [symmetric] s3_def [symmetric] s4_def [symmetric] s5_def [symmetric]
    by (auto simp: bindE_Inr_iff split: if_splits option.splits)
  have "settled std ts s s1" unfolding s1_def by (rule settled_close_fds) simp
  also have same: "fds_same s1 s3" unfolding s3_def by (rule fds_same_step [OF fds_same_unlink]) simp
  then have "settled std ts s1 s3" by (rule settled_same) (simp add: s3_def set_task_def)
  also have "settled std ts s3 s4" unfolding s4_def by (rule settled_emit) simp
  also have "settled std ts s4 s5" by (cases "page_dir_phys (task_at s4 t) \<noteq> kc_kernel_dir k") (simp_all add: s5_def settled_emit)
  also have "settled std ts s5 s6"
  proof (cases "t = kc_init k")
    case True
    have "task_at s5 = task_at s3" by (simp add: s5_def s4_def emit_effect_def)
    then have "fds (task_at s5 t) = fds (task_at s1 t)" using same by (simp add: fds_same_def)
    then have "\<not> fd_open (fds (task_at s5 t) ! i)" if "i < VFS_FD_MAX" for i
      using close_fds_closed [of s t "[0..<VFS_FD_MAX]"] assms(3) that by (simp add: fds_ok_def s1_def)
    then show ?thesis using s6 True by (intro settled_respawn [OF _ assms(2)]) auto
  qed (use s6 in simp)
  also have "settled std ts s6 s'" unfolding s' by (rule settled_same [OF fds_same_wake wake_effects])
  finally show ?thesis .
qed

text \<open>All the deaths that a death leads to.\<close>

lemma settled_kill:
  shows "std_nodes (kc_env k) \<subseteq> std \<Longrightarrow> fds_ok std ts s \<Longrightarrow> task_kill k fuel t s = Inr (gone, s') \<Longrightarrow> settled std ts s s'"
    and "std_nodes (kc_env k) \<subseteq> std \<Longrightarrow> fds_ok std ts s \<Longrightarrow> kill_others k fuel cs s = Inr (gone, s') \<Longrightarrow> settled std ts s s'"
proof (induction k fuel t s and k fuel cs s arbitrary: gone s' and gone s' rule: task_kill_kill_others.induct)
  case (2 k fuel t s)
  obtain dp ds s1 where s1: "kill_self_part k t s = Inr ((dp, ds), s1)"
    using 2(5) by (auto simp: bindE_Inr_iff)
  obtain qs where qs: "queue_nodes (sched_state.truncate s1) = Some qs"
    using 2(5) s1 by (auto split: option.splits)
  obtain g2 s2 where s2: "kill_others k fuel (children_of dp s1 qs) s1 = Inr (g2, s2)"
    using 2(5) s1 qs by (auto simp: Let_def bindE_Inr_iff)
  let ?kids = "children_of dp s1 qs"
  have one: "settled std ts s s1" by (rule settled_kill_self [OF s1 2(3,4)])
  then have ok1: "fds_ok std ts s1" using 2(4) by (simp add: settled_def)
  have two: "settled std ts s1 s2" using 2(1) qs ok1 s2 2(3) by blast
  then have ok2: "fds_ok std ts s2" using ok1 by (simp add: settled_def)
  have rest: "(if g2 then Inr (True, s2)
      else if running_task s2 \<noteq> None \<and> the (running_task s2) \<in> set ?kids then task_kill k fuel (the (running_task s2)) s2
      else if running_task s2 = Some t then
        (case queue_nodes (sched_state.truncate s2) of
           None \<Rightarrow> Inl Runaway
         | Some qs \<Rightarrow> bindE (pick_next qs s2) (\<lambda>(q, s).
             Inr (True, s\<lparr>prev_task := None, running_task := Some q, stale_stack := Some ds\<rparr>)))
      else Inr (False, if ds \<noteq> 0 then emit_effect (FreeStack ds) s2 else s2)) = Inr (gone, s')"
    using 2(5) s1 qs s2 by (simp add: Let_def)
  have "settled std ts s2 s'"
  proof (cases "\<not> g2 \<and> running_task s2 \<noteq> None \<and> the (running_task s2) \<in> set ?kids")
    case True
    then have "task_kill k fuel (the (running_task s2)) s2 = Inr (gone, s')" using rest by auto
    then show ?thesis using 2(2) qs ok2 True 2(3) by blast
  next
    case False
    then consider "s' = s2" | "s' = emit_effect (FreeStack ds) s2"
      | qs' q s3 where "pick_next qs' s2 = Inr (q, s3)"
          "s' = s3\<lparr>prev_task := None, running_task := Some q, stale_stack := Some ds\<rparr>"
      using rest by (auto simp: bindE_Inr_iff split: if_splits option.splits)
    then show ?thesis
    proof cases
      case 3
      have "fds_same s2 s'" using fds_same_pick [OF 3(1)] 3(2) by (simp add: fds_same_def)
      then show ?thesis by (rule settled_same) (simp add: 3(2) pick_effects [OF 3(1)])
    qed (simp_all add: settled_emit)
  qed
  with one two show ?case using settled_trans by blast
next
  case (4 k fuel c cs s)
  show ?case
  proof (cases "running_task s = Some c")
    case True
    then show ?thesis using 4(1) 4(4,5,6) by simp
  next
    case False
    obtain g s1 where s1: "task_kill k fuel c s = Inr (g, s1)" using 4(6) False by (auto simp: bindE_Inr_iff)
    have one: "settled std ts s s1" by (rule 4(2) [OF False 4(4,5) s1])
    then have "fds_ok std ts s1" using 4(5) by (simp add: settled_def)
    then have "settled std ts s1 s'" using 4(3) 4(4,6) False s1 by (cases g) auto
    with one show ?thesis by (rule settled_trans)
  qed
qed (auto)

section \<open>The invariant\<close>

text \<open>
  Every pipe in the table counts the open descriptors of the tasks on its ends, and no end of
  a pipe is one of the standard devices.
\<close>

definition exact :: "vptr set \<Rightarrow> tptr list \<Rightarrow> 'a sys_scheme \<Rightarrow> bool" where
  "exact std ts s \<longleftrightarrow> fds_ok std ts s \<and> ends s \<inter> std = {} \<and> pipes_ok (\<lambda>n. refs ts n s) s"

lemma exactI:
  assumes "fds_ok std ts s" and "ends s \<inter> std = {}" and "pipes_ok k s" and "\<And>n. n \<notin> std \<Longrightarrow> refs ts n s = k n"
  shows "exact std ts s"
  using assms pipes_ok_cong [of s "\<lambda>n. refs ts n s" k] by (auto simp: exact_def)

lemma apply_closes_kept [simp]: "task_at (apply_closes es s) = task_at s" "running_task (apply_closes es s) = running_task s"
  by (induction es s rule: apply_closes.induct) simp_all

lemma kill_part_simps [simp]: "task_at (kill_part s) = task_at s" "effects (kill_part s) = []"
  by (simp_all add: kill_part_def sched_state.defs kill_state.defs)

lemma put_sched_simps [simp]:
  "task_at (put_sched k s) = task_at k" "pipe_table (put_sched k s) = pipe_table s" "running_task (put_sched k s) = running_task k"
  by (simp_all add: put_sched_def)

lemma kill_exact:
  assumes ex: "exact std ts s" and std: "std_nodes (kc_env k) \<subseteq> std" and r: "kill_task k t s = Inr (gone, s')"
  shows "exact std ts s'"
proof -
  obtain ks where ks: "task_kill k QUEUE_BOUND t (kill_part s) = Inr (gone, ks)"
    and s': "s' = apply_closes (effects ks) (put_sched ks s)"
    using r by (auto simp: kill_task_def bindE_Inr_iff)
  have "fds_ok std ts (kill_part s)" using ex by (simp add: exact_def fds_ok_def)
  from settled_kill(1) [OF std this ks] this
  have ok: "fds_ok std ts ks" and bal: "\<And>n. n \<notin> std \<Longrightarrow> refs ts n ks + closes (effects ks) n = refs ts n s"
    by (simp_all add: settled_def owed_def refs_def)
  have sep: "n \<notin> std" if "n \<in> ends s" for n using ex that by (auto simp: exact_def)
  have p: "pipes_ok (\<lambda>n. refs ts n s) (put_sched ks s)" "ends (put_sched ks s) = ends s"
    using ex pipes_ok_table [of "put_sched ks s" s] by (simp_all add: exact_def ends_def)
  have "closes (effects ks) n \<le> refs ts n s" if "n \<in> ends (put_sched ks s)" for n
    using bal [of n] sep that p(2) by simp
  from apply_closes_counts [OF p(1) this] p(2)
  have a: "pipes_ok (\<lambda>n. refs ts n s - closes (effects ks) n) s'" "ends s' \<subseteq> ends s" by (simp_all add: s')
  show ?thesis
  proof (rule exactI [OF _ _ a(1)])
    show "fds_ok std ts s'" using ok by (simp add: s' fds_ok_def)
    show "ends s' \<inter> std = {}" using a(2) ex by (auto simp: exact_def)
    show "refs ts n s' = refs ts n s - closes (effects ks) n" if "n \<notin> std" for n
      using bal [OF that] by (simp add: s' refs_def)
  qed
qed

text \<open>Changes of one descriptor of a task.\<close>

lemma fds_ok_set_fd:
  assumes "fds_ok std ts s" and "r \<in> set ts"
  shows "fds_ok std ts (set_fd r i f s)"
  using assms by (auto simp: fds_ok_def set_fd_def set_task_def)

lemma refs_fd:
  assumes "fds_ok std ts s" and "r \<in> set ts" and "i < VFS_FD_MAX"
  shows "refs ts n (set_fd r i f s) + of_bool (points (fd_at s r i) n) = refs ts n s + of_bool (points (f (fd_at s r i)) n)"
  by (rule refs_set_fd) (use assms in \<open>simp_all add: fds_ok_def\<close>)

lemma exactD:
  assumes "exact std ts s"
  shows "fds_ok std ts s" and "ends s \<inter> std = {}" and "pipes_ok (\<lambda>n. refs ts n s) s" and "length (pipe_table s) = PIPE_MAX"
  using assms by (simp_all add: exact_def pipes_ok_def)

lemma close_fd_exact:
  assumes ex: "exact std ts s" and r: "r \<in> set ts" and i: "i < VFS_FD_MAX" and op: "fd_open (fd_at s r i)"
  shows "exact std ts (close_fd r i s)"
proof -
  let ?f = "fd_at s r i" and ?s = "shut_fd r i s"
  have fok: "fds_ok std ts s" by (rule exactD [OF ex])
  have sum: "refs ts n ?s + of_bool (points ?f n) = refs ts n s" for n
    using refs_fd [OF fok r i, of n "\<lambda>f. f\<lparr>fd_open := False, fd_node := None\<rparr>"] by (simp add: shut_fd_def points_def)
  have p: "pipes_ok (\<lambda>n. refs ts n s) ?s" "ends ?s = ends s" "fds_ok std ts ?s" "length (pipe_table ?s) = PIPE_MAX"
    using exactD [OF ex] pipes_ok_table [of ?s s] fds_ok_set_fd [OF fok r]
    by (simp_all add: shut_fd_def ends_def)
  show ?thesis
  proof (cases "fd_node ?f")
    case None
    then have "refs ts n ?s = refs ts n s" for n using sum [of n] by (simp add: points_def)
    then show ?thesis using None exactI [OF p(3) _ p(1)] ex p(2) by (simp add: close_fd_def exact_def)
  next
    case (Some n)
    have "n \<in> ends ?s \<Longrightarrow> refs ts n s > 0" using sum [of n] Some op by (simp add: points_def)
    from close_counts [OF p(1) this] have
      q: "pipes_ok ((\<lambda>n. refs ts n s)(n := refs ts n s - 1)) (pipe_notify_close n ?s)" by simp
    show ?thesis unfolding close_fd_def Some option.case
    proof (rule exactI [OF _ _ q])
      show "fds_ok std ts (pipe_notify_close n ?s)" using p(3) by (simp add: fds_ok_def)
      show "ends (pipe_notify_close n ?s) \<inter> std = {}" using close_ends [OF p(4), of n] p(2) ex by (auto simp: exact_def)
      show "refs ts m (pipe_notify_close n ?s) = ((\<lambda>n. refs ts n s)(n := refs ts n s - 1)) m" for m
        using sum [of m] Some op by (auto simp: points_def)
    qed
  qed
qed

text \<open>A descriptor, closed until now, is opened on a node and counted.\<close>

lemma open_fd_exact:
  assumes ex: "exact std ts s" and r: "r \<in> set ts" and i: "i < VFS_FD_MAX" and cl: "\<not> fd_open (fd_at s r i)"
    and f: "fd_open (f (fd_at s r i))" "fd_node (f (fd_at s r i)) = Some n" and room: "n \<notin> std \<Longrightarrow> refs ts n s < 255"
  shows "exact std ts (pipe_fork_fd n (set_fd r i f s))"
proof -
  let ?s = "set_fd r i f s"
  have fok: "fds_ok std ts s" by (rule exactD [OF ex])
  have sum: "refs ts m ?s = refs ts m s + of_bool (m = n)" for m
    using refs_fd [OF fok r i, of m f] cl f by (auto simp: points_def)
  have p: "pipes_ok (\<lambda>n. refs ts n s) ?s" "ends ?s = ends s" "fds_ok std ts ?s" "length (pipe_table ?s) = PIPE_MAX"
    using exactD [OF ex] pipes_ok_table [of ?s s] fds_ok_set_fd [OF fok r]
    by (simp_all add: ends_def)
  have "n \<in> ends ?s \<Longrightarrow> refs ts n s < 255" using room ex p(2) by (auto simp: exact_def)
  from fork_counts [OF p(1) this] have
    q: "pipes_ok ((\<lambda>n. refs ts n s)(n := refs ts n s + 1)) (pipe_fork_fd n ?s)" by simp
  show ?thesis
  proof (rule exactI [OF _ _ q])
    show "fds_ok std ts (pipe_fork_fd n ?s)" using p(3) by (simp add: fds_ok_def)
    show "ends (pipe_fork_fd n ?s) \<inter> std = {}" using fork_ends [OF p(4), of n] p(2) ex by (auto simp: exact_def)
    show "refs ts m (pipe_fork_fd n ?s) = ((\<lambda>n. refs ts n s)(n := refs ts n s + 1)) m" for m using sum [of m] by simp
  qed
qed

lemma fd_index_less: "fd_index w = Some i \<Longrightarrow> i < VFS_FD_MAX"
  by (auto simp: fd_index_def split: if_splits)

lemma sys_close_exact:
  assumes "exact std ts s" and "r \<in> set ts" "running_task s = Some r" and "sys_close fd s = Inr (Ret v out s')"
  shows "exact std ts s'"
proof -
  have "s' = s \<or> (\<exists>i. i < VFS_FD_MAX \<and> fd_open (fd_at s r i) \<and> s' = close_fd r i s)"
    using assms(3,4) fd_index_less by (auto simp: sys_close_def cur_def fail_def ret_def split: option.splits if_splits)
  then show ?thesis using assms(1) close_fd_exact [OF assms(1,2)] by blast
qed

lemma running_close_fd [simp]: "running_task (close_fd r i s) = running_task s"
  by (simp add: close_fd_def shut_fd_def set_fd_def set_task_def split: option.split)

lemma fd_at_close_fd:
  assumes "length (fds (task_at s r)) = VFS_FD_MAX" and "j < VFS_FD_MAX"
  shows "fd_at (close_fd r i s) r j = (if j = i then (fd_at s r j)\<lparr>fd_open := False, fd_node := None\<rparr> else fd_at s r j)"
  using assms by (simp add: close_fd_def shut_fd_def fds_set_fd split: option.split)

lemma refs_close_fd_le:
  assumes "fds_ok std ts s" and "r \<in> set ts" and "i < VFS_FD_MAX"
  shows "refs ts n (close_fd r i s) \<le> refs ts n s"
  using refs_fd [OF assms, of n "\<lambda>f. f\<lparr>fd_open := False, fd_node := None\<rparr>"]
  by (simp add: close_fd_def shut_fd_def points_def split: option.split)

text \<open>\<open>dup2\<close>: the new descriptor is closed first, then opened on the node of the old one.\<close>

lemma sys_dup2_exact:
  assumes ex: "exact std ts s" and r: "r \<in> set ts" "running_task s = Some r"
    and c: "sys_dup2 oldfd newfd s = Inr (Ret v out s')" and room: "\<And>n. n \<notin> std \<Longrightarrow> refs ts n s < 255"
  shows "exact std ts s'"
proof (cases "s' = s")
  case False
  have len: "length (fds (task_at s r)) = VFS_FD_MAX" using exactD(1) [OF ex] by (simp add: fds_ok_def)
  obtain i j where ij: "fd_index oldfd = Some i" "fd_index newfd = Some j" "i \<noteq> j" "fd_open (fd_at s r i)"
    using c r(2) False by (auto simp: sys_dup2_def cur_def fail_def ret_def split: option.splits if_splits)
  have less: "i < VFS_FD_MAX" "j < VFS_FD_MAX" using ij fd_index_less by auto
  define s1 where "s1 = (if fd_open (fd_at s r j) then close_fd r j s else s)"
  have f: "fd_at s1 r i = fd_at s r i" "\<not> fd_open (fd_at s1 r j)"
    using fd_at_close_fd [OF len less(1), of j] fd_at_close_fd [OF len less(2), of j] ij(3) by (auto simp: s1_def)
  let ?s = "set_fd r j (\<lambda>_. fd_at s1 r i) s1"
  have s': "s' = (case fd_node (fd_at s r i) of None \<Rightarrow> ?s | Some n \<Rightarrow> pipe_fork_fd n ?s)"
    using c r(2) ij f(1) by (auto simp: sys_dup2_def cur_def ret_def s1_def [symmetric] Let_def)
  have ex1: "exact std ts s1" using close_fd_exact [OF ex r(1) less(2)] ex by (simp add: s1_def)
  have le: "refs ts n s1 \<le> refs ts n s" for n using refs_close_fd_le [OF exactD(1) [OF ex] r(1) less(2)] by (simp add: s1_def)
  show ?thesis
  proof (cases "fd_node (fd_at s r i)")
    case None
    have fok: "fds_ok std ts s1" by (rule exactD [OF ex1])
    have "refs ts n ?s = refs ts n s1" for n
      using refs_fd [OF fok r(1) less(2), of n "\<lambda>_. fd_at s1 r i"] f None by (simp add: points_def)
    moreover have "pipes_ok k ?s \<longleftrightarrow> pipes_ok k s1" "ends ?s = ends s1" for k
      using pipes_ok_table [of ?s s1] by (simp_all add: ends_def)
    ultimately show ?thesis using exactD [OF ex1] fds_ok_set_fd [OF fok r(1)] None by (simp add: s' exact_def)
  next
    case (Some n)
    show ?thesis unfolding s' Some option.case
      by (rule open_fd_exact [OF ex1 r(1) less(2) f(2)])
        (use f(1) ij(4) Some room [of n] le [of n] in \<open>auto intro: le_less_trans\<close>)
  qed
qed (use ex in simp)

lemma fd_allocE:
  assumes "fd_alloc r n app s = (Some i, s')"
  obtains "i < VFS_FD_MAX" and "\<not> fd_open (fd_at s r i)"
    and "s' = set_fd r i (\<lambda>f. f\<lparr>fd_open := True, fd_append := app, fd_node := Some n, fd_offset := 0, fd_dir_idx := 0\<rparr>) s"
  using assms by (auto simp: fd_alloc_def find_Some_iff split: option.splits)

lemma set_fd_set_fd: "set_fd r i g (set_fd r i f s) = set_fd r i (\<lambda>x. if i < length (fds (task_at s r)) then g (f x) else x) s"
  by (cases "i < length (fds (task_at s r))") (auto simp: set_fd_def set_task_def fun_eq_iff list_update_beyond)

lemma exact_vfs [simp]: "exact std ts (s\<lparr>sy_vfs := v\<rparr>) \<longleftrightarrow> exact std ts s"
proof -
  have "pipe_table (s\<lparr>sy_vfs := v\<rparr>) = pipe_table s" "task_at (s\<lparr>sy_vfs := v\<rparr>) = task_at s" by simp_all
  then show ?thesis by (simp add: exact_def fds_ok_def ends_def pipes_ok_def refs_def)
qed

lemma sys_open_exact:
  assumes ex: "exact std ts s" and r: "r \<in> set ts" "running_task s = Some r"
    and c: "sys_open env upath flags s = Inr (Ret v out s')" and room: "\<And>n. n \<notin> std \<Longrightarrow> refs ts n s < 255"
  shows "exact std ts s'"
proof -
  obtain p where p: "resolve_path env r upath s = Inr p" using c r(2) by (auto simp: sys_open_def with_path_def cur_def bindE_Inr_iff)
  show ?thesis
  proof (cases p)
    case None
    then show ?thesis using c r(2) p ex by (simp add: sys_open_def with_path_def cur_def fail_def)
  next
    case (Some path)
    obtain m w where o: "open_node env path flags (sy_vfs s) = Inr (m, w)"
      using c r(2) p Some by (auto simp: sys_open_def with_path_def cur_def bindE_Inr_iff)
    let ?s = "s\<lparr>sy_vfs := w\<rparr>" and ?app = "flags AND O_APPEND \<noteq> 0"
    show ?thesis
    proof (cases "m = None \<or> fst (fd_alloc r (the m) ?app ?s) = None")
      case True
      then have "s' = ?s" using c r(2) p Some o
        by (cases m) (auto simp: sys_open_def with_path_def cur_def fail_def fd_alloc_def Let_def split: option.splits)
      then show ?thesis using ex by simp
    next
      case False
      then obtain n i s1 where n: "m = Some n" and a: "fd_alloc r n ?app ?s = (Some i, s1)"
        by (metis option.collapse prod.collapse)
      have ok: "i < VFS_FD_MAX" "\<not> fd_open (fd_at ?s r i)"
        "s1 = set_fd r i (\<lambda>f. f\<lparr>fd_open := True, fd_append := ?app, fd_node := Some n, fd_offset := 0, fd_dir_idx := 0\<rparr>) ?s"
        by (rule fd_allocE [OF a], assumption)+
      have len: "i < length (fds (task_at ?s r))" using ok(1) exactD(1) [OF ex] by (simp add: fds_ok_def)
      define f0 where "f0 = (\<lambda>f :: vfs_fd. f\<lparr>fd_open := True, fd_append := ?app, fd_node := Some n, fd_offset := 0, fd_dir_idx := 0\<rparr>)"
      define g where "g = (\<lambda>x. if ?app then (f0 x)\<lparr>fd_offset := v_size (file_node s1 n)\<rparr> else f0 x)"
      have g: "fd_open (g x)" "fd_node (g x) = Some n" for x by (simp_all add: g_def f0_def)
      have "s' = pipe_fork_fd n (if ?app then set_fd r i (\<lambda>f. f\<lparr>fd_offset := v_size (file_node s1 n)\<rparr>) s1 else s1)"
        using c r(2) p Some o n a by (auto simp: sys_open_def with_path_def cur_def ret_def Let_def)
      moreover have "(if ?app then set_fd r i (\<lambda>f. f\<lparr>fd_offset := v_size (file_node s1 n)\<rparr>) s1 else s1) = set_fd r i g ?s"
        using len unfolding ok(3) g_def f0_def [symmetric] by (cases ?app) (simp_all add: set_fd_set_fd)
      ultimately have s': "s' = pipe_fork_fd n (set_fd r i g ?s)" by simp
      show ?thesis unfolding s'
        by (rule open_fd_exact [OF _ r(1) ok(1,2)]) (use ex room [of n] g in \<open>simp_all add: refs_def\<close>)
    qed
  qed
qed

text \<open>Two descriptors are opened on the ends of a new pipe, whose counts start at one.\<close>

lemma pipe_create_kept:
  assumes "pipe_create room h1 h2 s = (p, s')"
  shows "task_at s' = task_at s" and "running_task s' = running_task s"
    and "p = None \<Longrightarrow> pipe_table s' = pipe_table s"
    and "p = Some (x, y) \<Longrightarrow> ends s' \<subseteq> ends s \<union> {x, y}"
proof -
  show "task_at s' = task_at s" "running_task s' = running_task s" "p = None \<Longrightarrow> pipe_table s' = pipe_table s"
    using assms by (auto simp: pipe_create_def Let_def split: option.splits if_splits prod.splits)
  assume "p = Some (x, y)"
  then obtain i where "pipe_table s' = (pipe_table s)[i := \<lparr>pe_pipe = Some new_pipe, pe_read = Some x, pe_write = Some y\<rparr>]"
    using assms by (auto simp: pipe_create_def set_entry_def on_vfs_def Let_def split: option.splits if_splits prod.splits)
  then have "set (pipe_table s') \<subseteq> insert \<lparr>pe_pipe = Some new_pipe, pe_read = Some x, pe_write = Some y\<rparr> (set (pipe_table s))"
    by (metis set_update_subset_insert)
  then show "ends s' \<subseteq> ends s \<union> {x, y}" unfolding ends_def by (auto simp: entry_ends_def)
qed

definition unused :: "vptr set \<Rightarrow> tptr list \<Rightarrow> vptr \<Rightarrow> 'a sys_scheme \<Rightarrow> bool" where
  "unused std ts n s \<longleftrightarrow> n \<notin> std \<and> n \<notin> ends s \<and> refs ts n s = 0"

lemma sys_pipe_exact:
  assumes ex: "exact std ts s" and r: "r \<in> set ts" "running_task s = Some r"
    and c: "sys_pipe env ptr s = Inr (Ret 0 out s')"
    and new: "\<And>x y s1. pipe_create (se_room env 4108) (se_heap env) (se_heap2 env) s = (Some (x, y), s1) \<Longrightarrow>
       x \<noteq> y \<and> unused std ts x s \<and> unused std ts y s"
  shows "exact std ts s'"
proof -
  obtain x y s1 s2 s3 i j where p: "pipe_create (se_room env 4108) (se_heap env) (se_heap2 env) s = (Some (x, y), s1)"
    and a: "fd_alloc r x False s1 = (Some i, s2)" "fd_alloc r y False s2 = (Some j, s')"
    using c r(2) by (auto simp: sys_pipe_def cur_def fail_def split: if_splits prod.splits option.splits)
  have xy: "x \<noteq> y" "unused std ts x s" "unused std ts y s" using new [OF p] by auto
  note k = pipe_create_kept [OF p]
  have i: "i < VFS_FD_MAX" "\<not> fd_open (fd_at s1 r i)"
    "s2 = set_fd r i (\<lambda>f. f\<lparr>fd_open := True, fd_append := False, fd_node := Some x, fd_offset := 0, fd_dir_idx := 0\<rparr>) s1"
    by (rule fd_allocE [OF a(1)], assumption)+
  have j: "j < VFS_FD_MAX" "\<not> fd_open (fd_at s2 r j)"
    "s' = set_fd r j (\<lambda>f. f\<lparr>fd_open := True, fd_append := False, fd_node := Some y, fd_offset := 0, fd_dir_idx := 0\<rparr>) s2"
    by (rule fd_allocE [OF a(2)], assumption)+
  have f1: "fds_ok std ts s1" using exactD(1) [OF ex] by (simp add: fds_ok_def k)
  have f2: "fds_ok std ts s2" unfolding i(3) by (rule fds_ok_set_fd [OF f1 r(1)])
  have sum: "refs ts m s' = refs ts m s + of_bool (m = x) + of_bool (m = y)" for m
  proof -
    have "refs ts m s2 = refs ts m s1 + of_bool (m = x)"
      unfolding i(3)
      using refs_fd [OF f1 r(1) i(1), of m "\<lambda>f. f\<lparr>fd_open := True, fd_append := False, fd_node := Some x, fd_offset := 0, fd_dir_idx := 0\<rparr>"] i(2)
      by (auto simp: points_def)
    moreover have "refs ts m s' = refs ts m s2 + of_bool (m = y)"
      unfolding j(3)
      using refs_fd [OF f2 r(1) j(1), of m "\<lambda>f. f\<lparr>fd_open := True, fd_append := False, fd_node := Some y, fd_offset := 0, fd_dir_idx := 0\<rparr>"] j(2)
      by (auto simp: points_def)
    moreover have "refs ts m s1 = refs ts m s" by (simp add: refs_def k)
    ultimately show ?thesis by simp
  qed
  have off: "\<forall>e \<in> set (pipe_table s). x \<notin> set (entry_ends e) \<and> y \<notin> set (entry_ends e)"
    using xy by (auto simp: unused_def ends_def)
  have t: "pipe_table s' = pipe_table s1" unfolding j(3) i(3) by simp
  have "pipes_ok ((\<lambda>n. refs ts n s)(x := 1, y := 1)) s'"
    using create_counts [OF exactD(3) [OF ex] p xy(1) off] pipes_ok_table [OF t] by simp
  then show ?thesis
  proof (rule exactI [rotated 2])
    show "fds_ok std ts s'" unfolding j(3) by (rule fds_ok_set_fd [OF f2 r(1)])
    have "ends s' = ends s1" by (simp add: ends_def t)
    then show "ends s' \<inter> std = {}" using k(4) [OF refl] exactD(2) [OF ex] xy by (auto simp: unused_def)
    show "refs ts n s' = ((\<lambda>n. refs ts n s)(x := 1, y := 1)) n" for n
      using sum [of n] xy by (auto simp: unused_def)
  qed
qed

text \<open>\<open>fork\<close>: the descriptors of the running task are counted once more.\<close>

definition open_on :: "tptr \<Rightarrow> nat list \<Rightarrow> 'a sched_state_scheme \<Rightarrow> vptr \<Rightarrow> nat" where
  "open_on r is s n = length (filter (\<lambda>i. points (fd_at s r i) n) is)"

lemma open_on_all: "length (fds (task_at s r)) = VFS_FD_MAX \<Longrightarrow> open_on r [0..<VFS_FD_MAX] s n = refs_in n (fds (task_at s r))"
proof -
  assume "length (fds (task_at s r)) = VFS_FD_MAX"
  then have "fds (task_at s r) = map (\<lambda>i. fd_at s r i) [0..<VFS_FD_MAX]" by (metis map_nth)
  then have "refs_in n (fds (task_at s r)) = refs_in n (map (\<lambda>i. fd_at s r i) [0..<VFS_FD_MAX])" by (rule arg_cong)
  also have "\<dots> = open_on r [0..<VFS_FD_MAX] s n" by (simp add: refs_in_def open_on_def filter_map o_def points_def)
  finally show ?thesis by simp
qed

definition open_step :: "(vptr \<Rightarrow> 'a sys_scheme \<Rightarrow> 'a sys_scheme) \<Rightarrow> tptr \<Rightarrow> nat \<Rightarrow> 'a sys_scheme \<Rightarrow> 'a sys_scheme" where
  "open_step f r i s = (case (fd_open (fd_at s r i), fd_node (fd_at s r i)) of (True, Some n) \<Rightarrow> f n s | _ \<Rightarrow> s)"

lemma each_open_fold: "each_open f r s = fold (open_step f r) [0..<VFS_FD_MAX] s"
  by (simp add: each_open_def open_step_def [abs_def])

lemma open_step_cases:
  obtains n where "points (fd_at s r i) n" and "open_step f r i s = f n s"
  | "\<And>n. \<not> points (fd_at s r i) n" and "open_step f r i s = s"
  by (cases "fd_open (fd_at s r i)"; cases "fd_node (fd_at s r i)") (auto simp: open_step_def points_def)

lemma points_inj: "points f n \<Longrightarrow> points f m \<longleftrightarrow> m = n"
  by (auto simp: points_def)

lemma fold_forks:
  assumes "pipes_ok k s" and "\<And>n. n \<in> ends s \<Longrightarrow> k n + open_on r is s n \<le> 255"
  shows "pipes_ok (\<lambda>n. k n + open_on r is s n) (fold (open_step pipe_fork_fd r) is s) \<and>
    ends (fold (open_step pipe_fork_fd r) is s) \<subseteq> ends s \<and> task_at (fold (open_step pipe_fork_fd r) is s) = task_at s \<and>
    running_task (fold (open_step pipe_fork_fd r) is s) = running_task s"
  using assms
proof (induction "is" arbitrary: k s)
  case (Cons i "is")
  show ?case
  proof (cases rule: open_step_cases [of s r i pipe_fork_fd])
    case (1 n)
    have room: "n \<in> ends s \<Longrightarrow> k n < 255" using Cons.prems(2) [of n] 1(1) by (simp add: open_on_def)
    note ok = fork_counts [OF Cons.prems(1) room]
    note sub = fork_ends [OF pipes_ok_length [OF Cons.prems(1)], of n]
    have same: "open_on r is (pipe_fork_fd n s) = open_on r is s" by (simp add: open_on_def fun_eq_iff)
    have "(k(n := k n + 1)) m + open_on r is (pipe_fork_fd n s) m \<le> 255" if "m \<in> ends (pipe_fork_fd n s)" for m
      using Cons.prems(2) [of m] sub that 1(1) points_inj [OF 1(1), of m] by (auto simp: open_on_def same)
    from Cons.IH [OF ok this] sub
    have IH: "pipes_ok (\<lambda>m. (k(n := k n + 1)) m + open_on r is s m) (fold (open_step pipe_fork_fd r) (i # is) s)"
      "ends (fold (open_step pipe_fork_fd r) (i # is) s) \<subseteq> ends s"
      "task_at (fold (open_step pipe_fork_fd r) (i # is) s) = task_at s"
      "running_task (fold (open_step pipe_fork_fd r) (i # is) s) = running_task s"
      by (auto simp: 1(2) same)
    moreover have "(\<lambda>m. (k(n := k n + 1)) m + open_on r is s m) = (\<lambda>m. k m + open_on r (i # is) s m)"
      using points_inj [OF 1(1)] by (auto simp: open_on_def fun_eq_iff)
    ultimately show ?thesis by simp
  next
    case 2
    have "open_on r (i # is) s = open_on r is s" using 2(1) by (simp add: open_on_def fun_eq_iff)
    then show ?thesis using Cons.IH [OF Cons.prems(1)] Cons.prems(2) 2(2) by simp
  qed
qed (simp add: open_on_def)

lemma fold_notifies:
  assumes "pipes_ok k s" and "\<And>n. n \<in> ends s \<Longrightarrow> open_on r is s n \<le> k n"
  shows "pipes_ok (\<lambda>n. k n - open_on r is s n) (fold (open_step pipe_notify_close r) is s) \<and>
    ends (fold (open_step pipe_notify_close r) is s) \<subseteq> ends s \<and> task_at (fold (open_step pipe_notify_close r) is s) = task_at s"
  using assms
proof (induction "is" arbitrary: k s)
  case (Cons i "is")
  show ?case
  proof (cases rule: open_step_cases [of s r i pipe_notify_close])
    case (1 n)
    have pos: "n \<in> ends s \<Longrightarrow> k n > 0" using Cons.prems(2) [of n] 1(1) by (simp add: open_on_def)
    note ok = close_counts [OF Cons.prems(1) pos]
    note sub = close_ends [OF pipes_ok_length [OF Cons.prems(1)], of n]
    have same: "open_on r is (pipe_notify_close n s) = open_on r is s" by (simp add: open_on_def fun_eq_iff)
    have "open_on r is (pipe_notify_close n s) m \<le> (k(n := k n - 1)) m" if "m \<in> ends (pipe_notify_close n s)" for m
      using Cons.prems(2) [of m] sub that 1(1) points_inj [OF 1(1), of m] by (auto simp: open_on_def same)
    from Cons.IH [OF ok this] sub
    have IH: "pipes_ok (\<lambda>m. (k(n := k n - 1)) m - open_on r is s m) (fold (open_step pipe_notify_close r) (i # is) s)"
      "ends (fold (open_step pipe_notify_close r) (i # is) s) \<subseteq> ends s"
      "task_at (fold (open_step pipe_notify_close r) (i # is) s) = task_at s"
      by (auto simp: 1(2) same)
    moreover have "(\<lambda>m. (k(n := k n - 1)) m - open_on r is s m) = (\<lambda>m. k m - open_on r (i # is) s m)"
      using points_inj [OF 1(1)] by (auto simp: open_on_def fun_eq_iff)
    ultimately show ?thesis by simp
  next
    case 2
    have "open_on r (i # is) s = open_on r is s" using 2(1) by (simp add: open_on_def fun_eq_iff)
    then show ?thesis using Cons.IH [OF Cons.prems(1)] Cons.prems(2) 2(2) by simp
  qed
qed (simp add: open_on_def)

lemma insert_pipe_table: "insert_task_sorted t p s = Inr s' \<Longrightarrow> pipe_table s' = pipe_table s"
  by (erule insert_task_sortedE)
    (auto simp: insert_task_before_def Let_def bindE_Inr_iff simp del: set_task_simps split: option.splits)

lemma sys_fork_exact:
  assumes ex: "exact std ts s" and r: "r \<in> set ts" "running_task s = Some r"
    and c: "sys_fork env frame (Some c) s = Inr (Ret v out s')" "ce_stack env \<noteq> None" "c \<notin> set ts"
    and room: "\<And>n. n \<notin> std \<Longrightarrow> refs ts n s + refs_in n (fds (task_at s r)) \<le> 255"
  shows "exact std (c # ts) s'"
proof -
  have fok: "fds_ok std ts s" by (rule exactD [OF ex])
  then have len: "length (fds (task_at s r)) = VFS_FD_MAX" by (simp add: fds_ok_def)
  define s1 where "s1 = each_open pipe_fork_fd r s"
  have "refs ts n s + open_on r [0..<VFS_FD_MAX] s n \<le> 255" if "n \<in> ends s" for n
    using room [of n] that exactD(2) [OF ex] by (auto simp: open_on_all [OF len])
  from fold_forks [OF exactD(3) [OF ex] this]
  have s1: "pipes_ok (\<lambda>n. refs ts n s + refs_in n (fds (task_at s r))) s1" "ends s1 \<subseteq> ends s" "task_at s1 = task_at s"
    "running_task s1 = running_task s" by (simp_all add: s1_def each_open_fold open_on_all [OF len])
  obtain stack where stack: "ce_stack env = Some stack" using c(2) by auto
  define x where "x = fork_struct env (last_pid s1 + 1) frame stack (task_at s r)"
  have ins: "insert_task_sorted c (prio_s x) (set_task c (\<lambda>_. x) (s1\<lparr>last_pid := last_pid s1 + 1\<rparr>)) = Inr s'"
    using c(1) r(2) stack s1(3,4)
    by (auto simp: sys_fork_def cur_def s1_def [symmetric] task_fork_def Let_def bindE_Inr_iff x_def ret_def)
  have fx: "fds x = fds (task_at s r)" by (simp add: x_def fork_struct_def)
  have f: "fds (task_at s' t) = (if t = c then fds (task_at s r) else fds (task_at s t))" for t
    using fds_same_insert [OF ins] s1(3) fx by (simp add: fds_same_def)
  have t: "pipe_table s' = pipe_table s1" using insert_pipe_table [OF ins] by simp
  have R: "refs (c # ts) n s' = refs_in n (fds (task_at s r)) + refs ts n s" for n
    using c(3) by (auto simp: refs_def f intro!: arg_cong [of _ _ sum_list])
  show ?thesis
  proof (rule exactI)
    show "pipes_ok (\<lambda>n. refs ts n s + refs_in n (fds (task_at s r))) s'" using s1(1) pipes_ok_table [OF t] by blast
    show "ends s' \<inter> std = {}" using s1(2) exactD(2) [OF ex] by (auto simp: ends_def t)
    show "fds_ok std (c # ts) s'" using fok c(3) r(1) by (auto simp: fds_ok_def f)
    show "refs (c # ts) n s' = refs ts n s + refs_in n (fds (task_at s r))" for n by (simp add: R)
  qed
qed

text \<open>A fork that fails gives the references up again.\<close>

lemma failed_fork_exact:
  assumes ex: "exact std ts s" and r: "r \<in> set ts" "running_task s = Some r"
    and c: "sys_fork env frame child s = Inr (Ret v out s')" "child = None \<or> ce_stack env = None"
    and room: "\<And>n. n \<notin> std \<Longrightarrow> refs ts n s + refs_in n (fds (task_at s r)) \<le> 255"
  shows "exact std ts s'"
proof -
  have fok: "fds_ok std ts s" by (rule exactD [OF ex])
  then have len: "length (fds (task_at s r)) = VFS_FD_MAX" by (simp add: fds_ok_def)
  define s1 where "s1 = each_open pipe_fork_fd r s"
  have "refs ts n s + open_on r [0..<VFS_FD_MAX] s n \<le> 255" if "n \<in> ends s" for n
    using room [of n] that exactD(2) [OF ex] by (auto simp: open_on_all [OF len])
  from fold_forks [OF exactD(3) [OF ex] this]
  have s1: "pipes_ok (\<lambda>n. refs ts n s + refs_in n (fds (task_at s r))) s1" "ends s1 \<subseteq> ends s" "task_at s1 = task_at s"
    "running_task s1 = running_task s" by (simp_all add: s1_def each_open_fold open_on_all [OF len])
  obtain s2 where s2: "task_fork env frame child s1 = Inr (None, s2)" and s': "s' = each_open pipe_notify_close r s2"
    using c r(2) by (auto simp: sys_fork_def cur_def s1_def [symmetric] task_fork_def Let_def bindE_Inr_iff fail_def ret_def
      split: option.splits)
  have k: "pipe_table s2 = pipe_table s1" "task_at s2 = task_at s"
    using s2 s1(3) by (auto simp: task_fork_def Let_def bindE_Inr_iff split: option.splits)
  have all: "open_on r [0..<VFS_FD_MAX] s2 n = refs_in n (fds (task_at s r))" for n
    using open_on_all [of s2 r n] len by (simp add: k)
  have "pipes_ok (\<lambda>n. refs ts n s + refs_in n (fds (task_at s r))) s2" using s1(1) pipes_ok_table [OF k(1)] by blast
  from fold_notifies [OF this, of r "[0..<VFS_FD_MAX]"]
  have n: "pipes_ok (\<lambda>n. refs ts n s) s'" "ends s' \<subseteq> ends s2" "task_at s' = task_at s"
    by (simp_all add: s' each_open_fold all k)
  show ?thesis
  proof (rule exactI [OF _ _ n(1)])
    show "fds_ok std ts s'" using fok n(3) by (simp add: fds_ok_def)
    show "ends s' \<inter> std = {}" using n(2) s1(2) exactD(2) [OF ex] k(1) by (auto simp: ends_def)
  qed (simp add: refs_def n(3))
qed

text \<open>The calls that leave the ends of the descriptors and the counts alone.\<close>

definition same_counts :: "pipe_entry \<Rightarrow> pipe_entry \<Rightarrow> bool" where
  "same_counts e e' \<longleftrightarrow> pe_read e' = pe_read e \<and> pe_write e' = pe_write e \<and>
     map_option (\<lambda>p. (read_refs p, write_refs p)) (pe_pipe e') = map_option (\<lambda>p. (read_refs p, write_refs p)) (pe_pipe e)"

definition calm :: "'a sys_scheme \<Rightarrow> 'a sys_scheme \<Rightarrow> bool" where
  "calm s s' \<longleftrightarrow>
     (\<forall>t. map (\<lambda>f. (fd_open f, fd_node f)) (fds (task_at s' t)) = map (\<lambda>f. (fd_open f, fd_node f)) (fds (task_at s t))) \<and>
     list_all2 same_counts (pipe_table s) (pipe_table s')"

lemma same_counts_refl [simp]: "same_counts e e"
  by (simp add: same_counts_def)

lemma same_counts_trans: "same_counts e f \<Longrightarrow> same_counts f g \<Longrightarrow> same_counts e g"
  by (simp add: same_counts_def)

lemma calm_refl [simp]: "calm s s"
  by (simp add: calm_def list_all2_refl)

lemma calm_trans [trans]: "calm s s' \<Longrightarrow> calm s' s'' \<Longrightarrow> calm s s''"
  using list_all2_trans [of same_counts same_counts same_counts, OF same_counts_trans] by (fastforce simp: calm_def)

lemma refs_in_map: "refs_in n xs = length (filter (\<lambda>(o', m). o' \<and> m = Some n) (map (\<lambda>f. (fd_open f, fd_node f)) xs))"
  by (simp add: refs_in_def filter_map o_def)

lemma same_counts_ends: "same_counts e e' \<Longrightarrow> entry_ends e' = entry_ends e \<and> (refs_match k e' \<longleftrightarrow> refs_match k e)"
  by (cases "pe_pipe e"; cases "pe_pipe e'") (auto simp: same_counts_def entry_ends_def refs_match_def)

lemma calm_exact:
  assumes "calm s s'" and "exact std ts s"
  shows "exact std ts s'"
proof -
  have fd: "\<And>t. map (\<lambda>f. (fd_open f, fd_node f)) (fds (task_at s' t)) = map (\<lambda>f. (fd_open f, fd_node f)) (fds (task_at s t))"
    and tab: "list_all2 same_counts (pipe_table s) (pipe_table s')" using assms(1) by (auto simp: calm_def)
  have ri: "refs_in n (fds (task_at s' t)) = refs_in n (fds (task_at s t))" for n t unfolding refs_in_map fd ..
  have len: "length (fds (task_at s' t)) = length (fds (task_at s t))" for t using arg_cong [OF fd [of t], of length] by simp
  have ee: "map entry_ends (pipe_table s') = map entry_ends (pipe_table s)"
    using tab by (induction rule: list_all2_induct) (simp_all add: same_counts_ends)
  have rm: "(\<forall>e \<in> set (pipe_table s'). refs_match k e) \<longleftrightarrow> (\<forall>e \<in> set (pipe_table s). refs_match k e)" for k
    using tab by (induction rule: list_all2_induct) (simp_all add: same_counts_ends)
  have "\<Union> (set (map (set \<circ> entry_ends) (pipe_table s'))) = \<Union> (set (map (set \<circ> entry_ends) (pipe_table s)))"
    using arg_cong [OF ee, of "map set"] by (metis map_map)
  then have "ends s' = ends s" by (simp add: ends_def)
  moreover have "pipes_ok k s' \<longleftrightarrow> pipes_ok k s" for k
    unfolding pipes_ok_def rm ee using list_all2_lengthD [OF tab] by simp
  ultimately show ?thesis using assms(2) by (simp add: exact_def fds_ok_def refs_def ri len)
qed

definition pipe_refs :: "pipe \<Rightarrow> u8 \<times> u8" where
  "pipe_refs p = (read_refs p, write_refs p)"

fun read_pipe :: "read_outcome \<Rightarrow> pipe" where
  "read_pipe (Read_returns bs p) = p"
| "read_pipe (Read_waits p) = p"

fun written_pipe :: "write_outcome \<Rightarrow> pipe" where
  "written_pipe (Write_returns k p) = p"
| "written_pipe (Write_waits rest n p) = p"

lemma read_loop_refs: "pipe_refs (read_pipe (pipe_read_loop nb k out p)) = pipe_refs p"
  by (induction nb k out p rule: pipe_read_loop.induct) (simp_all add: pop_byte_def pipe_refs_def)

lemma write_loop_refs: "pipe_refs (written_pipe (pipe_write_loop bs n p)) = pipe_refs p"
  by (induction bs n p rule: pipe_write_loop.induct) (simp_all add: push_byte_def pipe_refs_def)

lemma write_refs: "pipe_refs (written_pipe (pipe_write bs p)) = pipe_refs p"
  by (simp add: pipe_write_def write_loop_refs)

lemma calm_set_pipe:
  assumes "pe_pipe (pipe_table s ! i) = Some p" and "pipe_refs q = pipe_refs p"
  shows "calm s (set_pipe i q s)"
proof -
  have sc: "same_counts (pipe_table s ! i) ((pipe_table s ! i)\<lparr>pe_pipe := Some q\<rparr>)"
    using assms by (simp add: same_counts_def pipe_refs_def)
  have "list_all2 same_counts (pipe_table s) ((pipe_table s)[i := (pipe_table s ! i)\<lparr>pe_pipe := Some q\<rparr>])"
    by (cases "i < length (pipe_table s)") (use sc in \<open>auto simp: nth_list_update list_update_beyond list_all2_refl intro!: list_all2_all_nthI\<close>)
  then show ?thesis by (simp add: calm_def set_pipe_def set_entry_def)
qed

lemma calm_task:
  "(\<And>t. map (\<lambda>f. (fd_open f, fd_node f)) (fds (f t)) = map (\<lambda>f. (fd_open f, fd_node f)) (fds t)) \<Longrightarrow> calm s (set_task r f s)"
  by (simp add: calm_def set_task_def list_all2_refl)

lemma calm_fd:
  assumes "\<And>x. fd_open (f x) = fd_open x \<and> fd_node (f x) = fd_node x"
  shows "calm s (set_fd r i f s)"
  unfolding set_fd_def
proof (rule calm_task)
  fix t
  show "map (\<lambda>f. (fd_open f, fd_node f)) (fds (t\<lparr>fds := (fds t)[i := f (fds t ! i)]\<rparr>)) = map (\<lambda>f. (fd_open f, fd_node f)) (fds t)"
    using assms by (cases "i < length (fds t)") (simp_all add: map_update list_update_beyond list_update_same_conv)
qed

lemma calm_vfs: "calm s (s\<lparr>sy_vfs := v\<rparr>)"
  by (simp add: calm_def list_all2_refl)

text \<open>The state in which a call ends or halts.\<close>

fun after :: "'s sysret \<Rightarrow> 's" where
  "after (Ret v out s) = s"
| "after (Halted w s) = s"

fun io_state :: "('r, 's) io \<Rightarrow> 's" where
  "io_state (Done r s) = s"
| "io_state (Waits s) = s"

lemma node_read_calm:
  assumes "node_read d nb n off len s = Inr io"
  shows "calm s (io_state io)"
proof (cases "v_read_op (file_node s n)")
  case (Some f)
  show ?thesis
  proof (cases "is_chardev (sy_vfs s) n \<and> f < slot_read PIPE_MAX \<and> even f")
    case True
    obtain p where p: "pe_pipe (pipe_table s ! (f div 2)) = Some p"
      using assms Some True by (auto simp: node_read_def split: option.splits)
    have "io_state io = set_pipe (f div 2) (read_pipe (pipe_read nb len p)) s"
      using assms Some True p by (auto simp: node_read_def split: read_outcome.splits)
    then show ?thesis using calm_set_pipe [OF p] read_loop_refs by (simp add: pipe_read_def)
  next
    case False
    then have "(if is_chardev (sy_vfs s) n \<and> f < slot_read PIPE_MAX \<and> even f then a else b) = b" for a b :: "fault + (u8 list, 'a sys_scheme) io"
      by (rule if_not_P)
    then have "io = Done (vfs_read d (sy_vfs s) (Some n) off len) s" using assms Some by (simp add: node_read_def)
    then show ?thesis by simp
  qed
qed (use assms in \<open>auto simp: node_read_def\<close>)

fun wio_state :: "('r, 'x \<times> 's) io \<Rightarrow> 's" where
  "wio_state (Done r (x, s)) = s"
| "wio_state (Waits (x, s)) = s"

lemma node_write_calm:
  assumes "node_write d h cont n off bs s = Inr io"
  shows "calm s (wio_state io)"
proof -
  have v: "calm s (wio_state io)" if "bindE (vfs_write d h (Some n) off bs (sy_vfs s)) (\<lambda>(k, v). Inr (Done k (None, s\<lparr>sy_vfs := v\<rparr>))) = Inr io"
    using that calm_vfs by (auto simp: bindE_Inr_iff)
  show ?thesis
  proof (cases "v_write_op (file_node s n)")
    case (Some f)
    show ?thesis
    proof (cases "is_chardev (sy_vfs s) n \<and> f < slot_read PIPE_MAX \<and> odd f")
      case True
      obtain p where p: "pe_pipe (pipe_table s ! (f div 2)) = Some p"
        using assms Some True by (auto simp: node_write_def split: option.splits)
      define out where "out = (case cont of None \<Rightarrow> pipe_write bs p | Some written \<Rightarrow> pipe_write_loop bs written p)"
      have "wio_state io = set_pipe (f div 2) (written_pipe out) s"
        using assms Some True p by (auto simp: node_write_def out_def [symmetric] split: write_outcome.splits)
      moreover have "pipe_refs (written_pipe out) = pipe_refs p" by (simp add: out_def write_refs write_loop_refs split: option.split)
      ultimately show ?thesis using calm_set_pipe [OF p] by simp
    next
      case False
      then have "(if is_chardev (sy_vfs s) n \<and> f < slot_read PIPE_MAX \<and> odd f then a else b) = b"
        for a b :: "fault + (u32, (u8 list \<times> nat) option \<times> 'a sys_scheme) io" by (rule if_not_P)
      then show ?thesis using assms Some v by (simp add: node_write_def)
    qed
  qed (use assms v in \<open>simp add: node_write_def\<close>)
qed

lemma read_step_calm:
  assumes "read_step env r i n off len track s = Inr x"
  shows "calm s (after x)"
proof -
  obtain io where io: "node_read (se_dev env) (read_nonblock (task_at s r)) n off len s = Inr io"
    using assms by (auto simp: read_step_def bindE_Inr_iff)
  have "calm (io_state io) (after x)"
  proof (cases io)
    case (Done bs s1)
    have "after x = (let s2 = set_task r (\<lambda>t. t\<lparr>read_nonblock := False\<rparr>) s1 in
        if track then set_fd r i (\<lambda>f. f\<lparr>fd_offset := fd_offset f + of_nat (length bs)\<rparr>) s2 else s2)"
      using assms io Done by (auto simp: read_step_def Let_def)
    then show ?thesis using Done by (auto simp: Let_def intro: calm_task calm_fd calm_trans [OF calm_task calm_fd])
  next
    case (Waits s1)
    have "after x = set_task r (\<lambda>t. t\<lparr>blocking := True\<rparr>) s1" using assms io Waits by (auto simp: read_step_def)
    then show ?thesis using Waits by (auto intro: calm_task)
  qed
  with node_read_calm [OF io] show ?thesis by (rule calm_trans)
qed

lemma write_step_calm:
  assumes "write_step env r i n off cont bs s = Inr x"
  shows "calm s (after x)"
proof -
  obtain io where io: "node_write (se_dev env) (se_heap env) cont n off bs s = Inr io"
    using assms by (auto simp: write_step_def bindE_Inr_iff)
  have "calm (wio_state io) (after x)"
    using assms io by (cases io)
      (auto simp: write_step_def ret_def split: option.splits intro!: calm_task calm_fd)
  with node_write_calm [OF io] show ?thesis by (rule calm_trans)
qed

lemma sys_read_calm:
  assumes "sys_read env fd buf len s = Inr x"
  shows "calm s (after x)"
proof -
  have nb: "calm s (after x)" if "read_step env r i n off l track (if b then set_task r (\<lambda>t. t\<lparr>read_nonblock := True\<rparr>) s else s) = Inr x"
    for r i n off l track b
  proof -
    have "calm s (if b then set_task r (\<lambda>t. t\<lparr>read_nonblock := True\<rparr>) s else s)" by (auto intro!: calm_task)
    then show ?thesis using read_step_calm [OF that] by (rule calm_trans)
  qed
  show ?thesis using assms nb unfolding sys_read_def Let_def
    by (auto simp: fail_def cur_def split: option.splits bool.splits if_splits)
qed

lemma sys_write_calm: "sys_write env fd buf len s = Inr x \<Longrightarrow> calm s (after x)"
  unfolding sys_write_def Let_def
  by (auto simp: fail_def ret_def cur_def bindE_Inr_iff intro: write_step_calm calm_vfs
    split: option.splits bool.splits if_splits)

lemma sys_lseek_calm: "sys_lseek fd off whence s = Inr x \<Longrightarrow> calm s (after x)"
  unfolding sys_lseek_def Let_def
  by (auto simp: fail_def ret_def cur_def intro!: calm_fd split: option.splits bool.splits if_splits)

lemma wait_loop_calm: "wait_loop target st r s = Inr x \<Longrightarrow> calm s (after x)"
  by (auto simp: wait_loop_def wait_over_def Let_def intro!: calm_task split: if_splits)

lemma resume_calm:
  assumes "resume env w s = Inr x"
  shows "calm s (after x)"
proof -
  obtain r where r: "running_task s = Some r" using assms by (auto simp: resume_def cur_def split: option.splits)
  let ?s = "set_task r (\<lambda>t. t\<lparr>blocking := False\<rparr>) s"
  have "calm ?s (after x)" using assms r
    by (cases w) (auto simp: resume_def cur_def ret_def intro: read_step_calm write_step_calm wait_loop_calm)
  moreover have "calm s ?s" by (rule calm_task) simp
  ultimately show ?thesis using calm_trans by blast
qed

section \<open>All interleavings\<close>

text \<open>
  One call of the running task, one of the tasks \<open>ts\<close>: the calls that open, copy or close
  descriptors, that read and write, halt and go on, and that create and end tasks; and the switch to another task. A step
  that opens descriptors starts with fewer than 224 on each node, so that the counts, which
  are bytes, have room for a fork of 32 more; the nodes of a new pipe are not in use.
\<close>

definition room :: "vptr set \<Rightarrow> tptr list \<Rightarrow> 'a sched_state_scheme \<Rightarrow> bool" where
  "room std ts s \<longleftrightarrow> (\<forall>n. n \<notin> std \<longrightarrow> refs ts n s < 224)"

inductive sys_step :: "vptr set \<Rightarrow> tptr list \<times> 'a sys_scheme \<Rightarrow> tptr list \<times> 'a sys_scheme \<Rightarrow> bool" for std where
  close_step: "\<lbrakk>running_task s = Some r; r \<in> set ts; sys_close fd s = Inr (Ret v out s')\<rbrakk> \<Longrightarrow> sys_step std (ts, s) (ts, s')"
| dup2_step: "\<lbrakk>running_task s = Some r; r \<in> set ts; room std ts s; sys_dup2 oldfd newfd s = Inr (Ret v out s')\<rbrakk>
    \<Longrightarrow> sys_step std (ts, s) (ts, s')"
| open_step: "\<lbrakk>running_task s = Some r; r \<in> set ts; room std ts s; sys_open env upath flags s = Inr (Ret v out s')\<rbrakk>
    \<Longrightarrow> sys_step std (ts, s) (ts, s')"
| pipe_step: "\<lbrakk>running_task s = Some r; r \<in> set ts; sys_pipe env ptr s = Inr (Ret 0 out s');
      pipe_create (se_room env 4108) (se_heap env) (se_heap2 env) s = (Some (x, y), s1);
      x \<noteq> y; unused std ts x s; unused std ts y s\<rbrakk> \<Longrightarrow> sys_step std (ts, s) (ts, s')"
| read_write_step: "\<lbrakk>sys_read env fd buf len s = Inr x \<or> sys_write env fd buf len s = Inr x \<or> sys_lseek fd buf len s = Inr x\<rbrakk>
    \<Longrightarrow> sys_step std (ts, s) (ts, after x)"
| resume_step: "resume env w s = Inr x \<Longrightarrow> sys_step std (ts, s) (ts, after x)"
| switch_step: "q \<in> set ts \<Longrightarrow> sys_step std (ts, s) (ts, s\<lparr>running_task := Some q\<rparr>)"
| fork_step: "\<lbrakk>running_task s = Some r; r \<in> set ts; room std ts s; c \<notin> set ts; ce_stack cenv \<noteq> None;
      sys_fork cenv frame (Some c) s = Inr (Ret v out s')\<rbrakk> \<Longrightarrow> sys_step std (ts, s) (c # ts, s')"
| no_fork_step: "\<lbrakk>running_task s = Some r; r \<in> set ts; room std ts s; child = None \<or> ce_stack cenv = None;
      sys_fork cenv frame child s = Inr (Ret v out s')\<rbrakk> \<Longrightarrow> sys_step std (ts, s) (ts, s')"
| kill_step: "\<lbrakk>std_nodes (kc_env k) \<subseteq> std; sys_kill k target s = Inr (Gone s') \<or> sys_kill k target s = Inr (Back (Ret v out s'))\<rbrakk>
    \<Longrightarrow> sys_step std (ts, s) (ts, s')"
| exit_step: "\<lbrakk>std_nodes (kc_env k) \<subseteq> std; sys_exit_task k code s = Inr (Gone s')\<rbrakk> \<Longrightarrow> sys_step std (ts, s) (ts, s')"

lemma refs_in_le: "refs_in n xs \<le> length xs"
  by (simp add: refs_in_def)

lemma room_fork:
  assumes "room std ts s" and "exact std ts s" and "n \<notin> std"
  shows "refs ts n s + refs_in n (fds (task_at s r)) \<le> 255"
proof -
  have "refs_in n (fds (task_at s r)) \<le> 32"
    using refs_in_le [of n "fds (task_at s r)"] exactD(1) [OF assms(2)] by (simp add: fds_ok_def VFS_FD_MAX_def)
  then show ?thesis using assms(1,3) by (fastforce simp: room_def)
qed

lemma sys_kill_exact:
  assumes "exact std ts s" and "std_nodes (kc_env k) \<subseteq> std"
    and "sys_kill k target s = Inr (Gone s') \<or> sys_kill k target s = Inr (Back (Ret v out s'))"
  shows "exact std ts s'"
proof (cases "s' = s")
  case False
  then obtain t gone where "kill_task k t s = Inr (gone, s')"
    using assms(3) by (auto simp: sys_kill_def nodes_or_def bindE_Inr_iff split: if_splits option.splits)
  then show ?thesis by (rule kill_exact [OF assms(1,2)])
qed (use assms(1) in simp)

lemma sys_exit_exact:
  assumes "exact std ts s" and "std_nodes (kc_env k) \<subseteq> std" and "sys_exit_task k code s = Inr (Gone s')"
  shows "exact std ts s'"
proof -
  obtain r gone where k: "kill_task k r (set_task r (\<lambda>t. t\<lparr>exit_status := sint code\<rparr>) s) = Inr (gone, s')"
    using assms(3) by (auto simp: sys_exit_task_def cur_def bindE_Inr_iff split: option.splits if_splits)
  have "calm s (set_task r (\<lambda>t. t\<lparr>exit_status := sint code\<rparr>) s)" by (rule calm_task) simp
  from kill_exact [OF calm_exact [OF this assms(1)] assms(2) k] show ?thesis .
qed

lemma sys_step_exact:
  assumes "sys_step std x y" and "exact std (fst x) (snd x)"
  shows "exact std (fst y) (snd y)"
  using assms
proof (induction rule: sys_step.induct)
  case (close_step s r ts fd v out s')
  then show ?case using sys_close_exact by fastforce
next
  case (dup2_step s r ts oldfd newfd v out s')
  have "refs ts n s < 255" if "n \<notin> std" for n using dup2_step(3) that by (fastforce simp: room_def)
  then show ?case using sys_dup2_exact dup2_step by fastforce
next
  case (open_step s r ts env upath flags v out s')
  have "refs ts n s < 255" if "n \<notin> std" for n using open_step(3) that by (fastforce simp: room_def)
  then show ?case using sys_open_exact open_step by fastforce
next
  case (pipe_step s r ts env ptr out s' x y s1)
  then show ?case using sys_pipe_exact [of std ts s r env ptr out s'] by auto
next
  case (read_write_step env fd buf len s x ts)
  then have "calm s (after x)" using sys_read_calm sys_write_calm sys_lseek_calm by blast
  then show ?case using calm_exact read_write_step(2) by auto
next
  case (resume_step env w s x ts)
  then show ?case using calm_exact [OF resume_calm] by auto
next
  case (switch_step q ts s)
  have "calm s (s\<lparr>running_task := Some q\<rparr>)" by (simp add: calm_def list_all2_refl)
  then show ?case using calm_exact switch_step(2) by auto
next
  case (fork_step s r ts c cenv frame v out s')
  then show ?case using sys_fork_exact [OF _ _ _ fork_step(6,5,4)] room_fork [OF fork_step(3)] by auto
next
  case (no_fork_step s r ts child cenv frame v out s')
  then show ?case using failed_fork_exact [OF _ _ _ no_fork_step(5,4)] room_fork [OF no_fork_step(3)] by auto
next
  case (kill_step k target s s' v out ts)
  then show ?case using sys_kill_exact [of std ts s k target s' v out] by simp
next
  case (exit_step k code s s' ts)
  then show ?case using sys_exit_exact by auto
qed


definition demo_sys :: sys where
  "demo_sys = \<lparr>task_at = (\<lambda>_. zero_task), sched_queue = Some 1, running_task = Some 1, prev_task = None,
     total_ticks = 0, last_pid = 7,
     sy_vfs = \<lparr>node_at = (\<lambda>_. zero_node), node_pool_used = 5, node_free_list = None, next_inode = 1, vfs_root = None,
       mount_table = [], fs_registry = []\<rparr>,
     pipe_table = replicate PIPE_MAX free_entry\<rparr>"

definition demo_call :: sys_env where
  "demo_call = \<lparr>se_str = (\<lambda>_. []), se_bytes = (\<lambda>_ _. []),
     se_dev = \<lparr>df_read = (\<lambda>_ _ _. []), df_write = (\<lambda>_ _ _. 0), df_control = (\<lambda>_ _ _ _. -1)\<rparr>,
     se_drv = (\<lambda>_. \<lparr>fo_mount = (\<lambda>_ _ s. (-1, s)), fo_umount = None, fo_create = None, fo_mkdir = None, fo_unlink = None\<rparr>),
     se_heap = \<lparr>he_node = None, he_buf = (\<lambda>_. None)\<rparr>, se_heap2 = \<lparr>he_node = None, he_buf = (\<lambda>_. None)\<rparr>,
     se_room = (\<lambda>_. True), se_blkdev = (\<lambda>_. None)\<rparr>"

lemma demo_exact: "exact {} [1] demo_sys"
proof -
  have "refs_in n (replicate VFS_FD_MAX closed_fd) = 0" for n by (simp add: refs_in_def closed_fd_def)
  moreover have "refs_match k free_entry" for k by (simp add: refs_match_def free_entry_def)
  ultimately show ?thesis by (simp add: exact_def fds_ok_def pipes_ok_def demo_sys_def zero_task_def map_replicate_const)
qed

lemma case_ret:
  "(case x of Inr (Ret v out s) \<Rightarrow> P v out s | _ \<Rightarrow> False) \<Longrightarrow> \<exists>v out s. x = Inr (Ret v out s) \<and> P v out s"
  by (simp split: sum.splits sysret.splits)

lemma demo_run:
  "case sys_pipe demo_call USER_SPACE_START demo_sys of
     Inr (Ret v out s) \<Rightarrow> v = 0 \<and>
       (case sys_close 1 s of
          Inr (Ret v' out' s') \<Rightarrow> length (pipe_table s') = 16 \<and>
            map_option write_refs (pe_pipe (pipe_table s' ! 0)) = Some 0 \<and> pe_write (pipe_table s' ! 0) = Some 6 \<and>
            running_task s = Some 1
        | _ \<Rightarrow> False)
   | _ \<Rightarrow> False"
  by code_simp

lemma demo_nodes: "fst (pipe_create (se_room demo_call 4108) (se_heap demo_call) (se_heap2 demo_call) demo_sys) = Some (5, 6)"
  by code_simp


end
