(* ===== verification/Ext2_Disk.thy ===== *)
theory Ext2_Disk
  imports Vfs
begin

text \<open>
  The on-disk structures of \<open>fs/ext2.c\<close> and the way from a file to its bytes: little-endian
  fields, the inode and group descriptors, blocks, the pointers of a file to its blocks with
  and without the cache of indirect tables, and reading. The medium is a map from byte
  addresses to bytes; transfers succeed (the driver ignores their result).
\<close>

section \<open>Little-endian fields\<close>

definition enc16 :: "u16 \<Rightarrow> u8 list" where
  "enc16 w = [ucast w, ucast (drop_bit 8 w)]"

definition enc32 :: "u32 \<Rightarrow> u8 list" where
  "enc32 w = [ucast w, ucast (drop_bit 8 w), ucast (drop_bit 16 w), ucast (drop_bit 24 w)]"

definition get16 :: "u8 list \<Rightarrow> nat \<Rightarrow> u16" where
  "get16 xs i = ucast (xs ! i) OR push_bit 8 (ucast (xs ! (i + 1)))"

definition get32 :: "u8 list \<Rightarrow> nat \<Rightarrow> u32" where
  "get32 xs i = ucast (xs ! i) OR push_bit 8 (ucast (xs ! (i + 1))) OR
     push_bit 16 (ucast (xs ! (i + 2))) OR push_bit 24 (ucast (xs ! (i + 3)))"

text \<open>\<open>memcpy(t + i, xs, n)\<close>.\<close>

definition put :: "nat \<Rightarrow> u8 list \<Rightarrow> u8 list \<Rightarrow> u8 list" where
  "put i xs t = take i t @ xs @ drop (i + length xs) t"

section \<open>Structures\<close>

definition EXT2_MAGIC :: u16 where "EXT2_MAGIC = 0xEF53"
definition EXT2_ROOT_INO :: u32 where "EXT2_ROOT_INO = 2"
definition EXT2_IMODE_DIR :: u16 where "EXT2_IMODE_DIR = 0x4000"
definition EXT2_IMODE_FILE :: u16 where "EXT2_IMODE_FILE = 0x8000"
definition EXT2_IMODE_MASK :: u16 where "EXT2_IMODE_MASK = 0xF000"
definition EXT2_FILE_SLOTS :: nat where "EXT2_FILE_SLOTS = 32"
definition EXT2_READ_RUN_MAX :: u32 where "EXT2_READ_RUN_MAX = 128"

text \<open>\<open>struct ext2_superblock\<close> stays in its buffer; the fields in use, by their offset.\<close>

definition s_blocks_count :: "u8 list \<Rightarrow> u32" where "s_blocks_count sb = get32 sb 4"
definition s_free_blocks_count :: "u8 list \<Rightarrow> u32" where "s_free_blocks_count sb = get32 sb 12"
definition s_free_inodes_count :: "u8 list \<Rightarrow> u32" where "s_free_inodes_count sb = get32 sb 16"
definition s_first_data_block :: "u8 list \<Rightarrow> u32" where "s_first_data_block sb = get32 sb 20"
definition s_log_block_size :: "u8 list \<Rightarrow> u32" where "s_log_block_size sb = get32 sb 24"
definition s_blocks_per_group :: "u8 list \<Rightarrow> u32" where "s_blocks_per_group sb = get32 sb 32"
definition s_inodes_per_group :: "u8 list \<Rightarrow> u32" where "s_inodes_per_group sb = get32 sb 40"
definition s_magic :: "u8 list \<Rightarrow> u16" where "s_magic sb = get16 sb 56"
definition s_rev_level :: "u8 list \<Rightarrow> u32" where "s_rev_level sb = get32 sb 76"
definition s_inode_size :: "u8 list \<Rightarrow> u16" where "s_inode_size sb = get16 sb 88"

record ext2_bgd =
  bg_block_bitmap :: u32
  bg_inode_bitmap :: u32
  bg_inode_table :: u32
  bg_free_blocks_count :: u16
  bg_free_inodes_count :: u16
  bg_used_dirs_count :: u16
  bg_pad :: u16
  bg_reserved :: "u8 list"

definition bgd_bytes :: "ext2_bgd \<Rightarrow> u8 list" where
  "bgd_bytes d = enc32 (bg_block_bitmap d) @ enc32 (bg_inode_bitmap d) @ enc32 (bg_inode_table d) @
     enc16 (bg_free_blocks_count d) @ enc16 (bg_free_inodes_count d) @ enc16 (bg_used_dirs_count d) @
     enc16 (bg_pad d) @ bg_reserved d"

definition bgd_of :: "u8 list \<Rightarrow> nat \<Rightarrow> ext2_bgd" where
  "bgd_of b i = \<lparr>bg_block_bitmap = get32 b i, bg_inode_bitmap = get32 b (i + 4), bg_inode_table = get32 b (i + 8),
     bg_free_blocks_count = get16 b (i + 12), bg_free_inodes_count = get16 b (i + 14),
     bg_used_dirs_count = get16 b (i + 16), bg_pad = get16 b (i + 18), bg_reserved = take 12 (drop (i + 20) b)\<rparr>"

record ext2_inode =
  i_mode :: u16
  i_uid :: u16
  i_size :: u32
  i_atime :: u32
  i_ctime :: u32
  i_mtime :: u32
  i_dtime :: u32
  i_gid :: u16
  i_links_count :: u16
  i_blocks :: u32
  i_flags :: u32
  i_osd1 :: u32
  i_block :: "u32 list"
  i_generation :: u32
  i_file_acl :: u32
  i_dir_acl :: u32
  i_faddr :: u32
  i_osd2 :: "u8 list"

definition inode_bytes :: "ext2_inode \<Rightarrow> u8 list" where
  "inode_bytes n = enc16 (i_mode n) @ enc16 (i_uid n) @ enc32 (i_size n) @ enc32 (i_atime n) @ enc32 (i_ctime n) @
     enc32 (i_mtime n) @ enc32 (i_dtime n) @ enc16 (i_gid n) @ enc16 (i_links_count n) @ enc32 (i_blocks n) @
     enc32 (i_flags n) @ enc32 (i_osd1 n) @ concat (map enc32 (i_block n)) @ enc32 (i_generation n) @
     enc32 (i_file_acl n) @ enc32 (i_dir_acl n) @ enc32 (i_faddr n) @ i_osd2 n"

definition inode_of :: "u8 list \<Rightarrow> nat \<Rightarrow> ext2_inode" where
  "inode_of b i = \<lparr>i_mode = get16 b i, i_uid = get16 b (i + 2), i_size = get32 b (i + 4), i_atime = get32 b (i + 8),
     i_ctime = get32 b (i + 12), i_mtime = get32 b (i + 16), i_dtime = get32 b (i + 20), i_gid = get16 b (i + 24),
     i_links_count = get16 b (i + 26), i_blocks = get32 b (i + 28), i_flags = get32 b (i + 32), i_osd1 = get32 b (i + 36),
     i_block = map (\<lambda>k. get32 b (i + 40 + 4 * k)) [0..<15], i_generation = get32 b (i + 100),
     i_file_acl = get32 b (i + 104), i_dir_acl = get32 b (i + 108), i_faddr = get32 b (i + 112),
     i_osd2 = take 12 (drop (i + 116) b)\<rparr>"

text \<open>\<open>memset(&inode, 0, sizeof(inode))\<close>.\<close>

definition zero_inode :: ext2_inode where
  "zero_inode = \<lparr>i_mode = 0, i_uid = 0, i_size = 0, i_atime = 0, i_ctime = 0, i_mtime = 0, i_dtime = 0, i_gid = 0,
     i_links_count = 0, i_blocks = 0, i_flags = 0, i_osd1 = 0, i_block = replicate 15 0, i_generation = 0,
     i_file_acl = 0, i_dir_acl = 0, i_faddr = 0, i_osd2 = replicate 12 0\<rparr>"

record ext2_slot =
  sl_used :: bool
  sl_ino :: u32
  sl_inode :: ext2_inode
  sl_node :: "vptr option"

text \<open>
  The driver's globals, with the tree of files and the medium of \<open>g_dev\<close> (\<open>None\<close> for the
  null pointer).
\<close>

record ext2 = vfs +
  g_dev :: "(nat \<Rightarrow> u8) option"
  g_block_size :: u32
  g_inodes_per_group :: u32
  g_inode_size :: u32
  g_bg_count :: u32
  g_bgds :: "ext2_bgd list"
  g_slots :: "ext2_slot list"

section \<open>Blocks\<close>

definition BLKDEV_SECTOR_SIZE :: u32 where "BLKDEV_SECTOR_SIZE = 512"

definition medium :: "'a ext2_scheme \<Rightarrow> nat \<Rightarrow> u8" where
  "medium s = the (g_dev s)"

definition bytes_at :: "nat \<Rightarrow> nat \<Rightarrow> (nat \<Rightarrow> u8) \<Rightarrow> u8 list" where
  "bytes_at a n m = map (\<lambda>i. m (a + i)) [0..<n]"

definition store_at :: "nat \<Rightarrow> u8 list \<Rightarrow> (nat \<Rightarrow> u8) \<Rightarrow> nat \<Rightarrow> u8" where
  "store_at a xs m = (\<lambda>i. if a \<le> i \<and> i < a + length xs then xs ! (i - a) else m i)"

text \<open>\<open>g_dev->read_sectors(g_dev, lba, nsects, buf)\<close> and the write.\<close>

definition read_sectors :: "u32 \<Rightarrow> u32 \<Rightarrow> 'a ext2_scheme \<Rightarrow> u8 list" where
  "read_sectors lba nsects s = bytes_at (512 * unat lba) (512 * unat nsects) (medium s)"

definition write_sectors :: "u32 \<Rightarrow> u32 \<Rightarrow> u8 list \<Rightarrow> 'a ext2_scheme \<Rightarrow> 'a ext2_scheme" where
  "write_sectors lba nsects buf s =
     s\<lparr>g_dev := Some (store_at (512 * unat lba) (take (512 * unat nsects) buf) (medium s))\<rparr>"

definition ext2_read_block :: "u32 \<Rightarrow> 'a ext2_scheme \<Rightarrow> u8 list" where
  "ext2_read_block block_no s =
     read_sectors (block_no * g_block_size s div BLKDEV_SECTOR_SIZE) (g_block_size s div BLKDEV_SECTOR_SIZE) s"

definition ext2_read_blocks :: "u32 \<Rightarrow> u32 \<Rightarrow> 'a ext2_scheme \<Rightarrow> u8 list" where
  "ext2_read_blocks block_no run_len s =
     read_sectors (block_no * g_block_size s div BLKDEV_SECTOR_SIZE) (run_len * g_block_size s div BLKDEV_SECTOR_SIZE) s"

definition ext2_write_block :: "u32 \<Rightarrow> u8 list \<Rightarrow> 'a ext2_scheme \<Rightarrow> 'a ext2_scheme" where
  "ext2_write_block block_no buf s =
     write_sectors (block_no * g_block_size s div BLKDEV_SECTOR_SIZE) (g_block_size s div BLKDEV_SECTOR_SIZE) buf s"

section \<open>Inodes\<close>

text \<open>
  The sectors that hold an inode: their address, their number, the offset of the inode. An
  inode of a group without descriptor is read from beyond the table.
\<close>

definition divide_error :: "fault + 'a" where
  "divide_error = Inl (Panic ''divide error'')"

definition inode_place :: "u32 \<Rightarrow> 'a ext2_scheme \<Rightarrow> fault + u32 \<times> u32 \<times> nat" where
  "inode_place ino s =
     (if g_inodes_per_group s = 0 then divide_error
      else
        let group = (ino - 1) div g_inodes_per_group s; idx = (ino - 1) mod g_inodes_per_group s in
        if \<not> unat group < length (g_bgds s) then Inl BadAccess
        else
          let byte_off = bg_inode_table (g_bgds s ! unat group) * g_block_size s + idx * g_inode_size s;
              lba = byte_off div BLKDEV_SECTOR_SIZE; off_in = byte_off mod BLKDEV_SECTOR_SIZE;
              nsects = (off_in + g_inode_size s + BLKDEV_SECTOR_SIZE - 1) div BLKDEV_SECTOR_SIZE;
              nsects = (if nsects > 2 then 2 else nsects)
          in Inr (lba, nsects, unat off_in))"

definition ext2_read_inode :: "u32 \<Rightarrow> 'a ext2_scheme \<Rightarrow> fault + ext2_inode" where
  "ext2_read_inode ino s =
     bindE (inode_place ino s) (\<lambda>(lba, nsects, off_in).
       let buf = read_sectors lba nsects s in
       if length buf < off_in + 128 then Inl BadAccess else Inr (inode_of buf off_in))"

definition ext2_write_inode :: "u32 \<Rightarrow> ext2_inode \<Rightarrow> 'a ext2_scheme \<Rightarrow> fault + 'a ext2_scheme" where
  "ext2_write_inode ino n s =
     bindE (inode_place ino s) (\<lambda>(lba, nsects, off_in).
       let buf = read_sectors lba nsects s in
       if length buf < off_in + 128 then Inl BadAccess
       else Inr (write_sectors lba nsects (put off_in (inode_bytes n) buf) s))"

section \<open>The blocks of a file\<close>

definition nth_ptr :: "u8 list \<Rightarrow> u32 \<Rightarrow> fault + u32" where
  "nth_ptr buf i = (if 4 * unat i + 4 \<le> length buf then Inr (get32 buf (4 * unat i)) else Inl BadAccess)"

text \<open>\<open>room n\<close> tells whether \<open>kmalloc(n)\<close> has memory.\<close>

definition ext2_file_block :: "(u32 \<Rightarrow> bool) \<Rightarrow> ext2_inode \<Rightarrow> u32 \<Rightarrow> 'a ext2_scheme \<Rightarrow> fault + u32" where
  "ext2_file_block room n blk_idx s =
     (let ptrs_per_block = g_block_size s div 4 in
      if blk_idx < 12 then Inr (i_block n ! unat blk_idx)
      else let blk_idx = blk_idx - 12 in
        if blk_idx < ptrs_per_block then
          (if i_block n ! 12 = 0 \<or> \<not> room (g_block_size s) then Inr 0
           else nth_ptr (ext2_read_block (i_block n ! 12) s) blk_idx)
        else let blk_idx = blk_idx - ptrs_per_block in
          if blk_idx < ptrs_per_block * ptrs_per_block then
            (if i_block n ! 13 = 0 \<or> \<not> room (g_block_size s) then Inr 0
             else bindE (nth_ptr (ext2_read_block (i_block n ! 13) s) (blk_idx div ptrs_per_block)) (\<lambda>l1.
               if l1 = 0 then Inr 0
               else nth_ptr (ext2_read_block l1 s) (blk_idx mod ptrs_per_block)))
          else Inr 0)"

definition ext2_alloc_slot :: "u32 \<Rightarrow> ext2_inode \<Rightarrow> vptr \<Rightarrow> 'a ext2_scheme \<Rightarrow> nat option \<times> 'a ext2_scheme" where
  "ext2_alloc_slot ino n node s =
     (case find (\<lambda>i. \<not> sl_used (g_slots s ! i)) [0..<EXT2_FILE_SLOTS] of
        None \<Rightarrow> (None, s)
      | Some i \<Rightarrow> (Some i, s\<lparr>g_slots := (g_slots s)[i := \<lparr>sl_used = True, sl_ino = ino, sl_inode = n, sl_node = Some node\<rparr>]\<rparr>))"

text \<open>The cache of the indirect tables of one read.\<close>

record ind_cache =
  ind1_buf :: "u8 list option"
  ind1_phys :: u32
  ind2l1_buf :: "u8 list option"
  ind2l1_phys :: u32
  ind2l2_buf :: "u8 list option"
  ind2l2_phys :: u32

definition empty_cache :: ind_cache where
  "empty_cache = \<lparr>ind1_buf = None, ind1_phys = 0, ind2l1_buf = None, ind2l1_phys = 0, ind2l2_buf = None, ind2l2_phys = 0\<rparr>"

text \<open>One level: the buffer and its block number after the table \<open>ind\<close> was asked for.\<close>

definition load_table :: "(u32 \<Rightarrow> bool) \<Rightarrow> u32 \<Rightarrow> u8 list option \<Rightarrow> u32 \<Rightarrow> 'a ext2_scheme \<Rightarrow> (u8 list option \<times> u32) option" where
  "load_table room ind buf phys s =
     (if ind \<noteq> phys then
        (if buf = None \<and> \<not> room (g_block_size s) then None else Some (Some (ext2_read_block ind s), ind))
      else Some (buf, phys))"

definition table_ptr :: "u8 list option \<Rightarrow> u32 \<Rightarrow> fault + u32" where
  "table_ptr buf i = (case buf of None \<Rightarrow> Inl NullDeref | Some b \<Rightarrow> nth_ptr b i)"

definition ext2_blk_lookup :: "(u32 \<Rightarrow> bool) \<Rightarrow> ext2_inode \<Rightarrow> u32 \<Rightarrow> ind_cache \<Rightarrow> 'a ext2_scheme \<Rightarrow> fault + u32 \<times> ind_cache" where
  "ext2_blk_lookup room n blk_idx c s =
     (let ppb = g_block_size s div 4 in
      if blk_idx < 12 then Inr (i_block n ! unat blk_idx, c)
      else if blk_idx < 12 + ppb then
        (let ind = i_block n ! 12 in
         if ind = 0 then Inr (0, c)
         else case load_table room ind (ind1_buf c) (ind1_phys c) s of
           None \<Rightarrow> Inr (0, c)
         | Some (b, p) \<Rightarrow>
             bindE (table_ptr b (blk_idx - 12)) (\<lambda>x. Inr (x, c\<lparr>ind1_buf := b, ind1_phys := p\<rparr>)))
      else
        (let idx = blk_idx - 12 - ppb; ind = i_block n ! 13 in
         if ind = 0 then Inr (0, c)
         else case load_table room ind (ind2l1_buf c) (ind2l1_phys c) s of
           None \<Rightarrow> Inr (0, c)
         | Some (b, p) \<Rightarrow>
             if ppb = 0 then divide_error
             else bindE (table_ptr b (idx div ppb)) (\<lambda>l2.
               let c = c\<lparr>ind2l1_buf := b, ind2l1_phys := p\<rparr> in
               if l2 = 0 then Inr (0, c)
               else case load_table room l2 (ind2l2_buf c) (ind2l2_phys c) s of
                 None \<Rightarrow> Inr (0, c)
               | Some (b, p) \<Rightarrow>
                   bindE (table_ptr b (idx mod ppb)) (\<lambda>x. Inr (x, c\<lparr>ind2l2_buf := b, ind2l2_phys := p\<rparr>)))))"

section \<open>Reading\<close>

text \<open>The blocks that follow the first one on the medium; \<open>k\<close> bounds the length of the run.\<close>

fun block_run :: "(u32 \<Rightarrow> bool) \<Rightarrow> ext2_inode \<Rightarrow> u32 \<Rightarrow> u32 \<Rightarrow> u32 \<Rightarrow> nat \<Rightarrow> ind_cache \<Rightarrow> 'a ext2_scheme \<Rightarrow> fault + u32 \<times> ind_cache" where
  "block_run room n blk_idx phys0 run 0 c s = Inr (run, c)"
| "block_run room n blk_idx phys0 run (Suc k) c s =
     bindE (ext2_blk_lookup room n (blk_idx + run) c s) (\<lambda>(nxt, c).
       if nxt \<noteq> phys0 + run then Inr (run, c) else block_run room n blk_idx phys0 (run + 1) k c s)"

text \<open>
  The loop of \<open>ext2_do_read\<close>; every step copies at least a byte, and \<open>fuel\<close> bounds their
  number. \<open>out\<close> is what has been copied.
\<close>

fun read_loop :: "(u32 \<Rightarrow> bool) \<Rightarrow> ext2_inode \<Rightarrow> u32 \<Rightarrow> u32 \<Rightarrow> nat \<Rightarrow> u8 list \<Rightarrow> ind_cache \<Rightarrow> 'a ext2_scheme \<Rightarrow> fault + u8 list" where
  "read_loop room n off len 0 out c s = (if \<not> of_nat (length out) < len then Inr out else Inl Runaway)"
| "read_loop room n off len (Suc fuel) out c s =
     (let d = of_nat (length out); bs = g_block_size s in
      if \<not> d < len then Inr out
      else if bs = 0 then divide_error
      else
        let blk_idx = (off + d) div bs; blk_off = (off + d) mod bs in
        bindE (ext2_blk_lookup room n blk_idx c s) (\<lambda>(phys0, c).
          if phys0 = 0 then Inr out
          else
            let blocks_left = (len - d + bs - 1) div bs;
                max_run = (if blocks_left < EXT2_READ_RUN_MAX then blocks_left else EXT2_READ_RUN_MAX)
            in bindE (if blk_off = 0 then block_run room n blk_idx phys0 1 (unat max_run - 1) c s else Inr (1, c)) (\<lambda>(run, c).
                 let rbuf = ext2_read_blocks phys0 run s;
                     run_bytes = run * bs - blk_off;
                     to_copy = (if run_bytes < len - d then run_bytes else len - d)
                 in read_loop room n off len fuel (out @ take (unat to_copy) (drop (unat blk_off) rbuf)) c s)))"

definition ext2_do_read :: "(u32 \<Rightarrow> bool) \<Rightarrow> nat \<Rightarrow> u32 \<Rightarrow> u32 \<Rightarrow> 'a ext2_scheme \<Rightarrow> fault + u8 list" where
  "ext2_do_read room slot off len s =
     (let n = sl_inode (g_slots s ! slot); file_size = i_size n in
      if off \<ge> file_size then Inr []
      else
        let len = (if off + len > file_size then file_size - off else len) in
        if \<not> room (EXT2_READ_RUN_MAX * g_block_size s) then Inr []
        else read_loop room n off len (unat len) [] empty_cache s)"

end
