(* ===== verification/Ext2_Read.thy ===== *)
theory Ext2_Read
  imports Ext2_Disk
begin

text \<open>
  Reading a file of an ext2 volume: the structures survive the way to the medium and back,
  the cached lookup of a block is the plain one, and a read delivers the bytes of the file up
  to its first hole.
\<close>

section \<open>Fields and structures\<close>

lemma length_le [simp]: "length (enc16 w) = 2" "length (enc32 v) = 4"
  by (simp_all add: enc16_def enc32_def)

lemma length_put [simp]: "i + length xs \<le> length t \<Longrightarrow> length (put i xs t) = length t"
  by (simp add: put_def)

lemma get16_cong: "(\<And>k. k < 2 \<Longrightarrow> xs ! (i + k) = ys ! (j + k)) \<Longrightarrow> get16 xs i = get16 ys j"
proof -
  assume a: "\<And>k. k < 2 \<Longrightarrow> xs ! (i + k) = ys ! (j + k)"
  show ?thesis using a [of 0] a [of 1] by (simp add: get16_def)
qed

lemma get32_cong: "(\<And>k. k < 4 \<Longrightarrow> xs ! (i + k) = ys ! (j + k)) \<Longrightarrow> get32 xs i = get32 ys j"
proof -
  assume a: "\<And>k. k < 4 \<Longrightarrow> xs ! (i + k) = ys ! (j + k)"
  show ?thesis using a [of 0] a [of 1] a [of 2] a [of 3] by (simp add: get32_def)
qed

lemma get16_le16: "get16 (enc16 w) 0 = w"
  by (rule bit_word_eqI) (auto simp: get16_def enc16_def bit_simps)

lemma get32_le32: "get32 (enc32 w) 0 = w"
proof (rule bit_word_eqI)
  fix n
  assume "n < LENGTH(32)"
  then show "bit (get32 (enc32 w) 0) n \<longleftrightarrow> bit w n"
    by (cases "n < 8"; cases "n < 16"; cases "n < 24") (auto simp: get32_def enc32_def bit_simps)
qed

text \<open>A field of a structure that is written field after field.\<close>

lemma get_skip:
  "get16 (xs @ ys) (length xs + k) = get16 ys k" "get32 (xs @ ys) (length xs + k) = get32 ys k"
  by (auto intro!: get16_cong get32_cong simp: nth_append)

lemma get_here [simp]: "get16 (enc16 w @ ys) 0 = w" "get32 (enc32 v @ ys) 0 = v"
proof -
  have "get16 (enc16 w @ ys) 0 = get16 (enc16 w) 0" by (rule get16_cong) (simp add: nth_append)
  then show "get16 (enc16 w @ ys) 0 = w" by (simp add: get16_le16)
  have "get32 (enc32 v @ ys) 0 = get32 (enc32 v) 0" by (rule get32_cong) (simp add: nth_append)
  then show "get32 (enc32 v @ ys) 0 = v" by (simp add: get32_le32)
qed

lemma get_past [simp]:
  "2 \<le> k \<Longrightarrow> get16 (enc16 w @ ys) k = get16 ys (k - 2)" "4 \<le> k \<Longrightarrow> get16 (enc32 v @ ys) k = get16 ys (k - 4)"
  "2 \<le> k \<Longrightarrow> get32 (enc16 w @ ys) k = get32 ys (k - 2)" "4 \<le> k \<Longrightarrow> get32 (enc32 v @ ys) k = get32 ys (k - 4)"
  using get_skip [of "enc16 w" ys "k - 2"] get_skip [of "enc32 v" ys "k - 4"]
  by (simp_all del: add_2_eq_Suc add_2_eq_Suc')

lemma nth_put:
  assumes "i + length xs \<le> length t" and "j < length t"
  shows "put i xs t ! j = (if i \<le> j \<and> j < i + length xs then xs ! (j - i) else t ! j)"
  using assms by (auto simp: put_def nth_append min_def)

lemma get32_put_same: "i + length xs \<le> length t \<Longrightarrow> k + 4 \<le> length xs \<Longrightarrow> get32 (put i xs t) (i + k) = get32 xs k"
  by (rule get32_cong) (simp add: nth_put)

lemma get16_put_same: "i + length xs \<le> length t \<Longrightarrow> k + 2 \<le> length xs \<Longrightarrow> get16 (put i xs t) (i + k) = get16 xs k"
  by (rule get16_cong) (simp add: nth_put)

lemma get32_put_other:
  "i + length xs \<le> length t \<Longrightarrow> k + 4 \<le> length t \<Longrightarrow> k + 4 \<le> i \<or> i + length xs \<le> k \<Longrightarrow> get32 (put i xs t) k = get32 t k"
  by (rule get32_cong) (auto simp: nth_put)

lemma get16_put_other:
  "i + length xs \<le> length t \<Longrightarrow> k + 2 \<le> length t \<Longrightarrow> k + 2 \<le> i \<or> i + length xs \<le> k \<Longrightarrow> get16 (put i xs t) k = get16 t k"
  by (rule get16_cong) (auto simp: nth_put)

text \<open>An inode is what its 128 bytes say.\<close>

definition inode_ok :: "ext2_inode \<Rightarrow> bool" where
  "inode_ok n \<longleftrightarrow> length (i_block n) = 15 \<and> length (i_osd2 n) = 12"

lemma length_ptrs [simp]: "length (concat (map enc32 ws)) = 4 * length ws"
  by (induction ws) auto

lemma inode_bytes_length: "inode_ok n \<Longrightarrow> length (inode_bytes n) = 128"
  by (simp add: inode_bytes_def inode_ok_def)

lemma get32_ptrs [simp]: "k < length ws \<Longrightarrow> get32 (concat (map enc32 ws) @ ys) (4 * k) = ws ! k"
proof (induction ws arbitrary: k)
  case (Cons w ws)
  then show ?case by (cases k) simp_all
qed simp

lemma get32_past_ptrs [simp]:
  "4 * length ws \<le> k \<Longrightarrow> get32 (concat (map enc32 ws) @ ys) k = get32 ys (k - 4 * length ws)"
  using get_skip(2) [of "concat (map enc32 ws)" ys "k - 4 * length ws"] by simp

lemma inode_of_bytes:
  assumes "inode_ok n"
  shows "inode_of (xs @ inode_bytes n @ ys) (length xs) = n"
proof -
  have len: "length (i_block n) = 15" "length (i_osd2 n) = 12" using assms by (simp_all add: inode_ok_def)
  have blk: "map (\<lambda>k. get32 (inode_bytes n @ ys) (40 + 4 * k)) [0..<15] = i_block n"
    by (rule nth_equalityI) (simp_all add: inode_bytes_def len)
  have shift: "inode_of (xs @ inode_bytes n @ ys) (length xs) = inode_of (inode_bytes n @ ys) 0"
    using get_skip [of xs "inode_bytes n @ ys" 0] by (simp add: inode_of_def get_skip add.assoc del: add_2_eq_Suc')
  have "inode_of (inode_bytes n @ ys) 0 = n\<lparr>i_block := map (\<lambda>k. get32 (inode_bytes n @ ys) (40 + 4 * k)) [0..<15]\<rparr>"
    by (simp add: inode_of_def inode_bytes_def len)
  then show ?thesis by (simp add: shift blk)
qed

text \<open>So is a group descriptor.\<close>

lemma bgd_of_bytes:
  assumes "length (bg_reserved d) = 12"
  shows "bgd_of (xs @ bgd_bytes d @ ys) (length xs) = d"
proof -
  have "bgd_of (xs @ bgd_bytes d @ ys) (length xs) = bgd_of (bgd_bytes d @ ys) 0"
    using get_skip [of xs "bgd_bytes d @ ys" 0] by (simp add: bgd_of_def get_skip add.assoc)
  also have "\<dots> = d" by (simp add: bgd_of_def bgd_bytes_def assms)
  finally show ?thesis .
qed

section \<open>Blocks\<close>

text \<open>A block size is a multiple of the sector's from 1 KB to 64 KB.\<close>

definition geometry :: "'a ext2_scheme \<Rightarrow> bool" where
  "geometry s \<longleftrightarrow> 512 dvd unat (g_block_size s) \<and> 1024 \<le> unat (g_block_size s) \<and> unat (g_block_size s) \<le> 65536"

text \<open>A block that lies in the first 4 GB of the medium, which is what 32-bit byte offsets reach.\<close>

definition in_reach :: "'a ext2_scheme \<Rightarrow> u32 \<Rightarrow> bool" where
  "in_reach s b \<longleftrightarrow> (unat b + 1) * unat (g_block_size s) < 2 ^ 32"

abbreviation bsize :: "'a ext2_scheme \<Rightarrow> nat" where
  "bsize s \<equiv> unat (g_block_size s)"

lemma sectors_of_bytes:
  assumes "unat b * unat c < 2 ^ 32" and "512 dvd unat c"
  shows "512 * unat (b * c div BLKDEV_SECTOR_SIZE :: u32) = unat b * unat c"
proof -
  have "unat (b * c) = unat b * unat c" using assms(1) by (simp add: unat_word_ariths(2))
  then show ?thesis using assms(2) by (simp add: BLKDEV_SECTOR_SIZE_def unat_div)
qed

lemma read_blocks_bytes:
  assumes "geometry s" and "(unat b + unat r) * bsize s < 2 ^ 32"
  shows "ext2_read_blocks b r s = bytes_at (unat b * bsize s) (unat r * bsize s) (medium s)"
proof -
  have "512 dvd bsize s" using assms(1) by (simp add: geometry_def)
  moreover have "unat b * bsize s < 2 ^ 32" "unat r * bsize s < 2 ^ 32" using assms(2) by (simp_all add: add_mult_distrib)
  ultimately show ?thesis by (simp only: ext2_read_blocks_def read_sectors_def sectors_of_bytes)
qed

lemma block_sectors: "geometry s \<Longrightarrow> 512 * unat (g_block_size s div BLKDEV_SECTOR_SIZE) = bsize s"
  by (simp add: geometry_def BLKDEV_SECTOR_SIZE_def unat_div)

lemma read_block_bytes:
  assumes "geometry s" and "in_reach s b"
  shows "ext2_read_block b s = bytes_at (unat b * bsize s) (bsize s) (medium s)"
proof -
  have "unat b * bsize s < 2 ^ 32" using assms(2) by (simp add: in_reach_def)
  then show ?thesis
    using assms(1) block_sectors [OF assms(1)] sectors_of_bytes [of b "g_block_size s"]
    by (simp add: ext2_read_block_def read_sectors_def geometry_def)
qed

lemma length_read_block: "geometry s \<Longrightarrow> length (ext2_read_block b s) = bsize s"
  using block_sectors [of s] by (simp add: ext2_read_block_def read_sectors_def bytes_at_def)

section \<open>The cached lookup\<close>

abbreviation ppb :: "'a ext2_scheme \<Rightarrow> nat" where
  "ppb s \<equiv> bsize s div 4"

lemma ppb_facts:
  assumes "geometry s"
  shows "unat (g_block_size s div 4) = ppb s" and "256 \<le> ppb s" and "ppb s \<le> 16384" and "4 * ppb s = bsize s"
    and "unat ((g_block_size s div 4) * (g_block_size s div 4)) = ppb s * ppb s" and "ppb s * ppb s \<le> 268435456"
proof -
  show p: "unat (g_block_size s div 4) = ppb s" by (simp add: unat_div)
  have "1024 \<le> bsize s" "bsize s \<le> 65536" using assms by (simp_all add: geometry_def)
  then show "256 \<le> ppb s" "ppb s \<le> 16384" by linarith+
  have "4 dvd bsize s" using assms dvd_trans [of 4 512 "bsize s"] by (simp add: geometry_def)
  then show "4 * ppb s = bsize s" by simp
  have "ppb s * ppb s \<le> 16384 * 16384" using \<open>ppb s \<le> 16384\<close> by (rule mult_le_mono) (use \<open>ppb s \<le> 16384\<close> in simp)
  then show sq: "ppb s * ppb s \<le> 268435456" by simp
  have "unat ((g_block_size s div 4) * (g_block_size s div 4)) = (ppb s * ppb s) mod 2 ^ 32"
    unfolding unat_word_ariths(2) p by simp
  then show "unat ((g_block_size s div 4) * (g_block_size s div 4)) = ppb s * ppb s" using sq by simp
qed

text \<open>The number of blocks of the largest file.\<close>

definition file_blocks :: "'a ext2_scheme \<Rightarrow> nat" where
  "file_blocks s = 12 + ppb s + ppb s * ppb s"

definition coherent_level :: "u8 list option \<Rightarrow> u32 \<Rightarrow> 'a ext2_scheme \<Rightarrow> bool" where
  "coherent_level buf phys s \<longleftrightarrow> phys \<noteq> 0 \<longrightarrow> buf = Some (ext2_read_block phys s)"

definition coherent :: "ind_cache \<Rightarrow> 'a ext2_scheme \<Rightarrow> bool" where
  "coherent c s \<longleftrightarrow> coherent_level (ind1_buf c) (ind1_phys c) s \<and> coherent_level (ind2l1_buf c) (ind2l1_phys c) s \<and>
     coherent_level (ind2l2_buf c) (ind2l2_phys c) s"

lemma coherent_empty: "coherent empty_cache s"
  by (simp add: coherent_def coherent_level_def empty_cache_def)

lemma load_coherent:
  assumes "coherent_level buf phys s" and "room (g_block_size s)" and "ind \<noteq> 0"
  shows "load_table room ind buf phys s = Some (Some (ext2_read_block ind s), ind)"
  using assms by (auto simp: load_table_def coherent_level_def)

lemma coherent_read: "coherent_level (Some (ext2_read_block p s)) p s"
  by (simp add: coherent_level_def)

lemma nth_ptr_ok: "geometry s \<Longrightarrow> unat i < ppb s \<Longrightarrow>
    nth_ptr (ext2_read_block b s) i = Inr (get32 (ext2_read_block b s) (4 * unat i))"
  using ppb_facts(4) [of s] by (simp add: nth_ptr_def length_read_block)

lemma blk_lookup_cached:
  assumes g: "geometry s" and room: "room (g_block_size s)" and c: "coherent c s" and i: "unat blk_idx < file_blocks s"
  shows "\<exists>x c'. ext2_file_block room n blk_idx s = Inr x \<and> ext2_blk_lookup room n blk_idx c s = Inr (x, c') \<and> coherent c' s"
proof -
  note p = ppb_facts [OF g]
  let ?p = "g_block_size s div 4"
  have lt12: "blk_idx < 12 \<longleftrightarrow> unat blk_idx < 12" by (simp add: word_less_nat_alt)
  have sum: "unat (12 + ?p) = 12 + ppb s" using p by (subst unat_plus_no_wrap) auto
  have lts: "blk_idx < 12 + ?p \<longleftrightarrow> unat blk_idx < 12 + ppb s" by (simp add: word_less_nat_alt sum)
  consider "unat blk_idx < 12" | "12 \<le> unat blk_idx" "unat blk_idx < 12 + ppb s" | "12 + ppb s \<le> unat blk_idx" by linarith
  then show ?thesis
  proof cases
    case 1
    then show ?thesis using c lt12 by (simp add: ext2_file_block_def ext2_blk_lookup_def Let_def)
  next
    case 2
    have sub: "unat (blk_idx - 12) = unat blk_idx - 12" using 2 by (simp add: unat_sub word_le_nat_alt)
    have lt: "blk_idx - 12 < ?p" using 2 sub p(1) by (simp add: word_less_nat_alt)
    have ok: "nth_ptr (ext2_read_block b s) (blk_idx - 12) = Inr (get32 (ext2_read_block b s) (4 * unat (blk_idx - 12)))" for b
      by (rule nth_ptr_ok [OF g]) (use 2 sub in simp)
    show ?thesis
    proof (cases "i_block n ! 12 = 0")
      case True
      then show ?thesis using 2 lt12 lts lt c by (simp add: ext2_file_block_def ext2_blk_lookup_def Let_def)
    next
      case False
      have "load_table room (i_block n ! 12) (ind1_buf c) (ind1_phys c) s = Some (Some (ext2_read_block (i_block n ! 12) s), i_block n ! 12)"
        by (rule load_coherent) (use c room False in \<open>simp_all add: coherent_def\<close>)
      then show ?thesis using 2 lt12 lts lt c False ok room
        by (simp add: ext2_file_block_def ext2_blk_lookup_def table_ptr_def Let_def coherent_def coherent_read)
    qed
  next
    case 3
    let ?i = "blk_idx - 12 - ?p"
    have sub1: "unat (blk_idx - 12) = unat blk_idx - 12" using 3 by (simp add: unat_sub word_le_nat_alt)
    have sub: "unat ?i = unat blk_idx - 12 - ppb s" using 3 p(1) sub1 by (subst unat_sub) (simp_all add: word_le_nat_alt)
    have ilt: "unat ?i < ppb s * ppb s" using i sub 3 unfolding file_blocks_def by linarith
    have nlt: "\<not> blk_idx - 12 < ?p" using 3 sub1 p(1) by (simp add: word_less_nat_alt)
    have lt: "?i < ?p * ?p" using ilt by (simp add: word_less_nat_alt p(5))
    have pn: "?p \<noteq> 0" using p(1,2) by auto
    have dv: "unat (?i div ?p) < ppb s" "unat (?i mod ?p) < ppb s"
      using ilt p(1,2) by (simp_all add: unat_div unat_mod less_mult_imp_div_less)
    note ok = nth_ptr_ok [OF g dv(1)] nth_ptr_ok [OF g dv(2)]
    show ?thesis
    proof (cases "i_block n ! 13 = 0")
      case True
      then show ?thesis using 3 lt12 lts lt nlt c by (simp add: ext2_file_block_def ext2_blk_lookup_def Let_def)
    next
      case False
      have l1: "load_table room (i_block n ! 13) (ind2l1_buf c) (ind2l1_phys c) s = Some (Some (ext2_read_block (i_block n ! 13) s), i_block n ! 13)"
        by (rule load_coherent) (use c room False in \<open>simp_all add: coherent_def\<close>)
      define l2 where "l2 = get32 (ext2_read_block (i_block n ! 13) s) (4 * unat (?i div ?p))"
      show ?thesis
      proof (cases "l2 = 0")
        case True
        then show ?thesis using 3 lt12 lts lt nlt c False ok l1 room pn
          by (simp add: ext2_file_block_def ext2_blk_lookup_def table_ptr_def Let_def coherent_def coherent_read l2_def)
      next
        case nz: False
        have ld: "load_table room l2 (ind2l2_buf c) (ind2l2_phys c) s = Some (Some (ext2_read_block l2 s), l2)"
          by (rule load_coherent) (use c room nz in \<open>simp_all add: coherent_def\<close>)
        show ?thesis using 3 lt12 lts lt nlt c False ok l1 room pn nz ld
          by (simp add: ext2_file_block_def ext2_blk_lookup_def table_ptr_def Let_def coherent_def coherent_read l2_def [symmetric])
      qed
    qed
  qed
qed

section \<open>Reading\<close>

text \<open>The block at a position of a file (0 for a hole), and the byte there.\<close>

definition phys_of :: "ext2_inode \<Rightarrow> 'a ext2_scheme \<Rightarrow> nat \<Rightarrow> u32" where
  "phys_of n s k = (case ext2_file_block (\<lambda>_. True) n (of_nat k) s of Inr x \<Rightarrow> x | Inl _ \<Rightarrow> 0)"

definition file_byte :: "ext2_inode \<Rightarrow> 'a ext2_scheme \<Rightarrow> nat \<Rightarrow> u8" where
  "file_byte n s i = medium s (unat (phys_of n s (i div bsize s)) * bsize s + i mod bsize s)"

definition mapped :: "ext2_inode \<Rightarrow> 'a ext2_scheme \<Rightarrow> nat \<Rightarrow> bool" where
  "mapped n s i \<longleftrightarrow> phys_of n s (i div bsize s) \<noteq> 0"

text \<open>Every block that a file refers to can be addressed.\<close>

definition blocks_reachable :: "ext2_inode \<Rightarrow> 'a ext2_scheme \<Rightarrow> bool" where
  "blocks_reachable n s \<longleftrightarrow> (\<forall>k < file_blocks s. phys_of n s k \<noteq> 0 \<longrightarrow> in_reach s (phys_of n s k))"

lemma file_blocks_small: "geometry s \<Longrightarrow> file_blocks s < 2 ^ 29"
  using ppb_facts(3,6) [of s] by (simp add: file_blocks_def)

lemma file_block_room: "room (g_block_size s) \<Longrightarrow> ext2_file_block room n i s = ext2_file_block (\<lambda>_. True) n i s"
  by (simp add: ext2_file_block_def Let_def)

lemma blk_lookup_phys:
  assumes "geometry s" and "room (g_block_size s)" and "coherent c s" and "k < file_blocks s"
  obtains c' where "ext2_blk_lookup room n (of_nat k) c s = Inr (phys_of n s k, c')" and "coherent c' s"
proof -
  have k: "unat (of_nat k :: u32) = k" using assms(4) file_blocks_small [OF assms(1)] by (intro unat_of_nat_small) simp
  obtain x c' where x: "ext2_file_block room n (of_nat k) s = Inr x" "ext2_blk_lookup room n (of_nat k) c s = Inr (x, c')"
    "coherent c' s" using blk_lookup_cached [where room = room, OF assms(1,2,3), of "of_nat k" n] assms(4) k by auto
  have "phys_of n s k = x" using x(1) file_block_room [where room = room, OF assms(2), of n] by (simp add: phys_of_def)
  then show thesis using that x(2,3) by blast
qed

lemma block_run_spec:
  assumes g: "geometry s" and room: "room (g_block_size s)"
    and "coherent c s" and "1 \<le> run" and "\<forall>j < run. phys_of n s (k + j) = p + of_nat j" and "k + run + m \<le> file_blocks s"
  shows "\<exists>r c'. block_run room n (of_nat k) p (of_nat run) m c s = Inr (of_nat r, c') \<and> coherent c' s \<and> run \<le> r \<and> r \<le> run + m \<and>
    (\<forall>j < r. phys_of n s (k + j) = p + of_nat j)"
  using assms(3-)
proof (induction m arbitrary: run c)
  case (Suc m)
  have "k + run < file_blocks s" using Suc.prems(4) by simp
  from blk_lookup_phys [where room = room, OF g room Suc.prems(1) this, of n] obtain c' where
    l: "ext2_blk_lookup room n (of_nat (k + run)) c s = Inr (phys_of n s (k + run), c')" "coherent c' s" .
  have l1: "ext2_blk_lookup room n (of_nat k + of_nat run) c s = Inr (phys_of n s (k + run), c')" using l(1) by simp
  show ?case
  proof (cases "phys_of n s (k + run) = p + of_nat run")
    case True
    have all: "\<forall>j < Suc run. phys_of n s (k + j) = p + of_nat j" using Suc.prems(3) True less_Suc_eq by auto
    from Suc.IH [OF l(2) _ all] Suc.prems(2,4)
    obtain r c'' where "block_run room n (of_nat k) p (of_nat (Suc run)) m c' s = Inr (of_nat r, c'')" "coherent c'' s"
      "Suc run \<le> r" "r \<le> Suc run + m" "\<forall>j < r. phys_of n s (k + j) = p + of_nat j" by auto
    then show ?thesis using l1 True by (intro exI [of _ r] exI [of _ c'']) (simp add: add.commute)
  next
    case False
    then show ?thesis using l1 l(2) Suc.prems(3) by (intro exI [of _ run] exI [of _ c']) simp
  qed
qed auto

lemma bytes_at_piece: "i + k \<le> n \<Longrightarrow> take k (drop i (bytes_at a n m)) = map (\<lambda>j. m (a + i + j)) [0..<k]"
  by (rule nth_equalityI) (simp_all add: bytes_at_def add.assoc)

text \<open>A piece that lies in a run of blocks is a piece of the file.\<close>

lemma run_piece:
  assumes "geometry s" and run: "\<forall>j < r. phys_of n s (k + j) = p + of_nat j" and lt: "b + t \<le> r * bsize s" and "b < bsize s"
    and wrap: "unat p + r < 2 ^ 32"
  shows "map (\<lambda>j. medium s (unat p * bsize s + b + j)) [0..<t] = map (file_byte n s) [k * bsize s + b..<k * bsize s + b + t]"
proof (rule nth_equalityI)
  fix j
  assume "j < length (map (\<lambda>j. medium s (unat p * bsize s + b + j)) [0..<t])"
  then have j: "j < t" by simp
  have bs: "0 < bsize s" using assms(1) by (simp add: geometry_def)
  let ?q = "(b + j) div bsize s"
  have "b + j < r * bsize s" using lt j by simp
  then have q: "?q < r" by (simp add: less_mult_imp_div_less)
  have dv: "(k * bsize s + b + j) div bsize s = k + ?q" "(k * bsize s + b + j) mod bsize s = (b + j) mod bsize s"
    using bs by (simp_all add: add.assoc)
  have "unat (p + of_nat ?q) = unat p + ?q" using q wrap by (subst unat_plus_no_wrap) (simp_all add: unat_of_nat_small)
  then have "file_byte n s (k * bsize s + b + j) = medium s ((unat p + ?q) * bsize s + (b + j) mod bsize s)"
    unfolding file_byte_def dv using run q by simp
  also have "(unat p + ?q) * bsize s + (b + j) mod bsize s = unat p * bsize s + b + j"
    by (simp add: add_mult_distrib)
  finally show "map (\<lambda>j. medium s (unat p * bsize s + b + j)) [0..<t] ! j = map (file_byte n s) [k * bsize s + b..<k * bsize s + b + t] ! j"
    using j by simp
qed simp

lemma takeWhile_upt_split:
  assumes "\<forall>i \<in> {a..<b}. P i" and "a \<le> b" and "b \<le> c"
  shows "takeWhile P [a..<c] = [a..<b] @ takeWhile P [b..<c]"
proof -
  have "[a..<c] = [a..<b] @ [b..<c]" by (rule upt_split [OF assms(2,3)])
  then show ?thesis using assms(1) takeWhile_append2 [of "[a..<b]" P "[b..<c]"] by simp
qed

lemma upt_map_add: "map (\<lambda>j. f (a + j)) [0..<t] = map f [a..<a + t]" for a t :: nat
  by (rule nth_equalityI) simp_all

lemma read_loop_spec:
  assumes g: "geometry s" and room: "room (g_block_size s)" and reach: "blocks_reachable n s"
    and fit: "unat off + unat len < 2 ^ 31" "unat off + unat len \<le> file_blocks s * bsize s"
    and "coherent c s" and "length out \<le> unat len" and "unat len - length out \<le> fuel"
  shows "read_loop room n off len fuel out c s =
    Inr (out @ map (file_byte n s) (takeWhile (mapped n s) [unat off + length out..<unat off + unat len]))"
  using assms(6-)
proof (induction fuel arbitrary: out c)
  case 0
  then have "length out = unat len" by simp
  then show ?case by simp
next
  case (Suc fuel)
  let ?d = "of_nat (length out) :: u32" and ?bs = "g_block_size s" and ?o = "unat off + length out"
  have bs: "1024 \<le> bsize s" "bsize s \<le> 65536" using g by (simp_all add: geometry_def)
  have b0: "?bs \<noteq> 0" using bs by auto
  have d: "unat ?d = length out" using Suc.prems(2) fit(1) by (intro unat_of_nat_small) simp
  show ?case
  proof (cases "length out < unat len")
    case False
    then show ?thesis using Suc.prems(2) d by (simp add: word_less_nat_alt)
  next
    case True
    have dl: "?d < len" using True d by (simp add: word_less_nat_alt)
    have od: "unat (off + ?d) = ?o" using d Suc.prems(2) fit(1) by (subst unat_plus_no_wrap) simp_all
    have left: "unat (len - ?d) = unat len - length out" using True d by (subst unat_sub) (simp_all add: word_le_nat_alt)
    define k where "k = ?o div bsize s"
    define b where "b = ?o mod bsize s"
    have kb: "?o = k * bsize s + b" "b < bsize s" using bs by (simp_all add: k_def b_def)
    have klt: "k < file_blocks s" unfolding k_def using fit(2) True by (simp add: less_mult_imp_div_less)
    have bi: "(off + ?d) div ?bs = of_nat k" 
      using klt file_blocks_small [OF g] by (simp add: word_unat_eq_iff unat_div od k_def [symmetric] unat_of_nat_small)
    have bo: "unat ((off + ?d) mod ?bs) = b" by (simp add: unat_mod od b_def)
    obtain c1 where l: "ext2_blk_lookup room n (of_nat k) c s = Inr (phys_of n s k, c1)" "coherent c1 s"
      by (rule blk_lookup_phys [where room = room, OF g room Suc.prems(1) klt])
    let ?p = "phys_of n s k"
    have dr: "unat off + length out < unat off + unat len" using True by simp
    show ?thesis
    proof (cases "?p = 0")
      case True
      then have "\<not> mapped n s ?o" by (simp add: mapped_def k_def)
      then have "takeWhile (mapped n s) [?o..<unat off + unat len] = []" using dr by (simp add: upt_conv_Cons)
      then show ?thesis using dl b0 bi l(1) True by (simp add: Let_def)
    next
      case nz: False
      define left_blocks where "left_blocks = (unat len - length out + bsize s - 1) div bsize s"
      have "unat len - length out + bsize s \<le> unat len + 65536" using bs(2) by simp
      also have "\<dots> < 2 ^ 32" using fit(1) by simp
      finally have small: "unat len - length out + bsize s < 2 ^ 32" .
      have "unat (len - ?d + ?bs - 1) = unat len - length out + bsize s - 1"
        using small left bs by (simp add: unat_sub word_le_nat_alt unat_plus_no_wrap)
      then have lb: "unat ((len - ?d + ?bs - 1) div ?bs) = left_blocks" by (simp add: unat_div left_blocks_def)
      define max_run where "max_run = (if (len - ?d + ?bs - 1) div ?bs < EXT2_READ_RUN_MAX then (len - ?d + ?bs - 1) div ?bs else EXT2_READ_RUN_MAX)"
      have mr: "unat max_run \<le> left_blocks" "unat max_run \<le> 128"
        using lb by (auto simp: max_run_def EXT2_READ_RUN_MAX_def word_less_nat_alt)
      have "bsize s div bsize s \<le> left_blocks" unfolding left_blocks_def by (rule div_le_mono) (use True in simp)
      then have lb1: "1 \<le> left_blocks" using bs(1) by simp
      have fitk: "k + left_blocks \<le> file_blocks s" if "b = 0"
      proof -
        have "k * bsize s + (unat len - length out) \<le> file_blocks s * bsize s" using fit(2) kb(1) that True by linarith
        then have le: "unat len - length out \<le> (file_blocks s - k) * bsize s" by (simp add: diff_mult_distrib)
        have "left_blocks \<le> file_blocks s - k"
          unfolding left_blocks_def using le bs by (simp add: less_Suc_eq_le [symmetric] div_less_iff_less_mult)
        then show ?thesis using klt by simp
      qed
      have nz1: "1 \<le> unat ?p" using nz by (simp add: Suc_le_eq unat_gt_0)
      have pr: "(unat ?p + 1) * bsize s < 2 ^ 32" using reach klt nz by (simp add: blocks_reachable_def in_reach_def)
      have "(unat ?p + 1) * 1024 \<le> (unat ?p + 1) * bsize s" using bs(1) by (rule mult_le_mono2)
      then have "(unat ?p + 1) * 1024 < 2 ^ 32" using pr by (rule le_less_trans)
      then have psmall: "unat ?p < 2 ^ 22" by simp
      obtain r c2 where run: "(if (off + ?d) mod ?bs = 0 then block_run room n (of_nat k) ?p 1 (unat max_run - 1) c1 s else Inr (1, c1)) = Inr (of_nat r, c2)"
        and c2: "coherent c2 s" and r: "1 \<le> r" "r \<le> 128" "k + r \<le> file_blocks s" "\<forall>j < r. phys_of n s (k + j) = ?p + of_nat j"
      proof (cases "b = 0")
        case True
        have z: "(off + ?d) mod ?bs = 0" using bo True by (simp add: unat_eq_zero [symmetric])
        have le: "k + 1 + (unat max_run - 1) \<le> file_blocks s" using fitk [OF True] mr(1) lb1 klt by linarith
        have "\<exists>r c'. block_run room n (of_nat k) ?p (of_nat 1) (unat max_run - 1) c1 s = Inr (of_nat r, c') \<and> coherent c' s \<and>
            1 \<le> r \<and> r \<le> 1 + (unat max_run - 1) \<and> (\<forall>j < r. phys_of n s (k + j) = ?p + of_nat j)"
          by (rule block_run_spec [where room = room, OF g room l(2) _ _ le]) simp_all
        then obtain r c2 where
          "block_run room n (of_nat k) ?p 1 (unat max_run - 1) c1 s = Inr (of_nat r, c2)" "coherent c2 s"
          "1 \<le> r" "r \<le> 1 + (unat max_run - 1)" "\<forall>j < r. phys_of n s (k + j) = ?p + of_nat j" by auto
        then show thesis using that [of r c2] z mr fitk [OF True] lb1 klt by auto
      next
        case False
        then have z: "(off + ?d) mod ?bs \<noteq> 0" using bo by (metis unat_0)
        then have "(if (off + ?d) mod ?bs = 0 then block_run room n (of_nat k) ?p 1 (unat max_run - 1) c1 s else Inr (1, c1)) = Inr (of_nat 1, c1)"
          by (simp only: if_False of_nat_1)
        then show thesis by (rule that) (use l(2) klt in simp_all)
      qed
      define t where "t = min (r * bsize s - b) (unat len - length out)"
      have rb: "r * bsize s \<le> 128 * 65536" using r(2) bs(2) by (rule mult_le_mono)
      have brs: "b < r * bsize s" using kb(2) r(1) by (metis less_le_trans mult_le_mono1 nat_mult_1)
      have ru: "unat (of_nat r :: u32) = r" using r(2) by (intro unat_of_nat_small) simp
      have rbu: "unat (of_nat r * ?bs) = r * bsize s" using rb ru by (simp add: unat_word_ariths(2))
      have run_bytes: "unat (of_nat r * ?bs - (off + ?d) mod ?bs) = r * bsize s - b"
        using rbu bo brs by (subst unat_sub) (simp_all add: word_le_nat_alt)
      have tc: "unat (if of_nat r * ?bs - (off + ?d) mod ?bs < len - ?d then of_nat r * ?bs - (off + ?d) mod ?bs else len - ?d) = t"
        using run_bytes left by (auto simp: t_def word_less_nat_alt min_def)
      have tpos: "0 < t" using brs True by (simp add: t_def)
      have "r - 1 < r" using r(1) by simp
      then have e: "phys_of n s (k + (r - 1)) = ?p + of_nat (r - 1)" using r(4) by blast
      have ue: "unat (?p + of_nat (r - 1)) = unat ?p + (r - 1)" using psmall r(2)
        by (subst unat_plus_no_wrap) (simp_all add: unat_of_nat_small)
      then have "unat (phys_of n s (k + (r - 1))) \<noteq> 0" unfolding e using nz1 by linarith
      then have "phys_of n s (k + (r - 1)) \<noteq> 0" by (metis unat_0)
      moreover have "k + (r - 1) < file_blocks s" using r(1,3) by linarith
      ultimately have "in_reach s (?p + of_nat (r - 1))" using reach e by (metis blocks_reachable_def)
      then have "(unat ?p + (r - 1) + 1) * bsize s < 2 ^ 32" unfolding in_reach_def ue .
      then have rr: "(unat ?p + r) * bsize s < 2 ^ 32" using r(1) by simp
      have buf: "ext2_read_blocks ?p (of_nat r) s = bytes_at (unat ?p * bsize s) (r * bsize s) (medium s)"
        using read_blocks_bytes [OF g, of ?p "of_nat r"] rr ru by simp
      have bt: "b + t \<le> r * bsize s" using brs by (simp add: t_def)
      have piece: "take t (drop b (ext2_read_blocks ?p (of_nat r) s)) = map (file_byte n s) [?o..<?o + t]"
        unfolding buf bytes_at_piece [OF bt] using run_piece [OF g r(4) bt kb(2)] psmall r(2) kb(1) by (simp add: add.assoc)
      have all: "\<forall>i \<in> {?o..<?o + t}. mapped n s i"
      proof
        fix i
        assume i: "i \<in> {?o..<?o + t}"
        then have ib: "i = k * bsize s + (b + (i - ?o))" "b + (i - ?o) < r * bsize s" using kb(1) bt by auto
        let ?q = "(b + (i - ?o)) div bsize s"
        have q: "?q < r" using ib(2) by (simp add: less_mult_imp_div_less)
        have "i div bsize s = k + ?q" using ib(1) bs by (metis (no_types) add.commute div_mult_self1 mult.commute not_one_le_zero one_le_numeral order_trans)
        moreover have "unat (?p + of_nat ?q) = unat ?p + ?q" using psmall r(2) q
          by (subst unat_plus_no_wrap) (simp_all add: unat_of_nat_small)
        then have "unat (?p + of_nat ?q) \<noteq> 0" using nz1 by linarith
        then have "?p + of_nat ?q \<noteq> 0" by (metis unat_0)
        ultimately show "mapped n s i" using r(4) q by (simp add: mapped_def)
      qed
      let ?out = "out @ map (file_byte n s) [?o..<?o + t]"
      have lo: "length ?out = length out + t" by simp
      have "t \<le> unat len - length out" by (simp add: t_def)
      then have IH: "read_loop room n off len fuel ?out c2 s = Inr (?out @ map (file_byte n s)
          (takeWhile (mapped n s) [unat off + length ?out..<unat off + unat len]))"
        using Suc.prems(2,3) tpos True by (intro Suc.IH [OF c2]) simp_all
      have split: "takeWhile (mapped n s) [?o..<unat off + unat len] =
          [?o..<?o + t] @ takeWhile (mapped n s) [?o + t..<unat off + unat len]"
        by (rule takeWhile_upt_split [OF all]) (use \<open>t \<le> unat len - length out\<close> True in simp_all)
      have "read_loop room n off len (Suc fuel) out c s = read_loop room n off len fuel ?out c2 s"
        unfolding read_loop.simps(2) Let_def bi l(1) bindE_simps prod.case max_run_def [symmetric] run tc bo piece
        using dl b0 nz by (simp only: not_True_eq_False if_False)
      then show ?thesis unfolding IH split lo by (simp add: add.assoc)
    qed
  qed
qed

text \<open>
  C14. A read of a file delivers its bytes from the offset on, in order and without a byte of
  another file, up to the length asked for, the end of the file, or the first hole.
\<close>
theorem ext2_read_bytes:
  fixes s :: "'a ext2_scheme"
  defines "n \<equiv> \<lambda>slot. sl_inode (g_slots s ! slot)"
  assumes "geometry s" and "\<forall>k. room k" and "blocks_reachable (n slot) s" and "unat (i_size (n slot)) \<le> file_blocks s * bsize s"
    and "unat off + unat len < 2 ^ 31" and "unat (i_size (n slot)) < 2 ^ 31"
  shows "ext2_do_read room slot off len s =
    Inr (map (file_byte (n slot) s) (takeWhile (mapped (n slot) s) [unat off..<min (unat off + unat len) (unat (i_size (n slot)))]))"
proof (cases "off \<ge> i_size (n slot)")
  case True
  then have "min (unat off + unat len) (unat (i_size (n slot))) \<le> unat off" by (simp add: word_le_nat_alt)
  then show ?thesis using True by (simp add: ext2_do_read_def n_def Let_def)
next
  case False
  let ?sz = "i_size (n slot)"
  define len' where "len' = (if off + len > ?sz then ?sz - off else len)"
  have os: "unat off < unat ?sz" using False by (simp add: word_le_nat_alt)
  have sum: "unat (off + len) = unat off + unat len" using assms(6) by (subst unat_plus_no_wrap) simp_all
  have l: "unat off + unat len' = min (unat off + unat len) (unat ?sz)"
    using os by (simp add: len'_def word_less_nat_alt sum unat_sub word_le_nat_alt min_def)
  have "read_loop room (n slot) off len' (unat len') [] empty_cache s = Inr ([] @ map (file_byte (n slot) s)
      (takeWhile (mapped (n slot) s) [unat off + length ([] :: u8 list)..<unat off + unat len']))"
    by (rule read_loop_spec [OF assms(2) _ assms(4) _ _ coherent_empty]) (use assms(3,5,6,7) l in auto)
  moreover have "ext2_do_read room slot off len s = read_loop room (n slot) off len' (unat len') [] empty_cache s"
    using False assms(3) by (simp add: ext2_do_read_def n_def Let_def len'_def)
  ultimately show ?thesis using l by simp
qed

text \<open>A volume of 1 KB blocks, and a file of three bytes in its block 5.\<close>

definition demo_inode :: ext2_inode where
  "demo_inode = zero_inode\<lparr>i_mode := EXT2_IMODE_FILE, i_size := 3, i_block := (replicate 15 0)[0 := 5]\<rparr>"

definition demo_volume :: ext2 where
  "demo_volume = \<lparr>node_at = (\<lambda>_. zero_node), node_pool_used = 0, node_free_list = None, next_inode = 0, vfs_root = None,
     mount_table = [], fs_registry = [], g_dev = Some (\<lambda>a. if a = 5120 then 7 else if a = 5121 then 8 else 9),
     g_block_size = 1024, g_inodes_per_group = 8, g_inode_size = 128, g_bg_count = 1, g_bgds = [],
     g_slots = replicate 32 \<lparr>sl_used = True, sl_ino = 12, sl_inode = demo_inode, sl_node = None\<rparr>\<rparr>"

lemma demo_phys: "phys_of demo_inode demo_volume k = (if (of_nat k :: u32) = 0 then 5 else 0)"
proof -
  have "i_block demo_inode ! 12 = 0" "i_block demo_inode ! 13 = 0" by (simp_all add: demo_inode_def)
  moreover have "i_block demo_inode ! unat (of_nat k :: u32) = (if (of_nat k :: u32) = 0 then 5 else 0)" if "(of_nat k :: u32) < 12"
  proof -
    have "unat (of_nat k :: u32) < 12" using that by (simp add: word_less_nat_alt)
    moreover have "(of_nat k :: u32) = 0 \<longleftrightarrow> unat (of_nat k :: u32) = 0" by (simp only: unat_eq_zero)
    ultimately show ?thesis by (cases "unat (of_nat k :: u32)") (simp_all add: demo_inode_def)
  qed
  moreover have "(of_nat k :: u32) = 0 \<Longrightarrow> (of_nat k :: u32) < 12" by simp
  ultimately show ?thesis by (auto simp: phys_of_def ext2_file_block_def Let_def)
qed

theorem ext2_read_bytes_witness: "ext2_do_read (\<lambda>_. True) 4 1 100 demo_volume = Inr [8, 9]"
proof -
  have n: "sl_inode (g_slots demo_volume ! 4) = demo_inode" by (simp add: demo_volume_def)
  have g: "geometry demo_volume" by (simp add: geometry_def demo_volume_def)
  have b: "g_block_size demo_volume = 1024" by (simp add: demo_volume_def)
  have "blocks_reachable demo_inode demo_volume" by (simp add: blocks_reachable_def demo_phys in_reach_def b)
  moreover have "unat (i_size demo_inode) = 3" by (simp add: demo_inode_def)
  moreover have "3 \<le> file_blocks demo_volume * bsize demo_volume" by (simp add: file_blocks_def b)
  ultimately have "ext2_do_read (\<lambda>_. True) 4 1 100 demo_volume =
      Inr (map (file_byte demo_inode demo_volume) (takeWhile (mapped demo_inode demo_volume) [1..<3]))"
    using ext2_read_bytes [of demo_volume "\<lambda>_. True" 4 1 100] g by (simp add: n)
  moreover have "[1..<3] = [1, 2 :: nat]" by (simp add: upt_rec)
  moreover have "mapped demo_inode demo_volume 1" "mapped demo_inode demo_volume 2" by (simp_all add: mapped_def demo_phys b)
  moreover have "file_byte demo_inode demo_volume 1 = 8" "file_byte demo_inode demo_volume 2 = 9"
    by (simp_all add: file_byte_def demo_phys b, simp_all add: medium_def demo_volume_def)
  ultimately show ?thesis by simp
qed

text \<open>
  C33. The lookup of a block through the cache of indirect tables finds what the plain walk
  through the pointers of the inode finds, for every block a file can have and every cache
  that holds what is on the medium; and the cache stays so.
\<close>
theorem ext2_lookup_cached:
  assumes "geometry s" and "room (g_block_size s)" and "coherent c s" and "unat blk_idx < file_blocks s"
  shows "\<exists>c'. ext2_blk_lookup room n blk_idx c s = bindE (ext2_file_block room n blk_idx s) (\<lambda>x. Inr (x, c')) \<and> coherent c' s"
  using blk_lookup_cached [where room = room, OF assms, of n] by auto

theorem ext2_lookup_cached_witness:
  "\<exists>c'. ext2_blk_lookup (\<lambda>_. True) demo_inode 0 empty_cache demo_volume = Inr (5, c') \<and> coherent c' demo_volume"
proof -
  have "geometry demo_volume" by (simp add: geometry_def demo_volume_def)
  moreover have "unat (0 :: u32) < file_blocks demo_volume" by (simp add: file_blocks_def)
  moreover have "ext2_file_block (\<lambda>_. True) demo_inode 0 demo_volume = Inr 5" by (simp add: ext2_file_block_def demo_inode_def)
  ultimately show ?thesis
    using ext2_lookup_cached [of demo_volume "\<lambda>_. True" empty_cache 0 demo_inode, OF _ _ coherent_empty] by simp
qed

end
