(* ===== verification/Ext2_Alloc.thy ===== *)
theory Ext2_Alloc
  imports Ext2_Read
begin

text \<open>
  Allocation and writing of \<open>fs/ext2.c\<close>: the bitmaps of blocks and inodes with the counts in
  the group descriptors and the superblock, the blocks a file gets on demand, writing, and
  giving the blocks of an inode back.
\<close>

section \<open>Bitmaps\<close>

text \<open>The first clear bit from \<open>i\<close> on; \<open>n\<close> bits are left.\<close>

fun find_clear :: "u8 list \<Rightarrow> nat \<Rightarrow> nat \<Rightarrow> fault + nat option" where
  "find_clear bm i 0 = Inr None"
| "find_clear bm i (Suc n) =
     (if \<not> i div 8 < length bm then Inl BadAccess
      else if bit (bm ! (i div 8)) (i mod 8) then find_clear bm (i + 1) n
      else Inr (Some i))"

definition mark_bit :: "nat \<Rightarrow> u8 list \<Rightarrow> u8 list" where
  "mark_bit i bm = bm[i div 8 := bm ! (i div 8) OR push_bit (i mod 8) 1]"

definition unmark_bit :: "nat \<Rightarrow> u8 list \<Rightarrow> u8 list" where
  "unmark_bit i bm = bm[i div 8 := bm ! (i div 8) AND NOT (push_bit (i mod 8) 1)]"

text \<open>The group descriptors go back to the medium, in whole blocks.\<close>

definition bgdt_block :: "'a ext2_scheme \<Rightarrow> u32" where
  "bgdt_block s = (if g_block_size s = 1024 then 2 else 1)"

definition bgdt_blocks :: "'a ext2_scheme \<Rightarrow> u32" where
  "bgdt_blocks s = (g_bg_count s * 32 + g_block_size s - 1) div g_block_size s"

definition read_bgdt :: "'a ext2_scheme \<Rightarrow> u8 list" where
  "read_bgdt s = concat (map (\<lambda>b. ext2_read_block (bgdt_block s + of_nat b) s) [0..<unat (bgdt_blocks s)])"

definition write_bgdt :: "(u32 \<Rightarrow> bool) \<Rightarrow> 'a ext2_scheme \<Rightarrow> 'a ext2_scheme" where
  "write_bgdt room s =
     (if \<not> room (bgdt_blocks s * g_block_size s) then s
      else
        let buf = put 0 (take (unat (g_bg_count s * 32)) (concat (map bgd_bytes (g_bgds s)))) (read_bgdt s);
            bs = unat (g_block_size s)
        in fold (\<lambda>b s. ext2_write_block (bgdt_block s + of_nat b) (take bs (drop (b * bs) buf)) s)
             [0..<unat (bgdt_blocks s)] s)"

definition upd_bgd :: "nat \<Rightarrow> (ext2_bgd \<Rightarrow> ext2_bgd) \<Rightarrow> 'a ext2_scheme \<Rightarrow> 'a ext2_scheme" where
  "upd_bgd g f s = s\<lparr>g_bgds := (g_bgds s)[g := f (g_bgds s ! g)]\<rparr>"

section \<open>Blocks\<close>

text \<open>\<open>sb\<close> is the superblock as it was read; \<open>gs\<close> are the groups still to be searched.\<close>

fun alloc_groups :: "(u32 \<Rightarrow> bool) \<Rightarrow> u8 list \<Rightarrow> nat list \<Rightarrow> 'a ext2_scheme \<Rightarrow> fault + u32 \<times> 'a ext2_scheme" where
  "alloc_groups room sb [] s = Inr (0, s)"
| "alloc_groups room sb (g # gs) s =
     (if \<not> g < length (g_bgds s) then Inl BadAccess
      else if bg_free_blocks_count (g_bgds s ! g) = 0 then alloc_groups room sb gs s
      else
        let bitmap_block = bg_block_bitmap (g_bgds s ! g); bm = ext2_read_block bitmap_block s;
            per_group = s_blocks_per_group sb; remaining = s_blocks_count sb - of_nat g * per_group;
            n = (if remaining < per_group then remaining else per_group)
        in bindE (find_clear bm 0 (unat n)) (\<lambda>r.
             case r of
               None \<Rightarrow> alloc_groups room sb gs s
             | Some i \<Rightarrow>
                 let s = ext2_write_block bitmap_block (mark_bit i bm) s;
                     s = upd_bgd g (\<lambda>d. d\<lparr>bg_free_blocks_count := bg_free_blocks_count d - 1\<rparr>) s;
                     s = write_bgdt room s;
                     sb = (if s_free_blocks_count sb > 0 then put 12 (enc32 (s_free_blocks_count sb - 1)) sb else sb)
                 in Inr (of_nat g * per_group + of_nat i + s_first_data_block sb, write_sectors 2 2 sb s)))"

definition ext2_alloc_block :: "(u32 \<Rightarrow> bool) \<Rightarrow> 'a ext2_scheme \<Rightarrow> fault + u32 \<times> 'a ext2_scheme" where
  "ext2_alloc_block room s =
     (if \<not> room (g_block_size s) then Inr (0, s)
      else alloc_groups room (read_sectors 2 2 s) [0..<unat (g_bg_count s)] s)"

definition ext2_free_block :: "(u32 \<Rightarrow> bool) \<Rightarrow> u32 \<Rightarrow> 'a ext2_scheme \<Rightarrow> fault + 'a ext2_scheme" where
  "ext2_free_block room block_no s =
     (if block_no = 0 then Inr s
      else
        let sb = read_sectors 2 2 s; per_group = s_blocks_per_group sb in
        if per_group = 0 then divide_error
        else
          let group = (block_no - s_first_data_block sb) div per_group;
              idx = (block_no - s_first_data_block sb) mod per_group; g = unat group
          in if group \<ge> g_bg_count s \<or> \<not> room (g_block_size s) then Inr s
             else if \<not> g < length (g_bgds s) then Inl BadAccess
             else
               let bitmap_block = bg_block_bitmap (g_bgds s ! g); bm = ext2_read_block bitmap_block s in
               if \<not> unat idx div 8 < length bm then Inl BadAccess
               else
                 let s = ext2_write_block bitmap_block (unmark_bit (unat idx) bm) s;
                     s = upd_bgd g (\<lambda>d. d\<lparr>bg_free_blocks_count := bg_free_blocks_count d + 1\<rparr>) s;
                     s = write_bgdt room s
                 in Inr (write_sectors 2 2 (put 12 (enc32 (s_free_blocks_count sb + 1)) sb) s))"

section \<open>Inodes\<close>

fun alloc_inode_groups :: "(u32 \<Rightarrow> bool) \<Rightarrow> u8 list \<Rightarrow> nat list \<Rightarrow> 'a ext2_scheme \<Rightarrow> fault + u32 \<times> 'a ext2_scheme" where
  "alloc_inode_groups room sb [] s = Inr (0, s)"
| "alloc_inode_groups room sb (g # gs) s =
     (if \<not> g < length (g_bgds s) then Inl BadAccess
      else if bg_free_inodes_count (g_bgds s ! g) = 0 then alloc_inode_groups room sb gs s
      else
        let bitmap_block = bg_inode_bitmap (g_bgds s ! g); bm = ext2_read_block bitmap_block s in
        bindE (find_clear bm 0 (unat (g_inodes_per_group s))) (\<lambda>r.
          case r of
            None \<Rightarrow> alloc_inode_groups room sb gs s
          | Some i \<Rightarrow>
              let s = ext2_write_block bitmap_block (mark_bit i bm) s;
                  s = upd_bgd g (\<lambda>d. d\<lparr>bg_free_inodes_count := bg_free_inodes_count d - 1\<rparr>) s;
                  s = write_bgdt room s;
                  sb = (if s_free_inodes_count sb > 0 then put 16 (enc32 (s_free_inodes_count sb - 1)) sb else sb)
              in Inr (of_nat g * g_inodes_per_group s + of_nat i + 1, write_sectors 2 2 sb s)))"

definition ext2_alloc_inode :: "(u32 \<Rightarrow> bool) \<Rightarrow> 'a ext2_scheme \<Rightarrow> fault + u32 \<times> 'a ext2_scheme" where
  "ext2_alloc_inode room s =
     (if \<not> room (g_block_size s) then Inr (0, s)
      else alloc_inode_groups room (read_sectors 2 2 s) [0..<unat (g_bg_count s)] s)"

definition ext2_free_inode :: "(u32 \<Rightarrow> bool) \<Rightarrow> u32 \<Rightarrow> 'a ext2_scheme \<Rightarrow> fault + 'a ext2_scheme" where
  "ext2_free_inode room ino s =
     (if ino = 0 then Inr s
      else
        let sb = read_sectors 2 2 s in
        if g_inodes_per_group s = 0 then divide_error
        else
          let group = (ino - 1) div g_inodes_per_group s; idx = (ino - 1) mod g_inodes_per_group s; g = unat group
          in if group \<ge> g_bg_count s \<or> \<not> room (g_block_size s) then Inr s
             else if \<not> g < length (g_bgds s) then Inl BadAccess
             else
               let bitmap_block = bg_inode_bitmap (g_bgds s ! g); bm = ext2_read_block bitmap_block s in
               if \<not> unat idx div 8 < length bm then Inl BadAccess
               else
                 let s = ext2_write_block bitmap_block (unmark_bit (unat idx) bm) s;
                     s = upd_bgd g (\<lambda>d. d\<lparr>bg_free_inodes_count := bg_free_inodes_count d + 1\<rparr>) s;
                     s = write_bgdt room s
                 in Inr (write_sectors 2 2 (put 16 (enc32 (s_free_inodes_count sb + 1)) sb) s))"

section \<open>Blocks on demand\<close>

definition upd_inode :: "nat \<Rightarrow> (ext2_inode \<Rightarrow> ext2_inode) \<Rightarrow> 'a ext2_scheme \<Rightarrow> 'a ext2_scheme" where
  "upd_inode slot f s = s\<lparr>g_slots := (g_slots s)[slot := (g_slots s ! slot)\<lparr>sl_inode := f (sl_inode (g_slots s ! slot))\<rparr>]\<rparr>"

text \<open>\<open>ALLOC_ZERO_BLOCK\<close>: the new block, or 0.\<close>

definition alloc_zero_block :: "(u32 \<Rightarrow> bool) \<Rightarrow> nat \<Rightarrow> 'a ext2_scheme \<Rightarrow> fault + u32 \<times> 'a ext2_scheme" where
  "alloc_zero_block room slot s =
     bindE (ext2_alloc_block room s) (\<lambda>(b, s).
       if b = 0 then Inr (0, s)
       else if \<not> room (g_block_size s) then bindE (ext2_free_block room b s) (\<lambda>s. Inr (0, s))
       else
         let s = ext2_write_block b (replicate (unat (g_block_size s)) 0) s
         in Inr (b, upd_inode slot (\<lambda>n. n\<lparr>i_blocks := i_blocks n + g_block_size s div BLKDEV_SECTOR_SIZE\<rparr>) s))"

text \<open>
  A pointer of the inode, filled in if it is 0. The results are the block (0 for a failure),
  whether a block was allocated, and the state.
\<close>

definition ensure_ptr :: "(u32 \<Rightarrow> bool) \<Rightarrow> nat \<Rightarrow> nat \<Rightarrow> 'a ext2_scheme \<Rightarrow> fault + u32 \<times> bool \<times> 'a ext2_scheme" where
  "ensure_ptr room slot i s =
     (let p = i_block (sl_inode (g_slots s ! slot)) ! i in
      if p \<noteq> 0 then Inr (p, False, s)
      else bindE (alloc_zero_block room slot s) (\<lambda>(b, s).
        if b = 0 then Inr (0, False, s)
        else Inr (b, True, upd_inode slot (\<lambda>n. n\<lparr>i_block := (i_block n)[i := b]\<rparr>) s)))"

text \<open>A pointer of the table in block \<open>t\<close>, filled in if it is 0.\<close>

definition ensure_entry :: "(u32 \<Rightarrow> bool) \<Rightarrow> nat \<Rightarrow> u32 \<Rightarrow> u32 \<Rightarrow> 'a ext2_scheme \<Rightarrow> fault + u32 \<times> bool \<times> 'a ext2_scheme" where
  "ensure_entry room slot t i s =
     (if \<not> room (g_block_size s) then Inr (0, False, s)
      else
        let tab = ext2_read_block t s in
        bindE (nth_ptr tab i) (\<lambda>p.
          if p \<noteq> 0 then Inr (p, False, s)
          else bindE (alloc_zero_block room slot s) (\<lambda>(b, s).
            if b = 0 then Inr (0, False, s)
            else Inr (b, True, ext2_write_block t (put (4 * unat i) (enc32 b) tab) s))))"

text \<open>One step after another; a failure ends the whole.\<close>

definition and_then :: "fault + u32 \<times> bool \<times> 's \<Rightarrow> (u32 \<Rightarrow> 's \<Rightarrow> fault + u32 \<times> bool \<times> 's) \<Rightarrow> fault + u32 \<times> bool \<times> 's" where
  "and_then r f =
     bindE r (\<lambda>(b, ch, s). if b = 0 then Inr (0, ch, s) else bindE (f b s) (\<lambda>(b, ch', s). Inr (b, ch \<or> ch', s)))"

definition ext2_ensure_file_block :: "(u32 \<Rightarrow> bool) \<Rightarrow> nat \<Rightarrow> u32 \<Rightarrow> 'a ext2_scheme \<Rightarrow> fault + u32 \<times> bool \<times> 'a ext2_scheme" where
  "ext2_ensure_file_block room slot blk_idx s =
     (let ppb = g_block_size s div 4 in
      if blk_idx < 12 then ensure_ptr room slot (unat blk_idx) s
      else if blk_idx < 12 + ppb then
        and_then (ensure_ptr room slot 12 s) (\<lambda>t s. ensure_entry room slot t (blk_idx - 12) s)
      else if blk_idx < 12 + ppb + ppb * ppb then
        (let idx = blk_idx - 12 - ppb in
         and_then (and_then (ensure_ptr room slot 13 s) (\<lambda>t s. ensure_entry room slot t (idx div ppb) s))
           (\<lambda>t s. ensure_entry room slot t (idx mod ppb) s))
      else Inr (0, False, s))"

section \<open>Writing\<close>

text \<open>The loop of \<open>ext2_do_write\<close>: the bytes written and whether a block was allocated.\<close>

fun write_loop :: "(u32 \<Rightarrow> bool) \<Rightarrow> nat \<Rightarrow> u32 \<Rightarrow> u8 list \<Rightarrow> nat \<Rightarrow> u32 \<Rightarrow> bool \<Rightarrow> 'a ext2_scheme \<Rightarrow>
    fault + u32 \<times> bool \<times> 'a ext2_scheme" where
  "write_loop room slot off src 0 d ch s = (if \<not> d < of_nat (length src) then Inr (d, ch, s) else Inl Runaway)"
| "write_loop room slot off src (Suc fuel) d ch s =
     (let len = of_nat (length src); bs = g_block_size s in
      if \<not> d < len then Inr (d, ch, s)
      else if bs = 0 then divide_error
      else
        let blk_idx = (off + d) div bs; blk_off = (off + d) mod bs;
            to_copy = (if bs - blk_off > len - d then len - d else bs - blk_off)
        in bindE (ext2_ensure_file_block room slot blk_idx s) (\<lambda>(phys, ch', s).
             if phys = 0 then Inr (d, ch \<or> ch', s)
             else
               let bbuf = put (unat blk_off) (take (unat to_copy) (drop (unat d) src)) (ext2_read_block phys s)
               in write_loop room slot off src fuel (d + to_copy) (ch \<or> ch') (ext2_write_block phys bbuf s)))"

definition ext2_do_write :: "(u32 \<Rightarrow> bool) \<Rightarrow> nat \<Rightarrow> u32 \<Rightarrow> u8 list \<Rightarrow> 'a ext2_scheme \<Rightarrow> fault + u32 \<times> 'a ext2_scheme" where
  "ext2_do_write room slot off src s =
     (if \<not> room (g_block_size s) then Inr (0, s)
      else bindE (write_loop room slot off src (length src) 0 False s) (\<lambda>(d, changed, s).
        let size_changed = (d > 0 \<and> off + d > i_size (sl_inode (g_slots s ! slot)));
            s = (if size_changed then upd_inode slot (\<lambda>n. n\<lparr>i_size := off + d\<rparr>) s else s);
            sl = g_slots s ! slot
        in if changed \<or> size_changed
           then bindE (ext2_write_inode (sl_ino sl) (sl_inode sl) s) (\<lambda>s.
                  Inr (d, case sl_node sl of None \<Rightarrow> s | Some x \<Rightarrow> upd_node x (\<lambda>v. v\<lparr>v_size := i_size (sl_inode sl)\<rparr>) s))
           else Inr (d, s)))"

section \<open>Giving blocks back\<close>

definition table_ptrs :: "u8 list \<Rightarrow> nat \<Rightarrow> u32 list" where
  "table_ptrs tab n = map (\<lambda>i. get32 tab (4 * i)) [0..<n]"

definition free_all :: "(u32 \<Rightarrow> bool) \<Rightarrow> u32 list \<Rightarrow> 'a ext2_scheme \<Rightarrow> fault + 'a ext2_scheme" where
  "free_all room bs = foldE (\<lambda>b s. if b \<noteq> 0 then ext2_free_block room b s else Inr s) bs"

text \<open>The inode without its blocks, which is not written.\<close>

definition ext2_free_inode_blocks :: "(u32 \<Rightarrow> bool) \<Rightarrow> ext2_inode \<Rightarrow> 'a ext2_scheme \<Rightarrow> fault + ext2_inode \<times> 'a ext2_scheme" where
  "ext2_free_inode_blocks room n s =
     (let bs = g_block_size s; ptrs = unat (bs div 4); b = i_block n in
      bindE (free_all room (take 12 b) s) (\<lambda>s.
      bindE (if b ! 12 = 0 then Inr s
             else bindE (if room bs then free_all room (table_ptrs (ext2_read_block (b ! 12) s) ptrs) s else Inr s) (\<lambda>s.
               ext2_free_block room (b ! 12) s)) (\<lambda>s.
      bindE (if b ! 13 = 0 then Inr s
             else bindE (if room bs then
                 foldE (\<lambda>t s. if t = 0 then Inr s
                     else bindE (free_all room (table_ptrs (ext2_read_block t s) ptrs) s) (\<lambda>s. ext2_free_block room t s))
                   (table_ptrs (ext2_read_block (b ! 13) s) ptrs) s else Inr s) (\<lambda>s.
               ext2_free_block room (b ! 13) s)) (\<lambda>s.
      Inr (n\<lparr>i_block := replicate 12 0 @ [0, 0] @ drop 14 b, i_blocks := 0\<rparr>, s)))))"

end
