(* ===== verification/Ext2_Dir.thy ===== *)
theory Ext2_Dir
  imports Ext2_Alloc
begin

text \<open>
  Directories of \<open>fs/ext2.c\<close>: the entries packed into a block, adding and removing one, and
  the operations that the tree of files calls: mount, unmount, create, mkdir, unlink.
\<close>

section \<open>Entries\<close>

text \<open>
  An entry is looked at in the buffer of its block, by its offset. A field beyond the buffer
  is a bad access.
\<close>

definition de_inode :: "u8 list \<Rightarrow> nat \<Rightarrow> u32" where "de_inode b p = get32 b p"
definition de_rec_len :: "u8 list \<Rightarrow> nat \<Rightarrow> u16" where "de_rec_len b p = get16 b (p + 4)"
definition de_name_len :: "u8 list \<Rightarrow> nat \<Rightarrow> u8" where "de_name_len b p = b ! (p + 6)"
definition de_file_type :: "u8 list \<Rightarrow> nat \<Rightarrow> u8" where "de_file_type b p = b ! (p + 7)"
definition de_name :: "u8 list \<Rightarrow> nat \<Rightarrow> u8 list" where "de_name b p = take (unat (de_name_len b p)) (drop (p + 8) b)"

definition chars :: "u8 list \<Rightarrow> string" where "chars bs = map (\<lambda>b. char_of (unat b)) bs"
definition bytes :: "string \<Rightarrow> u8 list" where "bytes cs = map (\<lambda>c. of_nat (of_char c)) cs"

text \<open>The string that a buffer of characters holds ends before its first NUL.\<close>

definition c_string :: "string \<Rightarrow> string" where "c_string cs = takeWhile (\<lambda>c. c \<noteq> CHR 0x00) cs"

definition set_rec_len :: "nat \<Rightarrow> u16 \<Rightarrow> u8 list \<Rightarrow> u8 list" where
  "set_rec_len p w b = put (p + 4) (enc16 w) b"

text \<open>\<open>(8 + name_len + 3) & ~3u\<close>.\<close>

definition entry_size :: "u8 \<Rightarrow> u32" where
  "entry_size name_len = (8 + ucast name_len + 3) AND NOT 3"

definition put_entry :: "nat \<Rightarrow> u32 \<Rightarrow> u16 \<Rightarrow> u8 \<Rightarrow> u8 \<Rightarrow> string \<Rightarrow> u8 list \<Rightarrow> u8 list" where
  "put_entry p ino rec_len name_len file_type name b =
     put p (enc32 ino @ enc16 rec_len @ [name_len, file_type] @ take (unat name_len) (bytes name)) b"

lemma unat_SucE: "w \<noteq> 0 \<Longrightarrow> \<exists>k. unat w = Suc k"
  by (metis not0_implies_Suc unat_eq_zero)

text \<open>The last entry of a block.\<close>

function last_entry :: "u8 list \<Rightarrow> nat \<Rightarrow> nat option \<Rightarrow> fault + nat option" where
  "last_entry b pos found =
     (if \<not> pos < length b then Inr found
      else if length b < pos + 6 then Inl BadAccess
      else if de_rec_len b pos = 0 then Inr found
      else last_entry b (pos + unat (de_rec_len b pos)) (Some pos))"
  by pat_completeness auto
termination
  by (relation "measure (\<lambda>(b, pos, found). length b - pos)") (auto dest!: unat_SucE)

declare last_entry.simps [simp del]

text \<open>An entry appended in the slack of the last one, if it fits.\<close>

definition block_add :: "u32 \<Rightarrow> string \<Rightarrow> u8 \<Rightarrow> u8 list \<Rightarrow> fault + u8 list option" where
  "block_add child_ino name file_type b =
     (let namelen = of_nat (length name); needed = entry_size namelen in
      bindE (last_entry b 0 None) (\<lambda>l.
        case l of
          None \<Rightarrow> Inr None
        | Some p \<Rightarrow>
            if length b < p + 7 then Inl BadAccess
            else
              let actual = entry_size (de_name_len b p); slack = ucast (de_rec_len b p) - actual; q = p + unat actual in
              if slack \<ge> needed then
                (if length b < q + 8 + unat namelen then Inl BadAccess
                 else Inr (Some (put_entry q child_ino (ucast slack) namelen file_type name
                                   (set_rec_len p (ucast actual) b))))
              else Inr None))"

text \<open>The entry of an inode removed: merged into the one before it, or without inode.\<close>

function block_remove :: "u32 \<Rightarrow> u8 list \<Rightarrow> nat \<Rightarrow> nat option \<Rightarrow> fault + u8 list option" where
  "block_remove child_ino b pos prev =
     (if \<not> pos < length b then Inr None
      else if length b < pos + 6 then Inl BadAccess
      else if de_rec_len b pos = 0 then Inr None
      else if de_inode b pos = child_ino then
        Inr (Some (case prev of
                     Some q \<Rightarrow> set_rec_len q (de_rec_len b q + de_rec_len b pos) b
                   | None \<Rightarrow> put pos (enc32 0) b))
      else block_remove child_ino b (pos + unat (de_rec_len b pos)) (Some pos))"
  by pat_completeness auto
termination
  by (relation "measure (\<lambda>(c, b, pos, prev). length b - pos)") (auto dest!: unat_SucE)

declare block_remove.simps [simp del]

section \<open>Adding and removing entries\<close>

text \<open>The direct blocks up to the first that is missing; \<open>Some True\<close>: the entry has been added.\<close>

fun add_in_blocks :: "u32 \<Rightarrow> string \<Rightarrow> u8 \<Rightarrow> u32 list \<Rightarrow> 'a ext2_scheme \<Rightarrow> fault + bool \<times> 'a ext2_scheme" where
  "add_in_blocks child name ft [] s = Inr (False, s)"
| "add_in_blocks child name ft (phys # ps) s =
     (if phys = 0 then Inr (False, s)
      else bindE (block_add child name ft (ext2_read_block phys s)) (\<lambda>r.
        case r of
          Some b \<Rightarrow> Inr (True, ext2_write_block phys b s)
        | None \<Rightarrow> add_in_blocks child name ft ps s))"

definition ext2_dir_add_entry :: "(u32 \<Rightarrow> bool) \<Rightarrow> u32 \<Rightarrow> u32 \<Rightarrow> string \<Rightarrow> u8 \<Rightarrow> 'a ext2_scheme \<Rightarrow> fault + int \<times> 'a ext2_scheme" where
  "ext2_dir_add_entry room dir_ino child_ino name file_type s =
     bindE (ext2_read_inode dir_ino s) (\<lambda>n.
       if \<not> room (g_block_size s) then Inr (-1, s)
       else bindE (add_in_blocks child_ino name file_type (take 12 (i_block n)) s) (\<lambda>(added, s).
         if added then Inr (0, s)
         else bindE (ext2_alloc_block room s) (\<lambda>(new_block, s).
           if new_block = 0 then Inr (-1, s)
           else case find (\<lambda>bi. i_block n ! bi = 0) [0..<12] of
             None \<Rightarrow> bindE (ext2_free_block room new_block s) (\<lambda>s. Inr (-1, s))
           | Some slot \<Rightarrow>
               let bs = g_block_size s;
                   b = put_entry 0 child_ino (ucast bs) (of_nat (length name)) file_type name (replicate (unat bs) 0);
                   s = ext2_write_block new_block b s;
                   n = n\<lparr>i_block := (i_block n)[slot := new_block], i_size := i_size n + bs,
                         i_blocks := i_blocks n + bs div BLKDEV_SECTOR_SIZE\<rparr>
               in bindE (ext2_write_inode dir_ino n s) (\<lambda>s. Inr (0, s)))))"

fun remove_in_blocks :: "u32 \<Rightarrow> u32 list \<Rightarrow> 'a ext2_scheme \<Rightarrow> fault + int \<times> 'a ext2_scheme" where
  "remove_in_blocks child [] s = Inr (-1, s)"
| "remove_in_blocks child (phys # ps) s =
     (if phys = 0 then Inr (-1, s)
      else bindE (block_remove child (ext2_read_block phys s) 0 None) (\<lambda>r.
        case r of
          Some b \<Rightarrow> Inr (0, ext2_write_block phys b s)
        | None \<Rightarrow> remove_in_blocks child ps s))"

definition ext2_dir_remove_entry :: "(u32 \<Rightarrow> bool) \<Rightarrow> u32 \<Rightarrow> u32 \<Rightarrow> 'a ext2_scheme \<Rightarrow> fault + int \<times> 'a ext2_scheme" where
  "ext2_dir_remove_entry room dir_ino child_ino s =
     bindE (ext2_read_inode dir_ino s) (\<lambda>n.
       if \<not> room (g_block_size s) then Inr (-1, s)
       else remove_in_blocks child_ino (take 12 (i_block n)) s)"

section \<open>The tree of files\<close>

text \<open>The addresses of the operations of the driver and of its slots.\<close>

definition ext2_ops :: fnptr where "ext2_ops = 90"
definition ext2_read_op :: "nat \<Rightarrow> fnptr" where "ext2_read_op i = 100 + 2 * i"
definition ext2_write_op :: "nat \<Rightarrow> fnptr" where "ext2_write_op i = 101 + 2 * i"

definition file_fields :: "nat \<Rightarrow> ext2_inode \<Rightarrow> vfs_node \<Rightarrow> vfs_node" where
  "file_fields slot n v = v\<lparr>v_flags := VFS_FILE OR VFS_CHARDEV, v_size := i_size n, v_read_op := Some (ext2_read_op slot),
     v_write_op := Some (ext2_write_op slot), v_fs := Some ext2_ops\<rparr>"

text \<open>The entries of a block as \<open>ext2_walk_dir\<close> meets them, those without inode or name left out.\<close>

function dir_scan :: "u8 list \<Rightarrow> nat \<Rightarrow> fault + (u32 \<times> string) list" where
  "dir_scan b pos =
     (if \<not> pos < length b then Inr []
      else if length b < pos + 6 then Inl BadAccess
      else if de_rec_len b pos = 0 then Inr []
      else if de_inode b pos \<noteq> 0 \<and> length b < pos + 7 then Inl BadAccess
      else if de_inode b pos \<noteq> 0 \<and> length b < pos + 8 + unat (de_name_len b pos) then Inl BadAccess
      else bindE (dir_scan b (pos + unat (de_rec_len b pos))) (\<lambda>es.
        Inr (if de_inode b pos \<noteq> 0 \<and> de_name_len b pos \<noteq> 0 then (de_inode b pos, chars (de_name b pos)) # es else es)))"
  by pat_completeness auto
termination
  by (relation "measure (\<lambda>(b, pos). length b - pos)") (auto dest!: unat_SucE)

declare dir_scan.simps [simp del]

text \<open>\<open>descend\<close> is \<open>ext2_walk_dir\<close>, called for a subdirectory.\<close>

definition ext2_add_file :: "(vptr \<Rightarrow> u32 \<Rightarrow> 'a ext2_scheme \<Rightarrow> fault + 'a ext2_scheme) \<Rightarrow> heap_env \<Rightarrow> vptr \<Rightarrow> u32 \<Rightarrow> string \<Rightarrow>
    ext2_inode \<Rightarrow> 'a ext2_scheme \<Rightarrow> fault + 'a ext2_scheme" where
  "ext2_add_file descend h parent ino name n s =
     (let mode = i_mode n AND EXT2_IMODE_MASK in
      case vfs_alloc_node h s of
        (None, s) \<Rightarrow> Inr s
      | (Some x, s) \<Rightarrow>
          let s = upd_node x (\<lambda>v. v\<lparr>v_name := c_string (take (VFS_NAME_MAX - 1) name), v_inode := ino\<rparr>) s in
          if mode = EXT2_IMODE_DIR then
            bindE (vfs_add_child parent x (upd_node x (\<lambda>v. v\<lparr>v_flags := VFS_DIR, v_fs := Some ext2_ops\<rparr>) s)) (descend x ino)
          else if mode = EXT2_IMODE_FILE then
            (case ext2_alloc_slot ino n x s of
               (None, s) \<Rightarrow> Inr (vfs_free_node x s)
             | (Some slot, s) \<Rightarrow> vfs_add_child parent x (upd_node x (file_fields slot n) s))
          else Inr (vfs_free_node x s))"

text \<open>The blocks of a directory: the direct ones, then those of the indirect table, each up to the first missing.\<close>

definition dir_blocks :: "(u32 \<Rightarrow> bool) \<Rightarrow> ext2_inode \<Rightarrow> 'a ext2_scheme \<Rightarrow> u32 list" where
  "dir_blocks room n s =
     takeWhile (\<lambda>p. p \<noteq> 0) (take 12 (i_block n)) @
     (if i_block n ! 12 \<noteq> 0 \<and> room (g_block_size s)
      then takeWhile (\<lambda>p. p \<noteq> 0) (table_ptrs (ext2_read_block (i_block n ! 12) s) (unat (g_block_size s div 4))) else [])"

text \<open>\<open>fuel\<close> bounds the depth of the directories.\<close>

fun ext2_walk_dir :: "(u32 \<Rightarrow> bool) \<Rightarrow> heap_env \<Rightarrow> nat \<Rightarrow> vptr \<Rightarrow> u32 \<Rightarrow> 'a ext2_scheme \<Rightarrow> fault + 'a ext2_scheme" where
  "ext2_walk_dir room h 0 parent dir_ino s = Inl Runaway"
| "ext2_walk_dir room h (Suc fuel) parent dir_ino s =
     bindE (ext2_read_inode dir_ino s) (\<lambda>n.
       if \<not> room (g_block_size s) then Inr s
       else foldE (\<lambda>phys s.
           bindE (dir_scan (ext2_read_block phys s) 0) (\<lambda>es.
             foldE (\<lambda>(ino, name) s.
               if name = ''.'' \<or> name = ''..'' then Inr s
               else bindE (ext2_read_inode ino s) (\<lambda>c. ext2_add_file (ext2_walk_dir room h fuel) h parent ino name c s)) es s))
         (dir_blocks room n s) s)"

definition ext2_make_vfs_node :: "heap_env \<Rightarrow> vptr \<Rightarrow> u32 \<Rightarrow> string \<Rightarrow> ext2_inode \<Rightarrow> bool \<Rightarrow> 'a ext2_scheme \<Rightarrow>
    fault + vptr option \<times> 'a ext2_scheme" where
  "ext2_make_vfs_node h parent ino name n is_directory s =
     (case vfs_alloc_node h s of
        (None, s) \<Rightarrow> Inr (None, s)
      | (Some x, s) \<Rightarrow>
          let s = upd_node x (\<lambda>v. v\<lparr>v_name := take (VFS_NAME_MAX - 1) name, v_inode := ino, v_parent := Some parent,
                                     v_fs := Some ext2_ops\<rparr>) s;
              add = (\<lambda>s. bindE (vfs_add_child parent x s) (\<lambda>s. Inr (Some x, s)))
          in if is_directory then add (upd_node x (\<lambda>v. v\<lparr>v_flags := VFS_DIR\<rparr>) s)
             else case ext2_alloc_slot ino n x s of
               (None, s) \<Rightarrow> Inr (None, vfs_free_node x s)
             | (Some slot, s) \<Rightarrow> add (upd_node x (file_fields slot n) s))"

text \<open>The child that is called \<open>name\<close> and is not a directory.\<close>

partial_function (option) file_named :: "(vptr \<Rightarrow> vfs_node) \<Rightarrow> string \<Rightarrow> vptr option \<Rightarrow> vptr option option" where
  "file_named h name p =
     (case p of
        None \<Rightarrow> Some None
      | Some c \<Rightarrow> if v_name (h c) = name \<and> v_flags (h c) AND VFS_DIR = 0 then Some (Some c)
                  else file_named h name (v_sibling (h c)))"

declare file_named.simps [code]

definition slot_of_ino :: "u32 \<Rightarrow> 'a ext2_scheme \<Rightarrow> nat option" where
  "slot_of_ino ino s = find (\<lambda>i. sl_used (g_slots s ! i) \<and> sl_ino (g_slots s ! i) = ino) [0..<EXT2_FILE_SLOTS]"

definition ext2_truncate :: "(u32 \<Rightarrow> bool) \<Rightarrow> vptr \<Rightarrow> 'a ext2_scheme \<Rightarrow> fault + 'a ext2_scheme" where
  "ext2_truncate room c s =
     (let ino = v_inode (node_at s c) in
      bindE (ext2_read_inode ino s) (\<lambda>n.
      bindE (ext2_free_inode_blocks room n s) (\<lambda>(n, s).
        let n = n\<lparr>i_size := 0\<rparr> in
        bindE (ext2_write_inode ino n s) (\<lambda>s.
          let s = (case slot_of_ino ino s of None \<Rightarrow> s | Some i \<Rightarrow> upd_inode i (\<lambda>_. n) s)
          in Inr (upd_node c (\<lambda>v. v\<lparr>v_size := 0\<rparr>) s)))))"

definition ext2_create :: "(u32 \<Rightarrow> bool) \<Rightarrow> heap_env \<Rightarrow> vptr \<Rightarrow> string \<Rightarrow> 'a ext2_scheme \<Rightarrow> fault + vptr option \<times> 'a ext2_scheme" where
  "ext2_create room h parent name s =
     bindE (of_opt (file_named (node_at s) name (v_children (node_at s parent)))) (\<lambda>c.
       case c of
         Some c \<Rightarrow> bindE (ext2_truncate room c s) (\<lambda>s. Inr (Some c, s))
       | None \<Rightarrow>
           bindE (ext2_alloc_inode room s) (\<lambda>(ino, s).
             if ino = 0 then Inr (None, s)
             else
               let n = zero_inode\<lparr>i_mode := EXT2_IMODE_FILE OR 0x1A4, i_links_count := 1\<rparr> in
               bindE (ext2_write_inode ino n s) (\<lambda>s.
               bindE (ext2_dir_add_entry room (v_inode (node_at s parent)) ino name 1 s) (\<lambda>(r, s).
                 if r \<noteq> 0 then bindE (ext2_free_inode room ino s) (\<lambda>s. Inr (None, s))
                 else ext2_make_vfs_node h parent ino name n False s))))"

text \<open>The first block of a directory.\<close>

definition dot_entries :: "u32 \<Rightarrow> u32 \<Rightarrow> u32 \<Rightarrow> u8 list" where
  "dot_entries ino parent bs =
     put_entry 12 parent (ucast (bs - 12)) 2 2 ''..'' (put_entry 0 ino 12 1 2 ''.'' (replicate (unat bs) 0))"

definition ext2_mkdir_op :: "(u32 \<Rightarrow> bool) \<Rightarrow> heap_env \<Rightarrow> vptr \<Rightarrow> string \<Rightarrow> 'a ext2_scheme \<Rightarrow> fault + vptr option \<times> 'a ext2_scheme" where
  "ext2_mkdir_op room h parent name s =
     bindE (ext2_alloc_inode room s) (\<lambda>(ino, s).
       if ino = 0 then Inr (None, s)
       else bindE (ext2_alloc_block room s) (\<lambda>(block, s).
         let undo = (\<lambda>s. bindE (ext2_free_block room block s) (\<lambda>s. bindE (ext2_free_inode room ino s) (\<lambda>s. Inr (None, s))));
             bs = g_block_size s; p_ino = v_inode (node_at s parent)
         in if block = 0 then bindE (ext2_free_inode room ino s) (\<lambda>s. Inr (None, s))
            else if \<not> room bs then undo s
            else
              let s = ext2_write_block block (dot_entries ino p_ino bs) s;
                  n = zero_inode\<lparr>i_mode := EXT2_IMODE_DIR OR 0x1ED, i_links_count := 2, i_size := bs,
                        i_block := (replicate 15 0)[0 := block], i_blocks := bs div BLKDEV_SECTOR_SIZE\<rparr>
              in bindE (ext2_write_inode ino n s) (\<lambda>s.
                 bindE (ext2_dir_add_entry room p_ino ino name 2 s) (\<lambda>(r, s).
                   if r \<noteq> 0 then undo s
                   else bindE (ext2_read_inode p_ino s) (\<lambda>pn.
                        bindE (ext2_write_inode p_ino (pn\<lparr>i_links_count := i_links_count pn + 1\<rparr>) s) (\<lambda>s.
                          ext2_make_vfs_node h parent ino name n True s))))))"

definition ext2_unlink :: "(u32 \<Rightarrow> bool) \<Rightarrow> vptr \<Rightarrow> vptr \<Rightarrow> 'a ext2_scheme \<Rightarrow> fault + int \<times> 'a ext2_scheme" where
  "ext2_unlink room parent node s =
     (let ino = v_inode (node_at s node) in
      bindE (ext2_dir_remove_entry room (v_inode (node_at s parent)) ino s) (\<lambda>(r, s).
        if r \<noteq> 0 then Inr (-1, s)
        else bindE (ext2_read_inode ino s) (\<lambda>n.
          let n = (if i_links_count n > 0 then n\<lparr>i_links_count := i_links_count n - 1\<rparr> else n) in
          bindE (if i_links_count n = 0 then
                   bindE (ext2_free_inode_blocks room n s) (\<lambda>(n, s).
                   bindE (ext2_write_inode ino (n\<lparr>i_size := 0, i_dtime := 1\<rparr>) s) (ext2_free_inode room ino))
                 else ext2_write_inode ino n s) (\<lambda>s.
            Inr (0, case slot_of_ino ino s of
                      None \<Rightarrow> s
                    | Some i \<Rightarrow> s\<lparr>g_slots := (g_slots s)[i := (g_slots s ! i)\<lparr>sl_used := False\<rparr>]\<rparr>)))))"

section \<open>Mounting\<close>

text \<open>A node and everything below it, the children first; \<open>fuel\<close> bounds the number of steps.\<close>

fun ext2_free_tree :: "nat \<Rightarrow> vptr option \<Rightarrow> 'a ext2_scheme \<Rightarrow> fault + 'a ext2_scheme"
  and free_children :: "nat \<Rightarrow> vptr option \<Rightarrow> 'a ext2_scheme \<Rightarrow> fault + 'a ext2_scheme" where
  "ext2_free_tree 0 n s = Inl Runaway"
| "ext2_free_tree (Suc fuel) n s =
     (case n of
        None \<Rightarrow> Inr s
      | Some x \<Rightarrow> bindE (free_children fuel (v_children (node_at s x)) s) (\<lambda>s. Inr (vfs_free_node x s)))"
| "free_children 0 c s = Inl Runaway"
| "free_children (Suc fuel) c s =
     (case c of
        None \<Rightarrow> Inr s
      | Some x \<Rightarrow>
          let nxt = v_sibling (node_at s x)
          in bindE (ext2_free_tree fuel (Some x) s) (free_children fuel nxt))"

definition closed_slot :: ext2_slot where
  "closed_slot = \<lparr>sl_used = False, sl_ino = 0, sl_inode = zero_inode, sl_node = None\<rparr>"

text \<open>The processor shifts by the number of places modulo 32.\<close>

definition ext2_mount :: "(u32 \<Rightarrow> bool) \<Rightarrow> heap_env \<Rightarrow> nat \<Rightarrow> vptr \<Rightarrow> (nat \<Rightarrow> u8) option \<Rightarrow> 'a ext2_scheme \<Rightarrow> fault + int \<times> 'a ext2_scheme" where
  "ext2_mount room h fuel mountpoint device s =
     (let s = s\<lparr>g_dev := device\<rparr> in
      if device = None then Inr (-1, s)
      else
        let sb = read_sectors 2 2 s in
        if s_magic sb \<noteq> EXT2_MAGIC then Inr (-1, s)
        else
          let s = s\<lparr>g_block_size := push_bit (unat (s_log_block_size sb AND 31)) 1024, g_inodes_per_group := s_inodes_per_group sb,
                    g_inode_size := (if s_rev_level sb \<ge> 1 then ucast (s_inode_size sb) else 128)\<rparr>
          in if s_blocks_per_group sb = 0 then divide_error
             else
               let s = s\<lparr>g_bg_count := (s_blocks_count sb + s_blocks_per_group sb - 1) div s_blocks_per_group sb\<rparr> in
               if g_block_size s = 0 then divide_error
               else if \<not> room (bgdt_blocks s * g_block_size s) \<or> \<not> room (g_bg_count s * 32) then Inr (-1, s)
               else
                 let buf = read_bgdt s in
                 if length buf < 32 * unat (g_bg_count s) then Inl BadAccess
                 else
                   let s = s\<lparr>g_bgds := map (\<lambda>i. bgd_of buf (32 * i)) [0..<unat (g_bg_count s)],
                             g_slots := replicate EXT2_FILE_SLOTS closed_slot\<rparr>
                   in case vfs_alloc_node h s of
                        (None, s) \<Rightarrow> Inr (-1, s)
                      | (Some root, s) \<Rightarrow>
                          let s = upd_node root (\<lambda>v. v\<lparr>v_name := take (VFS_NAME_MAX - 1) (v_name (node_at s mountpoint)),
                                    v_flags := VFS_DIR, v_inode := EXT2_ROOT_INO, v_parent := v_parent (node_at s mountpoint),
                                    v_fs := Some ext2_ops\<rparr>) s
                          in bindE (ext2_walk_dir room h fuel root EXT2_ROOT_INO s) (\<lambda>s.
                               Inr (0, upd_node mountpoint (\<lambda>v. v\<lparr>v_mounted_root := Some root\<rparr>) s)))"

definition ext2_umount :: "nat \<Rightarrow> vptr \<Rightarrow> 'a ext2_scheme \<Rightarrow> fault + int \<times> 'a ext2_scheme" where
  "ext2_umount fuel mountpoint s =
     (case v_mounted_root (node_at s mountpoint) of
        None \<Rightarrow> Inr (-1, s)
      | Some root \<Rightarrow>
          bindE (ext2_free_tree fuel (Some root) s) (\<lambda>s.
            Inr (0, (upd_node mountpoint (\<lambda>v. v\<lparr>v_mounted_root := None\<rparr>) s)
                      \<lparr>g_bgds := [], g_slots := replicate EXT2_FILE_SLOTS closed_slot, g_dev := None\<rparr>)))"

definition init_ext2 :: "'a ext2_scheme \<Rightarrow> 'a ext2_scheme" where
  "init_ext2 s = vfs_fs_register ''ext2'' ext2_ops s"

end
