(* ===== verification/Ext2_Entries.thy ===== *)
theory Ext2_Entries
  imports Ext2_Dir
begin

text \<open>
  The entries of a directory block as a list: what adding and removing an entry do to the
  packed bytes is appending to the list and removing from it.
\<close>

section \<open>Well-formed blocks\<close>

lemma entry_size_nat: "unat (entry_size nl) = (unat nl + 11) div 4 * 4"
proof -
  have n: "unat nl < 256" using unsigned_less [of nl] by simp
  have u: "unat (8 + ucast nl + 3 :: u32) = unat nl + 11"
    using n by (simp add: unat_plus_no_wrap unsigned_ucast_eq take_bit_nat_eq_self)
  have "(3 :: u32) = mask 2" by (simp add: mask_eq_exp_minus_1)
  then have "unat (entry_size nl) = unat nl + 11 - (unat nl + 11) mod 4"
    using and_not_mask_nat [of "8 + ucast nl + 3 :: u32" 2] u by (simp add: entry_size_def)
  then show ?thesis by (simp add: minus_mod_eq_div_mult)
qed

lemma entry_size_bounds: "8 + unat nl \<le> unat (entry_size nl)" "unat (entry_size nl) \<le> 264"
proof -
  have "unat nl < 256" using unsigned_less [of nl] by simp
  then have "unat nl + 11 < 267" by simp
  then show "8 + unat nl \<le> unat (entry_size nl)" "unat (entry_size nl) \<le> 264" unfolding entry_size_nat by presburger+
qed

text \<open>
  \<open>chain b pos ps e\<close>: the entries from \<open>pos\<close> are at the offsets \<open>ps\<close> and end at \<open>e\<close>; each
  has room for its name, and a name if it has an inode.
\<close>

definition entry_ok :: "u8 list \<Rightarrow> nat \<Rightarrow> bool" where
  "entry_ok b p \<longleftrightarrow> unat (entry_size (de_name_len b p)) \<le> unat (de_rec_len b p) \<and> (de_inode b p \<noteq> 0 \<longrightarrow> de_name_len b p \<noteq> 0)"

fun chain :: "u8 list \<Rightarrow> nat \<Rightarrow> nat list \<Rightarrow> nat \<Rightarrow> bool" where
  "chain b pos [] e \<longleftrightarrow> pos = e"
| "chain b pos (p # ps) e \<longleftrightarrow> p = pos \<and> entry_ok b p \<and> chain b (pos + unat (de_rec_len b p)) ps e"

definition entry_at :: "u8 list \<Rightarrow> nat \<Rightarrow> (u32 \<times> string) list" where
  "entry_at b p = (if de_inode b p \<noteq> 0 \<and> de_name_len b p \<noteq> 0 then [(de_inode b p, chars (de_name b p))] else [])"

definition entries :: "u8 list \<Rightarrow> nat list \<Rightarrow> (u32 \<times> string) list" where
  "entries b ps = concat (map (entry_at b) ps)"

lemma entries_simps [simp]: "entries b [] = []" "entries b (p # ps) = entry_at b p @ entries b ps"
  "entries b (ps @ qs) = entries b ps @ entries b qs"
  by (simp_all add: entries_def)

lemma entry_ok_size: "entry_ok b p \<Longrightarrow> 8 + unat (de_name_len b p) \<le> unat (de_rec_len b p)"
  using entry_size_bounds(1) [of "de_name_len b p"] by (simp add: entry_ok_def)

lemma chain_le: "chain b pos ps e \<Longrightarrow> pos \<le> e"
  by (induction ps arbitrary: pos) (auto dest: add_leD1)

lemma chain_append: "chain b pos (ps @ qs) e \<longleftrightarrow> (\<exists>m. chain b pos ps m \<and> chain b m qs e)"
  by (induction ps arbitrary: pos) auto

lemma chain_member: "chain b pos ps e \<Longrightarrow> p \<in> set ps \<Longrightarrow> pos \<le> p \<and> p + unat (de_rec_len b p) \<le> e \<and> entry_ok b p"
proof (induction ps arbitrary: pos)
  case (Cons q ps)
  then show ?case using chain_le [of b "pos + unat (de_rec_len b pos)" ps e] by fastforce
qed simp

text \<open>Entries are their bytes.\<close>

lemma entry_cong:
  assumes same: "\<And>i. p \<le> i \<Longrightarrow> i < p + unat (de_rec_len b p) \<Longrightarrow> b' ! i = b ! i" and ok: "entry_ok b p"
    and len: "length b' = length b" "p + unat (de_rec_len b p) \<le> length b"
  shows "de_rec_len b' p = de_rec_len b p" and "de_inode b' p = de_inode b p" and "de_name_len b' p = de_name_len b p"
    and "entry_ok b' p" and "entry_at b' p = entry_at b p"
proof -
  have s: "8 + unat (de_name_len b p) \<le> unat (de_rec_len b p)" by (rule entry_ok_size [OF ok])
  show r: "de_rec_len b' p = de_rec_len b p" unfolding de_rec_len_def by (rule get16_cong, rule same) (use s in \<open>simp_all add: de_rec_len_def [symmetric]\<close>)
  show i: "de_inode b' p = de_inode b p" unfolding de_inode_def by (rule get32_cong, rule same) (use s in simp_all)
  show n: "de_name_len b' p = de_name_len b p" unfolding de_name_len_def by (rule same) (use s in simp_all)
  show "entry_ok b' p" using ok by (simp add: entry_ok_def r i n)
  have "de_name b' p = de_name b p"
    unfolding de_name_def n by (rule nth_equalityI) (use s len in \<open>auto intro!: same\<close>)
  then show "entry_at b' p = entry_at b p" by (simp add: entry_at_def i n)
qed

lemma chain_cong:
  assumes "chain b pos ps e" and "\<And>i. pos \<le> i \<Longrightarrow> i < e \<Longrightarrow> b' ! i = b ! i" and "length b' = length b" and "e \<le> length b"
  shows "chain b' pos ps e \<and> entries b' ps = entries b ps"
  using assms(1,2)
proof (induction ps arbitrary: pos)
  case (Cons p ps)
  have p: "p = pos" "entry_ok b p" and rest: "chain b (pos + unat (de_rec_len b p)) ps e" using Cons.prems(1) by auto
  have le: "pos + unat (de_rec_len b p) \<le> e" by (rule chain_le [OF rest])
  have c: "de_rec_len b' p = de_rec_len b p" "entry_ok b' p" "entry_at b' p = entry_at b p"
    using entry_cong [where b = b and b' = b' and p = p, OF _ p(2) assms(3)] Cons.prems(2) le p(1) assms(4) by simp_all
  have "chain b' (pos + unat (de_rec_len b p)) ps e \<and> entries b' ps = entries b ps"
    by (rule Cons.IH [OF rest]) (use Cons.prems(2) in simp)
  then show ?case using c p by simp
qed simp

lemma rec_len_pos: "entry_ok b p \<Longrightarrow> de_rec_len b p \<noteq> 0"
  using entry_ok_size [of b p] by (metis add_is_0 le_zero_eq unat_0 zero_neq_numeral)

text \<open>What the loops of the driver find on a well-formed block.\<close>

lemma scan_chain: "chain b pos ps (length b) \<Longrightarrow> dir_scan b pos = Inr (entries b ps)"
proof (induction ps arbitrary: pos)
  case Nil
  then show ?case by (simp add: dir_scan.simps)
next
  case (Cons p ps)
  have ok: "entry_ok b pos" and rest: "chain b (pos + unat (de_rec_len b pos)) ps (length b)" and p: "p = pos" using Cons.prems by auto
  have le: "pos + unat (de_rec_len b pos) \<le> length b" by (rule chain_le [OF rest])
  have s: "8 + unat (de_name_len b pos) \<le> unat (de_rec_len b pos)" by (rule entry_ok_size [OF ok])
  then show ?case using Cons.IH [OF rest] le rec_len_pos [OF ok] p by (subst dir_scan.simps) (simp add: entry_at_def)
qed

lemma last_entry_chain:
  "chain b pos ps (length b) \<Longrightarrow> last_entry b pos found = Inr (if ps = [] then found else Some (last ps))"
proof (induction ps arbitrary: pos found)
  case Nil
  then show ?case by (simp add: last_entry.simps)
next
  case (Cons p ps)
  have ok: "entry_ok b pos" and rest: "chain b (pos + unat (de_rec_len b pos)) ps (length b)" and p: "p = pos" using Cons.prems by auto
  have le: "pos + unat (de_rec_len b pos) \<le> length b" by (rule chain_le [OF rest])
  show ?case using Cons.IH [OF rest] le rec_len_pos [OF ok] entry_ok_size [OF ok] p by (subst last_entry.simps) simp
qed

section \<open>Adding\<close>

lemma chars_bytes [simp]: "chars (bytes cs) = cs"
  by (induction cs) (simp_all add: chars_def bytes_def unsigned_of_nat take_bit_nat_eq_self)

lemma length_bytes [simp]: "length (bytes cs) = length cs"
  by (simp add: bytes_def)

text \<open>The fields of an entry that was stored.\<close>

lemma put_entry_fields:
  fixes ino :: u32 and rl :: u16 and ft :: u8
  assumes fit: "p + 8 + unat nl \<le> length b" and name: "unat nl \<le> length name"
  defines "b' \<equiv> put_entry p ino rl nl ft name b"
  shows "length b' = length b" and "de_inode b' p = ino" and "de_rec_len b' p = rl" and "de_name_len b' p = nl"
    and "de_name b' p = take (unat nl) (bytes name)" and "\<And>i. i < length b \<Longrightarrow> i < p \<Longrightarrow> b' ! i = b ! i"
proof -
  let ?e = "enc32 ino @ enc16 rl @ [nl, ft] @ take (unat nl) (bytes name)"
  have le: "length ?e = 8 + unat nl" using name by simp
  then have f: "p + length ?e \<le> length b" using fit by simp
  show l: "length b' = length b" using f by (simp add: b'_def put_entry_def)
  show "de_inode b' p = ino" unfolding de_inode_def b'_def put_entry_def using get32_put_same [OF f, of 0] le by simp
  show "de_rec_len b' p = rl" unfolding de_rec_len_def b'_def put_entry_def using get16_put_same [OF f, of 4] le by simp
  have at: "b' ! (p + k) = ?e ! k" if "k < 8 + unat nl" for k
    unfolding b'_def put_entry_def using nth_put [OF f, of "p + k"] that f le by simp
  show n: "de_name_len b' p = nl" using at [of 6] by (simp add: de_name_len_def nth_append)
  show "de_name b' p = take (unat nl) (bytes name)"
  proof (rule nth_equalityI)
    show "length (de_name b' p) = length (take (unat nl) (bytes name))" using l fit name by (simp add: de_name_def n)
    fix i
    assume "i < length (de_name b' p)"
    then have i: "i < unat nl" by (simp add: de_name_def n)
    have "de_name b' p ! i = b' ! (p + (8 + i))" using i l fit by (simp add: de_name_def n add.assoc)
    also have "\<dots> = ?e ! (8 + i)" by (rule at) (use i in simp)
    finally show "de_name b' p ! i = take (unat nl) (bytes name) ! i" using i by (simp add: nth_append)
  qed
  show "b' ! i = b ! i" if "i < length b" "i < p" for i
    unfolding b'_def put_entry_def using nth_put [OF f that(1)] that(2) by simp
qed

lemma set_rec_len_fields:
  assumes "p + 6 \<le> length b"
  shows "length (set_rec_len p w b) = length b" and "de_rec_len (set_rec_len p w b) p = w"
    and "\<And>i. i < length b \<Longrightarrow> i < p + 4 \<or> p + 6 \<le> i \<Longrightarrow> set_rec_len p w b ! i = b ! i"
proof -
  have f: "p + 4 + length (enc16 w) \<le> length b" using assms by simp
  show "length (set_rec_len p w b) = length b" using f by (simp add: set_rec_len_def)
  show "de_rec_len (set_rec_len p w b) p = w" using get16_put_same [OF f, of 0] get_here(1) [of w "[]"]
    by (simp add: de_rec_len_def set_rec_len_def)
  show "set_rec_len p w b ! i = b ! i" if "i < length b" "i < p + 4 \<or> p + 6 \<le> i" for i
    using nth_put [OF f that(1)] that(2) by (auto simp: set_rec_len_def)
qed

text \<open>An entry whose length changes, its other fields staying.\<close>

lemma resized_entry:
  assumes "\<And>i. p \<le> i \<Longrightarrow> i < p + 4 \<or> p + 6 \<le> i \<and> i < p + 8 + unat (de_name_len b p) \<Longrightarrow> b' ! i = b ! i"
    and "length b' = length b" and "p + 8 + unat (de_name_len b p) \<le> length b"
  shows "de_inode b' p = de_inode b p" and "de_name_len b' p = de_name_len b p" and "entry_at b' p = entry_at b p"
proof -
  show i: "de_inode b' p = de_inode b p" unfolding de_inode_def by (rule get32_cong, rule assms(1)) simp_all
  show n: "de_name_len b' p = de_name_len b p" unfolding de_name_len_def by (rule assms(1)) simp_all
  have "de_name b' p = de_name b p"
    unfolding de_name_def n by (rule nth_equalityI) (use assms(2,3) in \<open>auto intro!: assms(1)\<close>)
  then show "entry_at b' p = entry_at b p" by (simp add: entry_at_def i n)
qed

lemma u16_lt: "unat (w :: u16) < 65536"
  using unsigned_less [of w] by simp

lemma unat_u16_u32 [simp]: "unat (ucast (w :: u16) :: u32) = unat w"
proof -
  have "unat w < 2 ^ 16" using u16_lt by simp
  then show ?thesis by (simp add: unsigned_ucast_eq take_bit_nat_eq_self)
qed

text \<open>The entry before \<open>q\<close> and the entries around it, when only the length of \<open>q\<close> changes.\<close>

lemma chain_resize:
  assumes ch: "chain b 0 ps q" "entry_ok b q" and w: "unat (entry_size (de_name_len b q)) \<le> unat w" "q + unat w \<le> e"
    and tail: "chain b (q + unat w) ss e" "e \<le> length b"
  shows "chain (set_rec_len q w b) 0 (ps @ q # ss) e" and "entries (set_rec_len q w b) (ps @ q # ss) = entries b ps @ entry_at b q @ entries b ss"
    and "length (set_rec_len q w b) = length b"
proof -
  let ?b = "set_rec_len q w b"
  have s: "8 + unat (de_name_len b q) \<le> unat w" using entry_size_bounds(1) [of "de_name_len b q"] w(1) by simp
  have f: "q + 6 \<le> length b" using s w(2) tail(2) by simp
  note set = set_rec_len_fields [where w = w, OF f]
  have front: "chain ?b 0 ps q \<and> entries ?b ps = entries b ps"
    by (rule chain_cong [OF ch(1) _ set(1)]) (use f set(3) in auto)
  have "chain ?b (q + unat w) ss e \<and> entries ?b ss = entries b ss"
    by (rule chain_cong [OF tail(1) _ set(1)]) (use set(3) s tail(2) in auto)
  moreover have at: "de_inode ?b q = de_inode b q" "de_name_len ?b q = de_name_len b q" "entry_at ?b q = entry_at b q"
    by (rule resized_entry, auto simp: set(1) intro!: set(3), (use s w(2) tail(2) in linarith)+)+
  moreover have "entry_ok ?b q" using ch(2) w(1) unfolding entry_ok_def set(2) at by simp
  ultimately show "chain ?b 0 (ps @ q # ss) e" "entries ?b (ps @ q # ss) = entries b ps @ entry_at b q @ entries b ss"
    using front by (simp_all add: chain_append set(2))
  show "length ?b = length b" by (rule set(1))
qed

text \<open>An entry that fills the slack.\<close>

lemma put_last:
  assumes ch: "chain b 0 ps q" and q: "q + unat rl = length b" "entry_size nl \<le> ucast rl" and name: "unat nl = length name"
    and ok: "nl \<noteq> 0" "ino \<noteq> 0"
  shows "chain (put_entry q ino rl nl ft name b) 0 (ps @ [q]) (length b)"
    and "entries (put_entry q ino rl nl ft name b) (ps @ [q]) = entries b ps @ [(ino, name)]"
    and "length (put_entry q ino rl nl ft name b) = length b"
proof -
  let ?b = "put_entry q ino rl nl ft name b"
  have e: "unat (entry_size nl) \<le> unat rl" using q(2) by (simp add: word_le_nat_alt)
  then have f: "q + 8 + unat nl \<le> length b" using entry_size_bounds(1) [of nl] q(1) by simp
  note put = put_entry_fields [where ino = ino and rl = rl and ft = ft, OF f eq_imp_le [OF name]]
  have "chain ?b 0 ps q \<and> entries ?b ps = entries b ps"
    by (rule chain_cong [OF ch _ put(1)]) (use f put(6) in auto)
  moreover have "entry_ok ?b q" using e ok by (simp add: entry_ok_def put)
  moreover have "entry_at ?b q = [(ino, name)]" using ok name by (simp add: entry_at_def put)
  ultimately show "chain ?b 0 (ps @ [q]) (length b)" "entries ?b (ps @ [q]) = entries b ps @ [(ino, name)]"
    using q(1) by (simp_all add: chain_append put)
  show "length ?b = length b" by (rule put(1))
qed

lemma block_add_chain:
  assumes ch: "chain b 0 ps (length b)" and ne: "ps \<noteq> []" and len: "length b < 2 ^ 16"
    and name: "0 < length name" "length name \<le> 255" and child: "child \<noteq> 0"
  shows "\<exists>r. block_add child name ft b = Inr r \<and>
    (case r of
       None \<Rightarrow> unat (de_rec_len b (last ps)) < unat (entry_size (de_name_len b (last ps))) + unat (entry_size (of_nat (length name)))
     | Some b' \<Rightarrow> length b' = length b \<and> (\<exists>q. chain b' 0 (ps @ [q]) (length b)) \<and> dir_scan b' 0 = Inr (entries b ps @ [(child, name)]))"
proof -
  define p where "p = last ps"
  define nl :: u8 where "nl = of_nat (length name)"
  define actual where "actual = entry_size (de_name_len b p)"
  define slack where "slack = ucast (de_rec_len b p) - actual"
  have ps: "ps = butlast ps @ [p]" using ne by (simp add: p_def)
  then have c: "chain b 0 (butlast ps @ [p]) (length b)" using ch by simp
  then have end_p: "p + unat (de_rec_len b p) = length b" and ok: "entry_ok b p" by (auto simp: chain_append)
  have nl: "unat nl = length name" using name(2) by (simp add: nl_def unsigned_of_nat take_bit_nat_eq_self)
  have a: "unat actual \<le> unat (de_rec_len b p)" using ok by (simp add: actual_def entry_ok_def)
  have a64: "unat actual \<le> 264" unfolding actual_def by (rule entry_size_bounds(2))
  have sl: "unat slack = unat (de_rec_len b p) - unat actual"
    using a by (simp add: slack_def unat_sub word_le_nat_alt)
  have p7: "p + 8 \<le> length b" using entry_ok_size [OF ok] end_p by simp
  have run: "block_add child name ft b =
      (if entry_size nl \<le> slack then
         if length b < p + unat actual + 8 + unat nl then Inl BadAccess
         else Inr (Some (put_entry (p + unat actual) child (ucast slack) nl ft name (set_rec_len p (ucast actual) b)))
       else Inr None)"
    using p7 by (simp add: block_add_def Let_def last_entry_chain [OF ch] ne p_def [symmetric] nl_def [symmetric] actual_def [symmetric] slack_def [symmetric])
  show ?thesis
  proof (cases "entry_size nl \<le> slack")
    case False
    then have "unat (de_rec_len b p) < unat actual + unat (entry_size nl)" using sl by (simp add: word_le_nat_alt)
    then show ?thesis using False by (simp add: run p_def [symmetric] nl_def [symmetric] actual_def [symmetric])
  next
    case True
    let ?q = "p + unat actual"
    let ?b1 = "set_rec_len p (ucast actual) b"
    let ?b2 = "put_entry ?q child (ucast slack) nl ft name ?b1"
    have wa: "unat (ucast actual :: u16) = unat actual" using a64 by (simp add: unsigned_ucast_eq take_bit_nat_eq_self)
    have "unat slack < 2 ^ 16" using sl u16_lt [of "de_rec_len b p"] by simp
    then have ws: "unat (ucast slack :: u16) = unat slack" by (simp add: unsigned_ucast_eq take_bit_nat_eq_self)
    have wws: "ucast (ucast slack :: u16) = slack" by (rule word_unat_eq_iff [THEN iffD2]) (simp only: unat_u16_u32 ws)
    have q: "?q + unat slack = length b" using sl a end_p by simp
    have room: "\<not> length b < ?q + 8 + unat nl" using True q entry_size_bounds(1) [of nl] by (simp add: word_le_nat_alt)
    have wa_q: "p + unat (ucast actual :: u16) \<le> ?q" "?q \<le> length b" using wa q by simp_all
    have "chain b 0 (butlast ps) p" using c by (auto simp: chain_append)
    note set = chain_resize [where w = "ucast actual" and ss = "[]", OF this ok _ wa_q(1) _ wa_q(2), unfolded wa actual_def [symmetric], simplified]
    have c1: "chain ?b1 0 ps ?q" using set(1) ps by simp
    have e1: "entries ?b1 ps = entries b ps" using set(2) by (subst (1 2) ps) simp
    have nz: "nl \<noteq> 0" using nl name(1) by auto
    have "?q + unat (ucast slack :: u16) = length ?b1" "entry_size nl \<le> ucast (ucast slack :: u16)"
      using q True by (simp_all add: ws wws set(3))
    note put = put_last [where ft = ft, OF c1 this nl nz child]
    have l: "length ?b2 = length b" using put(3) set(3) by simp
    have "dir_scan ?b2 0 = Inr (entries b ps @ [(child, name)])"
      using scan_chain [of ?b2 0 "ps @ [?q]"] put(1,2) e1 l set(3) by simp
    then show ?thesis using True room put(1) l set(3) by (auto simp: run)
  qed
qed

section \<open>Removing\<close>

lemma remove_absent: "chain b pos ps (length b) \<Longrightarrow> \<forall>p\<in>set ps. de_inode b p \<noteq> c \<Longrightarrow> block_remove c b pos prev = Inr None"
proof (induction ps arbitrary: pos prev)
  case Nil
  then show ?case by (simp add: block_remove.simps)
next
  case (Cons p ps)
  have ok: "entry_ok b pos" and rest: "chain b (pos + unat (de_rec_len b pos)) ps (length b)" and p: "p = pos" using Cons.prems(1) by auto
  have le: "pos + unat (de_rec_len b pos) \<le> length b" by (rule chain_le [OF rest])
  show ?case using Cons.IH [OF rest] Cons.prems(2) le rec_len_pos [OF ok] entry_ok_size [OF ok] p
    by (subst block_remove.simps) simp
qed

lemma remove_present:
  "chain b pos (ps @ p # qs) (length b) \<Longrightarrow> \<forall>x\<in>set ps. de_inode b x \<noteq> c \<Longrightarrow> de_inode b p = c \<Longrightarrow>
   block_remove c b pos prev = Inr (Some (case (if ps = [] then prev else Some (last ps)) of
     Some q \<Rightarrow> set_rec_len q (de_rec_len b q + de_rec_len b p) b | None \<Rightarrow> put p (enc32 0) b))"
proof (induction ps arbitrary: pos prev)
  case Nil
  have ok: "entry_ok b pos" and rest: "chain b (pos + unat (de_rec_len b pos)) qs (length b)" and p: "p = pos" using Nil.prems(1) by auto
  have le: "pos + unat (de_rec_len b pos) \<le> length b" by (rule chain_le [OF rest])
  show ?case using Nil.prems(3) le rec_len_pos [OF ok] entry_ok_size [OF ok] unfolding p by (subst block_remove.simps) simp
next
  case (Cons x ps)
  have ok: "entry_ok b pos" and rest: "chain b (pos + unat (de_rec_len b pos)) (ps @ p # qs) (length b)" and x: "x = pos"
    using Cons.prems(1) by auto
  have le: "pos + unat (de_rec_len b pos) \<le> length b" by (rule chain_le [OF rest])
  show ?case using Cons.IH [OF rest] Cons.prems(2,3) le rec_len_pos [OF ok] entry_ok_size [OF ok] x
    by (subst block_remove.simps) simp
qed

text \<open>The first entry of a block loses its inode but keeps its place.\<close>

lemma clear_first:
  assumes ch: "chain b pos (p # ps) (length b)"
  shows "chain (put p (enc32 0) b) pos (p # ps) (length b)" and "entries (put p (enc32 0) b) (p # ps) = entries b ps"
    and "length (put p (enc32 0) b) = length b"
proof -
  let ?b = "put p (enc32 0) b"
  have ok: "entry_ok b p" and rest: "chain b (p + unat (de_rec_len b p)) ps (length b)" and p: "p = pos" using ch by auto
  have le: "p + unat (de_rec_len b p) \<le> length b" by (rule chain_le [OF rest])
  have s: "8 + unat (de_name_len b p) \<le> unat (de_rec_len b p)" by (rule entry_ok_size [OF ok])
  have f: "p + length (enc32 0) \<le> length b" using s le by simp
  have other: "?b ! i = b ! i" if "i < length b" "p + 4 \<le> i" for i using nth_put [OF f that(1)] that(2) by simp
  show l: "length ?b = length b" using f by simp
  have i: "de_inode ?b p = 0" using get32_put_same [OF f, of 0] get32_le32 [of 0] by (simp add: de_inode_def)
  have r: "de_rec_len ?b p = de_rec_len b p" unfolding de_rec_len_def by (rule get16_cong, rule other) (use s le in simp_all)
  have n: "de_name_len ?b p = de_name_len b p" unfolding de_name_len_def by (rule other) (use s le in simp_all)
  have "chain ?b (p + unat (de_rec_len b p)) ps (length b) \<and> entries ?b ps = entries b ps"
    by (rule chain_cong [OF rest _ l]) (use other s in auto)
  moreover have "entry_ok ?b p" using ok unfolding entry_ok_def r n i by simp
  ultimately show "chain ?b pos (p # ps) (length b)" "entries ?b (p # ps) = entries b ps"
    using p r i by (simp_all add: entry_at_def)
qed

text \<open>An entry is merged into the one before it.\<close>

lemma merge_into:
  assumes ch: "chain b 0 (ps @ q # p # rs) (length b)" and len: "length b < 2 ^ 16"
  shows "chain (set_rec_len q (de_rec_len b q + de_rec_len b p) b) 0 (ps @ q # rs) (length b)"
    and "entries (set_rec_len q (de_rec_len b q + de_rec_len b p) b) (ps @ q # rs) = entries b (ps @ [q]) @ entries b rs"
    and "length (set_rec_len q (de_rec_len b q + de_rec_len b p) b) = length b"
proof -
  have c: "chain b 0 ps q" "entry_ok b q" and p: "p = q + unat (de_rec_len b q)" and rest: "chain b (p + unat (de_rec_len b p)) rs (length b)"
    using ch by (auto simp: chain_append)
  have le: "p + unat (de_rec_len b p) \<le> length b" by (rule chain_le [OF rest])
  then have w: "unat (de_rec_len b q + de_rec_len b p) = unat (de_rec_len b q) + unat (de_rec_len b p)"
    using p len by (intro unat_plus_no_wrap) simp
  have a: "unat (entry_size (de_name_len b q)) \<le> unat (de_rec_len b q + de_rec_len b p)" using c(2) w by (simp add: entry_ok_def)
  have b: "q + unat (de_rec_len b q + de_rec_len b p) = p + unat (de_rec_len b p)" using w p by simp
  note set = chain_resize [where w = "de_rec_len b q + de_rec_len b p" and ss = rs, OF c a _ _ order_refl, unfolded b, OF le rest]
  show "chain (set_rec_len q (de_rec_len b q + de_rec_len b p) b) 0 (ps @ q # rs) (length b)" by (rule set(1))
  show "entries (set_rec_len q (de_rec_len b q + de_rec_len b p) b) (ps @ q # rs) = entries b (ps @ [q]) @ entries b rs"
    using set(2) by simp
  show "length (set_rec_len q (de_rec_len b q + de_rec_len b p) b) = length b" by (rule set(3))
qed

text \<open>A list of entries without the first one of an inode.\<close>

definition drop_inode :: "u32 \<Rightarrow> (u32 \<times> string) list \<Rightarrow> (u32 \<times> string) list" where
  "drop_inode c es = takeWhile (\<lambda>e. fst e \<noteq> c) es @ tl (dropWhile (\<lambda>e. fst e \<noteq> c) es)"

lemma drop_inode_append: "\<forall>e\<in>set es. fst e \<noteq> c \<Longrightarrow> drop_inode c (es @ (c, n) # fs) = es @ fs"
  by (simp add: drop_inode_def takeWhile_append dropWhile_append)

lemma entries_inodes: "(\<exists>e\<in>set (entries b ps). fst e = c) \<Longrightarrow> \<exists>p\<in>set ps. de_inode b p = c"
  by (induction ps) (auto simp: entry_at_def split: if_splits)

lemma block_remove_chain:
  assumes ch: "chain b 0 ps (length b)" and len: "length b < 2 ^ 16" and c: "c \<noteq> 0"
  shows "\<exists>r. block_remove c b 0 None = Inr r \<and>
    (case r of
       None \<Rightarrow> c \<notin> fst ` set (entries b ps)
     | Some b' \<Rightarrow> c \<in> fst ` set (entries b ps) \<and> length b' = length b \<and> (\<exists>qs. chain b' 0 qs (length b) \<and> qs \<noteq> []) \<and>
         dir_scan b' 0 = Inr (drop_inode c (entries b ps)))"
proof (cases "\<exists>p\<in>set ps. de_inode b p = c")
  case False
  then show ?thesis using remove_absent [OF ch, of c None] entries_inodes [of b ps c] by fastforce
next
  case True
  then obtain xs p ys where ps: "ps = xs @ p # ys" and p: "de_inode b p = c" and xs: "\<forall>x\<in>set xs. de_inode b x \<noteq> c"
    using split_list_first_prop [of ps "\<lambda>p. de_inode b p = c"] by blast
  have "entry_ok b p" using chain_member [OF ch, of p] by (simp add: ps)
  then have at: "entry_at b p = [(c, chars (de_name b p))]" using p c by (simp add: entry_at_def entry_ok_def)
  have "\<forall>e\<in>set (entries b xs). fst e \<noteq> c" using entries_inodes [of b xs c] xs by blast
  then have d: "drop_inode c (entries b ps) = entries b xs @ entries b ys" by (simp add: ps at drop_inode_append)
  have i: "c \<in> fst ` set (entries b ps)" by (simp add: ps at)
  note run = remove_present [OF ch [unfolded ps] xs p, of None]
  show ?thesis
  proof (cases xs rule: rev_cases)
    case Nil
    note clear = clear_first [OF ch [unfolded ps Nil append_Nil]]
    have "dir_scan (put p (enc32 0) b) 0 = Inr (entries b ys)" using scan_chain [of "put p (enc32 0) b" 0 "p # ys"] clear by (simp del: chain.simps entries_simps)
    moreover have "\<exists>qs. chain (put p (enc32 0) b) 0 qs (length b) \<and> qs \<noteq> []" using clear(1) by blast
    moreover have "block_remove c b 0 None = Inr (Some (put p (enc32 0) b))" using run Nil by simp
    ultimately show ?thesis using Nil i d clear(3) by simp
  next
    case (snoc ws q)
    let ?b = "set_rec_len q (de_rec_len b q + de_rec_len b p) b"
    have "chain b 0 (ws @ q # p # ys) (length b)" using ch by (simp add: ps snoc)
    note merge = merge_into [OF this len]
    have "dir_scan ?b 0 = Inr (entries b xs @ entries b ys)" using scan_chain [of ?b 0 "ws @ q # ys"] merge snoc by simp
    moreover have "\<exists>qs. chain ?b 0 qs (length b) \<and> qs \<noteq> []" using merge(1) by blast
    moreover have "block_remove c b 0 None = Inr (Some ?b)" using run snoc by simp
    ultimately show ?thesis using i d merge(3) by simp
  qed
qed

section \<open>The block as a list\<close>

text \<open>A block of a directory: it is packed with entries, of which there is at least one.\<close>

definition dir_block :: "u8 list \<Rightarrow> bool" where
  "dir_block b \<longleftrightarrow> length b < 2 ^ 16 \<and> (\<exists>ps. ps \<noteq> [] \<and> chain b 0 ps (length b))"

lemma dir_block_scan: "dir_block b \<Longrightarrow> \<exists>es. dir_scan b 0 = Inr es"
  using scan_chain by (auto simp: dir_block_def)

text \<open>
  C35. Adding an entry to a packed directory block of less than 64 KB never goes beyond the
  block; it is refused only when the slack of the last entry is too short; when it reports success, the block is packed as before and lists the old entries in
  their order and then the new one. If the inode was not in the block, removing it gives a
  packed block that lists exactly the old entries.
\<close>

theorem dir_entry_added:
  assumes b: "dir_block b" and scan: "dir_scan b 0 = Inr es"
    and name: "0 < length name" "length name \<le> 255" and child: "child \<noteq> 0"
  shows "\<exists>r. block_add child name ft b = Inr r \<and>
    (r = None \<longrightarrow> (\<exists>p. last_entry b 0 None = Inr (Some p) \<and>
       unat (de_rec_len b p) < unat (entry_size (de_name_len b p)) + unat (entry_size (of_nat (length name))))) \<and>
    (\<forall>b'. r = Some b' \<longrightarrow>
       length b' = length b \<and> dir_block b' \<and> dir_scan b' 0 = Inr (es @ [(child, name)]) \<and>
       (child \<notin> fst ` set es \<longrightarrow>
          (\<exists>b''. block_remove child b' 0 None = Inr (Some b'') \<and> dir_block b'' \<and> dir_scan b'' 0 = Inr es)))"
proof -
  obtain ps where ps: "ps \<noteq> []" "chain b 0 ps (length b)" and len: "length b < 2 ^ 16" using b by (auto simp: dir_block_def)
  have es: "es = entries b ps" using scan scan_chain [OF ps(2)] by simp
  obtain r where r: "block_add child name ft b = Inr r" and spec: "case r of
       None \<Rightarrow> unat (de_rec_len b (last ps)) < unat (entry_size (de_name_len b (last ps))) + unat (entry_size (of_nat (length name)))
     | Some b' \<Rightarrow> length b' = length b \<and> (\<exists>q. chain b' 0 (ps @ [q]) (length b)) \<and> dir_scan b' 0 = Inr (entries b ps @ [(child, name)])"
    using block_add_chain [OF ps(2,1) len name child, of ft] by blast
  have "length b' = length b \<and> dir_block b' \<and> dir_scan b' 0 = Inr (es @ [(child, name)]) \<and>
       (child \<notin> fst ` set es \<longrightarrow>
          (\<exists>b''. block_remove child b' 0 None = Inr (Some b'') \<and> dir_block b'' \<and> dir_scan b'' 0 = Inr es))" if res: "r = Some b'" for b'
  proof -
    obtain q where l: "length b' = length b" and c: "chain b' 0 (ps @ [q]) (length b')" and sc: "dir_scan b' 0 = Inr (es @ [(child, name)])"
      using spec res es by auto
    have len': "length b' < 2 ^ 16" using l len by simp
    have e: "entries b' (ps @ [q]) = es @ [(child, name)]" using sc scan_chain [OF c] by simp
    obtain t where t: "block_remove child b' 0 None = Inr t" and rspec: "case t of
       None \<Rightarrow> child \<notin> fst ` set (es @ [(child, name)])
     | Some b'' \<Rightarrow> child \<in> fst ` set (es @ [(child, name)]) \<and> length b'' = length b' \<and> (\<exists>qs. chain b'' 0 qs (length b') \<and> qs \<noteq> []) \<and>
         dir_scan b'' 0 = Inr (drop_inode child (es @ [(child, name)]))"
      using block_remove_chain [OF c len' child] unfolding e by blast
    then obtain b'' where "t = Some b''" "dir_block b''" "dir_scan b'' 0 = Inr (drop_inode child (es @ [(child, name)]))"
      using len' by (cases t) (auto simp: dir_block_def)
    then have "child \<notin> fst ` set es \<longrightarrow>
        (\<exists>b''. block_remove child b' 0 None = Inr (Some b'') \<and> dir_block b'' \<and> dir_scan b'' 0 = Inr es)"
      using t drop_inode_append [of es child name "[]"] by auto
    moreover have "dir_block b'" using c len' by (auto simp: dir_block_def)
    ultimately show ?thesis using l sc by blast
  qed
  moreover have "last_entry b 0 None = Inr (Some (last ps))" using last_entry_chain [OF ps(2)] ps(1) by simp
  ultimately show ?thesis using r spec by (intro exI [of _ r]) (auto split: option.splits)
qed

definition demo_block :: "u8 list" where
  "demo_block = put_entry 0 7 64 1 1 ''a'' (replicate 64 0)"

lemma demo_block_ok: "dir_block demo_block" "dir_scan demo_block 0 = Inr [(7, ''a'')]"
proof -
  have "chain demo_block 0 [0] (length demo_block) \<and> length demo_block = 64 \<and> entries demo_block [0] = [(7, ''a'')]" by code_simp
  then show "dir_block demo_block" "dir_scan demo_block 0 = Inr [(7, ''a'')]"
    using scan_chain [of demo_block 0 "[0]"] by (auto simp: dir_block_def intro!: exI [of _ "[0]"])
qed

theorem dir_entry_added_witness:
  "dir_block demo_block \<and> dir_scan demo_block 0 = Inr [(7, ''a'')] \<and>
   (\<exists>b' b''. block_add 9 ''bc'' 1 demo_block = Inr (Some b') \<and> dir_scan b' 0 = Inr [(7, ''a''), (9, ''bc'')] \<and>
      block_remove 9 b' 0 None = Inr (Some b'') \<and> dir_scan b'' 0 = Inr [(7, ''a'')])"
proof -
  obtain r where r: "block_add 9 ''bc'' 1 demo_block = Inr r" and spec: "\<forall>b'. r = Some b' \<longrightarrow>
       length b' = length demo_block \<and> dir_block b' \<and> dir_scan b' 0 = Inr ([(7, ''a'')] @ [(9, ''bc'')]) \<and>
       (9 \<notin> fst ` set [(7 :: u32, ''a'')] \<longrightarrow>
          (\<exists>b''. block_remove 9 b' 0 None = Inr (Some b'') \<and> dir_block b'' \<and> dir_scan b'' 0 = Inr [(7, ''a'')]))"
    using dir_entry_added [OF demo_block_ok, of "''bc''" 9 1] by auto
  have "case block_add 9 ''bc'' 1 demo_block of Inr (Some b') \<Rightarrow> True | _ \<Rightarrow> False" by code_simp
  then obtain b' where "r = Some b'" using r by (cases r) auto
  then show ?thesis using r spec demo_block_ok by auto
qed

text \<open>
  C36. Removing an inode from a packed directory block: if no entry has the inode, the block is
  left as it is; otherwise the first entry that has it, and no other, is gone from the list.
\<close>

theorem dir_entry_removed:
  assumes b: "dir_block b" and scan: "dir_scan b 0 = Inr es" and child: "child \<noteq> 0"
  shows "\<exists>r. block_remove child b 0 None = Inr r \<and>
    (case r of
       None \<Rightarrow> child \<notin> fst ` set es
     | Some b' \<Rightarrow> child \<in> fst ` set es \<and> length b' = length b \<and> dir_block b' \<and> dir_scan b' 0 = Inr (drop_inode child es))"
proof -
  obtain ps where ps: "ps \<noteq> []" "chain b 0 ps (length b)" and len: "length b < 2 ^ 16" using b by (auto simp: dir_block_def)
  have es: "es = entries b ps" using scan scan_chain [OF ps(2)] by simp
  obtain r where "block_remove child b 0 None = Inr r" "case r of
       None \<Rightarrow> child \<notin> fst ` set es
     | Some b' \<Rightarrow> child \<in> fst ` set es \<and> length b' = length b \<and> (\<exists>qs. chain b' 0 qs (length b) \<and> qs \<noteq> []) \<and>
         dir_scan b' 0 = Inr (drop_inode child es)"
    using block_remove_chain [OF ps(2) len child] unfolding es by blast
  then show ?thesis using len by (intro exI [of _ r]) (auto simp: dir_block_def split: option.splits)
qed

theorem dir_entry_removed_witness:
  "dir_block demo_block \<and> (\<exists>b'. block_remove 7 demo_block 0 None = Inr (Some b') \<and> dir_scan b' 0 = Inr [])
   \<and> block_remove 8 demo_block 0 None = Inr None"
proof -
  have "block_remove 8 demo_block 0 None = Inr None" by code_simp
  moreover have "drop_inode 7 [(7, ''a'')] = []" by code_simp
  ultimately show ?thesis using dir_entry_removed [OF demo_block_ok, of 7] demo_block_ok
    by (auto split: option.splits)
qed

end
