(* ===== verification/Ext2_Bitmap.thy ===== *)
theory Ext2_Bitmap
  imports Ext2_Alloc
begin

text \<open>
  Blocks that are written and read back, and the bitmap of blocks: an allocation takes a
  block that was clear and changes nothing else among the blocks of data, and giving the block
  back restores them.
\<close>

section \<open>Reading what was written\<close>

lemma bytes_at_cong: "(\<And>i. a \<le> i \<Longrightarrow> i < a + n \<Longrightarrow> m i = m' i) \<Longrightarrow> bytes_at a n m = bytes_at a n m'"
  by (simp add: bytes_at_def)

lemma bytes_at_store: "length xs = n \<Longrightarrow> bytes_at a n (store_at a xs m) = xs"
  by (rule nth_equalityI) (simp_all add: bytes_at_def store_at_def)

lemma written_fields [simp]:
  "g_block_size (write_sectors l n d s) = g_block_size s" "g_bg_count (write_sectors l n d s) = g_bg_count s"
  "g_bgds (write_sectors l n d s) = g_bgds s" "g_inodes_per_group (write_sectors l n d s) = g_inodes_per_group s"
  "g_block_size (ext2_write_block b d s) = g_block_size s" "g_bg_count (ext2_write_block b d s) = g_bg_count s"
  "g_bgds (ext2_write_block b d s) = g_bgds s" "g_inodes_per_group (ext2_write_block b d s) = g_inodes_per_group s"
  by (simp_all add: write_sectors_def ext2_write_block_def)

lemma geometry_written [simp]: "geometry (write_sectors l n d s) = geometry s" "geometry (ext2_write_block b d s) = geometry s"
  by (simp_all add: geometry_def)

lemma in_reach_written [simp]: "in_reach (write_sectors l n d s) = in_reach s" "in_reach (ext2_write_block b d s) = in_reach s"
  by (simp_all add: in_reach_def fun_eq_iff)

lemma medium_written: "medium (write_sectors l n d s) = store_at (512 * unat l) (take (512 * unat n) d) (medium s)"
  by (simp add: write_sectors_def medium_def)

lemma write_block_at:
  assumes "geometry s" and "in_reach s b" and "length d = bsize s"
  shows "medium (ext2_write_block b d s) = store_at (unat b * bsize s) d (medium s)"
proof -
  have "unat b * bsize s < 2 ^ 32" using assms(2) by (simp add: in_reach_def)
  moreover have "512 dvd bsize s" using assms(1) by (simp add: geometry_def)
  ultimately show ?thesis
    using block_sectors [OF assms(1)] sectors_of_bytes [of b "g_block_size s"] assms(3)
    by (simp add: ext2_write_block_def medium_written)
qed

lemma read_written_block:
  assumes "geometry s" and "in_reach s b" and "length d = bsize s"
  shows "ext2_read_block b (ext2_write_block b d s) = d"
  using assms by (simp add: read_block_bytes write_block_at bytes_at_store)

text \<open>What is written elsewhere leaves a block alone.\<close>

lemma read_outside:
  assumes "geometry s" and "in_reach s c"
    and "512 * unat l + 512 * unat n \<le> unat c * bsize s \<or> (unat c + 1) * bsize s \<le> 512 * unat l"
  shows "ext2_read_block c (write_sectors l n d s) = ext2_read_block c s"
proof -
  have len: "length (take (512 * unat n) d) \<le> 512 * unat n" by simp
  have "store_at (512 * unat l) (take (512 * unat n) d) (medium s) i = medium s i"
    if "unat c * bsize s \<le> i" "i < unat c * bsize s + bsize s" for i
  proof -
    have "\<not> (512 * unat l \<le> i \<and> i < 512 * unat l + length (take (512 * unat n) d))"
      using len that assms(3) by (auto simp only: distrib_right mult_1)
    then show ?thesis by (simp only: store_at_def if_False)
  qed
  then show ?thesis by (simp add: read_block_bytes assms(1,2) medium_written bytes_at_def)
qed

lemma blocks_apart:
  fixes b c :: u32
  assumes "b \<noteq> c"
  shows "unat b * k + k \<le> unat c * k \<or> (unat c + 1) * k \<le> unat b * k"
proof -
  have "unat b \<noteq> unat c" using assms by (simp add: word_unat_eq_iff)
  then have "unat b + 1 \<le> unat c \<or> unat c + 1 \<le> unat b" by linarith
  then have "(unat b + 1) * k \<le> unat c * k \<or> (unat c + 1) * k \<le> unat b * k" by (metis mult_le_mono1)
  then show ?thesis by (simp add: add.commute)
qed

lemma read_other_block:
  assumes "geometry s" and "in_reach s b" and "in_reach s c" and "b \<noteq> c"
  shows "ext2_read_block c (ext2_write_block b d s) = ext2_read_block c s"
proof -
  have "unat b * bsize s < 2 ^ 32" using assms(2) by (simp add: in_reach_def)
  then have "512 * unat (b * g_block_size s div BLKDEV_SECTOR_SIZE) = unat b * bsize s"
    using assms(1) sectors_of_bytes [of b "g_block_size s"] by (simp add: geometry_def)
  then show ?thesis unfolding ext2_write_block_def
    using read_outside [OF assms(1,3)] block_sectors [OF assms(1)] blocks_apart [OF assms(4), of "bsize s"] by simp
qed

section \<open>The volume\<close>

text \<open>
  The superblock, in the second KB, and the table of descriptors come first; every bitmap of
  blocks follows them, and is large enough for its group.
\<close>

definition tables_end :: "'a ext2_scheme \<Rightarrow> nat" where
  "tables_end s = unat (bgdt_block s) + unat (bgdt_blocks s)"

definition data_block :: "'a ext2_scheme \<Rightarrow> u32 \<Rightarrow> bool" where
  "data_block s b \<longleftrightarrow> in_reach s b \<and> tables_end s \<le> unat b"

definition volume_ok :: "'a ext2_scheme \<Rightarrow> bool" where
  "volume_ok s \<longleftrightarrow> geometry s \<and> 1024 dvd bsize s \<and> length (g_bgds s) = unat (g_bg_count s) \<and>
     tables_end s * bsize s < 2 ^ 32 \<and>
     0 < unat (s_blocks_per_group (read_sectors 2 2 s)) \<and> unat (s_blocks_per_group (read_sectors 2 2 s)) \<le> 8 * bsize s \<and>
     (\<forall>d\<in>set (g_bgds s). data_block s (bg_block_bitmap d))"

lemma bgdt_start: "geometry s \<Longrightarrow> 1024 dvd bsize s \<Longrightarrow> 2048 \<le> unat (bgdt_block s) * bsize s"
proof -
  assume g: "geometry s" and d: "1024 dvd bsize s"
  obtain k where k: "bsize s = 1024 * k" using d by blast
  then have "1 \<le> k" using g by (simp add: geometry_def)
  then show ?thesis
  proof (cases "k = 1")
    case True
    then have "g_block_size s = 1024" using k by (simp add: word_unat_eq_iff)
    then show ?thesis by (simp add: bgdt_block_def)
  next
    case False
    then have "g_block_size s \<noteq> 1024" using k by auto
    then show ?thesis using False \<open>1 \<le> k\<close> k by (simp add: bgdt_block_def)
  qed
qed

text \<open>The blocks of data are not touched by the superblock and the descriptors.\<close>

lemma data_block_written [simp]:
  "data_block (write_sectors l n d s) = data_block s" "data_block (ext2_write_block b d s) = data_block s"
  "tables_end (write_sectors l n d s) = tables_end s" "tables_end (ext2_write_block b d s) = tables_end s"
  by (simp_all add: data_block_def tables_end_def bgdt_block_def bgdt_blocks_def fun_eq_iff)

lemma super_keeps_block:
  assumes "geometry s" and "1024 dvd bsize s" and "data_block s c"
  shows "ext2_read_block c (write_sectors 2 2 sb s) = ext2_read_block c s"
proof (rule read_outside)
  have "unat (bgdt_block s) * bsize s \<le> unat c * bsize s"
    using assms(3) by (intro mult_le_mono1) (simp add: data_block_def tables_end_def)
  with bgdt_start [OF assms(1,2)] have "2048 \<le> unat c * bsize s" by (rule le_trans)
  then show "512 * unat (2 :: u32) + 512 * unat (2 :: u32) \<le> unat c * bsize s \<or> (unat c + 1) * bsize s \<le> 512 * unat (2 :: u32)" by simp
qed (use assms in \<open>simp_all add: data_block_def\<close>)

text \<open>What \<open>bgdt_flush\<close> leaves as it was.\<close>

definition kept :: "'a ext2_scheme \<Rightarrow> 'a ext2_scheme \<Rightarrow> bool" where
  "kept s t \<longleftrightarrow> g_block_size t = g_block_size s \<and> g_bg_count t = g_bg_count s \<and> g_bgds t = g_bgds s \<and>
     g_inodes_per_group t = g_inodes_per_group s \<and>
     (\<forall>c. data_block s c \<longrightarrow> ext2_read_block c t = ext2_read_block c s) \<and>
     read_sectors 2 2 t = read_sectors 2 2 s"

lemma kept_refl: "kept s s"
  by (simp add: kept_def)

lemma kept_frame: "kept s t \<Longrightarrow> geometry t = geometry s \<and> data_block t = data_block s \<and> in_reach t = in_reach s \<and> tables_end t = tables_end s"
  by (simp add: kept_def geometry_def data_block_def in_reach_def tables_end_def bgdt_block_def bgdt_blocks_def fun_eq_iff)

lemma kept_trans: "kept s t \<Longrightarrow> kept t u \<Longrightarrow> kept s u"
  using kept_frame [of s t] by (simp add: kept_def)

lemma kept_table_block:
  assumes g: "geometry s" "1024 dvd bsize s" and b: "unat (bgdt_block s) \<le> unat b" "unat b < tables_end s" and reach: "tables_end s * bsize s < 2 ^ 32"
  shows "kept s (ext2_write_block b d s)"
proof -
  have "(unat b + 1) * bsize s \<le> tables_end s * bsize s" using b(2) by (intro mult_le_mono1) simp
  then have r: "in_reach s b" using reach by (simp add: in_reach_def)
  have at: "512 * unat (b * g_block_size s div BLKDEV_SECTOR_SIZE) = unat b * bsize s"
    using r g(1) sectors_of_bytes [of b "g_block_size s"] by (simp add: in_reach_def geometry_def)
  have "unat (bgdt_block s) * bsize s \<le> unat b * bsize s" using b(1) by (rule mult_le_mono1)
  with bgdt_start [OF g] have "2048 \<le> unat b * bsize s" by (rule le_trans)
  then have "read_sectors 2 2 (ext2_write_block b d s) = read_sectors 2 2 s" unfolding read_sectors_def
    by (intro bytes_at_cong) (simp add: ext2_write_block_def medium_written store_at_def at)
  moreover have "ext2_read_block c (ext2_write_block b d s) = ext2_read_block c s" if "data_block s c" for c
    by (rule read_other_block [OF g(1) r]) (use that b(2) in \<open>auto simp: data_block_def\<close>)
  ultimately show ?thesis by (simp add: kept_def)
qed

lemma kept_table_blocks:
  assumes "geometry s" and "1024 dvd bsize s" and reach: "tables_end s * bsize s < 2 ^ 32"
    and "\<And>b. b \<in> set bs \<Longrightarrow> b < unat (bgdt_blocks s)" and "kept s t"
  shows "kept s (fold (\<lambda>b t. ext2_write_block (bgdt_block t + of_nat b) (D b) t) bs t)"
  using assms(4,5)
proof (induction bs arbitrary: t)
  case (Cons b bs)
  have "1024 * tables_end s \<le> bsize s * tables_end s" using assms(1) by (intro mult_le_mono1) (simp add: geometry_def)
  moreover have "bsize s * tables_end s < 4294967296" using reach by (simp add: mult.commute)
  ultimately have small: "tables_end s < 4194304" by linarith
  have b: "b < unat (bgdt_blocks s)" using Cons.prems(1) by simp
  have ob: "unat (of_nat b :: u32) = b" using b small by (intro unat_of_nat_small) (simp add: tables_end_def)
  have u: "unat (bgdt_block s + of_nat b) = unat (bgdt_block s) + b"
    using small b by (subst unat_plus_no_wrap) (simp_all add: ob tables_end_def)
  note fr = kept_frame [OF Cons.prems(2)]
  have bt: "bgdt_block t = bgdt_block s" "bsize t = bsize s" using Cons.prems(2) by (simp_all add: kept_def bgdt_block_def)
  have "kept t (ext2_write_block (bgdt_block s + of_nat b) (D b) t)"
    by (rule kept_table_block) (use assms(1,2) fr bt u b reach in \<open>simp_all add: tables_end_def\<close>)
  then show ?case using Cons.IH [OF _ kept_trans [OF Cons.prems(2)]] Cons.prems(1) bt by simp
qed simp

lemma kept_write_bgdt:
  assumes "geometry s" and "1024 dvd bsize s" and "tables_end s * bsize s < 2 ^ 32"
  shows "kept s (write_bgdt room s)"
  by (simp only: write_bgdt_def Let_def split: if_split) (auto intro!: kept_table_blocks [OF assms] kept_refl)

section \<open>The bits\<close>

definition used_bit :: "u8 list \<Rightarrow> nat \<Rightarrow> bool" where
  "used_bit bm i \<longleftrightarrow> bit (bm ! (i div 8)) (i mod 8)"

lemma find_clear_spec:
  "i + n \<le> 8 * length bm \<Longrightarrow> \<exists>r. find_clear bm i n = Inr r \<and>
     (case r of None \<Rightarrow> \<forall>k. i \<le> k \<and> k < i + n \<longrightarrow> used_bit bm k
      | Some k \<Rightarrow> i \<le> k \<and> k < i + n \<and> \<not> used_bit bm k \<and> (\<forall>j. i \<le> j \<and> j < k \<longrightarrow> used_bit bm j))"
proof (induction n arbitrary: i)
  case (Suc n)
  have i: "i div 8 < length bm" using Suc.prems by (simp add: less_mult_imp_div_less)
  show ?case
  proof (cases "used_bit bm i")
    case True
    then have "find_clear bm i (Suc n) = find_clear bm (Suc i) n" using i by (simp add: used_bit_def)
    moreover obtain r where "find_clear bm (Suc i) n = Inr r" and "case r of
         None \<Rightarrow> \<forall>k. Suc i \<le> k \<and> k < Suc i + n \<longrightarrow> used_bit bm k
       | Some k \<Rightarrow> Suc i \<le> k \<and> k < Suc i + n \<and> \<not> used_bit bm k \<and> (\<forall>j. Suc i \<le> j \<and> j < k \<longrightarrow> used_bit bm j)"
      using Suc.IH [of "Suc i"] Suc.prems by auto
    moreover have "(\<forall>j. i \<le> j \<and> P j \<longrightarrow> used_bit bm j) \<longleftrightarrow> (\<forall>j. Suc i \<le> j \<and> P j \<longrightarrow> used_bit bm j)" for P
      using True by (metis Suc_le_eq le_neq_implies_less order_less_imp_le)
    ultimately show ?thesis by (intro exI [of _ r]) (auto split: option.splits)
  next
    case False
    then have "find_clear bm i (Suc n) = Inr (Some i)" using i by (simp add: used_bit_def)
    then show ?thesis using False by auto
  qed
qed auto

lemma length_bits [simp]: "length (mark_bit i bm) = length bm" "length (unmark_bit i bm) = length bm"
  by (simp_all add: mark_bit_def unmark_bit_def)

lemma same_bit_index: "i div 8 = k div 8 \<Longrightarrow> i mod 8 = k mod 8 \<longleftrightarrow> i = k" for i k :: nat
  by (metis div_mult_mod_eq)

lemma bit_unit: "m < 8 \<Longrightarrow> n < 8 \<Longrightarrow> bit (push_bit m (1 :: u8)) n \<longleftrightarrow> m = n"
  by (auto simp: bit_simps)

lemma used_mark:
  assumes "i < 8 * length bm" and "k < 8 * length bm"
  shows "used_bit (mark_bit i bm) k \<longleftrightarrow> k = i \<or> used_bit bm k"
proof -
  have i: "i div 8 < length bm" using assms(1) by (simp add: less_mult_imp_div_less)
  show ?thesis
  proof (cases "i div 8 = k div 8")
    case True
    then have "used_bit (mark_bit i bm) k \<longleftrightarrow> used_bit bm k \<or> bit (push_bit (i mod 8) (1 :: u8)) (k mod 8)"
      using i by (simp add: used_bit_def mark_bit_def bit_or_iff)
    then show ?thesis using same_bit_index [OF True] by (auto simp: bit_unit simp del: push_bit_of_1)
  next
    case False
    then show ?thesis by (auto simp: used_bit_def mark_bit_def)
  qed
qed

lemma unmark_mark:
  assumes "i < 8 * length bm" and "\<not> used_bit bm i"
  shows "unmark_bit i (mark_bit i bm) = bm"
proof -
  have i: "i div 8 < length bm" using assms(1) by (simp add: less_mult_imp_div_less)
  have "(bm ! (i div 8) OR push_bit (i mod 8) 1) AND NOT (push_bit (i mod 8) 1) = bm ! (i div 8)"
    by (rule bit_word_eqI) (use assms(2) in \<open>auto simp: used_bit_def bit_simps\<close>)
  then show ?thesis using i by (simp add: mark_bit_def unmark_bit_def)
qed

section \<open>Taking a block and giving it back\<close>

text \<open>The three stores of an update: the bitmap, the descriptors, the superblock.\<close>

definition store_group :: "(u32 \<Rightarrow> bool) \<Rightarrow> nat \<Rightarrow> (ext2_bgd \<Rightarrow> ext2_bgd) \<Rightarrow> u32 \<Rightarrow> u8 list \<Rightarrow> u8 list \<Rightarrow> 'a ext2_scheme \<Rightarrow> 'a ext2_scheme" where
  "store_group room g f bm d sb s = write_sectors 2 2 sb (write_bgdt room (upd_bgd g f (ext2_write_block bm d s)))"

lemma upd_bgd_frame [simp]:
  "medium (upd_bgd g f s) = medium s" "g_block_size (upd_bgd g f s) = g_block_size s" "g_bg_count (upd_bgd g f s) = g_bg_count s"
  "g_bgds (upd_bgd g f s) = (g_bgds s)[g := f (g_bgds s ! g)]" "g_inodes_per_group (upd_bgd g f s) = g_inodes_per_group s"
  by (simp_all add: upd_bgd_def medium_def)

lemma upd_bgd_reads [simp]:
  "read_sectors l n (upd_bgd g f s) = read_sectors l n s" "ext2_read_block b (upd_bgd g f s) = ext2_read_block b s"
  "geometry (upd_bgd g f s) = geometry s" "tables_end (upd_bgd g f s) = tables_end s" "data_block (upd_bgd g f s) = data_block s"
  by (simp_all add: read_sectors_def ext2_read_block_def geometry_def tables_end_def data_block_def in_reach_def
      bgdt_block_def bgdt_blocks_def fun_eq_iff)

lemma store_group_spec:
  fixes s :: "'a ext2_scheme" and f :: "ext2_bgd \<Rightarrow> ext2_bgd" and g :: nat and room :: "u32 \<Rightarrow> bool"
  assumes geo: "geometry s" "1024 dvd bsize s" "tables_end s * bsize s < 2 ^ 32"
    and bm: "data_block s bm" and d: "length d = bsize s" and sb: "length sb = 1024"
  defines "t \<equiv> store_group room g f bm d sb s"
  shows "ext2_read_block bm t = d" and "\<And>c. data_block s c \<Longrightarrow> c \<noteq> bm \<Longrightarrow> ext2_read_block c t = ext2_read_block c s"
    and "g_bgds t = (g_bgds s)[g := f (g_bgds s ! g)]" and "read_sectors 2 2 t = sb"
    and "g_block_size t = g_block_size s" "g_bg_count t = g_bg_count s" "data_block t = data_block s" "tables_end t = tables_end s"
proof -
  let ?u = "upd_bgd g f (ext2_write_block bm d s)"
  let ?w = "write_bgdt room ?u"
  have k: "kept ?u ?w" by (rule kept_write_bgdt) (use geo in simp_all)
  note fr = kept_frame [OF k]
  have w: "geometry ?w" "1024 dvd bsize ?w" "data_block ?w = data_block s" using geo fr k by (simp_all add: kept_def)
  have r: "ext2_read_block c t = ext2_read_block c (ext2_write_block bm d s)" if "data_block s c" for c
    unfolding t_def store_group_def using super_keeps_block [OF w(1,2), of c sb] that k w(3) by (simp add: kept_def)
  show "ext2_read_block bm t = d" using r [OF bm] read_written_block [OF geo(1) _ d] bm by (simp add: data_block_def)
  show "ext2_read_block c t = ext2_read_block c s" if "data_block s c" "c \<noteq> bm" for c
    using r [OF that(1)] read_other_block [OF geo(1), of bm c d] that bm by (simp add: data_block_def)
  show "g_bgds t = (g_bgds s)[g := f (g_bgds s ! g)]" "g_block_size t = g_block_size s" "g_bg_count t = g_bg_count s"
    using k by (simp_all add: t_def store_group_def kept_def)
  show "read_sectors 2 2 t = sb" using sb by (simp add: t_def store_group_def read_sectors_def medium_written bytes_at_store)
  show "data_block t = data_block s" "tables_end t = tables_end s" using w(3) fr by (simp_all add: t_def store_group_def)
qed

text \<open>The block with number \<open>i\<close> of group \<open>g\<close> is taken.\<close>

definition took :: "nat \<Rightarrow> nat \<Rightarrow> u32 \<Rightarrow> 'a ext2_scheme \<Rightarrow> 'a ext2_scheme \<Rightarrow> bool" where
  "took g i b s t \<longleftrightarrow>
     (let sb = read_sectors 2 2 s; bm = bg_block_bitmap (g_bgds s ! g) in
      g < length (g_bgds s) \<and> i < unat (s_blocks_per_group sb) \<and>
      b = of_nat g * s_blocks_per_group sb + of_nat i + s_first_data_block sb \<and>
      \<not> used_bit (ext2_read_block bm s) i \<and> ext2_read_block bm t = mark_bit i (ext2_read_block bm s) \<and>
      (\<forall>c. data_block s c \<and> c \<noteq> bm \<longrightarrow> ext2_read_block c t = ext2_read_block c s) \<and>
      g_bgds t = (g_bgds s)[g := (g_bgds s ! g)\<lparr>bg_free_blocks_count := bg_free_blocks_count (g_bgds s ! g) - 1\<rparr>] \<and>
      read_sectors 2 2 t = (if s_free_blocks_count sb > 0 then put 12 (enc32 (s_free_blocks_count sb - 1)) sb else sb) \<and>
      g_block_size t = g_block_size s \<and> g_bg_count t = g_bg_count s)"

lemma length_super [simp]: "length (read_sectors 2 2 s) = 1024"
  by (simp add: read_sectors_def bytes_at_def)

lemma super_fields:
  assumes "length sb = 1024"
  shows "s_first_data_block (put 12 (enc32 v) sb) = s_first_data_block sb" "s_blocks_per_group (put 12 (enc32 v) sb) = s_blocks_per_group sb"
    "s_free_blocks_count (put 12 (enc32 v) sb) = v"
  using assms get32_put_same [of 12 "enc32 v" sb 0]
  by (simp_all add: s_first_data_block_def s_blocks_per_group_def s_free_blocks_count_def get32_put_other get32_le32)

lemma alloc_groups_spec:
  assumes ok: "volume_ok s" and "\<forall>g\<in>set gs. g < length (g_bgds s)"
  shows "\<exists>r. alloc_groups room (read_sectors 2 2 s) gs s = Inr r \<and>
    (case r of (b, t) \<Rightarrow> (b = 0 \<and> t = s) \<or> (\<exists>g\<in>set gs. \<exists>i. bg_free_blocks_count (g_bgds s ! g) \<noteq> 0 \<and> took g i b s t))"
  using assms(2)
proof (induction gs)
  case (Cons g gs)
  let ?sb = "read_sectors 2 2 s"
  let ?bm = "bg_block_bitmap (g_bgds s ! g)"
  let ?per = "s_blocks_per_group ?sb"
  let ?rem = "s_blocks_count ?sb - of_nat g * ?per"
  let ?n = "if ?rem < ?per then ?rem else ?per"
  have g: "g < length (g_bgds s)" using Cons.prems by simp
  have v: "geometry s" "1024 dvd bsize s" "tables_end s * bsize s < 2 ^ 32" "unat ?per \<le> 8 * bsize s" "data_block s ?bm"
    using ok g by (simp_all add: volume_ok_def)
  note len = length_read_block [OF v(1), of ?bm]
  have n: "unat ?n \<le> unat ?per" by (auto simp: word_less_nat_alt)
  then have n8: "0 + unat ?n \<le> 8 * length (ext2_read_block ?bm s)" using v(4) len by linarith
  obtain r where IH: "alloc_groups room ?sb gs s = Inr r" "case r of (b, t) \<Rightarrow> (b = 0 \<and> t = s) \<or>
      (\<exists>g\<in>set gs. \<exists>i. bg_free_blocks_count (g_bgds s ! g) \<noteq> 0 \<and> took g i b s t)"
    using Cons.IH Cons.prems by auto
  obtain f where f: "find_clear (ext2_read_block ?bm s) 0 (unat ?n) = Inr f" "case f of
      None \<Rightarrow> \<forall>k. 0 \<le> k \<and> k < 0 + unat ?n \<longrightarrow> used_bit (ext2_read_block ?bm s) k
    | Some k \<Rightarrow> 0 \<le> k \<and> k < 0 + unat ?n \<and> \<not> used_bit (ext2_read_block ?bm s) k \<and>
        (\<forall>j. 0 \<le> j \<and> j < k \<longrightarrow> used_bit (ext2_read_block ?bm s) j)"
    using find_clear_spec [OF n8] by blast
  show ?case
  proof (cases "bg_free_blocks_count (g_bgds s ! g) = 0 \<or> f = None")
    case True
    then have "alloc_groups room ?sb (g # gs) s = Inr r" using IH(1) f(1) g by (auto simp: Let_def)
    then show ?thesis using IH(2) by (auto split: prod.splits)
  next
    case False
    then obtain i where i: "f = Some i" and free: "bg_free_blocks_count (g_bgds s ! g) \<noteq> 0" by auto
    let ?b = "of_nat g * ?per + of_nat i + s_first_data_block ?sb"
    let ?sb' = "if s_free_blocks_count ?sb > 0 then put 12 (enc32 (s_free_blocks_count ?sb - 1)) ?sb else ?sb"
    let ?t = "store_group room g (\<lambda>d. d\<lparr>bg_free_blocks_count := bg_free_blocks_count d - 1\<rparr>) ?bm (mark_bit i (ext2_read_block ?bm s)) ?sb' s"
    have first: "s_first_data_block ?sb' = s_first_data_block ?sb" by (simp add: super_fields(1))
    have run: "alloc_groups room ?sb (g # gs) s = Inr (?b, ?t)"
      using f(1) free g by (simp only: first i alloc_groups.simps Let_def bindE_simps store_group_def option.case simp_thms if_True if_False)
    have sb': "length ?sb' = 1024" by simp
    have "length (mark_bit i (ext2_read_block ?bm s)) = bsize s" by (simp add: len)
    note st = store_group_spec [where room = room and g = g and f = "\<lambda>d. d\<lparr>bg_free_blocks_count := bg_free_blocks_count d - 1\<rparr>",
        OF v(1,2,3,5) this sb']
    have "i < unat ?per" "\<not> used_bit (ext2_read_block ?bm s) i" using f(2) n unfolding i by auto
    then have "took g i ?b s ?t" using st g unfolding took_def Let_def by blast
    then show ?thesis using run free by auto
  qed
qed simp

text \<open>
  C8. On a volume whose bitmaps lie after the table of descriptors and cover their groups,
  \<open>ext2_alloc_block\<close> always returns. Either it reports 0 and nothing has changed, or the block
  it returns was clear in the bitmap of a group with free blocks; that bit is set now, the
  free count of the group and of the superblock (if it was not 0) is one less, and every other
  block of data, the other bitmaps among them, is as it was.
\<close>

theorem ext2_alloc_block_takes_clear:
  assumes "volume_ok s"
  shows "\<exists>b t. ext2_alloc_block room s = Inr (b, t) \<and>
    ((b = 0 \<and> t = s) \<or> (\<exists>g i. bg_free_blocks_count (g_bgds s ! g) \<noteq> 0 \<and> took g i b s t))"
proof (cases "room (g_block_size s)")
  case True
  have "\<forall>g\<in>set [0..<unat (g_bg_count s)]. g < length (g_bgds s)" using assms by (simp add: volume_ok_def)
  from alloc_groups_spec [where room = room, OF assms this] show ?thesis using True
    by (auto simp: ext2_alloc_block_def)
qed (simp add: ext2_alloc_block_def)

lemma group_index:
  fixes per :: u32
  assumes "i < unat per" and "(g + 1) * unat per \<le> 2 ^ 32"
  shows "unat ((of_nat g * per + of_nat i) div per) = g" and "unat ((of_nat g * per + of_nat i) mod per) = i"
proof -
  have per: "1 \<le> unat per" using assms(1) by simp
  have lt: "g * unat per + i < 2 ^ 32" using assms by simp
  have "g * 1 \<le> g * unat per" using per by (rule mult_le_mono2)
  then have "g < 2 ^ 32" using lt by linarith
  then have g: "unat (of_nat g :: u32) = g" by (intro unat_of_nat_small) simp
  have i: "unat (of_nat i :: u32) = i" using lt by (intro unat_of_nat_small) simp
  have m: "unat (of_nat g * per) = g * unat per" using lt g by (simp add: unat_word_ariths(2))
  have "unat (of_nat g * per + of_nat i) = g * unat per + i" using lt m i by (subst unat_plus_no_wrap) simp_all
  then show "unat ((of_nat g * per + of_nat i) div per) = g" "unat ((of_nat g * per + of_nat i) mod per) = i"
    using assms(1) by (simp_all add: unat_div unat_mod)
qed

text \<open>
  C34. A block that \<open>ext2_alloc_block\<close> gave out can be given back, on a volume of at most
  2^32 blocks: afterwards every block of data, the bitmaps among them, and the group
  descriptors are what they were before the allocation, and so is the free count in the
  superblock unless it was 0.
\<close>

theorem ext2_alloc_free_restores:
  assumes ok: "volume_ok s" and room: "room (g_block_size s)"
    and small: "unat (g_bg_count s) * unat (s_blocks_per_group (read_sectors 2 2 s)) \<le> 2 ^ 32"
    and alloc: "ext2_alloc_block room s = Inr (b, t)" and b: "b \<noteq> 0"
  shows "\<exists>u. ext2_free_block room b t = Inr u \<and> g_bgds u = g_bgds s \<and>
    (\<forall>c. data_block s c \<longrightarrow> ext2_read_block c u = ext2_read_block c s) \<and>
    (s_free_blocks_count (read_sectors 2 2 s) \<noteq> 0 \<longrightarrow>
       s_free_blocks_count (read_sectors 2 2 u) = s_free_blocks_count (read_sectors 2 2 s))"
proof -
  have "\<forall>g\<in>set [0..<unat (g_bg_count s)]. g < length (g_bgds s)" using ok by (simp add: volume_ok_def)
  from alloc_groups_spec [where room = room, OF ok this] obtain g i where t: "took g i b s t"
    using alloc b room by (auto simp: ext2_alloc_block_def)
  let ?sb = "read_sectors 2 2 s"
  let ?bm = "bg_block_bitmap (g_bgds s ! g)"
  let ?sb' = "read_sectors 2 2 t"
  have g: "g < length (g_bgds s)" and i: "i < unat (s_blocks_per_group ?sb)" and clear: "\<not> used_bit (ext2_read_block ?bm s) i"
    and be: "b = of_nat g * s_blocks_per_group ?sb + of_nat i + s_first_data_block ?sb"
    and bmt: "ext2_read_block ?bm t = mark_bit i (ext2_read_block ?bm s)"
    and other: "\<And>c. data_block s c \<Longrightarrow> c \<noteq> ?bm \<Longrightarrow> ext2_read_block c t = ext2_read_block c s"
    and bgds: "g_bgds t = (g_bgds s)[g := (g_bgds s ! g)\<lparr>bg_free_blocks_count := bg_free_blocks_count (g_bgds s ! g) - 1\<rparr>]"
    and sb': "?sb' = (if s_free_blocks_count ?sb > 0 then put 12 (enc32 (s_free_blocks_count ?sb - 1)) ?sb else ?sb)"
    and size: "g_block_size t = g_block_size s" "g_bg_count t = g_bg_count s"
    using t by (simp_all add: took_def Let_def)
  have v: "geometry s" "1024 dvd bsize s" "tables_end s * bsize s < 2 ^ 32" "unat (s_blocks_per_group ?sb) \<le> 8 * bsize s" "data_block s ?bm"
    "length (g_bgds s) = unat (g_bg_count s)" using ok g by (simp_all add: volume_ok_def)
  have fr: "geometry t = geometry s" "tables_end t = tables_end s" "data_block t = data_block s"
    using size by (simp_all add: geometry_def tables_end_def data_block_def in_reach_def bgdt_block_def bgdt_blocks_def fun_eq_iff)
  have fields: "s_first_data_block ?sb' = s_first_data_block ?sb" "s_blocks_per_group ?sb' = s_blocks_per_group ?sb"
    by (simp_all add: sb' super_fields(1,2))
  have "(g + 1) * unat (s_blocks_per_group ?sb) \<le> unat (g_bg_count s) * unat (s_blocks_per_group ?sb)"
    using g v(6) by (intro mult_le_mono1) simp
  then have "(g + 1) * unat (s_blocks_per_group ?sb) \<le> 2 ^ 32" using small by (rule le_trans)
  note gi = group_index [OF i this]
  have bm: "bg_block_bitmap (g_bgds t ! g) = ?bm" using g by (simp add: bgds)
  note len = length_read_block [OF v(1), of ?bm]
  have i8: "i < 8 * length (ext2_read_block ?bm s)" using i v(4) len by simp
  have orig: "unmark_bit i (ext2_read_block ?bm t) = ext2_read_block ?bm s" using unmark_mark [OF i8 clear] by (simp add: bmt)
  let ?sb2 = "put 12 (enc32 (s_free_blocks_count ?sb' + 1)) ?sb'"
  let ?u = "store_group room g (\<lambda>d. d\<lparr>bg_free_blocks_count := bg_free_blocks_count d + 1\<rparr>) ?bm (ext2_read_block ?bm s) ?sb2 t"
  have lt: "\<not> g_bg_count s \<le> (of_nat g * s_blocks_per_group ?sb + of_nat i) div s_blocks_per_group ?sb"
    using g v(6) by (simp add: word_le_nat_alt gi(1))
  have per: "s_blocks_per_group ?sb \<noteq> 0" using i by auto
  have idx: "i div 8 < length (ext2_read_block ?bm t)" using i8 by (simp add: bmt less_mult_imp_div_less)
  have run: "ext2_free_block room b t = Inr ?u"
    using b per lt room g idx
    by (simp only: ext2_free_block_def Let_def fields be add_diff_cancel_right' size gi bgds length_list_update bm [unfolded bgds] orig
        store_group_def if_False if_True not_True_eq_False not_False_eq_True disj_not1 simp_thms)
  have tl: "geometry t" "1024 dvd bsize t" "tables_end t * bsize t < 2 ^ 32" "data_block t ?bm" "length (ext2_read_block ?bm s) = bsize t"
    "length ?sb2 = 1024" using v fr size len by simp_all
  note st = store_group_spec [where room = room and g = g and f = "\<lambda>d. d\<lparr>bg_free_blocks_count := bg_free_blocks_count d + 1\<rparr>", OF tl]
  have "g_bgds ?u = g_bgds s" using st(3) g by (simp add: bgds)
  moreover have "ext2_read_block c ?u = ext2_read_block c s" if c: "data_block s c" for c
    using st(1) st(2) [of c] other [of c] c fr(3) by (cases "c = ?bm") simp_all
  moreover have "s_free_blocks_count (read_sectors 2 2 ?u) = s_free_blocks_count ?sb" if "s_free_blocks_count ?sb \<noteq> 0"
    using that unfolding st(4) by (simp add: super_fields(3)) (simp add: sb' super_fields(3) word_gt_0)
  ultimately show ?thesis using run by blast
qed

text \<open>A volume of one group with 64 blocks of 1 KB; the first 16 are in use.\<close>

definition small_medium :: "nat \<Rightarrow> u8" where
  "small_medium i = (if i = 1024 + 4 then 64 else if i = 1024 + 12 then 48 else if i = 1024 + 20 then 1 else if i = 1024 + 32 then 64
     else if i = 3072 \<or> i = 3073 then 0xFF else 0)"

definition small_group :: ext2_bgd where
  "small_group = \<lparr>bg_block_bitmap = 3, bg_inode_bitmap = 4, bg_inode_table = 5, bg_free_blocks_count = 48,
     bg_free_inodes_count = 8, bg_used_dirs_count = 1, bg_pad = 0, bg_reserved = replicate 12 0\<rparr>"

definition small_volume :: ext2 where
  "small_volume = demo_volume\<lparr>g_dev := Some small_medium, g_block_size := 1024, g_inodes_per_group := 16, g_inode_size := 128,
     g_bg_count := 1, g_bgds := [small_group]\<rparr>"

lemma small_fields: "medium small_volume = small_medium" "g_block_size small_volume = 1024" "g_bg_count small_volume = 1" "g_bgds small_volume = [small_group]"
  by (simp_all add: small_volume_def medium_def)

lemma small_geometry: "geometry small_volume"
  by (simp add: geometry_def small_fields)

lemma small_super: "s_blocks_count (read_sectors 2 2 small_volume) = 64" "s_free_blocks_count (read_sectors 2 2 small_volume) = 48"
  "s_first_data_block (read_sectors 2 2 small_volume) = 1" "s_blocks_per_group (read_sectors 2 2 small_volume) = 64"
proof -
  have "read_sectors 2 2 small_volume ! k = small_medium (1024 + k)" if "k < 1024" for k
    using that by (simp add: read_sectors_def bytes_at_def small_fields)
  then show "s_blocks_count (read_sectors 2 2 small_volume) = 64" "s_free_blocks_count (read_sectors 2 2 small_volume) = 48"
    "s_first_data_block (read_sectors 2 2 small_volume) = 1" "s_blocks_per_group (read_sectors 2 2 small_volume) = 64"
    by (simp_all add: s_blocks_count_def s_free_blocks_count_def s_first_data_block_def s_blocks_per_group_def get32_def small_medium_def)
qed

lemma small_volume_ok: "volume_ok small_volume"
  by (simp add: volume_ok_def small_geometry small_super, simp add: small_fields tables_end_def bgdt_block_def bgdt_blocks_def data_block_def in_reach_def small_group_def)

lemma small_bitmap: "ext2_read_block 3 small_volume = map (\<lambda>i. small_medium (3072 + i)) [0..<1024]"
  using read_block_bytes [OF small_geometry, of 3] by (simp add: in_reach_def small_fields bytes_at_def)

lemma small_used: "used_bit (ext2_read_block 3 small_volume) k \<longleftrightarrow> k < 16" if "k < 64"
proof -
  have "k div 8 < 1024" "k mod 8 < 8" using that by simp_all
  then have "used_bit (ext2_read_block 3 small_volume) k \<longleftrightarrow> bit (if k div 8 < 2 then 0xFF else 0 :: u8) (k mod 8)"
    by (auto simp: used_bit_def small_bitmap small_medium_def)
  moreover have "bit (0xFF :: u8) (k mod 8)"
  proof -
    have m: "(0xFF :: u8) = mask 8" by (simp add: mask_eq_exp_minus_1)
    show ?thesis unfolding m using \<open>k mod 8 < 8\<close> by (simp add: bit_mask_iff)
  qed
  moreover have "k div 8 < 2 \<longleftrightarrow> k < 16" by linarith
  ultimately show ?thesis by simp
qed

lemma small_clear: "find_clear (ext2_read_block 3 small_volume) 0 64 = Inr (Some 16)"
proof -
  have "0 + 64 \<le> 8 * length (ext2_read_block 3 small_volume)" by (simp add: small_bitmap)
  from find_clear_spec [OF this] obtain r where r: "find_clear (ext2_read_block 3 small_volume) 0 64 = Inr r" and spec: "case r of
      None \<Rightarrow> \<forall>k. 0 \<le> k \<and> k < 0 + 64 \<longrightarrow> used_bit (ext2_read_block 3 small_volume) k
    | Some k \<Rightarrow> 0 \<le> k \<and> k < 0 + 64 \<and> \<not> used_bit (ext2_read_block 3 small_volume) k \<and>
        (\<forall>j. 0 \<le> j \<and> j < k \<longrightarrow> used_bit (ext2_read_block 3 small_volume) j)" by blast
  have "\<not> used_bit (ext2_read_block 3 small_volume) 16" by (simp add: small_used)
  then have "r \<noteq> None" using spec by (cases r) auto
  then obtain k where k: "r = Some k" "k < 64" "\<not> k < 16" "\<forall>j. j < k \<longrightarrow> used_bit (ext2_read_block 3 small_volume) j"
    using spec by (auto simp: small_used)
  have "\<not> 16 < k" using k(4) small_used [of 16] by auto
  then show ?thesis using r k by simp
qed

lemma small_volume_alloc: "\<exists>t. ext2_alloc_block (\<lambda>_. True) small_volume = Inr (17, t)"
proof -
  have "[0..<unat (g_bg_count small_volume)] = [0]" by (simp add: small_fields)
  moreover have "bg_free_blocks_count small_group = 48" "bg_block_bitmap small_group = 3" by (simp_all add: small_group_def)
  ultimately show ?thesis
    by (simp add: ext2_alloc_block_def small_fields small_super small_clear super_fields Let_def)
qed

theorem ext2_alloc_block_takes_clear_witness:
  "volume_ok small_volume \<and> (\<exists>t g i. ext2_alloc_block (\<lambda>_. True) small_volume = Inr (17, t) \<and> took g i 17 small_volume t)"
proof -
  obtain t where t: "ext2_alloc_block (\<lambda>_. True) small_volume = Inr (17, t)" using small_volume_alloc by blast
  then obtain g i where "took g i 17 small_volume t"
    using ext2_alloc_block_takes_clear [OF small_volume_ok, of "\<lambda>_. True"] by auto
  then show ?thesis using small_volume_ok t by blast
qed

theorem ext2_alloc_free_restores_witness:
  "\<exists>t u. ext2_alloc_block (\<lambda>_. True) small_volume = Inr (17, t) \<and> ext2_free_block (\<lambda>_. True) 17 t = Inr u \<and>
     g_bgds u = [small_group] \<and> ext2_read_block 3 u = ext2_read_block 3 small_volume"
proof -
  obtain t where t: "ext2_alloc_block (\<lambda>_. True) small_volume = Inr (17, t)" using small_volume_alloc by blast
  have d: "data_block small_volume 3" using small_volume_ok by (simp add: volume_ok_def small_fields small_group_def)
  have "unat (g_bg_count small_volume) * unat (s_blocks_per_group (read_sectors 2 2 small_volume)) \<le> 2 ^ 32"
    by (simp add: small_super small_fields)
  from ext2_alloc_free_restores [where room = "\<lambda>_. True", OF small_volume_ok _ this t] show ?thesis
    using t d by (auto simp: small_fields)
qed

end
