(* ===== verification/Keyboard.thy ===== *)
theory Keyboard
  imports Interfaces "HOL-Library.Sublist"
begin

text \<open>
  The keyboard driver, \<open>drivers/keyboard.c\<close>: scancodes become characters by the state of the
  modifier keys and wait in a ring for the reader.
\<close>

section \<open>The driver\<close>

text \<open>The scancodes and the ring; a character is its byte.\<close>

definition KB_BUFFER_SIZE :: u32 where "KB_BUFFER_SIZE = 256"

definition KEY_PGUP :: u8 where "KEY_PGUP = 0x01"
definition KEY_PGDN :: u8 where "KEY_PGDN = 0x02"
definition KEY_UP :: u8 where "KEY_UP = 0x10"
definition KEY_DOWN :: u8 where "KEY_DOWN = 0x11"
definition KEY_LEFT :: u8 where "KEY_LEFT = 0x12"
definition KEY_RIGHT :: u8 where "KEY_RIGHT = 0x13"
definition KEY_HOME :: u8 where "KEY_HOME = 0x14"
definition KEY_END :: u8 where "KEY_END = 0x15"
definition KEY_DEL :: u8 where "KEY_DEL = 0x16"
definition KEY_ALT_F4 :: u8 where "KEY_ALT_F4 = 0x17"

lemmas key_defs = KEY_PGUP_def KEY_PGDN_def KEY_UP_def KEY_DOWN_def KEY_LEFT_def KEY_RIGHT_def KEY_HOME_def
  KEY_END_def KEY_DEL_def KEY_ALT_F4_def

definition scancode_unshifted :: "u8 list" where
  "scancode_unshifted =
    [0, 27, 49, 50, 51, 52, 53, 54, 55, 56, 57, 48, 45, 61, 8, 32,
     113, 119, 101, 114, 116, 121, 117, 105, 111, 112, 91, 93, 10, 0, 97, 115,
     100, 102, 103, 104, 106, 107, 108, 59, 39, 96, 0, 92, 122, 120, 99, 118,
     98, 110, 109, 44, 46, 47, 0, 42, 0, 32, 0, 0, 0, 0, 0, 0,
     0, 0, 0, 0, 0, 0, 0, 55, 56, 57, 45, 52, 53, 54, 43, 49,
     50, 51, 48, 46, 0, 0, 0, 0]"

definition scancode_shifted :: "u8 list" where
  "scancode_shifted =
    [0, 27, 33, 64, 35, 36, 37, 94, 38, 42, 40, 41, 95, 43, 8, 32,
     81, 87, 69, 82, 84, 89, 85, 73, 79, 80, 123, 125, 10, 0, 65, 83,
     68, 70, 71, 72, 74, 75, 76, 58, 34, 126, 0, 124, 90, 88, 67, 86,
     66, 78, 77, 60, 62, 63, 0, 42, 0, 32, 0, 0, 0, 0, 0, 0,
     0, 0, 0, 0, 0, 0, 0, 55, 56, 57, 45, 52, 53, 54, 43, 49,
     50, 51, 48, 46, 0, 0, 0, 0]"

record kb_state =
  kb_data :: "u8 list"
  kb_head :: u32
  kb_tail :: u32
  kb_shift :: bool
  kb_ctrl :: bool
  kb_alt :: bool
  kb_caps :: bool
  kb_extended :: bool
  kbd_owned :: int

definition init_keyboard :: "kb_state \<Rightarrow> kb_state" where
  "init_keyboard k = k\<lparr>kb_head := 0, kb_tail := 0, kb_shift := False, kb_ctrl := False, kb_alt := False,
     kb_caps := False, kb_extended := False\<rparr>"

definition kb_buf_put :: "u8 \<Rightarrow> kb_state \<Rightarrow> kb_state" where
  "kb_buf_put c k =
     (let nxt = (kb_head k + 1) mod KB_BUFFER_SIZE in
      if nxt = kb_tail k then k
      else k\<lparr>kb_data := (kb_data k)[unat (kb_head k) := c], kb_head := nxt\<rparr>)"

text \<open>What follows the prefix \<open>0xE0\<close>.\<close>

definition extended_key :: "u8 \<Rightarrow> kb_state \<Rightarrow> kb_state" where
  "extended_key scancode k =
     (if scancode = 0x49 then kb_buf_put KEY_PGUP k
      else if scancode = 0x51 then kb_buf_put KEY_PGDN k
      else if scancode = 0x48 then kb_buf_put KEY_UP k
      else if scancode = 0x50 then kb_buf_put KEY_DOWN k
      else if scancode = 0x4B then kb_buf_put KEY_LEFT k
      else if scancode = 0x4D then kb_buf_put KEY_RIGHT k
      else if scancode = 0x47 then kb_buf_put KEY_HOME k
      else if scancode = 0x4F then kb_buf_put KEY_END k
      else if scancode = 0x53 then kb_buf_put KEY_DEL k
      else if scancode = 0x1D then k\<lparr>kb_ctrl := True\<rparr>
      else if scancode = 0x9D then k\<lparr>kb_ctrl := False\<rparr>
      else k)"

text \<open>A key that has a character; 97 to 122 are the small letters, 65 to 90 the capitals.\<close>

definition plain_key :: "u8 \<Rightarrow> kb_state \<Rightarrow> kb_state" where
  "plain_key scancode k =
     (let c = (if kb_shift k then scancode_shifted else scancode_unshifted) ! unat scancode in
      if c = 0 then k
      else if kb_ctrl k \<and> 97 \<le> c \<and> c \<le> 122 then kb_buf_put (c - 97 + 1) k
      else if kb_ctrl k \<and> 65 \<le> c \<and> c \<le> 90 then kb_buf_put (c - 65 + 1) k
      else if kb_caps k \<and> 97 \<le> c \<and> c \<le> 122 then kb_buf_put (c - 32) k
      else if kb_caps k \<and> 65 \<le> c \<and> c \<le> 90 then kb_buf_put (c + 32) k
      else kb_buf_put c k)"

definition keyboard_irq_handler :: "u8 \<Rightarrow> kb_state \<Rightarrow> kb_state" where
  "keyboard_irq_handler scancode k =
     (if scancode = 0xE0 then k\<lparr>kb_extended := True\<rparr>
      else if kb_extended k then extended_key scancode (k\<lparr>kb_extended := False\<rparr>)
      else if scancode = 0x2A \<or> scancode = 0x36 then k\<lparr>kb_shift := True\<rparr>
      else if scancode = 0xAA \<or> scancode = 0xB6 then k\<lparr>kb_shift := False\<rparr>
      else if scancode = 0x1D then k\<lparr>kb_ctrl := True\<rparr>
      else if scancode = 0x9D then k\<lparr>kb_ctrl := False\<rparr>
      else if scancode = 0x38 then k\<lparr>kb_alt := True\<rparr>
      else if scancode = 0xB8 then k\<lparr>kb_alt := False\<rparr>
      else if kb_alt k \<and> scancode = 0x3E then kb_buf_put KEY_ALT_F4 k
      else if scancode = 0x3A then k\<lparr>kb_caps := \<not> kb_caps k\<rparr>
      else if scancode AND 0x80 \<noteq> 0 then k
      else if scancode \<ge> 88 then k
      else plain_key scancode k)"

text \<open>The byte at the tail.\<close>

definition kb_get :: "kb_state \<Rightarrow> u8 \<times> kb_state" where
  "kb_get k = (kb_data k ! unat (kb_tail k), k\<lparr>kb_tail := (kb_tail k + 1) mod KB_BUFFER_SIZE\<rparr>)"

fun keyboard_read :: "nat \<Rightarrow> kb_state \<Rightarrow> u8 list \<times> kb_state" where
  "keyboard_read 0 k = ([], k)"
| "keyboard_read (Suc len) k =
     (if kb_tail k = kb_head k then ([], k)
      else let (b, k) = kb_get k; (bs, k) = keyboard_read len k in (b # bs, k))"

definition kbd_set_owner :: "int \<Rightarrow> kb_state \<Rightarrow> kb_state" where
  "kbd_set_owner owned k = k\<lparr>kbd_owned := owned\<rparr>"

definition kbd_is_owned :: "kb_state \<Rightarrow> int" where
  "kbd_is_owned k = kbd_owned k"

section \<open>The ring as a queue\<close>

definition kb_ok :: "kb_state \<Rightarrow> bool" where
  "kb_ok k \<longleftrightarrow> length (kb_data k) = 256 \<and> unat (kb_head k) < 256 \<and> unat (kb_tail k) < 256"

definition kb_count :: "kb_state \<Rightarrow> nat" where
  "kb_count k = (unat (kb_head k) + 256 - unat (kb_tail k)) mod 256"

definition kb_items :: "kb_state \<Rightarrow> u8 list" where
  "kb_items k = map (\<lambda>i. kb_data k ! ((unat (kb_tail k) + i) mod 256)) [0..<kb_count k]"

lemma ring_next: "unat ((w + 1) mod KB_BUFFER_SIZE) = (unat w + 1) mod 256" if "unat w < 256"
  using that by (simp add: KB_BUFFER_SIZE_def unat_mod unat_word_ariths)

lemma length_kb_items: "length (kb_items k) = kb_count k"
  by (simp add: kb_items_def)

lemma kb_count_lt: "kb_count k < 256"
  by (simp add: kb_count_def)

text \<open>Positions modulo 256.\<close>

lemma count_put: "(h + 256 - t) mod 256 < 255 \<Longrightarrow> h < 256 \<Longrightarrow> t < 256 \<Longrightarrow> ((h + 1) mod 256 + 256 - t) mod 256 = Suc ((h + 256 - t) mod 256)" for h t :: nat
  by (cases "h < t") (auto simp: mod_if split: if_splits)

lemma count_get: "(h + 256 - t) mod 256 = Suc m \<Longrightarrow> h < 256 \<Longrightarrow> t < 256 \<Longrightarrow> (h + 256 - (t + 1) mod 256) mod 256 = m" for h t :: nat
  by (cases "h < t") (auto simp: mod_if split: if_splits)

lemma ring_inj: "i < k \<Longrightarrow> k < 256 \<Longrightarrow> (t + i) mod 256 \<noteq> (t + k) mod 256" for i k t :: nat
proof
  assume "i < k" "k < 256" "(t + i) mod 256 = (t + k) mod 256"
  then have "256 dvd (t + k) - (t + i)" by (intro mod_eq_dvd_iff_nat [THEN iffD1]) auto
  then show False using \<open>i < k\<close> \<open>k < 256\<close> by (auto dest: dvd_imp_le)
qed

lemma mod_step: "h < 256 \<Longrightarrow> t < 256 \<Longrightarrow> (h + 1) mod 256 = t \<longleftrightarrow> (h + 256 - t) mod 256 = 255" for h t :: nat
  by (cases "h < t") (auto simp: mod_if)

lemma kb_full: "kb_ok k \<Longrightarrow> (kb_head k + 1) mod KB_BUFFER_SIZE = kb_tail k \<longleftrightarrow> kb_count k = 255"
  using mod_step [of "unat (kb_head k)" "unat (kb_tail k)"]
  by (simp add: word_unat_eq_iff ring_next kb_ok_def kb_count_def)

lemma kb_empty: "kb_ok k \<Longrightarrow> kb_tail k = kb_head k \<longleftrightarrow> kb_items k = []"
proof -
  assume ok: "kb_ok k"
  then have "kb_count k = 0 \<longleftrightarrow> unat (kb_tail k) = unat (kb_head k)"
    by (auto simp: kb_count_def kb_ok_def mod_if split: if_splits)
  then show ?thesis by (simp add: word_unat_eq_iff flip: length_0_conv length_kb_items)
qed

lemma put_items:
  assumes ok: "kb_ok k" and room: "length (kb_items k) < 255"
  shows "kb_ok (kb_buf_put c k)" and "kb_items (kb_buf_put c k) = kb_items k @ [c]"
proof -
  let ?h = "unat (kb_head k)" and ?t = "unat (kb_tail k)"
  have b: "?h < 256" "?t < 256" "length (kb_data k) = 256" using ok by (simp_all add: kb_ok_def)
  have n: "kb_count k < 255" using room by (simp add: length_kb_items)
  then have put: "kb_buf_put c k = k\<lparr>kb_data := (kb_data k)[?h := c], kb_head := (kb_head k + 1) mod KB_BUFFER_SIZE\<rparr>"
    using kb_full [OF ok] by (simp add: kb_buf_put_def)
  show "kb_ok (kb_buf_put c k)" using ok b by (simp add: put kb_ok_def ring_next)
  have cnt: "kb_count (kb_buf_put c k) = Suc (kb_count k)"
    using n b count_put [of ?h ?t] by (simp add: put kb_count_def ring_next)
  have at: "(?t + kb_count k) mod 256 = ?h" using b by (auto simp: kb_count_def mod_if)
  have old: "(?t + i) mod 256 \<noteq> ?h" if "i < kb_count k" for i
    using ring_inj [OF that kb_count_lt, of ?t] at by simp
  have same: "(kb_data k)[?h := c] ! ((?t + i) mod 256) = kb_data k ! ((?t + i) mod 256)" if "i < kb_count k" for i
    by (rule nth_list_update_neq) (use old [OF that] in simp)
  have "(kb_data k)[?h := c] ! ((?t + kb_count k) mod 256) = c" using at b by simp
  then show "kb_items (kb_buf_put c k) = kb_items k @ [c]" using same by (simp add: kb_items_def cnt) (simp add: put)
qed

lemma get_items:
  assumes ok: "kb_ok k" and ne: "kb_items k \<noteq> []"
  shows "kb_ok (snd (kb_get k))" and "kb_items k = fst (kb_get k) # kb_items (snd (kb_get k))"
proof -
  let ?h = "unat (kb_head k)" and ?t = "unat (kb_tail k)"
  have b: "?h < 256" "?t < 256" "length (kb_data k) = 256" using ok by (simp_all add: kb_ok_def)
  have n: "0 < kb_count k" using ne by (auto simp: kb_items_def)
  have t: "unat (kb_tail (snd (kb_get k))) = (?t + 1) mod 256" using b by (simp add: kb_get_def ring_next)
  show "kb_ok (snd (kb_get k))" using ok b by (simp add: kb_get_def kb_ok_def ring_next)
  obtain m where m: "kb_count k = Suc m" using n gr0_implies_Suc by blast
  have cnt: "kb_count (snd (kb_get k)) = m"
    using m b count_get [of ?h ?t m] by (simp add: kb_count_def t) (simp add: kb_get_def)
  have "[0..<Suc m] = 0 # map Suc [0..<m]" by (simp only: map_Suc_upt) (simp add: upt_conv_Cons del: upt_Suc)
  then have "kb_items k = kb_data k ! (?t mod 256) # map (\<lambda>i. kb_data k ! ((?t + Suc i) mod 256)) [0..<m]"
    by (simp only: kb_items_def m list.map map_map o_def add_0_right)
  moreover have "((?t + 1) mod 256 + i) mod 256 = (?t + Suc i) mod 256" for i by (simp add: mod_simps)
  moreover have "fst (kb_get k) = kb_data k ! (?t mod 256)" "kb_data (snd (kb_get k)) = kb_data k" using b by (simp_all add: kb_get_def)
  ultimately show "kb_items k = fst (kb_get k) # kb_items (snd (kb_get k))"
    by (simp add: kb_items_def [of "snd (kb_get k)"] cnt t)
qed

interpretation kbring: bounded_fifo kb_buf_put kb_get kb_items 255 kb_ok
proof
  fix k
  assume ok: "kb_ok k" and ne: "kb_items k \<noteq> []"
  note get = get_items [OF this]
  show "kb_ok (snd (kb_get k))" by (rule get)
  show "fst (kb_get k) = hd (kb_items k)" by (subst get(2)) simp
  show "kb_items (snd (kb_get k)) = tl (kb_items k)" by (subst get(2)) simp
next
  show "length (kb_items k) \<le> 255" if "kb_ok k" for k using kb_count_lt [of k] by (simp add: length_kb_items)
qed (simp_all add: put_items)

section \<open>Keys in order\<close>

text \<open>A read takes from the ring what it asks for, as far as there is.\<close>

lemma keyboard_read_items:
  "kb_ok k \<Longrightarrow> keyboard_read n k = (take n (kb_items k), snd (kbring.deq_n (min n (length (kb_items k))) k))"
proof (induction n arbitrary: k)
  case (Suc n)
  show ?case
  proof (cases "kb_items k = []")
    case True
    then show ?thesis using kb_empty [OF Suc.prems] by simp
  next
    case False
    note get = get_items [OF Suc.prems False]
    have IH: "keyboard_read n (snd (kb_get k)) = (take n (kb_items (snd (kb_get k))),
        snd (kbring.deq_n (min n (length (kb_items (snd (kb_get k))))) (snd (kb_get k))))" by (rule Suc.IH [OF get(1)])
    have l: "min (Suc n) (length (kb_items k)) = Suc (min n (length (kb_items (snd (kb_get k)))))" by (subst get(2)) simp
    have t: "take (Suc n) (kb_items k) = fst (kb_get k) # take n (kb_items (snd (kb_get k)))" by (subst get(2)) simp
    show ?thesis using False kb_empty [OF Suc.prems] IH by (simp add: l t split_beta)
  qed
qed simp

text \<open>The modifiers, and what the handler puts into an empty ring.\<close>

definition kb_mods :: "kb_state \<Rightarrow> bool \<times> bool \<times> bool \<times> bool \<times> bool" where
  "kb_mods k = (kb_shift k, kb_ctrl k, kb_alt k, kb_caps k, kb_extended k)"

definition idle_kb :: kb_state where
  "idle_kb = \<lparr>kb_data = replicate 256 0, kb_head = 0, kb_tail = 0, kb_shift = False, kb_ctrl = False, kb_alt = False,
     kb_caps = False, kb_extended = False, kbd_owned = 0\<rparr>"

definition with_mods :: "bool \<times> bool \<times> bool \<times> bool \<times> bool \<Rightarrow> kb_state" where
  "with_mods m = (case m of (s, c, a, l, e) \<Rightarrow>
     idle_kb\<lparr>kb_shift := s, kb_ctrl := c, kb_alt := a, kb_caps := l, kb_extended := e\<rparr>)"

definition key_chars :: "u8 \<Rightarrow> bool \<times> bool \<times> bool \<times> bool \<times> bool \<Rightarrow> u8 list" where
  "key_chars scancode m = kb_items (keyboard_irq_handler scancode (with_mods m))"

definition key_mods :: "u8 \<Rightarrow> bool \<times> bool \<times> bool \<times> bool \<times> bool \<Rightarrow> bool \<times> bool \<times> bool \<times> bool \<times> bool" where
  "key_mods scancode m = kb_mods (keyboard_irq_handler scancode (with_mods m))"

lemma kb_mods_put [simp]: "kb_mods (kb_buf_put c k) = kb_mods k"
  by (simp add: kb_buf_put_def kb_mods_def Let_def)

lemma kb_mods_get: "kb_mods (snd (kb_get k)) = kb_mods k"
  by (simp add: kb_get_def kb_mods_def)

lemma deq_mods: "kb_mods (snd (kbring.deq_n n k)) = kb_mods k"
  by (induction n arbitrary: k) (simp_all add: split_beta kb_mods_get)

lemma ring_mods [simp]:
  "kb_items (k\<lparr>kb_shift := b\<rparr>) = kb_items k" "kb_items (k\<lparr>kb_ctrl := b\<rparr>) = kb_items k" "kb_items (k\<lparr>kb_alt := b\<rparr>) = kb_items k"
  "kb_items (k\<lparr>kb_caps := b\<rparr>) = kb_items k" "kb_items (k\<lparr>kb_extended := b\<rparr>) = kb_items k"
  "kb_ok (k\<lparr>kb_shift := b\<rparr>) = kb_ok k" "kb_ok (k\<lparr>kb_ctrl := b\<rparr>) = kb_ok k" "kb_ok (k\<lparr>kb_alt := b\<rparr>) = kb_ok k"
  "kb_ok (k\<lparr>kb_caps := b\<rparr>) = kb_ok k" "kb_ok (k\<lparr>kb_extended := b\<rparr>) = kb_ok k"
  by (simp_all add: kb_items_def kb_count_def kb_ok_def)

lemma kb_items_put:
  assumes "kb_ok k"
  shows "kb_items (kb_buf_put c k) = (if length (kb_items k) < 255 then kb_items k @ [c] else kb_items k)" and "kb_ok (kb_buf_put c k)"
proof -
  have "kb_buf_put c k = k" if "\<not> length (kb_items k) < 255"
  proof -
    have "kb_count k = 255" using that kb_count_lt [of k] by (simp add: length_kb_items)
    then show ?thesis using kb_full [OF assms] by (simp add: kb_buf_put_def)
  qed
  then show "kb_items (kb_buf_put c k) = (if length (kb_items k) < 255 then kb_items k @ [c] else kb_items k)" "kb_ok (kb_buf_put c k)"
    using put_items [OF assms, of c] assms by (cases "length (kb_items k) < 255", simp_all)+
qed

lemma idle_ring: "kb_ok (with_mods m)" "kb_items (with_mods m) = []"
  by (simp_all add: with_mods_def split: prod.splits) (simp_all add: idle_kb_def kb_ok_def kb_items_def kb_count_def)

text \<open>
  Two states with the same modifiers take the same way through the handler: \<open>twins\<close> before
  it has put a character, \<open>same_way\<close> at the end.
\<close>

definition twins :: "kb_state \<Rightarrow> kb_state \<Rightarrow> kb_state \<Rightarrow> bool" where
  "twins k k1 k2 \<longleftrightarrow> kb_ok k1 \<and> kb_items k1 = [] \<and> kb_mods k1 = kb_mods k2 \<and> kb_items k2 = kb_items k \<and> kb_ok k2"

definition same_way :: "kb_state \<Rightarrow> kb_state \<Rightarrow> kb_state \<Rightarrow> bool" where
  "same_way k k1 k2 \<longleftrightarrow> length (kb_items k1) \<le> 1 \<and> kb_mods k1 = kb_mods k2 \<and> kb_ok k2 \<and>
     kb_items k2 = (if length (kb_items k) < 255 then kb_items k @ kb_items k1 else kb_items k)"

lemma same_way_if: "(c \<Longrightarrow> same_way k a a') \<Longrightarrow> (\<not> c \<Longrightarrow> same_way k b b') \<Longrightarrow> same_way k (if c then a else b) (if c then a' else b')"
  by simp

lemma same_way_twins: "twins k k1 k2 \<Longrightarrow> same_way k k1 k2"
  by (simp add: twins_def same_way_def)

lemma same_way_put: "twins k k1 k2 \<Longrightarrow> same_way k (kb_buf_put c k1) (kb_buf_put c k2)"
  by (simp add: twins_def same_way_def kb_items_put)

lemma twins_mods:
  assumes "twins k k1 k2"
  shows "twins k (k1\<lparr>kb_shift := b\<rparr>) (k2\<lparr>kb_shift := b\<rparr>)" "twins k (k1\<lparr>kb_ctrl := b\<rparr>) (k2\<lparr>kb_ctrl := b\<rparr>)"
    "twins k (k1\<lparr>kb_alt := b\<rparr>) (k2\<lparr>kb_alt := b\<rparr>)" "twins k (k1\<lparr>kb_caps := b\<rparr>) (k2\<lparr>kb_caps := b\<rparr>)"
    "twins k (k1\<lparr>kb_extended := b\<rparr>) (k2\<lparr>kb_extended := b\<rparr>)"
  using assms by (simp_all add: twins_def kb_mods_def)

lemma handler_same_way:
  assumes "twins k k1 k2"
  shows "same_way k (keyboard_irq_handler scancode k1) (keyboard_irq_handler scancode k2)"
proof -
  have same: "kb_shift k1 = kb_shift k2" "kb_ctrl k1 = kb_ctrl k2" "kb_alt k1 = kb_alt k2" "kb_caps k1 = kb_caps k2"
    "kb_extended k1 = kb_extended k2" using assms by (simp_all add: twins_def kb_mods_def)
  show ?thesis
    unfolding keyboard_irq_handler_def extended_key_def plain_key_def Let_def same
    by (intro same_way_if same_way_put same_way_twins twins_mods assms)
qed

lemma handler_way:
  assumes "kb_ok k"
  shows "kb_mods (keyboard_irq_handler scancode k) = key_mods scancode (kb_mods k)" and "kb_ok (keyboard_irq_handler scancode k)"
    and "kb_items (keyboard_irq_handler scancode k) = (if length (kb_items k) < 255 then kb_items k @ key_chars scancode (kb_mods k) else kb_items k)"
    and "length (key_chars scancode (kb_mods k)) \<le> 1"
proof -
  have "kb_mods (with_mods (kb_mods k)) = kb_mods k" by (simp add: with_mods_def kb_mods_def)
  then have "twins k (with_mods (kb_mods k)) k" using assms idle_ring by (simp add: twins_def)
  from handler_same_way [OF this, of scancode]
  show "kb_mods (keyboard_irq_handler scancode k) = key_mods scancode (kb_mods k)" "kb_ok (keyboard_irq_handler scancode k)"
    "kb_items (keyboard_irq_handler scancode k) = (if length (kb_items k) < 255 then kb_items k @ key_chars scancode (kb_mods k) else kb_items k)"
    "length (key_chars scancode (kb_mods k)) \<le> 1"
    by (simp_all add: same_way_def key_mods_def key_chars_def)
qed

text \<open>The interrupts and the reads as they happen, and what the keys type.\<close>

datatype kb_event = Scancode u8 | Read nat

fun kb_run :: "kb_event list \<Rightarrow> kb_state \<Rightarrow> u8 list \<times> kb_state" where
  "kb_run [] k = ([], k)"
| "kb_run (Scancode c # es) k = kb_run es (keyboard_irq_handler c k)"
| "kb_run (Read n # es) k = (let (bs, k) = keyboard_read n k; (cs, k) = kb_run es k in (bs @ cs, k))"

fun typed :: "kb_event list \<Rightarrow> bool \<times> bool \<times> bool \<times> bool \<times> bool \<Rightarrow> u8 list" where
  "typed [] m = []"
| "typed (Scancode c # es) m = key_chars c m @ typed es (key_mods c m)"
| "typed (Read n # es) m = typed es m"

lemma read_way:
  assumes "kb_ok k"
  shows "kb_ok (snd (keyboard_read n k))" and "kb_mods (snd (keyboard_read n k)) = kb_mods k"
    and "fst (keyboard_read n k) @ kb_items (snd (keyboard_read n k)) = kb_items k"
  using kbring.deq_n_items [OF assms, of "min n (length (kb_items k))"]
  by (simp_all add: keyboard_read_items [OF assms] deq_mods) (simp add: min_def)

text \<open>
  C37. Along every interleaving of keyboard interrupts and reads, what the readers got and what
  is still in the ring are, in order, what was in the ring at the beginning and characters that
  the keys typed; none is doubled or reordered, and none is lost if all of them fit
  into the ring. The ring never holds more than 255 characters.
\<close>

theorem kb_in_order:
  assumes "kb_ok k"
  shows "\<exists>acc. fst (kb_run es k) @ kb_items (snd (kb_run es k)) = kb_items k @ acc \<and> subseq acc (typed es (kb_mods k)) \<and>
    (length (kb_items k) + length (typed es (kb_mods k)) \<le> 255 \<longrightarrow> acc = typed es (kb_mods k)) \<and>
    kb_ok (snd (kb_run es k)) \<and> length (kb_items (snd (kb_run es k))) \<le> 255"
  using assms
proof (induction es k rule: kb_run.induct)
  case (1 k)
  then show ?case using kbring.items_bound by auto
next
  case (2 c es k)
  let ?k = "keyboard_irq_handler c k"
  let ?cs = "key_chars c (kb_mods k)"
  note way = handler_way [OF 2(2), of c]
  obtain acc where acc: "fst (kb_run es ?k) @ kb_items (snd (kb_run es ?k)) = kb_items ?k @ acc"
    "subseq acc (typed es (kb_mods ?k))" "length (kb_items ?k) + length (typed es (kb_mods ?k)) \<le> 255 \<longrightarrow> acc = typed es (kb_mods ?k)"
    "kb_ok (snd (kb_run es ?k))" "length (kb_items (snd (kb_run es ?k))) \<le> 255"
    using 2(1) [OF way(2)] by blast
  show ?case
  proof (cases "length (kb_items k) < 255")
    case True
    then show ?thesis using acc by (intro exI [of _ "?cs @ acc"]) (auto simp: way(1,3) intro: list_emb_append_mono)
  next
    case False
    then have it: "kb_items ?k = kb_items k" using way(3) by simp
    have "subseq acc (?cs @ typed es (kb_mods ?k))" using acc(2) by (rule list_emb_append2)
    moreover have "acc = ?cs @ typed es (kb_mods ?k)" if "length (kb_items k) + length (?cs @ typed es (kb_mods ?k)) \<le> 255"
    proof -
      have "length ?cs = 0" "length (typed es (kb_mods ?k)) = 0" using that False unfolding length_append by linarith+
      then show ?thesis using acc(3) that by (simp add: it)
    qed
    ultimately show ?thesis using acc(1,4,5) by (intro exI [of _ acc]) (simp add: it way(1))
  qed
next
  case (3 n es k)
  note read = read_way [OF 3(2), of n]
  let ?k = "snd (keyboard_read n k)"
  obtain acc where acc: "fst (kb_run es ?k) @ kb_items (snd (kb_run es ?k)) = kb_items ?k @ acc"
    "subseq acc (typed es (kb_mods k))" "length (kb_items ?k) + length (typed es (kb_mods k)) \<le> 255 \<longrightarrow> acc = typed es (kb_mods k)"
    "kb_ok (snd (kb_run es ?k))" "length (kb_items (snd (kb_run es ?k))) \<le> 255"
    using 3(1) [OF _ refl, of "fst (keyboard_read n k)" ?k] read(1,2) by auto
  have "length (kb_items ?k) \<le> length (kb_items k)" by (simp flip: read(3))
  then show ?case using acc by (intro exI [of _ acc]) (simp add: split_beta, simp flip: read(3))
qed

theorem kb_in_order_witness:
  "kb_ok idle_kb \<and> kb_run [Scancode 0x2A, Scancode 0x23, Scancode 0xAA, Scancode 0x17, Read 1, Scancode 0x1C] idle_kb =
     ([72], snd (kb_run [Scancode 0x2A, Scancode 0x23, Scancode 0xAA, Scancode 0x17, Read 1, Scancode 0x1C] idle_kb)) \<and>
   kb_items (snd (kb_run [Scancode 0x2A, Scancode 0x23, Scancode 0xAA, Scancode 0x17, Read 1, Scancode 0x1C] idle_kb)) = [105, 10]"
proof -
  let ?es = "[Scancode 0x2A, Scancode 0x23, Scancode 0xAA, Scancode 0x17, Read 1, Scancode 0x1C]"
  have ok: "kb_ok idle_kb" "kb_items idle_kb = []" by (simp_all add: idle_kb_def kb_ok_def kb_items_def kb_count_def)
  have t: "typed ?es (kb_mods idle_kb) = [72, 105, 10]" by code_simp
  define r where "r = kb_run ?es idle_kb"
  have f: "fst r = [72]" unfolding r_def by code_simp
  obtain acc where "fst r @ kb_items (snd r) = acc" "acc = [72, 105, 10]"
    using kb_in_order [OF ok(1), of ?es, folded r_def, unfolded t ok(2)] by auto
  then have "kb_items (snd r) = [105, 10]" using f by simp
  then show ?thesis using ok(1) f unfolding r_def [symmetric] by (metis prod.collapse)
qed

section \<open>Letters\<close>

text \<open>The keys of the letters, with the small letters.\<close>

definition letter_keys :: "(u8 \<times> u8) list" where
  "letter_keys = zip [0x1E, 0x30, 0x2E, 0x20, 0x12, 0x21, 0x22, 0x23, 0x17, 0x24, 0x25, 0x26, 0x32, 0x31, 0x18, 0x19, 0x10, 0x13,
     0x1F, 0x14, 0x16, 0x2F, 0x11, 0x2D, 0x15, 0x2C] [97, 98, 99, 100, 101, 102, 103, 104, 105, 106, 107, 108, 109, 110, 111, 112, 113,
     114, 115, 116, 117, 118, 119, 120, 121, 122]"

lemma plain_letter:
  "\<forall>(scancode, c)\<in>set letter_keys. scancode < 88 \<and> scancode AND 0x80 = 0 \<and>
     scancode \<notin> {0xE0, 0x2A, 0x36, 0xAA, 0xB6, 0x1D, 0x9D, 0x38, 0xB8, 0x3E, 0x3A} \<and>
     scancode_unshifted ! unat scancode = c \<and> scancode_shifted ! unat scancode = c - 32 \<and> 97 \<le> c \<and> c \<le> 122 \<and>
     65 \<le> c - 32 \<and> c - 32 \<le> 90 \<and> c - 32 < 97"
  by code_simp

text \<open>
  A letter key types its control character while a control key is held, whatever shift and
  caps lock say; otherwise the capital if exactly one of shift and caps lock is on, and the
  small letter if both or neither are.
\<close>

theorem kb_letters:
  assumes "kb_ok k" and "\<not> kb_extended k" and "length (kb_items k) < 255" and "(scancode, c) \<in> set letter_keys"
  shows "kb_items (keyboard_irq_handler scancode k) =
    kb_items k @ [if kb_ctrl k then c - 96 else if kb_shift k = kb_caps k then c else c - 32]"
proof -
  have p: "scancode < 88" "scancode AND 0x80 = 0"
    "scancode \<notin> {0xE0, 0x2A, 0x36, 0xAA, 0xB6, 0x1D, 0x9D, 0x38, 0xB8, 0x3E, 0x3A}"
    "scancode_unshifted ! unat scancode = c" "scancode_shifted ! unat scancode = c - 32" "97 \<le> c" "c \<le> 122"
    "65 \<le> c - 32" "c - 32 \<le> 90" "c - 32 < 97"
    using plain_letter assms(4) by fast+
  have nz: "c \<noteq> 0" "c - 32 \<noteq> 0" using p(6,8) by auto
  have nc: "\<not> 97 \<le> c - 32" using p(10) by simp
  have "keyboard_irq_handler scancode k = plain_key scancode k"
    using p(1-3) assms(2) by (simp add: keyboard_irq_handler_def)
  moreover have "plain_key scancode k = kb_buf_put (if kb_ctrl k then c - 96 else if kb_shift k = kb_caps k then c else c - 32) k"
    using nz nc p(6-9) by (simp add: plain_key_def p(4,5) Let_def)
  ultimately show ?thesis using put_items(2) [OF assms(1,3)] by simp
qed

theorem kb_letters_witness:
  "kb_items (keyboard_irq_handler 0x1E (idle_kb\<lparr>kb_shift := True, kb_caps := True\<rparr>)) = [97] \<and>
   kb_items (keyboard_irq_handler 0x1E (idle_kb\<lparr>kb_ctrl := True\<rparr>)) = [KEY_PGUP]"
proof -
  have l: "(0x1E, 97) \<in> set letter_keys" by code_simp
  have i: "kb_ok idle_kb" "kb_items idle_kb = []" "\<not> kb_extended idle_kb" "\<not> kb_ctrl idle_kb"
    by (simp_all add: idle_kb_def kb_ok_def kb_items_def kb_count_def)
  show ?thesis
    using kb_letters [of "idle_kb\<lparr>kb_shift := True, kb_caps := True\<rparr>", OF _ _ _ l]
      kb_letters [of "idle_kb\<lparr>kb_ctrl := True\<rparr>", OF _ _ _ l] i by (simp add: KEY_PGUP_def)
qed

text \<open>
  The bytes that stand for the special keys are those of control characters: the reader of
  the ring cannot tell Page Up, Page Down, Up, Down, Left, Right, Home, End, Delete and Alt+F4
  from Control with A, B, P, Q, R, S, T, U, V and W.
\<close>

theorem kb_sentinels_ambiguous:
  "map (\<lambda>(e, s). key_chars e (False, False, e = 0x3E, False, e \<noteq> 0x3E))
     [(0x49, 0x1E), (0x51, 0x30), (0x48, 0x19), (0x50, 0x10), (0x4B, 0x13), (0x4D, 0x1F), (0x47, 0x14), (0x4F, 0x16), (0x53, 0x2F), (0x3E, 0x11)] =
   map (\<lambda>(e, s). key_chars s (False, True, False, False, False))
     [(0x49, 0x1E), (0x51, 0x30), (0x48, 0x19), (0x50, 0x10), (0x4B, 0x13), (0x4D, 0x1F), (0x47, 0x14), (0x4F, 0x16), (0x53, 0x2F), (0x3E, 0x11 :: u8)]"
  by code_simp

end
