(* ===== verification/Termemu.thy ===== *)
theory Termemu
  imports Prelude "HOL-Library.Signed_Division"
begin

text \<open>
  The terminal emulator of the user programs, \<open>userland/libc/termemu.c\<close>: a ring of lines, the
  cursor in the bottom ones, the flags of the rows to be drawn, and the parser of escape
  sequences.
\<close>

section \<open>The state\<close>

text \<open>
  A \<open>char\<close> is a byte read as a signed number. The integers are those of C: the dimensions
  are small, and where a parameter from the input is added the result is taken to 32 bits.
\<close>

definition wrap32 :: "int \<Rightarrow> int" where
  "wrap32 x = sint (word_of_int x :: 32 word)"

definition TERMEMU_MAX_COLS :: int where "TERMEMU_MAX_COLS = 256"
definition TERMEMU_MAX_ROWS :: int where "TERMEMU_MAX_ROWS = 128"
definition TERMEMU_MAX_SB :: int where "TERMEMU_MAX_SB = 1024"

record termemu =
  te_sb :: "u8 list"
  te_sb_head :: int
  te_sb_count :: int
  te_cols :: int
  te_rows :: int
  te_sb_lines :: int
  te_cur_col :: int
  te_cur_row :: int
  te_scroll_offset :: int
  te_dirty :: "bool list"
  te_esc :: nat
  te_csi_param :: int

text \<open>Accesses to the two arrays.\<close>

definition put_cell :: "int \<Rightarrow> u8 \<Rightarrow> termemu \<Rightarrow> fault + termemu" where
  "put_cell i c t = (if 0 \<le> i \<and> nat i < length (te_sb t) then Inr (t\<lparr>te_sb := (te_sb t)[nat i := c]\<rparr>) else Inl BadAccess)"

definition get_cell :: "int \<Rightarrow> termemu \<Rightarrow> fault + u8" where
  "get_cell i t = (if 0 \<le> i \<and> nat i < length (te_sb t) then Inr (te_sb t ! nat i) else Inl BadAccess)"

definition set_dirty :: "int \<Rightarrow> bool \<Rightarrow> termemu \<Rightarrow> fault + termemu" where
  "set_dirty r b t = (if 0 \<le> r \<and> nat r < length (te_dirty t) then Inr (t\<lparr>te_dirty := (te_dirty t)[nat r := b]\<rparr>) else Inl BadAccess)"

text \<open>\<open>n\<close> blanks from the place \<open>i\<close>.\<close>

fun blanks :: "int \<Rightarrow> nat \<Rightarrow> termemu \<Rightarrow> fault + termemu" where
  "blanks i 0 t = Inr t"
| "blanks i (Suc n) t = bindE (put_cell i 32 t) (blanks (i + 1) n)"

text \<open>\<open>room n\<close> tells whether \<open>malloc(n)\<close> has memory.\<close>

definition termemu_init :: "(u32 \<Rightarrow> bool) \<Rightarrow> int \<Rightarrow> int \<Rightarrow> int \<Rightarrow> fault + termemu" where
  "termemu_init room cols rows sb_lines =
     (let cols = min cols TERMEMU_MAX_COLS; rows = min rows TERMEMU_MAX_ROWS; sb_lines = min sb_lines TERMEMU_MAX_SB in
      if sb_lines > 0 \<and> \<not> room (word_of_int (sb_lines * cols)) \<or> rows > 0 \<and> \<not> room (word_of_int rows) then Inl NullDeref
      else if sb_lines > 0 \<and> cols < 0 then Inl BadAccess
      else Inr \<lparr>te_sb = replicate (nat (sb_lines * cols)) 32, te_sb_head = 0, te_sb_count = 1, te_cols = cols, te_rows = rows,
        te_sb_lines = sb_lines, te_cur_col = 0, te_cur_row = 0, te_scroll_offset = 0, te_dirty = replicate (nat rows) False,
        te_esc = 0, te_csi_param = 0\<rparr>)"

text \<open>The place of a row that is kept as its offset in the buffer.\<close>

definition divide_fault :: "fault + 'a" where
  "divide_fault = Inl (Panic ''divide error'')"

definition sb_row :: "int \<Rightarrow> termemu \<Rightarrow> fault + int" where
  "sb_row i t = (if te_sb_lines t = 0 then divide_fault else Inr (i smod te_sb_lines t * te_cols t))"

definition termemu_get_live_row :: "int \<Rightarrow> termemu \<Rightarrow> fault + int" where
  "termemu_get_live_row r t =
     (let live = (if te_sb_count t < te_rows t then te_sb_count t else te_rows t); base = te_sb_count t - live
      in sb_row (te_sb_head t + base + r) t)"

text \<open>\<open>None\<close> is the blank row.\<close>

definition termemu_get_visible_row :: "int \<Rightarrow> termemu \<Rightarrow> fault + int option" where
  "termemu_get_visible_row r t =
     (if te_sb_count t = 0 \<or> r \<ge> te_sb_count t then Inr None
      else
        let vtop = (if te_sb_count t \<le> te_rows t then 0 else max 0 (te_sb_count t - te_rows t - te_scroll_offset t))
        in bindE (sb_row (te_sb_head t + vtop + r) t) (\<lambda>p. Inr (Some p)))"

definition termemu_is_dirty :: "int \<Rightarrow> termemu \<Rightarrow> fault + bool" where
  "termemu_is_dirty r t = (if 0 \<le> r \<and> nat r < length (te_dirty t) then Inr (te_dirty t ! nat r) else Inl BadAccess)"

definition termemu_clear_dirty :: "int \<Rightarrow> termemu \<Rightarrow> fault + termemu" where
  "termemu_clear_dirty r t = set_dirty r False t"

definition termemu_mark_all_dirty :: "termemu \<Rightarrow> fault + termemu" where
  "termemu_mark_all_dirty t = foldE (\<lambda>r. set_dirty (int r) True) [0..<nat (te_rows t)] t"

section \<open>Lines\<close>

definition sb_new_line :: "termemu \<Rightarrow> fault + termemu" where
  "sb_new_line t =
     (if te_sb_lines t = 0 then divide_fault
      else if te_sb_count t < te_sb_lines t
      then bindE (sb_row (te_sb_head t + te_sb_count t) t) (\<lambda>p.
             blanks p (nat (te_cols t)) (t\<lparr>te_sb_count := te_sb_count t + 1\<rparr>))
      else blanks (te_sb_head t * te_cols t) (nat (te_cols t))
             (t\<lparr>te_sb_head := (te_sb_head t + 1) smod te_sb_lines t\<rparr>))"

definition advance_row :: "termemu \<Rightarrow> fault + termemu" where
  "advance_row t =
     bindE (sb_new_line t) (\<lambda>t'.
       if te_cur_row t < te_rows t - 1
       then set_dirty (te_cur_row t + 1) True (t'\<lparr>te_cur_row := te_cur_row t + 1\<rparr>)
       else termemu_mark_all_dirty t')"

section \<open>Escape sequences\<close>

text \<open>\<open>row[i] = row[i + n]\<close> for \<open>k\<close> places from \<open>i\<close>.\<close>

fun shift_left :: "int \<Rightarrow> int \<Rightarrow> int \<Rightarrow> nat \<Rightarrow> termemu \<Rightarrow> fault + termemu" where
  "shift_left row n i 0 t = Inr t"
| "shift_left row n i (Suc k) t =
     bindE (get_cell (row + i + n) t) (\<lambda>c. bindE (put_cell (row + i) c t) (shift_left row n (i + 1) k))"

text \<open>The final characters are D, C, A, B, K, G and P.\<close>

definition csi_dispatch :: "u8 \<Rightarrow> termemu \<Rightarrow> fault + termemu" where
  "csi_dispatch final t =
     (let n = (if te_csi_param t > 0 then te_csi_param t else 1); cols = te_cols t;
          touch = (\<lambda>t. set_dirty (te_cur_row t) True t)
      in if final = 68 then touch (t\<lparr>te_cur_col := max 0 (wrap32 (te_cur_col t - n))\<rparr>)
         else if final = 67 then
           (let c = wrap32 (te_cur_col t + n) in touch (t\<lparr>te_cur_col := (if c \<ge> cols then cols - 1 else c)\<rparr>))
         else if final = 65 then touch (t\<lparr>te_cur_row := max 0 (wrap32 (te_cur_row t - n))\<rparr>)
         else if final = 66 then
           (let c = wrap32 (te_cur_row t + n) in touch (t\<lparr>te_cur_row := (if c \<ge> te_rows t then te_rows t - 1 else c)\<rparr>))
         else if final = 75 then
           bindE (termemu_get_live_row (te_cur_row t) t) (\<lambda>row.
             bindE (if te_csi_param t = 1 then blanks row (nat (min (te_cur_col t + 1) cols)) t
                    else if te_csi_param t = 2 then blanks row (nat cols) t
                    else blanks (row + te_cur_col t) (nat (cols - te_cur_col t)) t) touch)
         else if final = 71 then
           (let c = n - 1 in touch (t\<lparr>te_cur_col := (if c < 0 then 0 else if c \<ge> cols then cols - 1 else c)\<rparr>))
         else if final = 80 then
           bindE (termemu_get_live_row (te_cur_row t) t) (\<lambda>row.
             bindE (shift_left row n (te_cur_col t) (nat (cols - n - te_cur_col t)) t) (\<lambda>t.
             bindE (blanks (row + (cols - n)) (nat n) t) touch))
         else Inr t)"

section \<open>Output\<close>

definition to_live :: "termemu \<Rightarrow> fault + termemu" where
  "to_live t = (if te_scroll_offset t \<noteq> 0 then termemu_mark_all_dirty (t\<lparr>te_scroll_offset := 0\<rparr>) else Inr t)"

text \<open>The blanks of a tab; \<open>k\<close> bounds their number.\<close>

fun tab_blanks :: "nat \<Rightarrow> int \<Rightarrow> termemu \<Rightarrow> fault + termemu" where
  "tab_blanks 0 nxt t = (if te_cur_col t < nxt \<and> te_cur_col t < te_cols t then Inl Runaway else Inr t)"
| "tab_blanks (Suc k) nxt t =
     (if te_cur_col t < nxt \<and> te_cur_col t < te_cols t
      then bindE (termemu_get_live_row (te_cur_row t) t) (\<lambda>row.
           bindE (put_cell (row + te_cur_col t) 32 t) (\<lambda>t.
           bindE (set_dirty (te_cur_row t) True t) (\<lambda>t.
             tab_blanks k nxt (t\<lparr>te_cur_col := te_cur_col t + 1\<rparr>))))
      else Inr t)"

definition put_text :: "u8 \<Rightarrow> termemu \<Rightarrow> fault + termemu" where
  "put_text ch t =
     (if ch = 10 then bindE (set_dirty (te_cur_row t) True t) (\<lambda>t. advance_row (t\<lparr>te_cur_col := 0\<rparr>))
      else if ch = 13 then bindE (set_dirty (te_cur_row t) True t) (\<lambda>t. Inr (t\<lparr>te_cur_col := 0\<rparr>))
      else if ch = 8 then
        (if te_cur_col t > 0 then set_dirty (te_cur_row t) True (t\<lparr>te_cur_col := te_cur_col t - 1\<rparr>) else Inr t)
      else if ch = 9 then
        bindE (tab_blanks 8 ((te_cur_col t + 8) AND NOT 7) t) (\<lambda>t.
          if te_cur_col t \<ge> te_cols t then advance_row (t\<lparr>te_cur_col := 0\<rparr>) else Inr t)
      else if sint ch < 32 then Inr t
      else
        bindE (if te_cur_col t \<ge> te_cols t then advance_row (t\<lparr>te_cur_col := 0\<rparr>) else Inr t) (\<lambda>t.
        bindE (termemu_get_live_row (te_cur_row t) t) (\<lambda>row.
        bindE (put_cell (row + te_cur_col t) ch t) (\<lambda>t.
        bindE (set_dirty (te_cur_row t) True t) (\<lambda>t.
          Inr (t\<lparr>te_cur_col := te_cur_col t + 1\<rparr>))))))"

definition termemu_putchar :: "u8 \<Rightarrow> termemu \<Rightarrow> fault + termemu" where
  "termemu_putchar ch t =
     (if te_esc t = 1 then Inr (if ch = 91 then t\<lparr>te_esc := 2, te_csi_param := 0\<rparr> else t\<lparr>te_esc := 0\<rparr>)
      else if te_esc t = 2 then
        (if 48 \<le> sint ch \<and> sint ch \<le> 57 then Inr (t\<lparr>te_csi_param := wrap32 (te_csi_param t * 10 + (sint ch - 48))\<rparr>)
         else if 0x40 \<le> sint ch \<and> sint ch \<le> 0x7E then csi_dispatch ch (t\<lparr>te_esc := 0\<rparr>)
         else Inr (t\<lparr>te_esc := 0\<rparr>))
      else if ch = 27 then bindE (to_live t) (\<lambda>t. Inr (t\<lparr>te_esc := 1\<rparr>))
      else bindE (to_live t) (\<lambda>t.
           bindE (if te_sb_count t = 0 then sb_new_line t else Inr t) (put_text ch)))"

definition termemu_scroll_up :: "termemu \<Rightarrow> fault + termemu" where
  "termemu_scroll_up t =
     (let max_scroll = max 0 (te_sb_count t - te_rows t); o' = te_scroll_offset t + te_rows t
      in termemu_mark_all_dirty (t\<lparr>te_scroll_offset := (if o' > max_scroll then max_scroll else o')\<rparr>))"

definition termemu_scroll_down :: "termemu \<Rightarrow> fault + termemu" where
  "termemu_scroll_down t =
     (let o' = te_scroll_offset t - te_rows t
      in termemu_mark_all_dirty (t\<lparr>te_scroll_offset := (if o' < 0 then 0 else o')\<rparr>))"

section \<open>The state of a terminal\<close>

definition te_ok :: "termemu \<Rightarrow> bool" where
  "te_ok t \<longleftrightarrow> 1 \<le> te_cols t \<and> te_cols t \<le> 256 \<and> 1 \<le> te_rows t \<and> te_rows t \<le> 128 \<and> 1 \<le> te_sb_lines t \<and> te_sb_lines t \<le> 1024 \<and>
     length (te_sb t) = nat (te_sb_lines t) * nat (te_cols t) \<and> length (te_dirty t) = nat (te_rows t) \<and>
     0 \<le> te_sb_head t \<and> te_sb_head t < te_sb_lines t \<and> 1 \<le> te_sb_count t \<and> te_sb_count t \<le> te_sb_lines t \<and>
     0 \<le> te_cur_col t \<and> te_cur_col t \<le> te_cols t \<and> 0 \<le> te_cur_row t \<and> te_cur_row t < te_rows t \<and> 0 \<le> te_scroll_offset t \<and> te_csi_param t < 2 ^ 31"

text \<open>Only flags are different; only flags and cells are.\<close>

definition drawn :: "termemu \<Rightarrow> termemu \<Rightarrow> bool" where
  "drawn t t' \<longleftrightarrow> t' = t\<lparr>te_dirty := te_dirty t'\<rparr> \<and> length (te_dirty t') = length (te_dirty t)"

definition written :: "termemu \<Rightarrow> termemu \<Rightarrow> bool" where
  "written t t' \<longleftrightarrow> t' = t\<lparr>te_sb := te_sb t', te_dirty := te_dirty t'\<rparr> \<and> length (te_sb t') = length (te_sb t) \<and>
     length (te_dirty t') = length (te_dirty t)"

lemma drawn_refl [simp]: "drawn t t" and written_refl [simp]: "written t t"
  by (simp_all add: drawn_def written_def)

lemma drawn_written: "drawn t t' \<Longrightarrow> written t t'"
  by (cases t; cases t') (simp add: drawn_def written_def)

lemma written_trans: "written t u \<Longrightarrow> written u v \<Longrightarrow> written t v"
  by (cases t; cases u; cases v) (simp add: written_def)

lemma drawn_trans: "drawn t u \<Longrightarrow> drawn u v \<Longrightarrow> drawn t v"
  by (cases t; cases u; cases v) (simp add: drawn_def)

lemma te_written_fields:
  assumes "written t t'"
  shows "te_cols t' = te_cols t" "te_rows t' = te_rows t" "te_sb_lines t' = te_sb_lines t" "te_sb_head t' = te_sb_head t"
    "te_sb_count t' = te_sb_count t" "te_cur_col t' = te_cur_col t" "te_cur_row t' = te_cur_row t"
    "te_scroll_offset t' = te_scroll_offset t" "te_esc t' = te_esc t" "te_csi_param t' = te_csi_param t"
    "length (te_sb t') = length (te_sb t)" "length (te_dirty t') = length (te_dirty t)"
  using assms by (cases t; cases t'; simp add: written_def)+

lemma drawn_fields: "drawn t t' \<Longrightarrow> te_sb t' = te_sb t"
  by (cases t; cases t') (simp add: drawn_def)

lemma written_ok: "written t t' \<Longrightarrow> te_ok t' = te_ok t"
  by (simp add: te_ok_def te_written_fields)

lemma set_dirty_drawn: "te_ok t \<Longrightarrow> 0 \<le> r \<Longrightarrow> r < te_rows t \<Longrightarrow> \<exists>t'. set_dirty r b t = Inr t' \<and> drawn t t'"
  by (simp add: set_dirty_def te_ok_def drawn_def)

lemma mark_all_drawn: "te_ok t \<Longrightarrow> \<exists>t'. termemu_mark_all_dirty t = Inr t' \<and> drawn t t'"
proof -
  assume ok: "te_ok t"
  have "drawn t u \<Longrightarrow> \<forall>r\<in>set rs. r < nat (te_rows t) \<Longrightarrow> \<exists>t'. foldE (\<lambda>r. set_dirty (int r) True) rs u = Inr t' \<and> drawn t t'" for rs u
  proof (induction rs arbitrary: u)
    case (Cons r rs)
    have "te_ok u" "te_rows u = te_rows t" using ok written_ok te_written_fields drawn_written [OF Cons.prems(1)] by metis+
    then obtain v where v: "set_dirty (int r) True u = Inr v" "drawn u v"
      using set_dirty_drawn [of u "int r" True] Cons.prems(2) by fastforce
    then show ?case using Cons.IH [OF drawn_trans [OF Cons.prems(1) v(2)]] Cons.prems(2) by simp
  qed auto
  from this [OF drawn_refl, of "[0..<nat (te_rows t)]"] show ?thesis by (simp add: termemu_mark_all_dirty_def)
qed

text \<open>Runs of blanks.\<close>

definition fill :: "nat \<Rightarrow> nat \<Rightarrow> u8 list \<Rightarrow> u8 list" where
  "fill i n xs = take i xs @ replicate n 32 @ drop (i + n) xs"

lemma length_fill [simp]: "i + n \<le> length xs \<Longrightarrow> length (fill i n xs) = length xs"
  by (simp add: fill_def)

lemma nth_fill: "i + n \<le> length xs \<Longrightarrow> k < length xs \<Longrightarrow> fill i n xs ! k = (if i \<le> k \<and> k < i + n then 32 else xs ! k)"
  by (auto simp: fill_def nth_append)

lemma blanks_fill: "i + n \<le> length (te_sb t) \<Longrightarrow> blanks (int i) n t = Inr (t\<lparr>te_sb := fill i n (te_sb t)\<rparr>)"
proof (induction n arbitrary: i t)
  case 0
  then show ?case by (simp add: fill_def)
next
  case (Suc n)
  let ?t = "t\<lparr>te_sb := (te_sb t)[i := 32]\<rparr>"
  have "fill (Suc i) n ((te_sb t)[i := 32]) = fill i (Suc n) (te_sb t)"
    by (rule nth_equalityI) (use Suc.prems in \<open>auto simp: nth_fill nth_list_update\<close>)
  then show ?case using Suc.IH [of "Suc i" ?t] Suc.prems by (simp add: put_cell_def add.commute)
qed

text \<open>The place of a row.\<close>

lemma smod_nonneg: "0 \<le> i \<Longrightarrow> 0 < k \<Longrightarrow> i smod k = i mod k" for i k :: int
  by (simp add: smod_mod_positive)

lemma sb_row_ok:
  assumes "te_ok t" and "0 \<le> i"
  shows "sb_row i t = Inr (int ((nat i mod nat (te_sb_lines t)) * nat (te_cols t)))"
    and "(nat i mod nat (te_sb_lines t)) * nat (te_cols t) + nat (te_cols t) \<le> length (te_sb t)"
proof -
  have b: "1 \<le> te_sb_lines t" "1 \<le> te_cols t" "length (te_sb t) = nat (te_sb_lines t) * nat (te_cols t)" using assms by (simp_all add: te_ok_def)
  have "i mod te_sb_lines t = int (nat i mod nat (te_sb_lines t))" using assms(2) b(1) by (simp add: zmod_int)
  then show "sb_row i t = Inr (int ((nat i mod nat (te_sb_lines t)) * nat (te_cols t)))"
    using assms(2) b by (simp add: sb_row_def smod_nonneg)
  have "nat i mod nat (te_sb_lines t) < nat (te_sb_lines t)" using b(1) by simp
  then have "(nat i mod nat (te_sb_lines t) + 1) * nat (te_cols t) \<le> nat (te_sb_lines t) * nat (te_cols t)" by (intro mult_le_mono1) simp
  then show "(nat i mod nat (te_sb_lines t)) * nat (te_cols t) + nat (te_cols t) \<le> length (te_sb t)" using b(3) by simp
qed

definition live_index :: "termemu \<Rightarrow> int \<Rightarrow> nat" where
  "live_index t r = nat (te_sb_head t + (te_sb_count t - min (te_sb_count t) (te_rows t)) + r) mod nat (te_sb_lines t)"

lemma live_row_ok:
  assumes "te_ok t" and "0 \<le> r"
  shows "termemu_get_live_row r t = Inr (int (live_index t r * nat (te_cols t)))"
    and "live_index t r * nat (te_cols t) + nat (te_cols t) \<le> length (te_sb t)"
proof -
  have "0 \<le> te_sb_head t + (te_sb_count t - min (te_sb_count t) (te_rows t)) + r" using assms by (simp add: te_ok_def)
  note row = sb_row_ok [OF assms(1) this]
  have "(if te_sb_count t < te_rows t then te_sb_count t else te_rows t) = min (te_sb_count t) (te_rows t)" by (simp add: min_def)
  then show "termemu_get_live_row r t = Inr (int (live_index t r * nat (te_cols t)))"
    using row(1) by (simp add: termemu_get_live_row_def live_index_def Let_def)
  show "live_index t r * nat (te_cols t) + nat (te_cols t) \<le> length (te_sb t)" using row(2) by (simp add: live_index_def)
qed

text \<open>What reading and writing a cell of a row do.\<close>

lemma put_cell_at: "i < length (te_sb t) \<Longrightarrow> put_cell (int i) c t = Inr (t\<lparr>te_sb := (te_sb t)[i := c]\<rparr>)"
  by (simp add: put_cell_def)

lemma written_sb [simp]: "length xs = length (te_sb t) \<Longrightarrow> written t (t\<lparr>te_sb := xs\<rparr>)"
  by (cases t) (simp add: written_def)

lemma blanks_written: "0 \<le> i \<Longrightarrow> nat i + n \<le> length (te_sb t) \<Longrightarrow> \<exists>t'. blanks i n t = Inr t' \<and> written t t'"
  using blanks_fill [of "nat i" n t] by simp

lemma shift_left_written:
  "0 \<le> row + i \<Longrightarrow> 0 \<le> n \<Longrightarrow> nat (row + i + n) + k \<le> length (te_sb t) \<Longrightarrow> \<exists>t'. shift_left row n i k t = Inr t' \<and> written t t'"
proof (induction k arbitrary: i t)
  case (Suc k)
  have g: "get_cell (row + i + n) t = Inr (te_sb t ! nat (row + i + n))" using Suc.prems by (simp add: get_cell_def)
  let ?t = "t\<lparr>te_sb := (te_sb t)[nat (row + i) := te_sb t ! nat (row + i + n)]\<rparr>"
  have p: "put_cell (row + i) (te_sb t ! nat (row + i + n)) t = Inr ?t" using Suc.prems by (simp add: put_cell_def)
  have "nat (row + (i + 1) + n) + k \<le> length (te_sb ?t)" using Suc.prems by (simp add: nat_add_distrib add.assoc)
  then obtain t' where "shift_left row n (i + 1) k ?t = Inr t'" "written ?t t'"
    using Suc.IH [of "i + 1" ?t] Suc.prems by auto
  then show ?case using g p written_trans [of t ?t t'] by simp
qed simp

section \<open>Every character is safe\<close>

lemma new_line_ok:
  assumes "te_ok t"
  shows "\<exists>t'. sb_new_line t = Inr t' \<and> te_ok t' \<and> te_cur_col t' = te_cur_col t \<and> te_cur_row t' = te_cur_row t \<and> te_rows t' = te_rows t \<and>
    te_cols t' = te_cols t \<and> te_esc t' = te_esc t \<and> te_sb_lines t' = te_sb_lines t \<and> te_scroll_offset t' = te_scroll_offset t"
proof (cases "te_sb_count t < te_sb_lines t")
  case True
  let ?t = "t\<lparr>te_sb_count := te_sb_count t + 1\<rparr>"
  have "0 \<le> te_sb_head t + te_sb_count t" using assms by (simp add: te_ok_def)
  note row = sb_row_ok [OF assms this]
  have ok: "te_ok ?t" using assms True by (simp add: te_ok_def)
  have "te_sb_lines t \<noteq> 0" using assms by (simp add: te_ok_def)
  moreover obtain t' where "blanks (int ((nat (te_sb_head t + te_sb_count t) mod nat (te_sb_lines t)) * nat (te_cols t))) (nat (te_cols t)) ?t = Inr t'" "written ?t t'"
    using blanks_written [of "int ((nat (te_sb_head t + te_sb_count t) mod nat (te_sb_lines t)) * nat (te_cols t))" "nat (te_cols t)" ?t] row(2)
    by (auto simp del: of_nat_mult)
  ultimately show ?thesis using row(1) True written_ok [of ?t t'] ok te_written_fields [of ?t t'] by (auto simp: sb_new_line_def simp del: of_nat_mult)
next
  case False
  let ?t = "t\<lparr>te_sb_head := (te_sb_head t + 1) smod te_sb_lines t\<rparr>"
  have b: "te_sb_lines t \<noteq> 0" "0 < te_sb_lines t" "0 \<le> te_sb_head t" "te_sb_head t < te_sb_lines t" using assms by (simp_all add: te_ok_def)
  have ok: "te_ok ?t" using assms b by (simp add: te_ok_def smod_nonneg)
  note row = sb_row_ok(2) [OF assms b(3)]
  have "nat (te_sb_head t) mod nat (te_sb_lines t) = nat (te_sb_head t)" using b by simp
  then have "nat (te_sb_head t * te_cols t) + nat (te_cols t) \<le> length (te_sb ?t)" using row b(3) assms by (simp add: nat_mult_distrib)
  moreover have "0 \<le> te_sb_head t * te_cols t" using assms b(3) by (simp add: te_ok_def)
  ultimately obtain t' where "blanks (te_sb_head t * te_cols t) (nat (te_cols t)) ?t = Inr t'" "written ?t t'"
    using blanks_written [of "te_sb_head t * te_cols t" "nat (te_cols t)" ?t] by blast
  then show ?thesis using False b(1) written_ok [of ?t t'] ok te_written_fields [of ?t t'] by (auto simp: sb_new_line_def)
qed

lemma advance_ok:
  assumes "te_ok t"
  shows "\<exists>t'. advance_row t = Inr t' \<and> te_ok t' \<and> te_cur_col t' = te_cur_col t \<and> te_cols t' = te_cols t \<and> te_esc t' = te_esc t"
proof -
  obtain u where u: "sb_new_line t = Inr u" "te_ok u" "te_cur_col u = te_cur_col t" "te_cur_row u = te_cur_row t"
    "te_rows u = te_rows t" "te_cols u = te_cols t" "te_esc u = te_esc t" using new_line_ok [OF assms] by blast
  show ?thesis
  proof (cases "te_cur_row t < te_rows t - 1")
    case True
    let ?u = "u\<lparr>te_cur_row := te_cur_row t + 1\<rparr>"
    have ok: "te_ok ?u" using u True assms by (simp add: te_ok_def)
    obtain t' where "set_dirty (te_cur_row t + 1) True ?u = Inr t'" "drawn ?u t'"
      using set_dirty_drawn [OF ok, of "te_cur_row t + 1" True] True u assms by (auto simp: te_ok_def)
    then show ?thesis using u True ok written_ok [OF drawn_written] te_written_fields [OF drawn_written, of ?u t']
      by (auto simp: advance_row_def)
  next
    case False
    obtain t' where "termemu_mark_all_dirty u = Inr t'" "drawn u t'" using mark_all_drawn [OF u(2)] by blast
    then show ?thesis using u False written_ok [OF drawn_written] te_written_fields [OF drawn_written, of u t']
      by (auto simp: advance_row_def)
  qed
qed

lemma wrap32_id: "- 2147483648 \<le> x \<Longrightarrow> x < 2147483648 \<Longrightarrow> wrap32 x = x"
  by (simp add: wrap32_def sint_sbintrunc' signed_take_bit_int_eq_self)

lemma wrap32_lt: "wrap32 x < 2 ^ 31"
  using sint_lt [of "word_of_int x :: 32 word"] by (simp add: wrap32_def)

text \<open>A result that only differs in cells, flags and the place of the cursor.\<close>

lemma touch_ok:
  assumes "te_ok t" and "0 \<le> te_cur_row t"
  shows "\<exists>t'. set_dirty (te_cur_row t) True t = Inr t' \<and> te_ok t' \<and> drawn t t'"
  using set_dirty_drawn [OF assms, of True] assms(1) written_ok [OF drawn_written] by (auto simp: te_ok_def)

text \<open>
  The parameters that the code has no guard for: more characters deleted than a row has, and
  a distance that takes the cursor beyond the largest number.
\<close>

definition csi_tame :: "u8 \<Rightarrow> termemu \<Rightarrow> bool" where
  "csi_tame ch t \<longleftrightarrow> (te_esc t = 2 \<longrightarrow>
     (ch = 80 \<longrightarrow> te_csi_param t \<le> te_cols t) \<and> (ch = 67 \<or> ch = 66 \<longrightarrow> te_csi_param t < 2 ^ 31 - 256))"

lemma csi_dispatch_ok:
  assumes ok: "te_ok t" and P: "final = 80 \<Longrightarrow> te_csi_param t \<le> te_cols t"
    and CB: "final = 67 \<or> final = 66 \<Longrightarrow> te_csi_param t < 2147483392"
  shows "\<exists>t'. csi_dispatch final t = Inr t' \<and> te_ok t'"
proof -
  let ?n = "if te_csi_param t > 0 then te_csi_param t else 1"
  have n: "1 \<le> ?n" "?n < 2147483648" using ok by (auto simp: te_ok_def)
  have b: "1 \<le> te_cols t" "te_cols t \<le> 256" "1 \<le> te_rows t" "te_rows t \<le> 128" "0 \<le> te_cur_col t" "te_cur_col t \<le> te_cols t"
    "0 \<le> te_cur_row t" "te_cur_row t < te_rows t" using ok by (simp_all add: te_ok_def)
  note live = live_row_ok [OF ok b(7)]
  let ?row = "int (live_index t (te_cur_row t) * nat (te_cols t))"
  have touched: "\<exists>t'. set_dirty (te_cur_row u) True u = Inr t' \<and> te_ok t'" if "te_ok u" for u
    using touch_ok [OF that] that by (auto simp: te_ok_def)
  have touched_w: "\<exists>t'. set_dirty (te_cur_row t) True u = Inr t' \<and> te_ok t'" if "written t u" for u
    using touched [of u] written_ok [OF that] ok te_written_fields(7) [OF that] by simp
  consider "final = 68" | "final = 67" | "final = 65" | "final = 66" | "final = 75" | "final = 71" | "final = 80"
    | "final \<notin> {68, 67, 65, 66, 75, 71, 80}" by blast
  then show ?thesis
  proof cases
    case 1
    have w: "wrap32 (te_cur_col t - ?n) = te_cur_col t - ?n" by (rule wrap32_id) (use n b in linarith)+
    have "te_ok (t\<lparr>te_cur_col := max 0 (te_cur_col t - ?n)\<rparr>)" using ok n(1) by (auto simp: te_ok_def)
    from touched [OF this] show ?thesis using 1 by (simp only: csi_dispatch_def Let_def w if_True) simp
  next
    case 2
    have "?n < 2147483392" using CB 2 by simp
    then have w: "wrap32 (te_cur_col t + ?n) = te_cur_col t + ?n" using n(1) b by (intro wrap32_id) linarith+
    have "te_ok (t\<lparr>te_cur_col := if te_cols t \<le> te_cur_col t + ?n then te_cols t - 1 else te_cur_col t + ?n\<rparr>)"
      using ok n(1) b by (auto simp: te_ok_def)
    from touched [OF this] show ?thesis using 2 by (simp only: csi_dispatch_def Let_def w) simp
  next
    case 3
    have w: "wrap32 (te_cur_row t - ?n) = te_cur_row t - ?n" by (rule wrap32_id) (use n b in linarith)+
    have "te_ok (t\<lparr>te_cur_row := max 0 (te_cur_row t - ?n)\<rparr>)" using ok n(1) b by (auto simp: te_ok_def)
    from touched [OF this] show ?thesis using 3 by (simp only: csi_dispatch_def Let_def w) simp
  next
    case 4
    have "?n < 2147483392" using CB 4 by simp
    then have w: "wrap32 (te_cur_row t + ?n) = te_cur_row t + ?n" using n(1) b by (intro wrap32_id) linarith+
    have "te_ok (t\<lparr>te_cur_row := if te_rows t \<le> te_cur_row t + ?n then te_rows t - 1 else te_cur_row t + ?n\<rparr>)"
      using ok n(1) b by (auto simp: te_ok_def)
    from touched [OF this] show ?thesis using 4 by (simp only: csi_dispatch_def Let_def w) simp
  next
    case 5
    have "\<exists>u. (if te_csi_param t = 1 then blanks ?row (nat (min (te_cur_col t + 1) (te_cols t))) t
        else if te_csi_param t = 2 then blanks ?row (nat (te_cols t)) t
        else blanks (?row + te_cur_col t) (nat (te_cols t - te_cur_col t)) t) = Inr u \<and> written t u"
      using live(2) b blanks_written [of ?row "nat (min (te_cur_col t + 1) (te_cols t))" t] blanks_written [of ?row "nat (te_cols t)" t]
        blanks_written [of "?row + te_cur_col t" "nat (te_cols t - te_cur_col t)" t]
      by (auto simp: nat_add_distrib nat_diff_distrib simp del: of_nat_mult)
    then obtain u where u: "(if te_csi_param t = 1 then blanks ?row (nat (min (te_cur_col t + 1) (te_cols t))) t
        else if te_csi_param t = 2 then blanks ?row (nat (te_cols t)) t
        else blanks (?row + te_cur_col t) (nat (te_cols t - te_cur_col t)) t) = Inr u" "written t u" by blast
    from touched_w [OF u(2)] show ?thesis using 5 te_written_fields(7) [OF u(2)]
      by (simp add: csi_dispatch_def Let_def live(1) u(1) del: of_nat_mult)
  next
    case 6
    have "te_ok (t\<lparr>te_cur_col := if ?n - 1 < 0 then 0 else if te_cols t \<le> ?n - 1 then te_cols t - 1 else ?n - 1\<rparr>)"
      using ok n(1) b by (auto simp: te_ok_def)
    from touched [OF this] show ?thesis using 6 by (simp only: csi_dispatch_def Let_def) simp
  next
    case 7
    have nc: "?n \<le> te_cols t" using P 7 b(1) by simp
    obtain u where u: "shift_left ?row ?n (te_cur_col t) (nat (te_cols t - ?n - te_cur_col t)) t = Inr u" "written t u"
    proof (cases "te_cols t - ?n - te_cur_col t \<le> 0")
      case True
      then show thesis using that by simp
    next
      case False
      then have "nat (?row + te_cur_col t + ?n) + nat (te_cols t - ?n - te_cur_col t) \<le> length (te_sb t)"
        using live(2) b n by (simp add: nat_add_distrib nat_diff_distrib del: of_nat_mult)
      then show thesis using that shift_left_written [of ?row "te_cur_col t" ?n] n b by auto
    qed
    have "nat (?row + (te_cols t - ?n)) + nat ?n \<le> length (te_sb u)"
      using live(2) nc n b te_written_fields(11) [OF u(2)] by (simp add: nat_add_distrib nat_diff_distrib del: of_nat_mult)
    then obtain v where v: "blanks (?row + (te_cols t - ?n)) (nat ?n) u = Inr v" "written u v"
      using blanks_written [of "?row + (te_cols t - ?n)" "nat ?n" u] nc by auto
    note w = written_trans [OF u(2) v(2)]
    from touched_w [OF w] show ?thesis using 7 te_written_fields(7) [OF w]
      by (simp only: csi_dispatch_def Let_def live(1) u(1) v(1) bindE_simps) simp
  next
    case 8
    then show ?thesis using ok by (simp add: csi_dispatch_def Let_def)
  qed
qed

text \<open>Tabs.\<close>

lemma row_cell_ok:
  assumes "te_ok t" and "te_cur_col t < te_cols t"
  shows "\<exists>u. bindE (termemu_get_live_row (te_cur_row t) t) (\<lambda>row. bindE (put_cell (row + te_cur_col t) c t) (\<lambda>u. set_dirty (te_cur_row u) True u)) = Inr u \<and>
    written t u"
proof -
  have b: "0 \<le> te_cur_row t" "0 \<le> te_cur_col t" using assms(1) by (simp_all add: te_ok_def)
  note live = live_row_ok [OF assms(1) b(1)]
  let ?i = "live_index t (te_cur_row t) * nat (te_cols t) + nat (te_cur_col t)"
  have i: "?i < length (te_sb t)" using live(2) assms(2) b(2) by linarith
  have "int (live_index t (te_cur_row t) * nat (te_cols t)) + te_cur_col t = int ?i" using b(2) by simp
  then have p: "put_cell (int (live_index t (te_cur_row t) * nat (te_cols t)) + te_cur_col t) c t = Inr (t\<lparr>te_sb := (te_sb t)[?i := c]\<rparr>)"
    using put_cell_at [OF i, of c] by (simp del: of_nat_mult)
  have w: "written t (t\<lparr>te_sb := (te_sb t)[?i := c]\<rparr>)" by simp
  have "te_ok (t\<lparr>te_sb := (te_sb t)[?i := c]\<rparr>)" using written_ok [OF w] assms(1) by simp
  from set_dirty_drawn [OF this, of "te_cur_row t" True] obtain u
    where "set_dirty (te_cur_row t) True (t\<lparr>te_sb := (te_sb t)[?i := c]\<rparr>) = Inr u" "drawn (t\<lparr>te_sb := (te_sb t)[?i := c]\<rparr>) u"
    using assms(1) by (auto simp: te_ok_def)
  then show ?thesis using live(1) p written_trans [OF w drawn_written] by (simp del: of_nat_mult)
qed

lemma bindE_nest: "bindE m (\<lambda>x. bindE (f x) (\<lambda>y. bindE (g y) h)) = bindE (bindE m (\<lambda>x. bindE (f x) g)) h"
  by (cases m) (simp_all add: bindE_assoc)

lemma tab_ok:
  "te_ok t \<Longrightarrow> nxt \<le> te_cur_col t + int k \<Longrightarrow> \<exists>t'. tab_blanks k nxt t = Inr t' \<and> te_ok t' \<and> te_esc t' = te_esc t"
proof (induction k arbitrary: t)
  case (Suc k)
  show ?case
  proof (cases "te_cur_col t < nxt \<and> te_cur_col t < te_cols t")
    case True
    obtain u where u: "bindE (termemu_get_live_row (te_cur_row t) t) (\<lambda>row. bindE (put_cell (row + te_cur_col t) 32 t) (\<lambda>u. set_dirty (te_cur_row u) True u)) = Inr u"
      "written t u" using row_cell_ok [OF Suc.prems(1), of 32] True by blast
    have s: "tab_blanks (Suc k) nxt t = tab_blanks k nxt (u\<lparr>te_cur_col := te_cur_col u + 1\<rparr>)"
      using True u(1) by (simp only: tab_blanks.simps bindE_nest u(1) bindE_simps simp_thms if_True)
    have "te_ok (u\<lparr>te_cur_col := te_cur_col u + 1\<rparr>)"
      using Suc.prems(1) True written_ok [OF u(2)] te_written_fields [OF u(2)] by (simp add: te_ok_def)
    from Suc.IH [OF this] show ?thesis using s Suc.prems(2) te_written_fields [OF u(2)] by simp
  next
    case False
    then show ?thesis using Suc.prems(1) by auto
  qed
qed auto

lemma put_text_ok:
  assumes ok: "te_ok t"
  shows "\<exists>t'. put_text ch t = Inr t' \<and> te_ok t' \<and> te_esc t' = te_esc t"
proof -
  have b: "0 \<le> te_cur_row t" "0 \<le> te_cur_col t" "te_cur_row t < te_rows t" "1 \<le> te_cols t" using ok by (simp_all add: te_ok_def)
  obtain v where v: "set_dirty (te_cur_row t) True t = Inr v" "te_ok v" "te_esc v = te_esc t"
    using touch_ok [OF ok b(1)] te_written_fields(9) [OF drawn_written] by metis
  have home: "te_ok (u\<lparr>te_cur_col := 0\<rparr>)" if "te_ok u" for u using that by (simp add: te_ok_def)
  have adv: "\<exists>t'. advance_row (u\<lparr>te_cur_col := 0\<rparr>) = Inr t' \<and> te_ok t' \<and> te_esc t' = te_esc u \<and> te_cur_col t' = 0 \<and> te_cols t' = te_cols u"
    if "te_ok u" for u using advance_ok [OF home [OF that]] by auto
  consider "ch = 10" | "ch = 13" | "ch = 8" | "ch = 9" | "ch \<notin> {10, 13, 8, 9}" by blast
  then show ?thesis
  proof cases
    case 1
    then show ?thesis using v adv [OF v(2)] by (auto simp: put_text_def)
  next
    case 2
    then show ?thesis using v home [OF v(2)] by (simp add: put_text_def)
  next
    case 3
    let ?t = "t\<lparr>te_cur_col := te_cur_col t - 1\<rparr>"
    have "te_ok ?t" if "te_cur_col t > 0" using ok that by (simp add: te_ok_def)
    then show ?thesis using 3 ok touch_ok [of ?t] te_written_fields(9) [OF drawn_written, of ?t] b(1) by (auto simp: put_text_def)
  next
    case 4
    have "(te_cur_col t + 8) AND NOT 7 \<le> te_cur_col t + 8" using b(2) by (intro AND_upper1) simp
    then obtain u where u: "tab_blanks 8 ((te_cur_col t + 8) AND NOT 7) t = Inr u" "te_ok u" "te_esc u = te_esc t"
      using tab_ok [OF ok, of "(te_cur_col t + 8) AND NOT 7" 8] by auto
    then show ?thesis using 4 adv [OF u(2)] by (auto simp: put_text_def)
  next
    case 5
    show ?thesis
    proof (cases "sint ch < 32")
      case True
      then show ?thesis using 5 ok by (simp add: put_text_def)
    next
      case False
      obtain u where u: "(if te_cur_col t \<ge> te_cols t then advance_row (t\<lparr>te_cur_col := 0\<rparr>) else Inr t) = Inr u" "te_ok u"
        "te_esc u = te_esc t" "te_cur_col u < te_cols u" using adv [OF ok] ok b(4) by (cases "te_cols t \<le> te_cur_col t") auto
      obtain w where w: "bindE (termemu_get_live_row (te_cur_row u) u) (\<lambda>row. bindE (put_cell (row + te_cur_col u) ch u) (\<lambda>u. set_dirty (te_cur_row u) True u)) = Inr w"
        "written u w" using row_cell_ok [OF u(2,4)] by blast
      have "put_text ch t = bindE (termemu_get_live_row (te_cur_row u) u) (\<lambda>row.
          bindE (put_cell (row + te_cur_col u) ch u) (\<lambda>z. bindE (set_dirty (te_cur_row z) True z) (\<lambda>z. Inr (z\<lparr>te_cur_col := te_cur_col z + 1\<rparr>))))"
        using 5 False u(1) by (simp add: put_text_def)
      also have "\<dots> = Inr (w\<lparr>te_cur_col := te_cur_col w + 1\<rparr>)" unfolding bindE_nest w(1) by simp
      finally have e: "put_text ch t = Inr (w\<lparr>te_cur_col := te_cur_col w + 1\<rparr>)" .
      have "te_ok (w\<lparr>te_cur_col := te_cur_col w + 1\<rparr>)" using u(2,4) written_ok [OF w(2)] te_written_fields [OF w(2)] by (simp add: te_ok_def)
      then show ?thesis using e u(3) te_written_fields(9) [OF w(2)] by simp
    qed
  qed
qed

lemma to_live_ok: "te_ok t \<Longrightarrow> \<exists>t'. to_live t = Inr t' \<and> te_ok t'"
proof -
  assume ok: "te_ok t"
  then have "te_ok (t\<lparr>te_scroll_offset := 0\<rparr>)" by (simp add: te_ok_def)
  then show ?thesis using ok mark_all_drawn written_ok [OF drawn_written] by (fastforce simp: to_live_def)
qed

lemma putchar_ok:
  assumes ok: "te_ok t" and tame: "csi_tame ch t"
  shows "\<exists>t'. termemu_putchar ch t = Inr t' \<and> te_ok t'"
proof -
  consider "te_esc t = 1" | "te_esc t = 2" | "te_esc t \<noteq> 1" "te_esc t \<noteq> 2" by blast
  then show ?thesis
  proof cases
    case 1
    then show ?thesis using ok by (auto simp: termemu_putchar_def te_ok_def)
  next
    case 2
    have e: "te_ok (t\<lparr>te_esc := 0\<rparr>)" using ok by (simp add: te_ok_def)
    have p: "te_ok (t\<lparr>te_csi_param := wrap32 x\<rparr>)" for x using ok wrap32_lt [of x] by (simp add: te_ok_def)
    have d: "\<exists>t'. csi_dispatch ch (t\<lparr>te_esc := 0\<rparr>) = Inr t' \<and> te_ok t'"
      by (rule csi_dispatch_ok [OF e]) (use tame 2 in \<open>auto simp: csi_tame_def\<close>)
    show ?thesis using 2 e p d by (simp add: termemu_putchar_def)
  next
    case 3
    obtain u where u: "to_live t = Inr u" "te_ok u" using to_live_ok [OF ok] by blast
    have "te_ok (u\<lparr>te_esc := 1\<rparr>)" "te_sb_count u \<noteq> 0" using u(2) by (simp_all add: te_ok_def)
    then show ?thesis using 3 u put_text_ok [OF u(2), of ch] by (auto simp: termemu_putchar_def)
  qed
qed

lemma scroll_ok: "te_ok t \<Longrightarrow> \<exists>t'. termemu_scroll_up t = Inr t' \<and> te_ok t'" "te_ok t \<Longrightarrow> \<exists>t'. termemu_scroll_down t = Inr t' \<and> te_ok t'"
proof -
  have m: "\<exists>t'. termemu_mark_all_dirty u = Inr t' \<and> te_ok t'" if "te_ok u" for u
    using mark_all_drawn [OF that] written_ok [OF drawn_written] that by blast
  assume ok: "te_ok t"
  have "te_ok (t\<lparr>te_scroll_offset := k\<rparr>)" if "0 \<le> k" for k using ok that by (simp add: te_ok_def)
  moreover have "0 \<le> te_scroll_offset t" "1 \<le> te_rows t" using ok by (simp_all add: te_ok_def)
  ultimately show "\<exists>t'. termemu_scroll_up t = Inr t' \<and> te_ok t'" "\<exists>t'. termemu_scroll_down t = Inr t' \<and> te_ok t'"
    by (auto simp: termemu_scroll_up_def termemu_scroll_down_def Let_def intro!: m)
qed

text \<open>What happens to a terminal.\<close>

datatype te_event = Put u8 | Scroll_up | Scroll_down

fun te_step :: "te_event \<Rightarrow> termemu \<Rightarrow> fault + termemu" where
  "te_step (Put ch) t = termemu_putchar ch t"
| "te_step Scroll_up t = termemu_scroll_up t"
| "te_step Scroll_down t = termemu_scroll_down t"

fun te_tame :: "te_event list \<Rightarrow> termemu \<Rightarrow> bool" where
  "te_tame [] t \<longleftrightarrow> True"
| "te_tame (e # es) t \<longleftrightarrow> (case e of Put ch \<Rightarrow> csi_tame ch t | _ \<Rightarrow> True) \<and>
     (case te_step e t of Inl _ \<Rightarrow> True | Inr t' \<Rightarrow> te_tame es t')"


text \<open>Characters of a string.\<close>

definition puts :: "string \<Rightarrow> te_event list" where
  "puts s = map (\<lambda>c. Put (of_nat (of_char c))) s"

definition ESC :: te_event where "ESC = Put 27"


text \<open>
  Deleting more characters than a row has writes in front of the row: on a terminal of 4
  columns that shows one line the access leaves the ring, and with text above it blanks the
  line before.
\<close>

theorem termemu_delete_overrun:
  "(case bindE (termemu_init (\<lambda>_. True) 4 2 3) (foldE te_step ([ESC] @ puts ''[9P'')) of Inl e \<Rightarrow> e = BadAccess | Inr t \<Rightarrow> False) \<and>
   (case bindE (termemu_init (\<lambda>_. True) 4 2 3) (foldE te_step (puts ''abcd'' @ [Put 10] @ [ESC] @ puts ''[6P'')) of
      Inl e \<Rightarrow> False | Inr t \<Rightarrow> take 4 (te_sb t) = [97, 98, 32, 32])"
  by code_simp

section \<open>The ring as a list of lines\<close>

definition te_cell :: "termemu \<Rightarrow> nat \<Rightarrow> nat \<Rightarrow> u8" where
  "te_cell t i j = te_sb t ! (i * nat (te_cols t) + j)"

definition te_line :: "termemu \<Rightarrow> nat \<Rightarrow> u8 list" where
  "te_line t k = map (te_cell t ((nat (te_sb_head t) + k) mod nat (te_sb_lines t))) [0..<nat (te_cols t)]"

definition te_lines :: "termemu \<Rightarrow> u8 list list" where
  "te_lines t = map (te_line t) [0..<nat (te_sb_count t)]"

definition blank_line :: "termemu \<Rightarrow> u8 list" where
  "blank_line t = replicate (nat (te_cols t)) 32"

lemma length_te_lines: "length (te_lines t) = nat (te_sb_count t)"
  by (simp add: te_lines_def)

lemma ring_index_inj:
  fixes i k h n :: nat
  assumes "i < n" and "k < n"
  shows "(h + i) mod n = (h + k) mod n \<longleftrightarrow> i = k"
proof -
  have "i = k" if "i \<le> k" "k < n" "(h + i) mod n = (h + k) mod n" for i k
  proof (rule ccontr)
    assume "i \<noteq> k"
    have "n dvd (h + k) - (h + i)" using that by (intro mod_eq_dvd_iff_nat [THEN iffD1]) auto
    then show False using that \<open>i \<noteq> k\<close> by (auto dest: dvd_imp_le)
  qed
  from this [of i k] this [of k i] assms show ?thesis by (metis nat_le_linear)
qed

lemma cell_place: "j < c \<Longrightarrow> k * c \<le> i * c + j \<and> i * c + j < k * c + c \<longleftrightarrow> i = k" for i j k c :: nat
proof -
  assume j: "j < c"
  have "(i * c + j) div c = i" using j by simp
  moreover have "i' = k" if "i' = (i * c + j) div c" "k * c \<le> i * c + j" "i * c + j < k * c + c" for i'
    using that j by (metis (no_types, lifting) div_le_mono le_antisym less_Suc_eq_le less_mult_imp_div_less mult.commute mult_Suc_right add.commute nonzero_mult_div_cancel_right not_less_zero)
  ultimately show ?thesis using j by auto
qed

text \<open>Filling the row \<open>k\<close> of the buffer.\<close>

lemma te_cell_fill:
  assumes "te_ok t" and "k < nat (te_sb_lines t)" and "i < nat (te_sb_lines t)" and "j < nat (te_cols t)"
  shows "fill (k * nat (te_cols t)) (nat (te_cols t)) (te_sb t) ! (i * nat (te_cols t) + j) = (if i = k then 32 else te_cell t i j)"
proof -
  let ?c = "nat (te_cols t)"
  have len: "length (te_sb t) = nat (te_sb_lines t) * ?c" using assms(1) by (simp add: te_ok_def)
  have "(k + 1) * ?c \<le> nat (te_sb_lines t) * ?c" "(i + 1) * ?c \<le> nat (te_sb_lines t) * ?c" using assms(2,3) by (intro mult_le_mono1; simp)+
  then have "k * ?c + ?c \<le> length (te_sb t)" "i * ?c + j < length (te_sb t)" using len assms(4) by simp_all
  then show ?thesis using cell_place [OF assms(4), of k i] by (simp add: nth_fill te_cell_def)
qed

lemma new_line_lines:
  assumes ok: "te_ok t" and run: "sb_new_line t = Inr t'"
  shows "te_lines t' = (if te_sb_count t < te_sb_lines t then te_lines t else tl (te_lines t)) @ [blank_line t]"
    and "te_sb_count t' = min (te_sb_count t + 1) (te_sb_lines t)"
proof -
  let ?L = "nat (te_sb_lines t)" and ?c = "nat (te_cols t)" and ?h = "nat (te_sb_head t)" and ?n = "nat (te_sb_count t)"
  have b: "0 < ?L" "?h < ?L" "1 \<le> ?n" "?n \<le> ?L" "0 < ?c" "te_sb_lines t \<noteq> 0" "0 \<le> te_sb_head t" "0 \<le> te_cols t" "1 \<le> te_sb_count t"
    "te_sb_count t \<le> te_sb_lines t" using ok by (auto simp: te_ok_def)
  have "te_lines t' = (if te_sb_count t < te_sb_lines t then te_lines t else tl (te_lines t)) @ [blank_line t] \<and>
      te_sb_count t' = min (te_sb_count t + 1) (te_sb_lines t)"
  proof (cases "te_sb_count t < te_sb_lines t")
    case True
    let ?k = "(?h + ?n) mod ?L"
    have i: "nat (te_sb_head t + te_sb_count t) mod ?L = ?k" using b by (simp add: nat_add_distrib)
    have "0 \<le> te_sb_head t + te_sb_count t" using b by simp
    note row = sb_row_ok [OF ok this, unfolded i]
    let ?t = "t\<lparr>te_sb_count := te_sb_count t + 1\<rparr>"
    have t': "t' = ?t\<lparr>te_sb := fill (?k * ?c) ?c (te_sb t)\<rparr>"
      using run True b(6) row(1) blanks_fill [of "?k * ?c" ?c ?t] row(2) by (simp add: sb_new_line_def del: of_nat_mult)
    have n: "nat (te_sb_count t + 1) = Suc ?n" using b by simp
    have line: "te_line t' m = (if (?h + m) mod ?L = ?k then blank_line t else te_line t m)" for m
      using te_cell_fill [OF ok, of ?k "(?h + m) mod ?L"] b(1)
      by (auto simp: te_line_def blank_line_def t' te_cell_def intro!: nth_equalityI)
    have lt: "?n < ?L" using True b by simp
    have "te_line t' m = te_line t m" if "m < ?n" for m
      using line ring_index_inj [of m ?L ?n ?h] that lt by simp
    moreover have "te_line t' ?n = blank_line t" using line by simp
    moreover have "te_sb_count t' = te_sb_count t + 1" by (simp add: t')
    ultimately show ?thesis using True n by (simp add: te_lines_def)
  next
    case False
    then have full: "?n = ?L" "te_sb_count t = te_sb_lines t" using b by simp_all
    let ?t = "t\<lparr>te_sb_head := (te_sb_head t + 1) smod te_sb_lines t\<rparr>"
    have hc: "te_sb_head t * te_cols t = int (?h * ?c)" using b by simp
    note row = sb_row_ok(2) [OF ok b(7)]
    have t': "t' = ?t\<lparr>te_sb := fill (?h * ?c) ?c (te_sb t)\<rparr>"
      using run False b(2,6) blanks_fill [of "?h * ?c" ?c ?t] row by (simp add: sb_new_line_def hc del: of_nat_mult)
    have "nat ((te_sb_head t + 1) smod te_sb_lines t) = (?h + 1) mod ?L"
      using b smod_nonneg [of "te_sb_head t + 1" "te_sb_lines t"] by (simp add: nat_mod_distrib nat_add_distrib)
    then have line: "te_line t' m = (if (?h + Suc m) mod ?L = ?h then blank_line t else te_line t (Suc m))" for m
      using te_cell_fill [OF ok b(2), of "(?h + Suc m) mod ?L"] b(1)
      by (auto simp: te_line_def blank_line_def t' te_cell_def mod_simps intro!: nth_equalityI)
    obtain p where p: "?n = Suc p" using b(3) by (cases ?n) auto
    have "te_line t' m = te_line t (Suc m)" if "m < p" for m
      using line ring_index_inj [of "Suc m" ?L 0 ?h] that b(2) p full(1) by simp
    moreover have "te_line t' p = blank_line t"
    proof -
      have "(?h + Suc p) mod ?L = ?h" using b(2) p full(1) by (metis mod_add_self2 mod_less)
      then show ?thesis by (simp only: line if_True simp_thms)
    qed
    moreover have "te_sb_count t' = te_sb_count t" by (simp add: t')
    moreover have "tl (te_lines t) = map (\<lambda>m. te_line t (Suc m)) [0..<p]"
    proof -
      have "[0..<Suc p] = 0 # map Suc [0..<p]" by (simp only: map_Suc_upt) (simp add: upt_conv_Cons del: upt_Suc)
      then show ?thesis by (simp only: te_lines_def p list.map list.sel map_map o_def)
    qed
    ultimately show ?thesis using False p full(2) by (simp add: te_lines_def [of t'])
  qed
  then show "te_lines t' = (if te_sb_count t < te_sb_lines t then te_lines t else tl (te_lines t)) @ [blank_line t]"
    "te_sb_count t' = min (te_sb_count t + 1) (te_sb_lines t)" by simp_all
qed

section \<open>Plain text\<close>

text \<open>The lines that a text fills, the last one being the current one, and the column.\<close>

definition lay_char :: "nat \<Rightarrow> u8 \<Rightarrow> u8 list list \<times> nat \<Rightarrow> u8 list list \<times> nat" where
  "lay_char cols ch = (\<lambda>(ls, col).
     if ch = 10 then (ls @ [replicate cols 32], 0)
     else
       let (ls, col) = (if col \<ge> cols then (ls @ [replicate cols 32], 0) else (ls, col))
       in (butlast ls @ [(last ls)[col := ch]], col + 1))"

definition lay_text :: "nat \<Rightarrow> u8 list \<Rightarrow> u8 list list \<times> nat" where
  "lay_text cols cs = fold (lay_char cols) cs ([replicate cols 32], 0)"

text \<open>The terminal shows the layout, of which the ring keeps the last lines.\<close>

definition shows_layout :: "termemu \<Rightarrow> u8 list list \<times> nat \<Rightarrow> bool" where
  "shows_layout t l \<longleftrightarrow> (case l of (ls, col) \<Rightarrow>
     te_ok t \<and> te_rows t \<le> te_sb_lines t \<and> te_esc t = 0 \<and> te_scroll_offset t = 0 \<and> te_cur_col t = int col \<and> ls \<noteq> [] \<and>
     te_lines t = drop (length ls - nat (te_sb_lines t)) ls \<and> te_cur_row t = min (te_sb_count t) (te_rows t) - 1)"

lemma shows_count: "shows_layout t (ls, col) \<Longrightarrow> nat (te_sb_count t) = min (length ls) (nat (te_sb_lines t))"
  using length_te_lines [of t] by (auto simp: shows_layout_def min_def)

lemma te_lines_cong:
  "te_sb t' = te_sb t \<Longrightarrow> te_sb_head t' = te_sb_head t \<Longrightarrow> te_sb_lines t' = te_sb_lines t \<Longrightarrow> te_cols t' = te_cols t \<Longrightarrow>
   te_sb_count t' = te_sb_count t \<Longrightarrow> te_lines t' = te_lines t"
  by (simp add: te_lines_def te_line_def te_cell_def cong: map_cong)

lemma advance_lines:
  assumes ok: "te_ok t" and lines: "te_rows t \<le> te_sb_lines t" and row: "te_cur_row t = min (te_sb_count t) (te_rows t) - 1"
  shows "\<exists>t'. advance_row t = Inr t' \<and> te_ok t' \<and> te_lines t' = (if te_sb_count t < te_sb_lines t then te_lines t else tl (te_lines t)) @ [blank_line t] \<and>
    te_cur_row t' = min (te_sb_count t') (te_rows t') - 1 \<and> te_rows t' = te_rows t \<and> te_sb_lines t' = te_sb_lines t \<and> te_cols t' = te_cols t \<and>
    te_cur_col t' = te_cur_col t \<and> te_esc t' = te_esc t \<and> te_scroll_offset t' = te_scroll_offset t"
proof -
  obtain u where u: "sb_new_line t = Inr u" "te_ok u" "te_cur_col u = te_cur_col t" "te_cur_row u = te_cur_row t" "te_rows u = te_rows t"
    "te_cols u = te_cols t" "te_esc u = te_esc t" "te_sb_lines u = te_sb_lines t" "te_scroll_offset u = te_scroll_offset t"
    using new_line_ok [OF ok] by blast
  note ul = new_line_lines [OF ok u(1)]
  have b: "1 \<le> te_sb_count t" "te_sb_count t \<le> te_sb_lines t" "1 \<le> te_rows t" using ok by (simp_all add: te_ok_def)
  show ?thesis
  proof (cases "te_cur_row t < te_rows t - 1")
    case True
    let ?u = "u\<lparr>te_cur_row := te_cur_row t + 1\<rparr>"
    have ok': "te_ok ?u" using u True ok by (simp add: te_ok_def)
    obtain t' where t': "set_dirty (te_cur_row t + 1) True ?u = Inr t'" "drawn ?u t'"
      using set_dirty_drawn [OF ok', of "te_cur_row t + 1" True] True u ok by (auto simp: te_ok_def)
    note f = te_written_fields [OF drawn_written [OF t'(2)]]
    have "te_lines t' = te_lines u" by (rule te_lines_cong) (simp_all add: f drawn_fields [OF t'(2)])
    moreover have "te_cur_row t' = min (te_sb_count t') (te_rows t') - 1" using row True ul(2) b lines by (simp add: f u min_def split: if_splits)
    ultimately show ?thesis using u t' True ok' written_ok [OF drawn_written [OF t'(2)]] ul(1) by (simp add: advance_row_def f)
  next
    case False
    obtain t' where t': "termemu_mark_all_dirty u = Inr t'" "drawn u t'" using mark_all_drawn [OF u(2)] by blast
    note f = te_written_fields [OF drawn_written [OF t'(2)]]
    have "te_lines t' = te_lines u" by (rule te_lines_cong) (simp_all add: f drawn_fields [OF t'(2)])
    moreover have "te_cur_row t' = min (te_sb_count t') (te_rows t') - 1" using row False ul(2) b lines by (simp add: f u min_def split: if_splits)
    ultimately show ?thesis using u t' False written_ok [OF drawn_written [OF t'(2)]] ul(1) by (simp add: advance_row_def f)
  qed
qed

text \<open>A new line of the layout.\<close>

lemma shows_advance:
  assumes "shows_layout t (ls, col)"
  shows "\<exists>t'. advance_row (t\<lparr>te_cur_col := 0\<rparr>) = Inr t' \<and> shows_layout t' (ls @ [replicate (nat (te_cols t)) 32], 0) \<and> te_cols t' = te_cols t \<and>
    te_sb_lines t' = te_sb_lines t"
proof -
  let ?t = "t\<lparr>te_cur_col := 0\<rparr>"
  have s: "te_ok t" "te_rows t \<le> te_sb_lines t" "te_esc t = 0" "te_scroll_offset t = 0" "ls \<noteq> []"
    "te_lines t = drop (length ls - nat (te_sb_lines t)) ls" "te_cur_row t = min (te_sb_count t) (te_rows t) - 1"
    using assms by (simp_all add: shows_layout_def)
  have ok: "te_ok ?t" using s(1) by (simp add: te_ok_def)
  have l: "te_lines ?t = te_lines t" by (rule te_lines_cong) simp_all
  obtain t' where t': "advance_row ?t = Inr t'" "te_ok t'" "te_lines t' = (if te_sb_count t < te_sb_lines t then te_lines t else tl (te_lines t)) @ [blank_line t]"
    "te_cur_row t' = min (te_sb_count t') (te_rows t') - 1" "te_rows t' = te_rows t" "te_sb_lines t' = te_sb_lines t" "te_cols t' = te_cols t"
    "te_cur_col t' = 0" "te_esc t' = te_esc t" "te_scroll_offset t' = te_scroll_offset t"
    using advance_lines [OF ok] s l by (auto simp: blank_line_def)
  have n: "nat (te_sb_count t) = min (length ls) (nat (te_sb_lines t))" by (rule shows_count [OF assms])
  have b: "1 \<le> te_sb_lines t" "1 \<le> te_sb_count t" using s(1) by (simp_all add: te_ok_def)
  have "te_lines t' = drop (length (ls @ [replicate (nat (te_cols t)) 32]) - nat (te_sb_lines t)) (ls @ [replicate (nat (te_cols t)) 32])"
  proof (cases "te_sb_count t < te_sb_lines t")
    case True
    then have "length ls < nat (te_sb_lines t)" using n b by (simp add: min_def split: if_splits)
    then show ?thesis using True t'(3) s(6) by (simp add: blank_line_def)
  next
    case False
    then have "nat (te_sb_lines t) \<le> length ls" using n b by (simp add: min_def split: if_splits)
    moreover from this have "tl (drop (length ls - nat (te_sb_lines t)) ls) = drop (Suc (length ls) - nat (te_sb_lines t)) ls"
      by (simp add: tl_drop drop_Suc [symmetric] Suc_diff_le drop_tl)
    moreover have "Suc (length ls) - nat (te_sb_lines t) \<le> length ls" using b by simp
    ultimately show ?thesis using False t'(3) s(6) by (simp add: blank_line_def)
  qed
  then show ?thesis using t' s by (simp add: shows_layout_def)
qed

text \<open>A character in a cell of a line.\<close>

lemma cell_index_eq: "j < c \<Longrightarrow> j' < c \<Longrightarrow> i * c + j = i' * c + j' \<longleftrightarrow> i = i' \<and> j = j'" for i i' j j' c :: nat
  by (metis add.commute div_mult_self3 div_less add_0_right mod_less mod_mult_self3 less_nat_zero_code)

lemma put_lines:
  assumes ok: "te_ok t" and k: "k < nat (te_sb_count t)" and c: "c < nat (te_cols t)"
  defines "i \<equiv> (nat (te_sb_head t) + k) mod nat (te_sb_lines t)"
  shows "te_lines (t\<lparr>te_sb := (te_sb t)[i * nat (te_cols t) + c := ch]\<rparr>) = (te_lines t)[k := (te_line t k)[c := ch]]"
    and "i * nat (te_cols t) + c < length (te_sb t)"
proof -
  let ?C = "nat (te_cols t)" and ?L = "nat (te_sb_lines t)"
  let ?t = "t\<lparr>te_sb := (te_sb t)[i * ?C + c := ch]\<rparr>"
  have L: "0 < ?L" "nat (te_sb_count t) \<le> ?L" "length (te_sb t) = ?L * ?C" using ok by (auto simp: te_ok_def)
  have place: "m * ?C + j < length (te_sb t)" if "m < ?L" "j < ?C" for m j
  proof -
    have "(m + 1) * ?C \<le> ?L * ?C" using that(1) by (intro mult_le_mono1) simp
    then show ?thesis using L(3) that(2) by simp
  qed
  have i: "i < ?L" using L(1) by (simp add: i_def)
  then show lt: "i * ?C + c < length (te_sb t)" using place c by simp
  have cell: "te_cell ?t m j = (if m = i \<and> j = c then ch else te_cell t m j)" if "m < ?L" "j < ?C" for m j
    using place [OF that] lt cell_index_eq [OF that(2) c, of m i] by (auto simp: te_cell_def nth_list_update)
  have line: "te_line ?t m = (if m = k then (te_line t k)[c := ch] else te_line t m)" if "m < nat (te_sb_count t)" for m
  proof -
    have "(nat (te_sb_head t) + m) mod ?L = i \<longleftrightarrow> m = k" unfolding i_def using ring_index_inj [of m ?L k] that k L(2) by simp
    moreover have "(nat (te_sb_head t) + m) mod ?L < ?L" using L(1) by simp
    ultimately show ?thesis using c cell by (auto simp: te_line_def intro!: nth_equalityI)
  qed
  show "te_lines ?t = (te_lines t)[k := (te_line t k)[c := ch]]"
    by (rule nth_equalityI) (use line in \<open>auto simp: te_lines_def nth_list_update\<close>)
qed

lemma update_last: "xs \<noteq> [] \<Longrightarrow> xs[length xs - 1 := y] = butlast xs @ [y]"
  by (induction xs rule: rev_induct) (simp_all add: list_update_append)

lemma shows_put:
  assumes sh: "shows_layout t (ls, col)" and col: "col < nat (te_cols t)"
  shows "\<exists>u. bindE (termemu_get_live_row (te_cur_row t) t) (\<lambda>row. bindE (put_cell (row + te_cur_col t) ch t) (\<lambda>u. set_dirty (te_cur_row u) True u)) = Inr u \<and>
    shows_layout (u\<lparr>te_cur_col := te_cur_col u + 1\<rparr>) (butlast ls @ [(last ls)[col := ch]], col + 1) \<and> te_cols u = te_cols t \<and> te_sb_lines u = te_sb_lines t"
proof -
  let ?C = "nat (te_cols t)" and ?L = "nat (te_sb_lines t)" and ?n = "nat (te_sb_count t)"
  have s: "te_ok t" "te_rows t \<le> te_sb_lines t" "te_esc t = 0" "te_scroll_offset t = 0" "ls \<noteq> []" "te_cur_col t = int col"
    "te_lines t = drop (length ls - ?L) ls" "te_cur_row t = min (te_sb_count t) (te_rows t) - 1"
    using sh by (simp_all add: shows_layout_def)
  have b: "1 \<le> te_sb_lines t" "1 \<le> te_sb_count t" "0 \<le> te_cur_row t" "te_cur_row t < te_rows t" "0 \<le> te_sb_head t" "1 \<le> te_cols t"
    using s(1) by (simp_all add: te_ok_def)
  have idx: "live_index t (te_cur_row t) = (nat (te_sb_head t) + (?n - 1)) mod ?L"
  proof -
    have "te_sb_head t + (te_sb_count t - min (te_sb_count t) (te_rows t)) + te_cur_row t = int (nat (te_sb_head t) + (?n - 1))"
      using s(8) b(2,5) by simp
    then show ?thesis by (simp only: live_index_def nat_int)
  qed
  have "?n - 1 < ?n" using b(2) by simp
  note put = put_lines(1) [where ch = ch, OF s(1) this col, folded idx] put_lines(2) [OF s(1) this col, folded idx]
  let ?i = "live_index t (te_cur_row t) * ?C + col"
  let ?t = "t\<lparr>te_sb := (te_sb t)[?i := ch]\<rparr>"
  note live = live_row_ok [OF s(1) b(3)]
  have "int (live_index t (te_cur_row t) * ?C) + te_cur_col t = int ?i" by (simp add: s(6))
  then have p: "put_cell (int (live_index t (te_cur_row t) * ?C) + te_cur_col t) ch t = Inr ?t"
    using put_cell_at [OF put(2), of ch] by (simp del: of_nat_mult)
  have w: "written t ?t" by simp
  have "te_ok ?t" using written_ok [OF w] s(1) by simp
  from set_dirty_drawn [OF this, of "te_cur_row t" True] obtain u where u: "set_dirty (te_cur_row t) True ?t = Inr u" "drawn ?t u"
    using b by auto
  note f = te_written_fields [OF drawn_written [OF u(2)]]
  let ?u = "u\<lparr>te_cur_col := te_cur_col u + 1\<rparr>"
  have ok: "te_ok ?u" using \<open>te_ok ?t\<close> written_ok [OF drawn_written [OF u(2)]] f s(6) col b(6) by (simp add: te_ok_def)
  have "te_lines ?u = te_lines ?t" by (rule te_lines_cong) (simp_all add: f drawn_fields [OF u(2)])
  also have "\<dots> = butlast (te_lines t) @ [(te_line t (?n - 1))[col := ch]]"
  proof -
    have "te_lines t \<noteq> []" using length_te_lines [of t] b(2) by auto
    from update_last [OF this, of "(te_line t (?n - 1))[col := ch]"] show ?thesis unfolding put(1) length_te_lines .
  qed
  also have "te_line t (?n - 1) = last ls"
  proof -
    have "te_line t (?n - 1) = last (te_lines t)" using b(2) by (simp add: te_lines_def last_map)
    moreover have "length ls - ?L < length ls" using s(5) b(1) by simp
    ultimately show ?thesis using s(7) by simp
  qed
  also have "butlast (te_lines t) @ [(last ls)[col := ch]] = drop (length ls - ?L) (butlast ls @ [(last ls)[col := ch]])"
    using s(5,7) b(1) by (simp add: butlast_drop)
  finally have "te_lines ?u = drop (length (butlast ls @ [(last ls)[col := ch]]) - ?L) (butlast ls @ [(last ls)[col := ch]])" using s(5) by simp
  then have "shows_layout ?u (butlast ls @ [(last ls)[col := ch]], col + 1)" using s ok by (simp add: shows_layout_def f)
  then show ?thesis using live(1) p u(1) f by (simp del: of_nat_mult)
qed

text \<open>Text: printable characters and newlines.\<close>

definition plain :: "u8 \<Rightarrow> bool" where
  "plain ch \<longleftrightarrow> ch = 10 \<or> 32 \<le> sint ch"

lemma shows_char:
  assumes sh: "shows_layout t l" and ch: "plain ch"
  shows "\<exists>t'. termemu_putchar ch t = Inr t' \<and> shows_layout t' (lay_char (nat (te_cols t)) ch l) \<and> te_cols t' = te_cols t \<and> te_sb_lines t' = te_sb_lines t"
proof -
  obtain ls col where l: "l = (ls, col)" by (cases l)
  have s: "te_ok t" "te_esc t = 0" "te_scroll_offset t = 0" "te_cur_col t = int col" using sh by (simp_all add: shows_layout_def l)
  have b: "te_sb_count t \<noteq> 0" "0 \<le> te_cur_row t" "te_cur_row t < te_rows t" "1 \<le> te_cols t" using s(1) by (simp_all add: te_ok_def)
  have n27: "ch \<noteq> 27" using ch by (auto simp: plain_def)
  then have run: "termemu_putchar ch t = put_text ch t" using s b(1) by (simp add: termemu_putchar_def to_live_def)
  show ?thesis
  proof (cases "ch = 10")
    case True
    obtain v where v: "set_dirty (te_cur_row t) True t = Inr v" "drawn t v" using set_dirty_drawn [OF s(1) b(2,3)] by blast
    note f = te_written_fields [OF drawn_written [OF v(2)]]
    have "te_lines v = te_lines t" by (rule te_lines_cong) (simp_all add: f drawn_fields [OF v(2)])
    then have "shows_layout v (ls, col)" using sh written_ok [OF drawn_written [OF v(2)]] by (simp add: l shows_layout_def f)
    from shows_advance [OF this] show ?thesis using run v(1) True by (auto simp: put_text_def lay_char_def l f)
  next
    case False
    then have p: "\<not> sint ch < 32" using ch by (simp add: plain_def)
    then have nc: "ch \<notin> {10, 13, 8, 9}" by auto
    let ?cols = "nat (te_cols t)"
    obtain u ls' col' where u: "(if te_cur_col t \<ge> te_cols t then advance_row (t\<lparr>te_cur_col := 0\<rparr>) else Inr t) = Inr u"
      "shows_layout u (ls', col')" "te_cols u = te_cols t" "te_sb_lines u = te_sb_lines t" "(if col \<ge> ?cols then (ls @ [replicate ?cols 32], 0) else (ls, col)) = (ls', col')" "col' < ?cols"
    proof (cases "te_cur_col t \<ge> te_cols t")
      case True
      then show thesis using that shows_advance [OF sh [unfolded l]] s(4) b(4) by fastforce
    next
      case False
      then show thesis using that sh s(4) b(4) by (simp add: l)
    qed
    have "col' < nat (te_cols u)" using u(3,6) by simp
    from shows_put [OF u(2) this, of ch] obtain w
      where w: "bindE (termemu_get_live_row (te_cur_row u) u) (\<lambda>row. bindE (put_cell (row + te_cur_col u) ch u) (\<lambda>u. set_dirty (te_cur_row u) True u)) = Inr w"
        "shows_layout (w\<lparr>te_cur_col := te_cur_col w + 1\<rparr>) (butlast ls' @ [(last ls')[col' := ch]], col' + 1)" "te_cols w = te_cols u" "te_sb_lines w = te_sb_lines u" by blast
    have "put_text ch t = bindE (termemu_get_live_row (te_cur_row u) u) (\<lambda>row.
        bindE (put_cell (row + te_cur_col u) ch u) (\<lambda>z. bindE (set_dirty (te_cur_row z) True z) (\<lambda>z. Inr (z\<lparr>te_cur_col := te_cur_col z + 1\<rparr>))))"
      using nc p u(1) by (simp add: put_text_def)
    also have "\<dots> = Inr (w\<lparr>te_cur_col := te_cur_col w + 1\<rparr>)" unfolding bindE_nest w(1) by simp
    finally have "put_text ch t = Inr (w\<lparr>te_cur_col := te_cur_col w + 1\<rparr>)" .
    moreover have "lay_char ?cols ch l = (butlast ls' @ [(last ls')[col' := ch]], col' + 1)"
      using False u(5) by (simp add: lay_char_def l split: if_splits)
    ultimately show ?thesis using run w(2-4) u(3,4) by simp
  qed
qed

text \<open>
  C38. Plain text written to a new terminal appears as the layout of the text says: cut into
  rows of the width of the terminal and at newlines, with the cursor after the last character;
  the ring holds exactly the last lines of the layout, as many as it has room for.
\<close>

theorem termemu_text:
  assumes init: "termemu_init room cols rows sb_lines = Inr t" and dims: "1 \<le> cols" "1 \<le> rows" "rows \<le> sb_lines"
    and plain_cs: "\<forall>ch\<in>set cs. plain ch"
  shows "\<exists>t' ls col. foldE termemu_putchar cs t = Inr t' \<and> lay_text (nat (min cols TERMEMU_MAX_COLS)) cs = (ls, col) \<and>
    te_lines t' = drop (length ls - nat (min sb_lines TERMEMU_MAX_SB)) ls \<and> te_cur_col t' = int col \<and>
    te_cur_row t' = min (te_sb_count t') (te_rows t') - 1"
proof -
  have run: "shows_layout u l \<Longrightarrow> \<forall>ch\<in>set cs. plain ch \<Longrightarrow> \<exists>t'. foldE termemu_putchar cs u = Inr t' \<and>
      shows_layout t' (fold (lay_char (nat (te_cols u))) cs l) \<and> te_sb_lines t' = te_sb_lines u" for u l
  proof (induction cs arbitrary: u l)
    case (Cons c cs)
    have c: "plain c" "\<forall>ch\<in>set cs. plain ch" using Cons.prems(2) by simp_all
    from shows_char [OF Cons.prems(1) c(1)] obtain v where v: "termemu_putchar c u = Inr v"
      "shows_layout v (lay_char (nat (te_cols u)) c l)" "te_cols v = te_cols u" "te_sb_lines v = te_sb_lines u" by blast
    from Cons.IH [OF v(2) c(2)] show ?case using v by simp
  qed auto
  have t: "te_ok t" "te_cols t = min cols TERMEMU_MAX_COLS" "te_rows t = min rows TERMEMU_MAX_ROWS" "te_sb_lines t = min sb_lines TERMEMU_MAX_SB"
    "te_sb_count t = 1" "te_sb_head t = 0" "te_cur_col t = 0" "te_cur_row t = 0" "te_esc t = 0" "te_scroll_offset t = 0"
    "te_sb t = replicate (nat (te_sb_lines t * te_cols t)) 32"
    using init dims
    by (auto simp: termemu_init_def Let_def te_ok_def TERMEMU_MAX_COLS_def TERMEMU_MAX_ROWS_def TERMEMU_MAX_SB_def nat_mult_distrib split: if_splits)
  have b: "0 < nat (te_sb_lines t)" "1 \<le> te_rows t" "length (te_sb t) = nat (te_sb_lines t) * nat (te_cols t)" using t(1) by (simp_all add: te_ok_def)
  have "te_rows t \<le> te_sb_lines t" using dims by (auto simp: t(3,4) TERMEMU_MAX_ROWS_def TERMEMU_MAX_SB_def min_def)
  moreover have "te_lines t = [blank_line t]"
  proof -
    have "te_cell t 0 j = 32" if "j < nat (te_cols t)" for j
    proof -
      have "1 * nat (te_cols t) \<le> nat (te_sb_lines t) * nat (te_cols t)" using b(1) by (intro mult_le_mono1) simp
      then have "j < length (te_sb t)" unfolding b(3) using that by linarith
      then show ?thesis by (simp add: te_cell_def t(11))
    qed
    then show ?thesis using b(1) by (auto simp: te_lines_def te_line_def blank_line_def t(5,6) intro!: nth_equalityI)
  qed
  ultimately have "shows_layout t ([replicate (nat (te_cols t)) 32], 0)"
    using t(1,5-10) b(1,2) by (simp add: shows_layout_def blank_line_def)
  from run [OF this plain_cs] show ?thesis
    by (auto simp: lay_text_def t(2,4) shows_layout_def)
qed

theorem termemu_text_witness:
  "\<exists>t t'. termemu_init (\<lambda>_. True) 3 2 2 = Inr t \<and> foldE termemu_putchar [97, 98, 99, 100, 10, 101] t = Inr t' \<and>
     te_lines t' = [[100, 32, 32], [101, 32, 32]] \<and> te_cur_col t' = 1"
proof -
  obtain t where t: "termemu_init (\<lambda>_. True) 3 2 2 = Inr t" by (simp add: termemu_init_def TERMEMU_MAX_COLS_def Let_def)
  have "\<forall>ch\<in>set [97, 98, 99, 100, 10, 101]. plain ch" by code_simp
  from termemu_text [OF t _ _ _ this] obtain t' ls col where
    r: "foldE termemu_putchar [97, 98, 99, 100, 10, 101] t = Inr t'" "lay_text (nat (min 3 TERMEMU_MAX_COLS)) [97, 98, 99, 100, 10, 101] = (ls, col)"
    "te_lines t' = drop (length ls - nat (min 2 TERMEMU_MAX_SB)) ls" "te_cur_col t' = int col" by auto
  have "lay_text (nat (min 3 TERMEMU_MAX_COLS)) [97, 98, 99, 100, 10, 101] = ([[97, 98, 99], [100, 32, 32], [101, 32, 32]], 1)" by code_simp
  then have "ls = [[97, 98, 99], [100, 32, 32], [101, 32, 32]]" "col = 1" using r(2) by simp_all
  moreover have "nat (min 2 TERMEMU_MAX_SB) = 2" by code_simp
  ultimately show ?thesis using t r(1,3,4) by auto
qed

end
