(* ===== verification/Readline.thy ===== *)
theory Readline
  imports Termemu
begin

text \<open>
  The line editor of the user programs, \<open>userland/libc/readline.c\<close>: the line with its cursor,
  the parser of escape sequences, and the ring of earlier lines.
\<close>

section \<open>The state\<close>

text \<open>
  The buffers belong to the caller: \<open>rl_buf\<close> and \<open>rl_hist_buf\<close> are their bytes, the latter
  \<open>None\<close> for the null pointer. \<open>rl_out\<close> is what was written to descriptor 1.
\<close>

record readline_state =
  rl_buf :: "u8 list"
  rl_bufsize :: int
  rl_len :: int
  rl_cursor :: int
  rl_esc :: nat
  rl_csi_param :: int
  rl_csi_final :: u8
  rl_hist_buf :: "u8 list option"
  rl_hist_max :: int
  rl_hist_len :: int
  rl_hist_head :: int
  rl_hist_count :: int
  rl_hist_idx :: int
  rl_hist_save_len :: int
  rl_out :: "u8 list"

definition RL_CTRLC :: int where "RL_CTRLC = -2"

text \<open>A byte at an index of a buffer.\<close>

definition byte_at :: "u8 list \<Rightarrow> int \<Rightarrow> fault + u8" where
  "byte_at b i = (if 0 \<le> i \<and> nat i < length b then Inr (b ! nat i) else Inl BadAccess)"

definition byte_put :: "u8 list \<Rightarrow> int \<Rightarrow> u8 \<Rightarrow> fault + u8 list" where
  "byte_put b i c = (if 0 \<le> i \<and> nat i < length b then Inr (b[nat i := c]) else Inl BadAccess)"

definition rl_put :: "int \<Rightarrow> u8 \<Rightarrow> readline_state \<Rightarrow> fault + readline_state" where
  "rl_put i c rl = bindE (byte_put (rl_buf rl) i c) (\<lambda>b. Inr (rl\<lparr>rl_buf := b\<rparr>))"

definition rl_write :: "u8 list \<Rightarrow> readline_state \<Rightarrow> readline_state" where
  "rl_write bs rl = rl\<lparr>rl_out := rl_out rl @ bs\<rparr>"

text \<open>The number of places to go back, as the escape sequence for the terminal.\<close>

definition cursor_back :: "int \<Rightarrow> u8 list" where
  "cursor_back backs =
     [27, 91] @ (if backs \<ge> 100 then [word_of_int (48 + backs sdiv 100)] else []) @
     (if backs \<ge> 10 then [word_of_int (48 + backs sdiv 10 smod 10)] else []) @ [word_of_int (48 + backs smod 10), 68]"

definition reprint :: "u8 list \<Rightarrow> readline_state \<Rightarrow> fault + readline_state" where
  "reprint prompt rl =
     (let backs = wrap32 (rl_len rl - rl_cursor rl) in
      if 0 \<le> rl_len rl \<and> nat (rl_len rl) \<le> length (rl_buf rl)
      then Inr (rl_write ([13] @ prompt @ take (nat (rl_len rl)) (rl_buf rl) @ [27, 91, 75] @
                          (if backs > 0 then cursor_back backs else [])) rl)
      else Inl BadAccess)"

definition readline_init :: "u8 list \<Rightarrow> int \<Rightarrow> u8 list option \<Rightarrow> int \<Rightarrow> int \<Rightarrow> u8 list \<Rightarrow> readline_state" where
  "readline_init buf bufsize hist_buf hist_max hist_len out =
     \<lparr>rl_buf = buf, rl_bufsize = bufsize, rl_len = 0, rl_cursor = 0, rl_esc = 0, rl_csi_param = 0, rl_csi_final = 0,
      rl_hist_buf = hist_buf, rl_hist_max = hist_max, rl_hist_len = hist_len, rl_hist_head = 0, rl_hist_count = 0,
      rl_hist_idx = -1, rl_hist_save_len = 0, rl_out = out\<rparr>"

section \<open>The history\<close>

text \<open>Whether the \<open>n\<close> bytes at \<open>i\<close> and at \<open>j\<close> are the same; copying them from \<open>j\<close> to \<open>i\<close>.\<close>

fun same_bytes :: "u8 list \<Rightarrow> int \<Rightarrow> u8 list \<Rightarrow> int \<Rightarrow> nat \<Rightarrow> fault + bool" where
  "same_bytes a i b j 0 = Inr True"
| "same_bytes a i b j (Suc n) =
     bindE (byte_at a i) (\<lambda>x. bindE (byte_at b j) (\<lambda>y.
       if x \<noteq> y then Inr False else same_bytes a (i + 1) b (j + 1) n))"

fun rl_copy :: "u8 list \<Rightarrow> int \<Rightarrow> u8 list \<Rightarrow> int \<Rightarrow> nat \<Rightarrow> fault + u8 list" where
  "rl_copy a i b j 0 = Inr a"
| "rl_copy a i b j (Suc n) =
     bindE (byte_at b j) (\<lambda>y. bindE (byte_put a i y) (\<lambda>a. rl_copy a (i + 1) b (j + 1) n))"

definition readline_history_push :: "u8 list \<Rightarrow> int \<Rightarrow> readline_state \<Rightarrow> fault + readline_state" where
  "readline_history_push line len rl =
     (case rl_hist_buf rl of
        None \<Rightarrow> Inr rl
      | Some hist \<Rightarrow>
          if len \<le> 0 \<or> len \<ge> rl_hist_len rl then Inr rl
          else if rl_hist_max rl = 0 \<and> (0 < rl_hist_count rl \<or> \<not> rl_hist_count rl < rl_hist_max rl) then divide_fault
          else
            bindE (if rl_hist_count rl > 0
                   then same_bytes hist ((rl_hist_head rl + rl_hist_count rl - 1) smod rl_hist_max rl * rl_hist_len rl) line 0 (nat (len + 1))
                   else Inr False) (\<lambda>is_dup.
              if is_dup then Inr rl
              else
                let (slot, rl') =
                  (if rl_hist_count rl < rl_hist_max rl
                   then ((rl_hist_head rl + rl_hist_count rl) smod rl_hist_max rl, rl\<lparr>rl_hist_count := rl_hist_count rl + 1\<rparr>)
                   else (rl_hist_head rl, rl\<lparr>rl_hist_head := (rl_hist_head rl + 1) smod rl_hist_max rl\<rparr>))
                in bindE (rl_copy hist (slot * rl_hist_len rl) line 0 (nat (len + 1))) (\<lambda>hist.
                     Inr (rl'\<lparr>rl_hist_buf := Some hist\<rparr>))))"

text \<open>The length of the string at \<open>i\<close>, at most \<open>k\<close>.\<close>

fun hist_scan :: "u8 list \<Rightarrow> int \<Rightarrow> nat \<Rightarrow> fault + nat" where
  "hist_scan h i k =
     bindE (byte_at h i) (\<lambda>c.
       if c = 0 then Inr 0
       else case k of 0 \<Rightarrow> Inr 0 | Suc k \<Rightarrow> bindE (hist_scan h (i + 1) k) (\<lambda>n. Inr (Suc n)))"

declare hist_scan.simps [simp del]

definition hist_load :: "u8 list \<Rightarrow> readline_state \<Rightarrow> fault + readline_state" where
  "hist_load prompt rl =
     (case rl_hist_buf rl of
        None \<Rightarrow> Inl NullDeref
      | Some hist \<Rightarrow>
          let src = rl_hist_idx rl * rl_hist_len rl in
          bindE (hist_scan hist src (nat (rl_bufsize rl - 1))) (\<lambda>n.
          bindE (rl_copy (rl_buf rl) 0 hist src n) (\<lambda>b.
            reprint prompt (rl\<lparr>rl_buf := b, rl_len := int n, rl_cursor := int n\<rparr>))))"

section \<open>Keys\<close>

text \<open>\<open>buf[i] = buf[i + 1]\<close> for \<open>k\<close> places from \<open>i\<close>, and \<open>buf[i] = buf[i - 1]\<close> downwards.\<close>

fun close_gap :: "u8 list \<Rightarrow> int \<Rightarrow> nat \<Rightarrow> fault + u8 list" where
  "close_gap b i 0 = Inr b"
| "close_gap b i (Suc k) = bindE (byte_at b (i + 1)) (\<lambda>c. bindE (byte_put b i c) (\<lambda>b. close_gap b (i + 1) k))"

fun open_gap :: "u8 list \<Rightarrow> int \<Rightarrow> nat \<Rightarrow> fault + u8 list" where
  "open_gap b i 0 = Inr b"
| "open_gap b i (Suc k) = bindE (byte_at b (i - 1)) (\<lambda>c. bindE (byte_put b i c) (\<lambda>b. open_gap b (i - 1) k))"

definition delete_at_cursor :: "u8 list \<Rightarrow> readline_state \<Rightarrow> fault + readline_state" where
  "delete_at_cursor prompt rl =
     bindE (close_gap (rl_buf rl) (rl_cursor rl) (nat (rl_len rl - 1 - rl_cursor rl))) (\<lambda>b.
       reprint prompt (rl\<lparr>rl_buf := b, rl_len := rl_len rl - 1\<rparr>))"

definition handle_csi :: "u8 list \<Rightarrow> u8 \<Rightarrow> readline_state \<Rightarrow> fault + readline_state" where
  "handle_csi prompt final rl =
     (let n = (if rl_csi_param rl > 0 then rl_csi_param rl else 1) in
      if final = 126 then
        (if rl_csi_final rl = 51 \<and> rl_cursor rl < rl_len rl then delete_at_cursor prompt rl else Inr rl)
      else if final = 65 then
        (if rl_hist_buf rl = None \<or> rl_hist_count rl = 0 then Inr rl
         else
           let rl = (if rl_hist_idx rl < 0 then rl\<lparr>rl_hist_save_len := rl_len rl, rl_hist_idx := rl_hist_count rl\<rparr> else rl)
           in if rl_hist_idx rl > 0 then hist_load prompt (rl\<lparr>rl_hist_idx := rl_hist_idx rl - 1\<rparr>) else Inr rl)
      else if final = 66 then
        (if rl_hist_buf rl = None \<or> rl_hist_idx rl < 0 then Inr rl
         else if rl_hist_idx rl + 1 \<ge> rl_hist_count rl then reprint prompt (rl\<lparr>rl_hist_idx := -1, rl_len := 0, rl_cursor := 0\<rparr>)
         else hist_load prompt (rl\<lparr>rl_hist_idx := rl_hist_idx rl + 1\<rparr>))
      else if final = 68 then
        (if rl_cursor rl > 0 then
           let c = wrap32 (rl_cursor rl - n) in reprint prompt (rl\<lparr>rl_cursor := (if c < 0 then 0 else c)\<rparr>)
         else Inr rl)
      else if final = 67 then
        (if rl_cursor rl < rl_len rl then
           let c = wrap32 (rl_cursor rl + n) in reprint prompt (rl\<lparr>rl_cursor := (if c > rl_len rl then rl_len rl else c)\<rparr>)
         else Inr rl)
      else if final = 72 then (if rl_cursor rl > 0 then reprint prompt (rl\<lparr>rl_cursor := 0\<rparr>) else Inr rl)
      else if final = 70 then (if rl_cursor rl < rl_len rl then reprint prompt (rl\<lparr>rl_cursor := rl_len rl\<rparr>) else Inr rl)
      else Inr rl)"

definition handle_sentinel :: "u8 list \<Rightarrow> u8 \<Rightarrow> readline_state \<Rightarrow> fault + int \<times> readline_state" where
  "handle_sentinel prompt s rl =
     (let handled = (\<lambda>r. bindE r (\<lambda>rl. Inr (1, rl))) in
      if s = 0x10 then handled (handle_csi prompt 65 rl)
      else if s = 0x11 then handled (handle_csi prompt 66 rl)
      else if s = 0x12 then handled (handle_csi prompt 68 (rl\<lparr>rl_csi_param := 0\<rparr>))
      else if s = 0x13 then handled (handle_csi prompt 67 (rl\<lparr>rl_csi_param := 0\<rparr>))
      else if s = 0x14 then handled (handle_csi prompt 72 rl)
      else if s = 0x15 then handled (handle_csi prompt 70 rl)
      else if s = 0x16 then handled (if rl_cursor rl < rl_len rl then delete_at_cursor prompt rl else Inr rl)
      else Inr (0, rl))"

section \<open>The loop\<close>

definition insert_char :: "u8 list \<Rightarrow> u8 \<Rightarrow> readline_state \<Rightarrow> fault + readline_state" where
  "insert_char prompt c rl =
     (if rl_len rl < rl_bufsize rl - 1 then
        bindE (open_gap (rl_buf rl) (rl_len rl) (nat (rl_len rl - rl_cursor rl))) (\<lambda>b.
        bindE (byte_put b (rl_cursor rl) c) (\<lambda>b.
          reprint prompt (rl\<lparr>rl_buf := b, rl_len := rl_len rl + 1, rl_cursor := rl_cursor rl + 1\<rparr>)))
      else Inr rl)"

text \<open>One character: the result of the call, or \<open>None\<close> to read on.\<close>

definition readline_char :: "u8 list \<Rightarrow> u8 \<Rightarrow> readline_state \<Rightarrow> fault + int option \<times> readline_state" where
  "readline_char prompt c rl =
     (let on = (\<lambda>r. bindE r (\<lambda>rl. Inr (None, rl))) in
      if rl_esc rl = 1 then
        Inr (None, if c = 91 then rl\<lparr>rl_esc := 2, rl_csi_param := 0, rl_csi_final := 0\<rparr> else rl\<lparr>rl_esc := 0\<rparr>)
      else if rl_esc rl = 2 then
        (if 48 \<le> sint c \<and> sint c \<le> 57
         then Inr (None, rl\<lparr>rl_csi_param := wrap32 (rl_csi_param rl * 10 + (sint c - 48)), rl_csi_final := c\<rparr>)
         else if 0x40 \<le> sint c \<and> sint c \<le> 0x7E then on (handle_csi prompt c (rl\<lparr>rl_esc := 0\<rparr>))
         else Inr (None, rl\<lparr>rl_esc := 0\<rparr>))
      else if c = 27 then Inr (None, rl\<lparr>rl_esc := 1\<rparr>)
      else if c = 3 then
        bindE (rl_put 0 0 (rl\<lparr>rl_len := 0, rl_cursor := 0\<rparr>)) (\<lambda>rl. Inr (Some RL_CTRLC, rl_write [94, 67, 10] rl))
      else if c = 10 then
        bindE (rl_put (rl_len rl) 0 rl) (\<lambda>rl. Inr (Some (rl_len rl), rl_write [10] rl\<lparr>rl_hist_idx := -1\<rparr>))
      else if c = 8 \<or> c = 0x7F then
        (if rl_cursor rl > 0 then on (delete_at_cursor prompt (rl\<lparr>rl_cursor := rl_cursor rl - 1\<rparr>)) else Inr (None, rl))
      else if 0x10 \<le> c \<and> c \<le> 0x16 then bindE (handle_sentinel prompt c rl) (\<lambda>(_, rl). Inr (None, rl))
      else if c < 32 then Inr (None, rl)
      else on (insert_char prompt c rl))"

text \<open>The characters that arrive; the call goes on waiting when none of them ends it.\<close>

fun readline_loop :: "u8 list \<Rightarrow> u8 list \<Rightarrow> readline_state \<Rightarrow> fault + int option \<times> u8 list \<times> readline_state" where
  "readline_loop prompt [] rl = Inr (None, [], rl)"
| "readline_loop prompt (c # cs) rl =
     bindE (readline_char prompt c rl) (\<lambda>(r, rl).
       case r of Some v \<Rightarrow> Inr (Some v, cs, rl) | None \<Rightarrow> readline_loop prompt cs rl)"

definition readline_readline :: "u8 list \<Rightarrow> u8 list \<Rightarrow> readline_state \<Rightarrow> fault + int option \<times> u8 list \<times> readline_state" where
  "readline_readline prompt input rl =
     readline_loop prompt input (rl_write prompt (rl\<lparr>rl_len := 0, rl_cursor := 0, rl_esc := 0, rl_hist_idx := -1\<rparr>))"

section \<open>What the editor promises\<close>

text \<open>Moving bytes.\<close>

lemma byte_at_append [simp]: "byte_at (xs @ y # zs) (int (length xs)) = Inr y"
  by (simp add: byte_at_def)

lemma byte_put_append [simp]: "byte_put (xs @ y # zs) (int (length xs)) c = Inr (xs @ c # zs)"
  by (simp add: byte_put_def)

lemma close_gap_eq: "close_gap (xs @ y # ys @ zs) (int (length xs)) (length ys) = Inr (xs @ ys @ last (y # ys) # zs)"
proof (induction ys arbitrary: xs y)
  case (Cons w ys)
  have "byte_at (xs @ y # w # ys @ zs) (int (length xs) + 1) = Inr w"
    using byte_at_append [of "xs @ [y]" w "ys @ zs"] by (simp add: add.commute)
  then show ?case using Cons.IH [of "xs @ [w]" w] by (simp add: add.commute)
qed simp

lemma open_gap_eq: "open_gap (xs @ ys @ y # zs) (int (length xs + length ys)) (length ys) = Inr (xs @ hd (ys @ [y]) # ys @ zs)"
proof (induction ys arbitrary: y zs rule: rev_induct)
  case (snoc w ys)
  have "byte_at (xs @ ys @ w # y # zs) (int (length xs + length ys)) = Inr w"
    using byte_at_append [of "xs @ ys" w "y # zs"] by simp
  moreover have "byte_put (xs @ ys @ w # y # zs) (int (length xs + length ys) + 1) w = Inr (xs @ ys @ w # w # zs)"
    using byte_put_append [of "xs @ ys @ [w]" y zs w] by (simp add: add.commute)
  ultimately show ?case using snoc.IH [of w "w # zs"] by (cases ys) (simp_all add: add.commute)
qed simp

lemma rl_copy_eq:
  "length ys = length vs \<Longrightarrow> rl_copy (xs @ ys @ zs) (int (length xs)) (us @ vs @ ws) (int (length us)) (length ys) = Inr (xs @ vs @ zs)"
proof (induction ys vs arbitrary: xs us rule: list_induct2)
  case (Cons y ys v vs)
  then show ?case using Cons.IH [of "xs @ [v]" "us @ [v]"] by (simp add: add.commute)
qed simp

lemma hist_scan_eq: "0 \<in> set (drop i h) \<Longrightarrow> hist_scan h (int i) k = Inr (length (take k (takeWhile (\<lambda>c. c \<noteq> 0) (drop i h))))"
proof (induction k arbitrary: i)
  case 0
  then have "i < length h" by (cases "i < length h") auto
  then show ?case by (subst hist_scan.simps) (simp add: byte_at_def)
next
  case (Suc k)
  then have i: "i < length h" by (cases "i < length h") auto
  then have d: "drop i h = h ! i # drop (Suc i) h" by (simp add: Cons_nth_drop_Suc)
  have "h ! i = 0 \<or> hist_scan h (int i + 1) k = Inr (length (take k (takeWhile (\<lambda>c. c \<noteq> 0) (drop (Suc i) h))))"
    using Suc.IH [of "Suc i"] Suc.prems by (auto simp: d add.commute)
  then show ?case using i by (subst hist_scan.simps) (auto simp: byte_at_def d)
qed

text \<open>The lines of the history, as they lie in the slots.\<close>

definition hist_slot :: "u8 list \<Rightarrow> nat \<Rightarrow> nat \<Rightarrow> u8 list" where
  "hist_slot h n k = take n (drop (k * n) h)"

definition hist_lines :: "readline_state \<Rightarrow> u8 list list" where
  "hist_lines rl = (case rl_hist_buf rl of None \<Rightarrow> []
     | Some h \<Rightarrow> map (\<lambda>k. takeWhile (\<lambda>c. c \<noteq> 0) (hist_slot h (nat (rl_hist_len rl)) k)) [0..<nat (rl_hist_count rl)])"

definition hist_ok :: "readline_state \<Rightarrow> bool" where
  "hist_ok rl \<longleftrightarrow> (case rl_hist_buf rl of None \<Rightarrow> True
     | Some h \<Rightarrow> 1 \<le> rl_hist_max rl \<and> 1 \<le> rl_hist_len rl \<and> length h = nat (rl_hist_max rl) * nat (rl_hist_len rl) \<and>
         0 \<le> rl_hist_head rl \<and> rl_hist_head rl < rl_hist_max rl \<and> 0 \<le> rl_hist_count rl \<and> rl_hist_count rl \<le> rl_hist_max rl \<and>
         (\<forall>k<nat (rl_hist_count rl). 0 \<in> set (hist_slot h (nat (rl_hist_len rl)) k)))"

definition rl_ok :: "readline_state \<Rightarrow> bool" where
  "rl_ok rl \<longleftrightarrow> 1 \<le> rl_bufsize rl \<and> rl_bufsize rl \<le> 2 ^ 30 \<and> length (rl_buf rl) = nat (rl_bufsize rl) \<and>
     0 \<le> rl_cursor rl \<and> rl_cursor rl \<le> rl_len rl \<and> rl_len rl < rl_bufsize rl \<and> hist_ok rl \<and>
     -1 \<le> rl_hist_idx rl \<and> rl_hist_idx rl < max 0 (int (length (hist_lines rl)))"

section \<open>The editor as a pair of lists\<close>

text \<open>
  The text before and behind the cursor, and the line of the history that is shown.
\<close>

type_synonym line = "u8 list \<times> u8 list \<times> nat option"

datatype key = Type u8 | Backspace | Delete | Lft nat | Rgt nat | Home | End | Older | Newer | Enter | Cancel | Other

fun edit :: "nat \<Rightarrow> u8 list list \<Rightarrow> key \<Rightarrow> line \<Rightarrow> line" where
  "edit m hs (Type c) (l, r, i) = (if length l + length r < m then (l @ [c], r, i) else (l, r, i))"
| "edit m hs Backspace (l, r, i) = (butlast l, r, i)"
| "edit m hs Delete (l, r, i) = (l, tl r, i)"
| "edit m hs (Lft n) (l, r, i) = (take (length l - n) l, drop (length l - n) l @ r, i)"
| "edit m hs (Rgt n) (l, r, i) = (l @ take n r, drop n r, i)"
| "edit m hs Home (l, r, i) = ([], l @ r, i)"
| "edit m hs End (l, r, i) = (l @ r, [], i)"
| "edit m hs Older (l, r, i) =
     (case i of
        None \<Rightarrow> if hs = [] then (l, r, i) else (take m (last hs), [], Some (length hs - 1))
      | Some 0 \<Rightarrow> (l, r, i)
      | Some (Suc k) \<Rightarrow> (take m (hs ! k), [], Some k))"
| "edit m hs Newer (l, r, i) =
     (case i of
        None \<Rightarrow> (l, r, i)
      | Some k \<Rightarrow> if Suc k < length hs then (take m (hs ! Suc k), [], Some (Suc k)) else ([], [], None))"
| "edit m hs _ (l, r, i) = (l, r, i)"

definition rl_abs :: "readline_state \<Rightarrow> line" where
  "rl_abs rl = (take (nat (rl_cursor rl)) (rl_buf rl),
     take (nat (rl_len rl) - nat (rl_cursor rl)) (drop (nat (rl_cursor rl)) (rl_buf rl)),
     if rl_hist_idx rl < 0 then None else Some (nat (rl_hist_idx rl)))"

text \<open>Only the line, the place in the history, the parser and the output are different.\<close>

definition rl_frame :: "readline_state \<Rightarrow> readline_state \<Rightarrow> bool" where
  "rl_frame rl rl' \<longleftrightarrow> rl_bufsize rl' = rl_bufsize rl \<and> rl_hist_buf rl' = rl_hist_buf rl \<and> rl_hist_max rl' = rl_hist_max rl \<and>
     rl_hist_len rl' = rl_hist_len rl \<and> rl_hist_head rl' = rl_hist_head rl \<and> rl_hist_count rl' = rl_hist_count rl"

definition edits :: "key \<Rightarrow> readline_state \<Rightarrow> fault + readline_state \<Rightarrow> bool" where
  "edits k rl r \<longleftrightarrow> (\<exists>rl'. r = Inr rl' \<and> rl_ok rl' \<and> rl_frame rl rl' \<and> rl_esc rl' = rl_esc rl \<and>
     rl_abs rl' = edit (nat (rl_bufsize rl) - 1) (hist_lines rl) k (rl_abs rl))"

lemma frame_hist: "rl_frame rl rl' \<Longrightarrow> hist_lines rl' = hist_lines rl" "rl_frame rl rl' \<Longrightarrow> hist_ok rl' = hist_ok rl"
  by (cases "rl_hist_buf rl"; simp add: rl_frame_def hist_lines_def hist_ok_def)+

lemma rl_frame_refl [simp]: "rl_frame rl rl" and rl_frame_trans: "rl_frame a b \<Longrightarrow> rl_frame b c \<Longrightarrow> rl_frame a c"
  by (simp_all add: rl_frame_def)

text \<open>A new line with its cursor, drawn.\<close>

lemma reprint_ok: "0 \<le> rl_len rl \<Longrightarrow> nat (rl_len rl) \<le> length (rl_buf rl) \<Longrightarrow> \<exists>o'. reprint prompt rl = Inr (rl\<lparr>rl_out := o'\<rparr>)"
  unfolding reprint_def Let_def rl_write_def by (simp only: if_True simp_thms) (rule exI, rule refl)

lemma edits_reprint:
  assumes "rl_ok rl'" and "rl_frame rl rl'" and "rl_esc rl' = rl_esc rl" and "rl_abs rl' = edit (nat (rl_bufsize rl) - 1) (hist_lines rl) k (rl_abs rl)"
  shows "edits k rl (reprint prompt rl')"
proof -
  have "nat (rl_len rl') \<le> length (rl_buf rl')" using assms(1) by (auto simp: rl_ok_def)
  then obtain o' where o: "reprint prompt rl' = Inr (rl'\<lparr>rl_out := o'\<rparr>)" using reprint_ok [of rl'] assms(1) by (auto simp: rl_ok_def)
  have fr: "rl_frame rl' (rl'\<lparr>rl_out := o'\<rparr>)" by (simp add: rl_frame_def)
  have "rl_ok (rl'\<lparr>rl_out := o'\<rparr>)" using assms(1) by (simp add: rl_ok_def frame_hist [OF fr])
  moreover have "rl_abs (rl'\<lparr>rl_out := o'\<rparr>) = rl_abs rl'" by (simp add: rl_abs_def)
  ultimately show ?thesis using assms(3,4) rl_frame_trans [OF assms(2) fr] by (simp add: edits_def o)
qed

text \<open>The buffer as the text before the cursor, the text behind it and the rest.\<close>

lemma rl_parts:
  assumes "rl_ok rl"
  obtains l r z where "rl_buf rl = l @ r @ z" and "z \<noteq> []" and "rl_cursor rl = int (length l)" and "rl_len rl = int (length l + length r)"
    and "rl_abs rl = (l, r, if rl_hist_idx rl < 0 then None else Some (nat (rl_hist_idx rl)))"
    and "nat (rl_bufsize rl) = length l + length r + length z"
proof -
  define c n where "c = nat (rl_cursor rl)" and "n = nat (rl_len rl)"
  have b: "c \<le> n" "n < length (rl_buf rl)" "rl_cursor rl = int c" "rl_len rl = int n" "length (rl_buf rl) = nat (rl_bufsize rl)"
    using assms by (auto simp: rl_ok_def c_def n_def)
  have "rl_buf rl = take c (rl_buf rl) @ take (n - c) (drop c (rl_buf rl)) @ drop n (rl_buf rl)"
    using b(1) append_take_drop_id [of "n - c" "drop c (rl_buf rl)"] append_take_drop_id [of c "rl_buf rl"] by (simp add: drop_drop)
  then show ?thesis by (rule that) (use b in \<open>simp_all add: rl_abs_def\<close>)
qed

lemma edits_line:
  assumes ok: "rl_ok rl" and frame: "rl_frame rl rl'" "rl_esc rl' = rl_esc rl"
    and buf: "rl_buf rl' = l @ r @ z" "length (rl_buf rl') = length (rl_buf rl)" "z \<noteq> []"
    and pos: "rl_cursor rl' = int (length l)" "rl_len rl' = int (length l + length r)"
    and idx: "-1 \<le> rl_hist_idx rl'" "rl_hist_idx rl' < max 0 (int (length (hist_lines rl)))"
    and new: "edit (nat (rl_bufsize rl) - 1) (hist_lines rl) k (rl_abs rl) = (l, r, if rl_hist_idx rl' < 0 then None else Some (nat (rl_hist_idx rl')))"
  shows "edits k rl (reprint prompt rl')"
proof (rule edits_reprint [OF _ frame])
  have b: "1 \<le> rl_bufsize rl" "rl_bufsize rl \<le> 2 ^ 30" "length (rl_buf rl') = nat (rl_bufsize rl)" "hist_ok rl" using ok buf(2) by (simp_all add: rl_ok_def)
  have f: "rl_bufsize rl' = rl_bufsize rl" using frame(1) by (simp add: rl_frame_def)
  have "length l + length r < nat (rl_bufsize rl)" using b(3) buf(3) by (simp add: buf(1) flip: b(3))
  then show "rl_ok rl'" unfolding rl_ok_def frame_hist [OF frame(1)] f pos using b idx by linarith
  show "rl_abs rl' = edit (nat (rl_bufsize rl) - 1) (hist_lines rl) k (rl_abs rl)" unfolding new by (simp add: rl_abs_def buf(1) pos)
qed

lemma edits_same: "rl_ok rl \<Longrightarrow> edit (nat (rl_bufsize rl) - 1) (hist_lines rl) k (rl_abs rl) = rl_abs rl \<Longrightarrow> edits k rl (Inr rl)"
  by (simp add: edits_def)

lemma rl_idx: "rl_ok rl \<Longrightarrow> -1 \<le> rl_hist_idx rl" "rl_ok rl \<Longrightarrow> rl_hist_idx rl < max 0 (int (length (hist_lines rl)))"
  by (simp_all add: rl_ok_def)

section \<open>The keys\<close>

lemma edits_delete:
  assumes ok: "rl_ok rl" and pos: "rl_cursor rl < rl_len rl"
  shows "edits Delete rl (delete_at_cursor prompt rl)"
proof -
  obtain l r z where p: "rl_buf rl = l @ r @ z" "z \<noteq> []" "rl_cursor rl = int (length l)" "rl_len rl = int (length l + length r)"
    "rl_abs rl = (l, r, if rl_hist_idx rl < 0 then None else Some (nat (rl_hist_idx rl)))" using rl_parts [OF ok] by metis
  then obtain y ys where r: "r = y # ys" using pos by (cases r) auto
  have k: "nat (rl_len rl - 1 - rl_cursor rl) = length ys" by (simp add: p r)
  have g: "close_gap (rl_buf rl) (rl_cursor rl) (length ys) = Inr (l @ ys @ last (y # ys) # z)"
    using close_gap_eq [of l y ys z] by (simp add: p r)
  let ?rl = "rl\<lparr>rl_buf := l @ ys @ last (y # ys) # z, rl_len := rl_len rl - 1\<rparr>"
  have "edits Delete rl (reprint prompt ?rl)"
    by (rule edits_line [OF ok, where l = l and r = ys and z = "last (y # ys) # z"])
      (use rl_idx [OF ok] in \<open>simp_all add: p r rl_frame_def\<close>)
  then show ?thesis unfolding delete_at_cursor_def k g by (simp only: bindE_simps)
qed

lemma edits_backspace:
  assumes ok: "rl_ok rl" and pos: "rl_cursor rl > 0"
  shows "edits Backspace rl (delete_at_cursor prompt (rl\<lparr>rl_cursor := rl_cursor rl - 1\<rparr>))"
proof -
  obtain l r z where p: "rl_buf rl = l @ r @ z" "z \<noteq> []" "rl_cursor rl = int (length l)" "rl_len rl = int (length l + length r)"
    "rl_abs rl = (l, r, if rl_hist_idx rl < 0 then None else Some (nat (rl_hist_idx rl)))" using rl_parts [OF ok] by metis
  then obtain xs y where l: "l = xs @ [y]" using pos by (cases l rule: rev_cases) auto
  let ?rl = "rl\<lparr>rl_cursor := rl_cursor rl - 1\<rparr>"
  have k: "nat (rl_len ?rl - 1 - rl_cursor ?rl) = length r" by (simp add: p l)
  have g: "close_gap (rl_buf ?rl) (rl_cursor ?rl) (length r) = Inr (xs @ r @ last (y # r) # z)"
    using close_gap_eq [of xs y r z] by (simp add: p l)
  have "edits Backspace rl (reprint prompt (?rl\<lparr>rl_buf := xs @ r @ last (y # r) # z, rl_len := rl_len ?rl - 1\<rparr>))"
    by (rule edits_line [OF ok, where l = xs and r = r and z = "last (y # r) # z"])
      (use rl_idx [OF ok] in \<open>simp_all add: p l rl_frame_def\<close>)
  then show ?thesis unfolding delete_at_cursor_def k g by (simp only: bindE_simps)
qed

lemma edits_insert:
  assumes ok: "rl_ok rl"
  shows "edits (Type c) rl (insert_char prompt c rl)"
proof -
  obtain l r z where p: "rl_buf rl = l @ r @ z" "z \<noteq> []" "rl_cursor rl = int (length l)" "rl_len rl = int (length l + length r)"
    "rl_abs rl = (l, r, if rl_hist_idx rl < 0 then None else Some (nat (rl_hist_idx rl)))"
    "nat (rl_bufsize rl) = length l + length r + length z" using rl_parts [OF ok] by metis
  obtain w zs where z: "z = w # zs" using p(2) by (cases z) auto
  have size: "rl_bufsize rl = int (length l + length r + length z)" using p(6) ok unfolding rl_ok_def by linarith
  show ?thesis
  proof (cases "zs = []")
    case True
    then show ?thesis by (simp add: insert_char_def p size z edits_same [OF ok])
  next
    case False
    have k: "nat (rl_len rl - rl_cursor rl) = length r" by (simp add: p)
    have m: "nat (rl_bufsize rl) - 1 = length l + length r + length zs" by (simp add: p(6) z)
    have g: "open_gap (rl_buf rl) (rl_len rl) (length r) = Inr (l @ hd (r @ [w]) # r @ zs)"
      using open_gap_eq [of l r w zs] by (simp add: p z)
    have b: "byte_put (l @ hd (r @ [w]) # r @ zs) (rl_cursor rl) c = Inr (l @ c # r @ zs)" by (simp add: p)
    have "edits (Type c) rl (reprint prompt (rl\<lparr>rl_buf := l @ c # r @ zs, rl_len := rl_len rl + 1, rl_cursor := rl_cursor rl + 1\<rparr>))"
      by (rule edits_line [OF ok, where l = "l @ [c]" and r = r and z = zs])
        (use rl_idx [OF ok] False m in \<open>simp_all add: p(1-5) z rl_frame_def del: One_nat_def\<close>)
    then show ?thesis using False by (simp only: insert_char_def k g b bindE_simps) (simp add: p size z)
  qed
qed

text \<open>Moving the cursor.\<close>

lemma edits_move:
  assumes ok: "rl_ok rl" and c: "0 \<le> c" "c \<le> rl_len rl"
    and new: "edit (nat (rl_bufsize rl) - 1) (hist_lines rl) k (rl_abs rl) =
      (take (nat c) (fst (rl_abs rl) @ fst (snd (rl_abs rl))), drop (nat c) (fst (rl_abs rl) @ fst (snd (rl_abs rl))), snd (snd (rl_abs rl)))"
  shows "edits k rl (reprint prompt (rl\<lparr>rl_cursor := c\<rparr>))"
proof -
  obtain l r z where p: "rl_buf rl = l @ r @ z" "z \<noteq> []" "rl_cursor rl = int (length l)" "rl_len rl = int (length l + length r)"
    "rl_abs rl = (l, r, if rl_hist_idx rl < 0 then None else Some (nat (rl_hist_idx rl)))" using rl_parts [OF ok] by metis
  have len: "length (take (nat c) (l @ r)) = nat c" using c by (simp add: p(4) nat_le_iff del: take_append)
  have all: "take (nat c) (l @ r) @ drop (nat c) (l @ r) @ z = l @ r @ z" by (metis append_assoc append_take_drop_id)
  have new': "edit (nat (rl_bufsize rl) - 1) (hist_lines rl) k (rl_abs rl) =
      (take (nat c) (l @ r), drop (nat c) (l @ r), if rl_hist_idx rl < 0 then None else Some (nat (rl_hist_idx rl)))"
    using new by (simp only: p(5) fst_conv snd_conv)
  show ?thesis
    by (rule edits_line [OF ok, where l = "take (nat c) (l @ r)" and r = "drop (nat c) (l @ r)" and z = z])
      (use rl_idx [OF ok] c in \<open>simp_all add: len new' all p(1,2,4) rl_frame_def del: take_append drop_append One_nat_def\<close>)
qed

lemma edits_csi_moves:
  assumes ok: "rl_ok rl" and n: "n = (if rl_csi_param rl > 0 then rl_csi_param rl else 1)" "n < 2 ^ 30"
  shows "edits (Lft (nat n)) rl (handle_csi prompt 68 rl)" and "edits (Rgt (nat n)) rl (handle_csi prompt 67 rl)"
proof -
  obtain l r z where p: "rl_buf rl = l @ r @ z" "z \<noteq> []" "rl_cursor rl = int (length l)" "rl_len rl = int (length l + length r)"
    "rl_abs rl = (l, r, if rl_hist_idx rl < 0 then None else Some (nat (rl_hist_idx rl)))"
    "nat (rl_bufsize rl) = length l + length r + length z" using rl_parts [OF ok] by metis
  have pos: "0 < n" using n(1) by (simp split: if_splits)
  have small: "int (length l) + int (length r) < 2 ^ 30" using ok p(4) by (simp add: rl_ok_def)
  have w: "wrap32 (int (length l) - n) = int (length l) - n" "wrap32 (int (length l) + n) = int (length l) + n"
    by (rule wrap32_id; use small n(2) pos in simp)+
  show "edits (Lft (nat n)) rl (handle_csi prompt 68 rl)"
  proof (cases "l = []")
    case True
    then show ?thesis by (simp add: handle_csi_def Let_def p edits_same [OF ok])
  next
    case False
    have e: "nat (if int (length l) - n < 0 then 0 else int (length l) - n) = length l - nat n" using pos by auto
    have "edits (Lft (nat n)) rl (reprint prompt (rl\<lparr>rl_cursor := (if int (length l) - n < 0 then 0 else int (length l) - n)\<rparr>))"
      by (rule edits_move [OF ok]) (use pos in \<open>simp_all only: e\<close>, simp_all add: p)
    then show ?thesis using False by (simp add: handle_csi_def Let_def p(3) w split: if_splits flip: n(1))
  qed
  show "edits (Rgt (nat n)) rl (handle_csi prompt 67 rl)"
  proof (cases "r = []")
    case True
    then show ?thesis by (simp add: handle_csi_def Let_def p edits_same [OF ok])
  next
    case False
    have e: "nat (if int (length l) + n > int (length l + length r) then int (length l + length r) else int (length l) + n) = length l + min (length r) (nat n)"
      using pos by auto
    have "edits (Rgt (nat n)) rl (reprint prompt (rl\<lparr>rl_cursor :=
        (if int (length l) + n > int (length l + length r) then int (length l + length r) else int (length l) + n)\<rparr>))"
      by (rule edits_move [OF ok]) (use pos in \<open>simp_all only: e\<close>, simp_all add: p min_def)
    then show ?thesis using False by (simp add: handle_csi_def Let_def p(3,4) w split: if_splits flip: n(1))
  qed
qed

lemma edits_csi_ends:
  assumes ok: "rl_ok rl"
  shows "edits Home rl (handle_csi prompt 72 rl)" and "edits End rl (handle_csi prompt 70 rl)"
proof -
  obtain l r z where p: "rl_buf rl = l @ r @ z" "z \<noteq> []" "rl_cursor rl = int (length l)" "rl_len rl = int (length l + length r)"
    "rl_abs rl = (l, r, if rl_hist_idx rl < 0 then None else Some (nat (rl_hist_idx rl)))" using rl_parts [OF ok] by metis
  have "edits Home rl (reprint prompt (rl\<lparr>rl_cursor := 0\<rparr>))" by (rule edits_move [OF ok]) (simp_all add: p)
  then show "edits Home rl (handle_csi prompt 72 rl)"
    by (cases "l = []") (simp_all add: handle_csi_def Let_def p edits_same [OF ok])
  have "edits End rl (reprint prompt (rl\<lparr>rl_cursor := rl_len rl\<rparr>))" by (rule edits_move [OF ok]) (simp_all add: p)
  then show "edits End rl (handle_csi prompt 70 rl)"
    by (cases "r = []") (simp_all add: handle_csi_def Let_def p edits_same [OF ok])
qed

text \<open>Lines of the history.\<close>

lemma edits_load:
  assumes ok: "rl_ok rl" and i: "i < length (hist_lines rl)"
    and same: "rl_frame rl rl'" "rl_buf rl' = rl_buf rl" "rl_esc rl' = rl_esc rl" "rl_hist_idx rl' = int i"
    and new: "edit (nat (rl_bufsize rl) - 1) (hist_lines rl) k (rl_abs rl) = (take (nat (rl_bufsize rl) - 1) (hist_lines rl ! i), [], Some i)"
  shows "edits k rl (hist_load prompt rl')"
proof -
  obtain h where h: "rl_hist_buf rl = Some h" using i by (auto simp: hist_lines_def split: option.splits)
  define n m where "n = nat (rl_hist_len rl)" and "m = nat (rl_bufsize rl) - 1"
  have i': "i < nat (rl_hist_count rl)" using i by (simp add: hist_lines_def h)
  have "hist_ok rl" using ok by (simp add: rl_ok_def)
  then have hk: "1 \<le> rl_hist_len rl" "0 \<in> set (hist_slot h n i)" using i' by (simp_all add: hist_ok_def h n_def)
  let ?t = "takeWhile (\<lambda>c. c \<noteq> 0) (drop (i * n) h)"
  have zero: "0 \<in> set (drop (i * n) h)" using hk(2) in_set_takeD unfolding hist_slot_def by fast
  have "takeWhile (\<lambda>c. c \<noteq> 0) (take n (drop (i * n) h) @ drop n (drop (i * n) h)) = takeWhile (\<lambda>c. c \<noteq> 0) (take n (drop (i * n) h))"
    by (rule takeWhile_append1) (use hk(2) in \<open>auto simp: hist_slot_def\<close>)
  then have "takeWhile (\<lambda>c. c \<noteq> 0) (hist_slot h n i) = ?t" by (simp only: append_take_drop_id hist_slot_def)
  then have line: "hist_lines rl ! i = ?t" using i' by (simp add: hist_lines_def h n_def)
  define t where "t = take m ?t"
  have f: "rl_hist_buf rl' = Some h" "rl_bufsize rl' = rl_bufsize rl" using same(1) h by (simp_all add: rl_frame_def)
  have src: "rl_hist_idx rl' * rl_hist_len rl' = int (i * n)" using same hk(1) by (simp add: rl_frame_def n_def)
  have scan: "hist_scan h (int (i * n)) (nat (rl_bufsize rl - 1)) = Inr (length t)"
    using hist_scan_eq [OF zero] by (simp add: t_def m_def nat_diff_distrib' flip: One_nat_def)
  have "drop (i * n) h = t @ drop m ?t @ dropWhile (\<lambda>c. c \<noteq> 0) (drop (i * n) h)"
    unfolding t_def by (metis append_assoc append_take_drop_id takeWhile_dropWhile_id)
  then have hh: "h = take (i * n) h @ t @ (drop m ?t @ dropWhile (\<lambda>c. c \<noteq> 0) (drop (i * n) h))"
    using append_take_drop_id [of "i * n" h] by simp
  have buf: "length (rl_buf rl) = nat (rl_bufsize rl)" "1 \<le> rl_bufsize rl" using ok by (simp_all add: rl_ok_def)
  have tl: "length t < length (rl_buf rl)" using buf by (simp add: t_def m_def)
  have il: "length (take (i * n) h) = i * n" using zero by (cases "i * n < length h") auto
  have copy: "rl_copy (rl_buf rl) 0 h (int (i * n)) (length t) = Inr (t @ drop (length t) (rl_buf rl))"
    using rl_copy_eq [of "take (length t) (rl_buf rl)" t "[]" "drop (length t) (rl_buf rl)" "take (i * n) h" "drop m ?t @ dropWhile (\<lambda>c. c \<noteq> 0) (drop (i * n) h)"]
      hh tl il by simp
  let ?rl = "rl'\<lparr>rl_buf := t @ drop (length t) (rl_buf rl), rl_len := int (length t), rl_cursor := int (length t)\<rparr>"
  have "edits k rl (reprint prompt ?rl)"
    by (rule edits_line [OF ok, where l = t and r = "[]" and z = "drop (length t) (rl_buf rl)"])
      (use same tl i new buf in \<open>auto simp: line t_def m_def rl_frame_def\<close>)
  moreover have "hist_load prompt rl' = reprint prompt ?rl"
    unfolding hist_load_def same(2) f option.case src Let_def scan bindE_simps copy ..
  ultimately show ?thesis by simp
qed

lemma edits_older:
  assumes ok: "rl_ok rl"
  shows "edits Older rl (handle_csi prompt 65 rl)"
proof (cases "rl_hist_buf rl = None \<or> rl_hist_count rl = 0")
  case True
  then have "hist_lines rl = []" by (auto simp: hist_lines_def split: option.splits)
  moreover from this have "rl_hist_idx rl < 0" using rl_idx(2) [OF ok] by simp
  ultimately show ?thesis using True by (auto simp: handle_csi_def Let_def rl_abs_def intro!: edits_same [OF ok])
next
  case False
  then have len: "length (hist_lines rl) = nat (rl_hist_count rl)" by (auto simp: hist_lines_def)
  have cnt: "0 < rl_hist_count rl" using False ok by (auto simp: rl_ok_def hist_ok_def)
  then have ne: "hist_lines rl \<noteq> []" using len by auto
  show ?thesis
  proof (cases "rl_hist_idx rl < 0")
    case True
    let ?rl = "rl\<lparr>rl_hist_save_len := rl_len rl, rl_hist_idx := rl_hist_count rl - 1\<rparr>"
    have "edits Older rl (hist_load prompt ?rl)"
      by (rule edits_load [OF ok, where i = "length (hist_lines rl) - 1"])
        (use ne cnt True in \<open>simp_all add: len rl_frame_def rl_abs_def last_conv_nth\<close>)
    then show ?thesis using False True cnt by (auto simp: handle_csi_def Let_def)
  next
    case older: False
    show ?thesis
    proof (cases "rl_hist_idx rl = 0")
      case True
      then show ?thesis using False older by (simp add: handle_csi_def Let_def rl_abs_def edits_same [OF ok])
    next
      case False
      then obtain j where j: "nat (rl_hist_idx rl) = Suc j" using older by (cases "nat (rl_hist_idx rl)") auto
      have "edits Older rl (hist_load prompt (rl\<lparr>rl_hist_idx := rl_hist_idx rl - 1\<rparr>))"
        by (rule edits_load [OF ok, where i = j])
          (use rl_idx(2) [OF ok] j older in \<open>auto simp: rl_frame_def rl_abs_def\<close>)
      then show ?thesis using False older \<open>\<not> (rl_hist_buf rl = None \<or> rl_hist_count rl = 0)\<close> by (auto simp add: handle_csi_def Let_def)
    qed
  qed
qed

lemma edits_newer:
  assumes ok: "rl_ok rl"
  shows "edits Newer rl (handle_csi prompt 66 rl)"
proof (cases "rl_hist_buf rl = None \<or> rl_hist_idx rl < 0")
  case True
  then have "rl_hist_idx rl < 0" using rl_idx(2) [OF ok] by (auto simp: hist_lines_def)
  then show ?thesis using True by (auto simp: handle_csi_def Let_def rl_abs_def intro!: edits_same [OF ok])
next
  case False
  then have len: "length (hist_lines rl) = nat (rl_hist_count rl)" by (auto simp: hist_lines_def)
  have buf: "rl_buf rl \<noteq> []" using ok by (auto simp: rl_ok_def)
  show ?thesis
  proof (cases "rl_hist_idx rl + 1 \<ge> rl_hist_count rl")
    case True
    have "edits Newer rl (reprint prompt (rl\<lparr>rl_hist_idx := -1, rl_len := 0, rl_cursor := 0\<rparr>))"
      by (rule edits_line [OF ok, where l = "[]" and r = "[]" and z = "rl_buf rl"])
        (use True False buf in \<open>auto simp: rl_frame_def rl_abs_def len\<close>)
    then show ?thesis using False True by (auto simp: handle_csi_def Let_def)
  next
    case newer: False
    have "edits Newer rl (hist_load prompt (rl\<lparr>rl_hist_idx := rl_hist_idx rl + 1\<rparr>))"
      by (rule edits_load [OF ok, where i = "nat (rl_hist_idx rl + 1)"])
        (use False newer in \<open>auto simp: rl_frame_def rl_abs_def len nat_add_distrib\<close>)
    then show ?thesis using False newer by (auto simp add: handle_csi_def Let_def)
  qed
qed

section \<open>The keys in the input\<close>

definition digit :: "u8 \<Rightarrow> bool" where "digit c \<longleftrightarrow> 48 \<le> c \<and> c \<le> 57"

definition csi_value :: "u8 list \<Rightarrow> nat" where
  "csi_value ds = fold (\<lambda>d n. 10 * n + (unat d - 48)) ds 0"

definition rl_plain_key :: "u8 \<Rightarrow> key" where
  "rl_plain_key c =
     (if c = 3 then Cancel else if c = 10 then Enter else if c = 8 \<or> c = 127 then Backspace
      else if c = 0x10 then Older else if c = 0x11 then Newer else if c = 0x12 then Lft 1 else if c = 0x13 then Rgt 1
      else if c = 0x14 then Home else if c = 0x15 then End else if c = 0x16 then Delete
      else if c < 32 then Other else Type c)"

definition csi_key :: "u8 list \<Rightarrow> u8 \<Rightarrow> key" where
  "csi_key ds f =
     (if f = 126 then if ds \<noteq> [] \<and> last ds = 51 then Delete else Other
      else if f = 65 then Older else if f = 66 then Newer else if f = 68 then Lft (max 1 (csi_value ds))
      else if f = 67 then Rgt (max 1 (csi_value ds)) else if f = 72 then Home else if f = 70 then End else Other)"

text \<open>
  An escape sequence is an escape, a bracket, digits and a final character; an escape takes
  any other character with it.
\<close>

function keys :: "u8 list \<Rightarrow> key list" where
  "keys [] = []"
| "keys (c # cs) =
     (if c \<noteq> 27 then rl_plain_key c # keys cs
      else case cs of
        [] \<Rightarrow> []
      | d # ds \<Rightarrow>
          if d \<noteq> 91 then keys ds
          else case dropWhile digit ds of [] \<Rightarrow> [] | f # rest \<Rightarrow> csi_key (takeWhile digit ds) f # keys rest)"
  by pat_completeness auto
termination
  by (relation "measure length") (auto simp: less_Suc_eq_le, metis Suc_leD length_Cons length_dropWhile_le le_SucI)

text \<open>The keys up to the one that ends the line, and that one.\<close>

definition ends_line :: "key \<Rightarrow> bool" where "ends_line k \<longleftrightarrow> k = Enter \<or> k = Cancel"

definition typed_keys :: "key list \<Rightarrow> key list" where "typed_keys ks = takeWhile (\<lambda>k. \<not> ends_line k) ks"
definition ending :: "key list \<Rightarrow> key option" where "ending ks = find ends_line ks"

text \<open>The parser in the editor's state.\<close>

lemma wrap32_step: "wrap32 (wrap32 a * 10 + b) = wrap32 (a * 10 + b)"
  by (simp add: wrap32_def)

lemma digit_sint: "48 \<le> sint c \<and> sint c \<le> 57 \<longleftrightarrow> digit c"
  and digit_value: "digit c \<Longrightarrow> sint c - 48 = int (unat c - 48)"
  and final_sint: "0x40 \<le> sint c \<and> sint c \<le> 0x7E \<longleftrightarrow> 0x40 \<le> c \<and> c \<le> 0x7E" for c :: u8
proof -
  have "\<forall>k\<in>set [0..<256]. let c = of_nat k :: u8 in (48 \<le> sint c \<and> sint c \<le> 57 \<longleftrightarrow> digit c) \<and>
      (digit c \<longrightarrow> sint c - 48 = int (unat c - 48)) \<and> (0x40 \<le> sint c \<and> sint c \<le> 0x7E \<longleftrightarrow> 0x40 \<le> c \<and> c \<le> 0x7E)"
    by code_simp
  moreover have "unat c \<in> set [0..<256]" using unsigned_less [of c] by simp
  ultimately have "let c = of_nat (unat c) :: u8 in (48 \<le> sint c \<and> sint c \<le> 57 \<longleftrightarrow> digit c) \<and>
      (digit c \<longrightarrow> sint c - 48 = int (unat c - 48)) \<and> (0x40 \<le> sint c \<and> sint c \<le> 0x7E \<longleftrightarrow> 0x40 \<le> c \<and> c \<le> 0x7E)" by blast
  then show "48 \<le> sint c \<and> sint c \<le> 57 \<longleftrightarrow> digit c" "digit c \<Longrightarrow> sint c - 48 = int (unat c - 48)"
    "0x40 \<le> sint c \<and> sint c \<le> 0x7E \<longleftrightarrow> 0x40 \<le> c \<and> c \<le> 0x7E" by (simp_all add: Let_def)
qed

definition parsing :: "u8 list \<Rightarrow> readline_state \<Rightarrow> readline_state" where
  "parsing ds rl = rl\<lparr>rl_esc := 2, rl_csi_param := wrap32 (int (csi_value ds)), rl_csi_final := last (0 # ds)\<rparr>"

lemma parse_digits:
  "\<forall>d\<in>set ds. digit d \<Longrightarrow> readline_loop prompt (ds @ rest) (parsing es rl) = readline_loop prompt rest (parsing (es @ ds) rl)"
proof (induction ds arbitrary: es)
  case (Cons d ds)
  have d: "digit d" using Cons.prems by simp
  have "wrap32 (wrap32 (int (csi_value es)) * 10 + (sint d - 48)) = wrap32 (int (csi_value (es @ [d])))"
    unfolding wrap32_step using digit_value [OF d] by (simp add: csi_value_def mult.commute)
  then have "readline_char prompt d (parsing es rl) = Inr (None, parsing (es @ [d]) rl)"
    using digit_sint [of d] d by (simp add: readline_char_def parsing_def Let_def)
  then show ?case using Cons.IH [of "es @ [d]"] Cons.prems by simp
qed simp

lemma parse_csi:
  assumes "rl_esc rl = 0" and "\<forall>d\<in>set ds. digit d"
  shows "readline_loop prompt (27 # 91 # ds @ rest) rl = readline_loop prompt rest (parsing ds rl)"
proof -
  have "rl\<lparr>rl_esc := 2, rl_csi_param := 0, rl_csi_final := 0\<rparr> = parsing [] rl" by (simp add: parsing_def csi_value_def wrap32_def)
  then show ?thesis using assms(1) parse_digits [OF assms(2), of prompt rest "[]" rl] by (simp add: readline_char_def Let_def)
qed

text \<open>Every key is the step of the pair of lists.\<close>

definition moderate :: "key \<Rightarrow> bool" where
  "moderate k \<longleftrightarrow> (case k of Lft n \<Rightarrow> n < 2 ^ 30 | Rgt n \<Rightarrow> n < 2 ^ 30 | _ \<Rightarrow> True)"

lemma edits_from: "rl_abs rl1 = rl_abs rl \<Longrightarrow> rl_frame rl rl1 \<Longrightarrow> rl_esc rl1 = rl_esc rl \<Longrightarrow> edits k rl1 r \<Longrightarrow> edits k rl r"
  unfolding edits_def by (metis frame_hist(1) rl_frame_def rl_frame_trans)

lemma edits_other: "rl_ok rl \<Longrightarrow> edits Other rl (Inr rl)"
  by (rule edits_same) (simp_all add: rl_abs_def)

lemma edits_delete_or_not: "rl_ok rl \<Longrightarrow> edits Delete rl (if rl_cursor rl < rl_len rl then delete_at_cursor prompt rl else Inr rl)"
  by (auto simp: edits_delete rl_abs_def intro!: edits_same)

lemma edits_csi:
  assumes ok: "rl_ok rl" and esc: "rl_esc rl = 0" and small: "moderate (csi_key ds f)"
  shows "edits (csi_key ds f) rl (handle_csi prompt f (parsing ds rl\<lparr>rl_esc := 0\<rparr>))"
proof -
  let ?rl = "parsing ds rl\<lparr>rl_esc := 0\<rparr>"
  have fr: "rl_frame rl ?rl" by (simp add: rl_frame_def parsing_def)
  have ok': "rl_ok ?rl" using ok unfolding rl_ok_def frame_hist [OF fr] by (simp add: parsing_def)
  note from_rl = edits_from [of ?rl rl]
  have same: "rl_abs ?rl = rl_abs rl" "rl_frame rl ?rl" "rl_esc ?rl = rl_esc rl" using esc by (simp_all add: rl_abs_def rl_frame_def parsing_def)
  have param: "int (max 1 (csi_value ds)) = (if rl_csi_param ?rl > 0 then rl_csi_param ?rl else 1)" if "max 1 (csi_value ds) < 2 ^ 30"
  proof -
    have "wrap32 (int (csi_value ds)) = int (csi_value ds)" by (rule wrap32_id) (use that in simp_all)
    then show ?thesis by (simp add: parsing_def)
  qed
  consider "f = 126" "ds \<noteq> [] \<and> last ds = 51" | "f = 126" "\<not> (ds \<noteq> [] \<and> last ds = 51)" | "f = 65" | "f = 66" | "f = 68" | "f = 67" | "f = 72" | "f = 70"
    | "f \<notin> {126, 65, 66, 68, 67, 72, 70}" by blast
  then show ?thesis
  proof cases
    case 1
    then show ?thesis using edits_delete_or_not [OF ok', of prompt] from_rl [OF same]
      by (auto simp: csi_key_def handle_csi_def parsing_def)
  next
    case 2
    then have "last (0 # ds) \<noteq> 51" by auto
    then show ?thesis using 2 edits_other [OF ok'] from_rl [OF same] by (auto simp: csi_key_def handle_csi_def parsing_def)
  next
    case 3
    then show ?thesis using edits_older [OF ok', of prompt] from_rl [OF same] by (simp add: csi_key_def)
  next
    case 4
    then show ?thesis using edits_newer [OF ok', of prompt] from_rl [OF same] by (simp add: csi_key_def)
  next
    case 5
    have n: "max 1 (csi_value ds) < 2 ^ 30" using 5 small by (simp add: csi_key_def moderate_def)
    then have "int (max 1 (csi_value ds)) < 2 ^ 30" by simp
    from from_rl [OF same edits_csi_moves(1) [OF ok' param [OF n] this]] show ?thesis using 5 by (simp add: csi_key_def)
  next
    case 6
    have n: "max 1 (csi_value ds) < 2 ^ 30" using 6 small by (simp add: csi_key_def moderate_def)
    then have "int (max 1 (csi_value ds)) < 2 ^ 30" by simp
    from from_rl [OF same edits_csi_moves(2) [OF ok' param [OF n] this]] show ?thesis using 6 by (simp add: csi_key_def)
  next
    case 9
    then show ?thesis using edits_other [OF ok'] from_rl [OF same] by (simp add: csi_key_def handle_csi_def Let_def)
  next
    case 7
    then show ?thesis using edits_csi_ends(1) [OF ok', of prompt] from_rl [OF same] by (simp add: csi_key_def)
  next
    case 8
    then show ?thesis using edits_csi_ends(2) [OF ok', of prompt] from_rl [OF same] by (simp add: csi_key_def)
  qed
qed

text \<open>A character outside an escape sequence.\<close>

lemma u8_between: "0x10 \<le> c \<and> c \<le> 0x16 \<longleftrightarrow> c \<in> {0x10, 0x11, 0x12, 0x13, 0x14, 0x15, 0x16}" for c :: u8
proof -
  have "\<forall>k\<in>set [0..<256]. let c = of_nat k :: u8 in 0x10 \<le> c \<and> c \<le> 0x16 \<longleftrightarrow> c = 0x10 \<or> c = 0x11 \<or> c = 0x12 \<or> c = 0x13 \<or> c = 0x14 \<or> c = 0x15 \<or> c = 0x16"
    by code_simp
  moreover have "unat c \<in> set [0..<256]" using unsigned_less [of c] by simp
  ultimately have "let c = of_nat (unat c) :: u8 in 0x10 \<le> c \<and> c \<le> 0x16 \<longleftrightarrow> c = 0x10 \<or> c = 0x11 \<or> c = 0x12 \<or> c = 0x13 \<or> c = 0x14 \<or> c = 0x15 \<or> c = 0x16" by blast
  then show ?thesis by (simp add: Let_def)
qed

lemma edits_sentinel:
  assumes ok: "rl_ok rl" and c: "0x10 \<le> c \<and> c \<le> 0x16"
  shows "\<exists>rl'. handle_sentinel prompt c rl = Inr (1, rl') \<and> edits (rl_plain_key c) rl (Inr rl')"
proof -
  let ?rl = "rl\<lparr>rl_csi_param := 0\<rparr>"
  have fr: "rl_frame rl ?rl" by (simp add: rl_frame_def)
  have ok': "rl_ok ?rl" using ok unfolding rl_ok_def frame_hist [OF fr] by simp
  have ab: "rl_abs ?rl = rl_abs rl" "rl_esc ?rl = rl_esc rl" by (simp_all add: rl_abs_def)
  have one: "1 = (if rl_csi_param ?rl > 0 then rl_csi_param ?rl else 1)" "(1 :: int) < 2 ^ 30" by simp_all
  note m = edits_csi_moves [OF ok' one, of prompt, THEN edits_from [OF ab(1) fr ab(2)]]
  have e: "edits k rl r \<Longrightarrow> \<exists>rl'. bindE r (\<lambda>rl. Inr (1, rl)) = Inr (1 :: int, rl') \<and> edits k rl (Inr rl')" for k r
    by (auto simp: edits_def)
  note keys = edits_older [OF ok] edits_newer [OF ok] m edits_csi_ends [OF ok] edits_delete_or_not [OF ok]
  show ?thesis using c [unfolded u8_between] keys [THEN e] by (auto simp: handle_sentinel_def rl_plain_key_def Let_def simp del: bindE_simps)
qed

lemma char_edits:
  assumes ok: "rl_ok rl" and esc: "rl_esc rl = 0" and c: "c \<noteq> 27" and go: "\<not> ends_line (rl_plain_key c)"
  shows "\<exists>rl'. readline_char prompt c rl = Inr (None, rl') \<and> edits (rl_plain_key c) rl (Inr rl')"
proof -
  have e: "edits k rl r \<Longrightarrow> \<exists>rl'. bindE r (\<lambda>rl. Inr (None, rl)) = Inr (None :: int option, rl') \<and> edits k rl (Inr rl')" for k r
    by (auto simp: edits_def)
  have n: "c \<noteq> 3" "c \<noteq> 10" using go by (auto simp: rl_plain_key_def ends_line_def)
  consider "c = 8 \<or> c = 127" | "0x10 \<le> c \<and> c \<le> 0x16" | "c \<noteq> 8 \<and> c \<noteq> 127" "\<not> (0x10 \<le> c \<and> c \<le> 0x16)" "c < 32"
    | "c \<noteq> 8 \<and> c \<noteq> 127" "\<not> (0x10 \<le> c \<and> c \<le> 0x16)" "\<not> c < 32" by blast
  then show ?thesis
  proof cases
    case 1
    have "edits Backspace rl (if rl_cursor rl > 0 then delete_at_cursor prompt (rl\<lparr>rl_cursor := rl_cursor rl - 1\<rparr>) else Inr rl)"
      using ok by (auto simp: edits_backspace rl_abs_def intro!: edits_same)
    from e [OF this] show ?thesis using 1 esc by (auto simp: readline_char_def rl_plain_key_def Let_def split: if_splits)
  next
    case 2
    have "c \<noteq> 8" "c \<noteq> 127" using 2 [unfolded u8_between] by auto
    then show ?thesis using edits_sentinel [OF ok 2, of prompt] 2 c n esc by (auto simp: readline_char_def Let_def)
  next
    case 3
    then show ?thesis using edits_other [OF ok] c n esc u8_between [of c] by (auto simp: readline_char_def Let_def rl_plain_key_def)
  next
    case 4
    have p: "rl_plain_key c = Type c" using 4 n u8_between [of c] by (auto simp: rl_plain_key_def)
    show ?thesis unfolding p using e [OF edits_insert [OF ok, of c prompt]] 4 c n esc
      by (auto simp: readline_char_def Let_def simp del: bindE_simps)
  qed
qed

section \<open>A line\<close>

text \<open>What a call returns for the keys \<open>ks\<close> on the line \<open>st\<close>, and what it leaves in the buffer.\<close>

definition line_result :: "nat \<Rightarrow> u8 list list \<Rightarrow> key list \<Rightarrow> line \<Rightarrow> int option \<Rightarrow> readline_state \<Rightarrow> bool" where
  "line_result m hs ks st v rl \<longleftrightarrow>
     (case fold (edit m hs) (typed_keys ks) st of (l, r, i) \<Rightarrow>
        case ending ks of
          None \<Rightarrow> v = None \<and> rl_abs rl = (l, r, i)
        | Some k \<Rightarrow>
            if k = Enter then v = Some (int (length (l @ r))) \<and> rl_len rl = int (length (l @ r)) \<and> take (length (l @ r)) (rl_buf rl) = l @ r \<and>
              rl_buf rl ! length (l @ r) = 0
            else v = Some RL_CTRLC \<and> rl_len rl = 0 \<and> rl_buf rl ! 0 = 0)"

lemma line_result_key:
  "\<not> ends_line k \<Longrightarrow> line_result m hs (k # ks) st v rl = line_result m hs ks (edit m hs k st) v rl"
  by (simp add: line_result_def typed_keys_def ending_def)

definition returns :: "key list \<Rightarrow> readline_state \<Rightarrow> fault + int option \<times> u8 list \<times> readline_state \<Rightarrow> bool" where
  "returns ks rl res \<longleftrightarrow> (\<exists>v rest rl'. res = Inr (v, rest, rl') \<and> rl_ok rl' \<and> rl_frame rl rl' \<and>
     line_result (nat (rl_bufsize rl) - 1) (hist_lines rl) ks (rl_abs rl) v rl')"

lemma returns_key:
  assumes "edits k rl (Inr rl1)" and "\<not> ends_line k" and "returns ks rl1 res"
  shows "returns (k # ks) rl res"
proof -
  have e: "rl_frame rl rl1" "rl_abs rl1 = edit (nat (rl_bufsize rl) - 1) (hist_lines rl) k (rl_abs rl)" using assms(1) by (simp_all add: edits_def)
  then have same: "hist_lines rl1 = hist_lines rl" "rl_bufsize rl1 = rl_bufsize rl" using frame_hist(1) [OF e(1)] e(1) by (simp_all add: rl_frame_def)
  obtain v rest rl' where r: "res = Inr (v, rest, rl')" "rl_ok rl'" "rl_frame rl1 rl'"
    "line_result (nat (rl_bufsize rl1) - 1) (hist_lines rl1) ks (rl_abs rl1) v rl'" using assms(3) unfolding returns_def by blast
  have "line_result (nat (rl_bufsize rl) - 1) (hist_lines rl) (k # ks) (rl_abs rl) v rl'"
    unfolding line_result_key [OF assms(2)] using r(4) by (simp only: same e(2))
  then show ?thesis unfolding returns_def using r(1,2) rl_frame_trans [OF e(1) r(3)] by blast
qed

lemma returns_waiting: "rl_ok rl \<Longrightarrow> rl_ok rl' \<Longrightarrow> rl_frame rl rl' \<Longrightarrow> rl_abs rl' = rl_abs rl \<Longrightarrow> returns [] rl (Inr (None, rest, rl'))"
  by (auto simp: returns_def line_result_def typed_keys_def ending_def split: prod.splits)

lemma returns_end:
  assumes ok: "rl_ok rl" and esc: "rl_esc rl = 0" and c: "c = 3 \<or> c = 10"
  shows "returns (rl_plain_key c # ks) rl (readline_loop prompt (c # cs) rl)"
proof -
  obtain l r z where p: "rl_buf rl = l @ r @ z" "z \<noteq> []" "rl_cursor rl = int (length l)" "rl_len rl = int (length l + length r)"
    "rl_abs rl = (l, r, if rl_hist_idx rl < 0 then None else Some (nat (rl_hist_idx rl)))" using rl_parts [OF ok] by metis
  have b: "length (rl_buf rl) = nat (rl_bufsize rl)" "1 \<le> rl_bufsize rl" using ok by (simp_all add: rl_ok_def)
  show ?thesis
  proof (cases "c = 3")
    case True
    let ?rl = "rl\<lparr>rl_len := 0, rl_cursor := 0, rl_buf := (rl_buf rl)[0 := 0], rl_out := rl_out rl @ [94, 67, 10]\<rparr>"
    have fr: "rl_frame rl ?rl" by (simp add: rl_frame_def)
    have "rl_ok ?rl" using ok unfolding rl_ok_def frame_hist [OF fr] by simp
    moreover have "readline_loop prompt (c # cs) rl = Inr (Some RL_CTRLC, cs, ?rl)"
      using True esc b by (simp add: readline_char_def Let_def rl_put_def byte_put_def rl_write_def)
    moreover have "rl_buf rl \<noteq> []" using p(2) by (simp add: p(1))
    then have "rl_buf ?rl ! 0 = 0" by simp
    ultimately show ?thesis using fr True
      by (auto simp: returns_def line_result_def typed_keys_def ending_def ends_line_def rl_plain_key_def p(5))
  next
    case False
    then have c: "c = 10" using c by simp
    let ?rl = "rl\<lparr>rl_buf := (rl_buf rl)[length (l @ r) := 0], rl_out := rl_out rl @ [10], rl_hist_idx := -1\<rparr>"
    have fr: "rl_frame rl ?rl" by (simp add: rl_frame_def)
    have len: "length (l @ r) < length (rl_buf rl)" using p(2) by (simp add: p(1))
    have "rl_ok ?rl" using ok unfolding rl_ok_def frame_hist [OF fr] by simp
    moreover have "readline_loop prompt (c # cs) rl = Inr (Some (int (length (l @ r))), cs, ?rl)"
      using c esc len by (simp add: readline_char_def Let_def rl_put_def byte_put_def rl_write_def p(4) del: of_nat_add)
    moreover have "take (length (l @ r)) (rl_buf ?rl) = l @ r" by (simp add: p(1))
    moreover have "rl_buf ?rl ! length (l @ r) = 0" using len by simp
    ultimately show ?thesis using fr c p(4)
      by (auto simp: returns_def line_result_def typed_keys_def ending_def ends_line_def rl_plain_key_def p(5))
  qed
qed

lemma loop_returns:
  "rl_ok rl \<Longrightarrow> rl_esc rl = 0 \<Longrightarrow> \<forall>k\<in>set (keys cs). moderate k \<Longrightarrow> returns (keys cs) rl (readline_loop prompt cs rl)"
proof (induction cs arbitrary: rl rule: keys.induct)
  case 1
  then show ?case by (simp add: returns_waiting)
next
  case (2 c cs)
  show ?case
  proof (cases "c = 27")
    case False
    show ?thesis
    proof (cases "ends_line (rl_plain_key c)")
      case True
      then have "c = 3 \<or> c = 10" by (auto simp: ends_line_def rl_plain_key_def split: if_splits)
      from returns_end [OF 2(4,5) this] show ?thesis using False by simp
    next
      case go: False
      obtain rl1 where r: "readline_char prompt c rl = Inr (None, rl1)" "edits (rl_plain_key c) rl (Inr rl1)"
        using char_edits [OF 2(4,5) False go] by blast
      then have "rl_ok rl1" "rl_esc rl1 = 0" using 2(5) by (simp_all add: edits_def)
      then have "returns (keys cs) rl1 (readline_loop prompt cs rl1)" using 2(1) [OF False] 2(6) False by simp
      from returns_key [OF r(2) go this] show ?thesis using False r(1) by simp
    qed
  next
    case c: True
    show ?thesis
    proof (cases cs)
      case Nil
      have "rl_frame rl (rl\<lparr>rl_esc := 1\<rparr>)" by (simp add: rl_frame_def)
      then show ?thesis using c Nil 2(4,5) frame_hist [of rl "rl\<lparr>rl_esc := 1\<rparr>"]
        by (auto simp: readline_char_def Let_def rl_ok_def rl_abs_def intro!: returns_waiting)
    next
      case (Cons d ds)
      show ?thesis
      proof (cases "d = 91")
        case False
        have same: "rl\<lparr>rl_esc := 0\<rparr> = rl" using 2(5) by (cases rl) simp
        show ?thesis using 2(2) [OF _ Cons False] 2(4,5,6) c Cons False by (simp add: readline_char_def Let_def same)
      next
        case d: True
        let ?ds = "takeWhile digit ds"
        have dig: "\<forall>x\<in>set ?ds. digit x" by (auto dest: set_takeWhileD)
        have run: "readline_loop prompt (c # cs) rl = readline_loop prompt (dropWhile digit ds) (parsing ?ds rl)"
          using parse_csi [OF 2(5) dig, of prompt "dropWhile digit ds"] by (simp add: c d Cons)
        have fr: "rl_frame rl (parsing ?ds rl)" by (simp add: rl_frame_def parsing_def)
        have pok: "rl_ok (parsing ?ds rl)" "rl_abs (parsing ?ds rl) = rl_abs rl"
          using 2(4) unfolding rl_ok_def frame_hist [OF fr] by (simp_all add: parsing_def rl_abs_def)
        show ?thesis
        proof (cases "dropWhile digit ds")
          case Nil
          have ks: "keys (c # cs) = []" by (simp add: c d Cons Nil)
          show ?thesis unfolding run ks Nil using pok fr 2(4) by (simp add: returns_waiting)
        next
          case f: (Cons f rest)
          have nf: "\<not> digit f" using f by (metis hd_dropWhile list.distinct(1) list.sel(1))
          have ks: "keys (c # cs) = csi_key ?ds f # keys rest" using c Cons d f by simp
          have go: "\<not> ends_line (csi_key ?ds f)" by (simp add: csi_key_def ends_line_def)
          have "moderate (csi_key ?ds f)" using 2(6) unfolding ks by simp
          note ed = edits_csi [OF 2(4,5) this, of prompt]
          have esc: "rl_esc (parsing ?ds rl) = 2" by (simp add: parsing_def)
          obtain rl1 where h: "handle_csi prompt f (parsing ?ds rl\<lparr>rl_esc := 0\<rparr>) = Inr rl1" using ed by (auto simp: edits_def)
          have "readline_char prompt f (parsing ?ds rl) = Inr (None, rl1)"
          proof (cases "0x40 \<le> f \<and> f \<le> 0x7E")
            case True
            then show ?thesis unfolding readline_char_def Let_def esc digit_sint final_sint h using nf by simp
          next
            case False
            then have "f \<noteq> 126" "f \<noteq> 65" "f \<noteq> 66" "f \<noteq> 68" "f \<noteq> 67" "f \<noteq> 72" "f \<noteq> 70" by auto
            then have "handle_csi prompt f (parsing ?ds rl\<lparr>rl_esc := 0\<rparr>) = Inr (parsing ?ds rl\<lparr>rl_esc := 0\<rparr>)"
              by (simp add: handle_csi_def Let_def)
            then show ?thesis using False h unfolding readline_char_def Let_def esc digit_sint final_sint by (simp add: nf)
          qed
          then have "\<exists>rl1. readline_char prompt f (parsing ?ds rl) = Inr (None, rl1) \<and> edits (csi_key ?ds f) rl (Inr rl1)"
            using ed by (simp add: h)
          then obtain rl1 where r: "readline_char prompt f (parsing ?ds rl) = Inr (None, rl1)" "edits (csi_key ?ds f) rl (Inr rl1)" by blast
          then have "rl_ok rl1" "rl_esc rl1 = 0" using 2(5) by (simp_all add: edits_def)
          then have "returns (keys rest) rl1 (readline_loop prompt rest rl1)" using 2(3) [OF _ Cons _ f] 2(6) c d unfolding ks by simp
          from returns_key [OF r(2) go this] show ?thesis unfolding ks run f by (simp add: r(1))
        qed
      qed
    qed
  qed
qed

section \<open>The call\<close>



text \<open>
  Two lines of history are the most that fit; after a third one the older one of the two is
  taken for the last: the key \<open>Older\<close> counts the slots from the first one of the buffer
  and not from \<open>rl_hist_head\<close>.
\<close>

lemma history_order:
  "bindE (readline_history_push [97, 0] 1 (readline_init (replicate 8 0) 8 (Some (replicate 8 0)) 2 4 [])) (\<lambda>rl.
   bindE (readline_history_push [98, 0] 1 rl) (\<lambda>rl.
   bindE (readline_history_push [99, 0] 1 rl) (\<lambda>rl.
   bindE (readline_readline [] [0x10, 10] rl) (\<lambda>(v, rest, rl). Inr (v, take 2 (rl_buf rl)))))) = Inr (Some 1, [98, 0])"
  by code_simp

text \<open>A large parameter moves the cursor to the right of the line to a negative place.\<close>

lemma cursor_overflow:
  "bindE (readline_readline [] [97, 98, 0x12, 27, 91, 50, 49, 52, 55, 52, 56, 51, 54, 52, 55, 67] (readline_init (replicate 8 0) 8 None 0 0 []))
     (\<lambda>(v, rest, rl). Inr (rl_cursor rl)) = Inr (- (2 ^ 31))"
  by code_simp

end
