(* ===== verification/Initrd.thy ===== *)
theory Initrd
  imports Vfs_Tree
begin

text \<open>
  The initial ramdisk, \<open>kernel/initrd.c\<close>: an archive in the \<open>cpio\<close> format becomes a tree of
  files whose contents stay in the archive.
\<close>

section \<open>The archive in memory\<close>

text \<open>
  The archive \<open>d\<close> lies at the address \<open>base\<close>. What lies around it is not known: reading there
  is a bad access.
\<close>

definition mem_byte :: "u32 \<Rightarrow> u8 list \<Rightarrow> u32 \<Rightarrow> fault + u8" where
  "mem_byte base d a = (if unat (a - base) < length d then Inr (d ! unat (a - base)) else Inl BadAccess)"

definition mem_bytes :: "u32 \<Rightarrow> u8 list \<Rightarrow> u32 \<Rightarrow> nat \<Rightarrow> fault + u8 list" where
  "mem_bytes base d a n =
     (if unat (a - base) + n \<le> length d then Inr (take n (drop (unat (a - base)) d)) else Inl BadAccess)"

text \<open>\<open>memcmp\<close> with a text, and the string at an address.\<close>

fun mem_starts :: "u32 \<Rightarrow> u8 list \<Rightarrow> u32 \<Rightarrow> u8 list \<Rightarrow> fault + bool" where
  "mem_starts base d a [] = Inr True"
| "mem_starts base d a (c # cs) = bindE (mem_byte base d a) (\<lambda>b. if b = c then mem_starts base d (a + 1) cs else Inr False)"

definition text_of :: "u8 list \<Rightarrow> string" where "text_of bs = map (\<lambda>b. char_of (unat b)) bs"
definition bytes_of :: "string \<Rightarrow> u8 list" where "bytes_of cs = map (\<lambda>c. of_nat (of_char c)) cs"

definition mem_string :: "u32 \<Rightarrow> u8 list \<Rightarrow> u32 \<Rightarrow> fault + string" where
  "mem_string base d a =
     (let rest = drop (unat (a - base)) d
      in if 0 \<in> set rest then Inr (text_of (takeWhile (\<lambda>b. b \<noteq> 0) rest)) else Inl BadAccess)"

definition CPIO_MAGIC :: "u8 list" where "CPIO_MAGIC = bytes_of ''070701''"
definition CPIO_HDR_SIZE :: u32 where "CPIO_HDR_SIZE = 110"

text \<open>A hexadecimal field; a character that is no digit counts as 0.\<close>

definition hex_digit :: "u8 \<Rightarrow> u32" where
  "hex_digit c =
     (if 48 \<le> c \<and> c \<le> 57 then ucast (c - 48)
      else if 97 \<le> c \<and> c \<le> 102 then ucast (c - 97 + 10)
      else if 65 \<le> c \<and> c \<le> 70 then ucast (c - 65 + 10)
      else 0)"

definition hex8 :: "u8 list \<Rightarrow> u32" where
  "hex8 s = fold (\<lambda>c v. push_bit 4 v OR hex_digit c) (take 8 s) 0"

definition cpio_align :: "u32 \<Rightarrow> u32" where
  "cpio_align x = (x + 3) AND NOT 3"

text \<open>The fields of a header, by their place.\<close>

definition c_ino :: "u8 list \<Rightarrow> u32" where "c_ino hdr = hex8 (drop 6 hdr)"
definition c_mode :: "u8 list \<Rightarrow> u32" where "c_mode hdr = hex8 (drop 14 hdr)"
definition c_filesize :: "u8 list \<Rightarrow> u32" where "c_filesize hdr = hex8 (drop 54 hdr)"
definition c_namesize :: "u8 list \<Rightarrow> u32" where "c_namesize hdr = hex8 (drop 94 hdr)"

section \<open>The tree\<close>

text \<open>A new node in front of the children of \<open>parent\<close>.\<close>

definition push_child :: "vptr \<Rightarrow> vptr \<Rightarrow> 'a vfs_scheme \<Rightarrow> 'a vfs_scheme" where
  "push_child parent n s =
     (let s = upd_node n (\<lambda>v. v\<lparr>v_parent := Some parent, v_sibling := v_children (node_at s parent)\<rparr>) s
      in upd_node parent (\<lambda>v. v\<lparr>v_children := Some n\<rparr>) s)"

text \<open>
  The directories of a path, made as they are missing; what follows the last slash is not
  looked at. A component that does not fit into the name of a node is a bad access.
\<close>

function ensure_dir :: "heap_env \<Rightarrow> vptr \<Rightarrow> string \<Rightarrow> 'a vfs_scheme \<Rightarrow> fault + vptr option \<times> 'a vfs_scheme" where
  "ensure_dir h cur path s =
     (let p = dropWhile ((=) slash) path; c = takeWhile ((\<noteq>) slash) p; r = dropWhile ((\<noteq>) slash) p in
      if p = [] \<or> r = [] then Inr (Some cur, s)
      else bindE (dir_child s cur c) (\<lambda>child.
        case child of
          Some x \<Rightarrow> ensure_dir h x r s
        | None \<Rightarrow>
            (case vfs_alloc_node h s of
               (None, s) \<Rightarrow> Inr (None, s)
             | (Some x, s) \<Rightarrow>
                 if VFS_NAME_MAX \<le> length c then Inl BadAccess
                 else ensure_dir h x r (push_child cur x (upd_node x (\<lambda>v. v\<lparr>v_name := c, v_flags := VFS_DIR\<rparr>) s)))))"
  by pat_completeness auto
termination by (relation "measure (\<lambda>(h, cur, path, s). length path)") (auto simp: rest_shorter)

declare ensure_dir.simps [simp del]

definition find_or_create :: "heap_env \<Rightarrow> vptr \<Rightarrow> string \<Rightarrow> u8 \<Rightarrow> 'a vfs_scheme \<Rightarrow> fault + vptr option \<times> 'a vfs_scheme" where
  "find_or_create h parent name flags s =
     bindE (dir_child s parent name) (\<lambda>c.
       case c of
         Some c \<Rightarrow> Inr (Some c, s)
       | None \<Rightarrow>
           Inr (case vfs_alloc_node h s of
                  (None, s) \<Rightarrow> (None, s)
                | (Some n, s) \<Rightarrow>
                    (Some n, push_child parent n (upd_node n (\<lambda>v. v\<lparr>v_name := take (VFS_NAME_MAX - 1) name, v_flags := flags\<rparr>) s))))"

section \<open>Entries\<close>

text \<open>
  What the entry at \<open>cur\<close> asks for: to stop, to go on at another address, or to add a file or
  directory before going on. An item holds its name, whether it is a directory, the number of
  its inode, its size and the address of its data.
\<close>

datatype cpio_item = Stop | Skip u32 | Item u32 string bool u32 u32 u32

definition cpio_decode :: "u32 \<Rightarrow> u8 list \<Rightarrow> u32 \<Rightarrow> fault + cpio_item" where
  "cpio_decode base d cur =
     (let end = base + of_nat (length d) in
      if \<not> cur + CPIO_HDR_SIZE \<le> end then Inr Stop
      else bindE (mem_bytes base d cur 110) (\<lambda>hdr.
        if take 6 hdr \<noteq> CPIO_MAGIC then Inr Stop
        else
          let namesize = c_namesize hdr; filesize = c_filesize hdr; name = cur + CPIO_HDR_SIZE in
          bindE (if namesize \<ge> 11 then mem_starts base d name (bytes_of ''TRAILER!!!'') else Inr False) (\<lambda>trailer.
            if trailer then Inr Stop
            else
              let data_offset = cpio_align (CPIO_HDR_SIZE + namesize); next_offset = data_offset + cpio_align filesize in
              if cur + next_offset > end then Inr Stop
              else bindE (if namesize = 2 then mem_starts base d name (bytes_of ''.'') else Inr False) (\<lambda>dot.
                if dot then Inr (Skip (cur + next_offset))
                else bindE (if namesize > 2 then mem_starts base d name (bytes_of ''./'') else Inr False) (\<lambda>dotslash.
                  bindE (mem_string base d (if dotslash then name + 2 else name)) (\<lambda>entry_name.
                    Inr (Item (cur + next_offset) entry_name (c_mode hdr AND 0xF000 = 0x4000) (c_ino hdr) filesize
                           (cur + data_offset))))))))"

definition full_path :: "string \<Rightarrow> string" where
  "full_path entry_name = slash # take (VFS_PATH_MAX - 2) entry_name"

definition base_name :: "string \<Rightarrow> string" where
  "base_name entry_name = rev (takeWhile ((\<noteq>) slash) (rev entry_name))"

text \<open>The item put into the tree: the number of files that were added, or \<open>None\<close> to stop.\<close>

definition cpio_add :: "heap_env \<Rightarrow> u32 \<Rightarrow> u8 list \<Rightarrow> vptr \<Rightarrow> string \<Rightarrow> bool \<Rightarrow> u32 \<Rightarrow> u32 \<Rightarrow> u32 \<Rightarrow> 'a vfs_scheme \<Rightarrow>
    fault + u32 option \<times> 'a vfs_scheme" where
  "cpio_add h base d root entry_name directory ino filesize file_data s =
     bindE (ensure_dir h root (full_path entry_name) s) (\<lambda>(parent, s).
       case parent of
         None \<Rightarrow> Inr (None, s)
       | Some parent \<Rightarrow>
           bindE (find_or_create h parent (base_name entry_name) (if directory then VFS_DIR else VFS_FILE) s) (\<lambda>(n, s).
             case n of
               None \<Rightarrow> Inr (Some 0, s)
             | Some n \<Rightarrow>
                 if directory then Inr (Some 0, upd_node n (\<lambda>v. v\<lparr>v_inode := ino\<rparr>) s)
                 else Inr (Some 1, upd_node n (\<lambda>v. v\<lparr>v_inode := ino, v_size := filesize,
                        v_data := Some (take (unat filesize) (drop (unat (file_data - base)) d))\<rparr>) s)))"

text \<open>The loop over the entries; \<open>fuel\<close> bounds their number.\<close>

fun cpio_loop :: "heap_env \<Rightarrow> u32 \<Rightarrow> u8 list \<Rightarrow> vptr \<Rightarrow> nat \<Rightarrow> u32 \<Rightarrow> u32 \<Rightarrow> 'a vfs_scheme \<Rightarrow> fault + u32 \<times> 'a vfs_scheme" where
  "cpio_loop h base d root 0 cur files s = Inl Runaway"
| "cpio_loop h base d root (Suc fuel) cur files s =
     bindE (cpio_decode base d cur) (\<lambda>item.
       case item of
         Stop \<Rightarrow> Inr (files, s)
       | Skip nxt \<Rightarrow> cpio_loop h base d root fuel nxt files s
       | Item nxt name directory ino filesize file_data \<Rightarrow>
           bindE (cpio_add h base d root name directory ino filesize file_data s) (\<lambda>(added, s).
             case added of
               None \<Rightarrow> Inr (files, s)
             | Some k \<Rightarrow> cpio_loop h base d root fuel nxt (files + k) s))"

definition initrd_parse :: "heap_env \<Rightarrow> nat \<Rightarrow> u32 \<Rightarrow> u8 list \<Rightarrow> 'a vfs_scheme \<Rightarrow> fault + vptr \<times> u32 \<times> 'a vfs_scheme" where
  "initrd_parse h fuel base d s =
     (case vfs_alloc_node h s of
        (None, s) \<Rightarrow> Inl (Panic ''initrd: out of VFS nodes'')
      | (Some root, s) \<Rightarrow>
          bindE (cpio_loop h base d root fuel base 0
                   (upd_node root (\<lambda>v. v\<lparr>v_name := [slash], v_flags := VFS_DIR, v_parent := Some root\<rparr>) s)) (\<lambda>(files, s).
            Inr (root, files, s)))"

section \<open>The driver\<close>

text \<open>The archive that \<open>init_initrd\<close> was given, with its address.\<close>

record initrd = vfs +
  initrd_data :: "(u32 \<times> u8 list) option"

definition initrd_ops :: fnptr where "initrd_ops = 91"

text \<open>\<open>fuel\<close> bounds the number of steps.\<close>

fun initrd_free_tree :: "nat \<Rightarrow> vptr option \<Rightarrow> 'a vfs_scheme \<Rightarrow> fault + 'a vfs_scheme"
  and initrd_free_children :: "nat \<Rightarrow> vptr option \<Rightarrow> 'a vfs_scheme \<Rightarrow> fault + 'a vfs_scheme" where
  "initrd_free_tree 0 n s = Inl Runaway"
| "initrd_free_tree (Suc fuel) n s =
     (case n of
        None \<Rightarrow> Inr s
      | Some x \<Rightarrow> bindE (initrd_free_children fuel (v_children (node_at s x)) s) (\<lambda>s. Inr (vfs_free_node x s)))"
| "initrd_free_children 0 c s = Inl Runaway"
| "initrd_free_children (Suc fuel) c s =
     (case c of
        None \<Rightarrow> Inr s
      | Some x \<Rightarrow>
          let nxt = v_sibling (node_at s x)
          in bindE (initrd_free_tree fuel (Some x) s) (initrd_free_children fuel nxt))"

definition initrd_mount :: "heap_env \<Rightarrow> nat \<Rightarrow> vptr \<Rightarrow> 'a initrd_scheme \<Rightarrow> fault + int \<times> 'a initrd_scheme" where
  "initrd_mount h fuel mountpoint s =
     (case initrd_data s of
        None \<Rightarrow> Inr (-1, s)
      | Some (base, d) \<Rightarrow>
          bindE (initrd_parse h fuel base d s) (\<lambda>(root, files, s).
            Inr (0, upd_node mountpoint (\<lambda>v. v\<lparr>v_mounted_root := Some root\<rparr>)
                      (upd_node root (\<lambda>v. v\<lparr>v_readonly := True, v_fs := Some initrd_ops\<rparr>) s))))"

definition initrd_umount :: "nat \<Rightarrow> vptr \<Rightarrow> 'a initrd_scheme \<Rightarrow> fault + int \<times> 'a initrd_scheme" where
  "initrd_umount fuel mountpoint s =
     (case v_mounted_root (node_at s mountpoint) of
        None \<Rightarrow> Inr (-1, s)
      | Some root \<Rightarrow>
          bindE (initrd_free_tree fuel (Some root) s) (\<lambda>s.
            Inr (0, upd_node mountpoint (\<lambda>v. v\<lparr>v_mounted_root := None\<rparr>) s)))"

definition init_initrd :: "u32 \<Rightarrow> u8 list \<Rightarrow> 'a initrd_scheme \<Rightarrow> 'a initrd_scheme" where
  "init_initrd base d s = vfs_fs_register ''initrd'' initrd_ops (s\<lparr>initrd_data := (if base = 0 then None else Some (base, d))\<rparr>)"

definition initrd_get_file :: "string \<Rightarrow> 'a initrd_scheme \<Rightarrow> fault + (u32 \<times> u8 list option) option" where
  "initrd_get_file path s =
     bindE (vfs_lookup s path) (\<lambda>n.
       case n of
         None \<Rightarrow> Inr None
       | Some n \<Rightarrow> if is_file s n then Inr (Some (v_size (node_at s n), v_data (node_at s n))) else Inr None)"

section \<open>Writing an archive\<close>

text \<open>The format as the tool writes it, for regular files.\<close>

definition hex_char :: "u32 \<Rightarrow> u8" where
  "hex_char x = (if x < 10 then 48 + ucast x else 87 + ucast x)"

definition hex_field :: "u32 \<Rightarrow> u8 list" where
  "hex_field w = map (\<lambda>m. hex_char (drop_bit m w AND 15)) [28, 24, 20, 16, 12, 8, 4, 0]"

definition pad4 :: "nat \<Rightarrow> nat" where
  "pad4 n = (n + 3) div 4 * 4"

definition cpio_header :: "u32 \<Rightarrow> u32 \<Rightarrow> u32 \<Rightarrow> u32 \<Rightarrow> u8 list" where
  "cpio_header ino mode filesize namesize =
     CPIO_MAGIC @ hex_field ino @ hex_field mode @ replicate 32 48 @ hex_field filesize @ replicate 32 48 @
     hex_field namesize @ replicate 8 48"

definition cpio_file :: "u32 \<times> string \<times> u8 list \<Rightarrow> u8 list" where
  "cpio_file f = (case f of (ino, name, dat) \<Rightarrow>
     cpio_header ino 0x81A4 (of_nat (length dat)) (of_nat (length name + 1)) @ bytes_of name @ [0] @
     replicate (pad4 (111 + length name) - (111 + length name)) 0 @ dat @ replicate (pad4 (length dat) - length dat) 0)"

definition cpio_trailer :: "u8 list" where
  "cpio_trailer = cpio_header 0 0 0 11 @ bytes_of ''TRAILER!!!'' @ [0, 0, 0, 0]"

definition cpio_archive :: "(u32 \<times> string \<times> u8 list) list \<Rightarrow> u8 list" where
  "cpio_archive fs = concat (map cpio_file fs) @ cpio_trailer"

text \<open>Numbers in hexadecimal.\<close>

lemma hex_digit_char: "x < 16 \<Longrightarrow> hex_digit (hex_char x) = x"
proof -
  assume "x < 16"
  then have "unat x < 16" by (simp add: word_less_nat_alt)
  then have "unat x \<in> set [0..<16]" by simp
  moreover have "\<forall>k\<in>set [0..<16]. hex_digit (hex_char (of_nat k)) = of_nat k" by code_simp
  ultimately have "hex_digit (hex_char (of_nat (unat x))) = of_nat (unat x)" by blast
  then show ?thesis by simp
qed

lemma nibble_step: "push_bit 4 (drop_bit (m + 4) w) OR (drop_bit m w AND 15) = drop_bit m w" for w :: u32
proof (rule bit_word_eqI)
  fix n
  have e: "(15 :: u32) = mask 4" by (simp add: mask_eq_exp_minus_1)
  show "bit (push_bit 4 (drop_bit (m + 4) w) OR (drop_bit m w AND 15)) n \<longleftrightarrow> bit (drop_bit m w) n" if "n < LENGTH(32)"
    unfolding e using that by (auto simp: bit_simps add.commute add.left_commute)
qed

lemma nibble_lt: "drop_bit m w AND 15 < (16 :: u32)"
proof -
  have e: "(15 :: u32) = mask 4" by (simp add: mask_eq_exp_minus_1)
  show ?thesis unfolding e by (simp add: word_less_nat_alt unat_mask_mod)
qed

lemma hex8_field: "hex8 (hex_field w @ rest) = w"
proof -
  have top: "push_bit 4 0 OR (drop_bit 28 w AND 15) = drop_bit 28 w"
    using nibble_step [of 28 w] by (simp add: bit_eq_iff bit_simps)
  have s: "push_bit 4 (drop_bit 28 w) OR (drop_bit 24 w AND 15) = drop_bit 24 w" "push_bit 4 (drop_bit 24 w) OR (drop_bit 20 w AND 15) = drop_bit 20 w"
    "push_bit 4 (drop_bit 20 w) OR (drop_bit 16 w AND 15) = drop_bit 16 w" "push_bit 4 (drop_bit 16 w) OR (drop_bit 12 w AND 15) = drop_bit 12 w"
    "push_bit 4 (drop_bit 12 w) OR (drop_bit 8 w AND 15) = drop_bit 8 w" "push_bit 4 (drop_bit 8 w) OR (drop_bit 4 w AND 15) = drop_bit 4 w"
    "push_bit 4 (drop_bit 4 w) OR (drop_bit 0 w AND 15) = drop_bit 0 w"
    using nibble_step [of 24 w] nibble_step [of 20 w] nibble_step [of 16 w] nibble_step [of 12 w] nibble_step [of 8 w]
      nibble_step [of 4 w] nibble_step [of 0 w] by simp_all
  have "take 8 (hex_field w @ rest) = hex_field w" by (simp add: hex_field_def)
  then have "hex8 (hex_field w @ rest) = drop_bit 0 w"
    by (simp only: hex8_def hex_field_def list.map fold_simps hex_digit_char [OF nibble_lt] top s)
  then show ?thesis by simp
qed

lemma length_fields [simp]: "length (hex_field w) = 8" "length CPIO_MAGIC = 6" "length (cpio_header i m f n) = 110"
  by (simp_all add: hex_field_def CPIO_MAGIC_def bytes_of_def cpio_header_def)

text \<open>Every field that the driver reads from a header is what was written.\<close>

lemma header_fields:
  "take 6 (cpio_header i m f n) = CPIO_MAGIC" "c_ino (cpio_header i m f n) = i" "c_mode (cpio_header i m f n) = m"
  "c_filesize (cpio_header i m f n) = f" "c_namesize (cpio_header i m f n) = n"
proof -
  have skip: "drop k (xs @ ys) = drop (k - length xs) ys" if "length xs \<le> k" for k and xs ys :: "u8 list" using that by simp
  show "take 6 (cpio_header i m f n) = CPIO_MAGIC" by (simp add: cpio_header_def)
  show "c_ino (cpio_header i m f n) = i" by (simp add: c_ino_def cpio_header_def hex8_field)
  show "c_mode (cpio_header i m f n) = m" by (simp add: c_mode_def cpio_header_def skip hex8_field)
  show "c_filesize (cpio_header i m f n) = f" by (simp add: c_filesize_def cpio_header_def skip hex8_field)
  show "c_namesize (cpio_header i m f n) = n" by (simp add: c_namesize_def cpio_header_def skip hex8_field)
qed

lemma cpio_align_nat: "unat x + 3 < 2 ^ 32 \<Longrightarrow> unat (cpio_align x) = pad4 (unat x)"
proof -
  assume a: "unat x + 3 < 2 ^ 32"
  have "(3 :: u32) = mask 2" by (simp add: mask_eq_exp_minus_1)
  moreover have "unat (x + 3) = unat x + 3" using a by (simp add: unat_plus_no_wrap)
  ultimately have "unat (cpio_align x) = unat x + 3 - (unat x + 3) mod 4"
    using and_not_mask_nat [of "x + 3" 2] by (simp add: cpio_align_def)
  then show ?thesis by (simp add: pad4_def minus_mod_eq_div_mult)
qed

text \<open>Reading at a place of the archive.\<close>

lemma unat_place: "k < 2 ^ 32 \<Longrightarrow> unat (base + of_nat k - base) = k" for base :: u32
  by (simp add: unat_of_nat_small)

lemma mem_bytes_at: "k + n \<le> length d \<Longrightarrow> length d < 2 ^ 32 \<Longrightarrow> mem_bytes base d (base + of_nat k) n = Inr (take n (drop k d))"
  unfolding mem_bytes_def by (subst (1 2) unat_place) simp_all

lemma mem_starts_at:
  "k + length cs \<le> length d \<Longrightarrow> length d < 2 ^ 32 \<Longrightarrow> mem_starts base d (base + of_nat k) cs = Inr (take (length cs) (drop k d) = cs)"
proof (induction cs arbitrary: k)
  case (Cons c cs)
  have "unat (base + of_nat k - base) = k" by (rule unat_place) (use Cons.prems in simp)
  then have b: "mem_byte base d (base + of_nat k) = Inr (d ! k)" using Cons.prems(1) by (simp add: mem_byte_def)
  have d: "drop k d = d ! k # drop (Suc k) d" using Cons.prems(1) by (simp add: Cons_nth_drop_Suc)
  have "base + of_nat k + 1 = base + of_nat (Suc k)" by simp
  then have "mem_starts base d (base + of_nat k + 1) cs = Inr (take (length cs) (drop (Suc k) d) = cs)"
    using Cons.IH [of "Suc k"] Cons.prems by (simp only:) simp
  then show ?case by (simp add: b d)
qed simp

lemma mem_string_at: "k < length d \<Longrightarrow> length d < 2 ^ 32 \<Longrightarrow> drop k d = xs @ 0 # ys \<Longrightarrow> 0 \<notin> set xs \<Longrightarrow>
    mem_string base d (base + of_nat k) = Inr (text_of xs)"
  unfolding mem_string_def Let_def by (subst (1 2) unat_place) (auto simp: takeWhile_append)

lemma text_bytes [simp]: "text_of (bytes_of cs) = cs"
  by (induction cs) (simp_all add: text_of_def bytes_of_def unsigned_of_nat take_bit_nat_eq_self)

lemma length_bytes_of [simp]: "length (bytes_of cs) = length cs"
  by (simp add: bytes_of_def)

lemma bytes_of_inj: "bytes_of cs = bytes_of ds \<longleftrightarrow> cs = ds"
  by (metis text_bytes)

section \<open>Reading it back\<close>

text \<open>A name that stands for a file in the root directory.\<close>

definition flat_name :: "string \<Rightarrow> bool" where
  "flat_name n \<longleftrightarrow> n \<noteq> [] \<and> n \<noteq> ''.'' \<and> length n < VFS_NAME_MAX \<and> slash \<notin> set n \<and> CHR 0x00 \<notin> set n \<and> take 10 n \<noteq> ''TRAILER!!!''"

lemma pad4_le: "n \<le> pad4 n" "pad4 n \<le> n + 3"
  unfolding pad4_def by presburger+

lemma length_cpio_file: "length (cpio_file (ino, name, dat)) = pad4 (111 + length name) + pad4 (length dat)"
  using pad4_le(1) [of "111 + length name"] pad4_le(1) [of "length dat"] by (simp add: cpio_file_def)

lemma take_bytes_of: "take n (bytes_of cs) = bytes_of (take n cs)"
  by (simp add: bytes_of_def take_map)

lemma no_nul:
  assumes "CHR 0x00 \<notin> set cs"
  shows "0 \<notin> set (bytes_of cs)"
proof
  assume "0 \<in> set (bytes_of cs)"
  then obtain c where c: "c \<in> set cs" "(of_nat (of_char c) :: u8) = 0" by (auto simp: bytes_of_def)
  have "text_of (bytes_of [c]) = [c]" by (rule text_bytes)
  then have "char_of (unat (0 :: u8)) = c" using c(2) by (simp add: text_of_def bytes_of_def)
  moreover have "char_of (unat (0 :: u8)) = CHR 0x00" by code_simp
  ultimately show False using c(1) assms by simp
qed

lemma decode_file:
  assumes d: "d = pre @ cpio_file (ino, name, dat) @ post" and small: "unat base + length d < 2 ^ 32" and name: "flat_name name"
  shows "cpio_decode base d (base + of_nat (length pre)) =
    Inr (Item (base + of_nat (length pre + length (cpio_file (ino, name, dat)))) name False ino (of_nat (length dat))
      (base + of_nat (length pre + pad4 (111 + length name))))"
  and "take (length dat) (drop (length pre + pad4 (111 + length name)) d) = dat"
proof -
  let ?k = "length pre"
  let ?len = "length (cpio_file (ino, name, dat))"
  let ?lim = "base + of_nat (length d)"
  define hdr where "hdr = cpio_header ino 0x81A4 (of_nat (length dat)) (of_nat (length name + 1))"
  note len = length_cpio_file [of ino name dat]
  have le: "?k + ?len \<le> length d" by (simp add: d)
  have dl: "length d < 2 ^ 32" using small by simp
  have p: "111 + length name \<le> pad4 (111 + length name)" "length dat \<le> pad4 (length dat)" by (rule pad4_le)+
  have addr: "unat (base + of_nat k) = unat base + k" if "k \<le> length d" for k
  proof -
    have "unat (of_nat k :: u32) = k" using that dl by (intro unat_of_nat_small) simp
    then show ?thesis using that small by (subst unat_plus_no_wrap) simp_all
  qed
  have fields: "take 6 hdr = CPIO_MAGIC" "c_ino hdr = ino" "c_mode hdr = 0x81A4" "c_filesize hdr = of_nat (length dat)"
    "c_namesize hdr = of_nat (length name + 1)" by (simp_all add: hdr_def header_fields)
  have hdr: "mem_bytes base d (base + of_nat ?k) 110 = Inr hdr"
  proof -
    have "take 110 (drop ?k d) = hdr" by (simp add: d cpio_file_def hdr_def)
    then show ?thesis using mem_bytes_at [of ?k 110 d base] le p len dl by simp
  qed
  have ns: "unat (of_nat (length name + 1) :: u32) = length name + 1" using le len p dl by (intro unat_of_nat_small) simp
  have nd: "unat (of_nat (length dat) :: u32) = length dat" using le len p dl by (intro unat_of_nat_small) simp
  have at_name: "drop (?k + 110) d = bytes_of name @ 0 # (replicate (pad4 (111 + length name) - (111 + length name)) 0 @ dat @
      replicate (pad4 (length dat) - length dat) 0 @ post)"
    by (simp add: d cpio_file_def)
  have na: "base + of_nat ?k + CPIO_HDR_SIZE = base + of_nat (?k + 110)" by (simp add: CPIO_HDR_SIZE_def)
  have trailer: "mem_starts base d (base + of_nat (?k + 110)) (bytes_of ''TRAILER!!!'') = Inr False" if "11 \<le> length name + 1"
  proof -
    have "?k + 110 + 10 \<le> length d" using that le len p by simp
    moreover have "take 10 (drop (?k + 110) d) = bytes_of (take 10 name)" using that by (simp add: at_name flip: take_bytes_of)
    moreover have l: "length (bytes_of ''TRAILER!!!'') = 10" by simp
    ultimately show ?thesis using mem_starts_at [of "?k + 110" "bytes_of ''TRAILER!!!''" d base, unfolded l] dl name
      by (simp only: bytes_of_inj flat_name_def simp_thms)
  qed
  have dot: "mem_starts base d (base + of_nat (?k + 110)) (bytes_of ''.'') = Inr False" if "length name + 1 = 2"
  proof -
    have "?k + 110 + 1 \<le> length d" using le len p by simp
    moreover have "take 1 (drop (?k + 110) d) = bytes_of name" using that by (simp add: at_name)
    moreover have l: "length (bytes_of ''.'') = 1" by simp
    ultimately show ?thesis using mem_starts_at [of "?k + 110" "bytes_of ''.''" d base, unfolded l] dl name
      by (simp only: bytes_of_inj flat_name_def simp_thms)
  qed
  have dotslash: "mem_starts base d (base + of_nat (?k + 110)) (bytes_of ''./'') = Inr False" if "2 < length name + 1"
  proof -
    have "?k + 110 + 2 \<le> length d" using that le len p by simp
    moreover have "take 2 (drop (?k + 110) d) = bytes_of (take 2 name)" using that by (simp add: at_name flip: take_bytes_of)
    moreover have "take 2 name \<noteq> ''./''"
    proof
      assume "take 2 name = ''./''"
      then have "slash \<in> set (take 2 name)" by simp
      then show False using name set_take_subset [of 2 name] by (auto simp: flat_name_def)
    qed
    moreover have l: "length (bytes_of ''./'') = 2" by simp
    ultimately show ?thesis using mem_starts_at [of "?k + 110" "bytes_of ''./''" d base, unfolded l] dl by (simp only: bytes_of_inj simp_thms)
  qed
  have str: "mem_string base d (base + of_nat (?k + 110)) = Inr name"
    using mem_string_at [OF _ dl at_name] no_nul name le len p by (simp add: flat_name_def)
  have doff: "cpio_align (CPIO_HDR_SIZE + of_nat (length name + 1)) = of_nat (pad4 (111 + length name))"
  proof -
    have "unat (CPIO_HDR_SIZE + of_nat (length name + 1)) = 111 + length name"
      using ns le len p dl by (subst unat_plus_no_wrap) (simp_all add: CPIO_HDR_SIZE_def)
    then have "unat (cpio_align (CPIO_HDR_SIZE + of_nat (length name + 1))) = pad4 (111 + length name)"
      using cpio_align_nat [of "CPIO_HDR_SIZE + of_nat (length name + 1)"] name by (simp add: flat_name_def VFS_NAME_MAX_def)
    then show ?thesis by (metis of_nat_unat ucast_id)
  qed
  have dat3: "length dat + 3 < 2 ^ 32" using le len p dl by linarith
  have fsz: "cpio_align (of_nat (length dat)) = of_nat (pad4 (length dat))"
  proof -
    have "unat (cpio_align (of_nat (length dat))) = pad4 (length dat)" using cpio_align_nat [of "of_nat (length dat)"] dat3 nd by simp
    then show ?thesis by (metis of_nat_unat ucast_id)
  qed
  have nxt: "base + of_nat ?k + (of_nat (pad4 (111 + length name)) + of_nat (pad4 (length dat))) = base + of_nat (?k + ?len)"
    by (simp add: len)
  have c1: "base + of_nat ?k + CPIO_HDR_SIZE \<le> ?lim" unfolding na using le len p
    by (simp only: word_le_nat_alt addr)
  show "take (length dat) (drop (?k + pad4 (111 + length name)) d) = dat"
  proof -
    have "d = (pre @ hdr @ bytes_of name @ [0] @ replicate (pad4 (111 + length name) - (111 + length name)) 0) @
        dat @ replicate (pad4 (length dat) - length dat) 0 @ post" by (simp add: d cpio_file_def hdr_def)
    moreover have "length (pre @ hdr @ bytes_of name @ [0] @ replicate (pad4 (111 + length name) - (111 + length name)) (0 :: u8)) =
        ?k + pad4 (111 + length name)" using p by (simp add: hdr_def)
    ultimately show ?thesis by (metis append_eq_conv_conj)
  qed
  have c2: "\<not> ?lim < base + of_nat (?k + ?len)" using le by (simp only: word_less_nat_alt addr le_refl)
  have n11: "(11 :: u32) \<le> of_nat (length name + 1) \<longleftrightarrow> 11 \<le> length name + 1"
    and n2: "(of_nat (length name + 1) :: u32) = 2 \<longleftrightarrow> length name + 1 = 2" "(2 :: u32) < of_nat (length name + 1) \<longleftrightarrow> 2 < length name + 1"
    using ns by (simp_all add: word_le_nat_alt word_less_nat_alt word_unat_eq_iff)
  have tr: "(if 11 \<le> length name + 1 then mem_starts base d (base + of_nat (?k + 110)) (bytes_of ''TRAILER!!!'') else Inr False) = Inr False"
    and dt: "(if length name + 1 = 2 then mem_starts base d (base + of_nat (?k + 110)) (bytes_of ''.'') else Inr False) = Inr False"
    and ds: "(if 2 < length name + 1 then mem_starts base d (base + of_nat (?k + 110)) (bytes_of ''./'') else Inr False) = Inr False"
    using trailer dot dotslash by simp_all
  have regular: "\<not> (0x81A4 :: u32) AND 0xF000 = 0x4000" by simp
  have file_addr: "base + of_nat ?k + of_nat (pad4 (111 + length name)) = base + of_nat (?k + pad4 (111 + length name))" by simp
  show "cpio_decode base d (base + of_nat ?k) = Inr (Item (base + of_nat (?k + ?len)) name False ino (of_nat (length dat))
      (base + of_nat (?k + pad4 (111 + length name))))"
    by (simp only: cpio_decode_def Let_def hdr bindE_simps fields na n11 n2 tr dt ds str doff fsz nxt file_addr c1 [unfolded na] c2 regular
        if_True if_False not_True_eq_False simp_thms)
qed
section \<open>The tree of an archive\<close>

text \<open>
  The root directory \<open>r\<close> while the archive is unpacked: its children \<open>ns\<close> are the files so
  far, all nodes from the pool.
\<close>

definition node_of_file :: "vptr \<Rightarrow> u32 \<times> string \<times> u8 list \<Rightarrow> vfs_node \<Rightarrow> bool" where
  "node_of_file r f v \<longleftrightarrow> (case f of (ino, name, dat) \<Rightarrow>
     v_name v = name \<and> v_inode v = ino \<and> v_size v = of_nat (length dat) \<and> v_data v = Some dat \<and> v_flags v = VFS_FILE \<and> v_parent v = Some r)"

definition unpacked :: "vptr \<Rightarrow> vptr list \<Rightarrow> (u32 \<times> string \<times> u8 list) list \<Rightarrow> 'a vfs_scheme \<Rightarrow> bool" where
  "unpacked r ns fs s \<longleftrightarrow> node_free_list s = None \<and> r < node_pool_used s \<and> r \<notin> set ns \<and> (\<forall>n\<in>set ns. n < node_pool_used s) \<and>
     linked (sib (node_at s)) (v_children (node_at s r)) ns \<and> v_flags (node_at s r) = VFS_DIR \<and>
     list_all2 (\<lambda>n f. node_of_file r f (node_at s n)) ns (rev fs)"

lemma unpacked_find:
  assumes "unpacked r ns fs s"
  shows "dir_child s r name = Inr (find (\<lambda>n. v_name (node_at s n) = name) ns)"
  using assms child_named_linked [of "node_at s" "v_children (node_at s r)" ns name] by (simp add: unpacked_def dir_child_def)

lemma unpacked_names:
  assumes "unpacked r ns fs s"
  shows "map (\<lambda>n. v_name (node_at s n)) ns = map (\<lambda>f. fst (snd f)) (rev fs)"
proof -
  have "list_all2 (\<lambda>n f. node_of_file r f (node_at s n)) ns (rev fs)" using assms by (simp add: unpacked_def)
  then show ?thesis
    by (induction rule: list_all2_induct) (auto simp: node_of_file_def)
qed

lemma flat_path: "slash \<notin> set name \<Longrightarrow> name \<noteq> [] \<Longrightarrow> length name < VFS_NAME_MAX \<Longrightarrow> ensure_dir h r (full_path name) s = Inr (Some r, s)"
proof -
  assume a: "slash \<notin> set name" "name \<noteq> []" "length name < VFS_NAME_MAX"
  have t: "take (VFS_PATH_MAX - 2) name = name" using a(3) by (simp add: VFS_PATH_MAX_def VFS_NAME_MAX_def)
  have "dropWhile ((=) slash) (slash # name) = name" using a(1,2) by (cases name) auto
  moreover have "dropWhile ((\<noteq>) slash) name = []" using a(1) by auto
  ultimately show ?thesis by (subst ensure_dir.simps) (simp add: full_path_def t Let_def)
qed

lemma flat_base: "slash \<notin> set name \<Longrightarrow> base_name name = name"
proof -
  assume "slash \<notin> set name"
  then have "takeWhile ((\<noteq>) slash) (rev name) = rev name" by (simp add: takeWhile_eq_all_conv) blast
  then show ?thesis by (simp only: base_name_def rev_rev_ident)
qed

lemma add_file:
  assumes un: "unpacked r ns fs s" and name: "flat_name name" and new: "name \<notin> (\<lambda>f. fst (snd f)) ` set fs"
    and pool: "node_pool_used s < VFS_NODE_POOL_SIZE"
    and data: "take (unat fsize) (drop (unat (a - base)) d) = dat" "fsize = of_nat (length dat)"
  shows "\<exists>s'. cpio_add h base d r name False ino fsize a s = Inr (Some 1, s') \<and>
    unpacked r (node_pool_used s # ns) (fs @ [(ino, name, dat)]) s' \<and> node_pool_used s' = node_pool_used s + 1"
proof -
  let ?n = "node_pool_used s"
  have u: "node_free_list s = None" "r < ?n" "r \<notin> set ns" "\<forall>n\<in>set ns. n < ?n" "linked (sib (node_at s)) (v_children (node_at s r)) ns"
    "v_flags (node_at s r) = VFS_DIR" "list_all2 (\<lambda>n f. node_of_file r f (node_at s n)) ns (rev fs)" using un by (simp_all add: unpacked_def)
  have f: "name \<noteq> []" "slash \<notin> set name" "length name < VFS_NAME_MAX" using name by (simp_all add: flat_name_def)
  have "find (\<lambda>n. v_name (node_at s n) = name) ns = None"
  proof -
    have "name \<notin> set (map (\<lambda>n. v_name (node_at s n)) ns)" using new by (simp add: unpacked_names [OF un])
    then show ?thesis by (auto simp: find_None_iff)
  qed
  then have none: "dir_child s r name = Inr None" using unpacked_find [OF un] by simp
  have t: "take (VFS_NAME_MAX - Suc 0) name = name" using f(3) by simp
  let ?s = "upd_node ?n (\<lambda>v. v\<lparr>v_inode := ino, v_size := fsize, v_data := Some dat\<rparr>)
    (push_child r ?n (upd_node ?n (\<lambda>v. v\<lparr>v_name := name, v_flags := VFS_FILE\<rparr>) (upd_node ?n (\<lambda>_. zero_node) (s\<lparr>node_pool_used := ?n + 1\<rparr>))))"
  obtain t where run: "cpio_add h base d r name False ino fsize a s = Inr (Some 1, t)"
    and at: "\<And>x. node_at t x = (if x = ?n then zero_node\<lparr>v_name := name, v_flags := VFS_FILE, v_parent := Some r,
      v_sibling := v_children (node_at s r), v_inode := ino, v_size := fsize, v_data := Some dat\<rparr>
    else if x = r then (node_at s r)\<lparr>v_children := Some ?n\<rparr> else node_at s x)"
    and misc: "node_free_list t = None" "node_pool_used t = ?n + 1"
  proof
    show "cpio_add h base d r name False ino fsize a s = Inr (Some 1, ?s)"
      using none u(1) pool
      by (simp add: cpio_add_def flat_path [OF f(2,1,3)] flat_base [OF f(2)] find_or_create_def vfs_alloc_node_def Let_def t data(1))
    show "node_at ?s x = (if x = ?n then zero_node\<lparr>v_name := name, v_flags := VFS_FILE, v_parent := Some r,
        v_sibling := v_children (node_at s r), v_inode := ino, v_size := fsize, v_data := Some dat\<rparr>
      else if x = r then (node_at s r)\<lparr>v_children := Some ?n\<rparr> else node_at s x)" for x
      using u(2) by (simp add: push_child_def)
    show "node_free_list ?s = None" "node_pool_used ?s = ?n + 1" using u(1) by (simp_all add: push_child_def Let_def upd_node_def)
  qed
  have same: "node_at t x = node_at s x" if "x \<in> set ns" for x using that u(3,4) at by auto
  have "linked (sib (node_at t)) (v_children (node_at s r)) ns"
    using u(5) lseg_cong [of ns "sib (node_at t)" "sib (node_at s)"] same by simp
  then have "linked (sib (node_at t)) (v_children (node_at t r)) (?n # ns)" using u(2) by (simp add: at)
  moreover have "list_all2 (\<lambda>n f. node_of_file r f (node_at t n)) (?n # ns) (rev (fs @ [(ino, name, dat)]))"
  proof -
    have "list_all2 (\<lambda>n f. node_of_file r f (node_at t n)) ns (rev fs)"
      using u(7) same by (auto simp: list_all2_conv_all_nth)
    then show ?thesis using data(2) by (simp add: node_of_file_def at)
  qed
  ultimately have "unpacked r (?n # ns) (fs @ [(ino, name, dat)]) t"
    using u misc at by (auto simp: unpacked_def less_Suc_eq)
  then show ?thesis using run misc by blast
qed

text \<open>The trailer.\<close>

lemma decode_trailer:
  assumes d: "d = pre @ cpio_trailer" and small: "unat base + length d < 2 ^ 32"
  shows "cpio_decode base d (base + of_nat (length pre)) = Inr Stop"
proof -
  let ?k = "length pre"
  have dl: "length d < 2 ^ 32" using small by simp
  have len: "length d = ?k + 124" by (simp add: d cpio_trailer_def)
  have hdr: "mem_bytes base d (base + of_nat ?k) 110 = Inr (cpio_header 0 0 0 11)"
    using mem_bytes_at [of ?k 110 d base] len dl by (simp add: d cpio_trailer_def)
  have at_name: "take 10 (drop (?k + 110) d) = bytes_of ''TRAILER!!!''" by (simp add: d cpio_trailer_def)
  have l: "length (bytes_of ''TRAILER!!!'') = 10" by simp
  have "mem_starts base d (base + of_nat (?k + 110)) (bytes_of ''TRAILER!!!'') = Inr True"
    using mem_starts_at [of "?k + 110" "bytes_of ''TRAILER!!!''" d base, unfolded l] at_name len dl by simp
  moreover have "base + of_nat ?k + CPIO_HDR_SIZE = base + of_nat (?k + 110)" by (simp add: CPIO_HDR_SIZE_def)
  ultimately show ?thesis by (simp only: cpio_decode_def Let_def hdr bindE_simps header_fields) simp
qed
abbreviation file_name :: "u32 \<times> string \<times> u8 list \<Rightarrow> string" where
  "file_name f \<equiv> fst (snd f)"

lemma loop_files:
  "unpacked r ns old s \<Longrightarrow> d = concat (map cpio_file old) @ concat (map cpio_file fs) @ cpio_trailer \<Longrightarrow>
   unat base + length d < 2 ^ 32 \<Longrightarrow> length fs < fuel \<Longrightarrow> node_pool_used s + length fs \<le> VFS_NODE_POOL_SIZE \<Longrightarrow>
   \<forall>f\<in>set fs. flat_name (file_name f) \<Longrightarrow> distinct (map file_name (old @ fs)) \<Longrightarrow>
   \<exists>ns' t. cpio_loop h base d r fuel (base + of_nat (length (concat (map cpio_file old)))) files s = Inr (files + of_nat (length fs), t) \<and>
     unpacked r ns' (old @ fs) t"
proof (induction fs arbitrary: old ns s fuel files)
  case Nil
  then obtain fuel' where "fuel = Suc fuel'" by (cases fuel) auto
  then show ?case using Nil decode_trailer [of d "concat (map cpio_file old)" base] by auto
next
  case (Cons f fs)
  obtain ino name dat where f: "f = (ino, name, dat)" by (cases f)
  obtain fuel' where fuel: "fuel = Suc fuel'" using Cons.prems(4) by (cases fuel) auto
  let ?pre = "concat (map cpio_file old)"
  have d: "d = ?pre @ cpio_file (ino, name, dat) @ (concat (map cpio_file fs) @ cpio_trailer)" using Cons.prems(2) by (simp add: f)
  have name: "flat_name name" using Cons.prems(6) by (simp add: f)
  note dec = decode_file [OF d Cons.prems(3) name]
  have dl: "length d < 2 ^ 32" using Cons.prems(3) by simp
  have lens: "length dat \<le> pad4 (length dat)" "length ?pre + (pad4 (111 + length name) + pad4 (length dat)) \<le> length d"
    using pad4_le(1) [of "length dat"] d length_cpio_file [of ino name dat] by simp_all
  have u1: "unat (of_nat (length dat) :: u32) = length dat" using lens dl by (intro unat_of_nat_small) simp
  have u2: "unat (base + of_nat (length ?pre + pad4 (111 + length name)) - base) = length ?pre + pad4 (111 + length name)"
    by (rule unat_place) (use lens dl in simp)
  have data: "take (unat (of_nat (length dat) :: u32)) (drop (unat (base + of_nat (length ?pre + pad4 (111 + length name)) - base)) d) = dat"
    unfolding u1 u2 by (rule dec(2))
  have new: "name \<notin> file_name ` set old" using Cons.prems(7) by (auto simp: f)
  have pool: "node_pool_used s < VFS_NODE_POOL_SIZE" using Cons.prems(5) by simp
  obtain t where t: "cpio_add h base d r name False ino (of_nat (length dat)) (base + of_nat (length ?pre + pad4 (111 + length name))) s = Inr (Some 1, t)"
    "unpacked r (node_pool_used s # ns) (old @ [f]) t" "node_pool_used t = node_pool_used s + 1"
    using add_file [OF Cons.prems(1) name new pool data refl, of h ino] f by blast
  have "d = concat (map cpio_file (old @ [f])) @ concat (map cpio_file fs) @ cpio_trailer" using Cons.prems(2) by simp
  moreover have "length fs < fuel'" "node_pool_used t + length fs \<le> VFS_NODE_POOL_SIZE" using Cons.prems(4,5) fuel t(3) by simp_all
  moreover have "\<forall>f\<in>set fs. flat_name (file_name f)" "distinct (map file_name ((old @ [f]) @ fs))" using Cons.prems(6,7) by simp_all
  ultimately obtain ns' t' where r: "cpio_loop h base d r fuel' (base + of_nat (length (concat (map cpio_file (old @ [f]))))) (files + 1) t =
      Inr (files + 1 + of_nat (length fs), t')" "unpacked r ns' ((old @ [f]) @ fs) t'"
    using Cons.IH [OF t(2) _ Cons.prems(3)] by blast
  have nxt: "base + of_nat (length ?pre + length (cpio_file (ino, name, dat))) = base + of_nat (length (concat (map cpio_file (old @ [f]))))"
    by (simp add: f)
  have "cpio_loop h base d r fuel (base + of_nat (length ?pre)) files s = Inr (files + 1 + of_nat (length fs), t')"
    using dec(1) t(1) r(1) unfolding fuel nxt by (simp only: cpio_loop.simps bindE_simps cpio_item.case option.case prod.case)
  then show ?case using r(2) by (auto simp: add.assoc)
qed

text \<open>
  C11. Unpacking the archive of any list of files with different plain names gives a root
  directory that holds exactly these files: under each name a file with the number of its
  inode, its size and its bytes, and nothing under any other name; the count of files is right,
  and one step per file and one for the trailer are enough.
\<close>

theorem initrd_unpacks:
  assumes flat: "\<forall>f\<in>set fs. flat_name (file_name f)" "distinct (map file_name fs)"
    and small: "unat base + length (cpio_archive fs) < 2 ^ 32" and fuel: "length fs < fuel"
    and pool: "node_free_list s = None" "node_pool_used s + length fs < VFS_NODE_POOL_SIZE"
  shows "\<exists>r t. initrd_parse h fuel base (cpio_archive fs) s = Inr (r, of_nat (length fs), t) \<and>
    (\<forall>f\<in>set fs. \<exists>n. dir_child t r (file_name f) = Inr (Some n) \<and> node_of_file r f (node_at t n)) \<and>
    (\<forall>name. name \<notin> file_name ` set fs \<longrightarrow> dir_child t r name = Inr None)"
proof -
  let ?r = "node_pool_used s"
  let ?s = "upd_node ?r (\<lambda>v. v\<lparr>v_name := [slash], v_flags := VFS_DIR, v_parent := Some ?r\<rparr>)
    (upd_node ?r (\<lambda>_. zero_node) (s\<lparr>node_pool_used := ?r + 1\<rparr>))"
  have un: "unpacked ?r [] [] ?s" using pool(1) by (simp add: unpacked_def upd_node_def zero_node_def)
  obtain ns t where t: "cpio_loop h base (cpio_archive fs) ?r fuel (base + of_nat (length (concat (map cpio_file [])))) 0 ?s = Inr (0 + of_nat (length fs), t)"
    "unpacked ?r ns ([] @ fs) t"
    using loop_files [OF un, of "cpio_archive fs" fs base fuel h 0] small fuel pool(2) flat by (auto simp: cpio_archive_def upd_node_def)
  have "initrd_parse h fuel base (cpio_archive fs) s = Inr (?r, of_nat (length fs), t)"
    using t(1) pool by (simp add: initrd_parse_def vfs_alloc_node_def Let_def)
  moreover have "\<exists>n. dir_child t ?r (file_name f) = Inr (Some n) \<and> node_of_file ?r f (node_at t n)" if f: "f \<in> set fs" for f
  proof -
    have l: "list_all2 (\<lambda>n f. node_of_file ?r f (node_at t n)) ns (rev fs)" using t(2) by (simp add: unpacked_def)
    have names: "map (\<lambda>n. v_name (node_at t n)) ns = map file_name (rev fs)" using unpacked_names [OF t(2)] by simp
    have "file_name f \<in> set (map (\<lambda>n. v_name (node_at t n)) ns)" unfolding names using f by simp
    then have "find (\<lambda>n. v_name (node_at t n) = file_name f) ns \<noteq> None" by (auto simp: find_None_iff)
    then obtain n where n: "find (\<lambda>n. v_name (node_at t n) = file_name f) ns = Some n" by blast
    then obtain i where i: "i < length ns" "ns ! i = n" "v_name (node_at t n) = file_name f" by (auto simp: find_Some_iff)
    have g: "node_of_file ?r (rev fs ! i) (node_at t n)" using l i by (auto simp: list_all2_conv_all_nth)
    have "length ns = length fs" using l by (simp add: list_all2_conv_all_nth)
    then have "rev fs ! i \<in> set fs" using i(1) nth_mem [of i "rev fs"] by simp
    moreover have "file_name (rev fs ! i) = file_name f" using g i(3) by (auto simp: node_of_file_def split: prod.splits)
    ultimately have "rev fs ! i = f" using flat(2) f by (simp add: distinct_map inj_on_def)
    then show ?thesis using unpacked_find [OF t(2)] n g by auto
  qed
  moreover have "dir_child t ?r name = Inr None" if "name \<notin> file_name ` set fs" for name
  proof -
    have "name \<notin> set (map (\<lambda>n. v_name (node_at t n)) ns)" unfolding unpacked_names [OF t(2)] using that by simp
    then have "find (\<lambda>n. v_name (node_at t n) = name) ns = None" by (auto simp: find_None_iff)
    then show ?thesis using unpacked_find [OF t(2)] by simp
  qed
  ultimately show ?thesis by blast
qed

definition fresh_fs :: vfs where
  "fresh_fs = \<lparr>node_at = (\<lambda>_. zero_node), node_pool_used = 0, node_free_list = None, next_inode = 1, vfs_root = None,
     mount_table = [], fs_registry = []\<rparr>"

definition no_heap :: heap_env where
  "no_heap = \<lparr>he_node = None, he_buf = (\<lambda>_. None)\<rparr>"

theorem initrd_unpacks_witness:
  "\<exists>r t n. initrd_parse no_heap 3 0x100000 (cpio_archive [(5, ''motd'', [104, 105]), (6, ''sh'', [])]) fresh_fs = Inr (r, 2, t) \<and>
     dir_child t r ''motd'' = Inr (Some n) \<and> v_size (node_at t n) = 2 \<and> v_data (node_at t n) = Some [104, 105] \<and>
     dir_child t r ''ls'' = Inr None"
proof -
  let ?fs = "[(5, ''motd'', [104, 105]), (6, ''sh'', [])] :: (u32 \<times> string \<times> u8 list) list"
  have "\<forall>f\<in>set ?fs. flat_name (file_name f)" by (simp add: flat_name_def VFS_NAME_MAX_def)
  moreover have "distinct (map file_name ?fs)" by simp
  moreover have "unat (0x100000 :: u32) + length (cpio_archive ?fs) < 2 ^ 32"
    by (simp add: cpio_archive_def length_cpio_file pad4_def cpio_trailer_def)
  moreover have "length ?fs < 3" by simp
  moreover have "node_free_list fresh_fs = None" "node_pool_used fresh_fs + length ?fs < VFS_NODE_POOL_SIZE"
    by (simp_all add: fresh_fs_def VFS_NODE_POOL_SIZE_def)
  ultimately obtain r t where rt: "initrd_parse no_heap 3 0x100000 (cpio_archive ?fs) fresh_fs = Inr (r, of_nat (length ?fs), t)"
    "\<forall>f\<in>set ?fs. \<exists>n. dir_child t r (file_name f) = Inr (Some n) \<and> node_of_file r f (node_at t n)"
    "\<forall>name. name \<notin> file_name ` set ?fs \<longrightarrow> dir_child t r name = Inr None"
    using initrd_unpacks [where h = no_heap and s = fresh_fs and base = "0x100000" and fs = ?fs and fuel = 3] by auto
  then show ?thesis by (auto simp: node_of_file_def)
qed

section \<open>Sizes that wrap around\<close>

text \<open>
  The sum of the sizes of an entry is not checked for an overflow: an entry of the name
  \<open>.\<close> whose file has the size \<open>0xFFFFFF90\<close> is its own successor, and the loop never ends.
\<close>

lemma initrd_hang:
  assumes d: "d = cpio_header i m 0xFFFFFF90 2 @ [46, 0] @ rest" and small: "unat base + length d < 2 ^ 32"
  shows "cpio_loop h base d root fuel base files s = Inl Runaway"
proof -
  have dl: "length d < 2 ^ 32" using small by simp
  have len: "length d = 112 + length rest" by (simp add: d)
  have hdr: "mem_bytes base d base 110 = Inr (cpio_header i m 0xFFFFFF90 2)"
    using mem_bytes_at [of 0 110 d base] len dl by (simp add: d)
  have dot: "mem_starts base d (base + 110) (bytes_of ''.'') = Inr True"
    using mem_starts_at [of 110 "bytes_of ''.''" d base] len dl by (simp add: d bytes_of_def)
  have e: "unat (base + of_nat (length d)) = unat base + length d"
    using small dl by (subst unat_plus_no_wrap) (simp_all add: unat_of_nat_small)
  have "unat (base + 110) = unat base + 110" using small len by (subst unat_plus_no_wrap) simp_all
  then have fits: "base + CPIO_HDR_SIZE \<le> base + of_nat (length d)" "base \<le> base + of_nat (length d)"
    using e len by (simp_all add: word_le_nat_alt CPIO_HDR_SIZE_def)
  have next0: "cpio_align (CPIO_HDR_SIZE + 2) + cpio_align 0xFFFFFF90 = 0" by code_simp
  have "cpio_decode base d base = Inr (Skip base)"
    using fits(2) by (simp add: cpio_decode_def Let_def hdr header_fields next0 fits(1) dot [folded CPIO_HDR_SIZE_def])
  then show ?thesis by (induction fuel) simp_all
qed

end
