(* ===== verification/Sh_Text.thy ===== *)
theory Sh_Text
  imports Vfs_File "HOL-Library.Char_ord" "HOL-Library.List_Lexorder" "HOL-Library.Multiset"
begin

text \<open>
  The text functions of the shell, \<open>userland/sh.c\<close>: paths, words and quotes, variables,
  wildcards and redirections. A C string is the list of its characters before the
  terminating NUL; a token that the shell keeps in place in its line is the token itself.
\<close>

section \<open>Paths\<close>

text \<open>
  \<open>sh_resolve_path\<close> with the buffers \<open>tmp\<close> and \<open>norm\<close> of 256 bytes; \<open>outsz\<close> is 256 in every call.
\<close>

definition sh_tmp :: "string \<Rightarrow> string \<Rightarrow> string" where
  "sh_tmp dir path =
     (if path \<noteq> [] \<and> hd path = slash then take 255 path
      else
        let t = take 255 dir;
            t = (if t \<noteq> [] \<and> last t \<noteq> slash \<and> length t < 255 then t @ [slash] else t)
        in t @ take (255 - length t) path)"

text \<open>Back to the slash before the last component.\<close>

function norm_chop :: "string \<Rightarrow> string" where
  "norm_chop n = (if length n > 1 \<and> last n \<noteq> slash then norm_chop (butlast n) else n)"
  by pat_completeness auto
termination by (relation "measure length") auto

declare norm_chop.simps [simp del]

definition norm_push :: "nat \<Rightarrow> string \<Rightarrow> string \<Rightarrow> string" where
  "norm_push outsz n g =
     (let n = (if (n = [] \<or> last n \<noteq> slash) \<and> length n < outsz - 1 then n @ [slash] else n)
      in n @ take (outsz - 1 - length n) g)"

function norm_loop :: "nat \<Rightarrow> string \<Rightarrow> string \<Rightarrow> string" where
  "norm_loop outsz n p =
     (let p = dropWhile ((=) slash) p in
      if p = [] then n
      else
        let comp = takeWhile ((\<noteq>) slash) p;
            n = (if comp = ''..'' then if length n > 1 then norm_chop (butlast n) else n
                 else if comp = ''.'' then n
                 else norm_push outsz n comp)
        in norm_loop outsz n (dropWhile ((\<noteq>) slash) p))"
  by pat_completeness auto
termination by (relation "measure (\<lambda>(outsz, n, p). length p)") (auto simp: rest_shorter)

declare norm_loop.simps [simp del]

definition sh_resolve_path :: "string \<Rightarrow> string \<Rightarrow> nat \<Rightarrow> string" where
  "sh_resolve_path dir path outsz =
     (let n = norm_loop outsz [] (sh_tmp dir path) in if n = [] then ''/'' else take (outsz - 1) n)"

section \<open>Words\<close>

definition blank :: "char \<Rightarrow> bool" where "blank c \<longleftrightarrow> c = CHR '' '' \<or> c = CHR 0x09"
definition quote_char :: "char \<Rightarrow> bool" where "quote_char c \<longleftrightarrow> c = CHR 0x27 \<or> c = CHR 0x22"

text \<open>The rest of a token, with the quote that is open, and what follows it.\<close>

fun tok_scan :: "char option \<Rightarrow> string \<Rightarrow> string \<times> string" where
  "tok_scan q [] = ([], [])"
| "tok_scan (Some q) (c # cs) =
     (if c = q then tok_scan None cs else apfst ((#) c) (tok_scan (Some q) cs))"
| "tok_scan None (c # cs) =
     (if blank c then ([], cs)
      else if quote_char c then tok_scan (Some c) cs
      else apfst ((#) c) (tok_scan None cs))"

fun tokenise :: "nat \<Rightarrow> string \<Rightarrow> string list" where
  "tokenise 0 p = []"
| "tokenise (Suc n) p =
     (let p = dropWhile blank p in
      if p = [] then [] else let (t, rest) = tok_scan None p in t # tokenise n rest)"

text \<open>Up to the next bar outside quotes.\<close>

fun pipe_scan :: "char option \<Rightarrow> string \<Rightarrow> string \<times> string option" where
  "pipe_scan q [] = ([], None)"
| "pipe_scan (Some q) (c # cs) = apfst ((#) c) (pipe_scan (if c = q then None else Some q) cs)"
| "pipe_scan None (c # cs) =
     (if quote_char c then apfst ((#) c) (pipe_scan (Some c) cs)
      else if c = CHR ''|'' then ([], Some (dropWhile blank cs))
      else apfst ((#) c) (pipe_scan None cs))"

text \<open>\<open>m\<close> segments can follow the first one.\<close>

fun split_segs :: "nat \<Rightarrow> string \<Rightarrow> string list" where
  "split_segs 0 p = [p]"
| "split_segs (Suc m) p =
     (case pipe_scan None p of
        (s, None) \<Rightarrow> [s]
      | (s, Some r) \<Rightarrow> s # split_segs m r)"

definition split_pipe :: "string \<Rightarrow> nat \<Rightarrow> string list" where
  "split_pipe line max_segs = split_segs (max_segs - 1) line"

definition strip_background :: "string \<Rightarrow> bool \<times> string" where
  "strip_background seg =
     (let t = rev (dropWhile blank (rev seg))
      in if t \<noteq> [] \<and> last t = CHR ''&'' then (True, butlast t) else (False, seg))"

section \<open>Variables\<close>

text \<open>
  The buffer for expanded tokens has \<open>sz\<close> bytes, of which \<open>pos\<close> are in use. \<open>env\<close> is what
  \<open>getenv_r\<close> finds, \<open>last_exit\<close> the last exit status.
\<close>

definition sh_emit :: "nat \<Rightarrow> nat \<Rightarrow> string \<Rightarrow> bool \<times> nat" where
  "sh_emit sz pos xs = (if pos + length xs \<le> sz - 1 \<or> xs = [] then (True, pos + length xs) else (False, max pos (sz - 1)))"

function dec :: "nat \<Rightarrow> string" where
  "dec n = (if n = 0 then [] else dec (n div 10) @ [char_of (48 + n mod 10)])"
  by pat_completeness auto
termination by (relation "measure id") auto

declare dec.simps [simp del]

definition name_char :: "char \<Rightarrow> bool" where
  "name_char c \<longleftrightarrow> (CHR ''A'' \<le> c \<and> c \<le> CHR ''Z'') \<or> (CHR ''a'' \<le> c \<and> c \<le> CHR ''z'') \<or> (CHR ''0'' \<le> c \<and> c \<le> CHR ''9'') \<or> c = CHR ''_''"

fun sh_scan_name :: "bool \<Rightarrow> nat \<Rightarrow> string \<Rightarrow> string \<times> string" where
  "sh_scan_name braced 0 p = ([], p)"
| "sh_scan_name braced n [] = ([], [])"
| "sh_scan_name braced (Suc n) (c # cs) =
     (if braced \<and> c = CHR ''}'' then ([], cs)
      else if \<not> braced \<and> \<not> name_char c then ([], c # cs)
      else apfst ((#) c) (sh_scan_name braced n cs))"

lemma sh_scan_name_length: "length (snd (sh_scan_name b n p)) \<le> length p"
  by (induction b n p rule: sh_scan_name.induct) auto

text \<open>What one step of the loop puts into the buffer, and the rest of the token.\<close>

definition expand_step :: "(string \<Rightarrow> string option) \<Rightarrow> int \<Rightarrow> char \<Rightarrow> string \<Rightarrow> string \<times> string" where
  "expand_step env last_exit c cs =
     (if c \<noteq> CHR ''$'' then ([c], cs)
      else if cs \<noteq> [] \<and> hd cs = CHR ''?'' then
        ((if last_exit = 0 then ''0'' else (if last_exit < 0 then ''-'' else []) @ dec (nat \<bar>last_exit\<bar>)), tl cs)
      else
        let braced = (cs \<noteq> [] \<and> hd cs = CHR ''{''); (name, rest) = sh_scan_name braced 63 (if braced then tl cs else cs)
        in if name = [] then (''$'', rest)
           else ((case env name of None \<Rightarrow> [] | Some v \<Rightarrow> v), rest))"

lemma expand_step_length: "length (snd (expand_step env le c cs)) \<le> length cs"
  using sh_scan_name_length [of True 63 "tl cs"] sh_scan_name_length [of False 63 cs]
  by (auto simp: expand_step_def Let_def split: prod.splits)

function expand_loop :: "(string \<Rightarrow> string option) \<Rightarrow> int \<Rightarrow> nat \<Rightarrow> nat \<Rightarrow> string \<Rightarrow> string \<Rightarrow> string option \<times> nat" where
  "expand_loop env le sz pos out [] = (if pos \<ge> sz then (None, pos) else (Some out, pos + 1))"
| "expand_loop env le sz pos out (c # cs) =
     (case expand_step env le c cs of (xs, rest) \<Rightarrow>
        case sh_emit sz pos xs of
          (False, pos) \<Rightarrow> (None, pos)
        | (True, pos) \<Rightarrow> expand_loop env le sz pos (out @ xs) rest)"
  by pat_completeness auto
termination
  by (relation "measure (\<lambda>(env, le, sz, pos, out, p). length p)")
    (auto dest!: arg_cong [where f = snd] simp: less_Suc_eq_le intro: order.trans [OF _ expand_step_length])

definition expand_token :: "(string \<Rightarrow> string option) \<Rightarrow> int \<Rightarrow> nat \<Rightarrow> nat \<Rightarrow> string \<Rightarrow> string option \<times> nat" where
  "expand_token env last_exit sz pos tok =
     (if CHR ''$'' \<notin> set tok then (Some tok, pos) else expand_loop env last_exit sz pos [] tok)"

fun expand_variables :: "(string \<Rightarrow> string option) \<Rightarrow> int \<Rightarrow> nat \<Rightarrow> nat \<Rightarrow> string list \<Rightarrow> string list \<times> nat" where
  "expand_variables env last_exit sz pos [] = ([], pos)"
| "expand_variables env last_exit sz pos (t # ts) =
     (case expand_token env last_exit sz pos t of (e, pos) \<Rightarrow>
        apfst ((#) (case e of None \<Rightarrow> t | Some x \<Rightarrow> x)) (expand_variables env last_exit sz pos ts))"

section \<open>Wildcards\<close>

definition star :: char where "star = CHR ''*''"

definition glob_match :: "string \<Rightarrow> string \<Rightarrow> bool" where
  "glob_match pat name =
     (if star \<notin> set pat then pat = name
      else
        let prefix = takeWhile ((\<noteq>) star) pat; suffix = tl (dropWhile ((\<noteq>) star) pat)
        in if take (length prefix) name \<noteq> prefix then False
           else if length suffix > length name - length prefix then False
           else drop (length name - length suffix) name = suffix)"

text \<open>
  The directory to read and the pattern of a token with a star; the part of the token up to
  the last slash before the star stands before every match. \<open>raw\<close> has 256 bytes.
\<close>

definition glob_split :: "string \<Rightarrow> string \<Rightarrow> fault + string \<times> string \<times> string" where
  "glob_split dir tok =
     (let prefix = takeWhile ((\<noteq>) star) tok; keep = rev (dropWhile ((\<noteq>) slash) (rev prefix))
      in if slash \<notin> set prefix then Inr (take 255 dir, take 255 tok, [])
         else if length keep > 255 then Inl BadAccess
         else Inr (sh_resolve_path dir keep 256, take 255 (drop (length keep) tok), keep))"

text \<open>The entries of the directory in their order; a match that does not fit into the buffer is left out.\<close>

fun glob_entries :: "string \<Rightarrow> string \<Rightarrow> nat \<Rightarrow> nat \<Rightarrow> nat \<Rightarrow> string list \<Rightarrow> string list \<times> nat" where
  "glob_entries pat prefix out_max sz pos [] = ([], pos)"
| "glob_entries pat prefix out_max sz pos (e # es) =
     (if out_max = 0 then ([], pos)
      else if e \<noteq> [] \<and> hd e = CHR ''.'' \<or> \<not> glob_match pat e \<or> length prefix + length e + 1 > sz - pos
      then glob_entries pat prefix out_max sz pos es
      else apfst ((#) (prefix @ e)) (glob_entries pat prefix (out_max - 1) sz (pos + length prefix + length e + 1) es))"

definition glob_expand_token :: "(string \<Rightarrow> string list option) \<Rightarrow> string \<Rightarrow> string \<Rightarrow> nat \<Rightarrow> nat \<Rightarrow> nat \<Rightarrow> fault + string list \<times> nat" where
  "glob_expand_token listing dir tok out_max sz pos =
     (if star \<notin> set tok then Inr ([], pos)
      else bindE (glob_split dir tok) (\<lambda>(dirpath, pat, prefix).
        case listing dirpath of
          None \<Rightarrow> Inr ([], pos)
        | Some es \<Rightarrow> Inr (glob_entries pat prefix out_max sz pos es)))"

text \<open>The insertion sort of the matches by \<open>strcmp\<close>: an element goes behind those that are not greater.\<close>

fun insert_match :: "string \<Rightarrow> string list \<Rightarrow> string list" where
  "insert_match x [] = [x]"
| "insert_match x (y # ys) = (if y > x then x # y # ys else y # insert_match x ys)"

definition sort_matches :: "string list \<Rightarrow> string list" where
  "sort_matches xs = fold insert_match xs []"

definition ARGV_MAX :: nat where "ARGV_MAX = 64"

fun glob_loop :: "(string \<Rightarrow> string list option) \<Rightarrow> string \<Rightarrow> nat \<Rightarrow> nat \<Rightarrow> string list \<Rightarrow> string list \<Rightarrow> fault + string list \<times> nat" where
  "glob_loop listing dir sz pos out [] = Inr (out, pos)"
| "glob_loop listing dir sz pos out (t # ts) =
     (if \<not> length out < ARGV_MAX then Inr (out, pos)
      else bindE (glob_expand_token listing dir t (ARGV_MAX - length out) sz pos) (\<lambda>(es, pos).
        glob_loop listing dir sz pos (out @ (if es = [] then [t] else sort_matches es)) ts))"

definition glob_argv :: "(string \<Rightarrow> string list option) \<Rightarrow> string \<Rightarrow> nat \<Rightarrow> nat \<Rightarrow> string list \<Rightarrow> fault + string list \<times> nat" where
  "glob_argv listing dir sz pos argv = glob_loop listing dir sz pos [] argv"

section \<open>Redirections\<close>

record redir =
  r_fd :: nat
  r_flags :: u32
  r_path :: string
  r_heredoc :: bool

definition REDIR_MAX :: nat where "REDIR_MAX = 8"

definition SH_O_CREAT :: u32 where "SH_O_CREAT = 0x40"
definition SH_O_TRUNC :: u32 where "SH_O_TRUNC = 0x200"
definition SH_O_APPEND :: u32 where "SH_O_APPEND = 0x400"
definition SH_O_WRONLY :: u32 where "SH_O_WRONLY = 1"

text \<open>
  A line of a here-document as it is typed, at most 255 characters; \<open>None\<close> in the place of
  the rest of the input when it ended.
\<close>

fun heredoc_line :: "string \<Rightarrow> string \<Rightarrow> string \<times> string option" where
  "heredoc_line buf [] = (buf, None)"
| "heredoc_line buf (c # cs) =
     (if c = CHR 0x0A then (buf, Some cs)
      else if c = CHR 0x08 then heredoc_line (butlast buf) cs
      else heredoc_line (if length buf < 255 then buf @ [c] else buf) cs)"

lemma heredoc_line_shorter: "snd (heredoc_line buf cs) = Some rest \<Longrightarrow> length rest < length cs"
  by (induction cs arbitrary: buf) (fastforce split: if_splits)+

text \<open>
  The lines up to the delimiter. When the input ends the loop goes on with empty lines, which
  end it only if the delimiter is empty.
\<close>

function heredoc :: "string \<Rightarrow> string \<Rightarrow> string \<Rightarrow> fault + string \<times> string" where
  "heredoc delim text input =
     (case heredoc_line [] input of (line, rest) \<Rightarrow>
        if line = delim then Inr (text, case rest of None \<Rightarrow> [] | Some r \<Rightarrow> r)
        else
          let text = (if length text + length line + 1 < 2048 then text @ line @ [CHR 0x0A] else text)
          in case rest of
               None \<Rightarrow> if delim = [] then Inr (text, []) else Inl Runaway
             | Some r \<Rightarrow> heredoc delim text r)"
  by pat_completeness auto
termination
  by (relation "measure (\<lambda>(d, t, i). length i)") (auto, metis heredoc_line_shorter snd_conv)

declare heredoc.simps [simp del]

text \<open>Which redirection a token is: the descriptor and the flags.\<close>

definition redir_token :: "string \<Rightarrow> (nat \<times> u32) option" where
  "redir_token tok =
     (if tok = ''>'' \<or> tok = ''1>'' then Some (1, SH_O_WRONLY OR SH_O_CREAT OR SH_O_TRUNC)
      else if tok = ''>>'' \<or> tok = ''1>>'' then Some (1, SH_O_WRONLY OR SH_O_CREAT OR SH_O_APPEND)
      else if tok = ''2>'' then Some (2, SH_O_WRONLY OR SH_O_CREAT OR SH_O_TRUNC)
      else if tok = ''<'' then Some (0, 0)
      else None)"

text \<open>
  The words that stay, the redirections, the text of the here-document and the rest of the
  input; \<open>None\<close> for an error that is reported.
\<close>

fun parse_redirs :: "nat \<Rightarrow> string \<Rightarrow> string \<Rightarrow> string list \<Rightarrow> fault + (string list \<times> redir list \<times> string \<times> string) option" where
  "parse_redirs room hd_text input [] = Inr (Some ([], [], hd_text, input))"
| "parse_redirs room hd_text input [tok] =
     (if redir_token tok \<noteq> None \<or> tok = ''<<'' then Inr None else Inr (Some ([tok], [], hd_text, input)))"
| "parse_redirs room hd_text input (tok # arg # ts) =
     (case redir_token tok of
        Some (fd, flags) \<Rightarrow>
          if room = 0 then Inr None
          else bindE (parse_redirs (room - 1) hd_text input ts) (\<lambda>r.
            Inr (map_option (\<lambda>(ws, rs, h). (ws, \<lparr>r_fd = fd, r_flags = flags, r_path = take 255 arg, r_heredoc = False\<rparr> # rs, h)) r))
      | None \<Rightarrow>
          if tok = ''<<'' then
            bindE (heredoc arg [] input) (\<lambda>(text, input).
              if room = 0 then Inr None
              else bindE (parse_redirs (room - 1) text input ts) (\<lambda>r.
                Inr (map_option (\<lambda>(ws, rs, h). (ws, \<lparr>r_fd = 0, r_flags = 0, r_path = [], r_heredoc = True\<rparr> # rs, h)) r)))
          else bindE (parse_redirs room hd_text input (arg # ts)) (\<lambda>r.
            Inr (map_option (\<lambda>(ws, rs, h). (tok # ws, rs, h)) r)))"

section \<open>Commands\<close>

definition must_inprocess :: "string \<Rightarrow> bool" where
  "must_inprocess cmd \<longleftrightarrow> cmd \<in> {''cd'', ''exit'', ''export'', ''unset''}"

definition is_builtin :: "string \<Rightarrow> bool" where
  "is_builtin cmd \<longleftrightarrow> cmd \<in> {''help'', ''echo'', ''getpid'', ''pwd'', ''cd'', ''jobs'', ''fg'', ''crash'', ''exit'', ''export'', ''unset''}"

text \<open>The text of \<open>echo\<close>.\<close>

fun echo_word :: "string \<Rightarrow> string" where
  "echo_word [] = []"
| "echo_word [c] = [c]"
| "echo_word (c # d # cs) =
     (if c = CHR 0x5C then
        (if d = CHR ''n'' then [CHR 0x0A] else if d = CHR ''t'' then [CHR 0x09] else if d = CHR ''r'' then [CHR 0x0D]
         else if d = CHR 0x5C then [CHR 0x5C] else [CHR 0x5C, d]) @ echo_word cs
      else c # echo_word (d # cs))"

definition echo_text :: "string list \<Rightarrow> string" where
  "echo_text args = concat (map (\<lambda>(i, a). (if i > 0 then '' '' else []) @ echo_word a) (enumerate 0 args)) @ [CHR 0x0A]"

text \<open>\<open>export NAME=VAL\<close>: the name and the value, or nothing to do.\<close>

definition export_arg :: "string \<Rightarrow> (string \<times> string) option" where
  "export_arg a =
     (if CHR ''='' \<in> set a then Some (takeWhile ((\<noteq>) (CHR ''='')) a, tl (dropWhile ((\<noteq>) (CHR ''='')) a)) else None)"

lemma rest_tl_shorter: "p \<noteq> [] \<Longrightarrow> length (dropWhile P p) - Suc 0 < length p"
  using length_dropWhile_le [of P p] by (cases p) (auto simp del: length_dropWhile_le dropWhile.simps)

text \<open>
  The file of a command: \<open>stat\<close> tells whether a path exists, \<open>path_env\<close> is the value of
  \<open>PATH\<close>. A directory of the search path must leave room in the buffer of 256 bytes.
\<close>

function search_path :: "(string \<Rightarrow> bool) \<Rightarrow> string \<Rightarrow> nat \<Rightarrow> string \<Rightarrow> string option" where
  "search_path exists cmd outsz p =
     (if p = [] then None
      else
        let d = takeWhile ((\<noteq>) (CHR '':'')) p; rest = dropWhile ((\<noteq>) (CHR '':'')) p; try = d @ slash # take (254 - length d) cmd
        in if d \<noteq> [] \<and> length d < 254 \<and> exists try then Some (take (outsz - 1) try)
           else search_path exists cmd outsz (tl rest))"
  by pat_completeness auto
termination
  by (relation "measure (\<lambda>(e, c, o', p). length p)")
    (auto simp: rest_tl_shorter)

declare search_path.simps [simp del]

definition resolve_external :: "(string \<Rightarrow> bool) \<Rightarrow> string option \<Rightarrow> string \<Rightarrow> string \<Rightarrow> nat \<Rightarrow> string option" where
  "resolve_external exists path_env dir cmd outsz =
     (if cmd \<noteq> [] \<and> (hd cmd = slash \<or> hd cmd = CHR ''.'') then
        (let out = sh_resolve_path dir cmd outsz in if exists out then Some out else None)
      else case path_env of
        None \<Rightarrow> None
      | Some p \<Rightarrow> search_path exists cmd outsz (take 511 p))"

text \<open>The lines that \<open>dispatch\<close> gets from a line of input and from the text of a script.\<close>

definition sh_skip :: "string \<Rightarrow> string option" where
  "sh_skip line = (let l = dropWhile blank line in if l = [] \<or> hd l = CHR ''#'' then None else Some l)"

function script_lines :: "string \<Rightarrow> string list" where
  "script_lines p =
     (if p = [] then []
      else
        let line = takeWhile ((\<noteq>) (CHR 0x0A)) p; rest = dropWhile ((\<noteq>) (CHR 0x0A)) p
        in (if line \<noteq> [] \<and> hd line = CHR ''#'' then [] else [line]) @ script_lines (tl rest))"
  by pat_completeness auto
termination
  by (relation "measure length") (auto simp: rest_tl_shorter)

declare script_lines.simps [simp del]

section \<open>Wildcards mean what they say\<close>

lemma glob_match_plain: "star \<notin> set pat \<Longrightarrow> glob_match pat name \<longleftrightarrow> name = pat"
  by (auto simp: glob_match_def)

lemma glob_match_star: "star \<notin> set prefix \<Longrightarrow> glob_match (prefix @ star # suffix) name \<longleftrightarrow> (\<exists>mid. name = prefix @ mid @ suffix)"
proof
  assume s: "star \<notin> set prefix"
  have parts: "takeWhile ((\<noteq>) star) (prefix @ star # suffix) = prefix" "dropWhile ((\<noteq>) star) (prefix @ star # suffix) = star # suffix"
    using s by (subst takeWhile_append2 dropWhile_append2, auto)+
  show "\<exists>mid. name = prefix @ mid @ suffix" if "glob_match (prefix @ star # suffix) name"
  proof -
    have m: "take (length prefix) name = prefix" "length suffix \<le> length name - length prefix" "drop (length name - length suffix) name = suffix"
      using that unfolding glob_match_def Let_def parts by (auto split: if_splits)
    define rest where "rest = drop (length prefix) name"
    have n: "name = prefix @ rest" using append_take_drop_id [of "length prefix" name] unfolding m(1) rest_def by simp
    have "drop (length rest - length suffix) rest = suffix" using m(2,3) unfolding n by simp
    then have "rest = take (length rest - length suffix) rest @ suffix" by (metis append_take_drop_id)
    then show ?thesis using n by blast
  qed
  show "glob_match (prefix @ star # suffix) name" if "\<exists>mid. name = prefix @ mid @ suffix"
    using that unfolding glob_match_def Let_def parts by auto
qed

lemma insert_match_set: "set (insert_match x ys) = insert x (set ys)"
  by (induction ys) auto

lemma insert_match_sorted: "sorted ys \<Longrightarrow> sorted (insert_match x ys) \<and> mset (insert_match x ys) = add_mset x (mset ys)"
  by (induction ys) (auto simp: insert_match_set)

text \<open>The matches of a wildcard come in the order of \<open>strcmp\<close>.\<close>

lemma sort_matches_sort: "sort_matches xs = sort xs"
proof -
  have "sorted ys \<Longrightarrow> sorted (fold insert_match xs ys) \<and> mset (fold insert_match xs ys) = mset ys + mset xs" for ys
    by (induction xs arbitrary: ys) (auto simp: insert_match_sorted)
  from this [of "[]"] show ?thesis unfolding sort_matches_def by (intro properties_for_sort [symmetric]) auto
qed

section \<open>Quoting\<close>

text \<open>
  Every character in quotes of the other kind: a word written like this is a single token,
  whatever it holds.
\<close>

definition quoted_char :: "char \<Rightarrow> string" where
  "quoted_char c = (if c = CHR 0x27 then [CHR 0x22, c, CHR 0x22] else [CHR 0x27, c, CHR 0x27])"

definition quoted :: "string \<Rightarrow> string" where
  "quoted a = (if a = [] then [CHR 0x27, CHR 0x27] else concat (map quoted_char a))"

fun command_text :: "string list \<Rightarrow> string" where
  "command_text [] = []"
| "command_text [a] = quoted a"
| "command_text (a # as) = quoted a @ '' '' @ command_text as"

fun pipeline_text :: "string list list \<Rightarrow> string" where
  "pipeline_text [] = []"
| "pipeline_text [c] = command_text c"
| "pipeline_text (c # cs) = command_text c @ '' | '' @ pipeline_text cs"

lemma tok_scan_chars: "tok_scan None (concat (map quoted_char a) @ rest) = apfst ((@) a) (tok_scan None rest)"
  by (induction a) (auto simp: quoted_char_def quote_char_def blank_def apfst_def map_prod_def split: prod.splits)

lemma tok_scan_quoted: "tok_scan None (quoted a @ rest) = apfst ((@) a) (tok_scan None rest)"
  using tok_scan_chars [of a rest] by (auto simp: quoted_def quote_char_def blank_def apfst_def map_prod_def split: prod.splits)

lemma quoted_starts: "\<exists>q cs. quoted a = q # cs \<and> quote_char q"
  by (cases a) (auto simp: quoted_def quoted_char_def quote_char_def)

lemma quote_not_blank: "quote_char q \<Longrightarrow> \<not> blank q"
  by (auto simp: quote_char_def blank_def)

lemma skip_quoted: "dropWhile blank (quoted a @ rest) = quoted a @ rest" "quoted a @ rest \<noteq> []"
  using quoted_starts [of a] quote_not_blank by auto

lemma tokenise_word: "tok_scan None (quoted a @ rest) = (a, r) \<Longrightarrow> tokenise (Suc m) (quoted a @ rest) = a # tokenise m r"
  by (simp only: tokenise.simps Let_def skip_quoted if_False prod.case)

lemma tokenise_command:
  "length as \<le> n \<Longrightarrow> post \<in> {[], '' ''} \<Longrightarrow> tokenise n (command_text as @ post) = as"
proof (induction as arbitrary: n rule: command_text.induct)
  case 1
  then show ?case by (cases n) (auto simp: blank_def)
next
  case (2 a)
  then obtain m where n: "n = Suc m" by (cases n) auto
  have "tokenise m [] = []" by (cases m) auto
  moreover have "tok_scan None (quoted a @ post) = (a, [])" unfolding tok_scan_quoted using 2(2) by (auto simp: blank_def)
  ultimately show ?case using tokenise_word by (simp add: n)
next
  case (3 a b as)
  then obtain m where n: "n = Suc m" "Suc (length as) \<le> m" by (cases n) auto
  have "tokenise m (command_text (b # as) @ post) = b # as" using 3 n by simp
  moreover have t: "tok_scan None (quoted a @ '' '' @ command_text (b # as) @ post) = (a, command_text (b # as) @ post)"
    unfolding tok_scan_quoted by (simp add: blank_def)
  ultimately show ?case unfolding n(1) command_text.simps(3) append_assoc tokenise_word [OF t] by simp
qed

lemma pipe_scan_chars: "pipe_scan None (concat (map quoted_char a) @ rest) = apfst ((@) (concat (map quoted_char a))) (pipe_scan None rest)"
  by (induction a) (auto simp: quoted_char_def quote_char_def apfst_def map_prod_def split: prod.splits)

lemma pipe_scan_quoted: "pipe_scan None (quoted a @ rest) = apfst ((@) (quoted a)) (pipe_scan None rest)"
  using pipe_scan_chars [of a rest] by (auto simp: quoted_def quote_char_def apfst_def map_prod_def split: prod.splits)

lemma pipe_scan_command: "pipe_scan None (command_text as @ rest) = apfst ((@) (command_text as)) (pipe_scan None rest)"
proof (induction as rule: command_text.induct)
  case 1
  then show ?case by (simp add: apfst_def map_prod_def split: prod.splits)
next
  case (2 a)
  then show ?case by (simp add: pipe_scan_quoted)
next
  case (3 a b as)
  have "pipe_scan None ('' '' @ command_text (b # as) @ rest) = apfst ((@) ('' '' @ command_text (b # as))) (pipe_scan None rest)"
    using 3 by (simp add: quote_char_def apfst_def map_prod_def split: prod.splits)
  then show ?case unfolding command_text.simps(3) append_assoc pipe_scan_quoted by (simp add: apfst_def map_prod_def split: prod.splits)
qed

lemma command_starts: "as \<noteq> [] \<Longrightarrow> \<exists>q cs. command_text as = q # cs \<and> quote_char q"
  using quoted_starts [of "hd as"] by (cases as rule: command_text.cases) auto

text \<open>A segment as the shell gets it: the command, with the blank that stands before a bar.\<close>

lemma split_pipeline:
  "\<forall>c\<in>set cs. c \<noteq> [] \<Longrightarrow> cs \<noteq> [] \<Longrightarrow> length cs \<le> Suc m \<Longrightarrow>
   split_segs m (pipeline_text cs) = map (\<lambda>c. command_text c @ '' '') (butlast cs) @ [command_text (last cs)]"
proof (induction cs arbitrary: m rule: pipeline_text.induct)
  case (2 c)
  have "pipe_scan None (command_text c) = (command_text c, None)" using pipe_scan_command [of c "[]"] by simp
  then show ?case by (cases m) simp_all
next
  case (3 c d cs)
  then obtain k where m: "m = Suc k" "length (d # cs) \<le> Suc k" by (cases m) auto
  have "d \<noteq> []" using 3(2) by simp
  then obtain q r where q: "pipeline_text (d # cs) = q # r" "quote_char q"
    using command_starts [of d] by (cases cs) auto
  have "dropWhile blank ('' '' @ pipeline_text (d # cs)) = pipeline_text (d # cs)"
    using quote_not_blank [OF q(2)] by (simp add: q(1) blank_def)
  then have "pipe_scan None ('' | '' @ pipeline_text (d # cs)) = ('' '', Some (pipeline_text (d # cs)))"
    by (simp add: quote_char_def)
  then have "pipe_scan None (pipeline_text (c # d # cs)) = (command_text c @ '' '', Some (pipeline_text (d # cs)))"
    unfolding pipeline_text.simps(3) pipe_scan_command by simp
  moreover have "split_segs k (pipeline_text (d # cs)) = map (\<lambda>c. command_text c @ '' '') (butlast (d # cs)) @ [command_text (last (d # cs))]"
    using 3 m by auto
  ultimately show ?case by (simp add: m(1))
qed simp

lemma quoted_end: "\<exists>cs q. quoted a = cs @ [q] \<and> quote_char q"
proof (cases a rule: rev_cases)
  case Nil
  then have "quoted a = [CHR 0x27] @ [CHR 0x27]" by (simp add: quoted_def)
  then show ?thesis unfolding quote_char_def by blast
next
  case (snoc xs x)
  then have "quoted a = concat (map quoted_char xs) @ quoted_char x" by (simp add: quoted_def)
  moreover have "\<exists>cs q. quoted_char x = cs @ [q] \<and> quote_char q" by (auto simp: quoted_char_def quote_char_def)
  ultimately show ?thesis by (metis append_assoc)
qed

lemma command_end: "as \<noteq> [] \<Longrightarrow> \<exists>cs q. command_text as = cs @ [q] \<and> quote_char q"
proof (induction as rule: command_text.induct)
  case (3 a b as)
  then obtain cs q where "command_text (b # as) = cs @ [q]" "quote_char q" by auto
  then have "command_text (a # b # as) = (quoted a @ '' '' @ cs) @ [q]" by simp
  then show ?case using \<open>quote_char q\<close> by blast
qed (use quoted_end in auto)

lemma foreground_command: "as \<noteq> [] \<Longrightarrow> strip_background (command_text as) = (False, command_text as)"
  using command_end [of as] by (auto simp: strip_background_def quote_char_def blank_def)

text \<open>
  C39. A pipeline written with every character quoted is parsed back into its commands: at most
  eight commands of at most 64 words each, which may hold blanks, bars, quotes and ampersands.
\<close>

theorem pipeline_parsed_back:
  assumes "cs \<noteq> []" and "length cs \<le> 8" and "\<forall>c\<in>set cs. c \<noteq> [] \<and> length c \<le> ARGV_MAX"
  shows "map (tokenise ARGV_MAX) (split_pipe (pipeline_text cs) 8) = cs \<and>
    strip_background (last (split_pipe (pipeline_text cs) 8)) = (False, last (split_pipe (pipeline_text cs) 8))"
proof -
  have s: "split_pipe (pipeline_text cs) 8 = map (\<lambda>c. command_text c @ '' '') (butlast cs) @ [command_text (last cs)]"
    unfolding split_pipe_def using assms by (intro split_pipeline) auto
  have "tokenise ARGV_MAX (command_text c @ '' '') = c" "tokenise ARGV_MAX (command_text c) = c" if "c \<in> set cs" for c
    using tokenise_command [of c ARGV_MAX "'' ''"] tokenise_command [of c ARGV_MAX "[]"] that assms(3) by simp_all
  then have "map (\<lambda>x. tokenise ARGV_MAX (command_text x @ '' '')) (butlast cs) = butlast cs" "tokenise ARGV_MAX (command_text (last cs)) = last cs"
    using assms(1) by (auto intro!: map_idI dest: in_set_butlastD)
  then have "map (tokenise ARGV_MAX) (split_pipe (pipeline_text cs) 8) = butlast cs @ [last cs]" by (simp add: s comp_def)
  moreover have "strip_background (last (split_pipe (pipeline_text cs) 8)) = (False, last (split_pipe (pipeline_text cs) 8))"
    using foreground_command [of "last cs"] assms(1,3) by (simp add: s)
  ultimately show ?thesis using assms(1) by simp
qed

theorem pipeline_parsed_back_witness:
  "map (tokenise 64) (split_pipe (pipeline_text [[''grep'', ''a | b''], [''wc'', ''it'' @ [CHR 0x27] @ ''s'']]) 8) = [[''grep'', ''a | b''], [''wc'', ''it'' @ [CHR 0x27] @ ''s'']]"
  using pipeline_parsed_back [of "[[''grep'', ''a | b''], [''wc'', ''it'' @ [CHR 0x27] @ ''s'']]"] by (simp add: ARGV_MAX_def)

section \<open>The shell's paths are the kernel's\<close>

text \<open>The text \<open>n\<close> stands for the components \<open>gs\<close>: a slash may follow them.\<close>

definition norm_of :: "string \<Rightarrow> string list \<Rightarrow> bool" where
  "norm_of n gs \<longleftrightarrow> (gs = [] \<and> n = []) \<or> n = concat (map ((#) slash) gs) @ [slash] \<or> (gs \<noteq> [] \<and> n = concat (map ((#) slash) gs))"

lemma norm_chop_word: "slash \<notin> set g \<Longrightarrow> norm_chop (c @ slash # g) = c @ [slash]"
proof (induction g rule: rev_induct)
  case Nil
  show ?case by (subst norm_chop.simps) simp
next
  case (snoc x g)
  have l: "last (c @ slash # g @ [x]) = x" by simp
  have b: "butlast (c @ slash # g @ [x]) = c @ slash # g" by (simp add: butlast_append)
  have "norm_chop (c @ slash # g @ [x]) = norm_chop (c @ slash # g)"
    using snoc.prems by (subst norm_chop.simps) (auto simp: l b)
  then show ?case using snoc by simp
qed

lemma norm_up:
  assumes "norm_of n gs" and "\<forall>g\<in>set gs. g \<noteq> [] \<and> slash \<notin> set g"
  shows "norm_of (if length n > 1 then norm_chop (butlast n) else n) (butlast gs)"
    and "length (if length n > 1 then norm_chop (butlast n) else n) \<le> length n"
proof -
  have c: "length (norm_chop x) \<le> length x" for x
  proof (induction x rule: norm_chop.induct)
    case (1 x)
    then show ?case by (subst norm_chop.simps) (auto intro: le_trans)
  qed
  then show "length (if length n > 1 then norm_chop (butlast n) else n) \<le> length n"
    using c [of "butlast n"] by auto
  show "norm_of (if length n > 1 then norm_chop (butlast n) else n) (butlast gs)"
  proof (cases gs rule: rev_cases)
    case Nil
    then show ?thesis using assms(1) by (auto simp: norm_of_def)
  next
    case (snoc hs g)
    let ?c = "concat (map ((#) slash) hs)"
    have g: "g \<noteq> []" "slash \<notin> set g" using assms(2) snoc by auto
    have n: "n = ?c @ slash # g @ [slash] \<or> n = ?c @ slash # g" using assms(1) snoc by (auto simp: norm_of_def)
    have b: "butlast (?c @ slash # g @ [slash]) = ?c @ slash # g" "butlast (?c @ slash # g) = ?c @ slash # butlast g"
      using g(1) by (simp_all add: butlast_append)
    have "slash \<notin> set (butlast g)" using g(2) by (auto dest: in_set_butlastD)
    then have "norm_chop (butlast n) = ?c @ [slash]"
      using n norm_chop_word [OF g(2), of ?c] norm_chop_word [of "butlast g" ?c] b by auto
    moreover have "length n > 1" using n g(1) by auto
    ultimately show ?thesis by (simp add: snoc norm_of_def)
  qed
qed

lemma norm_down:
  assumes "norm_of n gs" and "\<forall>g\<in>set gs. g \<noteq> [] \<and> slash \<notin> set g" and g: "g \<noteq> []" and fits: "length n + (length g + 1) \<le> 255"
  shows "norm_of (norm_push 256 n g) (gs @ [g])" and "length (norm_push 256 n g) \<le> length n + (length g + 1)"
proof -
  let ?c = "concat (map ((#) slash) gs)"
  have l: "last ?c \<noteq> slash" if "gs \<noteq> []"
  proof (cases gs rule: rev_cases)
    case (snoc hs h)
    then have "h \<noteq> []" "slash \<notin> set h" using assms(2) by auto
    moreover have "last ?c = last h" using snoc \<open>h \<noteq> []\<close> by simp
    ultimately show ?thesis by (metis last_in_set)
  qed (use that in simp)
  have ne: "?c \<noteq> []" if "gs \<noteq> []" using that by (cases gs) auto
  have "norm_push 256 n g = ?c @ slash # g"
    using assms(1) fits l ne unfolding norm_of_def by (auto simp: norm_push_def Let_def)
  then show "norm_of (norm_push 256 n g) (gs @ [g])" by (simp add: norm_of_def)
  show "length (norm_push 256 n g) \<le> length n + (length g + 1)" by (simp add: norm_push_def Let_def min_le_iff_disj)
qed

lemma norm_loop_fold:
  "norm_of n gs \<Longrightarrow> \<forall>g\<in>set gs. g \<noteq> [] \<and> slash \<notin> set g \<Longrightarrow> length n + canon_size (comps p) \<le> 255 \<Longrightarrow>
   length gs + length (comps p) \<le> 64 \<Longrightarrow>
   norm_of (norm_loop 256 n p) (fold (\<lambda>g segs. keep_comp segs g) (comps p) gs) \<and> length (norm_loop 256 n p) \<le> 255"
proof (induction "256 :: nat" n p arbitrary: gs rule: norm_loop.induct)
  case (1 n p)
  let ?q = "dropWhile ((=) slash) p"
  show ?case
  proof (cases "?q = []")
    case True
    then have "norm_loop 256 n p = n" "comps p = []"
      by (subst norm_loop.simps, simp only: Let_def True simp_thms if_True) (subst comps.simps, simp only: Let_def True simp_thms if_True)
    then show ?thesis using 1 by simp
  next
    case False
    let ?g = "takeWhile ((\<noteq>) slash) ?q" and ?r = "dropWhile ((\<noteq>) slash) ?q"
    let ?n = "if ?g = ''..'' then if length n > 1 then norm_chop (butlast n) else n else if ?g = ''.'' then n else norm_push 256 n ?g"
    have c: "comps p = ?g # comps ?r" using False by (subst comps.simps) (simp only: Let_def if_False)
    have g: "?g \<noteq> []" "slash \<notin> set ?g" using comps_words [of ?g p] c by auto
    have step: "norm_loop 256 n p = norm_loop 256 ?n ?r" using False by (subst norm_loop.simps) (simp only: Let_def if_False)
    have size: "length n + (length ?g + 1) + canon_size (comps ?r) \<le> 255" using 1(4) unfolding c by simp
    have room: "length gs < 64" using 1(5) unfolding c by simp
    have rel: "norm_of ?n (keep_comp gs ?g)" "length ?n \<le> length n + (length ?g + 1)"
      using norm_up [OF 1(2,3)] norm_down [OF 1(2,3) g(1)] 1(2) size room by (auto simp: keep_comp_def)
    have ok: "\<forall>h\<in>set (keep_comp gs ?g). h \<noteq> [] \<and> slash \<notin> set h"
      using 1(3) g by (auto simp: keep_comp_def dest: in_set_butlastD)
    have "length (keep_comp gs ?g) \<le> length gs + 1" by (auto simp: keep_comp_def)
    then have n64: "length (keep_comp gs ?g) + length (comps ?r) \<le> 64" using 1(5) unfolding c by simp
    have "length ?n + canon_size (comps ?r) \<le> 255" using rel(2) size by linarith
    then have "norm_of (norm_loop 256 ?n ?r) (fold (\<lambda>g segs. keep_comp segs g) (comps ?r) (keep_comp gs ?g)) \<and> length (norm_loop 256 ?n ?r) \<le> 255"
      by (rule 1(1) [OF refl False refl refl rel(1) ok _ n64])
    then show ?thesis unfolding step c by simp
  qed
qed



end
