(* ===== verification/Sh_Run.thy ===== *)
theory Sh_Run
  imports Sh_Text Readline
begin

text \<open>
  Running a line in the shell, \<open>userland/sh.c\<close>: the table of background jobs, the plumbing of
  a pipeline as the sequence of system calls that the shell and its children make, and the
  wait for the children.
\<close>

section \<open>System calls\<close>

text \<open>
  A child is what \<open>fork\<close> returns 0 to: the descriptors it is to read from and to write to,
  the read end of its own pipe, which belongs to its successor, its redirections with the
  text for here-documents, and its words.
\<close>

record child =
  ch_stdin :: "nat option"
  ch_stdout :: "nat option"
  ch_spare :: "nat option"
  ch_redirs :: "redir list"
  ch_text :: string
  ch_argv :: "string list"

datatype sh_call =
    SPipe nat nat
  | SOpen string u32 nat
  | SDup nat nat
  | SClose nat
  | SWrite nat string
  | SFork nat child int
  | SBuiltin "string list"

text \<open>
  The answers of the kernel: for the segment with a number, the pipe to its successor and
  the result of \<open>fork\<close>; for a redirection with a number, the pipe of a here-document; the
  descriptor that opening a file gives.
\<close>

record sh_env =
  se_dir :: string
  se_getenv :: "string \<Rightarrow> string option"
  se_listing :: "string \<Rightarrow> string list option"
  se_heap :: bool
  se_pipe :: "nat \<Rightarrow> (nat \<times> nat) option"
  se_fork :: "nat \<Rightarrow> int"
  se_redir_pipe :: "nat \<Rightarrow> (nat \<times> nat) option"
  se_open :: "string \<Rightarrow> u32 \<Rightarrow> nat option"
  se_last_exit :: int

section \<open>Redirections at work\<close>

fun apply_redirs :: "sh_env \<Rightarrow> string \<Rightarrow> nat \<Rightarrow> redir list \<Rightarrow> sh_call list \<times> bool" where
  "apply_redirs e text i [] = ([], True)"
| "apply_redirs e text i (r # rs) =
     (if r_heredoc r then
        case se_redir_pipe e i of
          None \<Rightarrow> ([], False)
        | Some (rd, w) \<Rightarrow>
            apfst ((@) [SPipe rd w, SWrite w text, SClose w, SDup rd (r_fd r), SClose rd]) (apply_redirs e text (i + 1) rs)
      else
        let path = sh_resolve_path (se_dir e) (r_path r) 256
        in case se_open e path (r_flags r) of
             None \<Rightarrow> ([], False)
           | Some fd \<Rightarrow> apfst ((@) [SOpen path (r_flags r) fd, SDup fd (r_fd r), SClose fd]) (apply_redirs e text (i + 1) rs))"

text \<open>
  A builtin that must stay in the shell's process, with the three standard descriptors
  saved at 30 to 32 as far as they are redirected.
\<close>

definition saved_fds :: "redir list \<Rightarrow> nat list" where
  "saved_fds rs = rev (remdups (rev (filter (\<lambda>fd. fd \<le> 2) (map r_fd rs))))"

definition run_inprocess :: "sh_env \<Rightarrow> string \<Rightarrow> redir list \<Rightarrow> string list \<Rightarrow> sh_call list" where
  "run_inprocess e text rs argv =
     (if rs = [] then [SBuiltin argv]
      else map (\<lambda>fd. SDup fd (30 + fd)) (saved_fds rs) @ fst (apply_redirs e text 0 rs) @ [SBuiltin argv] @
           concat (map (\<lambda>i. if i \<in> set (saved_fds rs) then [SDup (30 + i) i, SClose (30 + i)] else []) [0..<3]))"

text \<open>What a child does before it runs its command.\<close>

definition child_calls :: "sh_env \<Rightarrow> child \<Rightarrow> sh_call list" where
  "child_calls e ch =
     (case ch_stdin ch of Some p \<Rightarrow> [SDup p 0, SClose p] | None \<Rightarrow> []) @
     (case ch_stdout ch of Some w \<Rightarrow> [SDup w 1, SClose w] | None \<Rightarrow> []) @
     (case ch_spare ch of Some r \<Rightarrow> [SClose r] | None \<Rightarrow> []) @
     fst (apply_redirs e (ch_text ch) 0 (ch_redirs ch))"

section \<open>The segments of a pipeline\<close>

datatype segment = Nothing | Bad | Command "string list" "redir list"

text \<open>
  \<open>text\<close> is the text of the last here-document, \<open>input\<close> what can still be read from the
  terminal.
\<close>

definition parse_segment :: "sh_env \<Rightarrow> string \<Rightarrow> string \<Rightarrow> string \<Rightarrow> fault + segment \<times> string \<times> string" where
  "parse_segment e seg doc input =
     (let argv = tokenise ARGV_MAX (take 255 seg) in
      if argv = [] then Inr (Nothing, doc, input)
      else
        bindE (if se_heap e then
                 (case expand_variables (se_getenv e) (se_last_exit e) 4096 0 argv of (argv, pos) \<Rightarrow>
                    glob_argv (se_listing e) (se_dir e) 4096 pos argv)
               else Inr (argv, 0)) (\<lambda>(argv, pos).
        bindE (parse_redirs REDIR_MAX doc input argv) (\<lambda>r.
          case r of
            None \<Rightarrow> Inr (Bad, doc, input)
          | Some (ws, rs, doc, input) \<Rightarrow> if ws = [] then Inr (Nothing, doc, input) else Inr (Command ws rs, doc, input))))"

definition close_opt :: "nat option \<Rightarrow> sh_call list" where
  "close_opt p = (case p of None \<Rightarrow> [] | Some fd \<Rightarrow> [SClose fd])"

text \<open>
  The loop over the segments from the number \<open>s\<close> on. The result is the calls that were
  made, the tasks that were started, whether the loop was left early, and the rest of the
  input; \<open>alone\<close> tells that the line is a single command in the foreground.
\<close>

record progress =
  pr_calls :: "sh_call list"
  pr_pids :: "int list"
  pr_early :: bool

fun run_segs :: "sh_env \<Rightarrow> bool \<Rightarrow> nat \<Rightarrow> nat option \<Rightarrow> string \<Rightarrow> string \<Rightarrow> string list \<Rightarrow> progress \<Rightarrow> fault + progress \<times> string" where
  "run_segs e alone s prev doc input [] pr = Inr (pr\<lparr>pr_calls := pr_calls pr @ close_opt prev\<rparr>, input)"
| "run_segs e alone s prev doc input (seg # segs) pr =
     bindE (parse_segment e seg doc input) (\<lambda>(sg, doc, input).
       case sg of
         Nothing \<Rightarrow> run_segs e alone (s + 1) None doc input segs (pr\<lparr>pr_calls := pr_calls pr @ close_opt prev\<rparr>)
       | Bad \<Rightarrow> Inr (pr\<lparr>pr_calls := pr_calls pr @ close_opt prev, pr_early := True\<rparr>, input)
       | Command argv rs \<Rightarrow>
           if segs \<noteq> [] \<and> se_pipe e s = None then Inr (pr\<lparr>pr_calls := pr_calls pr @ close_opt prev, pr_early := True\<rparr>, input)
           else
             let ends = (if segs \<noteq> [] then se_pipe e s else None);
                 r = map_option fst ends; w = map_option snd ends;
                 made = (case ends of None \<Rightarrow> [] | Some (rd, wr) \<Rightarrow> [SPipe rd wr]);
                 (calls, pids) =
                   (if alone \<and> must_inprocess (hd argv) then (run_inprocess e doc rs argv, [])
                    else
                      let ch = \<lparr>ch_stdin = prev, ch_stdout = w, ch_spare = r, ch_redirs = rs, ch_text = doc, ch_argv = argv\<rparr>
                      in ([SFork s ch (se_fork e s)], if se_fork e s > 0 then [se_fork e s] else []))
             in run_segs e alone (s + 1) r doc input segs
                  (pr\<lparr>pr_calls := pr_calls pr @ made @ calls @ close_opt w @ close_opt prev, pr_pids := pr_pids pr @ pids\<rparr>))"

definition SH_PIPE_MAX :: nat where "SH_PIPE_MAX = 8"

text \<open>The segments of a line and whether it is to run in the background.\<close>

definition line_segments :: "string \<Rightarrow> string list \<times> bool" where
  "line_segments line =
     (let segs = split_pipe (take 255 line) SH_PIPE_MAX; (background, seg) = strip_background (last segs)
      in (butlast segs @ [seg], background))"

section \<open>Jobs\<close>

definition JOB_MAX :: nat where "JOB_MAX = 8"

record job =
  j_used :: bool
  j_pids :: "int list"
  j_cmd :: string

definition job_alloc :: "job list \<Rightarrow> nat option" where
  "job_alloc jobs = find (\<lambda>i. \<not> j_used (jobs ! i)) [0..<length jobs]"

text \<open>The number of the job and of its last task are printed.\<close>

definition job_add :: "int list \<Rightarrow> string \<Rightarrow> job list \<Rightarrow> fault + (nat \<times> int) option \<times> job list" where
  "job_add pids cmd jobs =
     (case job_alloc jobs of
        None \<Rightarrow> Inr (None, jobs)
      | Some i \<Rightarrow>
          if pids = [] then Inl BadAccess
          else Inr (Some (i + 1, last pids), jobs[i := \<lparr>j_used = True, j_pids = pids, j_cmd = take 127 cmd\<rparr>]))"

text \<open>\<open>gone pid\<close> is the answer of \<open>task_done\<close>; the result lists the jobs that are reported.\<close>

definition job_reap :: "(int \<Rightarrow> bool) \<Rightarrow> job list \<Rightarrow> (nat \<times> string) list \<times> job list" where
  "job_reap gone jobs =
     (let over = (\<lambda>j. j_used j \<and> (\<forall>p\<in>set (j_pids j). gone p))
      in (map (\<lambda>i. (i + 1, j_cmd (jobs ! i))) (filter (\<lambda>i. over (jobs ! i)) [0..<length jobs]),
          map (\<lambda>j. if over j then j\<lparr>j_used := False\<rparr> else j) jobs))"

definition cmd_jobs :: "job list \<Rightarrow> (nat \<times> string) list" where
  "cmd_jobs jobs = map (\<lambda>i. (i + 1, j_cmd (jobs ! i))) (filter (\<lambda>i. j_used (jobs ! i)) [0..<length jobs])"

text \<open>The slot of \<open>fg\<close>: of the job with the number that the argument is read as, or the last one.\<close>

definition fg_slot :: "(string \<Rightarrow> int) \<Rightarrow> string option \<Rightarrow> job list \<Rightarrow> nat option" where
  "fg_slot number arg jobs =
     (case arg of
        Some (c # cs) \<Rightarrow>
          (let n = number (c # cs)
           in if 1 \<le> n \<and> n \<le> int JOB_MAX \<and> j_used (jobs ! nat (n - 1)) then Some (nat (n - 1)) else None)
      | _ \<Rightarrow> find (\<lambda>i. j_used (jobs ! i)) (rev [0..<length jobs]))"

text \<open>
  Waiting for tasks in turn. At each look at the first of them that is left it is done, or
  the terminal has an interrupt character, or neither; an interrupt kills those that are
  left. The result is the tasks killed, or \<open>None\<close> while the looks are not enough.
\<close>

datatype look = Done | Interrupt | Again

fun wait_for :: "int list \<Rightarrow> look list \<Rightarrow> int list option" where
  "wait_for [] ls = Some []"
| "wait_for (p # ps) [] = None"
| "wait_for (p # ps) (l # ls) =
     (case l of Done \<Rightarrow> wait_for ps ls | Interrupt \<Rightarrow> Some (p # ps) | Again \<Rightarrow> wait_for (p # ps) ls)"

text \<open>Job \<open>slot\<close> in the foreground: its tasks that were killed, with the slot free again.\<close>

definition job_fg :: "nat \<Rightarrow> look list \<Rightarrow> job list \<Rightarrow> (int list \<times> job list) option" where
  "job_fg slot ls jobs =
     map_option (\<lambda>killed. (killed, jobs[slot := (jobs ! slot)\<lparr>j_used := False\<rparr>])) (wait_for (j_pids (jobs ! slot)) ls)"

section \<open>A line\<close>

text \<open>
  What a line leads to: left early, put into the background, or waited for. A line that is
  waited for for ever has no result.
\<close>

datatype line_end = Left_early | Background "(nat \<times> int) option" | Foreground "int list"

definition run_pipeline :: "sh_env \<Rightarrow> string \<Rightarrow> string \<Rightarrow> look list \<Rightarrow> string \<Rightarrow> job list \<Rightarrow>
    fault + (sh_call list \<times> int list \<times> line_end \<times> job list) option" where
  "run_pipeline e doc input ls line jobs =
     (case line_segments line of (segs, background) \<Rightarrow>
        bindE (run_segs e (length segs = 1 \<and> \<not> background) 0 None doc input segs \<lparr>pr_calls = [], pr_pids = [], pr_early = False\<rparr>) (\<lambda>(pr, input).
          if pr_early pr then Inr (Some (pr_calls pr, pr_pids pr, Left_early, jobs))
          else if background then
            bindE (job_add (pr_pids pr) line jobs) (\<lambda>(said, jobs). Inr (Some (pr_calls pr, pr_pids pr, Background said, jobs)))
          else Inr (map_option (\<lambda>killed. (pr_calls pr, pr_pids pr, Foreground killed, jobs)) (wait_for (pr_pids pr) ls))))"

text \<open>\<open>dispatch\<close>: nothing, a builtin on the job table, or a pipeline.\<close>

datatype dispatched = Ignored | Job_builtin "string list" | Pipeline string

definition dispatch :: "string \<Rightarrow> dispatched" where
  "dispatch line =
     (case sh_skip line of
        None \<Rightarrow> Ignored
      | Some l \<Rightarrow>
          let argv = tokenise ARGV_MAX (take 255 l)
          in if argv \<noteq> [] \<and> hd argv \<in> {''fg'', ''jobs''} then Job_builtin argv else Pipeline l)"

definition run_script :: "string \<Rightarrow> dispatched list" where
  "run_script doc = map dispatch (script_lines (take 4095 doc))"

section \<open>Builtin commands\<close>

text \<open>
  The state that builtins change: the working directory as the shell knows it, the jobs, the
  requests to the environment device, and the output.
\<close>

datatype env_request = Set_var string string | Unset_var string

record sh_state =
  sh_cwd :: string
  sh_jobs :: "job list"
  sh_requests :: "env_request list"
  sh_output :: string

text \<open>
  The world around a builtin: the new directory when \<open>chdir\<close> succeeds, the variables, the
  number that a text stands for (\<open>atoi\<close>) and is written as (\<open>%d\<close>), the task's number, and
  what is seen while waiting.
\<close>

record sh_world =
  sw_chdir :: "string \<Rightarrow> string option"
  sw_vars :: "string list"
  sw_atoi :: "string \<Rightarrow> int"
  sw_number :: "int \<Rightarrow> string"
  sw_pid :: int
  sw_looks :: "look list"

datatype builtin_end = Returns | Exits int

definition newline :: string where "newline = [CHR 0x0A]"

definition say :: "string \<Rightarrow> sh_state \<Rightarrow> sh_state" where
  "say t s = s\<lparr>sh_output := sh_output s @ t\<rparr>"

definition cmd_cd :: "sh_world \<Rightarrow> string \<Rightarrow> sh_state \<Rightarrow> sh_state" where
  "cmd_cd w arg s =
     (if arg = [] then say (''usage: cd <path>'' @ newline) s
      else case sw_chdir w arg of
        None \<Rightarrow> say (''cd: '' @ arg @ '': no such directory'' @ newline) s
      | Some d \<Rightarrow> s\<lparr>sh_cwd := take 255 d\<rparr>)"

text \<open>The job of \<open>fg\<close>: its line, and \<open>^C\<close> when it was interrupted.\<close>

definition cmd_fg :: "sh_world \<Rightarrow> string option \<Rightarrow> sh_state \<Rightarrow> sh_state option" where
  "cmd_fg w arg s =
     (case fg_slot (sw_atoi w) arg (sh_jobs s) of
        None \<Rightarrow> Some (say (case arg of Some (c # cs) \<Rightarrow> ''fg: no such job: '' @ c # cs @ newline | _ \<Rightarrow> ''fg: no current job'' @ newline) s)
      | Some i \<Rightarrow>
          map_option (\<lambda>(killed, jobs).
              say (''['' @ sw_number w (int i + 1) @ ''] '' @ j_cmd (sh_jobs s ! i) @ newline @ (if killed = [] then [] else ''^C'' @ newline)) (s\<lparr>sh_jobs := jobs\<rparr>))
            (job_fg i (sw_looks w) (sh_jobs s)))"

definition cmd_export :: "sh_world \<Rightarrow> string list \<Rightarrow> sh_state \<Rightarrow> sh_state" where
  "cmd_export w args s =
     (if args = [] then say (concat (map (\<lambda>v. v @ newline) (sw_vars w))) s
      else s\<lparr>sh_requests := sh_requests s @ map (\<lambda>(n, v). Set_var n v) (List.map_filter export_arg args)\<rparr>)"

text \<open>\<open>None\<close> is a wait that does not end; \<open>crash\<close> reads through the null pointer.\<close>

definition run_builtin :: "sh_world \<Rightarrow> string \<Rightarrow> string list \<Rightarrow> sh_state \<Rightarrow> fault + (builtin_end \<times> sh_state) option" where
  "run_builtin w help_text argv s =
     (let cmd = hd argv; args = tl argv; on = (\<lambda>s. Inr (Some (Returns, s))) in
      if cmd = ''help'' then on (say help_text s)
      else if cmd = ''echo'' then on (say (echo_text args) s)
      else if cmd = ''getpid'' then on (say (sw_number w (sw_pid w) @ newline) s)
      else if cmd = ''pwd'' then on (say (sh_cwd s @ newline) s)
      else if cmd = ''cd'' then on (cmd_cd w (case args of [] \<Rightarrow> [] | a # _ \<Rightarrow> a) s)
      else if cmd = ''jobs'' then
        on (say (if cmd_jobs (sh_jobs s) = [] then ''no background jobs'' @ newline
                 else concat (map (\<lambda>(i, c). ''['' @ sw_number w (int i) @ ''] running  '' @ c @ newline) (cmd_jobs (sh_jobs s)))) s)
      else if cmd = ''fg'' then Inr (map_option (\<lambda>s. (Returns, s)) (cmd_fg w (case args of [] \<Rightarrow> None | a # _ \<Rightarrow> Some a) s))
      else if cmd = ''crash'' then Inl NullDeref
      else if cmd = ''exit'' then Inr (Some (Exits (case args of [] \<Rightarrow> 0 | a # _ \<Rightarrow> sw_atoi w a), s))
      else if cmd = ''export'' then on (cmd_export w args s)
      else if cmd = ''unset'' then on (s\<lparr>sh_requests := sh_requests s @ map Unset_var args\<rparr>)
      else on s)"

section \<open>The prompt\<close>

text \<open>
  One round of the loop in \<open>main\<close>: a line is read, put into the history and dispatched. The
  result is \<open>None\<close> while the line is not ended.
\<close>

definition main_step :: "u8 list \<Rightarrow> u8 list \<Rightarrow> readline_state \<Rightarrow> fault + (dispatched option \<times> u8 list \<times> readline_state) option" where
  "main_step prompt input rl =
     bindE (readline_readline prompt input rl) (\<lambda>(v, rest, rl).
       case v of
         None \<Rightarrow> Inr None
       | Some ret \<Rightarrow>
           if ret > 0 then
             bindE (readline_history_push (rl_buf rl) ret rl) (\<lambda>rl.
               Inr (Some (Some (dispatch (map (\<lambda>b. char_of (unat b)) (take (nat ret) (rl_buf rl)))), rest, rl)))
           else Inr (Some (None, rest, rl)))"

section \<open>Descriptors\<close>

text \<open>
  The descriptors that a sequence of calls opens, those at 30 and above that \<open>dup2\<close> makes
  included, and those that it closes.
\<close>

fun opened_by :: "sh_call \<Rightarrow> nat list" where
  "opened_by (SPipe r w) = [r, w]"
| "opened_by (SOpen path flags fd) = [fd]"
| "opened_by (SDup old new) = (if 30 \<le> new then [new] else [])"
| "opened_by _ = []"

fun closed_by :: "sh_call \<Rightarrow> nat list" where
  "closed_by (SClose fd) = [fd]"
| "closed_by _ = []"

fun forks_of :: "sh_call \<Rightarrow> (nat \<times> child) list" where
  "forks_of (SFork s ch p) = [(s, ch)]"
| "forks_of _ = []"

definition opened :: "sh_call list \<Rightarrow> nat list" where "opened cs = concat (map opened_by cs)"
definition closed :: "sh_call list \<Rightarrow> nat list" where "closed cs = concat (map closed_by cs)"
definition forks :: "sh_call list \<Rightarrow> (nat \<times> child) list" where "forks cs = concat (map forks_of cs)"

definition of_option :: "'b option \<Rightarrow> 'b list" where
  "of_option x = (case x of None \<Rightarrow> [] | Some y \<Rightarrow> [y])"

lemma of_option_simps [simp]: "of_option None = []" "of_option (Some y) = [y]"
  by (simp_all add: of_option_def)

lemma calls_simps [simp]:
  "opened [] = []" "opened (cs @ ds) = opened cs @ opened ds" "opened (c # cs) = opened_by c @ opened cs"
  "closed [] = []" "closed (cs @ ds) = closed cs @ closed ds" "closed (c # cs) = closed_by c @ closed cs"
  "forks [] = []" "forks (cs @ ds) = forks cs @ forks ds" "forks (c # cs) = forks_of c @ forks cs"
  by (simp_all add: opened_def closed_def forks_def)

lemma close_opt_calls [simp]: "opened (close_opt p) = []" "closed (close_opt p) = of_option p" "forks (close_opt p) = []"
  by (cases p; simp add: close_opt_def)+

section \<open>Nothing is left open\<close>

definition balanced :: "sh_call list \<Rightarrow> bool" where
  "balanced cs \<longleftrightarrow> mset (opened cs) = mset (closed cs)"

lemma apply_redirs_balanced: "\<forall>r\<in>set rs. r_fd r \<le> 2 \<Longrightarrow> balanced (fst (apply_redirs e doc i rs)) \<and> forks (fst (apply_redirs e doc i rs)) = []"
  by (induction rs arbitrary: i) (auto simp: balanced_def Let_def split: option.splits prod.splits)

lemma parse_redirs_fds: "parse_redirs room doc input ts = Inr (Some (ws, rs, h)) \<Longrightarrow> \<forall>r\<in>set rs. r_fd r \<le> 2"
proof (induction room doc input ts arbitrary: ws rs h rule: parse_redirs.induct)
  case (3 room doc input tok arg ts)
  have fd: "\<And>fd fl. redir_token tok = Some (fd, fl) \<Longrightarrow> fd \<le> 2" by (auto simp: redir_token_def split: if_splits)
  from 3 fd show ?case
    by (fastforce simp: bindE_Inr_iff split: option.splits if_splits prod.splits)
qed (auto split: if_splits)

lemma inprocess_balanced:
  assumes "\<forall>r\<in>set rs. r_fd r \<le> 2"
  shows "balanced (run_inprocess e doc rs argv) \<and> forks (run_inprocess e doc rs argv) = []"
proof (cases "rs = []")
  case True
  then show ?thesis by (simp add: run_inprocess_def balanced_def)
next
  case False
  let ?fds = "saved_fds rs"
  have d: "distinct ?fds" "set ?fds \<subseteq> {0, 1, 2}" by (auto simp: saved_fds_def)
  have oo: "opened (map (\<lambda>fd. SDup fd (30 + fd)) xs) = map ((+) 30) xs" "closed (map (\<lambda>fd. SDup fd (30 + fd)) xs) = []"
    "forks (map (\<lambda>fd. SDup fd (30 + fd)) xs) = []" for xs by (induction xs) auto
  let ?restore = "concat (map (\<lambda>i. if i \<in> set ?fds then [SDup (30 + i) i, SClose (30 + i)] else []) [0..<3])"
  have b: "opened ?restore = []" "closed ?restore = map ((+) 30) (filter (\<lambda>i. i \<in> set ?fds) [0..<3])" "forks ?restore = []"
    by (simp_all add: upt_rec)
  have "set ?fds = set (filter (\<lambda>i. i \<in> set ?fds) [0..<3])" using d(2) by auto
  then have "mset ?fds = mset (filter (\<lambda>i. i \<in> set ?fds) [0..<3])" using d(1) set_eq_iff_mset_eq_distinct by (metis distinct_filter distinct_upt)
  then have "mset (map ((+) 30) ?fds) = mset (map ((+) 30) (filter (\<lambda>i. i \<in> set ?fds) [0..<3]))" by (simp only: mset_map)
  then show ?thesis using False apply_redirs_balanced [OF assms, of e doc 0] by (simp add: run_inprocess_def balanced_def oo b)
qed

section \<open>The plumbing of a pipeline\<close>

text \<open>
  After the segments before \<open>s\<close> of \<open>n\<close>: what is open is the read end that waits for
  the next child, and the children so far are connected.
\<close>

definition ends_of :: "sh_env \<Rightarrow> nat \<Rightarrow> nat \<Rightarrow> (nat \<times> nat) option" where
  "ends_of e n s = (if Suc s < n then se_pipe e s else None)"

definition connected :: "sh_env \<Rightarrow> nat \<Rightarrow> (nat \<times> child) list \<Rightarrow> nat \<Rightarrow> child \<Rightarrow> bool" where
  "connected e n fs s ch \<longleftrightarrow> s < n \<and> (Suc s < n \<longrightarrow> se_pipe e s \<noteq> None) \<and> ch_stdout ch = map_option snd (ends_of e n s) \<and>
     ch_spare ch = map_option fst (ends_of e n s) \<and> (\<forall>r\<in>set (ch_redirs ch). r_fd r \<le> 2) \<and>
     (case s of 0 \<Rightarrow> ch_stdin ch = None
      | Suc k \<Rightarrow> ch_stdin ch = None \<and> (\<forall>c. (k, c) \<notin> set fs) \<or> ch_stdin ch = map_option fst (ends_of e n k) \<and> ch_stdin ch \<noteq> None)"

definition plumbed :: "sh_env \<Rightarrow> nat \<Rightarrow> (nat \<times> child) list \<Rightarrow> bool" where
  "plumbed e n fs \<longleftrightarrow> (\<forall>(s, ch)\<in>set fs. connected e n fs s ch)"

lemma connected_more: "connected e n fs s ch \<Longrightarrow> (\<And>k c. k < s \<Longrightarrow> (k, c) \<in> set fs' \<Longrightarrow> (k, c) \<in> set fs) \<Longrightarrow> connected e n fs' s ch"
  unfolding connected_def by (cases s) auto

definition going :: "sh_env \<Rightarrow> nat \<Rightarrow> nat \<Rightarrow> nat option \<Rightarrow> sh_call list \<Rightarrow> bool" where
  "going e n s prev cs \<longleftrightarrow> mset (opened cs) = mset (closed cs) + mset (of_option prev) \<and> plumbed e n (forks cs) \<and>
     (\<forall>(k, ch)\<in>set (forks cs). k < s) \<and>
     (case s of 0 \<Rightarrow> prev = None
      | Suc k \<Rightarrow> prev = None \<and> (k < n - 1 \<longrightarrow> (\<forall>c. (k, c) \<notin> set (forks cs))) \<or> prev = map_option fst (ends_of e n k) \<and> prev \<noteq> None)"

lemma going_end: "going e n s prev cs \<Longrightarrow> balanced (cs @ close_opt prev) \<and> plumbed e n (forks (cs @ close_opt prev))"
  by (simp add: going_def balanced_def)

lemma going_skip: "going e n s prev cs \<Longrightarrow> going e n (Suc s) None (cs @ close_opt prev)"
  by (auto simp: going_def)

lemma parse_segment_fds:
  assumes "parse_segment e seg doc input = Inr (Command ws rs, doc', input')"
  shows "\<forall>r\<in>set rs. r_fd r \<le> 2"
proof -
  let ?k = "\<lambda>r. case r of None \<Rightarrow> (Inr (Bad, doc, input) :: fault + _)
    | Some (ws, rs, doc, input) \<Rightarrow> if ws = [] then Inr (Nothing, doc, input) else Inr (Command ws rs, doc, input)"
  obtain ts r where r: "parse_redirs REDIR_MAX doc input ts = Inr r" "?k r = Inr (Command ws rs, doc', input')"
    using assms unfolding parse_segment_def Let_def by (auto elim!: bindE_InrE split: if_split_asm)
  then obtain h where "r = Some (ws, rs, h)" by (cases r) (auto split: if_splits)
  with r(1) show ?thesis using parse_redirs_fds by metis
qed

lemma going_command:
  assumes g: "going e n s prev cs" and s: "s < n" "Suc s < n \<Longrightarrow> se_pipe e s \<noteq> None" and rs: "\<forall>r\<in>set rs. r_fd r \<le> 2"
    and made: "opened made = (case ends_of e n s of None \<Rightarrow> [] | Some (r, w) \<Rightarrow> [r, w])" "closed made = []" "forks made = []"
    and calls: "balanced calls" "forks calls = [] \<and> n = 1 \<or>
      forks calls = [(s, \<lparr>ch_stdin = prev, ch_stdout = map_option snd (ends_of e n s), ch_spare = map_option fst (ends_of e n s), ch_redirs = rs, ch_text = doc, ch_argv = argv\<rparr>)]"
  shows "going e n (Suc s) (map_option fst (ends_of e n s)) (cs @ made @ calls @ close_opt (map_option snd (ends_of e n s)) @ close_opt prev)"
proof -
  let ?out = "ends_of e n s"
  let ?cs = "cs @ made @ calls @ close_opt (map_option snd ?out) @ close_opt prev"
  have fs: "set (forks ?cs) = set (forks cs) \<union> set (forks calls)" by (simp add: made)
  have old: "plumbed e n (forks cs)" "\<forall>(k, ch)\<in>set (forks cs). k < s" and m: "mset (opened cs) = mset (closed cs) + mset (of_option prev)"
    using g by (simp_all add: going_def)
  have "mset (opened ?cs) = mset (closed ?cs) + mset (of_option (map_option fst ?out))"
    using m calls(1) by (cases ?out) (auto simp: made balanced_def)
  moreover have "plumbed e n (forks ?cs)"
  proof -
    have before: "(k, c) \<notin> set (forks calls)" if "k < s" for k c using calls(2) that by auto
    have "connected e n (forks ?cs) j ch" if "(j, ch) \<in> set (forks cs)" for j ch
    proof (rule connected_more)
      show "connected e n (forks cs) j ch" using old(1) that by (auto simp: plumbed_def)
      show "(k, c) \<in> set (forks cs)" if "k < j" "(k, c) \<in> set (forks ?cs)" for k c
      proof -
        have "k < s" using old(2) \<open>(j, ch) \<in> set (forks cs)\<close> that(1) by auto
        then show ?thesis using before that(2) unfolding fs by blast
      qed
    qed
    moreover have prev: "case s of 0 \<Rightarrow> prev = None
        | Suc k \<Rightarrow> prev = None \<and> (\<forall>c. (k, c) \<notin> set (forks ?cs)) \<or> prev = map_option fst (ends_of e n k) \<and> prev \<noteq> None"
      using g s(1) before unfolding going_def fs by (auto split: nat.splits)
    have "connected e n (forks ?cs) j ch" if "(j, ch) \<in> set (forks calls)" for j ch
    proof -
      have j: "j = s" and ch: "ch_stdin ch = prev" "ch_stdout ch = map_option snd (ends_of e n s)" "ch_spare ch = map_option fst (ends_of e n s)" "ch_redirs ch = rs"
        using calls(2) that by auto
      show ?thesis unfolding connected_def j ch using prev s rs by (intro conjI impI) auto
    qed
    ultimately show ?thesis unfolding plumbed_def fs by blast
  qed
  moreover have "\<forall>(k, ch)\<in>set (forks ?cs). k < Suc s" using old(2) calls(2) by (auto simp: made)
  moreover have "map_option fst ?out = None \<and> (s < n - 1 \<longrightarrow> (\<forall>c. (s, c) \<notin> set (forks ?cs))) \<or> map_option fst ?out = map_option fst (ends_of e n s) \<and> map_option fst ?out \<noteq> None"
    using s by (auto simp: ends_of_def)
  ultimately show ?thesis by (simp add: going_def)
qed

lemma run_segs_going:
  "run_segs e alone s prev doc input segs pr = Inr (pr', input') \<Longrightarrow> n = s + length segs \<Longrightarrow> going e n s prev (pr_calls pr) \<Longrightarrow>
   (alone \<Longrightarrow> n = 1) \<Longrightarrow> balanced (pr_calls pr') \<and> plumbed e n (forks (pr_calls pr'))"
proof (induction segs arbitrary: s prev doc input pr)
  case Nil
  then show ?case using going_end [OF Nil(3)] by auto
next
  case (Cons seg segs)
  obtain sg doc1 input1 where sg: "parse_segment e seg doc input = Inr (sg, doc1, input1)"
    using Cons.prems(1) by (cases "parse_segment e seg doc input") auto
  show ?case
  proof (cases sg)
    case Nothing
    show ?thesis by (rule Cons.IH [of "s + 1" None doc1 input1 "pr\<lparr>pr_calls := pr_calls pr @ close_opt prev\<rparr>"])
      (use Cons.prems going_skip [OF Cons.prems(3)] in \<open>auto simp: sg Nothing\<close>)
  next
    case Bad
    then have "pr_calls pr' = pr_calls pr @ close_opt prev" using Cons.prems(1) by (auto simp: sg)
    then show ?thesis using going_end [OF Cons.prems(3)] by simp
  next
    case (Command argv rs)
    show ?thesis
    proof (cases "segs \<noteq> [] \<and> se_pipe e s = None")
      case True
      then have "pr_calls pr' = pr_calls pr @ close_opt prev" using Cons.prems(1) by (auto simp: sg Command)
      then show ?thesis using going_end [OF Cons.prems(3)] by simp
    next
      case False
      have n: "s < n" "Suc s < n \<longleftrightarrow> segs \<noteq> []" using Cons.prems(2) by auto
      let ?out = "ends_of e n s"
      let ?made = "case ?out of None \<Rightarrow> [] | Some (rd, wr) \<Rightarrow> [SPipe rd wr]"
      let ?ch = "\<lparr>ch_stdin = prev, ch_stdout = map_option snd ?out, ch_spare = map_option fst ?out, ch_redirs = rs, ch_text = doc1, ch_argv = argv\<rparr>"
      let ?calls = "if alone \<and> must_inprocess (hd argv) then run_inprocess e doc1 rs argv else [SFork s ?ch (se_fork e s)]"
      let ?all = "pr_calls pr @ ?made @ ?calls @ close_opt (map_option snd ?out) @ close_opt prev"
      have ends: "(if segs \<noteq> [] then se_pipe e s else None) = ?out" using n by (simp add: ends_of_def)
      let ?pids = "if alone \<and> must_inprocess (hd argv) then [] else if se_fork e s > 0 then [se_fork e s] else []"
      let ?pr = "pr\<lparr>pr_calls := ?all, pr_pids := pr_pids pr @ ?pids\<rparr>"
      have run: "run_segs e alone (s + 1) (map_option fst ?out) doc1 input1 segs ?pr = Inr (pr', input')"
        using Cons.prems(1) unfolding run_segs.simps sg Command bindE_simps prod.case segment.case if_not_P [OF False] Let_def ends
        by (cases "alone \<and> must_inprocess (hd argv)") auto
      have fds: "\<forall>r\<in>set rs. r_fd r \<le> 2" using parse_segment_fds [OF sg [unfolded Command]] .
      have m: "opened ?made = (case ?out of None \<Rightarrow> [] | Some (r, w) \<Rightarrow> [r, w])" "closed ?made = []" "forks ?made = []"
        by (auto split: option.split)
      have c: "balanced ?calls" "forks ?calls = [] \<and> n = 1 \<or> forks ?calls = [(s, ?ch)]"
        using inprocess_balanced [OF fds] Cons.prems(4) by (auto simp: balanced_def)
      have "going e n (Suc s) (map_option fst ?out) ?all"
        by (rule going_command [OF Cons.prems(3) n(1) _ fds m c]) (use False n in auto)
      then show ?thesis using Cons.IH [OF run] Cons.prems(2,4) by simp
    qed
  qed
qed


text \<open>A pipeline of two commands, with a pipe between them, of which the second writes to a file.\<close>

definition demo_sh :: sh_env where
  "demo_sh = \<lparr>se_dir = ''/'', se_getenv = (\<lambda>_. None), se_listing = (\<lambda>_. None), se_heap = True, se_pipe = (\<lambda>_. Some (3, 4)),
     se_fork = (\<lambda>s. int s + 7), se_redir_pipe = (\<lambda>_. None), se_open = (\<lambda>_ _. Some 3), se_last_exit = 0\<rparr>"

definition demo_child :: "nat option \<Rightarrow> nat option \<Rightarrow> nat option \<Rightarrow> redir list \<Rightarrow> string list \<Rightarrow> child" where
  "demo_child i o' sp rs as = \<lparr>ch_stdin = i, ch_stdout = o', ch_spare = sp, ch_redirs = rs, ch_text = [], ch_argv = as\<rparr>"

lemma demo_line:
  "run_pipeline demo_sh [] [] [Again, Done, Done] ''ls -l | wc > n'' [] =
   Inr (Some ([SPipe 3 4, SFork 0 (demo_child None (Some 4) (Some 3) [] [''ls'', ''-l'']) 7, SClose 4,
     SFork 1 (demo_child (Some 3) None None [\<lparr>r_fd = 1, r_flags = 0x241, r_path = ''n'', r_heredoc = False\<rparr>] [''wc'']) 8, SClose 3],
     [7, 8], Foreground [], []))"
  by code_simp


text \<open>A line with an ampersand only adds a job without tasks, and the number of its last one is read in front of the array.\<close>

lemma lone_ampersand: "run_pipeline demo_sh [] [] [] ''&'' [\<lparr>j_used = False, j_pids = [], j_cmd = []\<rparr>] = Inl BadAccess"
  by code_simp

end
